(* ===== verification/Otawa_Base.thy ===== *)
theory Otawa_Base
  imports Main "HOL-Library.Word"
begin

text \<open>
  Shared ground of the development: the result type of operations guarded by
  \<^verbatim>\<open>ASSERT\<close>, array loops of the form \<^verbatim>\<open>for(i = 0; i < size; i++)\<close>, and the list and
  word facts that the component theories use.

  An \<^verbatim>\<open>ASSERT(c)\<close> of the sources is a branch: \<open>Inl AssertFail\<close> when \<open>c\<close> does not hold.
  \<open>OutOfBounds\<close> is an access outside of an allocated array, \<open>Undefined\<close> an arithmetic operation
  without a defined result (a shift by the width or more, a division by zero), \<open>Raised\<close> a
  \<^verbatim>\<open>ProcessorException\<close> that a processor throws.
  Array indices are \<open>nat\<close>: every index of the modelled code is a loop counter, a basic
  block number or a cache block number, none of which is negative.
\<close>

subsection \<open>Results\<close>

datatype fault = AssertFail | OutOfBounds | Undefined | Raised

type_synonym 'a res = "fault + 'a"

definition asserting :: "bool \<Rightarrow> 'a res \<Rightarrow> 'a res" where
  "asserting c r = (if c then r else Inl AssertFail)"

definition rbind :: "'a res \<Rightarrow> ('a \<Rightarrow> 'b res) \<Rightarrow> 'b res" where
  "rbind r f = (case r of Inl e \<Rightarrow> Inl e | Inr x \<Rightarrow> f x)"

text \<open>A pointer that is used without a test.\<close>

definition deref :: "'a option \<Rightarrow> 'a res" where
  "deref p = (case p of None \<Rightarrow> Inl Undefined | Some x \<Rightarrow> Inr x)"

fun rfold :: "('a \<Rightarrow> 's \<Rightarrow> 's res) \<Rightarrow> 'a list \<Rightarrow> 's \<Rightarrow> 's res" where
  "rfold f [] s = Inr s"
| "rfold f (x # xs) s = rbind (f x s) (rfold f xs)"

named_theorems res_simps \<open>rewriting of guarded results\<close>

lemma asserting_True [simp, res_simps]: "asserting True r = r"
  by (simp add: asserting_def)

lemma asserting_False [simp, res_simps]: "asserting False r = Inl AssertFail"
  by (simp add: asserting_def)

lemma asserting_eq_Inr [res_simps]: "asserting c r = Inr x \<longleftrightarrow> c \<and> r = Inr x"
  by (simp add: asserting_def)

lemma rbind_Inr [simp, res_simps]: "rbind (Inr x) f = f x"
  by (simp add: rbind_def)

lemma rbind_Inl [simp, res_simps]: "rbind (Inl e) f = Inl e"
  by (simp add: rbind_def)

lemma rbind_eq_Inr [res_simps]: "rbind r f = Inr y \<longleftrightarrow> (\<exists>x. r = Inr x \<and> f x = Inr y)"
  by (cases r) auto

lemma rfold_append: "rfold f (xs @ ys) s = rbind (rfold f xs s) (rfold f ys)"
proof (induction xs arbitrary: s)
  case Nil
  then show ?case by simp
next
  case (Cons x xs)
  then show ?case by (cases "f x s") auto
qed

text \<open>Rule for a loop whose body never fails under an invariant.\<close>

lemma rfold_invariant:
  assumes "P [] s"
    and "\<And>pre x post t. xs = pre @ x # post \<Longrightarrow> P pre t \<Longrightarrow> \<exists>t'. f x t = Inr t' \<and> P (pre @ [x]) t'"
  shows "\<exists>t. rfold f xs s = Inr t \<and> P xs t"
proof -
  have "ys @ zs = xs \<Longrightarrow> \<exists>t. rfold f ys s = Inr t \<and> P ys t" for ys zs
  proof (induction ys arbitrary: zs rule: rev_induct)
    case Nil
    then show ?case using assms(1) by simp
  next
    case (snoc y ys)
    then obtain t where t: "rfold f ys s = Inr t" "P ys t" by auto
    then obtain t' where "f y t = Inr t'" "P (ys @ [y]) t'"
      using assms(2) [of ys y zs t] snoc.prems by auto
    with t show ?case by (auto simp: rfold_append)
  qed
  then show ?thesis by (metis append_Nil2)
qed

text \<open>The contexts that the abstract interpretation engine enters and leaves (HalfAbsInt.h).\<close>

datatype hai_context = CTX_LOOP | CTX_FUNC

subsection \<open>Counting loops over an array\<close>

text \<open>
  \<open>upd_loop f n xs\<close> is \<^verbatim>\<open>for(int i = 0; i < n; i++) xs[i] = f(i, xs)\<close>: the body reads the
  array as the earlier iterations left it.
\<close>

definition upd_loop :: "(nat \<Rightarrow> 'a list \<Rightarrow> 'a) \<Rightarrow> nat \<Rightarrow> 'a list \<Rightarrow> 'a list" where
  "upd_loop f n xs = fold (\<lambda>i ys. ys[i := f i ys]) [0..<n] xs"

lemma upd_loop_0 [simp]: "upd_loop f 0 xs = xs"
  by (simp add: upd_loop_def)

lemma upd_loop_Suc:
  "upd_loop f (Suc n) xs = (upd_loop f n xs)[n := f n (upd_loop f n xs)]"
  by (simp add: upd_loop_def)

lemma length_upd_loop [simp]: "length (upd_loop f n xs) = length xs"
  by (induction n) (simp_all add: upd_loop_Suc)

text \<open>A body that only reads its own cell is a pointwise map.\<close>

lemma nth_upd_loop_map:
  assumes "\<And>i ys. i < length ys \<Longrightarrow> f i ys = g i (ys ! i)" and "j < length xs" "n \<le> length xs"
  shows "upd_loop f n xs ! j = (if j < n then g j (xs ! j) else xs ! j)"
  using assms(3)
proof (induction n)
  case 0
  then show ?case by simp
next
  case (Suc n)
  then show ?case
    using assms(1) [of n "upd_loop f n xs"] assms(2)
    by (auto simp: upd_loop_Suc nth_list_update)
qed

text \<open>
  A body that reads its own cell and one pivot cell \<open>p\<close>: cells before the pivot see its
  first value, cells after it the value the pivot's own iteration left.
\<close>

lemma nth_upd_loop_pivot:
  assumes f: "\<And>i ys. i < length ys \<Longrightarrow> p < length ys \<Longrightarrow> f i ys = g (ys ! p) (ys ! i)"
    and j: "j < length xs" and p: "p < length xs" and n: "n \<le> length xs"
  shows "upd_loop f n xs ! j =
    (if j < n then g (if p < j then g (xs ! p) (xs ! p) else xs ! p) (xs ! j) else xs ! j)"
  using n j
proof (induction n arbitrary: j)
  case 0
  then show ?case by simp
next
  case (Suc n)
  then have n: "n < length xs" by simp
  define ys where "ys = upd_loop f n xs"
  have len: "length ys = length xs" by (simp add: ys_def)
  have yp: "ys ! p = (if p < n then g (xs ! p) (xs ! p) else xs ! p)"
    using Suc.IH [of p] n p by (simp add: ys_def)
  have yn: "ys ! n = xs ! n"
    using Suc.IH [of n] n by (simp add: ys_def)
  have "upd_loop f (Suc n) xs = ys[n := g (ys ! p) (ys ! n)]"
    using f [of n ys] n p len by (simp add: upd_loop_Suc ys_def)
  then show ?case
    using Suc.IH [of j] Suc.prems len yp yn n
    by (auto simp: nth_list_update ys_def less_Suc_eq)
qed

subsection \<open>Words\<close>

lemma unat_bound: "unat (w :: 'a::len word) < 2 ^ LENGTH('a)"
  by (rule unsigned_less)

lemma unat_drop_bit_div: "unat (drop_bit k w) = unat w div 2 ^ k"
  using unat_drop_bit_eq [of k w] by (simp only: drop_bit_eq_div)

end
