(* ===== verification/Elm_Int.thy ===== *)
theory Elm_Int
  imports Otawa_Base
begin

text \<open>
  The integer helpers of \<^verbatim>\<open>elm/int.h\<close> and \<^verbatim>\<open>elm/src/int.cpp\<close>, at their widths: the
  table-driven bit counters and left-most-bit search, rounding, powers of two and the
  multiplication with an overflow flag.
\<close>

unbundle bit_operations_syntax

subsection \<open>Operations\<close>

definition ones_table :: "nat list" where
  "ones_table =
    [0, 1, 1, 2, 1, 2, 2, 3, 1, 2, 2, 3, 2, 3, 3, 4,
     1, 2, 2, 3, 2, 3, 3, 4, 2, 3, 3, 4, 3, 4, 4, 5,
     1, 2, 2, 3, 2, 3, 3, 4, 2, 3, 3, 4, 3, 4, 4, 5,
     2, 3, 3, 4, 3, 4, 4, 5, 3, 4, 4, 5, 4, 5, 5, 6,
     1, 2, 2, 3, 2, 3, 3, 4, 2, 3, 3, 4, 3, 4, 4, 5,
     2, 3, 3, 4, 3, 4, 4, 5, 3, 4, 4, 5, 4, 5, 5, 6,
     2, 3, 3, 4, 3, 4, 4, 5, 3, 4, 4, 5, 4, 5, 5, 6,
     3, 4, 4, 5, 4, 5, 5, 6, 4, 5, 5, 6, 5, 6, 6, 7,
     1, 2, 2, 3, 2, 3, 3, 4, 2, 3, 3, 4, 3, 4, 4, 5,
     2, 3, 3, 4, 3, 4, 4, 5, 3, 4, 4, 5, 4, 5, 5, 6,
     2, 3, 3, 4, 3, 4, 4, 5, 3, 4, 4, 5, 4, 5, 5, 6,
     3, 4, 4, 5, 4, 5, 5, 6, 4, 5, 5, 6, 5, 6, 6, 7,
     2, 3, 3, 4, 3, 4, 4, 5, 3, 4, 4, 5, 4, 5, 5, 6,
     3, 4, 4, 5, 4, 5, 5, 6, 4, 5, 5, 6, 5, 6, 6, 7,
     3, 4, 4, 5, 4, 5, 5, 6, 4, 5, 5, 6, 5, 6, 6, 7,
     4, 5, 5, 6, 5, 6, 6, 7, 5, 6, 6, 7, 6, 7, 7, 8]"

definition ones8 :: "8 word \<Rightarrow> nat" where
  "ones8 i = ones_table ! unat i"

definition ones16 :: "16 word \<Rightarrow> nat" where
  "ones16 i = ones8 (ucast i) + ones8 (ucast (drop_bit 8 i))"

definition ones32 :: "32 word \<Rightarrow> nat" where
  "ones32 i = ones16 (ucast i) + ones16 (ucast (drop_bit 16 i))"

definition ones64 :: "64 word \<Rightarrow> nat" where
  "ones64 i = ones32 (ucast i) + ones32 (ucast (drop_bit 32 i))"

text \<open>\<^verbatim>\<open>LT(n)\<close> repeats its argument sixteen times.\<close>

definition msb_table :: "int list" where
  "msb_table =
    [-1, 0, 1, 1, 2, 2, 2, 2, 3, 3, 3, 3, 3, 3, 3, 3] @
    concat (map (replicate 16) [4, 5, 5, 6, 6, 6, 6, 7, 7, 7, 7, 7, 7, 7, 7])"

definition msb32 :: "32 word \<Rightarrow> int" where
  "msb32 i = (let m = drop_bit 16 i in
     if m \<noteq> 0 then
       (let n = drop_bit 8 m in
        if n \<noteq> 0 then msb_table ! unat n + 24 else msb_table ! unat m + 16)
     else
       (let n = drop_bit 8 i in
        if n \<noteq> 0 then msb_table ! unat n + 8 else msb_table ! unat i))"

definition msb64 :: "64 word \<Rightarrow> int" where
  "msb64 i = (let uw = ucast (drop_bit 32 i) :: 32 word in
     if uw \<noteq> 0 then msb32 uw + 32 else msb32 (ucast i))"

definition roundup :: "32 word \<Rightarrow> 32 word \<Rightarrow> 32 word res" where
  "roundup v m = (if m = 0 then Inl Undefined else Inr (((v - 1) div m + 1) * m))"

definition rounddown :: "32 word \<Rightarrow> 32 word \<Rightarrow> 32 word res" where
  "rounddown v m = (if m = 0 then Inl Undefined else Inr (v div m * m))"

text \<open>
  In \<^verbatim>\<open>1 << (m + 1)\<close> the left operand is a 32-bit \<^verbatim>\<open>int\<close> in both versions: a shift by
  32 or more has no defined result, and the 64-bit version sign-extends the shifted value.
\<close>

definition int_shl1 :: "nat \<Rightarrow> 32 word res" where
  "int_shl1 k = (if k < 32 then Inr (push_bit k 1) else Inl Undefined)"

definition leastUpperPowerOf2_32 :: "32 word \<Rightarrow> 32 word res" where
  "leastUpperPowerOf2_32 v = (let m = msb32 v in
     if m < 0 then Inr 0
     else if v = push_bit (nat m) 1 then Inr v
     else int_shl1 (nat (m + 1)))"

definition leastUpperPowerOf2_64 :: "64 word \<Rightarrow> 64 word res" where
  "leastUpperPowerOf2_64 v = (let m = msb64 v in
     if m < 0 then Inr 0
     else if v = push_bit (nat m) 1 then Inr v
     else rbind (int_shl1 (nat (m + 1))) (\<lambda>r. Inr (scast r)))"

definition mult32 :: "32 word \<Rightarrow> 32 word \<Rightarrow> 32 word \<times> bool" where
  "mult32 a b = (let r = a * b in (r, r < a \<or> r < b))"

definition mult64 :: "64 word \<Rightarrow> 64 word \<Rightarrow> 64 word \<times> bool" where
  "mult64 a b = (let r = a * b in (r, r < a \<or> r < b))"

subsection \<open>Bit counting\<close>

definition popcount :: "'a::len word \<Rightarrow> nat" where
  "popcount w = card {j. bit w j}"

text \<open>The table doubles: its upper half is its lower half plus one.\<close>

primrec doubling_table :: "nat \<Rightarrow> nat list" where
  "doubling_table 0 = [0]"
| "doubling_table (Suc n) = doubling_table n @ map Suc (doubling_table n)"

lemma length_doubling_table [simp]: "length (doubling_table n) = 2 ^ n"
  by (induction n) simp_all

lemma bits_finite_nat [simp]: "finite {j. bit (k :: nat) j}"
proof (rule finite_subset [of _ "{..<k}"])
  show "{j. bit k j} \<subseteq> {..<k}"
  proof clarsimp
    fix j assume "bit k j"
    then have "2 ^ j \<le> k" by (cases "k < 2 ^ j") (auto simp: bit_iff_odd)
    moreover have "j < 2 ^ j" by (rule less_exp)
    ultimately show "j < k" by linarith
  qed
qed simp

lemma nth_doubling_table: "k < 2 ^ n \<Longrightarrow> doubling_table n ! k = card {j. bit k j}"
proof (induction n arbitrary: k)
  case 0
  then show ?case by simp
next
  case (Suc n)
  show ?case
  proof (cases "k < 2 ^ n")
    case True
    then show ?thesis using Suc.IH by (simp add: nth_append)
  next
    case False
    define k' where "k' = k - 2 ^ n"
    have k: "k = 2 ^ n + k'" "k' < 2 ^ n" using False Suc.prems by (simp_all add: k'_def)
    have no: "\<not> bit k' j" if "n \<le> j" for j
    proof -
      have "k' < 2 ^ j" using k(2) that by (meson less_le_trans one_le_numeral power_increasing)
      then show ?thesis by (simp add: bit_iff_odd)
    qed
    have "k = 2 ^ n OR k'"
      unfolding k(1) by (rule disjunctive_add) (use no in \<open>auto simp: bit_exp_iff\<close>)
    then have "{j. bit k j} = insert n {j. bit k' j}" by (auto simp: bit_or_iff bit_exp_iff)
    then have "card {j. bit k j} = Suc (card {j. bit k' j})" using no by simp
    then show ?thesis using Suc.IH [OF k(2)] k by (simp add: nth_append)
  qed
qed

lemma ones_table_doubling: "ones_table = doubling_table 8"
  by code_simp

lemma ones8_popcount: "ones8 i = popcount i"
proof -
  have lt: "unat i < 2 ^ 8" using unat_bound [of i] by simp
  have "ones8 i = card {j. bit (unat i) j}"
    using nth_doubling_table [OF lt] by (simp only: ones8_def ones_table_doubling)
  then show ?thesis by (simp add: popcount_def bit_unsigned_iff)
qed

text \<open>A word splits into its low and its high half.\<close>

lemma popcount_split:
  fixes w :: "'a::len word"
  assumes "LENGTH('a) = 2 * LENGTH('b)" "LENGTH('b) = k"
  shows "popcount w = popcount (ucast w :: 'b::len word) + popcount (ucast (drop_bit k w) :: 'b word)"
proof -
  let ?lo = "{j. j < k \<and> bit w j}" and ?hi = "{j. k \<le> j \<and> bit w j}"
  have fin: "finite {j. bit w j}"
    by (rule finite_subset [of _ "{..<LENGTH('a)}"]) (auto dest: bit_imp_le_length)
  have "{j. bit w j} = ?lo \<union> ?hi" by auto
  moreover have "card (?lo \<union> ?hi) = card ?lo + card ?hi"
    by (rule card_Un_disjoint) (auto intro: finite_subset [OF _ fin])
  moreover have "?lo = {j. bit (ucast w :: 'b word) j}"
    using assms(2) by (auto simp: bit_unsigned_iff)
  moreover have "?hi = (+) k ` {j. bit (ucast (drop_bit k w) :: 'b word) j}"
  proof (rule set_eqI)
    fix i
    show "i \<in> ?hi \<longleftrightarrow> i \<in> (+) k ` {j. bit (ucast (drop_bit k w) :: 'b word) j}"
      using assms bit_imp_le_length [of w i]
      by (auto simp: bit_unsigned_iff bit_drop_bit_eq image_iff intro!: exI [of _ "i - k"])
  qed
  ultimately show ?thesis by (simp add: popcount_def card_image)
qed

lemma ones16_popcount: "ones16 i = popcount i"
  by (simp add: ones16_def ones8_popcount popcount_split [where 'b = 8 and k = 8])

lemma ones32_popcount: "ones32 i = popcount i"
  by (simp add: ones32_def ones16_popcount popcount_split [where 'b = 16 and k = 16])

lemma ones64_popcount: "ones64 i = popcount i"
  by (simp add: ones64_def ones32_popcount popcount_split [where 'b = 32 and k = 32])

subsection \<open>Left-most bit\<close>

lemma msb_table_ok:
  "list_all (\<lambda>k. 0 \<le> msb_table ! k \<and> 2 ^ nat (msb_table ! k) \<le> k \<and> k < 2 ^ Suc (nat (msb_table ! k))) [1..<256]"
  by code_simp

lemma msb_table_bounds:
  assumes "0 < k" "k < 256"
  shows "0 \<le> msb_table ! k" "2 ^ nat (msb_table ! k) \<le> k" "k < 2 ^ Suc (nat (msb_table ! k))"
proof -
  have "k \<in> set [1..<256]" using assms by simp
  then have "0 \<le> msb_table ! k \<and> 2 ^ nat (msb_table ! k) \<le> k \<and> k < 2 ^ Suc (nat (msb_table ! k))"
    using msb_table_ok unfolding list_all_iff by blast
  then show "0 \<le> msb_table ! k" "2 ^ nat (msb_table ! k) \<le> k" "k < 2 ^ Suc (nat (msb_table ! k))" by auto
qed

text \<open>\<open>is_msb m n\<close>: \<open>m\<close> is the position of the left-most one of \<open>n > 0\<close>.\<close>

definition is_msb :: "int \<Rightarrow> nat \<Rightarrow> bool" where
  "is_msb m n \<longleftrightarrow> 0 \<le> m \<and> 2 ^ nat m \<le> n \<and> n < 2 ^ Suc (nat m)"

lemma is_msb_table: "0 < k \<Longrightarrow> k < 256 \<Longrightarrow> is_msb (msb_table ! k) k"
  using msb_table_bounds [of k] by (simp add: is_msb_def)

lemma is_msb_shift:
  assumes "is_msb m (n div 2 ^ k)"
  shows "is_msb (m + int k) n"
proof -
  let ?q = "n div 2 ^ k"
  have m: "0 \<le> m" "2 ^ nat m \<le> ?q" "Suc ?q \<le> 2 ^ Suc (nat m)" using assms by (auto simp: is_msb_def)
  have e: "nat (m + int k) = nat m + k" using m(1) by (simp add: nat_add_distrib)
  have "2 ^ nat m * 2 ^ k \<le> ?q * 2 ^ k" using m(2) by (rule mult_le_mono1)
  also have "\<dots> \<le> n" by simp
  finally have lo: "2 ^ (nat m + k) \<le> n" by (simp add: power_add)
  have "n < Suc ?q * 2 ^ k" by (simp add: dividend_less_div_times)
  also have "\<dots> \<le> 2 ^ Suc (nat m) * 2 ^ k" using m(3) by (rule mult_le_mono1)
  finally have "n < 2 ^ Suc (nat m + k)" by (simp add: power_add)
  with lo m(1) e show ?thesis by (simp add: is_msb_def)
qed

lemma msb32_zero: "msb32 0 = -1"
  by (simp add: msb32_def msb_table_def)

lemma is_msb_msb32:
  assumes "i \<noteq> 0"
  shows "is_msb (msb32 i) (unat i)"
proof -
  have i: "0 < unat i" "unat i < 2 ^ 32" using assms unat_bound [of i] by (simp_all add: unat_gt_0)
  define m n1 n2 where "m = drop_bit 16 i" and "n1 = drop_bit 8 m" and "n2 = drop_bit 8 i"
  have u: "unat m = unat i div 2 ^ 16" "unat n1 = unat m div 2 ^ 8" "unat n2 = unat i div 2 ^ 8"
    by (simp_all only: m_def n1_def n2_def unat_drop_bit_div)
  have z: "m = 0 \<longleftrightarrow> unat m = 0" "n1 = 0 \<longleftrightarrow> unat n1 = 0" "n2 = 0 \<longleftrightarrow> unat n2 = 0"
    by (simp_all add: unat_eq_0)
  have u': "unat n1 = unat i div 2 ^ 24" unfolding u by (simp add: div_mult2_eq [symmetric])
  have b1: "unat n1 < 256" using i(2) by (simp add: u' less_mult_imp_div_less)
  have b2: "m = 0 \<Longrightarrow> unat n2 < 256" using z(1) u(1) by (simp add: u(3) less_mult_imp_div_less)
  have b3: "n1 = 0 \<Longrightarrow> unat m < 256" using z(2) u(2) by simp
  have b4: "m = 0 \<Longrightarrow> n2 = 0 \<Longrightarrow> unat i < 256" using z(3) u(3) by simp
  show ?thesis
    using is_msb_shift [of "msb_table ! unat n1" "unat i" 24] is_msb_shift [of "msb_table ! unat m" "unat i" 16]
      is_msb_shift [of "msb_table ! unat n2" "unat i" 8]
      is_msb_table [of "unat n1"] is_msb_table [of "unat m"] is_msb_table [of "unat n2"] is_msb_table [of "unat i"]
      b1 b2 b3 b4 z i(1) u(1,3) u'
    by (simp add: msb32_def Let_def flip: m_def n1_def n2_def)
qed

lemma is_msb_msb64:
  assumes "i \<noteq> 0"
  shows "is_msb (msb64 i) (unat i)"
proof -
  define uw where "uw = (ucast (drop_bit 32 i) :: 32 word)"
  have lt: "unat i < 2 ^ 64" using unat_bound [of i] by simp
  have u: "unat uw = unat i div 2 ^ 32"
    using lt by (simp add: uw_def unsigned_ucast_eq unat_drop_bit_div less_mult_imp_div_less take_bit_eq_mod)
  show ?thesis
  proof (cases "uw = 0")
    case False
    then show ?thesis
      using is_msb_shift [of "msb32 uw" "unat i" 32] is_msb_msb32 [of uw] u
      by (simp add: msb64_def Let_def flip: uw_def)
  next
    case True
    then have "unat i < 2 ^ 32" using u by simp
    then have lo: "unat (ucast i :: 32 word) = unat i"
      by (simp add: unsigned_ucast_eq take_bit_eq_mod)
    then have "(ucast i :: 32 word) \<noteq> 0" using assms by (metis unat_0 unat_eq_0)
    then show ?thesis
      using is_msb_msb32 [of "ucast i"] lo True by (simp add: msb64_def Let_def flip: uw_def)
  qed
qed

subsection \<open>Rounding and powers of two\<close>

lemma rounddown_spec:
  assumes "0 < m"
  shows "\<exists>r. rounddown v m = Inr r \<and> unat m dvd unat r \<and> r \<le> v \<and> unat v < unat r + unat m"
proof -
  let ?v = "unat v" and ?m = "unat m"
  have pos: "0 < ?m" "m \<noteq> 0" using assms by (auto simp: unat_gt_0)
  have "?v div ?m * ?m \<le> ?v" by simp
  moreover have "?v < 2 ^ 32" using unat_bound [of v] by simp
  ultimately have "?v div ?m * ?m < 2 ^ 32" by (rule le_less_trans)
  then have "unat (v div m * m) = ?v div ?m * ?m"
    by (simp add: unat_word_ariths unat_div mod_mult_left_eq)
  then show ?thesis
    using pos dividend_less_div_times [OF pos(1), of ?v]
    by (simp add: rounddown_def word_le_nat_alt)
qed

lemma roundup_spec:
  assumes "0 < v" "0 < m" "unat v + unat m \<le> 2 ^ 32"
  shows "\<exists>r. roundup v m = Inr r \<and> unat m dvd unat r \<and> v \<le> r \<and> unat r < unat v + unat m"
proof -
  let ?v = "unat v" and ?m = "unat m" and ?r = "((v - 1) div m + 1) * m"
  have pos: "0 < ?v" "0 < ?m" using assms(1,2) by (simp_all add: unat_gt_0 word_less_nat_alt)
  have "unat (v - 1) = ?v - 1" using assms(1) by (metis unat_minus_one word_neq_0_conv)
  then have q: "unat ((v - 1) div m) = (?v - 1) div ?m" by (simp add: unat_div)
  have le: "(?v - 1) div ?m * ?m \<le> ?v - 1" by simp
  have up: "?v - 1 < (?v - 1) div ?m * ?m + ?m" 
    using dividend_less_div_times [OF pos(2), of "?v - 1"] by simp
  have "((?v - 1) div ?m + 1) * ?m = (?v - 1) div ?m * ?m + ?m" by simp
  then have sm: "((?v - 1) div ?m + 1) * ?m < 2 ^ 32" using le pos assms(3) by linarith
  have "(?v - 1) div ?m + 1 \<le> ((?v - 1) div ?m + 1) * ?m" using pos(2) by (metis Suc_leI mult.right_neutral mult_le_mono2 One_nat_def)
  then have "unat ((v - 1) div m + 1) = (?v - 1) div ?m + 1"
    using sm q by (simp add: unat_word_ariths)
  then have r: "unat ?r = ((?v - 1) div ?m + 1) * ?m"
    using sm by (simp add: unat_word_ariths)
  then have "unat ?r = (?v - 1) div ?m * ?m + ?m" by simp
  then have "?v \<le> unat ?r" "unat ?r < ?v + ?m" using le up pos by linarith+
  then show ?thesis using r assms(2) by (simp add: roundup_def word_le_nat_alt)
qed

definition is_lub_pow2 :: "nat \<Rightarrow> nat \<Rightarrow> bool" where
  "is_lub_pow2 v r \<longleftrightarrow> (\<exists>k. r = 2 ^ k) \<and> v \<le> r \<and> (\<forall>k. v \<le> 2 ^ k \<longrightarrow> r \<le> 2 ^ k)"

lemma is_lub_pow2_self: "is_lub_pow2 (2 ^ k) (2 ^ k)"
  by (auto simp: is_lub_pow2_def)

lemma is_lub_pow2_next:
  assumes "is_msb m v" "v \<noteq> 2 ^ nat m"
  shows "is_lub_pow2 v (2 ^ Suc (nat m))"
  unfolding is_lub_pow2_def
proof (intro conjI allI impI)
  show "\<exists>k. (2 :: nat) ^ Suc (nat m) = 2 ^ k" by blast
  show "v \<le> 2 ^ Suc (nat m)" using assms(1) by (simp add: is_msb_def)
  fix k assume k: "v \<le> 2 ^ k"
  have "2 ^ nat m < v" using assms by (auto simp: is_msb_def)
  then have "(2 :: nat) ^ nat m < 2 ^ k" using k by linarith
  then have "nat m < k" by simp
  then show "(2 :: nat) ^ Suc (nat m) \<le> 2 ^ k" by (simp add: Suc_le_eq power_increasing del: power_Suc)
qed

lemma unat_push_bit_1: "k < LENGTH('a) \<Longrightarrow> unat (push_bit k 1 :: 'a::len word) = 2 ^ k"
  by (subst unsigned_push_bit_eq) (simp add: take_bit_push_bit push_bit_eq_mult)

lemma is_msb_less_exp:
  assumes "is_msb m v" "v < 2 ^ k"
  shows "nat m < k"
proof -
  have "(2 :: nat) ^ nat m < 2 ^ k" using assms unfolding is_msb_def by linarith
  then show ?thesis by (rule power_less_imp_less_exp [rotated]) simp
qed

lemma leastUpperPowerOf2_32_cases:
  assumes "v \<noteq> 0"
  shows "leastUpperPowerOf2_32 v =
    (if unat v = 2 ^ nat (msb32 v) then Inr v else int_shl1 (Suc (nat (msb32 v))))"
proof -
  have m: "is_msb (msb32 v) (unat v)" by (rule is_msb_msb32 [OF assms])
  then have "nat (msb32 v) < 32" using is_msb_less_exp [OF m, of 32] unat_bound [of v] by simp
  then have "v = push_bit (nat (msb32 v)) 1 \<longleftrightarrow> unat v = 2 ^ nat (msb32 v)"
    using unat_push_bit_1 [of "nat (msb32 v)", where 'a = 32] by (auto simp: word_unat_eq_iff)
  moreover have "\<not> msb32 v < 0" "nat (msb32 v + 1) = Suc (nat (msb32 v))" using m by (auto simp: is_msb_def)
  ultimately show ?thesis by (simp add: leastUpperPowerOf2_32_def Let_def)
qed

lemma leastUpperPowerOf2_32_spec:
  assumes "v \<noteq> 0" "unat v \<le> 2 ^ 31"
  shows "\<exists>r. leastUpperPowerOf2_32 v = Inr r \<and> is_lub_pow2 (unat v) (unat r)"
proof (cases "unat v = 2 ^ nat (msb32 v)")
  case True
  then show ?thesis
    using leastUpperPowerOf2_32_cases [OF assms(1)] is_lub_pow2_self [of "nat (msb32 v)"] by simp
next
  case False
  have m: "is_msb (msb32 v) (unat v)" by (rule is_msb_msb32 [OF assms(1)])
  have "(2 :: nat) ^ nat (msb32 v) < 2 ^ 31" using m False assms(2) by (auto simp: is_msb_def)
  then have "nat (msb32 v) < 31" by (rule power_less_imp_less_exp [rotated]) simp
  then have "Suc (nat (msb32 v)) < 32" by simp
  then have "int_shl1 (Suc (nat (msb32 v))) = Inr (push_bit (Suc (nat (msb32 v))) 1)"
    "unat (push_bit (Suc (nat (msb32 v))) 1 :: 32 word) = 2 ^ Suc (nat (msb32 v))"
    using unat_push_bit_1 [of "Suc (nat (msb32 v))", where 'a = 32] by (simp_all add: int_shl1_def)
  then show ?thesis
    using leastUpperPowerOf2_32_cases [OF assms(1)] is_lub_pow2_next [OF m False] False by simp
qed

lemma leastUpperPowerOf2_32_undefined:
  assumes "2 ^ 31 < unat v"
  shows "leastUpperPowerOf2_32 v = Inl Undefined"
proof -
  have v0: "v \<noteq> 0" using assms by auto
  have m: "is_msb (msb32 v) (unat v)" by (rule is_msb_msb32 [OF v0])
  have "(2 :: nat) ^ 31 < 2 ^ Suc (nat (msb32 v))" using m assms by (auto simp: is_msb_def)
  then have "31 \<le> nat (msb32 v)" by (metis Suc_less_eq2 less_Suc_eq_le one_less_numeral_iff power_less_imp_less_exp semiring_norm(76))
  moreover have "nat (msb32 v) < 32" using is_msb_less_exp [OF m, of 32] unat_bound [of v] by simp
  ultimately have "nat (msb32 v) = 31" by simp
  then show ?thesis
    using leastUpperPowerOf2_32_cases [OF v0] assms by (simp add: int_shl1_def)
qed

subsection \<open>Multiplication with an overflow flag\<close>

lemma mult32_exact:
  assumes "0 < a" "0 < b" "unat a * unat b < 2 ^ 32"
  shows "mult32 a b = (a * b, False) \<and> unat (a * b) = unat a * unat b"
proof -
  have u: "unat (a * b) = unat a * unat b" using assms(3) by (simp add: unat_word_ariths)
  have "unat a \<le> unat a * unat b" "unat b \<le> unat a * unat b"
    using assms(1,2) by (auto simp: word_less_nat_alt)
  then show ?thesis using u by (simp only: mult32_def Let_def word_less_nat_alt prod.inject) (use leD in blast)
qed

end
