(* ===== verification/Elm_Bit_Vector.thy ===== *)
theory Elm_Bit_Vector
  imports Elm_Int
begin

text \<open>
  \<^verbatim>\<open>elm::BitVector\<close> (elm/include/elm/util/BitVector.h, elm/src/util_BitVector.cpp): a
  vector of bits packed in bytes. The state is the byte array and the size in bits; the
  bits of the last byte beyond the size are padding. Methods declared \<^verbatim>\<open>const\<close> that
  call \<^verbatim>\<open>mask()\<close> still write the last byte, so they return the vector they leave.

  \<open>bv_set\<close> abstracts a vector to the set of its indices; \<open>bv_wf\<close> is the layout
  invariant and \<open>bv_clean\<close> says that the padding is zero, which some operations need
  of their argument and others establish.
\<close>

unbundle bit_operations_syntax

type_synonym byte = "8 word"

record bitvec =
  bv_bits :: "byte list"
  bv_size :: nat

subsection \<open>Operations\<close>

definition bv_bytes :: "bitvec \<Rightarrow> nat" where
  "bv_bytes v = (bv_size v + 7) div 8"

definition byte_index :: "nat \<Rightarrow> nat" where
  "byte_index i = i div 8"

definition bit_index :: "nat \<Rightarrow> nat" where
  "bit_index i = i mod 8"

definition bv_mask :: "bitvec \<Rightarrow> bitvec" where
  "bv_mask v =
     (let m = drop_bit (8 - bv_size v mod 8) (255 :: byte) in
      if m \<noteq> 0
      then v\<lparr>bv_bits := (bv_bits v)[bv_bytes v - 1 := (bv_bits v ! (bv_bytes v - 1)) AND m]\<rparr>
      else v)"

definition bv_null :: bitvec where
  "bv_null = \<lparr>bv_bits = [], bv_size = 0\<rparr>"

definition bv_new :: "nat \<Rightarrow> bool \<Rightarrow> bitvec res" where
  "bv_new n b = asserting (0 < n)
     (Inr \<lparr>bv_bits = replicate ((n + 7) div 8) (if b then 255 else 0), bv_size = n\<rparr>)"

definition bv_clone :: "bitvec \<Rightarrow> bitvec" where
  "bv_clone v = \<lparr>bv_bits = take (bv_bytes v) (bv_bits v), bv_size = bv_size v\<rparr>"

definition bv_bit :: "bitvec \<Rightarrow> nat \<Rightarrow> bool res" where
  "bv_bit v i = asserting (i < bv_size v)
     (Inr ((bv_bits v ! byte_index i) AND push_bit (bit_index i) 1 \<noteq> 0))"

definition bv_isEmpty :: "bitvec \<Rightarrow> bool \<times> bitvec" where
  "bv_isEmpty v = (let v' = bv_mask v in
     (\<forall>i \<in> set [0..<bv_bytes v']. bv_bits v' ! i = 0, v'))"

definition bv_includes :: "bitvec \<Rightarrow> bitvec \<Rightarrow> (bool \<times> bitvec) res" where
  "bv_includes v w = asserting (bv_size v = bv_size w)
     (let v' = bv_mask v in
      Inr (\<forall>i \<in> set [0..<bv_bytes v']. NOT (bv_bits v' ! i) AND (bv_bits w ! i) = 0, v'))"

definition bv_includesStrictly :: "bitvec \<Rightarrow> bitvec \<Rightarrow> (bool \<times> bitvec) res" where
  "bv_includesStrictly v w = asserting (bv_size v = bv_size w)
     (let v' = bv_mask v in
      Inr ((\<forall>i \<in> set [0..<bv_bytes v']. NOT (bv_bits v' ! i) AND (bv_bits w ! i) = 0) \<and>
           (\<exists>i \<in> set [0..<bv_bytes v']. bv_bits v' ! i \<noteq> bv_bits w ! i), v'))"

definition bv_equals :: "bitvec \<Rightarrow> bitvec \<Rightarrow> (bool \<times> bitvec) res" where
  "bv_equals v w = asserting (bv_size v = bv_size w)
     (let v' = bv_mask v in
      Inr (\<forall>i \<in> set [0..<bv_bytes v']. bv_bits v' ! i = bv_bits w ! i, v'))"

definition bv_set_bit :: "bitvec \<Rightarrow> nat \<Rightarrow> bitvec res" where
  "bv_set_bit v i = asserting (i < bv_size v)
     (Inr (v\<lparr>bv_bits := (bv_bits v)[byte_index i :=
        (bv_bits v ! byte_index i) OR push_bit (bit_index i) 1]\<rparr>))"

definition bv_clear_bit :: "bitvec \<Rightarrow> nat \<Rightarrow> bitvec res" where
  "bv_clear_bit v i = asserting (i < bv_size v)
     (Inr (v\<lparr>bv_bits := (bv_bits v)[byte_index i :=
        (bv_bits v ! byte_index i) AND NOT (push_bit (bit_index i) 1)]\<rparr>))"

definition bv_put_bit :: "bitvec \<Rightarrow> nat \<Rightarrow> bool \<Rightarrow> bitvec res" where
  "bv_put_bit v i b = asserting (i < bv_size v)
     (if b then bv_set_bit v i else bv_clear_bit v i)"

definition bv_copy :: "bitvec \<Rightarrow> bitvec \<Rightarrow> bitvec res" where
  "bv_copy v w = asserting (bv_size v = bv_size w)
     (Inr (v\<lparr>bv_bits := take (bv_bytes v) (bv_bits w)\<rparr>))"

definition bv_clear_all :: "bitvec \<Rightarrow> bitvec" where
  "bv_clear_all v = v\<lparr>bv_bits := replicate (bv_bytes v) 0\<rparr>"

definition bv_set_all :: "bitvec \<Rightarrow> bitvec" where
  "bv_set_all v = bv_mask (v\<lparr>bv_bits := replicate (bv_bytes v) 255\<rparr>)"

definition bv_applyNot :: "bitvec \<Rightarrow> bitvec" where
  "bv_applyNot v = v\<lparr>bv_bits := upd_loop (\<lambda>i bs. NOT (bs ! i)) (bv_bytes v) (bv_bits v)\<rparr>"

definition bv_applyOr :: "bitvec \<Rightarrow> bitvec \<Rightarrow> bitvec res" where
  "bv_applyOr v w = asserting (bv_size v = bv_size w)
     (Inr (v\<lparr>bv_bits := upd_loop (\<lambda>i bs. (bs ! i) OR (bv_bits w ! i)) (bv_bytes v) (bv_bits v)\<rparr>))"

definition bv_applyAnd :: "bitvec \<Rightarrow> bitvec \<Rightarrow> bitvec res" where
  "bv_applyAnd v w = asserting (bv_size v = bv_size w)
     (Inr (v\<lparr>bv_bits := upd_loop (\<lambda>i bs. (bs ! i) AND (bv_bits w ! i)) (bv_bytes v) (bv_bits v)\<rparr>))"

definition bv_applyReset :: "bitvec \<Rightarrow> bitvec \<Rightarrow> bitvec res" where
  "bv_applyReset v w = asserting (bv_size v = bv_size w)
     (Inr (bv_mask (v\<lparr>bv_bits :=
        upd_loop (\<lambda>i bs. (bs ! i) AND NOT (bv_bits w ! i)) (bv_bytes v) (bv_bits v)\<rparr>)))"

definition bv_makeNot :: "bitvec \<Rightarrow> bitvec res" where
  "bv_makeNot v = rbind (bv_new (bv_size v) False) (\<lambda>r.
     Inr (r\<lparr>bv_bits := upd_loop (\<lambda>i _. NOT (bv_bits v ! i)) (bv_bytes v) (bv_bits r)\<rparr>))"

definition bv_makeOr :: "bitvec \<Rightarrow> bitvec \<Rightarrow> bitvec res" where
  "bv_makeOr v w = asserting (bv_size v = bv_size w)
     (rbind (bv_new (bv_size v) False) (\<lambda>r.
        Inr (r\<lparr>bv_bits := upd_loop (\<lambda>i _. (bv_bits v ! i) OR (bv_bits w ! i)) (bv_bytes v) (bv_bits r)\<rparr>)))"

definition bv_makeAnd :: "bitvec \<Rightarrow> bitvec \<Rightarrow> bitvec res" where
  "bv_makeAnd v w = asserting (bv_size v = bv_size w)
     (rbind (bv_new (bv_size v) False) (\<lambda>r.
        Inr (r\<lparr>bv_bits := upd_loop (\<lambda>i _. (bv_bits v ! i) AND (bv_bits w ! i)) (bv_bytes v) (bv_bits r)\<rparr>)))"

definition bv_makeReset :: "bitvec \<Rightarrow> bitvec \<Rightarrow> bitvec res" where
  "bv_makeReset v w = asserting (bv_size v = bv_size w)
     (rbind (bv_new (bv_size v) False) (\<lambda>r.
        Inr (r\<lparr>bv_bits := upd_loop (\<lambda>i _. (bv_bits v ! i) AND NOT (bv_bits w ! i)) (bv_bytes v) (bv_bits r)\<rparr>)))"

text \<open>
  \<^verbatim>\<open>operator=\<close>: a fresh array when the byte counts differ, then \<^verbatim>\<open>copy\<close>, whose
  assertion compares the sizes in bits.
\<close>

definition bv_assign :: "bitvec \<Rightarrow> bitvec \<Rightarrow> bitvec res" where
  "bv_assign v w =
     (if bv_bytes v \<noteq> bv_bytes w
      then bv_copy \<lparr>bv_bits = replicate (bv_bytes w) 0, bv_size = bv_size w\<rparr> w
      else bv_copy v w)"

text \<open>
  \<^verbatim>\<open>BitCounter\<close>: the table entry of a byte is the number of masks \<open>1, 2, 4, \<dots>, 128\<close>
  that meet it.
\<close>

definition bit_counter :: "byte \<Rightarrow> nat" where
  "bit_counter b = length (filter (\<lambda>j. b AND push_bit j 1 \<noteq> 0) [0..<8])"

definition bv_countBits :: "bitvec \<Rightarrow> nat" where
  "bv_countBits v = fold (\<lambda>i r. r + bit_counter (bv_bits v ! i)) [0..<bv_bytes v] 0"

definition bv_countOnes :: "bitvec \<Rightarrow> nat" where
  "bv_countOnes v = fold (\<lambda>i cnt. cnt + ones8 (bv_bits v ! i)) [0..<bv_bytes v] 0"

definition bv_countZeroes :: "bitvec \<Rightarrow> int" where
  "bv_countZeroes v = int (bv_countBits v) - int (bv_countOnes v)"

text \<open>
  \<^verbatim>\<open>BitVector(vec, new_size)\<close>: the extending branch copies \<^verbatim>\<open>vec._size\<close> bytes where the
  array of \<^verbatim>\<open>vec\<close> holds \<^verbatim>\<open>vec.bytes()\<close> of them, hence the bounds test.
\<close>

definition bv_resized :: "bitvec \<Rightarrow> nat \<Rightarrow> bitvec res" where
  "bv_resized v n = asserting (0 < n)
     (let b = (n + 7) div 8 in
      if bv_size v \<le> n
      then if bv_size v \<le> length (bv_bits v) \<and> bv_size v \<le> b
           then Inr \<lparr>bv_bits = take (bv_bytes v) (bv_bits v) @ replicate (b - bv_bytes v) 0, bv_size = n\<rparr>
           else Inl OutOfBounds
      else Inr (bv_mask \<lparr>bv_bits = take b (bv_bits v), bv_size = n\<rparr>))"

text \<open>\<^verbatim>\<open>resize\<close> allocates an array whose contents (\<open>fresh\<close>) are not specified.\<close>

definition bv_resize :: "byte list \<Rightarrow> bitvec \<Rightarrow> nat \<Rightarrow> bitvec" where
  "bv_resize fresh v n = (let b = (n + 7) div 8 in
     \<lparr>bv_bits = (if bv_bytes v \<noteq> b then take b fresh else bv_bits v), bv_size = n\<rparr>)"

text \<open>The first index from \<open>i\<close> on whose bit is \<open>b\<close>, or the size: the loop of \<^verbatim>\<open>next()\<close>.\<close>

function bv_scan :: "bool \<Rightarrow> bitvec \<Rightarrow> nat \<Rightarrow> nat" where
  "bv_scan b v i = (if i < bv_size v \<and> bv_bit v i \<noteq> Inr b then bv_scan b v (Suc i) else i)"
  by pat_completeness auto
termination
  by (relation "measure (\<lambda>(b, v, i). bv_size v - i)") auto

declare bv_scan.simps [simp del]

text \<open>\<^verbatim>\<open>OneIterator\<close> and \<^verbatim>\<open>ZeroIterator\<close>: the constructor and \<^verbatim>\<open>next\<close> position the
  iterator, \<^verbatim>\<open>ended\<close> tests its position.\<close>

definition one_start :: "bitvec \<Rightarrow> nat" where
  "one_start v = bv_scan True v 0"

definition one_next :: "bitvec \<Rightarrow> nat \<Rightarrow> nat" where
  "one_next v i = bv_scan True v (Suc i)"

definition one_ended :: "bitvec \<Rightarrow> nat \<Rightarrow> bool" where
  "one_ended v i \<longleftrightarrow> bv_size v \<le> i"


subsection \<open>Abstraction and layout\<close>

definition bv_get :: "bitvec \<Rightarrow> nat \<Rightarrow> bool" where
  "bv_get v i = bit (bv_bits v ! (i div 8)) (i mod 8)"

definition bv_set :: "bitvec \<Rightarrow> nat set" where
  "bv_set v = {i. i < bv_size v \<and> bv_get v i}"

definition bv_wf :: "bitvec \<Rightarrow> bool" where
  "bv_wf v \<longleftrightarrow> length (bv_bits v) = bv_bytes v"

definition bv_clean :: "bitvec \<Rightarrow> bool" where
  "bv_clean v \<longleftrightarrow> (\<forall>i. bv_size v \<le> i \<longrightarrow> i < 8 * bv_bytes v \<longrightarrow> \<not> bv_get v i)"

lemma div8_less_bytes: "i div 8 < bv_bytes v \<longleftrightarrow> i < 8 * bv_bytes v"
  by (simp add: div_less_iff_less_mult mult.commute)

lemma size_le_bytes: "bv_size v \<le> 8 * bv_bytes v"
  unfolding bv_bytes_def by presburger

lemma bytes_less: "8 * bv_bytes v < bv_size v + 8"
  unfolding bv_bytes_def by presburger

lemma bv_set_bounded: "bv_set v \<subseteq> {..<bv_size v}"
  by (auto simp: bv_set_def)

lemma finite_bv_set [simp]: "finite (bv_set v)"
  using bv_set_bounded finite_subset by blast

lemma byte_bit: "(b :: byte) AND 2 ^ n = 0 \<longleftrightarrow> \<not> bit b n"
  by (simp add: and_exp_eq_0_iff_not_bit)

lemma byte_eqI:
  fixes a b :: byte
  assumes "\<And>j. j < 8 \<Longrightarrow> bit a j = bit b j"
  shows "a = b"
  using assms by (intro bit_word_eqI) simp

text \<open>Byte-wise facts become facts about every bit of the vector.\<close>

lemma all_bytes_bits:
  "(\<forall>k < n. \<forall>j < 8. P (8 * k + j)) \<longleftrightarrow> (\<forall>i < 8 * n. P (i :: nat))"
proof
  assume *: "\<forall>k < n. \<forall>j < 8. P (8 * k + j)"
  show "\<forall>i < 8 * n. P i"
  proof (intro allI impI)
    fix i assume "i < 8 * n"
    then have "i div 8 < n" "i mod 8 < 8" by auto
    with * have "P (8 * (i div 8) + i mod 8)" by blast
    then show "P i" by simp
  qed
next
  assume *: "\<forall>i < 8 * n. P i"
  show "\<forall>k < n. \<forall>j < 8. P (8 * k + j)"
  proof (intro allI impI)
    fix k j :: nat assume "k < n" "j < 8"
    then have "8 * k + j < 8 * n" by linarith
    with * show "P (8 * k + j)" by blast
  qed
qed

lemma bytes_eq_iff:
  "(\<forall>k < n. bv_bits v ! k = bv_bits w ! k) \<longleftrightarrow> (\<forall>i < 8 * n. bv_get v i = bv_get w i)"
proof -
  have "bv_bits v ! k = bv_bits w ! k \<longleftrightarrow> (\<forall>j < 8. bv_get v (8 * k + j) = bv_get w (8 * k + j))" for k
    by (auto simp: bv_get_def intro: byte_eqI)
  then show ?thesis
    using all_bytes_bits [of n "\<lambda>i. bv_get v i = bv_get w i"] by simp
qed

lemma byte_zero_iff: "(b :: byte) = 0 \<longleftrightarrow> (\<forall>j < 8. \<not> bit b j)"
  by (auto intro: byte_eqI)

lemma bytes_zero_iff:
  "(\<forall>k < n. bv_bits v ! k = 0) \<longleftrightarrow> (\<forall>i < 8 * n. \<not> bv_get v i)"
  using all_bytes_bits [of n "\<lambda>i. \<not> bv_get v i"]
  by (simp add: bv_get_def byte_zero_iff)

lemma bytes_include_iff:
  "(\<forall>k < n. NOT (bv_bits v ! k) AND (bv_bits w ! k) = 0) \<longleftrightarrow>
   (\<forall>i < 8 * n. bv_get w i \<longrightarrow> bv_get v i)"
proof -
  have "NOT (bv_bits v ! k) AND (bv_bits w ! k) = 0 \<longleftrightarrow>
    (\<forall>j < 8. bv_get w (8 * k + j) \<longrightarrow> bv_get v (8 * k + j))" for k
    by (auto simp: bv_get_def byte_zero_iff bit_and_iff bit_not_iff)
  then show ?thesis
    using all_bytes_bits [of n "\<lambda>i. bv_get w i \<longrightarrow> bv_get v i"] by simp
qed

text \<open>Two vectors with the same size and the same clean bits are equal.\<close>

lemma bv_clean_set_iff:
  assumes "bv_clean v" "i < 8 * bv_bytes v"
  shows "bv_get v i \<longleftrightarrow> i \<in> bv_set v"
  using assms by (auto simp: bv_clean_def bv_set_def) (meson leI)

lemma bv_eqI:
  assumes "bv_wf v" "bv_wf w" "bv_clean v" "bv_clean w" "bv_size v = bv_size w" "bv_set v = bv_set w"
  shows "v = (w :: bitvec)"
proof -
  have bytes: "bv_bytes v = bv_bytes w"
    using assms(5) by (simp add: bv_bytes_def)
  have "\<forall>i < 8 * bv_bytes v. bv_get v i = bv_get w i"
    using assms bytes by (simp add: bv_clean_set_iff)
  then have "\<forall>k < bv_bytes v. bv_bits v ! k = bv_bits w ! k"
    by (simp add: bytes_eq_iff)
  then have "bv_bits v = bv_bits w"
    using assms(1,2) bytes by (auto simp: bv_wf_def intro: nth_equalityI)
  then show ?thesis using assms(5) by simp
qed

subsection \<open>Masking\<close>

lemma bv_mask_size [simp]: "bv_size (bv_mask v) = bv_size v"
  by (simp add: bv_mask_def Let_def)

lemma bv_mask_bytes [simp]: "bv_bytes (bv_mask v) = bv_bytes v"
  by (simp add: bv_bytes_def)

lemma bv_mask_wf [simp]: "bv_wf v \<Longrightarrow> bv_wf (bv_mask v)"
  by (simp add: bv_wf_def) (simp add: bv_mask_def Let_def)

lemma bit_255: "bit (255 :: byte) j \<longleftrightarrow> j < 8"
proof -
  have "bit (255 :: byte) j = bit (mask 8 :: byte) j"
    by (simp add: mask_eq_exp_minus_1)
  then show ?thesis by (simp only: bit_mask_iff) auto
qed

lemma bit_mask_byte: "r \<le> 8 \<Longrightarrow> bit (drop_bit (8 - r) (255 :: byte)) j \<longleftrightarrow> j < r"
  by (simp only: bit_drop_bit_eq o_apply bit_255) auto

lemma bv_mask_get:
  assumes "bv_wf v" "i < 8 * bv_bytes v"
  shows "bv_get (bv_mask v) i \<longleftrightarrow> bv_get v i \<and> i < bv_size v"
proof -
  define r where "r = bv_size v mod 8"
  define m where "m = drop_bit (8 - r) (255 :: byte)"
  have r8: "r < 8" by (simp add: r_def)
  have bit_m: "bit m j \<longleftrightarrow> j < r" for j
    using bit_mask_byte [of r j] r8 by (auto simp: m_def)
  have m0: "m = 0 \<longleftrightarrow> r = 0"
    using bit_m r8 by (auto simp: byte_zero_iff dest: spec [of _ "0 :: nat"])
  show ?thesis
  proof (cases "r = 0")
    case True
    then have "bv_mask v = v"
      using m0 by (simp add: bv_mask_def Let_def flip: r_def m_def)
    moreover have "8 * bv_bytes v = bv_size v"
      using True unfolding r_def bv_bytes_def by presburger
    ultimately show ?thesis using assms(2) by simp
  next
    case False
    have "bv_bytes v = (8 * (bv_size v div 8) + (r + 7)) div 8"
      by (simp add: bv_bytes_def r_def)
    also have "\<dots> = bv_size v div 8 + (r + 7) div 8" by simp
    also have "(r + 7) div 8 = 1" using False r8 by arith
    finally have last: "bv_bytes v - 1 = bv_size v div 8" "bv_size v div 8 < bv_bytes v" by simp_all
    have eq: "bv_bits (bv_mask v) = (bv_bits v)[bv_size v div 8 := (bv_bits v ! (bv_size v div 8)) AND m]"
      using False m0 last by (simp add: bv_mask_def Let_def flip: r_def m_def)
    have idiv: "i div 8 < length (bv_bits v)"
      using assms div8_less_bytes [of i v] by (simp add: bv_wf_def)
    show ?thesis
    proof (cases "i div 8 = bv_size v div 8")
      case True
      then have "i < bv_size v \<longleftrightarrow> i mod 8 < r"
        unfolding r_def
        using mult_div_mod_eq [of 8 i] mult_div_mod_eq [of 8 "bv_size v"] by linarith
      then show ?thesis
        using True idiv by (simp add: bv_get_def eq bit_and_iff bit_m)
    next
      case False
      have "i div 8 < bv_size v div 8"
        using False assms(2) last div8_less_bytes [of i v] by linarith
      then have "i < bv_size v"
        using div_le_mono linorder_not_less by blast
      then show ?thesis
        using False by (simp add: bv_get_def eq)
    qed
  qed
qed

lemma bv_mask_set [simp]: "bv_wf v \<Longrightarrow> bv_set (bv_mask v) = bv_set v"
  using size_le_bytes [of v] by (auto simp: bv_set_def bv_mask_get)

lemma bv_mask_clean [simp]: "bv_wf v \<Longrightarrow> bv_clean (bv_mask v)"
  by (simp add: bv_clean_def bv_mask_get)

lemma bv_mask_id: "bv_wf v \<Longrightarrow> bv_clean v \<Longrightarrow> bv_mask v = v"
  by (rule bv_eqI) simp_all


subsection \<open>Refinement of finite sets\<close>

text \<open>\<open>bv_rep n S v\<close>: \<open>v\<close> represents \<open>S \<subseteq> {..<n}\<close> with its padding clean.\<close>

definition bv_rep :: "nat \<Rightarrow> nat set \<Rightarrow> bitvec \<Rightarrow> bool" where
  "bv_rep n S v \<longleftrightarrow> bv_wf v \<and> bv_clean v \<and> bv_size v = n \<and> bv_set v = S"

lemma bv_repI:
  assumes "bv_wf v" "bv_size v = n" "S \<subseteq> {..<n}"
    and "\<And>i. i < 8 * bv_bytes v \<Longrightarrow> bv_get v i \<longleftrightarrow> i \<in> S"
  shows "bv_rep n S v"
  using assms size_le_bytes [of v]
  by (fastforce simp: bv_rep_def bv_clean_def bv_set_def)

lemma bv_rep_get: "bv_rep n S v \<Longrightarrow> i < 8 * bv_bytes v \<Longrightarrow> bv_get v i \<longleftrightarrow> i \<in> S"
  by (auto simp: bv_rep_def bv_clean_set_iff)

lemma bv_rep_sub: "bv_rep n S v \<Longrightarrow> S \<subseteq> {..<n}"
  using bv_set_bounded [of v] by (auto simp: bv_rep_def)

lemma bv_rep_bytes: "bv_rep n S v \<Longrightarrow> bv_bytes v = (n + 7) div 8"
  by (simp add: bv_rep_def bv_bytes_def)

lemma bv_rep_unique: "bv_rep n S v \<Longrightarrow> bv_rep n S w \<Longrightarrow> v = w"
  by (auto simp: bv_rep_def intro: bv_eqI)

lemma bv_rep_inj: "bv_rep n S v \<Longrightarrow> bv_rep m T v \<Longrightarrow> n = m \<and> S = T"
  by (auto simp: bv_rep_def)

lemma bv_rep_mask [simp]: "bv_rep n S v \<Longrightarrow> bv_mask v = v"
  by (auto simp: bv_rep_def bv_mask_id)

lemma bv_rep_maskI: "bv_wf v \<Longrightarrow> bv_size v = n \<Longrightarrow> bv_rep n (bv_set v) (bv_mask v)"
  by (simp add: bv_rep_def)

lemma bytewise_get:
  assumes "bv_wf v" "i < 8 * bv_bytes v"
  shows "bv_get (v\<lparr>bv_bits := upd_loop (\<lambda>k bs. g k (bs ! k)) (bv_bytes v) (bv_bits v)\<rparr>) i =
    bit (g (i div 8) (bv_bits v ! (i div 8))) (i mod 8)"
proof -
  have "i div 8 < bv_bytes v" using assms(2) div8_less_bytes by blast
  then show ?thesis
    using assms(1) by (simp add: bv_get_def bv_wf_def nth_upd_loop_map)
qed

lemma bytewise_wf:
  assumes "bv_wf v"
  shows "bv_wf (v\<lparr>bv_bits := upd_loop f (bv_bytes v) (bv_bits v)\<rparr>)"
    and "bv_bytes (v\<lparr>bv_bits := bs\<rparr>) = bv_bytes v"
  using assms by (simp_all add: bv_wf_def bv_bytes_def)

lemma bv_new_rep:
  assumes "0 < n"
  shows "\<exists>v. bv_new n False = Inr v \<and> bv_rep n {} v"
  using assms
  by (auto simp: bv_new_def intro!: bv_repI)
    (simp_all add: bv_wf_def bv_bytes_def bv_get_def div_less_iff_less_mult)

lemma bv_clone_rep: "bv_rep n S v \<Longrightarrow> bv_clone v = v"
  by (simp add: bv_clone_def bv_rep_def bv_wf_def)

lemma bv_bit_eq: "i < bv_size v \<Longrightarrow> bv_bit v i = Inr (i \<in> bv_set v)"
  by (simp add: bv_bit_def byte_bit bv_set_def bv_get_def byte_index_def bit_index_def)

lemma bv_bit_rep: "bv_rep n S v \<Longrightarrow> i < n \<Longrightarrow> bv_bit v i = Inr (i \<in> S)"
  by (simp add: bv_bit_eq bv_rep_def)

lemma bv_bit_fault: "bv_size v \<le> i \<Longrightarrow> bv_bit v i = Inl AssertFail"
  by (simp add: bv_bit_def)

text \<open>Writing one byte changes the bits of that byte only.\<close>

lemma one_byte_rep:
  assumes v: "bv_rep n S v" and i: "i < n" and T: "T \<subseteq> {..<n}"
    and b: "\<And>j. j < 8 \<Longrightarrow> bit b j \<longleftrightarrow> 8 * (i div 8) + j \<in> T"
    and other: "\<And>k. k div 8 \<noteq> i div 8 \<Longrightarrow> k \<in> T \<longleftrightarrow> k \<in> S"
  shows "bv_rep n T (v\<lparr>bv_bits := (bv_bits v)[i div 8 := b]\<rparr>)" (is "bv_rep n T ?w")
proof (rule bv_repI)
  show "bv_wf ?w" "bv_size ?w = n"
    using v by (simp_all add: bv_rep_def bv_wf_def bv_bytes_def)
  show "T \<subseteq> {..<n}" by (rule T)
  fix k assume "k < 8 * bv_bytes ?w"
  then have k: "k < 8 * bv_bytes v" by (simp add: bv_bytes_def)
  have len: "i div 8 < length (bv_bits v)"
    using v i size_le_bytes [of v] div8_less_bytes [of i v]
    by (auto simp: bv_rep_def bv_wf_def)
  show "bv_get ?w k \<longleftrightarrow> k \<in> T"
  proof (cases "k div 8 = i div 8")
    case True
    then have "8 * (i div 8) + k mod 8 = k" by (metis mult_div_mod_eq)
    then show ?thesis using True len b [of "k mod 8"] by (simp add: bv_get_def)
  next
    case False
    then have "bv_get ?w k = bv_get v k" by (simp add: bv_get_def)
    then show ?thesis using bv_rep_get [OF v k] other [OF False] by simp
  qed
qed

lemma byte_bits_rep:
  assumes "bv_rep n S v" "i < n" "j < 8"
  shows "bit (bv_bits v ! (i div 8)) j \<longleftrightarrow> 8 * (i div 8) + j \<in> S"
proof -
  have "i div 8 < bv_bytes v"
    using assms size_le_bytes [of v] div8_less_bytes [of i v] by (auto simp: bv_rep_def)
  then have "8 * (i div 8) + j < 8 * bv_bytes v" using assms(3) by linarith
  from bv_rep_get [OF assms(1) this] assms(3) show ?thesis by (simp add: bv_get_def)
qed

lemma same_byte_eq: "j < 8 \<Longrightarrow> 8 * (i div 8) + j = i \<longleftrightarrow> j = i mod (8 :: nat)"
  by (metis add_left_cancel mult_div_mod_eq)

lemma bv_set_bit_rep:
  assumes "bv_rep n S v" "i < n"
  shows "\<exists>w. bv_set_bit v i = Inr w \<and> bv_rep n (insert i S) w"
proof -
  have sz: "bv_size v = n" using assms(1) by (simp add: bv_rep_def)
  have "bv_rep n (insert i S)
    (v\<lparr>bv_bits := (bv_bits v)[i div 8 := (bv_bits v ! (i div 8)) OR push_bit (i mod 8) 1]\<rparr>)"
    using assms bv_rep_sub [OF assms(1)]
    by (intro one_byte_rep [OF assms])
      (auto simp: bit_or_iff bit_exp_iff byte_bits_rep [OF assms] same_byte_eq)
  then show ?thesis
    using assms(2) sz by (simp add: bv_set_bit_def byte_index_def bit_index_def)
qed

lemma bv_clear_bit_rep:
  assumes "bv_rep n S v" "i < n"
  shows "\<exists>w. bv_clear_bit v i = Inr w \<and> bv_rep n (S - {i}) w"
proof -
  have sz: "bv_size v = n" using assms(1) by (simp add: bv_rep_def)
  have "bv_rep n (S - {i})
    (v\<lparr>bv_bits := (bv_bits v)[i div 8 := (bv_bits v ! (i div 8)) AND NOT (push_bit (i mod 8) 1)]\<rparr>)"
    using assms bv_rep_sub [OF assms(1)]
    by (intro one_byte_rep [OF assms])
      (auto simp: bit_and_iff bit_not_iff bit_exp_iff byte_bits_rep [OF assms] same_byte_eq)
  then show ?thesis
    using assms(2) sz by (simp add: bv_clear_bit_def byte_index_def bit_index_def)
qed


subsection \<open>Whole-vector operations\<close>

lemma bv_clear_all_rep: "bv_rep n S v \<Longrightarrow> bv_rep n {} (bv_clear_all v)"
  by (rule bv_repI)
    (simp_all add: bv_clear_all_def bv_rep_def bv_wf_def bv_bytes_def bv_get_def div_less_iff_less_mult)

lemma bv_set_all_rep:
  assumes "bv_rep n S v"
  shows "bv_rep n {..<n} (bv_set_all v)"
proof -
  let ?w = "v\<lparr>bv_bits := replicate (bv_bytes v) 255\<rparr>"
  have wf: "bv_wf ?w" and sz: "bv_size ?w = n"
    using assms by (simp_all add: bv_wf_def bv_bytes_def bv_rep_def)
  have "bv_get ?w i" if "i < n" for i
  proof -
    have "i div 8 < bv_bytes v"
      using that assms size_le_bytes [of v] div8_less_bytes [of i v] by (auto simp: bv_rep_def)
    moreover have "bit (255 :: byte) (i mod 8)" by (rule iffD2 [OF bit_255]) simp
    ultimately show ?thesis unfolding bv_get_def by (simp del: bit_numeral_word_iff)
  qed
  then have "bv_set ?w = {..<n}"
    using sz by (auto simp: bv_set_def)
  then show ?thesis
    using bv_rep_maskI [OF wf sz] by (simp add: bv_set_all_def)
qed

lemma bv_copy_rep:
  assumes "bv_rep n S v" "bv_rep n T w"
  shows "bv_copy v w = Inr w"
proof -
  have "bv_bytes v = bv_bytes w" "bv_size v = bv_size w"
    using assms by (simp_all add: bv_rep_def bv_bytes_def)
  moreover have "length (bv_bits w) = bv_bytes w" using assms(2) by (simp add: bv_rep_def bv_wf_def)
  ultimately show ?thesis by (simp add: bv_copy_def)
qed

lemma bv_assign_rep: "bv_rep n S v \<Longrightarrow> bv_rep n T w \<Longrightarrow> bv_assign v w = Inr w"
  by (simp add: bv_assign_def bv_copy_rep bv_rep_bytes)

text \<open>Assignment between sizes that need different byte counts works; between different
  sizes with the same byte count the assertion of \<^verbatim>\<open>copy\<close> fails.\<close>

lemma bv_assign_resize:
  assumes "bv_wf w" "bv_bytes v \<noteq> bv_bytes w"
  shows "bv_assign v w = Inr w"
  using assms by (simp add: bv_assign_def bv_copy_def bv_wf_def bv_bytes_def)

lemma bv_assign_fault:
  assumes "bv_bytes v = bv_bytes w" "bv_size v \<noteq> bv_size w"
  shows "bv_assign v w = Inl AssertFail"
  using assms by (simp add: bv_assign_def bv_copy_def)

lemma bytewise_rep:
  assumes v: "bv_rep n S v" and T: "T \<subseteq> {..<n}"
    and g: "\<And>i. i < 8 * bv_bytes v \<Longrightarrow> bit (g (i div 8) (bv_bits v ! (i div 8))) (i mod 8) \<longleftrightarrow> i \<in> T"
  shows "bv_rep n T (v\<lparr>bv_bits := upd_loop (\<lambda>k bs. g k (bs ! k)) (bv_bytes v) (bv_bits v)\<rparr>)"
proof (rule bv_repI [OF _ _ T])
  have wf: "bv_wf v" using v by (simp add: bv_rep_def)
  show "bv_wf (v\<lparr>bv_bits := upd_loop (\<lambda>k bs. g k (bs ! k)) (bv_bytes v) (bv_bits v)\<rparr>)"
    by (rule bytewise_wf(1) [OF wf])
  show "bv_size (v\<lparr>bv_bits := upd_loop (\<lambda>k bs. g k (bs ! k)) (bv_bytes v) (bv_bits v)\<rparr>) = n"
    using v by (simp add: bv_rep_def)
  show "bv_get (v\<lparr>bv_bits := upd_loop (\<lambda>k bs. g k (bs ! k)) (bv_bytes v) (bv_bits v)\<rparr>) i \<longleftrightarrow> i \<in> T"
    if "i < 8 * bv_bytes (v\<lparr>bv_bits := upd_loop (\<lambda>k bs. g k (bs ! k)) (bv_bytes v) (bv_bits v)\<rparr>)" for i
  proof -
    have "i < 8 * bv_bytes v" using that by (simp add: bv_bytes_def)
    then show ?thesis using bytewise_get [OF wf, of i g] g by blast
  qed
qed

lemma bits_rep:
  assumes "bv_rep n S v" "bv_bytes v = bv_bytes w" "i < 8 * bv_bytes w"
  shows "bit (bv_bits v ! (i div 8)) (i mod 8) \<longleftrightarrow> i \<in> S"
  using bv_rep_get [OF assms(1), of i] assms(2,3) by (simp add: bv_get_def)

lemma rep_same_bytes: "bv_rep n S v \<Longrightarrow> bv_rep n T w \<Longrightarrow> bv_bytes v = bv_bytes w"
  by (simp add: bv_rep_bytes)

lemma rep_same_size: "bv_rep n S v \<Longrightarrow> bv_rep n T w \<Longrightarrow> bv_size v = bv_size w"
  by (simp add: bv_rep_def)

lemma bv_applyOr_rep:
  assumes v: "bv_rep n S v" and w: "bv_rep n T w"
  shows "\<exists>u. bv_applyOr v w = Inr u \<and> bv_rep n (S \<union> T) u"
proof -
  have "bv_rep n (S \<union> T)
    (v\<lparr>bv_bits := upd_loop (\<lambda>i bs. (bs ! i) OR (bv_bits w ! i)) (bv_bytes v) (bv_bits v)\<rparr>)"
    using bv_rep_sub [OF v] bv_rep_sub [OF w]
    by (intro bytewise_rep [OF v])
      (auto simp: bit_or_iff bits_rep [OF v refl] bits_rep [OF w rep_same_bytes [OF w v]])
  then show ?thesis using rep_same_size [OF v w] by (simp add: bv_applyOr_def)
qed

lemma bv_applyAnd_rep:
  assumes v: "bv_rep n S v" and w: "bv_rep n T w"
  shows "\<exists>u. bv_applyAnd v w = Inr u \<and> bv_rep n (S \<inter> T) u"
proof -
  have "bv_rep n (S \<inter> T)
    (v\<lparr>bv_bits := upd_loop (\<lambda>i bs. (bs ! i) AND (bv_bits w ! i)) (bv_bytes v) (bv_bits v)\<rparr>)"
    using bv_rep_sub [OF v] bv_rep_sub [OF w]
    by (intro bytewise_rep [OF v])
      (auto simp: bit_and_iff bits_rep [OF v refl] bits_rep [OF w rep_same_bytes [OF w v]])
  then show ?thesis using rep_same_size [OF v w] by (simp add: bv_applyAnd_def)
qed

lemma bv_applyReset_rep:
  assumes v: "bv_rep n S v" and w: "bv_rep n T w"
  shows "\<exists>u. bv_applyReset v w = Inr u \<and> bv_rep n (S - T) u"
proof -
  have *: "bv_rep n (S - T)
    (v\<lparr>bv_bits := upd_loop (\<lambda>i bs. (bs ! i) AND NOT (bv_bits w ! i)) (bv_bytes v) (bv_bits v)\<rparr>)"
    using bv_rep_sub [OF v]
    by (intro bytewise_rep [OF v])
      (auto simp: bit_and_iff bit_not_iff bits_rep [OF v refl] bits_rep [OF w rep_same_bytes [OF w v]])
  then show ?thesis
    using rep_same_size [OF v w] bv_rep_mask [OF *] by (simp add: bv_applyReset_def)
qed

text \<open>
  Complement keeps the layout and complements the set, but it sets the padding: the
  result is in general not clean.
\<close>

lemma bv_applyNot_spec:
  assumes v: "bv_rep n S v"
  shows "bv_wf (bv_applyNot v) \<and> bv_size (bv_applyNot v) = n \<and> bv_set (bv_applyNot v) = {..<n} - S"
proof -
  have wf: "bv_wf v" and sz: "bv_size v = n" using v by (simp_all add: bv_rep_def)
  have "bv_get (bv_applyNot v) i \<longleftrightarrow> i \<notin> S" if "i < 8 * bv_bytes v" for i
    using bytewise_get [OF wf that, of "\<lambda>_. (NOT)"] bits_rep [OF v refl that]
    by (simp add: bv_applyNot_def bit_not_iff)
  then have "bv_set (bv_applyNot v) = {..<n} - S"
    using sz size_le_bytes [of v] by (auto simp: bv_set_def bv_applyNot_def)
  then show ?thesis
    using bytewise_wf(1) [OF wf] sz by (simp add: bv_applyNot_def)
qed

text \<open>The constructors of results start from a zeroed vector and write every byte.\<close>

lemma make_rep:
  assumes n: "0 < n" and T: "T \<subseteq> {..<n}"
    and g: "\<And>i. i < 8 * ((n + 7) div 8) \<Longrightarrow> bit (g (i div 8) :: byte) (i mod 8) \<longleftrightarrow> i \<in> T"
  shows "\<exists>u. rbind (bv_new n False) (\<lambda>r.
      Inr (r\<lparr>bv_bits := upd_loop (\<lambda>k _. g k) ((n + 7) div 8) (bv_bits r)\<rparr>)) = Inr u \<and> bv_rep n T u"
proof -
  obtain r where r: "bv_new n False = Inr r" "bv_rep n {} r" using bv_new_rep [OF n] by blast
  have "bv_bytes r = (n + 7) div 8" by (rule bv_rep_bytes [OF r(2)])
  then show ?thesis
    using r bytewise_rep [OF r(2) T, of "\<lambda>k _. g k"] g by simp
qed

lemma rep_make_facts:
  assumes "bv_rep n S v"
  shows "bv_size v = n" "bv_bytes v = (n + 7) div 8"
    "i < 8 * ((n + 7) div 8) \<Longrightarrow> bit (bv_bits v ! (i div 8)) (i mod 8) \<longleftrightarrow> i \<in> S"
  using assms bits_rep [OF assms refl, of i] bv_rep_bytes [OF assms] by (simp_all add: bv_rep_def)

lemma bv_makeOr_rep:
  assumes v: "bv_rep n S v" and w: "bv_rep n T w" and n: "0 < n"
  shows "\<exists>u. bv_makeOr v w = Inr u \<and> bv_rep n (S \<union> T) u"
proof -
  have "S \<union> T \<subseteq> {..<n}" using bv_rep_sub [OF v] bv_rep_sub [OF w] by blast
  from make_rep [OF n this, of "\<lambda>k. (bv_bits v ! k) OR (bv_bits w ! k)"] show ?thesis
    by (simp add: bv_makeOr_def bit_or_iff rep_make_facts [OF v] rep_make_facts [OF w])
qed

lemma bv_makeAnd_rep:
  assumes v: "bv_rep n S v" and w: "bv_rep n T w" and n: "0 < n"
  shows "\<exists>u. bv_makeAnd v w = Inr u \<and> bv_rep n (S \<inter> T) u"
proof -
  have "S \<inter> T \<subseteq> {..<n}" using bv_rep_sub [OF v] by blast
  from make_rep [OF n this, of "\<lambda>k. (bv_bits v ! k) AND (bv_bits w ! k)"] show ?thesis
    by (simp add: bv_makeAnd_def bit_and_iff rep_make_facts [OF v] rep_make_facts [OF w])
qed

lemma bv_makeReset_rep:
  assumes v: "bv_rep n S v" and w: "bv_rep n T w" and n: "0 < n"
  shows "\<exists>u. bv_makeReset v w = Inr u \<and> bv_rep n (S - T) u"
proof -
  have "S - T \<subseteq> {..<n}" using bv_rep_sub [OF v] by blast
  from make_rep [OF n this, of "\<lambda>k. (bv_bits v ! k) AND NOT (bv_bits w ! k)"] show ?thesis
    by (simp add: bv_makeReset_def bit_and_iff bit_not_iff rep_make_facts [OF v] rep_make_facts [OF w])
qed

subsection \<open>Comparisons\<close>

text \<open>
  The receiver is masked first, so only the argument needs clean padding. Each comparison
  leaves the receiver masked.
\<close>

lemma ball_upt: "(\<forall>i \<in> set [0..<n]. P i) \<longleftrightarrow> (\<forall>i < n. P i)"
  "(\<exists>i \<in> set [0..<n]. P i) \<longleftrightarrow> (\<exists>i < n. P i)"
  by auto

lemma bv_isEmpty_spec:
  assumes "bv_wf v"
  shows "bv_isEmpty v = (bv_set v = {}, bv_mask v)"
proof -
  have "(\<forall>i < 8 * bv_bytes v. \<not> bv_get (bv_mask v) i) \<longleftrightarrow> (\<forall>i < bv_size v. \<not> bv_get v i)"
    using assms size_le_bytes [of v] bv_mask_get [OF assms] by (meson less_le_trans)
  moreover have "\<dots> \<longleftrightarrow> bv_set v = {}" by (auto simp: bv_set_def)
  ultimately have "(\<forall>i < 8 * bv_bytes v. \<not> bv_get (bv_mask v) i) \<longleftrightarrow> bv_set v = {}" by blast
  then show ?thesis
    by (simp add: bv_isEmpty_def Let_def ball_upt bytes_zero_iff del: set_upt)
qed

lemma mask_rep_get:
  assumes "bv_wf v" "bv_rep n T w" "bv_size v = n" "i < 8 * bv_bytes v"
  shows "bv_get (bv_mask v) i \<longleftrightarrow> i \<in> bv_set v" "bv_get w i \<longleftrightarrow> i \<in> T"
proof -
  have "bv_bytes v = bv_bytes w" using assms by (simp add: bv_rep_def bv_bytes_def)
  then show "bv_get w i \<longleftrightarrow> i \<in> T" using bv_rep_get [OF assms(2)] assms(4) by simp
  show "bv_get (bv_mask v) i \<longleftrightarrow> i \<in> bv_set v" using assms by (auto simp: bv_mask_get bv_set_def)
qed

lemma all_in_vector:
  assumes "A \<subseteq> {..<bv_size v}" "B \<subseteq> {..<bv_size v}"
  shows "(\<forall>i < 8 * bv_bytes v. i \<in> A \<longrightarrow> i \<in> B) \<longleftrightarrow> A \<subseteq> B"
    "(\<forall>i < 8 * bv_bytes v. i \<in> A \<longleftrightarrow> i \<in> B) \<longleftrightarrow> A = B"
  using assms size_le_bytes [of v] by (fastforce simp: subset_iff set_eq_iff)+

lemma bv_includes_spec:
  assumes "bv_wf v" "bv_rep n T w" "bv_size v = n"
  shows "bv_includes v w = Inr (T \<subseteq> bv_set v, bv_mask v)"
proof -
  have "(\<forall>i < 8 * bv_bytes v. bv_get w i \<longrightarrow> bv_get (bv_mask v) i) \<longleftrightarrow> T \<subseteq> bv_set v"
    using all_in_vector(1) [of T v "bv_set v"] bv_rep_sub [OF assms(2)] bv_set_bounded [of v] assms
    by (simp add: mask_rep_get [OF assms])
  moreover have "bv_size w = n" using assms(2) by (simp add: bv_rep_def)
  ultimately show ?thesis
    using assms(3) by (simp add: bv_includes_def Let_def ball_upt bytes_include_iff del: set_upt)
qed

lemma bytes_same_iff:
  assumes "bv_wf v" "bv_rep n T w" "bv_size v = n"
  shows "(\<forall>k < bv_bytes v. bv_bits (bv_mask v) ! k = bv_bits w ! k) \<longleftrightarrow> bv_set v = T"
  using all_in_vector(2) [of "bv_set v" v T] bv_rep_sub [OF assms(2)] bv_set_bounded [of v] assms
  by (simp add: bytes_eq_iff mask_rep_get [OF assms])

lemma bv_equals_spec:
  assumes "bv_wf v" "bv_rep n T w" "bv_size v = n"
  shows "bv_equals v w = Inr (bv_set v = T, bv_mask v)"
proof -
  have "bv_size w = n" using assms(2) by (simp add: bv_rep_def)
  then show ?thesis
    using assms(3) bytes_same_iff [OF assms]
    by (simp add: bv_equals_def Let_def ball_upt del: set_upt)
qed

lemma bv_includesStrictly_spec:
  assumes "bv_wf v" "bv_rep n T w" "bv_size v = n"
  shows "bv_includesStrictly v w = Inr (T \<subset> bv_set v, bv_mask v)"
proof -
  have sw: "bv_size w = n" using assms(2) by (simp add: bv_rep_def)
  have inc: "(\<forall>k < bv_bytes v. NOT (bv_bits (bv_mask v) ! k) AND (bv_bits w ! k) = 0) \<longleftrightarrow> T \<subseteq> bv_set v"
    using bv_includes_spec [OF assms] sw assms(3)
    by (simp add: bv_includes_def Let_def ball_upt del: set_upt)
  have "(\<exists>k < bv_bytes v. bv_bits (bv_mask v) ! k \<noteq> bv_bits w ! k) \<longleftrightarrow> bv_set v \<noteq> T"
    using bytes_same_iff [OF assms] by blast
  with inc show ?thesis
    using sw assms(3) by (auto simp: bv_includesStrictly_def Let_def ball_upt simp del: set_upt)
qed

subsection \<open>Counting and iterating\<close>

lemma bit_counter_card: "bit_counter b = card {j. j < 8 \<and> bit b j}"
proof -
  have "bit_counter b = length (filter (bit b) [0..<8])"
    unfolding bit_counter_def by (simp add: byte_bit)
  also have "\<dots> = card (set (filter (bit b) [0..<8]))"
    by (rule distinct_card [symmetric]) simp
  also have "set (filter (bit b) [0..<8]) = {j. j < 8 \<and> bit b j}" by auto
  finally show ?thesis .
qed

lemma count_loop:
  "fold (\<lambda>i r. r + bit_counter (bv_bits v ! i)) [0..<k] 0 = card {i. i < 8 * k \<and> bv_get v i}"
proof (induction k)
  case 0
  then show ?case by simp
next
  case (Suc k)
  let ?hi = "{i. 8 * k \<le> i \<and> i < 8 * Suc k \<and> bv_get v i}"
  have "?hi = (+) (8 * k) ` {j. j < 8 \<and> bit (bv_bits v ! k) j}"
  proof (rule set_eqI)
    fix i
    show "i \<in> ?hi \<longleftrightarrow> i \<in> (+) (8 * k) ` {j. j < 8 \<and> bit (bv_bits v ! k) j}"
    proof (cases "8 * k \<le> i")
      case True
      then obtain j where "i = 8 * k + j" using le_Suc_ex by blast
      then show ?thesis by (auto simp: bv_get_def)
    qed auto
  qed
  then have hi: "bit_counter (bv_bits v ! k) = card ?hi"
    by (simp add: bit_counter_card card_image)
  have "{i. i < 8 * Suc k \<and> bv_get v i} = {i. i < 8 * k \<and> bv_get v i} \<union> ?hi" by auto
  moreover have "{i. i < 8 * k \<and> bv_get v i} \<inter> ?hi = {}" by auto
  ultimately have "card {i. i < 8 * Suc k \<and> bv_get v i} = card {i. i < 8 * k \<and> bv_get v i} + card ?hi"
    using card_Un_disjoint [of "{i. i < 8 * k \<and> bv_get v i}" ?hi]
      finite_subset [of ?hi "{..<8 * Suc k}"] by auto
  then show ?case using Suc hi by simp
qed

lemma bv_countBits_spec:
  assumes "bv_rep n S v"
  shows "bv_countBits v = card S"
proof -
  have "{i. i < 8 * bv_bytes v \<and> bv_get v i} = S"
    using bv_rep_get [OF assms] bv_rep_sub [OF assms] size_le_bytes [of v] assms
    by (fastforce simp: bv_rep_def)
  then show ?thesis by (simp add: bv_countBits_def count_loop)
qed

text \<open>\<open>bv_scan\<close> stops at the least index from \<open>i\<close> on that carries the wanted bit.\<close>

lemma bv_scan_step:
  "bv_scan b v i = (if i < bv_size v \<and> ((i \<in> bv_set v) \<noteq> b) then bv_scan b v (Suc i) else i)"
  by (subst bv_scan.simps) (auto simp: bv_bit_eq)

lemma bv_scan_least:
  assumes "i \<le> bv_size v"
  shows "i \<le> bv_scan b v i \<and> bv_scan b v i \<le> bv_size v \<and>
    (\<forall>k. i \<le> k \<longrightarrow> k < bv_scan b v i \<longrightarrow> (k \<in> bv_set v) \<noteq> b) \<and>
    (bv_scan b v i < bv_size v \<longrightarrow> (bv_scan b v i \<in> bv_set v) = b)"
  using assms
proof (induction b v i rule: bv_scan.induct)
  case (1 b v i)
  show ?case
  proof (cases "i < bv_size v \<and> ((i \<in> bv_set v) \<noteq> b)")
    case True
    then have eq: "bv_scan b v i = bv_scan b v (Suc i)" by (subst bv_scan_step) simp
    have IH: "Suc i \<le> bv_scan b v (Suc i) \<and> bv_scan b v (Suc i) \<le> bv_size v \<and>
      (\<forall>k. Suc i \<le> k \<longrightarrow> k < bv_scan b v (Suc i) \<longrightarrow> (k \<in> bv_set v) \<noteq> b) \<and>
      (bv_scan b v (Suc i) < bv_size v \<longrightarrow> (bv_scan b v (Suc i) \<in> bv_set v) = b)"
      using "1.IH" True by (auto simp: bv_bit_eq)
    show ?thesis unfolding eq using IH True by (metis Suc_leD Suc_leI le_neq_implies_less)
  next
    case False
    then have "bv_scan b v i = i" by (subst bv_scan_step) auto
    then show ?thesis using False "1.prems" by auto
  qed
qed

text \<open>The client loop \<^verbatim>\<open>for(OneIterator i(v); i; i++)\<close> as the list of the items it visits.\<close>

function one_items :: "bitvec \<Rightarrow> nat \<Rightarrow> nat list" where
  "one_items v i = (if one_ended v i then [] else i # one_items v (one_next v i))"
  by pat_completeness auto
termination
proof (relation "measure (\<lambda>(v, i). bv_size v - i)")
  fix v i assume "\<not> one_ended v i"
  then have "i < bv_size v" by (simp add: one_ended_def)
  then have "Suc i \<le> bv_scan True v (Suc i)" using bv_scan_least [of "Suc i" v True] by simp
  then show "((v, one_next v i), v, i) \<in> measure (\<lambda>(v, i). bv_size v - i)"
    using \<open>i < bv_size v\<close> by (simp add: one_next_def)
qed simp

declare one_items.simps [simp del]

lemma one_items_sorted:
  assumes "i \<le> bv_size v" "i < bv_size v \<Longrightarrow> i \<in> bv_set v"
  shows "sorted (one_items v i) \<and> distinct (one_items v i) \<and> set (one_items v i) = {k \<in> bv_set v. i \<le> k}"
  using assms
proof (induction v i rule: one_items.induct)
  case (1 v i)
  show ?case
  proof (cases "i < bv_size v")
    case False
    then show ?thesis using "1.prems"
      by (subst (1 2 3) one_items.simps) (auto simp: one_ended_def bv_set_def)
  next
    case True
    define j where "j = one_next v i"
    have j: "Suc i \<le> j" "j \<le> bv_size v" "\<forall>k. Suc i \<le> k \<longrightarrow> k < j \<longrightarrow> k \<notin> bv_set v"
      "j < bv_size v \<Longrightarrow> j \<in> bv_set v"
      using bv_scan_least [of "Suc i" v True] True by (auto simp: j_def one_next_def)
    have IH: "sorted (one_items v j)" "distinct (one_items v j)" "set (one_items v j) = {k \<in> bv_set v. j \<le> k}"
      using "1.IH" j True by (auto simp: j_def one_ended_def)
    have "one_items v i = i # one_items v j"
      using True by (subst one_items.simps) (simp add: one_ended_def j_def)
    moreover have "{k \<in> bv_set v. i \<le> k} = insert i {k \<in> bv_set v. j \<le> k}"
      using j "1.prems" True by (fastforce simp: not_less [symmetric] Suc_le_eq le_less)
    ultimately show ?thesis using IH j(1) by auto
  qed
qed

lemma one_items_spec: "one_items v (one_start v) = sorted_list_of_set (bv_set v)"
proof -
  define i where "i = one_start v"
  have i: "i \<le> bv_size v" "\<forall>k < i. k \<notin> bv_set v" "i < bv_size v \<Longrightarrow> i \<in> bv_set v"
    using bv_scan_least [of 0 v True] by (auto simp: i_def one_start_def)
  have "{k \<in> bv_set v. i \<le> k} = bv_set v" using i(2) not_less by blast
  then show ?thesis
    using one_items_sorted [OF i(1,3)] unfolding i_def
    by (metis sorted_list_of_set.idem_if_sorted_distinct)
qed

subsection \<open>Counters, extension\<close>

lemma ones8_bit_counter: "ones8 b = bit_counter b"
proof -
  have "{j. j < 8 \<and> bit b j} = {j. bit b j}" using bit_imp_le_length [of b] by auto
  then show ?thesis by (simp add: ones8_popcount popcount_def bit_counter_card)
qed

lemma countOnes_countBits: "bv_countOnes v = bv_countBits v"
  by (simp add: bv_countOnes_def bv_countBits_def ones8_bit_counter)

text \<open>\<^verbatim>\<open>countZeroes\<close> subtracts the ones from the ones.\<close>

lemma bv_countZeroes_zero: "bv_countZeroes v = 0"
  by (simp add: bv_countZeroes_def countOnes_countBits)

lemma bv_resized_shrink:
  assumes v: "bv_rep m S v" and n: "0 < n" "n < m"
  shows "\<exists>w. bv_resized v n = Inr w \<and> bv_rep n {i \<in> S. i < n} w"
proof -
  let ?w = "\<lparr>bv_bits = take ((n + 7) div 8) (bv_bits v), bv_size = n\<rparr>"
  have le: "(n + 7) div 8 \<le> bv_bytes v" using n(2) bv_rep_bytes [OF v] by (simp add: div_le_mono)
  then have wf: "bv_wf ?w" using v by (simp add: bv_wf_def bv_bytes_def bv_rep_def)
  have b: "bv_bytes ?w = (n + 7) div 8" by (simp add: bv_bytes_def)
  have "i \<in> bv_set ?w \<longleftrightarrow> i \<in> S \<and> i < n" for i
  proof (cases "i < n")
    case True
    then have i: "i < 8 * bv_bytes ?w" using size_le_bytes [of ?w] by simp
    then have "i div 8 < (n + 7) div 8" using div8_less_bytes [of i ?w] b by simp
    then have "bv_get ?w i = bv_get v i" by (simp add: bv_get_def)
    moreover have "i < 8 * bv_bytes v" using i le b by linarith
    ultimately show ?thesis using True bv_rep_get [OF v] by (simp add: bv_set_def)
  qed (simp add: bv_set_def)
  then have "bv_set ?w = {i \<in> S. i < n}" by auto
  then have "bv_rep n {i \<in> S. i < n} (bv_mask ?w)" using bv_rep_maskI [OF wf] by simp
  moreover have "bv_size v = m" using v by (simp add: bv_rep_def)
  ultimately show ?thesis using n by (simp add: bv_resized_def Let_def)
qed

text \<open>Extending a vector of two bits or more copies past the end of its array.\<close>

lemma bv_resized_overrun:
  assumes "bv_rep m S v" "2 \<le> m" "m \<le> n"
  shows "bv_resized v n = Inl OutOfBounds"
proof -
  have "length (bv_bits v) = (m + 7) div 8" "bv_size v = m"
    using assms(1) by (simp_all add: bv_rep_def bv_wf_def bv_bytes_def)
  moreover have "(m + 7) div 8 < m" using assms(2) by (simp add: div_less_iff_less_mult)
  ultimately show ?thesis using assms(2,3) by (simp add: bv_resized_def Let_def)
qed

end
