(* ===== verification/Elm_Vector_Queue.thy ===== *)
theory Elm_Vector_Queue
  imports Otawa_Base
begin

text \<open>
  \<^verbatim>\<open>elm::genstruct::VectorQueue\<close> (elm/include/elm/genstruct/VectorQueue.h): a FIFO queue
  in a circular buffer whose capacity is a power of two, doubled when it is full. A cell
  that was never written holds \<open>None\<close>; reading it is an \<open>Undefined\<close> result.

  The locale \<open>queue\<close> is the interface that the work-list algorithms rely on; the ring
  buffer is an interpretation of it.
\<close>

unbundle bit_operations_syntax

record 'a vqueue =
  vq_hd :: nat
  vq_tl :: nat
  vq_cap :: nat
  vq_buffer :: "'a option list"

subsection \<open>Operations\<close>

definition vq_new :: "nat \<Rightarrow> 'a vqueue" where
  "vq_new capacity = (let cap = push_bit capacity 1 in
     \<lparr>vq_hd = 0, vq_tl = 0, vq_cap = cap, vq_buffer = replicate cap None\<rparr>)"

definition vq_isEmpty :: "'a vqueue \<Rightarrow> bool" where
  "vq_isEmpty q \<longleftrightarrow> vq_hd q = vq_tl q"

definition vq_size :: "'a vqueue \<Rightarrow> nat" where
  "vq_size q = (if vq_hd q < vq_tl q then vq_tl q - vq_hd q else (vq_cap q - vq_hd q) + vq_tl q)"

definition vq_enlarge :: "'a vqueue \<Rightarrow> 'a vqueue" where
  "vq_enlarge q =
     (let new_cap = vq_cap q * 2;
          new_buffer = replicate new_cap None;
          wrapped = vq_tl q < vq_hd q;
          off = (if wrapped then vq_cap q - vq_hd q else 0);
          nb = fold (\<lambda>i nb. nb[i := vq_buffer q ! (vq_hd q + i)]) [0..<off] new_buffer;
          hd = (if wrapped then 0 else vq_hd q);
          nb' = fold (\<lambda>i nb. nb[off + i - hd := vq_buffer q ! i]) [hd..<vq_tl q] nb
      in \<lparr>vq_hd = hd, vq_tl = off + vq_tl q - hd, vq_cap = new_cap, vq_buffer = nb'\<rparr>)"

definition vq_put :: "'a vqueue \<Rightarrow> 'a \<Rightarrow> 'a vqueue" where
  "vq_put q value =
     (let new_tl = (vq_tl q + 1) AND (vq_cap q - 1);
          (q', new_tl') = (if new_tl = vq_hd q
             then (let e = vq_enlarge q in (e, vq_tl e + 1)) else (q, new_tl))
      in q'\<lparr>vq_buffer := (vq_buffer q')[vq_tl q' := Some value], vq_tl := new_tl'\<rparr>)"

definition vq_read :: "'a vqueue \<Rightarrow> nat \<Rightarrow> 'a res" where
  "vq_read q i = (case vq_buffer q ! i of Some x \<Rightarrow> Inr x | None \<Rightarrow> Inl Undefined)"

definition vq_get :: "'a vqueue \<Rightarrow> ('a \<times> 'a vqueue) res" where
  "vq_get q = asserting (vq_hd q \<noteq> vq_tl q)
     (rbind (vq_read q (vq_hd q)) (\<lambda>x.
        Inr (x, q\<lparr>vq_hd := (vq_hd q + 1) AND (vq_cap q - 1)\<rparr>)))"

definition vq_head :: "'a vqueue \<Rightarrow> 'a res" where
  "vq_head q = asserting (vq_hd q \<noteq> vq_tl q) (vq_read q (vq_hd q))"

definition vq_reset :: "'a vqueue \<Rightarrow> 'a vqueue" where
  "vq_reset q = q\<lparr>vq_hd := 0, vq_tl := 0\<rparr>"

text \<open>The scan of \<^verbatim>\<open>contains\<close> from index \<open>i\<close>; \<open>None\<close> would be a scan that never meets the tail.\<close>

partial_function (option) vq_contains_from :: "'a vqueue \<Rightarrow> 'a \<Rightarrow> nat \<Rightarrow> bool res option" where
  "vq_contains_from q val i =
     (if i = vq_tl q then Some (Inr False)
      else case vq_read q i of
        Inl e \<Rightarrow> Some (Inl e)
      | Inr x \<Rightarrow> if x = val then Some (Inr True)
                 else vq_contains_from q val ((i + 1) AND (vq_cap q - 1)))"

declare vq_contains_from.simps [code]

definition vq_contains :: "'a vqueue \<Rightarrow> 'a \<Rightarrow> bool res option" where
  "vq_contains q val = vq_contains_from q val (vq_hd q)"

subsection \<open>Interface\<close>

locale queue =
  fixes inv :: "'q \<Rightarrow> bool" and abs :: "'q \<Rightarrow> 'a list"
    and new :: 'q and isEmpty :: "'q \<Rightarrow> bool"
    and put :: "'q \<Rightarrow> 'a \<Rightarrow> 'q" and get :: "'q \<Rightarrow> ('a \<times> 'q) res"
  assumes inv_new: "inv new" and abs_new: "abs new = []"
    and isEmpty_abs: "inv q \<Longrightarrow> isEmpty q \<longleftrightarrow> abs q = []"
    and inv_put: "inv q \<Longrightarrow> inv (put q x)"
    and abs_put: "inv q \<Longrightarrow> abs (put q x) = abs q @ [x]"
    and get_empty: "inv q \<Longrightarrow> abs q = [] \<Longrightarrow> get q = Inl AssertFail"
    and get_abs: "inv q \<Longrightarrow> abs q = x # xs \<Longrightarrow> \<exists>q'. get q = Inr (x, q') \<and> inv q' \<and> abs q' = xs"
begin

text \<open>The queue operations are those of a list, whatever the sequence of calls.\<close>

lemma put_all: "inv q \<Longrightarrow> inv (foldl put q xs) \<and> abs (foldl put q xs) = abs q @ xs"
  by (induction xs arbitrary: q) (auto simp: inv_put abs_put)

lemma get_put_empty:
  assumes "inv q" "abs q = []"
  shows "\<exists>q'. get (put q x) = Inr (x, q') \<and> inv q' \<and> abs q' = []"
  using get_abs [of "put q x" x "[]"] assms by (simp add: inv_put abs_put)

lemma get_not_empty: "inv q \<Longrightarrow> \<not> isEmpty q \<Longrightarrow> \<exists>x q'. get q = Inr (x, q') \<and> inv q' \<and> abs q = x # abs q'"
  using get_abs [of q] by (cases "abs q") (auto simp: isEmpty_abs)

lemma fifo_order:
  assumes "inv q"
  shows "\<exists>q'. rfold (\<lambda>_ (ys, q). rbind (get q) (\<lambda>(y, q'). Inr (ys @ [y], q'))) (abs q) (zs, q) = Inr (zs @ abs q, q')
    \<and> inv q' \<and> abs q' = []"
  using assms
proof (induction "abs q" arbitrary: q zs)
  case Nil
  then show ?case by (intro exI [of _ q]) simp
next
  case (Cons x xs)
  from get_abs [OF Cons.prems Cons.hyps(2) [symmetric]]
  obtain q' where q': "get q = Inr (x, q')" "inv q'" "abs q' = xs" by blast
  from Cons.hyps(1) [OF q'(3) [symmetric] q'(2), of "zs @ [x]"] q'
  show ?case unfolding Cons.hyps(2) [symmetric] by auto
qed

end

subsection \<open>The ring buffer is a queue\<close>

definition vq_inv :: "'a vqueue \<Rightarrow> bool" where
  "vq_inv q \<longleftrightarrow> (\<exists>k. vq_cap q = 2 ^ k) \<and> length (vq_buffer q) = vq_cap q \<and>
     vq_hd q < vq_cap q \<and> vq_tl q < vq_cap q \<and>
     (\<forall>i < vq_cap q. (if vq_hd q \<le> vq_tl q then vq_hd q \<le> i \<and> i < vq_tl q
                      else vq_hd q \<le> i \<or> i < vq_tl q) \<longrightarrow> vq_buffer q ! i \<noteq> None)"

definition vq_cells :: "'a vqueue \<Rightarrow> 'a option list" where
  "vq_cells q = (if vq_hd q \<le> vq_tl q then take (vq_tl q - vq_hd q) (drop (vq_hd q) (vq_buffer q))
     else drop (vq_hd q) (vq_buffer q) @ take (vq_tl q) (vq_buffer q))"

definition vq_list :: "'a vqueue \<Rightarrow> 'a list" where
  "vq_list q = map the (vq_cells q)"

lemma and_cap: "cap = 2 ^ k \<Longrightarrow> (i :: nat) AND (cap - 1) = i mod cap"
  by (metis mask_eq_exp_minus_1 take_bit_eq_mask take_bit_eq_mod)

lemma next_index:
  assumes "vq_inv q" "i < vq_cap q"
  shows "(i + 1) AND (vq_cap q - 1) = (if Suc i = vq_cap q then 0 else Suc i)"
proof -
  obtain k where "vq_cap q = 2 ^ k" using assms(1) by (auto simp: vq_inv_def)
  then have "(i + 1) AND (vq_cap q - 1) = (i + 1) mod vq_cap q" by (rule and_cap)
  then show ?thesis using assms(2) by auto
qed

lemma vq_new_inv: "vq_inv (vq_new c)" and vq_new_list: "vq_list (vq_new c) = []"
  by (auto simp: vq_inv_def vq_new_def vq_list_def vq_cells_def Let_def)

lemma vq_cells_empty:
  assumes "vq_inv q"
  shows "vq_cells q = [] \<longleftrightarrow> vq_hd q = vq_tl q"
  using assms by (auto simp: vq_cells_def vq_inv_def)

lemma vq_isEmpty_list: "vq_inv q \<Longrightarrow> vq_isEmpty q \<longleftrightarrow> vq_list q = []"
  by (simp add: vq_isEmpty_def vq_list_def vq_cells_empty)

text \<open>Taking the head.\<close>

lemma vq_cells_unfold:
  assumes q: "vq_inv q" "vq_hd q \<noteq> vq_tl q"
  shows "vq_cells q = vq_buffer q ! vq_hd q #
    vq_cells (q\<lparr>vq_hd := (vq_hd q + 1) AND (vq_cap q - 1)\<rparr>)"
proof -
  let ?b = "vq_buffer q" and ?h = "vq_hd q" and ?t = "vq_tl q"
  have h: "?h < length ?b" "?t < length ?b" "length ?b = vq_cap q" "?h < vq_cap q"
    using q(1) by (auto simp: vq_inv_def)
  have d: "drop ?h ?b = ?b ! ?h # drop (Suc ?h) ?b" using h(1) by (rule Cons_nth_drop_Suc [symmetric])
  consider "?h < ?t" | "?t < ?h" "Suc ?h = vq_cap q" | "?t < ?h" "Suc ?h \<noteq> vq_cap q"
    using q(2) by linarith
  then show ?thesis
  proof cases
    case 1
    then have "Suc ?h \<noteq> vq_cap q" using h by linarith
    with 1 have "vq_cells (q\<lparr>vq_hd := (?h + 1) AND (vq_cap q - 1)\<rparr>) = take (?t - Suc ?h) (drop (Suc ?h) ?b)"
      using next_index [OF q(1) h(4)] by (simp add: vq_cells_def)
    moreover have "?t - ?h = Suc (?t - Suc ?h)" using 1 by simp
    ultimately show ?thesis using 1 d by (simp add: vq_cells_def)
  next
    case 2
    then show ?thesis using next_index [OF q(1) h(4)] d h by (simp add: vq_cells_def)
  next
    case 3
    then show ?thesis using next_index [OF q(1) h(4)] d by (simp add: vq_cells_def)
  qed
qed

lemma vq_advance_inv:
  assumes "vq_inv q" "vq_hd q \<noteq> vq_tl q"
  shows "vq_inv (q\<lparr>vq_hd := (vq_hd q + 1) AND (vq_cap q - 1)\<rparr>)"
proof -
  have h: "vq_hd q < vq_cap q" using assms(1) by (simp add: vq_inv_def)
  show ?thesis
    using assms next_index [OF assms(1) h]
    by (auto simp: vq_inv_def split: if_splits)
qed

lemma vq_head_cell:
  assumes "vq_inv q" "vq_hd q \<noteq> vq_tl q"
  shows "\<exists>x. vq_buffer q ! vq_hd q = Some x"
  using assms by (cases "vq_hd q \<le> vq_tl q") (auto simp: vq_inv_def)

lemma vq_get_spec:
  assumes "vq_inv q" "vq_list q = x # xs"
  shows "\<exists>q'. vq_get q = Inr (x, q') \<and> vq_inv q' \<and> vq_list q' = xs"
proof -
  have ne: "vq_hd q \<noteq> vq_tl q" using assms vq_cells_empty [of q] by (auto simp: vq_list_def)
  obtain y where y: "vq_buffer q ! vq_hd q = Some y" using vq_head_cell [OF assms(1) ne] by blast
  let ?q = "q\<lparr>vq_hd := (vq_hd q + 1) AND (vq_cap q - 1)\<rparr>"
  have "vq_list q = y # vq_list ?q" using vq_cells_unfold [OF assms(1) ne] y by (simp add: vq_list_def)
  then show ?thesis
    using assms(2) ne y vq_advance_inv [OF assms(1) ne] by (simp add: vq_get_def vq_read_def)
qed

lemma vq_get_fault: "vq_inv q \<Longrightarrow> vq_list q = [] \<Longrightarrow> vq_get q = Inl AssertFail"
  using vq_cells_empty [of q] by (simp add: vq_get_def vq_list_def)

text \<open>Adding at the tail. The copy loops of \<^verbatim>\<open>enlarge\<close> write consecutive cells.\<close>

lemma copy_loop:
  assumes "off + n \<le> length xs"
  shows "fold (\<lambda>i nb. nb[off + i := f i]) [0..<n] xs = take off xs @ map f [0..<n] @ drop (off + n) xs"
  using assms
proof (induction n)
  case 0
  then show ?case by simp
next
  case (Suc n)
  then have "off + n < length xs" by simp
  then have "drop (off + n) xs = xs ! (off + n) # drop (Suc (off + n)) xs" by (rule Cons_nth_drop_Suc [symmetric])
  with Suc show ?case by (simp add: list_update_append)
qed

lemma map_nth_upt: "a + n \<le> length xs \<Longrightarrow> map (\<lambda>i. xs ! (a + i)) [0..<n] = take n (drop a xs)"
  by (intro nth_equalityI) auto

lemma copy_loop_replicate:
  assumes "length ys = off" "n \<le> m" "a + n \<le> length b"
  shows "fold (\<lambda>i nb. nb[off + i := b ! (a + i)]) [0..<n] (ys @ replicate m None) =
    ys @ take n (drop a b) @ replicate (m - n) None"
  using copy_loop [of off n "ys @ replicate m None" "\<lambda>i. b ! (a + i)"] assms
  by (simp add: map_nth_upt)

definition vq_full :: "'a vqueue \<Rightarrow> bool" where
  "vq_full q \<longleftrightarrow> (vq_tl q + 1) AND (vq_cap q - 1) = vq_hd q"

lemma vq_full_shape:
  assumes "vq_inv q" "vq_full q"
  shows "vq_tl q < vq_hd q \<and> vq_hd q = Suc (vq_tl q) \<or> vq_hd q = 0 \<and> Suc (vq_tl q) = vq_cap q"
proof -
  have "vq_tl q < vq_cap q" using assms(1) by (simp add: vq_inv_def)
  from next_index [OF assms(1) this] assms(2) show ?thesis
    by (auto simp: vq_full_def split: if_splits)
qed

lemma vq_enlarge_full:
  assumes q: "vq_inv q" "vq_full q"
  shows "vq_enlarge q = \<lparr>vq_hd = 0, vq_tl = length (vq_cells q), vq_cap = 2 * vq_cap q,
      vq_buffer = vq_cells q @ replicate (2 * vq_cap q - length (vq_cells q)) None\<rparr>
    \<and> length (vq_cells q) < vq_cap q"
proof -
  let ?b = "vq_buffer q" and ?h = "vq_hd q" and ?t = "vq_tl q" and ?c = "vq_cap q"
  have b: "length ?b = ?c" "?t < ?c" "?h < ?c" using q(1) by (auto simp: vq_inv_def)
  from vq_full_shape [OF q] show ?thesis
  proof
    assume w: "?t < ?h \<and> ?h = Suc ?t"
    have "fold (\<lambda>i nb. nb[i := ?b ! (?h + i)]) [0..<?c - ?h] (replicate (?c * 2) None) =
        drop ?h ?b @ replicate (?c * 2 - (?c - ?h)) None"
      using copy_loop_replicate [of "[]" 0 "?c - ?h" "?c * 2" ?h ?b] b by simp
    moreover have "fold (\<lambda>i nb. nb[?c - ?h + i := ?b ! i]) [0..<?t] (drop ?h ?b @ replicate (?c * 2 - (?c - ?h)) None) =
        drop ?h ?b @ take ?t ?b @ replicate (?c * 2 - (?c - ?h) - ?t) None"
      using copy_loop_replicate [of "drop ?h ?b" "?c - ?h" ?t "?c * 2 - (?c - ?h)" 0 ?b] b by simp
    ultimately show ?thesis
      using w b by (simp add: vq_enlarge_def vq_cells_def Let_def mult.commute)
  next
    assume w: "?h = 0 \<and> Suc ?t = ?c"
    have "fold (\<lambda>i nb. nb[0 + i := ?b ! i]) [0..<?t] (replicate (?c * 2) None) =
        take ?t ?b @ replicate (?c * 2 - ?t) None"
      using copy_loop_replicate [of "[]" 0 ?t "?c * 2" 0 ?b] b by simp
    then show ?thesis
      using w b by (simp add: vq_enlarge_def vq_cells_def Let_def mult.commute)
  qed
qed

lemma vq_cells_some:
  assumes "vq_inv q" "c \<in> set (vq_cells q)"
  shows "c \<noteq> None"
proof -
  have len: "length (vq_buffer q) = vq_cap q" "vq_tl q < vq_cap q" using assms(1) by (auto simp: vq_inv_def)
  obtain i where "i < length (vq_cells q)" "c = vq_cells q ! i" using assms(2) by (auto simp: in_set_conv_nth)
  then have "\<exists>j < vq_cap q. c = vq_buffer q ! j \<and>
      (if vq_hd q \<le> vq_tl q then vq_hd q \<le> j \<and> j < vq_tl q else vq_hd q \<le> j \<or> j < vq_tl q)"
    using len by (auto simp: vq_cells_def nth_append split: if_splits 
        intro!: exI [of _ "if vq_hd q + i < vq_cap q then vq_hd q + i else i - (vq_cap q - vq_hd q)"])
  then show ?thesis using assms(1) unfolding vq_inv_def by metis
qed

lemma vq_put_notfull:
  assumes q: "vq_inv q" "\<not> vq_full q"
  shows "vq_inv (vq_put q x) \<and> vq_cells (vq_put q x) = vq_cells q @ [Some x]"
proof -
  let ?b = "vq_buffer q" and ?h = "vq_hd q" and ?t = "vq_tl q" and ?c = "vq_cap q"
  have b: "length ?b = ?c" "?t < ?c" "?h < ?c" using q(1) by (auto simp: vq_inv_def)
  note nx = next_index [OF q(1) b(2)]
  have put: "vq_put q x = q\<lparr>vq_buffer := ?b[?t := Some x], vq_tl := (if Suc ?t = ?c then 0 else Suc ?t)\<rparr>"
    using q(2) nx by (simp add: vq_put_def vq_full_def)
  have ne: "(if Suc ?t = ?c then 0 else Suc ?t) \<noteq> ?h" using q(2) nx by (simp add: vq_full_def)
  have inv: "vq_inv (vq_put q x)"
    using q(1) ne b unfolding put vq_inv_def by (auto simp: nth_list_update split: if_splits)
  have tk: "take (Suc ?t) (?b[?t := Some x]) = take ?t ?b @ [Some x]"
    using b by (simp add: take_Suc_conv_app_nth)
  show ?thesis
  proof (cases "?h \<le> ?t")
    case True
    then have "take (Suc ?t - ?h) (drop ?h (?b[?t := Some x])) = drop ?h (take (Suc ?t) (?b[?t := Some x]))"
      by (simp add: drop_take)
    also have "\<dots> = take (?t - ?h) (drop ?h ?b) @ [Some x]"
      unfolding tk using True b by (simp add: drop_take)
    finally have "take (Suc ?t - ?h) (drop ?h (?b[?t := Some x])) = vq_cells q @ [Some x]"
      using True by (simp add: vq_cells_def)
    then show ?thesis
      using inv True ne b unfolding put by (auto simp: vq_cells_def)
  next
    case False
    then have "Suc ?t < ?h" "Suc ?t \<noteq> ?c" using ne b by auto
    then have "vq_cells (vq_put q x) = drop ?h (?b[?t := Some x]) @ take (Suc ?t) (?b[?t := Some x])"
      unfolding put by (simp add: vq_cells_def)
    then show ?thesis
      using inv False unfolding tk by (simp add: vq_cells_def)
  qed
qed

lemma vq_put_full:
  assumes q: "vq_inv q" "vq_full q"
  shows "vq_inv (vq_put q x) \<and> vq_cells (vq_put q x) = vq_cells q @ [Some x]"
proof -
  let ?n = "length (vq_cells q)" and ?c = "vq_cap q"
  have e: "vq_enlarge q = \<lparr>vq_hd = 0, vq_tl = ?n, vq_cap = 2 * ?c,
      vq_buffer = vq_cells q @ replicate (2 * ?c - ?n) None\<rparr>" and n: "?n < ?c"
    using vq_enlarge_full [OF q] by auto
  have put: "vq_put q x = \<lparr>vq_hd = 0, vq_tl = Suc ?n, vq_cap = 2 * ?c,
      vq_buffer = vq_cells q @ Some x # replicate (2 * ?c - Suc ?n) None\<rparr>"
  proof -
    have "2 * ?c - ?n = Suc (2 * ?c - Suc ?n)" using n by simp
    then have "(vq_cells q @ replicate (2 * ?c - ?n) None)[?n := Some x] =
        vq_cells q @ Some x # replicate (2 * ?c - Suc ?n) None" by simp
    then show ?thesis using q(2) e by (simp add: vq_put_def vq_full_def Let_def)
  qed
  obtain k where "?c = 2 ^ k" using q(1) by (auto simp: vq_inv_def)
  then have k: "\<exists>k. 2 * ?c = 2 ^ k" by (metis power_Suc)
  have "vq_buffer (vq_put q x) ! i \<noteq> None" if "i < Suc ?n" for i
    using that vq_cells_some [OF q(1)] unfolding put by (auto simp: nth_append less_Suc_eq)
  moreover have "Suc ?n < 2 * ?c" using n by simp
  ultimately have "vq_inv (vq_put q x)"
    using k unfolding vq_inv_def put by simp
  then show ?thesis unfolding put by (simp add: vq_cells_def)
qed

lemma vq_put_spec: "vq_inv q \<Longrightarrow> vq_inv (vq_put q x) \<and> vq_list (vq_put q x) = vq_list q @ [x]"
  using vq_put_full [of q x] vq_put_notfull [of q x] by (cases "vq_full q") (auto simp: vq_list_def)

interpretation vq: queue vq_inv vq_list "vq_new c" vq_isEmpty vq_put vq_get for c
  by unfold_locales
    (simp_all add: vq_new_inv vq_new_list vq_isEmpty_list vq_put_spec vq_get_fault vq_get_spec)

subsection \<open>The other accessors\<close>

lemma vq_head_spec:
  assumes "vq_inv q" "vq_list q = x # xs"
  shows "vq_head q = Inr x"
proof -
  have ne: "vq_hd q \<noteq> vq_tl q" using assms vq_cells_empty [of q] by (auto simp: vq_list_def)
  then show ?thesis
    using assms vq_head_cell [OF assms(1) ne] vq_cells_unfold [OF assms(1) ne]
    by (auto simp: vq_head_def vq_read_def vq_list_def)
qed

lemma vq_reset_spec: "vq_inv q \<Longrightarrow> vq_inv (vq_reset q) \<and> vq_list (vq_reset q) = []"
  by (auto simp: vq_inv_def vq_reset_def vq_list_def vq_cells_def)

lemma vq_size_spec:
  assumes "vq_inv q"
  shows "vq_size q = (if vq_list q = [] then vq_cap q else length (vq_list q))"
  using assms vq_cells_empty [OF assms]
  by (auto simp: vq_size_def vq_list_def vq_cells_def vq_inv_def)

lemma vq_contains_from_spec:
  assumes "vq_inv (q\<lparr>vq_hd := i\<rparr>)"
  shows "vq_contains_from q val i = Some (Inr (Some val \<in> set (vq_cells (q\<lparr>vq_hd := i\<rparr>))))"
  using assms
proof (induction "length (vq_cells (q\<lparr>vq_hd := i\<rparr>))" arbitrary: i)
  case 0
  then have "i = vq_tl q" using vq_cells_empty [OF 0(2)] by simp
  then show ?case using 0 by (subst vq_contains_from.simps) simp
next
  case (Suc n)
  let ?q = "q\<lparr>vq_hd := i\<rparr>" and ?j = "(i + 1) AND (vq_cap q - 1)"
  have ne: "vq_hd ?q \<noteq> vq_tl ?q" using vq_cells_empty [OF Suc.prems] Suc.hyps(2) by auto
  obtain x where x: "vq_buffer q ! i = Some x" using vq_head_cell [OF Suc.prems ne] by auto
  have cells: "vq_cells ?q = Some x # vq_cells (q\<lparr>vq_hd := ?j\<rparr>)"
    using vq_cells_unfold [OF Suc.prems ne] x by simp
  have "vq_contains_from q val ?j = Some (Inr (Some val \<in> set (vq_cells (q\<lparr>vq_hd := ?j\<rparr>))))"
    using Suc.hyps cells vq_advance_inv [OF Suc.prems ne] by simp
  then show ?case
    using ne x cells by (subst vq_contains_from.simps) (auto simp: vq_read_def)
qed

lemma vq_contains_spec:
  assumes "vq_inv q"
  shows "vq_contains q val = Some (Inr (val \<in> set (vq_list q)))"
proof -
  have "Some val \<in> set (vq_cells q) \<longleftrightarrow> val \<in> set (vq_list q)"
    using vq_cells_some [OF assms] by (force simp: vq_list_def)
  then show ?thesis
    using vq_contains_from_spec [of "vq_hd q" q val] assms by (simp add: vq_contains_def)
qed

end
