(* ===== verification/Dfa_Bit_Set.thy ===== *)
theory Dfa_Bit_Set
  imports Elm_Bit_Vector
begin

text \<open>
  \<^verbatim>\<open>otawa::dfa::BitSet\<close> (otawa/include/otawa/dfa/BitSet.h): the sets over \<open>{0..<n}\<close> of the
  data-flow problems, a wrapper of \<^verbatim>\<open>elm::BitVector\<close>. Methods that call \<^verbatim>\<open>mask()\<close> on
  their receiver return the receiver they leave beside their value.

  The locale \<open>small_set\<close> is the contract the data-flow problems rely on: \<open>rep n S s\<close> says
  that \<open>s\<close> stands for \<open>S \<subseteq> {..<n}\<close>, and no operation fails on represented sets.
\<close>

type_synonym bitset = bitvec

subsection \<open>Operations\<close>

definition bs_new :: "nat \<Rightarrow> bitset res" where
  "bs_new n = bv_new n False"

definition bs_copy :: "bitset \<Rightarrow> bitset" where
  "bs_copy s = bv_clone s"

definition bs_isEmpty :: "bitset \<Rightarrow> bool \<times> bitset" where
  "bs_isEmpty s = bv_isEmpty s"

definition bs_isFull :: "bitset \<Rightarrow> bool" where
  "bs_isFull s \<longleftrightarrow> bv_countBits s = bv_size s"

definition bs_size :: "bitset \<Rightarrow> nat" where
  "bs_size s = bv_size s"

definition bs_count :: "bitset \<Rightarrow> nat" where
  "bs_count s = bv_countBits s"

definition bs_fill :: "bitset \<Rightarrow> bitset" where
  "bs_fill s = bv_set_all s"

definition bs_empty :: "bitset \<Rightarrow> bitset" where
  "bs_empty s = bv_clear_all s"

definition bs_contains :: "bitset \<Rightarrow> nat \<Rightarrow> bool res" where
  "bs_contains s i = bv_bit s i"

definition bs_add :: "bitset \<Rightarrow> nat \<Rightarrow> bitset res" where
  "bs_add s i = bv_set_bit s i"

definition bs_remove :: "bitset \<Rightarrow> nat \<Rightarrow> bitset res" where
  "bs_remove s i = bv_clear_bit s i"

definition bs_equals :: "bitset \<Rightarrow> bitset \<Rightarrow> (bool \<times> bitset) res" where
  "bs_equals s t = bv_equals s t"

definition bs_includes :: "bitset \<Rightarrow> bitset \<Rightarrow> (bool \<times> bitset) res" where
  "bs_includes s t = bv_includes s t"

definition bs_includesStrictly :: "bitset \<Rightarrow> bitset \<Rightarrow> (bool \<times> bitset) res" where
  "bs_includesStrictly s t = bv_includesStrictly s t"

definition bs_complement :: "bitset \<Rightarrow> bitset" where
  "bs_complement s = bv_applyNot s"

definition bs_add_set :: "bitset \<Rightarrow> bitset \<Rightarrow> bitset res" where
  "bs_add_set s t = bv_applyOr s t"

definition bs_remove_set :: "bitset \<Rightarrow> bitset \<Rightarrow> bitset res" where
  "bs_remove_set s t = bv_applyReset s t"

definition bs_mask :: "bitset \<Rightarrow> bitset \<Rightarrow> bitset res" where
  "bs_mask s t = bv_applyAnd s t"

definition bs_doComp :: "bitset \<Rightarrow> bitset res" where
  "bs_doComp s = bv_makeNot s"

definition bs_doUnion :: "bitset \<Rightarrow> bitset \<Rightarrow> bitset res" where
  "bs_doUnion s t = bv_makeOr s t"

definition bs_doInter :: "bitset \<Rightarrow> bitset \<Rightarrow> bitset res" where
  "bs_doInter s t = bv_makeAnd s t"

definition bs_doDiff :: "bitset \<Rightarrow> bitset \<Rightarrow> bitset res" where
  "bs_doDiff s t = bv_makeReset s t"

definition bs_assign :: "bitset \<Rightarrow> bitset \<Rightarrow> bitset res" where
  "bs_assign s t = bv_assign s t"

text \<open>\<^verbatim>\<open>BitSet::Iterator\<close>: the items visited from the start, in order; the first is the
  value of a fresh iterator.\<close>

definition bs_items :: "bitset \<Rightarrow> nat list" where
  "bs_items s = one_items s (one_start s)"

lemmas bs_defs = bs_new_def bs_copy_def bs_isEmpty_def bs_isFull_def bs_size_def bs_count_def
  bs_fill_def bs_empty_def bs_contains_def bs_add_def bs_remove_def bs_equals_def bs_includes_def
  bs_includesStrictly_def bs_complement_def bs_add_set_def bs_remove_set_def bs_mask_def bs_doComp_def
  bs_doUnion_def bs_doInter_def bs_doDiff_def bs_assign_def bs_items_def

subsection \<open>Interface\<close>

locale small_set =
  fixes rep :: "nat \<Rightarrow> nat set \<Rightarrow> 's \<Rightarrow> bool"
    and new :: "nat \<Rightarrow> 's res" and copy :: "'s \<Rightarrow> 's"
    and fill :: "'s \<Rightarrow> 's" and clear :: "'s \<Rightarrow> 's"
    and contains :: "'s \<Rightarrow> nat \<Rightarrow> bool res"
    and add :: "'s \<Rightarrow> nat \<Rightarrow> 's res" and remove :: "'s \<Rightarrow> nat \<Rightarrow> 's res"
    and equals :: "'s \<Rightarrow> 's \<Rightarrow> (bool \<times> 's) res"
    and incl :: "'s \<Rightarrow> 's \<Rightarrow> (bool \<times> 's) res"
    and union :: "'s \<Rightarrow> 's \<Rightarrow> 's res" and diff :: "'s \<Rightarrow> 's \<Rightarrow> 's res" and inter :: "'s \<Rightarrow> 's \<Rightarrow> 's res"
    and assign :: "'s \<Rightarrow> 's \<Rightarrow> 's res"
    and items :: "'s \<Rightarrow> nat list" and count :: "'s \<Rightarrow> nat"
  assumes rep_sub: "rep n S s \<Longrightarrow> S \<subseteq> {..<n}"
    and rep_inj: "rep n S s \<Longrightarrow> rep m T s \<Longrightarrow> n = m \<and> S = T"
    and new_rep: "0 < n \<Longrightarrow> \<exists>s. new n = Inr s \<and> rep n {} s"
    and new_zero: "new 0 = Inl AssertFail"
    and copy_rep: "rep n S s \<Longrightarrow> copy s = s"
    and fill_rep: "rep n S s \<Longrightarrow> rep n {..<n} (fill s)"
    and clear_rep: "rep n S s \<Longrightarrow> rep n {} (clear s)"
    and contains_rep: "rep n S s \<Longrightarrow> i < n \<Longrightarrow> contains s i = Inr (i \<in> S)"
    and contains_fault: "rep n S s \<Longrightarrow> n \<le> i \<Longrightarrow> contains s i = Inl AssertFail"
    and add_rep: "rep n S s \<Longrightarrow> i < n \<Longrightarrow> \<exists>t. add s i = Inr t \<and> rep n (insert i S) t"
    and remove_rep: "rep n S s \<Longrightarrow> i < n \<Longrightarrow> \<exists>t. remove s i = Inr t \<and> rep n (S - {i}) t"
    and equals_rep: "rep n S s \<Longrightarrow> rep n T t \<Longrightarrow> equals s t = Inr (S = T, s)"
    and incl_rep: "rep n S s \<Longrightarrow> rep n T t \<Longrightarrow> incl s t = Inr (T \<subseteq> S, s)"
    and union_rep: "rep n S s \<Longrightarrow> rep n T t \<Longrightarrow> \<exists>u. union s t = Inr u \<and> rep n (S \<union> T) u"
    and diff_rep: "rep n S s \<Longrightarrow> rep n T t \<Longrightarrow> \<exists>u. diff s t = Inr u \<and> rep n (S - T) u"
    and inter_rep: "rep n S s \<Longrightarrow> rep n T t \<Longrightarrow> \<exists>u. inter s t = Inr u \<and> rep n (S \<inter> T) u"
    and assign_rep: "rep n S s \<Longrightarrow> rep n T t \<Longrightarrow> assign s t = Inr t"
    and items_rep: "rep n S s \<Longrightarrow> items s = sorted_list_of_set S"
    and count_rep: "rep n S s \<Longrightarrow> count s = card S"
begin

text \<open>Filling a set by a loop of \<open>add\<close> collects the added elements.\<close>

lemma add_all:
  assumes "rep n S s" "\<And>x. x \<in> set xs \<Longrightarrow> x < n"
  shows "\<exists>t. rfold (\<lambda>x s. add s x) xs s = Inr t \<and> rep n (S \<union> set xs) t"
  using assms
proof (induction xs arbitrary: s S)
  case Nil
  then show ?case by auto
next
  case (Cons x xs)
  then obtain t where t: "add s x = Inr t" "rep n (insert x S) t" using add_rep [of n S s x] by auto
  from Cons.IH [OF t(2)] Cons.prems(2) t(1) show ?case by auto
qed

text \<open>A loop of \<open>union\<close> is the union of the arguments, a loop of \<open>inter\<close> their intersection.\<close>

lemma union_all:
  assumes "rep n S s" "list_all2 (rep n) Ts ts"
  shows "\<exists>u. rfold (\<lambda>t s. union s t) ts s = Inr u \<and> rep n (S \<union> \<Union> (set Ts)) u"
  using assms(2,1)
proof (induction Ts ts arbitrary: s S rule: list_all2_induct)
  case Nil
  then show ?case by auto
next
  case (Cons T Ts t ts)
  then obtain u where u: "union s t = Inr u" "rep n (S \<union> T) u" using union_rep by blast
  from Cons.IH [OF u(2)] u(1) show ?case by (auto simp: Un_assoc)
qed

lemma inter_all:
  assumes "rep n S s" "list_all2 (rep n) Ts ts"
  shows "\<exists>u. rfold (\<lambda>t s. inter s t) ts s = Inr u \<and> rep n (S \<inter> \<Inter> (set Ts)) u"
  using assms(2,1)
proof (induction Ts ts arbitrary: s S rule: list_all2_induct)
  case Nil
  then show ?case by auto
next
  case (Cons T Ts t ts)
  then obtain u where u: "inter s t = Inr u" "rep n (S \<inter> T) u" using inter_rep by blast
  from Cons.IH [OF u(2)] u(1) show ?case by (auto simp: Int_assoc)
qed

lemma items_set: "rep n S s \<Longrightarrow> set (items s) = S \<and> sorted (items s) \<and> length (items s) = count s"
  using rep_sub [of n S s] finite_subset [of S "{..<n}"] by (simp add: items_rep count_rep)

end

subsection \<open>Bit sets are small sets\<close>

interpretation bs: small_set bv_rep bs_new bs_copy bs_fill bs_empty bs_contains bs_add bs_remove
  bs_equals bs_includes bs_add_set bs_remove_set bs_mask bs_assign bs_items bs_count
proof unfold_locales
  show "\<And>n S s. bv_rep n S s \<Longrightarrow> S \<subseteq> {..<n}" by (rule bv_rep_sub)
  show "\<And>n S s m T. bv_rep n S s \<Longrightarrow> bv_rep m T s \<Longrightarrow> n = m \<and> S = T" by (rule bv_rep_inj)
  show "\<And>n. 0 < n \<Longrightarrow> \<exists>s. bs_new n = Inr s \<and> bv_rep n {} s"
    unfolding bs_defs by (rule bv_new_rep)
  show "bs_new 0 = Inl AssertFail" by (simp add: bs_defs bv_new_def)
  show "\<And>n S s. bv_rep n S s \<Longrightarrow> bs_copy s = s" unfolding bs_defs by (rule bv_clone_rep)
  show "\<And>n S s. bv_rep n S s \<Longrightarrow> bv_rep n {..<n} (bs_fill s)" unfolding bs_defs by (rule bv_set_all_rep)
  show "\<And>n S s. bv_rep n S s \<Longrightarrow> bv_rep n {} (bs_empty s)" unfolding bs_defs by (rule bv_clear_all_rep)
  show "\<And>n S s i. bv_rep n S s \<Longrightarrow> i < n \<Longrightarrow> bs_contains s i = Inr (i \<in> S)"
    unfolding bs_defs by (rule bv_bit_rep)
  show "\<And>n S s i. bv_rep n S s \<Longrightarrow> n \<le> i \<Longrightarrow> bs_contains s i = Inl AssertFail"
    unfolding bs_defs by (rule bv_bit_fault) (simp add: bv_rep_def)
  show "\<And>n S s i. bv_rep n S s \<Longrightarrow> i < n \<Longrightarrow> \<exists>t. bs_add s i = Inr t \<and> bv_rep n (insert i S) t"
    unfolding bs_defs by (rule bv_set_bit_rep)
  show "\<And>n S s i. bv_rep n S s \<Longrightarrow> i < n \<Longrightarrow> \<exists>t. bs_remove s i = Inr t \<and> bv_rep n (S - {i}) t"
    unfolding bs_defs by (rule bv_clear_bit_rep)
  show "\<And>n S s T t. bv_rep n S s \<Longrightarrow> bv_rep n T t \<Longrightarrow> bs_equals s t = Inr (S = T, s)"
    unfolding bs_defs using bv_equals_spec bv_rep_mask by (simp add: bv_rep_def)
  show "\<And>n S s T t. bv_rep n S s \<Longrightarrow> bv_rep n T t \<Longrightarrow> bs_includes s t = Inr (T \<subseteq> S, s)"
    unfolding bs_defs using bv_includes_spec bv_rep_mask by (simp add: bv_rep_def)
  show "\<And>n S s T t. bv_rep n S s \<Longrightarrow> bv_rep n T t \<Longrightarrow> \<exists>u. bs_add_set s t = Inr u \<and> bv_rep n (S \<union> T) u"
    unfolding bs_defs by (rule bv_applyOr_rep)
  show "\<And>n S s T t. bv_rep n S s \<Longrightarrow> bv_rep n T t \<Longrightarrow> \<exists>u. bs_remove_set s t = Inr u \<and> bv_rep n (S - T) u"
    unfolding bs_defs by (rule bv_applyReset_rep)
  show "\<And>n S s T t. bv_rep n S s \<Longrightarrow> bv_rep n T t \<Longrightarrow> \<exists>u. bs_mask s t = Inr u \<and> bv_rep n (S \<inter> T) u"
    unfolding bs_defs by (rule bv_applyAnd_rep)
  show "\<And>n S s T t. bv_rep n S s \<Longrightarrow> bv_rep n T t \<Longrightarrow> bs_assign s t = Inr t"
    unfolding bs_defs by (rule bv_assign_rep)
  show "\<And>n S s. bv_rep n S s \<Longrightarrow> bs_items s = sorted_list_of_set S"
    unfolding bs_defs by (simp add: one_items_spec bv_rep_def)
  show "\<And>n S s. bv_rep n S s \<Longrightarrow> bs_count s = card S"
    unfolding bs_defs by (rule bv_countBits_spec)
qed

lemma bs_isFull_spec:
  assumes "bv_rep n S s"
  shows "bs_isFull s \<longleftrightarrow> S = {..<n}"
proof -
  have "bs_isFull s \<longleftrightarrow> card S = n"
    using bv_countBits_spec [OF assms] assms by (simp add: bs_isFull_def bv_rep_def)
  also have "\<dots> \<longleftrightarrow> S = {..<n}"
    using bv_rep_sub [OF assms] by (metis card_lessThan card_subset_eq finite_lessThan)
  finally show ?thesis .
qed

lemma bs_isEmpty_spec: "bv_rep n S s \<Longrightarrow> bs_isEmpty s = (S = {}, s)"
  using bv_isEmpty_spec [of s] bv_rep_mask [of n S s] by (auto simp: bs_isEmpty_def bv_rep_def)

end
