(* ===== verification/Otawa_Cfg.thy ===== *)
theory Otawa_Cfg
  imports Otawa_Base
begin

text \<open>
  Control flow graphs (otawa/include/otawa/cfg/CFG.h, BasicBlock.h, Edge.h,
  otawa/src/prog/Edge.cpp) as the data-flow analyses see them: a table of basic blocks
  numbered by their position, each with its flags and its lists of edges. A block is named
  by its number (\<^verbatim>\<open>INDEX\<close>), an edge by an identity that stands for its address. The target
  of a \<open>CALL\<close> edge is the number of a block of another CFG; such an edge is in the output
  list of its source only.
\<close>

unbundle bit_operations_syntax

subsection \<open>Data\<close>

datatype edge_kind =
  NONE | TAKEN | NOT_TAKEN | CALL | VIRTUAL | VIRTUAL_CALL | VIRTUAL_RETURN | EXN_CALL | EXN_RETURN

record edge =
  e_id :: nat
  e_src :: nat
  e_tgt :: nat
  e_kind :: edge_kind

record bblock =
  bb_flags :: "32 word"
  bb_ins :: "edge list"
  bb_outs :: "edge list"

record cfg =
  cfg_bbs :: "bblock list"

definition FLAG_Call :: "32 word" where "FLAG_Call = 0x01"
definition FLAG_Unknown :: "32 word" where "FLAG_Unknown = 0x02"
definition FLAG_Return :: "32 word" where "FLAG_Return = 0x04"
definition FLAG_Entry :: "32 word" where "FLAG_Entry = 0x08"
definition FLAG_Exit :: "32 word" where "FLAG_Exit = 0x10"
definition FLAG_Virtual :: "32 word" where "FLAG_Virtual = 0x20"
definition FLAG_Cond :: "32 word" where "FLAG_Cond = 0x40"

lemmas flag_defs = FLAG_Call_def FLAG_Unknown_def FLAG_Return_def FLAG_Entry_def FLAG_Exit_def
  FLAG_Virtual_def FLAG_Cond_def

subsection \<open>Accessors and iterators\<close>

definition countBB :: "cfg \<Rightarrow> nat" where
  "countBB g = length (cfg_bbs g)"

definition isEntry :: "cfg \<Rightarrow> nat \<Rightarrow> bool" where
  "isEntry g b \<longleftrightarrow> bb_flags (cfg_bbs g ! b) AND FLAG_Entry \<noteq> 0"

definition isExit :: "cfg \<Rightarrow> nat \<Rightarrow> bool" where
  "isExit g b \<longleftrightarrow> bb_flags (cfg_bbs g ! b) AND FLAG_Exit \<noteq> 0"

definition isEnd :: "cfg \<Rightarrow> nat \<Rightarrow> bool" where
  "isEnd g b \<longleftrightarrow> bb_flags (cfg_bbs g ! b) AND (FLAG_Entry OR FLAG_Exit) \<noteq> 0"

definition ins :: "cfg \<Rightarrow> nat \<Rightarrow> edge list" where
  "ins g b = bb_ins (cfg_bbs g ! b)"

definition outs :: "cfg \<Rightarrow> nat \<Rightarrow> edge list" where
  "outs g b = bb_outs (cfg_bbs g ! b)"

text \<open>\<^verbatim>\<open>CFG::BBIterator\<close> visits the table in order.\<close>

definition bb_iter :: "cfg \<Rightarrow> nat list" where
  "bb_iter g = [0..<countBB g]"

text \<open>
  \<^verbatim>\<open>dfa::Predecessor\<close> and \<^verbatim>\<open>dfa::Successor\<close>: \<^verbatim>\<open>look\<close> skips the call edges, \<^verbatim>\<open>next\<close>
  advances and looks again. The items are the ends of the remaining edges.
\<close>

definition look :: "edge list \<Rightarrow> edge list" where
  "look es = dropWhile (\<lambda>e. e_kind e = CALL) es"

function not_calls :: "edge list \<Rightarrow> edge list" where
  "not_calls es = (case look es of [] \<Rightarrow> [] | e # es' \<Rightarrow> e # not_calls es')"
  by pat_completeness auto
termination
proof (relation "measure length")
  fix es :: "edge list" and e es'
  assume "look es = e # es'"
  then have "length (e # es') \<le> length es" by (metis look_def length_dropWhile_le)
  then show "(es', es) \<in> measure length" by simp
qed simp

declare not_calls.simps [simp del]

datatype direction = Predecessor | Successor

fun iter_items :: "direction \<Rightarrow> cfg \<Rightarrow> nat \<Rightarrow> nat list" where
  "iter_items Predecessor g b = map e_src (not_calls (ins g b))"
| "iter_items Successor g b = map e_tgt (not_calls (outs g b))"

fun forward :: "direction \<Rightarrow> direction" where
  "forward Predecessor = Successor"
| "forward Successor = Predecessor"

text \<open>
  \<^verbatim>\<open>Edge::Edge\<close> and \<^verbatim>\<open>Edge::~Edge\<close> keep the two lists in step: a new edge goes first in the
  output list of its source and, unless it is a call, in the input list of its target.
  \<^verbatim>\<open>toCall\<close> leaves the target's list and flags the source.
\<close>

definition upd_bb :: "nat \<Rightarrow> (bblock \<Rightarrow> bblock) \<Rightarrow> cfg \<Rightarrow> cfg" where
  "upd_bb b f g = g\<lparr>cfg_bbs := (cfg_bbs g)[b := f (cfg_bbs g ! b)]\<rparr>"

definition addInEdge :: "nat \<Rightarrow> edge \<Rightarrow> cfg \<Rightarrow> cfg" where
  "addInEdge b e = upd_bb b (\<lambda>bb. bb\<lparr>bb_ins := e # bb_ins bb\<rparr>)"

definition addOutEdge :: "nat \<Rightarrow> edge \<Rightarrow> cfg \<Rightarrow> cfg" where
  "addOutEdge b e = upd_bb b (\<lambda>bb. bb\<lparr>bb_outs := e # bb_outs bb\<rparr>)"

definition removeInEdge :: "nat \<Rightarrow> edge \<Rightarrow> cfg \<Rightarrow> cfg" where
  "removeInEdge b e = upd_bb b (\<lambda>bb. bb\<lparr>bb_ins := remove1 e (bb_ins bb)\<rparr>)"

definition removeOutEdge :: "nat \<Rightarrow> edge \<Rightarrow> cfg \<Rightarrow> cfg" where
  "removeOutEdge b e = upd_bb b (\<lambda>bb. bb\<lparr>bb_outs := remove1 e (bb_outs bb)\<rparr>)"

definition new_edge :: "edge \<Rightarrow> cfg \<Rightarrow> cfg res" where
  "new_edge e g = asserting (e_kind e \<noteq> NONE)
     (let g' = addOutEdge (e_src e) e g in
      Inr (if e_kind e \<noteq> CALL then addInEdge (e_tgt e) e g' else g'))"

definition delete_edge :: "edge \<Rightarrow> cfg \<Rightarrow> cfg" where
  "delete_edge e g =
     (let g' = removeOutEdge (e_src e) e g in
      if e_kind e \<noteq> CALL then removeInEdge (e_tgt e) e g' else g')"

subsection \<open>Well-formed graphs\<close>

text \<open>
  The first block is the only entry, the last one the only exit; the two edge lists agree
  and no edge is recorded twice.
\<close>

definition wf_edges :: "cfg \<Rightarrow> bool" where
  "wf_edges g \<longleftrightarrow>
     (\<forall>b < countBB g. distinct (outs g b) \<and> distinct (ins g b) \<and>
        (\<forall>e \<in> set (outs g b). e_src e = b \<and> (e_kind e \<noteq> CALL \<longrightarrow> e_tgt e < countBB g \<and> e \<in> set (ins g (e_tgt e)))) \<and>
        (\<forall>e \<in> set (ins g b). e_tgt e = b \<and> e_kind e \<noteq> CALL \<and> e_src e < countBB g \<and> e \<in> set (outs g (e_src e))))"

definition wf_cfg :: "cfg \<Rightarrow> bool" where
  "wf_cfg g \<longleftrightarrow> 2 \<le> countBB g \<and> wf_edges g \<and>
     (\<forall>b < countBB g. (isEntry g b \<longleftrightarrow> b = 0) \<and> (isExit g b \<longleftrightarrow> b = countBB g - 1))"

lemma not_calls_filter: "not_calls es = filter (\<lambda>e. e_kind e \<noteq> CALL) es"
proof (induction es rule: not_calls.induct)
  case (1 es)
  show ?case
  proof (cases "look es")
    case Nil
    then have "filter (\<lambda>e. e_kind e \<noteq> CALL) es = []"
      by (auto simp: look_def dropWhile_eq_Nil_conv filter_empty_conv)
    then show ?thesis using Nil by (subst not_calls.simps) simp
  next
    case (Cons e es')
    then have "es = takeWhile (\<lambda>e. e_kind e = CALL) es @ e # es'"
      by (metis look_def takeWhile_dropWhile_id)
    moreover have "e_kind e \<noteq> CALL" using Cons by (simp add: look_def dropWhile_eq_Cons_conv)
    moreover have "filter (\<lambda>e. e_kind e \<noteq> CALL) (takeWhile (\<lambda>e. e_kind e = CALL) es) = []"
      by (auto simp: filter_empty_conv dest: set_takeWhileD)
    ultimately have "filter (\<lambda>e. e_kind e \<noteq> CALL) es = e # filter (\<lambda>e. e_kind e \<noteq> CALL) es'"
      by (metis (mono_tags, lifting) append_Nil filter.simps(2) filter_append)
    then show ?thesis using 1 Cons by (subst not_calls.simps) simp
  qed
qed

lemma forward_forward [simp]: "forward (forward d) = d"
  by (cases d) simp_all

lemma iter_items_bound:
  assumes "wf_edges g" "b < countBB g" "c \<in> set (iter_items d g b)"
  shows "c < countBB g"
  using assms by (cases d) (auto simp: not_calls_filter wf_edges_def)

lemma iter_items_forward:
  assumes "wf_edges g" "b < countBB g" "c < countBB g"
  shows "c \<in> set (iter_items (forward d) g b) \<longleftrightarrow> b \<in> set (iter_items d g c)"
proof -
  have "c \<in> set (iter_items Successor g b) \<longleftrightarrow> b \<in> set (iter_items Predecessor g c)"
    if "b < countBB g" "c < countBB g" for b c
    using assms(1) that by (fastforce simp: not_calls_filter wf_edges_def image_iff)
  then show ?thesis using assms(2,3) by (cases d) auto
qed

text \<open>Flow paths: non-empty sequences of blocks linked by edges that are not calls.\<close>

definition cfg_succ :: "cfg \<Rightarrow> nat \<Rightarrow> nat \<Rightarrow> bool" where
  "cfg_succ g a b \<longleftrightarrow> b \<in> set (iter_items Successor g a)"

fun is_path :: "(nat \<Rightarrow> nat \<Rightarrow> bool) \<Rightarrow> nat \<Rightarrow> nat list \<Rightarrow> nat \<Rightarrow> bool" where
  "is_path E a [] b \<longleftrightarrow> False"
| "is_path E a [x] b \<longleftrightarrow> a = x \<and> x = b"
| "is_path E a (x # y # ys) b \<longleftrightarrow> a = x \<and> E x y \<and> is_path E y (y # ys) b"

lemma is_path_single: "is_path E a [a] a" by simp

lemma is_path_snoc: "is_path E a p b \<Longrightarrow> E b c \<Longrightarrow> is_path E a (p @ [c]) c"
  by (induction E a p b rule: is_path.induct) auto

lemma is_path_ends: "is_path E a p b \<Longrightarrow> p \<noteq> [] \<and> hd p = a \<and> last p = b"
  by (induction E a p b rule: is_path.induct) auto

lemma is_path_unsnoc:
  "is_path E a p c \<Longrightarrow> p = [c] \<and> a = c \<or> (\<exists>q b. p = q @ [c] \<and> is_path E a q b \<and> E b c)"
proof (induction E a p c rule: is_path.induct)
  case (3 E a x y ys b)
  then have a: "a = x" "E x y" and "is_path E y (y # ys) b" by auto
  then have "y # ys = [b] \<and> y = b \<or> (\<exists>q d. y # ys = q @ [b] \<and> is_path E y q d \<and> E d b)"
    using "3.IH" by blast
  then show ?case
  proof (elim disjE exE conjE)
    assume "y # ys = [b]" "y = b"
    with a show ?thesis by (intro disjI2 exI [of _ "[x]"] exI [of _ x]) auto
  next
    fix q d assume q: "y # ys = q @ [b]" "is_path E y q d" "E d b"
    then obtain q' where "q = y # q'" by (cases q) auto
    with q a show ?thesis by (intro disjI2 exI [of _ "x # q"] exI [of _ d]) auto
  qed
qed auto

lemma is_path_induct [consumes 1, case_names start step]:
  assumes "is_path E a p c"
    and "P [a] a"
    and "\<And>q b c. is_path E a q b \<Longrightarrow> E b c \<Longrightarrow> P q b \<Longrightarrow> P (q @ [c]) c"
  shows "P p c"
  using assms(1)
proof (induction "length p" arbitrary: p c rule: less_induct)
  case less
  from is_path_unsnoc [OF less.prems] show ?case
  proof (elim disjE exE conjE)
    assume "p = [c]" "a = c"
    then show ?thesis using assms(2) by simp
  next
    fix q b assume "p = q @ [c]" "is_path E a q b" "E b c"
    then show ?thesis using less.hyps [of q b] assms(3) by auto
  qed
qed

lemma is_path_append:
  assumes "is_path E a p b" "is_path E b q c"
  shows "is_path E a (p @ tl q) c"
  using assms(2,1)
proof (induction rule: is_path_induct)
  case start
  then show ?case by simp
next
  case (step q d c)
  then have "is_path E a ((p @ tl q) @ [c]) c" by (intro is_path_snoc) auto
  moreover have "q \<noteq> []" using step.hyps is_path_ends by blast
  ultimately show ?case by (cases q) auto
qed

end
