(* ===== verification/Iterative_Dfa.thy ===== *)
theory Iterative_Dfa
  imports Otawa_Cfg Elm_Vector_Queue Dfa_Bit_Set
begin

text \<open>
  \<^verbatim>\<open>otawa::dfa::IterativeDFA\<close> (otawa/include/otawa/dfa/IterativeDFA.h): the work-list engine
  behind the dominance, post-dominance and loop analyses. A problem is the record of the
  operations the template calls; the engine's state is the four set arrays, the scratch
  set \<^verbatim>\<open>comp\<close>, the queue \<^verbatim>\<open>todo\<close> and the bit vector \<^verbatim>\<open>present\<close>.

  The locales state what the engine needs: \<open>dfa_lattice\<close> and \<open>dfa_flow\<close> the order-theoretic
  laws of the problem, \<open>dfa_impl\<close> that the operations on the concrete sets implement it.
  Under them \<^verbatim>\<open>compute\<close> ends, without a failed assertion, with the least solution of
  the flow equations.
\<close>

subsection \<open>The engine\<close>

record 's problem =
  p_empty :: "'s res"
  p_gen :: "nat \<Rightarrow> 's res"
  p_kill :: "nat \<Rightarrow> 's res"
  p_equals :: "'s \<Rightarrow> 's \<Rightarrow> (bool \<times> 's) res"
  p_reset :: "'s \<Rightarrow> 's"
  p_merge :: "'s \<Rightarrow> 's \<Rightarrow> 's res"
  p_set :: "'s \<Rightarrow> 's \<Rightarrow> 's res"
  p_add :: "'s \<Rightarrow> 's \<Rightarrow> 's res"
  p_diff :: "'s \<Rightarrow> 's \<Rightarrow> 's res"

record 's idfa =
  d_ins :: "'s list"
  d_outs :: "'s list"
  d_gens :: "'s list"
  d_kills :: "'s list"

record 's idfa_work =
  w_ins :: "'s list"
  w_outs :: "'s list"
  w_comp :: 's
  w_todo :: "nat vqueue"
  w_present :: bitvec

text \<open>The constructor visits the blocks in number order, so its writes fill the arrays in order.\<close>

definition idfa_new_bb :: "'s problem \<Rightarrow> nat \<Rightarrow> 's idfa \<Rightarrow> 's idfa res" where
  "idfa_new_bb prob b d =
     rbind (p_empty prob) (\<lambda>i.
     rbind (p_empty prob) (\<lambda>o'.
     rbind (p_gen prob b) (\<lambda>gn.
     rbind (p_kill prob b) (\<lambda>kl.
       Inr \<lparr>d_ins = d_ins d @ [i], d_outs = d_outs d @ [o'], d_gens = d_gens d @ [gn], d_kills = d_kills d @ [kl]\<rparr>))))"

definition idfa_new :: "'s problem \<Rightarrow> cfg \<Rightarrow> 's idfa res" where
  "idfa_new prob g = rfold (idfa_new_bb prob) (bb_iter g) \<lparr>d_ins = [], d_outs = [], d_gens = [], d_kills = []\<rparr>"

text \<open>Initialisation of \<^verbatim>\<open>compute\<close>: every block is put in the queue and marked present.\<close>

definition idfa_push :: "nat \<Rightarrow> nat vqueue \<times> bitvec \<Rightarrow> (nat vqueue \<times> bitvec) res" where
  "idfa_push b tp = rbind (bv_set_bit (snd tp) b) (\<lambda>p. Inr (vq_put (fst tp) b, p))"

definition idfa_start :: "'s problem \<Rightarrow> cfg \<Rightarrow> 's idfa \<Rightarrow> 's idfa_work res" where
  "idfa_start prob g d =
     rbind (bv_new (countBB g) False) (\<lambda>present.
     rbind (p_empty prob) (\<lambda>comp.
     rbind (rfold idfa_push (bb_iter g) (vq_new 4, present)) (\<lambda>tp.
       Inr \<lparr>w_ins = d_ins d, w_outs = d_outs d, w_comp = comp, w_todo = fst tp, w_present = snd tp\<rparr>)))"

definition idfa_push_new :: "nat \<Rightarrow> nat vqueue \<times> bitvec \<Rightarrow> (nat vqueue \<times> bitvec) res" where
  "idfa_push_new b tp = rbind (bv_bit (snd tp) b) (\<lambda>here. if here then Inr tp else idfa_push b tp)"

text \<open>One turn of the loop: take a block, recompute its input and output, requeue on a change.\<close>

definition idfa_flow :: "'s problem \<Rightarrow> 's idfa \<Rightarrow> nat \<Rightarrow> 's \<Rightarrow> 's \<Rightarrow> 's res" where
  "idfa_flow prob d b cmp inp =
     rbind (p_set prob cmp inp) (\<lambda>c.
     rbind (p_diff prob c (d_kills d ! b)) (\<lambda>c.
       p_add prob c (d_gens d ! b)))"

definition idfa_step :: "'s problem \<Rightarrow> direction \<Rightarrow> cfg \<Rightarrow> 's idfa \<Rightarrow> 's idfa_work \<Rightarrow> 's idfa_work res" where
  "idfa_step prob dir g d w =
     rbind (vq_get (w_todo w)) (\<lambda>(b, todo).
     rbind (bv_clear_bit (w_present w) b) (\<lambda>present.
     rbind (rfold (\<lambda>p s. p_merge prob s (w_outs w ! p)) (iter_items dir g b) (p_reset prob (w_ins w ! b))) (\<lambda>inp.
     rbind (idfa_flow prob d b (w_comp w) inp) (\<lambda>comp.
     rbind (p_equals prob comp (w_outs w ! b)) (\<lambda>(same, comp).
       if same
       then Inr (w\<lparr>w_ins := (w_ins w)[b := inp], w_comp := p_reset prob comp, w_todo := todo, w_present := present\<rparr>)
       else rbind (rfold idfa_push_new (iter_items (forward dir) g b) (todo, present)) (\<lambda>tp.
         Inr \<lparr>w_ins = (w_ins w)[b := inp], w_outs = (w_outs w)[b := comp],
              w_comp = p_reset prob (w_outs w ! b), w_todo = fst tp, w_present = snd tp\<rparr>))))))"

partial_function (option) idfa_loop ::
  "'s problem \<Rightarrow> direction \<Rightarrow> cfg \<Rightarrow> 's idfa \<Rightarrow> 's idfa_work \<Rightarrow> 's idfa_work res option" where
  "idfa_loop prob dir g d w =
     (if vq_isEmpty (w_todo w) then Some (Inr w)
      else case idfa_step prob dir g d w of
        Inl e \<Rightarrow> Some (Inl e)
      | Inr w' \<Rightarrow> idfa_loop prob dir g d w')"

declare idfa_loop.simps [code]

definition idfa_compute :: "'s problem \<Rightarrow> direction \<Rightarrow> cfg \<Rightarrow> 's idfa \<Rightarrow> 's idfa res option" where
  "idfa_compute prob dir g d =
     (case idfa_start prob g d of
        Inl e \<Rightarrow> Some (Inl e)
      | Inr w \<Rightarrow> (case idfa_loop prob dir g d w of
            None \<Rightarrow> None
          | Some (Inl e) \<Rightarrow> Some (Inl e)
          | Some (Inr w') \<Rightarrow> Some (Inr (d\<lparr>d_ins := w_ins w', d_outs := w_outs w'\<rparr>))))"

text \<open>Construction followed by \<^verbatim>\<open>compute\<close>, as every client calls them.\<close>

definition idfa_run :: "'s problem \<Rightarrow> direction \<Rightarrow> cfg \<Rightarrow> 's idfa res option" where
  "idfa_run prob dir g = (case idfa_new prob g of Inl e \<Rightarrow> Some (Inl e) | Inr d \<Rightarrow> idfa_compute prob dir g d)"

subsection \<open>Flow equations over a lattice of finite height\<close>

definition inflow :: "('a \<Rightarrow> 'a \<Rightarrow> 'a) \<Rightarrow> 'a \<Rightarrow> (nat \<Rightarrow> nat list) \<Rightarrow> (nat \<Rightarrow> 'a) \<Rightarrow> nat \<Rightarrow> 'a" where
  "inflow join bt preds X i = foldl join bt (map X (preds i))"

locale dfa_lattice =
  fixes D :: "'a set" and leq :: "'a \<Rightarrow> 'a \<Rightarrow> bool" and join :: "'a \<Rightarrow> 'a \<Rightarrow> 'a" and bt :: 'a
  assumes finite_D: "finite D"
    and leq_refl: "x \<in> D \<Longrightarrow> leq x x"
    and leq_trans: "x \<in> D \<Longrightarrow> y \<in> D \<Longrightarrow> z \<in> D \<Longrightarrow> leq x y \<Longrightarrow> leq y z \<Longrightarrow> leq x z"
    and leq_antisym: "x \<in> D \<Longrightarrow> y \<in> D \<Longrightarrow> leq x y \<Longrightarrow> leq y x \<Longrightarrow> x = y"
    and bot_D: "bt \<in> D" and bot_least: "x \<in> D \<Longrightarrow> leq bt x"
    and join_D: "x \<in> D \<Longrightarrow> y \<in> D \<Longrightarrow> join x y \<in> D"
    and join_ub1: "x \<in> D \<Longrightarrow> y \<in> D \<Longrightarrow> leq x (join x y)"
    and join_ub2: "x \<in> D \<Longrightarrow> y \<in> D \<Longrightarrow> leq y (join x y)"
    and join_least: "x \<in> D \<Longrightarrow> y \<in> D \<Longrightarrow> z \<in> D \<Longrightarrow> leq x z \<Longrightarrow> leq y z \<Longrightarrow> leq (join x y) z"
begin

lemma foldl_join_D: "a \<in> D \<Longrightarrow> set xs \<subseteq> D \<Longrightarrow> foldl join a xs \<in> D"
  by (induction xs arbitrary: a) (auto simp: join_D)

lemma join_mono:
  assumes "x \<in> D" "y \<in> D" "x' \<in> D" "y' \<in> D" "leq x x'" "leq y y'"
  shows "leq (join x y) (join x' y')"
  using assms by (meson join_D join_least join_ub1 join_ub2 leq_trans)

lemma foldl_join_mono:
  assumes "a \<in> D" "b \<in> D" "leq a b" "\<And>p. p \<in> set ps \<Longrightarrow> X p \<in> D \<and> Y p \<in> D \<and> leq (X p) (Y p)"
  shows "leq (foldl join a (map X ps)) (foldl join b (map Y ps))"
  using assms
proof (induction ps arbitrary: a b)
  case (Cons p ps)
  then have "leq (join a (X p)) (join b (Y p))" "join a (X p) \<in> D" "join b (Y p) \<in> D"
    by (auto intro: join_mono join_D)
  then show ?case using Cons by simp
qed simp

text \<open>The height left above a value bounds the number of its changes.\<close>

lemma height_decreases:
  assumes "x \<in> D" "y \<in> D" "leq x y" "x \<noteq> y"
  shows "card {z \<in> D. leq y z \<and> z \<noteq> y} < card {z \<in> D. leq x z \<and> z \<noteq> x}"
proof (rule psubset_card_mono)
  show "finite {z \<in> D. leq x z \<and> z \<noteq> x}" using finite_D by simp
  have "{z \<in> D. leq y z \<and> z \<noteq> y} \<subseteq> {z \<in> D. leq x z \<and> z \<noteq> x}"
    using assms leq_trans leq_antisym by blast
  moreover have "y \<in> {z \<in> D. leq x z \<and> z \<noteq> x} - {z \<in> D. leq y z \<and> z \<noteq> y}" using assms by auto
  ultimately show "{z \<in> D. leq y z \<and> z \<noteq> y} \<subset> {z \<in> D. leq x z \<and> z \<noteq> x}" by blast
qed

end

locale dfa_flow = dfa_lattice +
  fixes n :: nat and preds succs :: "nat \<Rightarrow> nat list" and tr :: "nat \<Rightarrow> 'a \<Rightarrow> 'a"
  assumes preds_bound: "i < n \<Longrightarrow> j \<in> set (preds i) \<Longrightarrow> j < n"
    and succs_bound: "i < n \<Longrightarrow> j \<in> set (succs i) \<Longrightarrow> j < n"
    and succs_preds: "i < n \<Longrightarrow> j < n \<Longrightarrow> i \<in> set (preds j) \<Longrightarrow> j \<in> set (succs i)"
    and tr_D: "i < n \<Longrightarrow> x \<in> D \<Longrightarrow> tr i x \<in> D"
    and tr_mono: "i < n \<Longrightarrow> x \<in> D \<Longrightarrow> y \<in> D \<Longrightarrow> leq x y \<Longrightarrow> leq (tr i x) (tr i y)"
begin

definition prefix_point :: "(nat \<Rightarrow> 'a) \<Rightarrow> bool" where
  "prefix_point Y \<longleftrightarrow> (\<forall>i < n. Y i \<in> D \<and> leq (tr i (inflow join bt preds Y i)) (Y i))"

definition solved :: "(nat \<Rightarrow> 'a) \<Rightarrow> nat \<Rightarrow> bool" where
  "solved X i \<longleftrightarrow> X i = tr i (inflow join bt preds X i)"

text \<open>Invariant of the work list: \<open>W\<close> holds every block whose equation may not hold.\<close>

definition winv :: "(nat \<Rightarrow> 'a) \<Rightarrow> nat set \<Rightarrow> bool" where
  "winv X W \<longleftrightarrow> (\<forall>i < n. X i \<in> D) \<and>
     (\<forall>i < n. leq (X i) (tr i (inflow join bt preds X i))) \<and>
     (\<forall>Y. prefix_point Y \<longrightarrow> (\<forall>i < n. leq (X i) (Y i))) \<and>
     (\<forall>i < n. i \<notin> W \<longrightarrow> solved X i)"

definition height :: "(nat \<Rightarrow> 'a) \<Rightarrow> nat" where
  "height X = (\<Sum>i < n. card {z \<in> D. leq (X i) z \<and> z \<noteq> X i})"

lemma inflow_D: "i < n \<Longrightarrow> \<forall>j < n. X j \<in> D \<Longrightarrow> inflow join bt preds X i \<in> D"
  using preds_bound [of i] by (auto simp: inflow_def bot_D intro!: foldl_join_D)

lemma inflow_mono:
  assumes "i < n" "\<forall>j < n. X j \<in> D \<and> Y j \<in> D \<and> leq (X j) (Y j)"
  shows "leq (inflow join bt preds X i) (inflow join bt preds Y i)"
  unfolding inflow_def using assms preds_bound [OF assms(1)]
  by (intro foldl_join_mono) (auto simp: bot_D leq_refl)

lemma inflow_cong: "(\<And>j. j \<in> set (preds i) \<Longrightarrow> X j = Y j) \<Longrightarrow> inflow join bt preds X i = inflow join bt preds Y i"
  unfolding inflow_def by (metis (no_types, lifting) map_eq_conv)

lemma winv_start: "winv (\<lambda>_. bt) {..<n}"
  unfolding winv_def by (auto simp: bot_D bot_least inflow_D tr_D prefix_point_def)

lemma winv_same:
  assumes "winv X W" "i < n" "tr i (inflow join bt preds X i) = X i"
  shows "winv X (W - {i})"
  using assms by (auto simp: winv_def solved_def)

lemma winv_change:
  assumes w: "winv X W" and i: "i < n"
  defines "v \<equiv> tr i (inflow join bt preds X i)"
  shows "winv (X(i := v)) (W - {i} \<union> set (succs i))"
proof -
  let ?X = "X(i := v)"
  have XD: "\<forall>j < n. X j \<in> D" and up: "\<forall>j < n. leq (X j) (tr j (inflow join bt preds X j))"
    and low: "\<forall>Y. prefix_point Y \<longrightarrow> (\<forall>j < n. leq (X j) (Y j))"
    and dn: "\<forall>j < n. j \<notin> W \<longrightarrow> solved X j" using w by (auto simp: winv_def)
  have vD: "v \<in> D" unfolding v_def using i XD by (intro tr_D inflow_D) auto
  have le: "leq (X i) v" using up i by (simp add: v_def)
  have XD': "\<forall>j < n. ?X j \<in> D" using XD vD by simp
  have XX: "\<forall>j < n. X j \<in> D \<and> ?X j \<in> D \<and> leq (X j) (?X j)" using XD vD le by (simp add: leq_refl)
  have inc: "leq (tr j (inflow join bt preds X j)) (tr j (inflow join bt preds ?X j))" if "j < n" for j
    using that XX XD XD' by (intro tr_mono inflow_D inflow_mono) auto
  have trD: "tr j (inflow join bt preds Z j) \<in> D" if "j < n" "\<forall>k < n. Z k \<in> D" for j Z
    using that by (intro tr_D inflow_D) auto
  have "leq (?X j) (tr j (inflow join bt preds ?X j))" if j: "j < n" for j
  proof (cases "j = i")
    case True
    then show ?thesis using inc [OF j] by (simp add: v_def)
  next
    case False
    have "leq (X j) (tr j (inflow join bt preds ?X j))"
      by (rule leq_trans [OF _ trD [OF j XD] trD [OF j XD'] _ inc [OF j]]) (use XD up j in auto)
    with False show ?thesis by simp
  qed
  moreover have "leq (?X j) (Y j)" if Y: "prefix_point Y" and j: "j < n" for Y j
  proof (cases "j = i")
    case True
    have "\<forall>k < n. X k \<in> D \<and> Y k \<in> D \<and> leq (X k) (Y k)" using Y low XD by (auto simp: prefix_point_def)
    then have "leq v (tr i (inflow join bt preds Y i))"
      unfolding v_def using i by (intro tr_mono inflow_D inflow_mono) auto
    moreover have "leq (tr i (inflow join bt preds Y i)) (Y i)" "Y i \<in> D" "\<forall>k < n. Y k \<in> D"
      using Y i by (auto simp: prefix_point_def)
    ultimately show ?thesis using True vD i leq_trans [OF vD trD [OF i]] by simp
  next
    case False
    then show ?thesis using low Y j by simp
  qed
  moreover have "solved ?X j" if j: "j < n" "j \<notin> W - {i} \<union> set (succs i)" for j
  proof -
    have "i \<notin> set (preds j)" using succs_preds [OF i] j by blast
    then have eq: "inflow join bt preds ?X j = inflow join bt preds X j" by (intro inflow_cong) auto
    show ?thesis
    proof (cases "j = i")
      case True
      then show ?thesis using eq by (simp add: solved_def v_def)
    next
      case False
      then have "solved X j" using dn j by auto
      then show ?thesis using eq False by (simp add: solved_def)
    qed
  qed
  ultimately show ?thesis using XD' unfolding winv_def by blast
qed

lemma height_change:
  assumes w: "winv X W" and i: "i < n"
  defines "v \<equiv> tr i (inflow join bt preds X i)"
  assumes ne: "v \<noteq> X i"
  shows "height (X(i := v)) < height X"
proof -
  have "X i \<in> D" "v \<in> D" "leq (X i) v"
    using w i by (auto simp: winv_def v_def intro!: tr_D inflow_D)
  from height_decreases [OF this] ne
  have "card {z \<in> D. leq v z \<and> z \<noteq> v} < card {z \<in> D. leq (X i) z \<and> z \<noteq> X i}" by simp
  then show ?thesis
    unfolding height_def using i by (intro sum_strict_mono_ex1) auto
qed

lemma winv_end:
  assumes "winv X {}"
  shows "(\<forall>i < n. X i \<in> D \<and> solved X i) \<and> (\<forall>Y. prefix_point Y \<longrightarrow> (\<forall>i < n. leq (X i) (Y i)))"
  using assms by (auto simp: winv_def)

end

subsection \<open>The engine computes the least solution\<close>

text \<open>The queue and its membership vector hold the same blocks.\<close>

definition todo_rel :: "nat \<Rightarrow> nat set \<Rightarrow> nat vqueue \<times> bitvec \<Rightarrow> bool" where
  "todo_rel n W tp \<longleftrightarrow> vq_inv (fst tp) \<and> set (vq_list (fst tp)) = W \<and> distinct (vq_list (fst tp)) \<and>
     bv_rep n W (snd tp)"

lemma idfa_push_rel:
  assumes "todo_rel n W tp" "b < n" "b \<notin> W"
  shows "\<exists>tp'. idfa_push b tp = Inr tp' \<and> todo_rel n (insert b W) tp'"
proof -
  obtain p where "bv_set_bit (snd tp) b = Inr p" "bv_rep n (insert b W) p"
    using assms bv_set_bit_rep [of n W "snd tp" b] by (auto simp: todo_rel_def)
  then show ?thesis
    using assms by (auto simp: idfa_push_def todo_rel_def vq.inv_put vq.abs_put)
qed

lemma idfa_push_new_rel:
  assumes "todo_rel n W tp" "b < n"
  shows "\<exists>tp'. idfa_push_new b tp = Inr tp' \<and> todo_rel n (insert b W) tp'"
proof -
  have "bv_bit (snd tp) b = Inr (b \<in> W)" using assms bv_bit_rep by (auto simp: todo_rel_def)
  then show ?thesis
    using assms idfa_push_rel [OF assms] by (cases "b \<in> W") (auto simp: idfa_push_new_def insert_absorb)
qed

lemma push_all_rel:
  assumes "todo_rel n W tp" "\<And>b. b \<in> set bs \<Longrightarrow> b < n" "distinct bs" "set bs \<inter> W = {}"
  shows "\<exists>tp'. rfold idfa_push bs tp = Inr tp' \<and> todo_rel n (W \<union> set bs) tp'"
  using assms
proof (induction bs arbitrary: W tp)
  case Nil
  then show ?case by auto
next
  case (Cons b bs)
  then obtain tp' where t: "idfa_push b tp = Inr tp'" "todo_rel n (insert b W) tp'"
    using idfa_push_rel [of n W tp b] by auto
  with Cons.IH [OF t(2)] Cons.prems show ?case by auto
qed

lemma push_new_all_rel:
  assumes "todo_rel n W tp" "\<And>b. b \<in> set bs \<Longrightarrow> b < n"
  shows "\<exists>tp'. rfold idfa_push_new bs tp = Inr tp' \<and> todo_rel n (W \<union> set bs) tp'"
  using assms
proof (induction bs arbitrary: W tp)
  case Nil
  then show ?case by auto
next
  case (Cons b bs)
  then obtain tp' where t: "idfa_push_new b tp = Inr tp'" "todo_rel n (insert b W) tp'"
    using idfa_push_new_rel [of n W tp b] by auto
  with Cons.IH [OF t(2)] Cons.prems show ?case by auto
qed

lemma todo_take:
  assumes "todo_rel n W (todo, present)" "\<not> vq_isEmpty todo"
  shows "\<exists>b todo' present'. vq_get todo = Inr (b, todo') \<and> b \<in> W \<and> b < n \<and>
    bv_clear_bit present b = Inr present' \<and> todo_rel n (W - {b}) (todo', present') \<and>
    length (vq_list todo) = Suc (length (vq_list todo'))"
proof -
  obtain b todo' where g: "vq_get todo = Inr (b, todo')" "vq_inv todo'" "vq_list todo = b # vq_list todo'"
    using vq.get_not_empty [of todo] assms by (auto simp: todo_rel_def)
  then have b: "b \<in> W" "b < n" using assms bv_rep_sub by (fastforce simp: todo_rel_def)+
  then obtain present' where "bv_clear_bit present b = Inr present'" "bv_rep n (W - {b}) present'"
    using bv_clear_bit_rep [of n W present b] assms by (auto simp: todo_rel_def)
  moreover have "set (vq_list todo') = W - {b}" "distinct (vq_list todo')"
    using g(3) assms(1) by (auto simp: todo_rel_def)
  ultimately show ?thesis using g b by (auto simp: todo_rel_def)
qed

locale dfa_impl = dfa_flow D leq join bt "countBB g" "iter_items d g" "iter_items (forward d) g"
    "\<lambda>i x. uni (dif x (K i)) (G i)"
  for D :: "'a set" and leq join bt g d and uni dif :: "'a \<Rightarrow> 'a \<Rightarrow> 'a" and K G :: "nat \<Rightarrow> 'a" +
  fixes prob :: "'s problem" and rep :: "'s \<Rightarrow> 'a \<Rightarrow> bool"
  assumes some_bb: "0 < countBB g"
    and rep_D: "rep s x \<Longrightarrow> x \<in> D"
    and empty_rep: "\<exists>s. p_empty prob = Inr s \<and> rep s bt"
    and gen_rep: "i < countBB g \<Longrightarrow> \<exists>s. p_gen prob i = Inr s \<and> rep s (G i)"
    and kill_rep: "i < countBB g \<Longrightarrow> \<exists>s. p_kill prob i = Inr s \<and> rep s (K i)"
    and equals_rep: "rep s x \<Longrightarrow> rep t y \<Longrightarrow> \<exists>u. p_equals prob s t = Inr (x = y, u) \<and> rep u x"
    and reset_rep: "rep s x \<Longrightarrow> rep (p_reset prob s) bt"
    and merge_rep: "rep s x \<Longrightarrow> rep t y \<Longrightarrow> \<exists>u. p_merge prob s t = Inr u \<and> rep u (join x y)"
    and set_rep: "rep s x \<Longrightarrow> rep t y \<Longrightarrow> \<exists>u. p_set prob s t = Inr u \<and> rep u y"
    and add_rep: "rep s x \<Longrightarrow> rep t y \<Longrightarrow> \<exists>u. p_add prob s t = Inr u \<and> rep u (uni x y)"
    and diff_rep: "rep s x \<Longrightarrow> rep t y \<Longrightarrow> \<exists>u. p_diff prob s t = Inr u \<and> rep u (dif x y)"
begin

definition idfa_rel :: "'s idfa \<Rightarrow> bool" where
  "idfa_rel e \<longleftrightarrow> length (d_gens e) = countBB g \<and> length (d_kills e) = countBB g \<and>
     (\<forall>i < countBB g. rep (d_gens e ! i) (G i) \<and> rep (d_kills e ! i) (K i))"

definition arrays_rel :: "'s list \<Rightarrow> 's list \<Rightarrow> (nat \<Rightarrow> 'a) \<Rightarrow> nat set \<Rightarrow> bool" where
  "arrays_rel is os X W \<longleftrightarrow> length is = countBB g \<and> length os = countBB g \<and>
     (\<forall>i < countBB g. rep (os ! i) (X i) \<and> (\<exists>x. rep (is ! i) x) \<and>
        (i \<notin> W \<longrightarrow> rep (is ! i) (inflow join bt (iter_items d g) X i)))"

definition work_rel :: "'s idfa_work \<Rightarrow> (nat \<Rightarrow> 'a) \<Rightarrow> nat set \<Rightarrow> bool" where
  "work_rel w X W \<longleftrightarrow> arrays_rel (w_ins w) (w_outs w) X W \<and> (\<exists>x. rep (w_comp w) x) \<and>
     todo_rel (countBB g) W (w_todo w, w_present w) \<and> winv X W"

lemma idfa_new_ok:
  "\<exists>e. idfa_new prob g = Inr e \<and> idfa_rel e \<and> length (d_ins e) = countBB g \<and> length (d_outs e) = countBB g \<and>
    (\<forall>i < countBB g. rep (d_ins e ! i) bt \<and> rep (d_outs e ! i) bt)"
proof -
  let ?P = "\<lambda>bs e. let k = length bs in length (d_ins e) = k \<and> length (d_outs e) = k \<and>
      length (d_gens e) = k \<and> length (d_kills e) = k \<and>
      (\<forall>i < k. rep (d_ins e ! i) bt \<and> rep (d_outs e ! i) bt \<and> rep (d_gens e ! i) (G i) \<and> rep (d_kills e ! i) (K i))"
  have "\<exists>e. rfold (idfa_new_bb prob) (bb_iter g) \<lparr>d_ins = [], d_outs = [], d_gens = [], d_kills = []\<rparr> = Inr e \<and>
      ?P (bb_iter g) e"
  proof (rule rfold_invariant)
    show "?P [] \<lparr>d_ins = [], d_outs = [], d_gens = [], d_kills = []\<rparr>" by simp
    fix pre b post and e :: "'s idfa" assume split: "bb_iter g = pre @ b # post" and inv: "?P pre e"
    have "bb_iter g ! length pre = b" using split by simp
    moreover have lt: "length pre < countBB g" using arg_cong [OF split, of length] by (simp add: bb_iter_def)
    ultimately have b: "b = length pre" by (simp add: bb_iter_def)
    obtain s where s: "p_empty prob = Inr s" "rep s bt" using empty_rep by blast
    obtain gn where gn: "p_gen prob b = Inr gn" "rep gn (G b)" using gen_rep b lt by blast
    obtain kl where kl: "p_kill prob b = Inr kl" "rep kl (K b)" using kill_rep b lt by blast
    show "\<exists>e'. idfa_new_bb prob b e = Inr e' \<and> ?P (pre @ [b]) e'"
      using inv s gn kl b by (auto simp: idfa_new_bb_def Let_def nth_append less_Suc_eq)
  qed
  then show ?thesis by (auto simp: idfa_new_def idfa_rel_def bb_iter_def Let_def)
qed

lemma idfa_start_ok:
  assumes "length (d_ins e) = countBB g" "length (d_outs e) = countBB g"
    "\<forall>i < countBB g. rep (d_ins e ! i) bt \<and> rep (d_outs e ! i) bt"
  shows "\<exists>w. idfa_start prob g e = Inr w \<and> work_rel w (\<lambda>_. bt) {..<countBB g}"
proof -
  obtain p where p: "bv_new (countBB g) False = Inr p" "bv_rep (countBB g) {} p"
    using bv_new_rep [OF some_bb] by blast
  obtain s where s: "p_empty prob = Inr s" "rep s bt" using empty_rep by blast
  have "todo_rel (countBB g) {} (vq_new 4, p)"
    using p by (simp add: todo_rel_def vq.inv_new vq.abs_new)
  from push_all_rel [OF this, of "bb_iter g"]
  obtain tp where "rfold idfa_push (bb_iter g) (vq_new 4, p) = Inr tp" "todo_rel (countBB g) {..<countBB g} tp"
    by (auto simp: bb_iter_def atLeast0LessThan)
  then show ?thesis
    using p s assms winv_start
    by (auto simp: idfa_start_def work_rel_def arrays_rel_def)
qed

lemma merge_all:
  assumes "rep s x" "\<And>p. p \<in> set ps \<Longrightarrow> rep (os ! p) (X p)"
  shows "\<exists>u. rfold (\<lambda>p s. p_merge prob s (os ! p)) ps s = Inr u \<and> rep u (foldl join x (map X ps))"
  using assms
proof (induction ps arbitrary: s x)
  case (Cons p ps)
  then obtain u where u: "p_merge prob s (os ! p) = Inr u" "rep u (join x (X p))" using merge_rep by fastforce
  from Cons.IH [OF u(2)] Cons.prems(2) u(1) show ?case by auto
qed auto

lemma idfa_flow_ok:
  assumes "idfa_rel e" "i < countBB g" "rep c x" "rep inp y"
  shows "\<exists>u. idfa_flow prob e i c inp = Inr u \<and> rep u (uni (dif y (K i)) (G i))"
proof -
  obtain a where a: "p_set prob c inp = Inr a" "rep a y" using set_rep assms by blast
  obtain b where b: "p_diff prob a (d_kills e ! i) = Inr b" "rep b (dif y (K i))"
    using diff_rep [OF a(2), of "d_kills e ! i" "K i"] assms by (auto simp: idfa_rel_def)
  obtain u where "p_add prob b (d_gens e ! i) = Inr u" "rep u (uni (dif y (K i)) (G i))"
    using add_rep [OF b(2), of "d_gens e ! i" "G i"] assms by (auto simp: idfa_rel_def)
  with a b show ?thesis by (auto simp: idfa_flow_def)
qed

lemma arrays_rel_same:
  assumes "arrays_rel is os X W" "b < countBB g" "rep inp (inflow join bt (iter_items d g) X b)"
  shows "arrays_rel (is[b := inp]) os X (W - {b})"
  using assms by (auto simp: arrays_rel_def nth_list_update)

lemma arrays_rel_change:
  assumes "arrays_rel is os X W" "b < countBB g" "rep inp (inflow join bt (iter_items d g) X b)" "rep c v"
  shows "arrays_rel (is[b := inp]) (os[b := c]) (X(b := v)) (W - {b} \<union> set (iter_items (forward d) g b))"
proof -
  have "inflow join bt (iter_items d g) (X(b := v)) i = inflow join bt (iter_items d g) X i"
    if "i < countBB g" "i \<notin> set (iter_items (forward d) g b)" for i
    using succs_preds [OF assms(2) that(1)] that(2) by (intro inflow_cong) auto
  with assms show ?thesis by (auto simp: arrays_rel_def nth_list_update)
qed

lemma idfa_step_ok:
  assumes e: "idfa_rel e" and w: "work_rel w X W" and ne: "\<not> vq_isEmpty (w_todo w)"
  shows "\<exists>w' X' W'. idfa_step prob d g e w = Inr w' \<and> work_rel w' X' W' \<and>
    (height X' < height X \<or> height X' = height X \<and> length (vq_list (w_todo w')) < length (vq_list (w_todo w)))"
proof -
  have ar: "arrays_rel (w_ins w) (w_outs w) X W" and td: "todo_rel (countBB g) W (w_todo w, w_present w)"
    and wi: "winv X W" and cmp: "\<exists>x. rep (w_comp w) x"
    using w by (auto simp: work_rel_def)
  obtain b todo present where t: "vq_get (w_todo w) = Inr (b, todo)" "b \<in> W" "b < countBB g"
      "bv_clear_bit (w_present w) b = Inr present" "todo_rel (countBB g) (W - {b}) (todo, present)"
      "length (vq_list (w_todo w)) = Suc (length (vq_list todo))"
    using todo_take [OF td ne] by blast
  let ?in = "inflow join bt (iter_items d g) X b"
  let ?v = "uni (dif ?in (K b)) (G b)"
  obtain z where "rep (w_ins w ! b) z" using ar t(3) by (auto simp: arrays_rel_def)
  then have "rep (p_reset prob (w_ins w ! b)) bt" by (rule reset_rep)
  moreover have "rep (w_outs w ! p) (X p)" if "p \<in> set (iter_items d g b)" for p
    using preds_bound [OF t(3) that] ar by (auto simp: arrays_rel_def)
  ultimately obtain inp where inp:
      "rfold (\<lambda>p s. p_merge prob s (w_outs w ! p)) (iter_items d g b) (p_reset prob (w_ins w ! b)) = Inr inp"
      "rep inp ?in"
    using merge_all [of _ bt] unfolding inflow_def by blast
  obtain c where c: "idfa_flow prob e b (w_comp w) inp = Inr c" "rep c ?v"
    using idfa_flow_ok [OF e t(3)] cmp inp(2) by blast
  have ob: "rep (w_outs w ! b) (X b)" using ar t(3) by (auto simp: arrays_rel_def)
  obtain c' where c': "p_equals prob c (w_outs w ! b) = Inr (?v = X b, c')" "rep c' ?v"
    using equals_rep [OF c(2) ob] by blast
  show ?thesis
  proof (cases "?v = X b")
    case True
    let ?w = "w\<lparr>w_ins := (w_ins w)[b := inp], w_comp := p_reset prob c', w_todo := todo, w_present := present\<rparr>"
    have "idfa_step prob d g e w = Inr ?w"
      using t(1,4) inp(1) c(1) c'(1) True by (simp add: idfa_step_def)
    moreover have "work_rel ?w X (W - {b})"
      using arrays_rel_same [OF ar t(3) inp(2)] t(5) winv_same [OF wi t(3)] True reset_rep [OF c'(2)]
      by (auto simp: work_rel_def)
    ultimately show ?thesis using t(6) by (intro exI [of _ ?w] exI [of _ X]) auto
  next
    case False
    have "\<And>s. s \<in> set (iter_items (forward d) g b) \<Longrightarrow> s < countBB g" using succs_bound [OF t(3)] by blast
    from push_new_all_rel [OF t(5) this] obtain tp where tp:
      "rfold idfa_push_new (iter_items (forward d) g b) (todo, present) = Inr tp"
      "todo_rel (countBB g) (W - {b} \<union> set (iter_items (forward d) g b)) tp" by blast
    let ?w = "\<lparr>w_ins = (w_ins w)[b := inp], w_outs = (w_outs w)[b := c'],
      w_comp = p_reset prob (w_outs w ! b), w_todo = fst tp, w_present = snd tp\<rparr>"
    have "idfa_step prob d g e w = Inr ?w"
      using t(1,4) inp(1) c(1) c'(1) False tp(1) by (simp add: idfa_step_def)
    moreover have "work_rel ?w (X(b := ?v)) (W - {b} \<union> set (iter_items (forward d) g b))"
      using arrays_rel_change [OF ar t(3) inp(2) c'(2)] tp(2) winv_change [OF wi t(3)] reset_rep [OF ob]
      by (auto simp: work_rel_def)
    moreover have "height (X(b := ?v)) < height X" using height_change [OF wi t(3)] False by simp
    ultimately show ?thesis by blast
  qed
qed

lemma idfa_loop_ok:
  assumes "idfa_rel e" "work_rel w X W"
  shows "\<exists>w' X'. idfa_loop prob d g e w = Some (Inr w') \<and> work_rel w' X' {}"
  using assms(2)
proof (induction "(height X, length (vq_list (w_todo w)))" arbitrary: w X W
    rule: wf_induct [OF wf_lex_prod [OF wf_less_than wf_less_than]])
  case 1
  show ?case
  proof (cases "vq_isEmpty (w_todo w)")
    case True
    then have "W = {}" using 1(2) vq.isEmpty_abs [of "w_todo w"] by (auto simp: work_rel_def todo_rel_def)
    then show ?thesis using True 1(2) by (subst idfa_loop.simps) auto
  next
    case False
    obtain w' X' W' where s: "idfa_step prob d g e w = Inr w'" "work_rel w' X' W'"
      "height X' < height X \<or> height X' = height X \<and> length (vq_list (w_todo w')) < length (vq_list (w_todo w))"
      using idfa_step_ok [OF assms(1) 1(2) False] by blast
    have "((height X', length (vq_list (w_todo w'))), (height X, length (vq_list (w_todo w)))) \<in> less_than <*lex*> less_than"
      using s(3) by auto
    then obtain w'' X'' where "idfa_loop prob d g e w' = Some (Inr w'') \<and> work_rel w'' X'' {}"
      using 1(1) s(2) by blast
    then show ?thesis using False s(1) by (subst idfa_loop.simps) auto
  qed
qed

text \<open>
  The run ends without a failed assertion; the outputs are the least solution of the flow
  equations and the inputs are the merged outputs of the predecessors.
\<close>

theorem idfa_run_least:
  "\<exists>e X. idfa_run prob d g = Some (Inr e) \<and> length (d_ins e) = countBB g \<and> length (d_outs e) = countBB g \<and>
    (\<forall>i < countBB g. rep (d_outs e ! i) (X i) \<and> rep (d_ins e ! i) (inflow join bt (iter_items d g) X i) \<and>
       X i = uni (dif (inflow join bt (iter_items d g) X i) (K i)) (G i)) \<and>
    (\<forall>Y. (\<forall>i < countBB g. Y i \<in> D \<and> leq (uni (dif (inflow join bt (iter_items d g) Y i) (K i)) (G i)) (Y i)) \<longrightarrow>
       (\<forall>i < countBB g. leq (X i) (Y i)))"
proof -
  obtain e where e: "idfa_new prob g = Inr e" "idfa_rel e" "length (d_ins e) = countBB g"
      "length (d_outs e) = countBB g" "\<forall>i < countBB g. rep (d_ins e ! i) bt \<and> rep (d_outs e ! i) bt"
    using idfa_new_ok by blast
  obtain w where w: "idfa_start prob g e = Inr w" "work_rel w (\<lambda>_. bt) {..<countBB g}"
    using idfa_start_ok [OF e(3,4,5)] by blast
  obtain w' X where l: "idfa_loop prob d g e w = Some (Inr w')" "work_rel w' X {}"
    using idfa_loop_ok [OF e(2) w(2)] by blast
  have run: "idfa_run prob d g = Some (Inr (e\<lparr>d_ins := w_ins w', d_outs := w_outs w'\<rparr>))"
    using e(1) w(1) l(1) by (simp add: idfa_run_def idfa_compute_def)
  have "winv X {}" using l(2) by (simp add: work_rel_def)
  from winv_end [OF this] have
    "\<forall>i < countBB g. X i = uni (dif (inflow join bt (iter_items d g) X i) (K i)) (G i)"
    "\<forall>Y. (\<forall>i < countBB g. Y i \<in> D \<and> leq (uni (dif (inflow join bt (iter_items d g) Y i) (K i)) (G i)) (Y i)) \<longrightarrow>
       (\<forall>i < countBB g. leq (X i) (Y i))"
    by (auto simp: solved_def prefix_point_def)
  with run l(2) show ?thesis
    by (intro exI [of _ "e\<lparr>d_ins := w_ins w', d_outs := w_outs w'\<rparr>"] exI [of _ X])
      (auto simp: work_rel_def arrays_rel_def)
qed

end

end
