(* ===== verification/Dominance.thy ===== *)
theory Dominance
  imports Iterative_Dfa
begin

text \<open>
  Dominance and post-dominance (otawa/src/prog/util_Dominance.cpp,
  otawa/src/prog/util_PostDominance.cpp): two data-flow problems on bit sets that differ in
  their direction and in the block that kills, and the processors that hook the results to
  the blocks. \<^verbatim>\<open>markLoopHeaders\<close> derives the loop headers and the back edges.

  The results are compared with paths: a block dominates another one exactly when every
  path from the entry to the second goes through the first.
\<close>

subsection \<open>Problems\<close>

definition dom_problem :: "cfg \<Rightarrow> bitset problem" where
  "dom_problem g = (let size = countBB g in \<lparr>
     p_empty = rbind (bs_new size) (\<lambda>r. Inr (bs_fill r)),
     p_gen = (\<lambda>b. rbind (bs_new size) (\<lambda>r. bs_add r b)),
     p_kill = (\<lambda>b. rbind (bs_new size) (\<lambda>r. Inr (if isEntry g b then bs_fill r else r))),
     p_equals = bs_equals,
     p_reset = bs_fill,
     p_merge = bs_mask,
     p_set = bs_assign,
     p_add = bs_add_set,
     p_diff = bs_remove_set\<rparr>)"

definition pdom_problem :: "cfg \<Rightarrow> bitset problem" where
  "pdom_problem g = (let size = countBB g in \<lparr>
     p_empty = rbind (bs_new size) (\<lambda>r. Inr (bs_fill r)),
     p_gen = (\<lambda>b. rbind (bs_new size) (\<lambda>r. bs_add r b)),
     p_kill = (\<lambda>b. rbind (bs_new size) (\<lambda>r. Inr (if isExit g b then bs_fill r else r))),
     p_equals = bs_equals,
     p_reset = bs_fill,
     p_merge = bs_mask,
     p_set = bs_assign,
     p_add = bs_add_set,
     p_diff = bs_remove_set\<rparr>)"

subsection \<open>Processors\<close>

text \<open>The annotations the processor leaves: \<^verbatim>\<open>REVERSE_DOM\<close>, \<^verbatim>\<open>LOOP_HEADER\<close>, \<^verbatim>\<open>BACK_EDGE\<close>.\<close>

record dom_info =
  di_reverse :: "bitset list"
  di_header :: "bool list"
  di_back :: "edge list"

definition dominates :: "bitset list \<Rightarrow> nat \<Rightarrow> nat \<Rightarrow> bool res" where
  "dominates rd b1 b2 =
     rbind (if b1 = b2 then Inr True
            else rbind (bs_contains (rd ! b1) b2) (\<lambda>c1.
                 if \<not> c1 then Inr True
                 else rbind (bs_contains (rd ! b2) b1) (\<lambda>c2. Inr (\<not> c2)))) (\<lambda>ok.
     asserting ok (bs_contains (rd ! b2) b1))"

definition mark_edge :: "nat \<Rightarrow> edge \<Rightarrow> dom_info \<Rightarrow> dom_info res" where
  "mark_edge b e di =
     (if e_kind e \<noteq> CALL
      then rbind (dominates (di_reverse di) (e_tgt e) b) (\<lambda>dm.
        Inr (if dm then di\<lparr>di_header := (di_header di)[e_tgt e := True], di_back := e # di_back di\<rparr> else di))
      else Inr di)"

definition markLoopHeaders :: "cfg \<Rightarrow> dom_info \<Rightarrow> dom_info res" where
  "markLoopHeaders g di = rfold (\<lambda>b. rfold (mark_edge b) (outs g b)) (bb_iter g) di"

definition dom_processCFG :: "cfg \<Rightarrow> dom_info res option" where
  "dom_processCFG g =
     (case idfa_run (dom_problem g) Predecessor g of
        None \<Rightarrow> None
      | Some (Inl e) \<Rightarrow> Some (Inl e)
      | Some (Inr d) \<Rightarrow> Some (markLoopHeaders g
          \<lparr>di_reverse = map (\<lambda>b. bs_copy (d_outs d ! b)) (bb_iter g),
           di_header = replicate (countBB g) False, di_back = []\<rparr>))"

definition pdom_processCFG :: "cfg \<Rightarrow> bitset list res option" where
  "pdom_processCFG g =
     (case idfa_run (pdom_problem g) Successor g of
        None \<Rightarrow> None
      | Some (Inl e) \<Rightarrow> Some (Inl e)
      | Some (Inr d) \<Rightarrow> Some (Inr (map (\<lambda>b. bs_copy (d_outs d ! b)) (bb_iter g))))"

definition postDominates :: "bitset list \<Rightarrow> nat \<Rightarrow> nat \<Rightarrow> bool res" where
  "postDominates rd b1 b2 =
     rbind (if b1 = b2 then Inr True
            else rbind (bs_contains (rd ! b1) b2) (\<lambda>c1.
                 if \<not> c1 then Inr True
                 else rbind (bs_contains (rd ! b2) b1) (\<lambda>c2. Inr (\<not> c2)))) (\<lambda>ok.
     asserting ok (bs_contains (rd ! b2) b1))"

subsection \<open>Both problems are instances of the engine's contract\<close>

text \<open>The well-formed graphs as a type, over which the contract is instantiated.\<close>

typedef wcfg = "{g. wf_cfg g}"
proof -
  let ?g = "\<lparr>cfg_bbs = [\<lparr>bb_flags = FLAG_Entry, bb_ins = [], bb_outs = []\<rparr>, \<lparr>bb_flags = FLAG_Exit, bb_ins = [], bb_outs = []\<rparr>]\<rparr>"
  have "countBB ?g = 2" by (simp add: countBB_def)
  then have "wf_cfg ?g"
    by (auto simp: wf_cfg_def wf_edges_def ins_def outs_def isEntry_def isExit_def flag_defs less_2_cases_iff)
  then show ?thesis by blast
qed

lemma wcfg_wf: "wf_cfg (Rep_wcfg w)" "wf_edges (Rep_wcfg w)" "0 < countBB (Rep_wcfg w)"
  using Rep_wcfg [of w] by (auto simp: wf_cfg_def)

lemma wcfg_of: "wf_cfg g \<Longrightarrow> Rep_wcfg (Abs_wcfg g) = g"
  by (simp add: Abs_wcfg_inverse)

text \<open>Sets ordered by reverse inclusion: joining is intersecting.\<close>

definition must_kill :: "(nat \<Rightarrow> bool) \<Rightarrow> nat \<Rightarrow> nat \<Rightarrow> nat set" where
  "must_kill root n b = (if root b then {..<n} else {})"

definition must_problem :: "(nat \<Rightarrow> bool) \<Rightarrow> nat \<Rightarrow> bitset problem" where
  "must_problem root n = \<lparr>
     p_empty = rbind (bs_new n) (\<lambda>r. Inr (bs_fill r)),
     p_gen = (\<lambda>b. rbind (bs_new n) (\<lambda>r. bs_add r b)),
     p_kill = (\<lambda>b. rbind (bs_new n) (\<lambda>r. Inr (if root b then bs_fill r else r))),
     p_equals = bs_equals, p_reset = bs_fill, p_merge = bs_mask, p_set = bs_assign,
     p_add = bs_add_set, p_diff = bs_remove_set\<rparr>"

interpretation must: dfa_impl "Pow {..<countBB (Rep_wcfg w)}" "(\<supseteq>)" "(\<inter>)" "{..<countBB (Rep_wcfg w)}"
  "Rep_wcfg w" d "(\<union>)" "(-)" "must_kill root (countBB (Rep_wcfg w))" "\<lambda>b. {b}"
  "must_problem root (countBB (Rep_wcfg w))" "\<lambda>s S. bv_rep (countBB (Rep_wcfg w)) S s"
  for w d root
proof unfold_locales
  let ?n = "countBB (Rep_wcfg w)"
  obtain r where r: "bs_new ?n = Inr r" "bv_rep ?n {} r" using bs.new_rep [OF wcfg_wf(3)] by blast
  note fr = bs.fill_rep [OF r(2)]
  show "\<exists>s. p_empty (must_problem root ?n) = Inr s \<and> bv_rep ?n {..<?n} s"
    using r fr by (simp add: must_problem_def)
  show "\<exists>s. p_gen (must_problem root ?n) i = Inr s \<and> bv_rep ?n {i} s" if "i < ?n" for i
    using r bs.add_rep [OF r(2) that] by (simp add: must_problem_def)
  show "\<exists>s. p_kill (must_problem root ?n) i = Inr s \<and> bv_rep ?n (must_kill root ?n i) s" if "i < ?n" for i
    using r fr by (simp add: must_problem_def must_kill_def)
  show "bv_rep ?n {..<?n} (p_reset (must_problem root ?n) s)" if "bv_rep ?n x s" for s x
    using bs.fill_rep [OF that] by (simp add: must_problem_def)
  show "\<exists>u. p_equals (must_problem root ?n) s t = Inr (x = y, u) \<and> bv_rep ?n x u"
    if "bv_rep ?n x s" "bv_rep ?n y t" for s x t y
    using bs.equals_rep [OF that] that by (simp add: must_problem_def)
  show "\<exists>u. p_merge (must_problem root ?n) s t = Inr u \<and> bv_rep ?n (x \<inter> y) u"
    if "bv_rep ?n x s" "bv_rep ?n y t" for s x t y
    using bs.inter_rep [OF that] by (simp add: must_problem_def)
  show "\<exists>u. p_set (must_problem root ?n) s t = Inr u \<and> bv_rep ?n y u"
    if "bv_rep ?n x s" "bv_rep ?n y t" for s x t y
    using bs.assign_rep [OF that] that by (simp add: must_problem_def)
  show "\<exists>u. p_add (must_problem root ?n) s t = Inr u \<and> bv_rep ?n (x \<union> y) u"
    if "bv_rep ?n x s" "bv_rep ?n y t" for s x t y
    using bs.union_rep [OF that] by (simp add: must_problem_def)
  show "\<exists>u. p_diff (must_problem root ?n) s t = Inr u \<and> bv_rep ?n (x - y) u"
    if "bv_rep ?n x s" "bv_rep ?n y t" for s x t y
    using bs.diff_rep [OF that] by (simp add: must_problem_def)
  show "0 < ?n" by (rule wcfg_wf(3))
  show "j < ?n" if "i < ?n" "j \<in> set (iter_items d (Rep_wcfg w) i)" for i j
    by (rule iter_items_bound [OF wcfg_wf(2) that])
  show "j < ?n" if "i < ?n" "j \<in> set (iter_items (forward d) (Rep_wcfg w) i)" for i j
    by (rule iter_items_bound [OF wcfg_wf(2) that])
  show "j \<in> set (iter_items (forward d) (Rep_wcfg w) i)"
    if "i < ?n" "j < ?n" "i \<in> set (iter_items d (Rep_wcfg w) j)" for i j
    using iter_items_forward [OF wcfg_wf(2) that(1,2)] that(3) by blast
  show "x \<in> Pow {..<?n}" if "bv_rep ?n x s" for s x using bs.rep_sub [OF that] by simp
qed auto

lemma dom_problem_must: "dom_problem g = must_problem (isEntry g) (countBB g)"
  by (simp add: dom_problem_def must_problem_def Let_def)

lemma pdom_problem_must: "pdom_problem g = must_problem (isExit g) (countBB g)"
  by (simp add: pdom_problem_def must_problem_def Let_def)

subsection \<open>The solution is the set of blocks on every path\<close>

definition flow_edge :: "direction \<Rightarrow> cfg \<Rightarrow> nat \<Rightarrow> nat \<Rightarrow> bool" where
  "flow_edge d g a b \<longleftrightarrow> b \<in> set (iter_items (forward d) g a)"

definition on_all_paths :: "direction \<Rightarrow> cfg \<Rightarrow> nat \<Rightarrow> nat \<Rightarrow> nat set" where
  "on_all_paths d g r b = {i. i < countBB g \<and> (\<forall>p. is_path (flow_edge d g) r p b \<longrightarrow> i \<in> set p)}"

lemma foldl_Int: "foldl (\<inter>) U (map X ps) = U \<inter> (\<Inter>p \<in> set ps. X p)"
  by (induction ps arbitrary: U) auto

lemma flow_path_bound:
  assumes "is_path (flow_edge d g) r p b" "wf_edges g" "r < countBB g"
  shows "set p \<subseteq> {..<countBB g} \<and> b < countBB g"
  using assms(1)
proof (induction rule: is_path_induct)
  case start
  then show ?case using assms(3) by simp
next
  case (step q b c)
  then show ?case using iter_items_bound [OF assms(2), of b c "forward d"] by (auto simp: flow_edge_def)
qed

lemma flow_edge_preds:
  assumes "wf_edges g" "a < countBB g" "b < countBB g"
  shows "flow_edge d g a b \<longleftrightarrow> a \<in> set (iter_items d g b)"
  unfolding flow_edge_def by (rule iter_items_forward [OF assms])

lemma must_run:
  assumes wf: "wf_cfg g" and r: "r < countBB g" and root: "\<And>b. b < countBB g \<Longrightarrow> root b \<longleftrightarrow> b = r"
  shows "\<exists>e. idfa_run (must_problem root (countBB g)) d g = Some (Inr e) \<and> length (d_outs e) = countBB g \<and>
    (\<forall>b < countBB g. bv_rep (countBB g) (on_all_paths d g r b) (d_outs e ! b))"
proof -
  let ?n = "countBB g" and ?E = "flow_edge d g" and ?dom = "on_all_paths d g r"
  let ?in = "\<lambda>X i. inflow (\<inter>) {..<?n} (iter_items d g) X i"
  have we: "wf_edges g" using wf by (simp add: wf_cfg_def)
  have inf: "?in X i = {..<?n} \<inter> (\<Inter>p \<in> set (iter_items d g i). X p)" for X i
    by (simp add: inflow_def foldl_Int)
  obtain e X where run: "idfa_run (must_problem root ?n) d g = Some (Inr e)" "length (d_outs e) = ?n"
      and X: "\<forall>i < ?n. bv_rep ?n (X i) (d_outs e ! i) \<and> X i = ?in X i - must_kill root ?n i \<union> {i}"
      and least: "\<forall>Y. (\<forall>i < ?n. Y i \<in> Pow {..<?n} \<and> Y i \<subseteq> ?in Y i - must_kill root ?n i \<union> {i}) \<longrightarrow>
        (\<forall>i < ?n. Y i \<subseteq> X i)"
    using must.idfa_run_least [of root "Abs_wcfg g" d] unfolding wcfg_of [OF wf] by blast
  have sound: "i \<in> X b \<longrightarrow> i \<in> set p" if "is_path ?E r p b" for i p b
    using that
  proof (induction rule: is_path_induct)
    case start
    have "X r = {r}" using X r root inf [of X r] by (auto simp: must_kill_def)
    then show ?case by simp
  next
    case (step q b c)
    then have b: "b < ?n" using flow_path_bound [OF _ we r] by blast
    then have c: "c < ?n" using step(2) iter_items_bound [OF we b] by (simp add: flow_edge_def)
    then have "X c \<subseteq> X b \<union> {c}"
      using X inf [of X c] step(2) flow_edge_preds [OF we b c] by auto
    then show ?case using step by auto
  qed
  have "?dom i \<in> Pow {..<?n} \<and> ?dom i \<subseteq> ?in ?dom i - must_kill root ?n i \<union> {i}" if i: "i < ?n" for i
  proof -
    have "k \<in> ?in ?dom i - must_kill root ?n i \<union> {i}" if k: "k \<in> ?dom i" for k
    proof (cases "i = r \<or> k = i")
      case True
      moreover have "k = r" if "i = r"
        using k that by (auto simp: on_all_paths_def dest: spec [of _ "[r]"])
      ultimately show ?thesis by auto
    next
      case False
      have "k \<in> ?dom j" if j: "j \<in> set (iter_items d g i)" for j
      proof -
        have jn: "j < ?n" by (rule iter_items_bound [OF we i j])
        have "?E j i" using flow_edge_preds [OF we jn i] j by blast
        then have "k \<in> set p" if "is_path ?E r p j" for p
          using is_path_snoc [OF that, of i] k False by (auto simp: on_all_paths_def)
        then show ?thesis using k by (simp add: on_all_paths_def)
      qed
      moreover have "k < ?n" using k by (simp add: on_all_paths_def)
      ultimately show ?thesis using False root [OF i] by (auto simp: inf must_kill_def)
    qed
    then show ?thesis by (auto simp: on_all_paths_def)
  qed
  then have "\<forall>i < ?n. ?dom i \<subseteq> X i" using least by blast
  moreover have "X i \<subseteq> ?dom i" if i: "i < ?n" for i
  proof -
    have "bv_rep ?n (X i) (d_outs e ! i)" using X i by blast
    then have "X i \<subseteq> {..<?n}" by (rule bs.rep_sub)
    then show ?thesis using sound by (auto simp: on_all_paths_def)
  qed
  ultimately have "\<forall>i < ?n. X i = ?dom i" by blast
  then show ?thesis using run X by auto
qed

subsection \<open>Dominance\<close>

abbreviation dom_set :: "cfg \<Rightarrow> nat \<Rightarrow> nat set" where
  "dom_set g \<equiv> on_all_paths Predecessor g 0"

abbreviation pdom_set :: "cfg \<Rightarrow> nat \<Rightarrow> nat set" where
  "pdom_set g \<equiv> on_all_paths Successor g (countBB g - 1)"

definition reachable :: "cfg \<Rightarrow> nat \<Rightarrow> bool" where
  "reachable g b \<longleftrightarrow> (\<exists>p. is_path (flow_edge Predecessor g) 0 p b)"

lemma dom_run:
  assumes "wf_cfg g"
  shows "\<exists>e. idfa_run (dom_problem g) Predecessor g = Some (Inr e) \<and> length (d_outs e) = countBB g \<and>
    (\<forall>b < countBB g. bv_rep (countBB g) (dom_set g b) (d_outs e ! b))"
  unfolding dom_problem_must using assms by (intro must_run) (auto simp: wf_cfg_def)

lemma pdom_run:
  assumes "wf_cfg g"
  shows "\<exists>e. idfa_run (pdom_problem g) Successor g = Some (Inr e) \<and> length (d_outs e) = countBB g \<and>
    (\<forall>b < countBB g. bv_rep (countBB g) (pdom_set g b) (d_outs e ! b))"
  unfolding pdom_problem_must using assms by (intro must_run) (auto simp: wf_cfg_def)

lemma dom_self: "b < countBB g \<Longrightarrow> b \<in> dom_set g b"
  by (auto simp: on_all_paths_def dest: is_path_ends)

lemma is_path_prefix:
  assumes "is_path E a p b" "x \<in> set p"
  shows "\<exists>q. is_path E a q x \<and> length q \<le> length p \<and> set q \<subseteq> set p \<and> (x \<noteq> b \<longrightarrow> length q < length p)"
  using assms
proof (induction rule: is_path_induct)
  case start
  then show ?case by (intro exI [of _ "[a]"]) auto
next
  case (step q b c)
  show ?case
  proof (cases "x \<in> set q")
    case True
    then obtain q' where "is_path E a q' x" "length q' \<le> length q" "set q' \<subseteq> set q" using step by blast
    then show ?thesis by (intro exI [of _ q']) auto
  next
    case False
    then have "x = c" using step by auto
    then show ?thesis using is_path_snoc [OF step(1,2)] by (intro exI [of _ "q @ [c]"]) auto
  qed
qed

text \<open>Two distinct blocks of which one is reachable do not dominate each other.\<close>

lemma dom_antisym:
  assumes "reachable g a" "b \<in> dom_set g a" "a \<in> dom_set g b"
  shows "a = b"
proof (rule ccontr)
  assume ne: "a \<noteq> b"
  let ?E = "flow_edge Predecessor g"
  have "\<exists>p. is_path ?E 0 p a" using assms(1) by (simp add: reachable_def)
  then obtain p where p: "is_path ?E 0 p a" and min: "\<And>q. is_path ?E 0 q a \<Longrightarrow> length p \<le> length q"
    using ex_has_least_nat [of "\<lambda>p. is_path ?E 0 p a" _ length] by metis
  have "b \<in> set p" using assms(2) p by (simp add: on_all_paths_def)
  with is_path_prefix [OF p] ne obtain q where q: "is_path ?E 0 q b" "length q < length p" by metis
  have "a \<in> set q" using assms(3) q(1) by (simp add: on_all_paths_def)
  with is_path_prefix [OF q(1)] obtain q' where "is_path ?E 0 q' a" "length q' \<le> length q" by metis
  then show False using min q(2) by force
qed

lemma dom_unreachable: "\<not> reachable g b \<Longrightarrow> dom_set g b = {..<countBB g}"
  by (auto simp: on_all_paths_def reachable_def)

text \<open>\<open>dom_table g rd\<close>: the annotations hold the dominators of each block.\<close>

definition dom_table :: "cfg \<Rightarrow> bitset list \<Rightarrow> bool" where
  "dom_table g rd \<longleftrightarrow> length rd = countBB g \<and> (\<forall>b < countBB g. bv_rep (countBB g) (dom_set g b) (rd ! b))"

lemma dominates_eval:
  assumes "dom_table g rd" "b1 < countBB g" "b2 < countBB g"
  shows "dominates rd b1 b2 =
    (if b1 = b2 \<or> b2 \<notin> dom_set g b1 \<or> b1 \<notin> dom_set g b2 then Inr (b1 \<in> dom_set g b2) else Inl AssertFail)"
proof -
  have "bs_contains (rd ! b1) b2 = Inr (b2 \<in> dom_set g b1)" "bs_contains (rd ! b2) b1 = Inr (b1 \<in> dom_set g b2)"
    "bs_contains (rd ! b2) b2 = Inr (b2 \<in> dom_set g b2)"
    using assms by (auto simp: dom_table_def intro!: bs.contains_rep)
  then show ?thesis by (simp add: dominates_def)
qed

lemma dominates_reachable:
  assumes "dom_table g rd" "b1 < countBB g" "b2 < countBB g" "reachable g b1 \<or> reachable g b2"
  shows "dominates rd b1 b2 = Inr (b1 \<in> dom_set g b2)"
  using dominates_eval [OF assms(1-3)] dom_antisym assms(4) by (metis (no_types, lifting))

lemma dominates_disconnected:
  assumes "dom_table g rd" "b1 < countBB g" "b2 < countBB g" "b1 \<noteq> b2" "\<not> reachable g b1" "\<not> reachable g b2"
  shows "dominates rd b1 b2 = Inl AssertFail"
  using dominates_eval [OF assms(1-3)] assms by (simp add: dom_unreachable)

text \<open>Loop headers and back edges.\<close>

definition back_edge :: "cfg \<Rightarrow> edge \<Rightarrow> bool" where
  "back_edge g e \<longleftrightarrow> e_kind e \<noteq> CALL \<and> e_tgt e \<in> dom_set g (e_src e)"

definition marked :: "cfg \<Rightarrow> bitset list \<Rightarrow> edge set \<Rightarrow> dom_info \<Rightarrow> bool" where
  "marked g rd S di \<longleftrightarrow> di_reverse di = rd \<and> length (di_header di) = countBB g \<and>
     (\<forall>h < countBB g. di_header di ! h \<longleftrightarrow> (\<exists>e \<in> S. e_tgt e = h)) \<and> set (di_back di) = S"

lemma mark_edge_marked:
  assumes wf: "wf_edges g" and rd: "dom_table g rd" and m: "marked g rd S di"
    and b: "b < countBB g" "reachable g b" and e: "e \<in> set (outs g b)"
  shows "\<exists>di'. mark_edge b e di = Inr di' \<and> marked g rd (S \<union> {x. x = e \<and> back_edge g x}) di'"
proof (cases "e_kind e = CALL")
  case True
  then have "{x. x = e \<and> back_edge g x} = {}" by (auto simp: back_edge_def)
  then have "S \<union> {x. x = e \<and> back_edge g x} = S" by blast
  with m True show ?thesis by (simp only: mark_edge_def) simp
next
  case False
  then have t: "e_tgt e < countBB g" "e_src e = b" using wf b e by (auto simp: wf_edges_def)
  have "dominates (di_reverse di) (e_tgt e) b = Inr (e_tgt e \<in> dom_set g b)"
    using dominates_reachable [OF rd t(1) b(1)] b m by (simp add: marked_def)
  then show ?thesis
    using m False t by (auto simp: mark_edge_def back_edge_def marked_def nth_list_update)
qed

lemma rfold_edges_marked:
  assumes wf: "wf_edges g" and rd: "dom_table g rd" and m: "marked g rd S di"
    and b: "b < countBB g" "outs g b \<noteq> [] \<Longrightarrow> reachable g b"
  shows "\<exists>di'. rfold (mark_edge b) (outs g b) di = Inr di' \<and>
    marked g rd (S \<union> {e \<in> set (outs g b). back_edge g e}) di'"
proof (rule rfold_invariant [where P = "\<lambda>pre. marked g rd (S \<union> {e \<in> set pre. back_edge g e})"])
  show "marked g rd (S \<union> {e \<in> set []. back_edge g e}) di" using m by simp
  fix pre e post t
  assume o: "outs g b = pre @ e # post" and t: "marked g rd (S \<union> {e \<in> set pre. back_edge g e}) t"
  have "(S \<union> {e \<in> set pre. back_edge g e}) \<union> {x. x = e \<and> back_edge g x} = S \<union> {x \<in> set (pre @ [e]). back_edge g x}"
    by auto
  then show "\<exists>t'. mark_edge b e t = Inr t' \<and> marked g rd (S \<union> {x \<in> set (pre @ [e]). back_edge g x}) t'"
    using mark_edge_marked [OF wf rd t b(1) b(2), of e] o by simp
qed

definition all_edges :: "cfg \<Rightarrow> edge set" where
  "all_edges g = (\<Union>b < countBB g. set (outs g b))"

lemma markLoopHeaders_marked:
  assumes wf: "wf_edges g" and rd: "dom_table g rd" and m: "marked g rd {} di"
    and conn: "\<And>b. b < countBB g \<Longrightarrow> outs g b \<noteq> [] \<Longrightarrow> reachable g b"
  shows "\<exists>di'. markLoopHeaders g di = Inr di' \<and> marked g rd {e \<in> all_edges g. back_edge g e} di'"
proof -
  have "\<exists>di'. rfold (\<lambda>b. rfold (mark_edge b) (outs g b)) (bb_iter g) di = Inr di' \<and>
    marked g rd {e \<in> (\<Union>b \<in> set (bb_iter g). set (outs g b)). back_edge g e} di'"
  proof (rule rfold_invariant [where P = "\<lambda>pre. marked g rd {e \<in> (\<Union>b \<in> set pre. set (outs g b)). back_edge g e}"])
    show "marked g rd {e \<in> (\<Union>b \<in> set []. set (outs g b)). back_edge g e} di" using m by simp
    fix pre b post t
    assume bi: "bb_iter g = pre @ b # post" and t: "marked g rd {e \<in> (\<Union>b \<in> set pre. set (outs g b)). back_edge g e} t"
    have "b \<in> set (bb_iter g)" using bi by simp
    then have b: "b < countBB g" by (simp add: bb_iter_def)
    have "{e \<in> (\<Union>b \<in> set pre. set (outs g b)). back_edge g e} \<union> {e \<in> set (outs g b). back_edge g e} =
      {e \<in> (\<Union>b \<in> set (pre @ [b]). set (outs g b)). back_edge g e}" by auto
    then show "\<exists>t'. rfold (mark_edge b) (outs g b) t = Inr t' \<and>
        marked g rd {e \<in> (\<Union>b \<in> set (pre @ [b]). set (outs g b)). back_edge g e} t'"
      using rfold_edges_marked [OF wf rd t b conn [OF b]] by simp
  qed
  moreover have "(\<Union>b \<in> set (bb_iter g). set (outs g b)) = all_edges g"
    by (auto simp: bb_iter_def all_edges_def)
  ultimately show ?thesis by (simp add: markLoopHeaders_def)
qed

lemma copies_rep:
  assumes "\<forall>b < n. bv_rep n (S b) (os ! b)"
  shows "\<forall>b < n. bv_rep n (S b) (map (\<lambda>b. bs_copy (os ! b)) [0..<n] ! b)"
  using assms bs.copy_rep by fastforce

lemma dom_processCFG_marked:
  assumes wf: "wf_cfg g"
    and conn: "\<And>b. b < countBB g \<Longrightarrow> outs g b \<noteq> [] \<Longrightarrow> reachable g b"
  shows "\<exists>di. dom_processCFG g = Some (Inr di) \<and> dom_table g (di_reverse di) \<and>
    marked g (di_reverse di) {e \<in> all_edges g. back_edge g e} di"
proof -
  obtain e where e: "idfa_run (dom_problem g) Predecessor g = Some (Inr e)" "length (d_outs e) = countBB g"
      "\<forall>b < countBB g. bv_rep (countBB g) (dom_set g b) (d_outs e ! b)"
    using dom_run [OF wf] by blast
  let ?rd = "map (\<lambda>b. bs_copy (d_outs e ! b)) (bb_iter g)"
  let ?di = "\<lparr>di_reverse = ?rd, di_header = replicate (countBB g) False, di_back = []\<rparr>"
  have rd: "dom_table g ?rd" using copies_rep [OF e(3)] by (simp add: dom_table_def bb_iter_def)
  have "marked g ?rd {} ?di" by (simp add: marked_def)
  from markLoopHeaders_marked [OF _ rd this conn] wf
  obtain di where "markLoopHeaders g ?di = Inr di" "marked g ?rd {e \<in> all_edges g. back_edge g e} di"
    by (auto simp: wf_cfg_def)
  then show ?thesis using e(1) rd by (auto simp: dom_processCFG_def marked_def)
qed

subsection \<open>Post-dominance\<close>

lemma is_path_rev: "is_path E a p b \<Longrightarrow> is_path (\<lambda>x y. E y x) b (rev p) a"
proof (induction rule: is_path_induct)
  case start
  then show ?case by simp
next
  case (step q b c)
  then show ?case using is_path_ends [OF step(1)] by (cases "rev q") (auto simp: hd_rev [symmetric])
qed

lemma is_path_on:
  assumes "is_path E a p b" "\<And>x y. x \<in> set p \<Longrightarrow> y \<in> set p \<Longrightarrow> E x y \<Longrightarrow> F x y"
  shows "is_path F a p b"
  using assms
proof (induction rule: is_path_induct)
  case start
  then show ?case by simp
next
  case (step q b c)
  then have "b \<in> set q" using is_path_ends [OF step(1)] by (metis last_in_set)
  then show ?case using step by (intro is_path_snoc) auto
qed

lemma path_reverse:
  assumes g: "wf_edges g" and "a < countBB g" and p: "is_path (flow_edge d g) a p b"
  shows "is_path (flow_edge (forward d) g) b (rev p) a"
proof (rule is_path_on [OF is_path_rev [OF p]])
  fix x y assume "x \<in> set (rev p)" "y \<in> set (rev p)" and e: "flow_edge d g y x"
  then have xy: "x < countBB g" "y < countBB g" using flow_path_bound [OF p g assms(2)] by auto
  then show "flow_edge (forward d) g x y"
    using e iter_items_forward [OF g xy(2,1), of d] by (simp add: flow_edge_def)
qed

text \<open>Post-dominators are the blocks on every path to the exit.\<close>

lemma pdom_set_paths:
  assumes "wf_edges g" "b < countBB g" "0 < countBB g"
  shows "pdom_set g b = {i. i < countBB g \<and>
    (\<forall>p. is_path (flow_edge Predecessor g) b p (countBB g - 1) \<longrightarrow> i \<in> set p)}"
proof -
  let ?x = "countBB g - 1"
  have "(\<forall>p. is_path (flow_edge Successor g) ?x p b \<longrightarrow> i \<in> set p) \<longleftrightarrow>
    (\<forall>p. is_path (flow_edge Predecessor g) b p ?x \<longrightarrow> i \<in> set p)" for i
    using path_reverse [OF assms(1), of ?x Successor _ b] path_reverse [OF assms(1,2), of Predecessor _ ?x] assms(3)
    by (metis diff_less forward.simps set_rev zero_less_one)
  then show ?thesis by (simp add: on_all_paths_def)
qed

lemma pdom_processCFG_table:
  assumes wf: "wf_cfg g"
  shows "\<exists>rd. pdom_processCFG g = Some (Inr rd) \<and> length rd = countBB g \<and>
    (\<forall>b < countBB g. bv_rep (countBB g) (pdom_set g b) (rd ! b))"
proof -
  obtain e where "idfa_run (pdom_problem g) Successor g = Some (Inr e)"
      "\<forall>b < countBB g. bv_rep (countBB g) (pdom_set g b) (d_outs e ! b)"
    using pdom_run [OF wf] by blast
  then show ?thesis using copies_rep [of "countBB g" "pdom_set g" "d_outs e"]
    by (simp add: pdom_processCFG_def bb_iter_def)
qed

end
