(* ===== verification/Cache_Lru.thy ===== *)
theory Cache_Lru
  imports Otawa_Base
begin

text \<open>
  Reference semantics of one set of an \<open>A\<close>-way cache with LRU replacement, the policy that
  the abstract cache states of OTAWA approximate. A set is the list of the blocks it holds,
  the most recently used first; the age of a block is its position.
\<close>

type_synonym lru = "nat list"

definition lru_wf :: "nat \<Rightarrow> lru \<Rightarrow> bool" where
  "lru_wf A q \<longleftrightarrow> distinct q \<and> length q \<le> A"

definition lru_access :: "nat \<Rightarrow> nat \<Rightarrow> lru \<Rightarrow> lru" where
  "lru_access A b q = take A (b # remove1 b q)"

definition lru_age :: "lru \<Rightarrow> nat \<Rightarrow> nat" where
  "lru_age q b = length (takeWhile (\<lambda>y. y \<noteq> b) q)"

lemma lru_access_wf: "lru_wf A q \<Longrightarrow> lru_wf A (lru_access A b q)"
proof -
  assume "lru_wf A q"
  then have "distinct (b # remove1 b q)" by (auto simp: lru_wf_def)
  then show "lru_wf A (lru_access A b q)" unfolding lru_wf_def lru_access_def by (metis distinct_take length_take min.cobounded2)
qed

lemma lru_age_less: "lru_age q b < length q \<longleftrightarrow> b \<in> set q"
  by (induction q) (auto simp: lru_age_def)

lemma lru_age_in [simp]: "b \<in> set q \<Longrightarrow> lru_age q b < length q"
  by (simp add: lru_age_less)

lemma lru_age_bound: "lru_wf A q \<Longrightarrow> b \<in> set q \<Longrightarrow> lru_age q b < A"
  using lru_age_in [of b q] unfolding lru_wf_def by linarith

lemma lru_age_inj: "b \<in> set q \<Longrightarrow> lru_age q b = lru_age q c \<Longrightarrow> b = c"
  by (induction q) (auto simp: lru_age_def split: if_splits)

lemma lru_age_nth: "b \<in> set q \<Longrightarrow> q ! lru_age q b = b"
  by (induction q) (auto simp: lru_age_def)

lemma lru_age_Cons: "lru_age (x # q) b = (if x = b then 0 else Suc (lru_age q b))"
  by (simp add: lru_age_def)

lemma lru_age_remove1:
  assumes "x \<in> set q" "b \<noteq> x" "b \<in> set q"
  shows "lru_age (remove1 x q) b = (if lru_age q b < lru_age q x then lru_age q b else lru_age q b - 1)"
  using assms
proof (induction q)
  case (Cons y q)
  show ?case
  proof (cases "y = x")
    case True
    then show ?thesis using Cons.prems by (simp add: lru_age_Cons)
  next
    case False
    show ?thesis
    proof (cases "y = b")
      case True
      then show ?thesis using False by (simp add: lru_age_Cons)
    next
      case ne: False
      then have IH: "lru_age (remove1 x q) b = (if lru_age q b < lru_age q x then lru_age q b else lru_age q b - 1)"
        using False Cons by simp
      have "lru_age q b \<noteq> lru_age q x" using lru_age_inj [of b q x] Cons.prems ne by auto
      then show ?thesis using IH False ne by (auto simp: lru_age_Cons)
    qed
  qed
qed simp

lemma lru_age_take: "lru_age q b < n \<Longrightarrow> lru_age (take n q) b = lru_age q b"
  unfolding lru_age_def
proof (induction q arbitrary: n)
  case (Cons y q)
  then show ?case by (cases n) auto
qed simp

lemma in_set_take_age: "b \<in> set (take n q) \<longleftrightarrow> b \<in> set q \<and> lru_age q b < n"
proof (induction q arbitrary: n)
  case (Cons y q)
  then show ?case by (cases n) (auto simp: lru_age_Cons)
qed simp

text \<open>The accessed block becomes the youngest; a hit ages the younger blocks, a miss all of
  them, and a block that reaches the age \<open>A\<close> leaves the set.\<close>

lemma lru_access_self:
  assumes "0 < A"
  shows "b \<in> set (lru_access A b q)" "lru_age (lru_access A b q) b = 0"
  using assms by (cases A; simp add: lru_access_def lru_age_Cons)+

lemma lru_access_hit:
  assumes q: "lru_wf A q" and x: "x \<in> set q" and b: "b \<noteq> x"
  shows "b \<in> set (lru_access A x q) \<longleftrightarrow> b \<in> set q"
    and "b \<in> set q \<Longrightarrow> lru_age (lru_access A x q) b =
      (if lru_age q b < lru_age q x then Suc (lru_age q b) else lru_age q b)"
proof -
  have "length (x # remove1 x q) = length q" using x by (simp add: length_remove1)
      (metis Suc_pred length_pos_if_in_set)
  then have eq: "lru_access A x q = x # remove1 x q" using q by (simp add: lru_access_def lru_wf_def)
  show "b \<in> set (lru_access A x q) \<longleftrightarrow> b \<in> set q"
    using b q unfolding eq by (auto simp: lru_wf_def)
  assume "b \<in> set q"
  moreover from this have "lru_age q b \<noteq> lru_age q x" using lru_age_inj [of b q x] b by auto
  ultimately show "lru_age (lru_access A x q) b = (if lru_age q b < lru_age q x then Suc (lru_age q b) else lru_age q b)"
    using lru_age_remove1 [OF x b] b unfolding eq by (auto simp: lru_age_Cons)
qed

lemma lru_access_miss:
  assumes x: "x \<notin> set q" and b: "b \<noteq> x"
  shows "b \<in> set (lru_access A x q) \<longleftrightarrow> b \<in> set q \<and> Suc (lru_age q b) < A"
    and "b \<in> set (lru_access A x q) \<Longrightarrow> lru_age (lru_access A x q) b = Suc (lru_age q b)"
proof -
  have eq: "lru_access A x q = take A (x # q)" using x by (simp add: lru_access_def remove1_idem)
  show in': "b \<in> set (lru_access A x q) \<longleftrightarrow> b \<in> set q \<and> Suc (lru_age q b) < A"
    unfolding eq in_set_take_age using b by (simp add: lru_age_Cons)
  assume "b \<in> set (lru_access A x q)"
  then have "lru_age (x # q) b < A" using in' b by (simp add: lru_age_Cons)
  then show "lru_age (lru_access A x q) b = Suc (lru_age q b)"
    unfolding eq using lru_age_take [of "x # q" b A] b by (simp add: lru_age_Cons)
qed

lemma lru_access_sub: "set (lru_access A x q) \<subseteq> insert x (set q)"
  unfolding lru_access_def using set_take_subset [of A "x # remove1 x q"] set_remove1_subset [of x q] by auto

text \<open>An access ages no block by more than one.\<close>

lemma lru_access_age_le:
  assumes "lru_wf A q" "b \<in> set q" "Suc (lru_age q b) < A"
  shows "b \<in> set (lru_access A x q) \<and> lru_age (lru_access A x q) b \<le> Suc (lru_age q b)"
  using lru_access_self [of A x q] lru_access_hit [OF assms(1), of x b] lru_access_miss [of x q b A] assms
  by (cases "b = x"; cases "x \<in> set q") auto

end
