(* ===== verification/Abstract_Domain.thy ===== *)
theory Abstract_Domain
  imports Otawa_Base
begin

text \<open>
  The contract between an abstract domain of the cache analyses and the fixpoint engines of
  OTAWA (otawa/dfa/hai): what the operations \<^verbatim>\<open>lub\<close> and \<^verbatim>\<open>update\<close> promise about the
  concrete states a value stands for. The domains are instances of the locale; what the
  engines conclude from a stable result is proved once, here.
\<close>

locale abs_domain =
  fixes valid :: "'d \<Rightarrow> bool" and gamma :: "'d \<Rightarrow> 'c \<Rightarrow> bool"
    and lub :: "'d \<Rightarrow> 'd \<Rightarrow> 'd res"
    and update :: "'a \<Rightarrow> 'd \<Rightarrow> 'd res" and exec :: "'a \<Rightarrow> 'c \<Rightarrow> 'c" and ok :: "'a \<Rightarrow> bool"
  assumes lub_ok: "valid a \<Longrightarrow> valid b \<Longrightarrow>
      \<exists>c. lub a b = Inr c \<and> valid c \<and> (\<forall>q. gamma a q \<or> gamma b q \<longrightarrow> gamma c q)"
    and update_ok: "valid a \<Longrightarrow> ok x \<Longrightarrow>
      \<exists>c. update x a = Inr c \<and> valid c \<and> (\<forall>q. gamma a q \<longrightarrow> gamma c (exec x q))"
begin

text \<open>A sequence of updates follows the concrete executions.\<close>

lemma updates_sound:
  assumes "valid a" "\<And>x. x \<in> set xs \<Longrightarrow> ok x"
  shows "\<exists>c. rfold update xs a = Inr c \<and> valid c \<and> (\<forall>q. gamma a q \<longrightarrow> gamma c (fold exec xs q))"
  using assms
proof (induction xs arbitrary: a)
  case Nil
  then show ?case by auto
next
  case (Cons x xs)
  then obtain b where b: "update x a = Inr b" "valid b" "\<forall>q. gamma a q \<longrightarrow> gamma b (exec x q)"
    using update_ok [of a x] by auto
  from Cons.IH [OF b(2)] Cons.prems(2) b show ?case by auto
qed

text \<open>Merging any number of states keeps the concrete states of each of them.\<close>

lemma lubs_sound:
  assumes "valid a" "\<And>b. b \<in> set bs \<Longrightarrow> valid b"
  shows "\<exists>c. rfold (\<lambda>b a. lub a b) bs a = Inr c \<and> valid c \<and>
    (\<forall>q. (\<exists>b \<in> insert a (set bs). gamma b q) \<longrightarrow> gamma c q)"
  using assms
proof (induction bs arbitrary: a)
  case Nil
  then show ?case by auto
next
  case (Cons b bs)
  then obtain c where c: "lub a b = Inr c" "valid c" "\<forall>q. gamma a q \<or> gamma b q \<longrightarrow> gamma c q"
    using lub_ok [of a b] by auto
  from Cons.IH [OF c(2)] Cons.prems(2) obtain d where
    d: "rfold (\<lambda>b a. lub a b) bs c = Inr d" "valid d"
      "\<forall>q. (\<exists>b \<in> insert c (set bs). gamma b q) \<longrightarrow> gamma d q" by auto
  show ?case using c d by (intro exI [of _ d]) auto
qed

text \<open>
  A stable annotation \<open>X\<close> of the nodes of a graph, one that absorbs the update of every
  edge's source, holds for every concrete execution along a path.
\<close>

lemma stable_sound:
  assumes valid: "\<And>v. valid (X v)" and ok: "\<And>v. ok (act v)"
    and stable: "\<And>v w c q. E v w \<Longrightarrow> update (act v) (X v) = Inr c \<Longrightarrow> gamma c q \<Longrightarrow> gamma (X w) q"
    and path: "\<And>i. Suc i < length p \<Longrightarrow> E (p ! i) (p ! Suc i)"
    and start: "p \<noteq> []" "gamma (X (hd p)) q"
  shows "gamma (X (last p)) (fold (\<lambda>v. exec (act v)) (butlast p) q)"
  using path start
proof (induction p rule: rev_induct)
  case Nil
  then show ?case by simp
next
  case (snoc w p)
  show ?case
  proof (cases "p = []")
    case True
    then show ?thesis using snoc.prems by simp
  next
    case False
    have "E (p ! i) (p ! Suc i)" if "Suc i < length p" for i
      using snoc.prems(1) [of i] that by (simp add: nth_append)
    then have IH: "gamma (X (last p)) (fold (\<lambda>v. exec (act v)) (butlast p) q)"
      using snoc False by simp
    obtain c where c: "update (act (last p)) (X (last p)) = Inr c"
        "\<forall>q. gamma (X (last p)) q \<longrightarrow> gamma c (exec (act (last p)) q)"
      using update_ok [OF valid ok] by blast
    have "E (last p) w"
      using snoc.prems(1) [of "length p - 1"] False by (simp add: nth_append last_conv_nth)
    from stable [OF this c(1)] c(2) IH
    have "gamma (X w) (exec (act (last p)) (fold (\<lambda>v. exec (act v)) (butlast p) q))" by blast
    moreover have "fold (\<lambda>v. exec (act v)) p q = exec (act (last p)) (fold (\<lambda>v. exec (act v)) (butlast p) q)"
      using False by (cases p rule: rev_cases) simp_all
    ultimately show ?thesis by simp
  qed
qed

end

end
