(* ===== verification/Cache_Must_May.thy ===== *)
theory Cache_Must_May
  imports Cache_Lru Abstract_Domain
begin

text \<open>
  The MUST and MAY abstract cache states of the instruction cache analysis
  (otawa/include/otawa/cache/cat2/MUSTProblem.h and MAYProblem.h,
  otawa/src/prog/cache_MUSTProblem.cpp and cache_MAYProblem.cpp). A state maps each block of
  one cache set to an age in \<open>0..A-1\<close>, or to \<open>-1\<close> when the block is absent. The state's size
  is the length of its table; the loops over it are written with \<open>upd_loop\<close>, in place.

  \<open>must_gamma\<close> and \<open>may_gamma\<close> give the LRU sets a state stands for: a MUST age bounds the
  age of the block from above and the block is in the set; a MAY age bounds it from below
  and an absent block is not in the set.
\<close>

record acs =
  acs_A :: int
  acs_age :: "int list"

abbreviation acs_size :: "acs \<Rightarrow> nat" where
  "acs_size a \<equiv> length (acs_age a)"

definition acs_same :: "acs \<Rightarrow> acs \<Rightarrow> bool" where
  "acs_same a b \<longleftrightarrow> acs_A a = acs_A b \<and> acs_size a = acs_size b"

subsection \<open>MUST domain\<close>

definition must_new :: "nat \<Rightarrow> int \<Rightarrow> acs" where
  "must_new n A = \<lparr>acs_A = A, acs_age = replicate n 0\<rparr>"

definition must_assign :: "acs \<Rightarrow> acs \<Rightarrow> acs res" where
  "must_assign a src = asserting (acs_same a src)
     (Inr (a\<lparr>acs_age := upd_loop (\<lambda>i _. acs_age src ! i) (acs_size a) (acs_age a)\<rparr>))"

definition must_glb :: "acs \<Rightarrow> acs \<Rightarrow> acs res" where
  "must_glb a d = asserting (acs_same a d)
     (Inr (a\<lparr>acs_age := upd_loop (\<lambda>i age.
        if age ! i > acs_age d ! i \<and> acs_age d ! i \<noteq> -1 \<or> age ! i = -1 then acs_age d ! i else age ! i)
        (acs_size a) (acs_age a)\<rparr>))"

definition must_lub :: "acs \<Rightarrow> acs \<Rightarrow> acs res" where
  "must_lub a d = asserting (acs_same a d)
     (Inr (a\<lparr>acs_age := upd_loop (\<lambda>i age.
        if age ! i < acs_age d ! i \<and> age ! i \<noteq> -1 \<or> acs_age d ! i = -1 then acs_age d ! i else age ! i)
        (acs_size a) (acs_age a)\<rparr>))"

definition must_addDamage :: "acs \<Rightarrow> nat \<Rightarrow> int \<Rightarrow> acs res" where
  "must_addDamage a b damage = asserting (b < acs_size a)
     (Inr (if acs_age a ! b = -1 then a
           else let age = acs_age a ! b + damage in
             a\<lparr>acs_age := (acs_age a)[b := if age \<ge> acs_A a then -1 else age]\<rparr>))"

definition must_equals :: "acs \<Rightarrow> acs \<Rightarrow> bool res" where
  "must_equals a d = asserting (acs_same a d)
     (Inr (\<forall>i \<in> set [0..<acs_size a]. acs_age a ! i = acs_age d ! i))"

definition must_empty :: "acs \<Rightarrow> acs" where
  "must_empty a = a\<lparr>acs_age := upd_loop (\<lambda>_ _. -1) (acs_size a) (acs_age a)\<rparr>"

definition must_contains :: "acs \<Rightarrow> nat \<Rightarrow> bool res" where
  "must_contains a b = asserting (b < acs_size a) (Inr (acs_age a ! b \<noteq> -1))"

text \<open>The loop of a miss: every present block ages, and leaves at the age \<open>A\<close>.\<close>

definition age_all :: "int \<Rightarrow> int list \<Rightarrow> int list" where
  "age_all A ages = upd_loop (\<lambda>i age.
     let x = (if age ! i \<noteq> -1 then age ! i + 1 else age ! i) in if x = A then -1 else x) (length ages) ages"

definition must_inject :: "acs \<Rightarrow> nat \<Rightarrow> acs res" where
  "must_inject a b = rbind (must_contains a b) (\<lambda>here.
     let ages = (if here
       then (upd_loop (\<lambda>i age. if age ! i < age ! b \<and> age ! i \<noteq> -1 then age ! i + 1 else age ! i)
               (acs_size a) (acs_age a))[b := 0]
       else age_all (acs_A a) (acs_age a))
     in Inr (a\<lparr>acs_age := ages[b := 0]\<rparr>))"

definition must_getAge :: "acs \<Rightarrow> nat \<Rightarrow> int res" where
  "must_getAge a b = asserting (b < acs_size a) (Inr (acs_age a ! b))"

definition must_setAge :: "acs \<Rightarrow> nat \<Rightarrow> int \<Rightarrow> acs res" where
  "must_setAge a b age = asserting (b < acs_size a) (asserting (age < acs_A a \<or> age = -1)
     (Inr (a\<lparr>acs_age := (acs_age a)[b := age]\<rparr>)))"

definition must_bottom :: "nat \<Rightarrow> int \<Rightarrow> acs" where
  "must_bottom n A = must_new n A"

definition must_entry :: "nat \<Rightarrow> int \<Rightarrow> acs" where
  "must_entry n A = must_empty (must_new n A)"

text \<open>\<^verbatim>\<open>update\<close>: the block accessed last by a basic block in this set, if any, is injected.\<close>

definition must_update :: "acs \<Rightarrow> acs \<Rightarrow> nat option \<Rightarrow> acs res" where
  "must_update out inp lblock = rbind (must_assign out inp) (\<lambda>out.
     case lblock of None \<Rightarrow> Inr out | Some b \<Rightarrow> must_inject out b)"

subsection \<open>MAY domain\<close>

definition may_new :: "nat \<Rightarrow> int \<Rightarrow> acs" where
  "may_new n A = \<lparr>acs_A = A, acs_age = replicate n (-1)\<rparr>"

definition may_assign :: "acs \<Rightarrow> acs \<Rightarrow> acs res" where
  "may_assign a src = asserting (acs_same a src)
     (Inr (a\<lparr>acs_age := upd_loop (\<lambda>i _. acs_age src ! i) (acs_size a) (acs_age a)\<rparr>))"

definition may_glb :: "acs \<Rightarrow> acs \<Rightarrow> acs res" where
  "may_glb a d = asserting False (Inr a)"

definition may_lub :: "acs \<Rightarrow> acs \<Rightarrow> acs res" where
  "may_lub a d = asserting (acs_same a d)
     (Inr (a\<lparr>acs_age := upd_loop (\<lambda>i age.
        if age ! i > acs_age d ! i \<and> acs_age d ! i \<noteq> -1 \<or> age ! i = -1 then acs_age d ! i else age ! i)
        (acs_size a) (acs_age a)\<rparr>))"

definition may_addDamage :: "acs \<Rightarrow> nat \<Rightarrow> int \<Rightarrow> acs res" where
  "may_addDamage a b damage = asserting (b < acs_size a)
     (Inr (if acs_age a ! b = -1 then a
           else let age = acs_age a ! b + damage in
             a\<lparr>acs_age := (acs_age a)[b := if age \<ge> acs_A a then -1 else age]\<rparr>))"

definition may_equals :: "acs \<Rightarrow> acs \<Rightarrow> bool res" where
  "may_equals a d = asserting (acs_same a d)
     (Inr (\<forall>i \<in> set [0..<acs_size a]. acs_age a ! i = acs_age d ! i))"

definition may_empty :: "acs \<Rightarrow> acs" where
  "may_empty a = a\<lparr>acs_age := upd_loop (\<lambda>_ _. -1) (acs_size a) (acs_age a)\<rparr>"

definition may_contains :: "acs \<Rightarrow> nat \<Rightarrow> bool res" where
  "may_contains a b = asserting (b < acs_size a) (Inr (acs_age a ! b \<noteq> -1))"

text \<open>
  The test \<^verbatim>\<open>age[i] <= age[id]\<close> reads \<^verbatim>\<open>age[id]\<close> in the table being updated: once the loop
  has passed \<^verbatim>\<open>id\<close>, it is one more than the age the block had.
\<close>

definition may_inject :: "acs \<Rightarrow> nat \<Rightarrow> acs res" where
  "may_inject a b = rbind (may_contains a b) (\<lambda>here.
     let ages = (if here
       then (upd_loop (\<lambda>i age. if age ! i \<le> age ! b \<and> age ! i \<noteq> -1 then age ! i + 1 else age ! i)
               (acs_size a) (acs_age a))[b := 0]
       else age_all (acs_A a) (acs_age a))
     in Inr (a\<lparr>acs_age := ages[b := 0]\<rparr>))"

definition may_setAge :: "acs \<Rightarrow> nat \<Rightarrow> int \<Rightarrow> acs res" where
  "may_setAge a b age = asserting (b < acs_size a) (asserting (age < acs_A a \<or> age = -1)
     (Inr (a\<lparr>acs_age := (acs_age a)[b := age]\<rparr>)))"

definition may_getAge :: "acs \<Rightarrow> nat \<Rightarrow> int res" where
  "may_getAge a b = asserting (b < acs_size a) (Inr (acs_age a ! b))"

definition may_bottom :: "nat \<Rightarrow> int \<Rightarrow> acs" where
  "may_bottom n A = may_new n A"

definition may_entry :: "nat \<Rightarrow> int \<Rightarrow> acs" where
  "may_entry n A = may_empty (may_new n A)"

definition may_update :: "acs \<Rightarrow> acs \<Rightarrow> nat option \<Rightarrow> acs res" where
  "may_update out inp lblock = rbind (may_assign out inp) (\<lambda>out.
     case lblock of None \<Rightarrow> Inr out | Some b \<Rightarrow> may_inject out b)"

subsection \<open>The loops, cell by cell\<close>

lemma length_age_all [simp]: "length (age_all A ages) = length ages"
  by (simp add: age_all_def)

lemma nth_age_all:
  assumes "i < length ages"
  shows "age_all A ages ! i = (let x = (if ages ! i \<noteq> -1 then ages ! i + 1 else ages ! i) in if x = A then -1 else x)"
  unfolding age_all_def
  by (subst nth_upd_loop_map [where g = "\<lambda>_ a. let x = (if a \<noteq> -1 then a + 1 else a) in if x = A then -1 else x"])
    (use assms in auto)

lemma copy_loop_eq: "length xs = length ys \<Longrightarrow> upd_loop (\<lambda>i _. ys ! i) (length xs) xs = ys"
  by (rule nth_equalityI) (simp_all add: nth_upd_loop_map [where g = "\<lambda>i _. ys ! i"])

lemma fill_loop_eq: "upd_loop (\<lambda>_ _. c) (length xs) xs = replicate (length xs) c"
  by (rule nth_equalityI) (simp_all add: nth_upd_loop_map [where g = "\<lambda>_ _. c"])

lemma nth_zip_loop:
  assumes "\<And>i age. i < length age \<Longrightarrow> f i age = h (age ! i) (ys ! i)" "j < length xs"
  shows "upd_loop f (length xs) xs ! j = h (xs ! j) (ys ! j)"
  using nth_upd_loop_map [of f "\<lambda>i a. h a (ys ! i)" j xs "length xs"] assms by simp

definition older_of :: "int \<Rightarrow> int \<Rightarrow> int" where
  "older_of x y = (if x < y \<and> x \<noteq> -1 \<or> y = -1 then y else x)"

definition younger_of :: "int \<Rightarrow> int \<Rightarrow> int" where
  "younger_of x y = (if x > y \<and> y \<noteq> -1 \<or> x = -1 then y else x)"

lemma must_lub_nth:
  assumes "must_lub a b = Inr c"
  shows "acs_same a b" "acs_A c = acs_A a" "acs_size c = acs_size a"
    "i < acs_size a \<Longrightarrow> acs_age c ! i = older_of (acs_age a ! i) (acs_age b ! i)"
proof -
  have c: "acs_same a b" "c = a\<lparr>acs_age := upd_loop (\<lambda>i age.
        if age ! i < acs_age b ! i \<and> age ! i \<noteq> -1 \<or> acs_age b ! i = -1 then acs_age b ! i else age ! i)
        (acs_size a) (acs_age a)\<rparr>"
    using assms by (auto simp: must_lub_def asserting_eq_Inr)
  then show "acs_same a b" "acs_A c = acs_A a" "acs_size c = acs_size a" by auto
  show "acs_age c ! i = older_of (acs_age a ! i) (acs_age b ! i)" if "i < acs_size a"
    unfolding c(2) by (simp, rule nth_zip_loop) (simp_all add: older_of_def that)
qed

lemma younger_loop_nth:
  assumes "length ys = length xs" "j < length xs"
  shows "upd_loop (\<lambda>i age. if age ! i > ys ! i \<and> ys ! i \<noteq> -1 \<or> age ! i = -1 then ys ! i else age ! i)
    (length xs) xs ! j = younger_of (xs ! j) (ys ! j)"
  by (rule nth_zip_loop) (simp_all add: younger_of_def assms(2))

lemma may_lub_nth:
  assumes "may_lub a b = Inr c"
  shows "acs_same a b" "acs_A c = acs_A a" "acs_size c = acs_size a"
    "i < acs_size a \<Longrightarrow> acs_age c ! i = younger_of (acs_age a ! i) (acs_age b ! i)"
  using assms younger_loop_nth [of "acs_age b" "acs_age a" i]
  by (auto simp: may_lub_def asserting_eq_Inr acs_same_def)

lemma must_glb_nth:
  assumes "must_glb a b = Inr c"
  shows "acs_same a b" "acs_A c = acs_A a" "acs_size c = acs_size a"
    "i < acs_size a \<Longrightarrow> acs_age c ! i = younger_of (acs_age a ! i) (acs_age b ! i)"
  using assms younger_loop_nth [of "acs_age b" "acs_age a" i]
  by (auto simp: must_glb_def asserting_eq_Inr acs_same_def)

text \<open>Injection into a MUST state: the pivot is not changed by its own iteration.\<close>

lemma must_inject_nth:
  assumes "must_inject a b = Inr c"
  shows "b < acs_size a" "acs_A c = acs_A a" "acs_size c = acs_size a"
    "i < acs_size a \<Longrightarrow> acs_age c ! i = (if i = b then 0
       else if acs_age a ! b \<noteq> -1
       then if acs_age a ! i < acs_age a ! b \<and> acs_age a ! i \<noteq> -1 then acs_age a ! i + 1 else acs_age a ! i
       else let x = (if acs_age a ! i \<noteq> -1 then acs_age a ! i + 1 else acs_age a ! i) in if x = acs_A a then -1 else x)"
proof -
  show b: "b < acs_size a" and "acs_A c = acs_A a" "acs_size c = acs_size a"
    using assms by (auto simp: must_inject_def must_contains_def Let_def res_simps)
  let ?g = "\<lambda>p x :: int. if x < p \<and> x \<noteq> -1 then x + 1 else x"
  have "upd_loop (\<lambda>i age. if age ! i < age ! b \<and> age ! i \<noteq> -1 then age ! i + 1 else age ! i)
      (acs_size a) (acs_age a) ! i = ?g (acs_age a ! b) (acs_age a ! i)" if "i < acs_size a"
    by (subst nth_upd_loop_pivot [where p = b and g = ?g]) (use b that in auto)
  then show "acs_age c ! i = (if i = b then 0
       else if acs_age a ! b \<noteq> -1
       then if acs_age a ! i < acs_age a ! b \<and> acs_age a ! i \<noteq> -1 then acs_age a ! i + 1 else acs_age a ! i
       else let x = (if acs_age a ! i \<noteq> -1 then acs_age a ! i + 1 else acs_age a ! i) in if x = acs_A a then -1 else x)"
    if "i < acs_size a"
    using assms b that
    by (auto simp: must_inject_def must_contains_def Let_def nth_age_all res_simps)
qed

text \<open>Injection into a MAY state: the cells after the pivot see its incremented age.\<close>

lemma may_inject_nth:
  assumes "may_inject a b = Inr c"
  shows "b < acs_size a" "acs_A c = acs_A a" "acs_size c = acs_size a"
    "i < acs_size a \<Longrightarrow> acs_age c ! i = (if i = b then 0
       else if acs_age a ! b \<noteq> -1
       then if acs_age a ! i \<le> acs_age a ! b + (if b < i then 1 else 0) \<and> acs_age a ! i \<noteq> -1
            then acs_age a ! i + 1 else acs_age a ! i
       else let x = (if acs_age a ! i \<noteq> -1 then acs_age a ! i + 1 else acs_age a ! i) in if x = acs_A a then -1 else x)"
proof -
  show b: "b < acs_size a" and "acs_A c = acs_A a" "acs_size c = acs_size a"
    using assms by (auto simp: may_inject_def may_contains_def Let_def res_simps)
  let ?g = "\<lambda>p x :: int. if x \<le> p \<and> x \<noteq> -1 then x + 1 else x"
  have "upd_loop (\<lambda>i age. if age ! i \<le> age ! b \<and> age ! i \<noteq> -1 then age ! i + 1 else age ! i)
      (acs_size a) (acs_age a) ! i =
    ?g (if b < i then ?g (acs_age a ! b) (acs_age a ! b) else acs_age a ! b) (acs_age a ! i)" if "i < acs_size a"
    by (subst nth_upd_loop_pivot [where p = b and g = ?g]) (use b that in auto)
  then show "acs_age c ! i = (if i = b then 0
       else if acs_age a ! b \<noteq> -1
       then if acs_age a ! i \<le> acs_age a ! b + (if b < i then 1 else 0) \<and> acs_age a ! i \<noteq> -1
            then acs_age a ! i + 1 else acs_age a ! i
       else let x = (if acs_age a ! i \<noteq> -1 then acs_age a ! i + 1 else acs_age a ! i) in if x = acs_A a then -1 else x)"
    if "i < acs_size a"
    using assms b that
    by (auto simp: may_inject_def may_contains_def Let_def nth_age_all res_simps)
qed

subsection \<open>Soundness of MUST\<close>

definition must_valid :: "nat \<Rightarrow> nat \<Rightarrow> acs \<Rightarrow> bool" where
  "must_valid n A a \<longleftrightarrow> acs_A a = int A \<and> acs_size a = n \<and> 0 < A \<and>
     (\<forall>i < n. -1 \<le> acs_age a ! i \<and> acs_age a ! i < int A)"

definition must_gamma :: "nat \<Rightarrow> acs \<Rightarrow> lru \<Rightarrow> bool" where
  "must_gamma A a q \<longleftrightarrow> lru_wf A q \<and>
     (\<forall>i < acs_size a. acs_age a ! i \<noteq> -1 \<longrightarrow> i \<in> set q \<and> int (lru_age q i) \<le> acs_age a ! i)"

definition lru_step :: "nat \<Rightarrow> nat option \<Rightarrow> lru \<Rightarrow> lru" where
  "lru_step A x q = (case x of None \<Rightarrow> q | Some b \<Rightarrow> lru_access A b q)"

definition block_ok :: "nat \<Rightarrow> nat option \<Rightarrow> bool" where
  "block_ok n x \<longleftrightarrow> (case x of None \<Rightarrow> True | Some b \<Rightarrow> b < n)"

lemma must_contains_eq: "b < acs_size a \<Longrightarrow> must_contains a b = Inr (acs_age a ! b \<noteq> -1)"
  by (simp add: must_contains_def)

lemma must_inject_total: "b < acs_size a \<Longrightarrow> \<exists>c. must_inject a b = Inr c"
  by (simp add: must_inject_def must_contains_eq Let_def)

lemma must_inject_valid:
  assumes "must_valid n A a" "must_inject a b = Inr c"
  shows "must_valid n A c"
proof -
  note nth = must_inject_nth [OF assms(2)]
  have A: "acs_A a = int A" "acs_size a = n" "0 < A" using assms(1) by (auto simp: must_valid_def)
  have "-1 \<le> acs_age c ! i \<and> acs_age c ! i < int A" if i: "i < n" for i
  proof -
    have "-1 \<le> acs_age a ! i \<and> acs_age a ! i < int A" "-1 \<le> acs_age a ! b \<and> acs_age a ! b < int A"
      using assms(1) i nth(1) A by (auto simp: must_valid_def)
    then show ?thesis using nth(4) [of i] i A by (auto simp: Let_def)
  qed
  then show ?thesis using nth(2,3) A by (simp add: must_valid_def)
qed

lemma must_inject_sound:
  assumes v: "must_valid n A a" and i: "must_inject a b = Inr c" and q: "must_gamma A a q"
  shows "must_gamma A c (lru_access A b q)"
proof -
  note nth = must_inject_nth [OF i]
  have A: "acs_A a = int A" "acs_size a = n" "0 < A" using v by (auto simp: must_valid_def)
  have wf: "lru_wf A q" using q by (simp add: must_gamma_def)
  have "k \<in> set (lru_access A b q) \<and> int (lru_age (lru_access A b q) k) \<le> acs_age c ! k"
    if k: "k < n" "acs_age c ! k \<noteq> -1" for k
  proof (cases "k = b")
    case True
    then show ?thesis using lru_access_self [OF A(3), of b q] nth(4) [of k] k A by simp
  next
    case False
    have g: "acs_age a ! j \<noteq> -1 \<Longrightarrow> j \<in> set q \<and> int (lru_age q j) \<le> acs_age a ! j" if "j < n" for j
      using q that A by (auto simp: must_gamma_def)
    have rng: "-1 \<le> acs_age a ! k \<and> acs_age a ! k < int A" using v k by (simp add: must_valid_def)
    have ne: "acs_age a ! k \<noteq> -1" using nth(4) [of k] k A False by (auto simp: Let_def split: if_splits)
    note kg = g [OF k(1) ne]
    show ?thesis
    proof (cases "b \<in> set q")
      case True
      note hit = lru_access_hit [OF wf True False]
      show ?thesis
      proof (cases "acs_age a ! b = -1")
        case absent: True
        then have "acs_age c ! k = acs_age a ! k + 1"
          using nth(4) [of k] k A False ne by (auto simp: Let_def split: if_splits)
        then show ?thesis using hit kg by auto
      next
        case present: False
        have bg: "int (lru_age q b) \<le> acs_age a ! b" using g [of b] nth(1) A present by simp
        have "acs_age c ! k = (if acs_age a ! k < acs_age a ! b then acs_age a ! k + 1 else acs_age a ! k)"
          using nth(4) [of k] k A False ne present by (simp add: Let_def)
        then show ?thesis using hit kg bg by auto
      qed
    next
      case miss: False
      then have absent: "acs_age a ! b = -1" using g [of b] nth(1) A by auto
      then have "acs_age c ! k = acs_age a ! k + 1" "acs_age a ! k + 1 \<noteq> int A"
        using nth(4) [of k] k A False ne by (auto simp: Let_def split: if_splits)
      then have "Suc (lru_age q k) < A" using kg rng by linarith
      then show ?thesis using lru_access_miss [OF miss False, of A] kg \<open>acs_age c ! k = acs_age a ! k + 1\<close> by auto
    qed
  qed
  then show ?thesis using lru_access_wf [OF wf] nth(3) A by (simp add: must_gamma_def)
qed

lemma must_lub_total: "must_valid n A a \<Longrightarrow> must_valid n A b \<Longrightarrow> \<exists>c. must_lub a b = Inr c"
  by (simp add: must_lub_def must_valid_def acs_same_def)

lemma must_lub_valid:
  assumes "must_valid n A a" "must_valid n A b" "must_lub a b = Inr c"
  shows "must_valid n A c"
  using assms must_lub_nth [OF assms(3)] by (auto simp: must_valid_def older_of_def)

lemma must_lub_sound:
  assumes "must_valid n A a" "must_valid n A b" "must_lub a b = Inr c" "must_gamma A a q \<or> must_gamma A b q"
  shows "must_gamma A c q"
proof -
  note nth = must_lub_nth [OF assms(3)]
  have sz: "acs_size a = n" "acs_size b = n" using assms(1,2) by (auto simp: must_valid_def)
  have "i \<in> set q \<and> int (lru_age q i) \<le> acs_age c ! i" if i: "i < n" "acs_age c ! i \<noteq> -1" for i
    using nth(4) [of i] i sz assms(4) by (auto simp: must_gamma_def older_of_def split: if_splits)
  then show ?thesis using assms(4) nth(3) sz by (auto simp: must_gamma_def)
qed

lemma must_assign_eq: "acs_same a b \<Longrightarrow> must_assign a b = Inr b"
  using copy_loop_eq [of "acs_age a" "acs_age b"] by (simp add: must_assign_def acs_same_def)

lemma must_update_ok:
  assumes "must_valid n A a" "block_ok n x"
  shows "\<exists>c. must_update a a x = Inr c \<and> must_valid n A c \<and> (\<forall>q. must_gamma A a q \<longrightarrow> must_gamma A c (lru_step A x q))"
proof (cases x)
  case None
  then show ?thesis using assms by (simp add: must_update_def must_assign_eq acs_same_def lru_step_def)
next
  case (Some b)
  then have "b < acs_size a" using assms by (simp add: must_valid_def block_ok_def)
  then obtain c where "must_inject a b = Inr c" using must_inject_total by blast
  then show ?thesis
    using Some must_inject_valid [OF assms(1)] must_inject_sound [OF assms(1)]
    by (auto simp: must_update_def must_assign_eq acs_same_def lru_step_def)
qed

interpretation must_dom: abs_domain "must_valid n A" "must_gamma A" must_lub
  "\<lambda>x a. must_update a a x" "lru_step A" "block_ok n" for n A
proof unfold_locales
  show "\<exists>c. must_lub a b = Inr c \<and> must_valid n A c \<and> (\<forall>q. must_gamma A a q \<or> must_gamma A b q \<longrightarrow> must_gamma A c q)"
    if v: "must_valid n A a" "must_valid n A b" for a b
  proof -
    obtain c where "must_lub a b = Inr c" using must_lub_total [OF v] by blast
    then show ?thesis using must_lub_valid [OF v] must_lub_sound [OF v] by blast
  qed
qed (rule must_update_ok)

text \<open>The entry state stands for every set, the bottom state is neutral for the join.\<close>

lemma must_entry_gamma: "lru_wf A q \<Longrightarrow> must_gamma A (must_entry n (int A)) q"
  using fill_loop_eq [of "-1" "replicate n (0 :: int)"]
  by (simp add: must_gamma_def must_entry_def must_empty_def must_new_def)

lemma must_bottom_lub:
  assumes "must_valid n A a"
  shows "must_lub (must_bottom n (int A)) a = Inr a"
proof -
  have "acs_same (must_bottom n (int A)) a"
    using assms by (simp add: must_valid_def acs_same_def must_bottom_def must_new_def)
  then obtain c where c: "must_lub (must_bottom n (int A)) a = Inr c" by (simp add: must_lub_def)
  note nth = must_lub_nth [OF c]
  have "acs_age c = acs_age a"
  proof (rule nth_equalityI)
    show "length (acs_age c) = length (acs_age a)"
      using nth(1,3) by (simp add: acs_same_def)
    fix i assume "i < length (acs_age c)"
    then have "i < n" using nth(3) by (simp add: must_bottom_def must_new_def)
    then show "acs_age c ! i = acs_age a ! i"
      using nth(4) [of i] assms by (auto simp: must_valid_def must_bottom_def must_new_def older_of_def)
  qed
  then show ?thesis using c nth(1,2) by (simp add: acs_same_def)
qed

text \<open>An ALWAYS HIT verdict: a block of a MUST state is in every set the state stands for.\<close>

lemma must_contains_hit:
  assumes "must_gamma A a q" "must_contains a b = Inr True"
  shows "b \<in> set q"
  using assms by (auto simp: must_gamma_def must_contains_def res_simps)

text \<open>The join is exact on ages: it is the least state above both.\<close>

definition must_le :: "acs \<Rightarrow> acs \<Rightarrow> bool" where
  "must_le a b \<longleftrightarrow> acs_same a b \<and>
     (\<forall>i < acs_size a. acs_age b ! i = -1 \<or> acs_age a ! i \<noteq> -1 \<and> acs_age a ! i \<le> acs_age b ! i)"

lemma must_lub_least:
  assumes "must_lub a b = Inr c"
  shows "must_le a c \<and> must_le b c \<and> (\<forall>d. must_le a d \<longrightarrow> must_le b d \<longrightarrow> must_le c d)"
  using must_lub_nth [OF assms] by (auto simp: must_le_def acs_same_def older_of_def)

definition aged :: "int \<Rightarrow> int \<Rightarrow> int \<Rightarrow> int" where
  "aged A p x = (if p \<noteq> -1 then if x < p \<and> x \<noteq> -1 then x + 1 else x
     else if x = -1 \<or> x + 1 = A then -1 else x + 1)"

lemma aged_mono:
  assumes "y = -1 \<or> x \<noteq> -1 \<and> x \<le> y" "q = -1 \<or> p \<noteq> -1 \<and> p \<le> q"
    "-1 \<le> x" "x < A" "-1 \<le> y" "y < A" "-1 \<le> p" "-1 \<le> q" "p < A" "q < A"
  shows "aged A q y = -1 \<or> aged A p x \<noteq> -1 \<and> aged A p x \<le> aged A q y"
proof (cases "y = -1")
  case True
  then show ?thesis by (simp add: aged_def)
next
  case False
  then have x: "0 \<le> x" "x \<le> y" using assms by auto
  show ?thesis
  proof (cases "q = -1")
    case True
    then show ?thesis using x assms by (simp add: aged_def)
  next
    case False
    then show ?thesis using x assms by (simp add: aged_def)
  qed
qed

lemma must_inject_mono:
  assumes "must_valid n A a" "must_valid n A b" "must_le a b" "must_inject a x = Inr c" "must_inject b x = Inr d"
  shows "must_le c d"
proof -
  note na = must_inject_nth [OF assms(4)] and nb = must_inject_nth [OF assms(5)]
  have sz: "acs_A a = int A" "acs_A b = int A" "acs_size a = n" "acs_size b = n" "x < n"
    using assms(1,2) na(1) by (auto simp: must_valid_def)
  have "acs_age d ! i = -1 \<or> acs_age c ! i \<noteq> -1 \<and> acs_age c ! i \<le> acs_age d ! i" if i: "i < n" for i
  proof -
    have r: "-1 \<le> acs_age a ! i" "acs_age a ! i < int A" "-1 \<le> acs_age b ! i" "acs_age b ! i < int A"
      using assms(1,2) i by (auto simp: must_valid_def)
    have l: "acs_age b ! i = -1 \<or> acs_age a ! i \<noteq> -1 \<and> acs_age a ! i \<le> acs_age b ! i"
      "acs_age b ! x = -1 \<or> acs_age a ! x \<noteq> -1 \<and> acs_age a ! x \<le> acs_age b ! x"
      using assms(3) i sz by (auto simp: must_le_def)
    have rx: "-1 \<le> acs_age a ! x" "acs_age a ! x < int A" "-1 \<le> acs_age b ! x" "acs_age b ! x < int A"
      using assms(1,2) sz by (auto simp: must_valid_def)
    have "acs_age c ! i = (if i = x then 0 else aged (int A) (acs_age a ! x) (acs_age a ! i))"
      "acs_age d ! i = (if i = x then 0 else aged (int A) (acs_age b ! x) (acs_age b ! i))"
      using na(4) [of i] nb(4) [of i] i sz assms(1) by (simp_all add: aged_def Let_def must_valid_def)
    then show ?thesis using aged_mono [OF l r(1,2,3,4) rx(1,3,2,4)] by simp
  qed
  then show ?thesis using na(2,3) nb(2,3) sz by (auto simp: must_le_def acs_same_def)
qed

subsection \<open>MAY\<close>

definition may_valid :: "nat \<Rightarrow> nat \<Rightarrow> acs \<Rightarrow> bool" where
  "may_valid n A a \<longleftrightarrow> acs_A a = int A \<and> acs_size a = n \<and> 0 < A \<and> (\<forall>i < n. -1 \<le> acs_age a ! i)"

definition may_gamma :: "nat \<Rightarrow> acs \<Rightarrow> lru \<Rightarrow> bool" where
  "may_gamma A a q \<longleftrightarrow> lru_wf A q \<and> set q \<subseteq> {..<acs_size a} \<and>
     (\<forall>i \<in> set q. acs_age a ! i \<noteq> -1 \<and> acs_age a ! i \<le> int (lru_age q i))"

lemma may_inject_total: "b < acs_size a \<Longrightarrow> \<exists>c. may_inject a b = Inr c"
  by (simp add: may_inject_def may_contains_def Let_def)

lemma may_inject_valid:
  assumes "may_valid n A a" "may_inject a b = Inr c"
  shows "may_valid n A c"
proof -
  note nth = may_inject_nth [OF assms(2)]
  have A: "acs_A a = int A" "acs_size a = n" "0 < A" using assms(1) by (auto simp: may_valid_def)
  have "-1 \<le> acs_age c ! i" if i: "i < n" for i
  proof -
    have "-1 \<le> acs_age a ! i" using assms(1) i by (simp add: may_valid_def)
    then show ?thesis using nth(4) [of i] i A by (simp add: Let_def)
  qed
  then show ?thesis using nth(2,3) A by (simp add: may_valid_def)
qed

lemma may_lub_valid:
  assumes "may_valid n A a" "may_valid n A b" "may_lub a b = Inr c"
  shows "may_valid n A c"
  using assms may_lub_nth [OF assms(3)] by (auto simp: may_valid_def younger_of_def)

lemma may_lub_sound:
  assumes "may_valid n A a" "may_valid n A b" "may_lub a b = Inr c" "may_gamma A a q \<or> may_gamma A b q"
  shows "may_gamma A c q"
proof -
  note nth = may_lub_nth [OF assms(3)]
  have sz: "acs_size a = n" "acs_size b = n" using assms(1,2) by (auto simp: may_valid_def)
  have rng: "\<And>i. i < n \<Longrightarrow> -1 \<le> acs_age a ! i \<and> -1 \<le> acs_age b ! i"
    using assms(1,2) by (auto simp: may_valid_def)
  have qn: "set q \<subseteq> {..<n}" using assms(4) sz by (auto simp: may_gamma_def)
  have "acs_age c ! i \<noteq> -1 \<and> acs_age c ! i \<le> int (lru_age q i)" if i: "i \<in> set q" for i
  proof -
    have "i < n" using i qn by auto
    then show ?thesis
      using nth(4) [of i] sz rng [of i] assms(4) i by (auto simp: may_gamma_def younger_of_def)
  qed
  then show ?thesis using assms(4) nth(3) sz qn by (auto simp: may_gamma_def)
qed

text \<open>
  Injection is sound as long as no block numbered after the injected one is exactly one
  step older than it.
\<close>

lemma may_inject_sound:
  assumes v: "may_valid n A a" and i: "may_inject a b = Inr c" and q: "may_gamma A a q"
    and gap: "\<And>k. b < k \<Longrightarrow> k < n \<Longrightarrow> acs_age a ! b \<noteq> -1 \<Longrightarrow> acs_age a ! k \<noteq> acs_age a ! b + 1"
  shows "may_gamma A c (lru_access A b q)"
proof -
  note nth = may_inject_nth [OF i]
  have A: "acs_A a = int A" "acs_size a = n" "0 < A" using v by (auto simp: may_valid_def)
  have wf: "lru_wf A q" and qn: "set q \<subseteq> {..<n}" using q A by (auto simp: may_gamma_def)
  have g: "acs_age a ! k \<noteq> -1" "acs_age a ! k \<le> int (lru_age q k)" if "k \<in> set q" for k
    using q that by (auto simp: may_gamma_def)
  have "acs_age c ! k \<noteq> -1 \<and> acs_age c ! k \<le> int (lru_age (lru_access A b q) k)"
    if k: "k \<in> set (lru_access A b q)" for k
  proof (cases "k = b")
    case True
    then show ?thesis using nth(1,4) by simp
  next
    case False
    then have kq: "k \<in> set q" using k lru_access_sub [of A b q] by auto
    then have kn: "k < n" using qn by auto
    have r: "-1 \<le> acs_age a ! k" using v kn by (simp add: may_valid_def)
    show ?thesis
    proof (cases "b \<in> set q")
      case True
      have "acs_age a ! k \<le> acs_age a ! b + (if b < k then 1 else 0) \<longleftrightarrow> acs_age a ! k \<le> acs_age a ! b"
        using gap [OF _ kn] g(1) [OF True] by auto
      then have "acs_age c ! k = (if acs_age a ! k \<le> acs_age a ! b then acs_age a ! k + 1 else acs_age a ! k)"
        using nth(4) [of k] A kn False g(1) [OF kq] g(1) [OF True] by simp
      moreover have "lru_age q k \<noteq> lru_age q b" using lru_age_inj [OF kq] False by blast
      ultimately show ?thesis
        using lru_access_hit(2) [OF wf True False kq] g [OF kq] g [OF True] r by auto
    next
      case miss: False
      note ms = lru_access_miss [OF miss False, of A]
      have age: "lru_age (lru_access A b q) k = Suc (lru_age q k)" "Suc (lru_age q k) < A"
        using ms k by auto
      show ?thesis
      proof (cases "acs_age a ! b = -1")
        case True
        then show ?thesis
          using nth(4) [of k] A kn False g [OF kq] r age by (auto simp: Let_def)
      next
        case present: False
        then show ?thesis
          using nth(4) [of k] A kn False g [OF kq] r age by (auto simp: Let_def)
      qed
    qed
  qed
  moreover have "set (lru_access A b q) \<subseteq> {..<n}" using lru_access_sub [of A b q] qn nth(1) A by auto
  ultimately show ?thesis using lru_access_wf [OF wf] nth(3) A by (simp add: may_gamma_def)
qed

lemma may_entry_gamma: "may_gamma A (may_entry n (int A)) []"
  by (simp add: may_gamma_def lru_wf_def)

lemma may_contains_miss:
  assumes "may_gamma A a q" "may_contains a b = Inr False"
  shows "b \<notin> set q"
  using assms by (auto simp: may_gamma_def may_contains_def res_simps)

text \<open>
  Without that condition the later numbers age twice: block 1 is one step older than the accessed
  block 0, whose own age has grown when the loop reaches block 1. After one more access the state
  excludes block 1, which the set still holds.
\<close>

lemma may_ages_twice:
  "rbind (may_inject \<lparr>acs_A = 3, acs_age = [0, 1, -1]\<rparr> 0) (\<lambda>a. rbind (may_inject a 2) (\<lambda>a. may_contains a 1)) = Inr False"
  "may_gamma 3 \<lparr>acs_A = 3, acs_age = [0, 1, -1]\<rparr> [0, 1]" "1 \<in> set (fold (lru_access 3) [0, 2] [0, 1])"
  by code_simp+

end
