(* ===== verification/Cache_Pers.thy ===== *)
theory Cache_Pers
  imports Cache_Must_May
begin

text \<open>
  Multi-level persistence (otawa/include/otawa/cache/cat2/PERSProblem.h and MUSTPERS.h,
  otawa/src/prog/cache_PERSProblem.cpp and cache_MUSTPERS.cpp). An item maps each block to
  its greatest age since it was loaded in a scope, \<open>A\<close> when it may have been wiped out and
  \<open>-1\<close> when it was not accessed in the scope. A domain holds one item per enclosing loop, the
  outermost first, and an item for the whole program. The pair domain runs the persistence
  beside a MUST state, which tells hits.

  \<open>item_gamma\<close> relates an item to the accesses made in its scope and to the LRU set they
  lead to.
\<close>

subsection \<open>Items\<close>

definition item_new :: "nat \<Rightarrow> int \<Rightarrow> acs" where
  "item_new n A = \<lparr>acs_A = A, acs_age = replicate n (-1)\<rparr>"

definition item_assign :: "acs \<Rightarrow> acs \<Rightarrow> acs res" where
  "item_assign a src = asserting (acs_same a src)
     (Inr (a\<lparr>acs_age := upd_loop (\<lambda>i _. acs_age src ! i) (acs_size a) (acs_age a)\<rparr>))"

definition item_refresh :: "acs \<Rightarrow> nat \<Rightarrow> int \<Rightarrow> acs res" where
  "item_refresh a b newage = asserting (b < acs_size a)
     (Inr (if newage \<noteq> -1 \<and> (acs_age a ! b > newage \<or> acs_age a ! b = -1)
           then a\<lparr>acs_age := (acs_age a)[b := newage]\<rparr> else a))"

text \<open>The size test of \<^verbatim>\<open>lub\<close> is commented out in the source: a shorter argument is read
  past its end.\<close>

definition item_lub :: "acs \<Rightarrow> acs \<Rightarrow> acs res" where
  "item_lub a d =
     (if acs_size d < acs_size a then Inl OutOfBounds
      else Inr (a\<lparr>acs_age := upd_loop (\<lambda>i age.
        if age ! i = -1 \<or> age ! i < acs_age d ! i \<and> acs_age d ! i \<noteq> -1 then acs_age d ! i else age ! i)
        (acs_size a) (acs_age a)\<rparr>))"

definition item_equals :: "acs \<Rightarrow> acs \<Rightarrow> bool res" where
  "item_equals a d = asserting (acs_same a d)
     (Inr (\<forall>i \<in> set [0..<acs_size a]. acs_age a ! i = acs_age d ! i))"

definition item_empty :: "acs \<Rightarrow> acs" where
  "item_empty a = a\<lparr>acs_age := upd_loop (\<lambda>_ _. -1) (acs_size a) (acs_age a)\<rparr>"

definition item_contains :: "acs \<Rightarrow> nat \<Rightarrow> bool res" where
  "item_contains a b = asserting (b < acs_size a) (Inr (acs_age a ! b \<noteq> -1))"

definition item_inject :: "acs \<Rightarrow> acs \<Rightarrow> nat \<Rightarrow> acs res" where
  "item_inject must a b = rbind (must_contains must b) (\<lambda>here.
     if acs_size a \<le> b then Inl OutOfBounds
     else let ages = (if here
       then (upd_loop (\<lambda>i age. if age ! i < age ! b \<and> age ! i \<noteq> -1 \<and> age ! i \<noteq> acs_A a then age ! i + 1 else age ! i)
               (acs_size a) (acs_age a))[b := 0]
       else upd_loop (\<lambda>i age. if age ! i \<noteq> -1 \<and> age ! i \<noteq> acs_A a then age ! i + 1 else age ! i)
               (acs_size a) (acs_age a))
     in Inr (a\<lparr>acs_age := ages[b := 0]\<rparr>))"

definition item_isWiped :: "acs \<Rightarrow> nat \<Rightarrow> bool" where
  "item_isWiped a b \<longleftrightarrow> acs_age a ! b = acs_A a"

definition item_isPersistent :: "acs \<Rightarrow> nat \<Rightarrow> bool res" where
  "item_isPersistent a b = rbind (item_contains a b) (\<lambda>c. Inr (c \<and> \<not> item_isWiped a b))"

definition item_getAge :: "acs \<Rightarrow> nat \<Rightarrow> int res" where
  "item_getAge a b = asserting (b < acs_size a) (Inr (acs_age a ! b))"

definition item_addDamage :: "acs \<Rightarrow> nat \<Rightarrow> int \<Rightarrow> acs res" where
  "item_addDamage a b damage = asserting (b < acs_size a)
     (Inr (if acs_age a ! b = -1 then a
           else let age = acs_age a ! b + damage in
             a\<lparr>acs_age := (acs_age a)[b := if age > acs_A a then acs_A a else age]\<rparr>))"

subsection \<open>Persistence domain\<close>

record pers =
  pd_A :: int
  pd_size :: nat
  pd_bottom :: bool
  pd_whole :: acs
  pd_data :: "acs list"

definition pers_new :: "nat \<Rightarrow> int \<Rightarrow> pers" where
  "pers_new n A = \<lparr>pd_A = A, pd_size = n, pd_bottom = True, pd_whole = item_empty (item_new n A), pd_data = []\<rparr>"

definition pers_empty :: "pers \<Rightarrow> pers" where
  "pers_empty p = p\<lparr>pd_data := [], pd_whole := item_empty (pd_whole p), pd_bottom := False\<rparr>"

definition pers_setToBottom :: "pers \<Rightarrow> pers" where
  "pers_setToBottom p = p\<lparr>pd_data := [], pd_whole := item_empty (pd_whole p), pd_bottom := True\<rparr>"

text \<open>\<open>data[i]\<close> on an \<^verbatim>\<open>elm\<close> vector asserts the bound.\<close>

definition data_at :: "acs list \<Rightarrow> nat \<Rightarrow> acs res" where
  "data_at xs i = asserting (i < length xs) (Inr (xs ! i))"

definition data_upd :: "nat \<Rightarrow> (acs \<Rightarrow> acs res) \<Rightarrow> acs list \<Rightarrow> acs list res" where
  "data_upd i f xs = rbind (data_at xs i) (\<lambda>a. rbind (f a) (\<lambda>b. Inr (xs[i := b])))"

definition pers_assign :: "pers \<Rightarrow> pers \<Rightarrow> pers res" where
  "pers_assign p src =
     (if pd_bottom src then Inr (pers_setToBottom p)
      else rbind (item_assign (pd_whole p) (pd_whole src)) (\<lambda>w.
        let sdl = length (pd_data src); dl = length (pd_data p); minl = (if sdl > dl then dl else sdl) in
        rbind (rfold (\<lambda>i xs. rbind (data_at (pd_data src) i) (\<lambda>s. data_upd i (\<lambda>a. item_assign a s) xs))
                 [0..<minl] (take minl (pd_data p))) (\<lambda>xs.
        Inr (p\<lparr>pd_whole := w, pd_bottom := False, pd_data := xs @ drop dl (pd_data src)\<rparr>))))"

text \<open>
  \<^verbatim>\<open>lub\<close> merges the items from the innermost on. The loop that should discard the outer items
  of the longer stack calls \<^verbatim>\<open>data.remove(0)\<close>, which on a vector of pointers removes the
  elements equal to the null pointer: no item is discarded.
\<close>

definition remove_value :: "'a \<Rightarrow> 'a list \<Rightarrow> 'a list" where
  "remove_value x xs = remove1 x xs"

definition discard_null :: "nat \<Rightarrow> acs list \<Rightarrow> acs list" where
  "discard_null k xs = map the (((remove_value None) ^^ k) (map Some xs))"

definition pers_lub :: "pers \<Rightarrow> pers \<Rightarrow> pers res" where
  "pers_lub p d =
     (if pd_bottom d then Inr p
      else if pd_bottom p
      then rbind (item_assign (pd_whole p) (pd_whole d)) (\<lambda>w.
        Inr (p\<lparr>pd_data := pd_data p @ pd_data d, pd_whole := w, pd_bottom := False\<rparr>))
      else let dl = length (pd_data p); ddl = length (pd_data d); len = (if dl < ddl then dl else ddl) in
        rbind (rfold (\<lambda>k xs. rbind (data_at (pd_data d) (ddl - 1 - k)) (\<lambda>b.
            data_upd (dl - 1 - k) (\<lambda>a. item_lub a b) xs)) [0..<len] (pd_data p)) (\<lambda>xs.
        rbind (item_lub (pd_whole p) (pd_whole d)) (\<lambda>w.
        Inr (p\<lparr>pd_data := discard_null (dl - len) xs, pd_whole := w\<rparr>))))"

definition pers_lub_item :: "pers \<Rightarrow> acs \<Rightarrow> pers res" where
  "pers_lub_item p it =
     rbind (rfold (\<lambda>i xs. data_upd i (\<lambda>a. item_lub a it) xs) [0..<length (pd_data p)] (pd_data p)) (\<lambda>xs.
     rbind (item_lub (pd_whole p) it) (\<lambda>w. Inr (p\<lparr>pd_data := xs, pd_whole := w\<rparr>)))"

fun data_equals :: "acs list \<Rightarrow> acs list \<Rightarrow> nat list \<Rightarrow> bool res" where
  "data_equals xs ys [] = Inr True"
| "data_equals xs ys (i # is) =
     rbind (data_at xs i) (\<lambda>a. rbind (data_at ys i) (\<lambda>b. rbind (item_equals a b) (\<lambda>eq.
       if eq then data_equals xs ys is else Inr False)))"

definition pers_equals :: "pers \<Rightarrow> pers \<Rightarrow> bool res" where
  "pers_equals p d = asserting (\<not> pd_bottom p \<and> \<not> pd_bottom d)
     (rbind (data_equals (pd_data p) (pd_data d) [0..<length (pd_data d)]) (\<lambda>eq.
        if \<not> eq then Inr False
        else rbind (item_equals (pd_whole p) (pd_whole d)) (\<lambda>w. Inr (w \<and> pd_bottom p = pd_bottom d))))"

definition pers_contains :: "pers \<Rightarrow> nat \<Rightarrow> nat \<Rightarrow> bool res" where
  "pers_contains p b k = asserting (\<not> pd_bottom p) (rbind (data_at (pd_data p) k) (\<lambda>a. item_contains a b))"

definition pers_inject :: "acs \<Rightarrow> pers \<Rightarrow> nat \<Rightarrow> pers res" where
  "pers_inject must p b = asserting (\<not> pd_bottom p)
     (rbind (rfold (\<lambda>i xs. data_upd i (\<lambda>a. item_inject must a b) xs) [0..<length (pd_data p)] (pd_data p)) (\<lambda>xs.
      rbind (item_inject must (pd_whole p) b) (\<lambda>w. Inr (p\<lparr>pd_data := xs, pd_whole := w\<rparr>))))"

definition pers_isWiped :: "pers \<Rightarrow> nat \<Rightarrow> nat \<Rightarrow> bool res" where
  "pers_isWiped p b k = asserting (\<not> pd_bottom p) (rbind (data_at (pd_data p) k) (\<lambda>a. Inr (item_isWiped a b)))"

definition pers_getAge :: "pers \<Rightarrow> nat \<Rightarrow> nat \<Rightarrow> int res" where
  "pers_getAge p b k = asserting (\<not> pd_bottom p) (rbind (data_at (pd_data p) k) (\<lambda>a. item_getAge a b))"

definition pers_isPersistent :: "pers \<Rightarrow> nat \<Rightarrow> nat \<Rightarrow> bool res" where
  "pers_isPersistent p b k = asserting (\<not> pd_bottom p) (rbind (data_at (pd_data p) k) (\<lambda>a. item_isPersistent a b))"

definition pers_addDamage_at :: "pers \<Rightarrow> nat \<Rightarrow> nat \<Rightarrow> int \<Rightarrow> pers res" where
  "pers_addDamage_at p b k damage = asserting (\<not> pd_bottom p)
     (rbind (data_upd k (\<lambda>a. item_addDamage a b damage) (pd_data p)) (\<lambda>xs. Inr (p\<lparr>pd_data := xs\<rparr>)))"

definition pers_addDamage :: "pers \<Rightarrow> nat \<Rightarrow> int \<Rightarrow> pers res" where
  "pers_addDamage p b damage = asserting (\<not> pd_bottom p)
     (rbind (rfold (\<lambda>i xs. data_upd i (\<lambda>a. item_addDamage a b damage) xs) [0..<length (pd_data p)] (pd_data p)) (\<lambda>xs.
      rbind (item_addDamage (pd_whole p) b damage) (\<lambda>w. Inr (p\<lparr>pd_data := xs, pd_whole := w\<rparr>))))"

definition pers_refresh_at :: "pers \<Rightarrow> nat \<Rightarrow> nat \<Rightarrow> int \<Rightarrow> pers res" where
  "pers_refresh_at p b k newage = asserting (\<not> pd_bottom p)
     (rbind (data_upd k (\<lambda>a. item_refresh a b newage) (pd_data p)) (\<lambda>xs. Inr (p\<lparr>pd_data := xs\<rparr>)))"

definition pers_refresh :: "pers \<Rightarrow> nat \<Rightarrow> int \<Rightarrow> pers res" where
  "pers_refresh p b newage = asserting (\<not> pd_bottom p)
     (rbind (rfold (\<lambda>i xs. data_upd i (\<lambda>a. item_refresh a b newage) xs) [0..<length (pd_data p)] (pd_data p)) (\<lambda>xs.
      rbind (item_refresh (pd_whole p) b newage) (\<lambda>w. Inr (p\<lparr>pd_data := xs, pd_whole := w\<rparr>))))"

definition pers_enterContext :: "pers \<Rightarrow> pers res" where
  "pers_enterContext p = asserting (\<not> pd_bottom p)
     (Inr (p\<lparr>pd_data := pd_data p @ [item_empty (item_new (pd_size p) (pd_A p))]\<rparr>))"

definition pers_leaveContext :: "pers \<Rightarrow> pers res" where
  "pers_leaveContext p = asserting (\<not> pd_bottom p) (asserting (pd_data p \<noteq> [])
     (Inr (p\<lparr>pd_data := butlast (pd_data p)\<rparr>)))"

definition pers_length :: "pers \<Rightarrow> nat res" where
  "pers_length p = asserting (\<not> pd_bottom p) (Inr (length (pd_data p)))"

definition pers_getItem :: "pers \<Rightarrow> nat \<Rightarrow> acs res" where
  "pers_getItem p k = asserting (\<not> pd_bottom p) (data_at (pd_data p) k)"

definition pers_bottom :: "nat \<Rightarrow> int \<Rightarrow> pers" where
  "pers_bottom n A = pers_setToBottom (pers_new n A)"

definition pers_entry :: "nat \<Rightarrow> int \<Rightarrow> pers" where
  "pers_entry n A = pers_empty (pers_new n A)"

subsection \<open>MUST and persistence together\<close>

record mustpers =
  mp_pers :: pers
  mp_must :: acs

definition mp_assign :: "mustpers \<Rightarrow> mustpers \<Rightarrow> mustpers res" where
  "mp_assign m src = rbind (pers_assign (mp_pers m) (mp_pers src)) (\<lambda>p.
     rbind (must_assign (mp_must m) (mp_must src)) (\<lambda>a. Inr \<lparr>mp_pers = p, mp_must = a\<rparr>))"

definition mp_lub :: "mustpers \<Rightarrow> mustpers \<Rightarrow> mustpers res" where
  "mp_lub m d = rbind (pers_lub (mp_pers m) (mp_pers d)) (\<lambda>p.
     rbind (must_lub (mp_must m) (mp_must d)) (\<lambda>a. Inr \<lparr>mp_pers = p, mp_must = a\<rparr>))"

definition mp_equals :: "mustpers \<Rightarrow> mustpers \<Rightarrow> bool res" where
  "mp_equals m d = rbind (pers_equals (mp_pers m) (mp_pers d)) (\<lambda>eq.
     if eq then must_equals (mp_must m) (mp_must d) else Inr False)"

definition mp_empty :: "mustpers \<Rightarrow> mustpers" where
  "mp_empty m = \<lparr>mp_pers = pers_empty (mp_pers m), mp_must = must_empty (mp_must m)\<rparr>"

definition mp_inject :: "mustpers \<Rightarrow> nat \<Rightarrow> mustpers res" where
  "mp_inject m b = rbind (pers_inject (mp_must m) (mp_pers m) b) (\<lambda>p.
     rbind (must_inject (mp_must m) b) (\<lambda>a. Inr \<lparr>mp_pers = p, mp_must = a\<rparr>))"

definition mp_bottom :: "nat \<Rightarrow> int \<Rightarrow> mustpers" where
  "mp_bottom n A = \<lparr>mp_pers = pers_bottom n A, mp_must = must_bottom n A\<rparr>"

definition mp_entry :: "nat \<Rightarrow> int \<Rightarrow> mustpers" where
  "mp_entry n A = \<lparr>mp_pers = pers_entry n A, mp_must = must_entry n A\<rparr>"

definition mp_update :: "mustpers \<Rightarrow> mustpers \<Rightarrow> nat option \<Rightarrow> mustpers res" where
  "mp_update out inp lblock = rbind (mp_assign out inp) (\<lambda>m.
     case lblock of None \<Rightarrow> Inr m | Some b \<Rightarrow> mp_inject m b)"

definition mp_enterContext :: "hai_context \<Rightarrow> mustpers \<Rightarrow> mustpers res" where
  "mp_enterContext ctx m = (if ctx = CTX_LOOP
     then rbind (pers_enterContext (mp_pers m)) (\<lambda>p. Inr (m\<lparr>mp_pers := p\<rparr>)) else Inr m)"

definition mp_leaveContext :: "hai_context \<Rightarrow> mustpers \<Rightarrow> mustpers res" where
  "mp_leaveContext ctx m = (if ctx = CTX_LOOP
     then rbind (pers_leaveContext (mp_pers m)) (\<lambda>p. Inr (m\<lparr>mp_pers := p\<rparr>)) else Inr m)"

subsection \<open>Soundness of items\<close>

definition item_valid :: "nat \<Rightarrow> nat \<Rightarrow> acs \<Rightarrow> bool" where
  "item_valid n A a \<longleftrightarrow> acs_A a = int A \<and> acs_size a = n \<and> 0 < A \<and>
     (\<forall>i < n. -1 \<le> acs_age a ! i \<and> acs_age a ! i \<le> int A)"

definition item_gamma :: "nat \<Rightarrow> acs \<Rightarrow> nat list \<Rightarrow> lru \<Rightarrow> bool" where
  "item_gamma A a tr q \<longleftrightarrow> lru_wf A q \<and> (\<forall>i \<in> set tr. i < acs_size a \<and> acs_age a ! i \<noteq> -1 \<and>
     (acs_age a ! i < int A \<longrightarrow> i \<in> set q \<and> int (lru_age q i) \<le> acs_age a ! i))"

lemma item_inject_nth:
  assumes "item_inject m a b = Inr c"
  shows "b < acs_size m" "b < acs_size a" "acs_A c = acs_A a" "acs_size c = acs_size a"
    "i < acs_size a \<Longrightarrow> acs_age c ! i = (if i = b then 0
       else if acs_age a ! i \<noteq> -1 \<and> acs_age a ! i \<noteq> acs_A a \<and>
            (acs_age m ! b \<noteq> -1 \<longrightarrow> acs_age a ! i < acs_age a ! b)
       then acs_age a ! i + 1 else acs_age a ! i)"
proof -
  show b: "b < acs_size m" "b < acs_size a" and "acs_A c = acs_A a" "acs_size c = acs_size a"
    using assms by (auto simp: item_inject_def must_contains_def Let_def res_simps split: if_splits)
  let ?g = "\<lambda>p x :: int. if x < p \<and> x \<noteq> -1 \<and> x \<noteq> acs_A a then x + 1 else x"
  have hit: "upd_loop (\<lambda>i age. if age ! i < age ! b \<and> age ! i \<noteq> -1 \<and> age ! i \<noteq> acs_A a then age ! i + 1 else age ! i)
      (acs_size a) (acs_age a) ! i = ?g (acs_age a ! b) (acs_age a ! i)" if "i < acs_size a"
    by (subst nth_upd_loop_pivot [where p = b and g = ?g]) (use b that in auto)
  let ?h = "\<lambda>_ x :: int. if x \<noteq> -1 \<and> x \<noteq> acs_A a then x + 1 else x"
  have miss: "upd_loop (\<lambda>i age. if age ! i \<noteq> -1 \<and> age ! i \<noteq> acs_A a then age ! i + 1 else age ! i)
      (acs_size a) (acs_age a) ! i = ?h i (acs_age a ! i)" if "i < acs_size a"
    by (subst nth_upd_loop_map [where g = ?h]) (use that in auto)
  show "acs_age c ! i = (if i = b then 0
       else if acs_age a ! i \<noteq> -1 \<and> acs_age a ! i \<noteq> acs_A a \<and>
            (acs_age m ! b \<noteq> -1 \<longrightarrow> acs_age a ! i < acs_age a ! b)
       then acs_age a ! i + 1 else acs_age a ! i)" if "i < acs_size a"
    using assms b that hit [OF that] miss [OF that]
    by (auto simp: item_inject_def must_contains_def Let_def res_simps split: if_splits)
qed

lemma item_inject_total: "b < acs_size m \<Longrightarrow> b < acs_size a \<Longrightarrow> \<exists>c. item_inject m a b = Inr c"
  by (simp add: item_inject_def must_contains_def Let_def)

lemma item_inject_valid:
  assumes "item_valid n A a" "item_inject m a b = Inr c"
  shows "item_valid n A c"
proof -
  note nth = item_inject_nth [OF assms(2)]
  have A: "acs_A a = int A" "acs_size a = n" "0 < A" using assms(1) by (auto simp: item_valid_def)
  have "-1 \<le> acs_age c ! i \<and> acs_age c ! i \<le> int A" if i: "i < n" for i
  proof -
    have "-1 \<le> acs_age a ! i \<and> acs_age a ! i \<le> int A" using assms(1) i by (simp add: item_valid_def)
    then show ?thesis using nth(5) [of i] i A by auto
  qed
  then show ?thesis using nth(3,4) A by (simp add: item_valid_def)
qed

text \<open>
  An access keeps the meaning of an item when the block is not in the MUST state, or was
  already accessed in the scope of the item.
\<close>

lemma item_inject_sound:
  assumes v: "item_valid n A a" and m: "must_gamma A m q" and i: "item_inject m a b = Inr c"
    and g: "item_gamma A a tr q" and scope: "b \<in> set tr \<or> must_contains m b = Inr False"
  shows "item_gamma A c (b # tr) (lru_access A b q)"
proof -
  note nth = item_inject_nth [OF i]
  have A: "acs_A a = int A" "acs_size a = n" "0 < A" using v by (auto simp: item_valid_def)
  have wf: "lru_wf A q" using g by (simp add: item_gamma_def)
  have tr: "k < n" "acs_age a ! k \<noteq> -1" "acs_age a ! k < int A \<Longrightarrow> k \<in> set q \<and> int (lru_age q k) \<le> acs_age a ! k"
    if "k \<in> set tr" for k
    using g that A by (auto simp: item_gamma_def)
  have "k < n \<and> acs_age c ! k \<noteq> -1 \<and>
      (acs_age c ! k < int A \<longrightarrow> k \<in> set (lru_access A b q) \<and> int (lru_age (lru_access A b q) k) \<le> acs_age c ! k)"
    if k: "k \<in> set (b # tr)" for k
  proof (cases "k = b")
    case True
    then show ?thesis using nth(2,5) A lru_access_self [OF A(3), of b q] by simp
  next
    case False
    then have kt: "k \<in> set tr" using k by simp
    note kn = tr(1,2) [OF kt]
    have r: "-1 \<le> acs_age a ! k" "acs_age a ! k \<le> int A" using v kn by (auto simp: item_valid_def)
    have ck: "acs_age c ! k = (if acs_age a ! k \<noteq> int A \<and> (acs_age m ! b \<noteq> -1 \<longrightarrow> acs_age a ! k < acs_age a ! b)
        then acs_age a ! k + 1 else acs_age a ! k)"
      using nth(5) [of k] kn A False by simp
    have "k \<in> set (lru_access A b q) \<and> int (lru_age (lru_access A b q) k) \<le> acs_age c ! k"
      if lt: "acs_age c ! k < int A"
    proof -
      have "acs_age a ! k < int A" using ck r lt by (auto split: if_splits)
      then have kq: "k \<in> set q" "int (lru_age q k) \<le> acs_age a ! k" using tr(3) [OF kt] by auto
      show ?thesis
      proof (cases "acs_age c ! k = acs_age a ! k + 1")
        case True
        then have "Suc (lru_age q k) < A" using lt kq by linarith
        from lru_access_age_le [OF wf kq(1) this, of b] show ?thesis using True kq by linarith
      next
        case same: False
        then have mb: "acs_age m ! b \<noteq> -1" and le: "acs_age a ! b \<le> acs_age a ! k" and eq: "acs_age c ! k = acs_age a ! k"
          using ck \<open>acs_age a ! k < int A\<close> by (auto split: if_splits)
        have "b \<in> set tr" using scope mb nth(1) by (auto simp: must_contains_def)
        then have bq: "b \<in> set q" "int (lru_age q b) \<le> acs_age a ! b"
          using tr(3) [of b] le \<open>acs_age a ! k < int A\<close> by auto
        then show ?thesis
          using lru_access_hit [OF wf bq(1) False] kq le eq by auto
      qed
    qed
    then show ?thesis using kn ck r by auto
  qed
  then show ?thesis using lru_access_wf [OF wf] nth(4) A by (auto simp: item_gamma_def)
qed

lemma item_lub_nth:
  assumes "item_lub a d = Inr c"
  shows "acs_size a \<le> acs_size d" "acs_A c = acs_A a" "acs_size c = acs_size a"
    "i < acs_size a \<Longrightarrow> acs_age c ! i = (if acs_age a ! i = -1 \<or> acs_age a ! i < acs_age d ! i \<and> acs_age d ! i \<noteq> -1
       then acs_age d ! i else acs_age a ! i)"
proof -
  let ?h = "\<lambda>x y :: int. if x = -1 \<or> x < y \<and> y \<noteq> -1 then y else x"
  have loop: "upd_loop (\<lambda>i age. ?h (age ! i) (acs_age d ! i)) (acs_size a) (acs_age a) ! i =
      ?h (acs_age a ! i) (acs_age d ! i)" if "i < acs_size a"
    by (rule nth_zip_loop) (simp_all add: that)
  show "acs_size a \<le> acs_size d" "acs_A c = acs_A a" "acs_size c = acs_size a"
    using assms by (auto simp: item_lub_def split: if_splits)
  show "acs_age c ! i = (if acs_age a ! i = -1 \<or> acs_age a ! i < acs_age d ! i \<and> acs_age d ! i \<noteq> -1
       then acs_age d ! i else acs_age a ! i)" if "i < acs_size a"
    using assms loop [OF that] by (auto simp: item_lub_def split: if_splits)
qed

lemma item_lub_total: "item_valid n A a \<Longrightarrow> item_valid n A d \<Longrightarrow> \<exists>c. item_lub a d = Inr c"
  by (simp add: item_lub_def item_valid_def)

lemma item_lub_valid:
  assumes "item_valid n A a" "item_valid n A d" "item_lub a d = Inr c"
  shows "item_valid n A c"
  using assms item_lub_nth [OF assms(3)] by (auto simp: item_valid_def)

lemma item_lub_sound:
  assumes "item_valid n A a" "item_valid n A d" "item_lub a d = Inr c" "item_gamma A a tr q \<or> item_gamma A d tr q"
  shows "item_gamma A c tr q"
proof -
  note nth = item_lub_nth [OF assms(3)]
  have sz: "acs_size a = n" "acs_size d = n" using assms(1,2) by (auto simp: item_valid_def)
  have "i < n \<and> acs_age c ! i \<noteq> -1 \<and> (acs_age c ! i < int A \<longrightarrow> i \<in> set q \<and> int (lru_age q i) \<le> acs_age c ! i)"
    if "i \<in> set tr" for i
    using nth(4) [of i] sz assms(4) that by (auto simp: item_gamma_def split: if_splits)
  then show ?thesis using assms(4) nth(3) sz by (auto simp: item_gamma_def)
qed

text \<open>A FIRST MISS verdict: a persistent block that was accessed in the scope is still cached.\<close>

lemma item_persistent_hit:
  assumes "item_valid n A a" "item_gamma A a tr q" "item_isPersistent a b = Inr True" "b \<in> set tr"
  shows "b \<in> set q"
proof -
  have "b < n" "acs_age a ! b \<noteq> int A"
    using assms(1,3) by (auto simp: item_isPersistent_def item_contains_def item_isWiped_def item_valid_def res_simps)
  then have "acs_age a ! b < int A" using assms(1) by (fastforce simp: item_valid_def)
  then show ?thesis using assms(2,4) by (auto simp: item_gamma_def)
qed

subsection \<open>Soundness of the stack\<close>

lemma data_loop_map:
  assumes "\<And>a. a \<in> set xs \<Longrightarrow> f a = Inr (h a)"
  shows "rfold (\<lambda>i ys. data_upd i f ys) [0..<length xs] xs = Inr (map h xs)"
proof -
  have "\<exists>t. rfold (\<lambda>i ys. data_upd i f ys) [0..<length xs] xs = Inr t \<and>
      t = map h (take (length [0..<length xs]) xs) @ drop (length [0..<length xs]) xs"
  proof (rule rfold_invariant [where P = "\<lambda>pre t. t = map h (take (length pre) xs) @ drop (length pre) xs"])
    fix pre i post t
    assume sp: "[0..<length xs] = pre @ i # post" and t: "t = map h (take (length pre) xs) @ drop (length pre) xs"
    have lt: "length pre < length xs" using arg_cong [OF sp, of length] by simp
    have "[0..<length xs] ! length pre = i" using sp by simp
    then have i: "i = length pre" using lt by simp
    have dr: "drop i xs = xs ! i # drop (Suc i) xs" using lt i by (simp add: Cons_nth_drop_Suc)
    have "i < length t" "t ! i = xs ! i" using t lt i by (simp_all add: nth_append)
    then have "data_upd i f t = Inr (t[i := h (xs ! i)])"
      using assms [of "xs ! i"] lt i by (simp add: data_upd_def data_at_def)
    moreover have "t[i := h (xs ! i)] = map h (take (Suc i) xs) @ drop (Suc i) xs"
      using t i lt dr by (simp add: list_update_append take_Suc_conv_app_nth)
    ultimately show "\<exists>t'. data_upd i f t = Inr t' \<and> t' = map h (take (length (pre @ [i])) xs) @ drop (length (pre @ [i])) xs"
      using i by simp
  qed simp
  then show ?thesis by simp
qed

lemma discard_null_id: "discard_null k xs = xs"
proof -
  have "((remove_value None) ^^ k) (map Some xs) = map Some xs"
    by (induction k) (simp_all add: remove_value_def remove1_idem)
  then show ?thesis by (simp add: discard_null_def comp_def)
qed

definition pers_valid :: "nat \<Rightarrow> nat \<Rightarrow> pers \<Rightarrow> bool" where
  "pers_valid n A p \<longleftrightarrow> \<not> pd_bottom p \<and> pd_A p = int A \<and> pd_size p = n \<and> item_valid n A (pd_whole p) \<and>
     (\<forall>a \<in> set (pd_data p). item_valid n A a)"

text \<open>\<open>trs\<close> are the accesses of each enclosing loop's scope, \<open>w\<close> those of the whole program.\<close>

definition pers_gamma :: "nat \<Rightarrow> pers \<Rightarrow> nat list list \<Rightarrow> nat list \<Rightarrow> lru \<Rightarrow> bool" where
  "pers_gamma A p trs w q \<longleftrightarrow> item_gamma A (pd_whole p) w q \<and>
     list_all2 (\<lambda>a tr. item_gamma A a tr q) (pd_data p) trs"

lemma persistent_level_hit:
  assumes "pers_valid n A p" "pers_gamma A p trs w q" "pers_isPersistent p x k = Inr True"
  shows "k < length trs \<and> (x \<in> set (trs ! k) \<longrightarrow> x \<in> set q)"
proof -
  have l: "length (pd_data p) = length trs" using assms(2) by (auto simp: pers_gamma_def dest: list_all2_lengthD)
  have k: "k < length (pd_data p)" "item_isPersistent (pd_data p ! k) x = Inr True"
    using assms(3) by (auto simp: pers_isPersistent_def data_at_def res_simps)
  have "item_valid n A (pd_data p ! k)" "item_gamma A (pd_data p ! k) (trs ! k) q"
    using assms(1,2) k(1) l by (auto simp: pers_valid_def pers_gamma_def list_all2_conv_all_nth)
  then show ?thesis using item_persistent_hit k l by auto
qed

definition injected :: "acs \<Rightarrow> nat \<Rightarrow> acs \<Rightarrow> acs" where
  "injected m b a = projr (item_inject m a b)"

lemma injected_eq: "b < acs_size m \<Longrightarrow> b < acs_size a \<Longrightarrow> item_inject m a b = Inr (injected m b a)"
  using item_inject_total [of b m a] by (auto simp: injected_def)

lemma pers_inject_eval:
  assumes "pers_valid n A p" "b < acs_size m" "b < n"
  shows "pers_inject m p b = Inr (p\<lparr>pd_data := map (injected m b) (pd_data p), pd_whole := injected m b (pd_whole p)\<rparr>)"
proof -
  have "item_inject m a b = Inr (injected m b a)" if "item_valid n A a" for a
    using that assms injected_eq by (simp add: item_valid_def)
  then show ?thesis
    using assms data_loop_map [of "pd_data p" "\<lambda>a. item_inject m a b" "injected m b"]
    by (simp add: pers_inject_def pers_valid_def)
qed

lemma pers_inject_sound:
  assumes v: "pers_valid n A p" and m: "must_gamma A m q" "b < acs_size m" "b < n"
    and g: "pers_gamma A p trs w q"
    and scope: "\<And>tr. tr \<in> insert w (set trs) \<Longrightarrow> b \<in> set tr \<or> must_contains m b = Inr False"
  shows "\<exists>p'. pers_inject m p b = Inr p' \<and> pers_valid n A p' \<and>
    pers_gamma A p' (map ((#) b) trs) (b # w) (lru_access A b q)"
proof -
  have it: "item_valid n A (injected m b a)"
      "item_gamma A a tr q \<Longrightarrow> b \<in> set tr \<or> must_contains m b = Inr False \<Longrightarrow>
        item_gamma A (injected m b a) (b # tr) (lru_access A b q)"
    if "item_valid n A a" for a tr
  proof -
    have e: "item_inject m a b = Inr (injected m b a)" using that m injected_eq by (simp add: item_valid_def)
    show "item_valid n A (injected m b a)" by (rule item_inject_valid [OF that e])
    show "item_gamma A a tr q \<Longrightarrow> b \<in> set tr \<or> must_contains m b = Inr False \<Longrightarrow>
        item_gamma A (injected m b a) (b # tr) (lru_access A b q)"
      by (rule item_inject_sound [OF that m(1) e])
  qed
  let ?p = "p\<lparr>pd_data := map (injected m b) (pd_data p), pd_whole := injected m b (pd_whole p)\<rparr>"
  have "pers_valid n A ?p" using v it(1) by (auto simp: pers_valid_def)
  moreover have "list_all2 (\<lambda>a tr. item_gamma A a tr (lru_access A b q)) (map (injected m b) (pd_data p)) (map ((#) b) trs)"
    using g v scope it(2) unfolding pers_gamma_def pers_valid_def list_all2_conv_all_nth
    by (metis (no_types, lifting) insertCI length_map nth_map nth_mem)
  ultimately show ?thesis
    using pers_inject_eval [OF v m(2,3)] g v scope [of w] it(2) [of "pd_whole p" w]
    by (auto simp: pers_gamma_def pers_valid_def)
qed

text \<open>Entering a loop opens an empty scope; leaving it gives back the outer scopes.\<close>

lemma pers_enter_sound:
  assumes "pers_valid n A p" "pers_gamma A p trs w q" "0 < A"
  shows "\<exists>p'. pers_enterContext p = Inr p' \<and> pers_valid n A p' \<and> pers_gamma A p' (trs @ [[]]) w q"
proof -
  have "item_empty (item_new n (int A)) = \<lparr>acs_A = int A, acs_age = replicate n (-1)\<rparr>"
    using fill_loop_eq [of "-1" "replicate n (-1 :: int)"] by (simp add: item_empty_def item_new_def)
  moreover have "lru_wf A q" using assms(2) by (simp add: pers_gamma_def item_gamma_def)
  ultimately have it: "item_valid n A (item_empty (item_new n (int A)))" "item_gamma A (item_empty (item_new n (int A))) [] q"
    using assms(3) by (simp_all add: item_valid_def item_gamma_def)
  have "list_all2 (\<lambda>a tr. item_gamma A a tr q) (pd_data p @ [item_empty (item_new n (int A))]) (trs @ [[]])"
    using assms(2) it(2) by (intro list_all2_appendI) (auto simp: pers_gamma_def)
  then show ?thesis
    using assms(1,2) it(1) by (auto simp: pers_enterContext_def pers_valid_def pers_gamma_def)
qed

lemma pers_leave_sound:
  assumes "pers_valid n A p" "pers_gamma A p (trs @ [tr]) w q"
  shows "\<exists>p'. pers_leaveContext p = Inr p' \<and> pers_valid n A p' \<and> pers_gamma A p' trs w q"
proof -
  obtain us a where "pd_data p = us @ [a]" "list_all2 (\<lambda>a tr. item_gamma A a tr q) us trs"
    using assms(2) by (auto simp: pers_gamma_def list_all2_append2 list_all2_Cons2)
  then have "pd_data p \<noteq> []" and b: "list_all2 (\<lambda>a tr. item_gamma A a tr q) (butlast (pd_data p)) trs"
    by auto
  then show ?thesis
    using assms by (auto simp: pers_leaveContext_def pers_valid_def pers_gamma_def dest: in_set_butlastD)
qed

lemma enter_leave:
  assumes "pers_enterContext p = Inr p'"
  shows "pers_leaveContext p' = Inr p"
  using assms by (auto simp: pers_enterContext_def pers_leaveContext_def res_simps)

text \<open>The MUST state and the persistence advance together.\<close>

lemma mp_inject_sound:
  assumes v: "pers_valid n A (mp_pers m)" "must_valid n A (mp_must m)" and b: "b < n"
    and g: "must_gamma A (mp_must m) q" "pers_gamma A (mp_pers m) trs w q"
    and scope: "\<And>tr. tr \<in> insert w (set trs) \<Longrightarrow> b \<in> set tr \<or> must_contains (mp_must m) b = Inr False"
  shows "\<exists>m'. mp_inject m b = Inr m' \<and> pers_valid n A (mp_pers m') \<and> must_valid n A (mp_must m') \<and>
    must_gamma A (mp_must m') (lru_access A b q) \<and>
    pers_gamma A (mp_pers m') (map ((#) b) trs) (b # w) (lru_access A b q)"
proof -
  have bm: "b < acs_size (mp_must m)" using v(2) b by (simp add: must_valid_def)
  obtain p where p: "pers_inject (mp_must m) (mp_pers m) b = Inr p" "pers_valid n A p"
      "pers_gamma A p (map ((#) b) trs) (b # w) (lru_access A b q)"
    using pers_inject_sound [OF v(1) g(1) bm b g(2) scope] by blast
  obtain a where "must_inject (mp_must m) b = Inr a" using must_inject_total [OF bm] by blast
  then show ?thesis
    using p must_inject_valid [OF v(2)] must_inject_sound [OF v(2) _ g(1)] by (auto simp: mp_inject_def)
qed

text \<open>Merging two states of the same loop level keeps the executions of both.\<close>

definition lubbed :: "acs \<Rightarrow> acs \<Rightarrow> acs" where
  "lubbed a d = projr (item_lub a d)"

lemma lubbed_eq: "item_valid n A a \<Longrightarrow> item_valid n A d \<Longrightarrow> item_lub a d = Inr (lubbed a d)"
  using item_lub_total [of n A a d] by (auto simp: lubbed_def)

lemma lub_loop:
  assumes "length ys = length xs" "\<And>i. i < length xs \<Longrightarrow> item_lub (xs ! i) (ys ! i) = Inr (lubbed (xs ! i) (ys ! i))"
  shows "rfold (\<lambda>k zs. rbind (data_at ys (length ys - 1 - k)) (\<lambda>b. data_upd (length xs - 1 - k) (\<lambda>a. item_lub a b) zs))
    [0..<length xs] xs = Inr (map2 lubbed xs ys)"
proof -
  let ?l = "length xs"
  let ?P = "\<lambda>pre t. length t = ?l \<and> (\<forall>i < ?l. t ! i = (if ?l - length pre \<le> i then lubbed (xs ! i) (ys ! i) else xs ! i))"
  have "\<exists>t. rfold (\<lambda>k zs. rbind (data_at ys (length ys - 1 - k)) (\<lambda>b. data_upd (?l - 1 - k) (\<lambda>a. item_lub a b) zs))
      [0..<?l] xs = Inr t \<and> ?P [0..<?l] t"
  proof (rule rfold_invariant)
    show "?P [] xs" by simp
    fix pre k post t assume sp: "[0..<?l] = pre @ k # post" and t: "?P pre t"
    have lt: "length pre < ?l" using arg_cong [OF sp, of length] by simp
    have "[0..<?l] ! length pre = k" using sp by simp
    then have k: "k = length pre" using lt by simp
    let ?i = "?l - 1 - k"
    have i: "?i < ?l" "t ! ?i = xs ! ?i" using lt k t by auto
    have "data_upd ?i (\<lambda>a. item_lub a (ys ! ?i)) t = Inr (t[?i := lubbed (xs ! ?i) (ys ! ?i)])"
      using i t assms(2) [OF i(1)] by (simp add: data_upd_def data_at_def)
    moreover have "?P (pre @ [k]) (t[?i := lubbed (xs ! ?i) (ys ! ?i)])"
      using t lt k by (auto simp: nth_list_update)
    ultimately show "\<exists>t'. rbind (data_at ys (length ys - 1 - k)) (\<lambda>b. data_upd ?i (\<lambda>a. item_lub a b) t) = Inr t' \<and> ?P (pre @ [k]) t'"
      using assms(1) i(1) by (simp add: data_at_def)
  qed
  then obtain t where "rfold (\<lambda>k zs. rbind (data_at ys (length ys - 1 - k)) (\<lambda>b. data_upd (?l - 1 - k) (\<lambda>a. item_lub a b) zs))
      [0..<?l] xs = Inr t" "?P [0..<?l] t" by blast
  moreover from this(2) have "t = map2 lubbed xs ys" using assms(1) by (intro nth_equalityI) auto
  ultimately show ?thesis by simp
qed

lemma pers_lub_sound:
  assumes v: "pers_valid n A p" "pers_valid n A d" and len: "length (pd_data p) = length (pd_data d)"
  shows "\<exists>c. pers_lub p d = Inr c \<and> pers_valid n A c \<and>
    (\<forall>trs w q. pers_gamma A p trs w q \<or> pers_gamma A d trs w q \<longrightarrow> pers_gamma A c trs w q)"
proof -
  let ?xs = "pd_data p" and ?ys = "pd_data d"
  let ?c = "p\<lparr>pd_data := map2 lubbed ?xs ?ys, pd_whole := lubbed (pd_whole p) (pd_whole d)\<rparr>"
  have w: "item_valid n A (pd_whole p)" "item_valid n A (pd_whole d)" using v by (auto simp: pers_valid_def)
  have iv: "item_valid n A (?xs ! i) \<and> item_valid n A (?ys ! i)" if "i < length ?xs" for i
    using v len that by (auto simp: pers_valid_def)
  have "item_lub (?xs ! i) (?ys ! i) = Inr (lubbed (?xs ! i) (?ys ! i))" if "i < length ?xs" for i
    using lubbed_eq iv [OF that] by blast
  from lub_loop [OF len [symmetric] this] have "pers_lub p d = Inr ?c"
    using v len lubbed_eq [OF w] by (simp add: pers_lub_def pers_valid_def Let_def discard_null_id)
  moreover have "pers_valid n A ?c"
  proof -
    have lv: "item_valid n A (lubbed a b)" if "item_valid n A a" "item_valid n A b" for a b
      by (rule item_lub_valid [OF that lubbed_eq [OF that]])
    have "item_valid n A x" if x: "x \<in> set (map2 lubbed ?xs ?ys)" for x
    proof -
      obtain i where "i < length ?xs" "x = lubbed (?xs ! i) (?ys ! i)" using x len by (auto simp: set_zip)
      then show ?thesis using iv lv by blast
    qed
    then show ?thesis using v(1) lv [OF w] by (simp add: pers_valid_def)
  qed
  moreover have "pers_gamma A ?c trs t q" if "pers_gamma A p trs t q \<or> pers_gamma A d trs t q" for trs t q
  proof -
    have "item_gamma A (lubbed (pd_whole p) (pd_whole d)) t q"
      using that item_lub_sound [OF w lubbed_eq [OF w]] by (auto simp: pers_gamma_def)
    moreover have "item_gamma A (lubbed (?xs ! i) (?ys ! i)) (trs ! i) q" if i: "i < length ?xs" for i
    proof -
      have v: "item_valid n A (?xs ! i)" "item_valid n A (?ys ! i)" using iv [OF i] by auto
      have "item_gamma A (?xs ! i) (trs ! i) q \<or> item_gamma A (?ys ! i) (trs ! i) q"
        using \<open>pers_gamma A p trs t q \<or> pers_gamma A d trs t q\<close> i len
        by (auto simp: pers_gamma_def list_all2_conv_all_nth)
      then show ?thesis by (rule item_lub_sound [OF v lubbed_eq [OF v]])
    qed
    ultimately show ?thesis
      using that len by (auto simp: pers_gamma_def list_all2_conv_all_nth)
  qed
  ultimately show ?thesis by blast
qed

text \<open>
  Without the scope condition the verdict can be wrong: in a set of two ways, block 0 is
  loaded before a loop whose body accesses 1, 0 and 2. Block 0 is in the MUST state but not
  in the loop's item, so its access ages nothing there; the item then calls block 1
  persistent although the access to 2 has evicted it.
\<close>

lemma persistence_too_optimistic:
  "rbind (mp_inject (mp_entry 3 2) 0) (\<lambda>m. rbind (mp_enterContext CTX_LOOP m) (\<lambda>m.
     rbind (rfold (\<lambda>b m. mp_inject m b) [1, 0, 2] m) (\<lambda>m. pers_isPersistent (mp_pers m) 1 0))) = Inr True \<and>
   1 \<notin> set (fold (lru_access 2) [0, 1, 0, 2] [])"
  by code_simp

end
