(* ===== verification/Cache_Cat2.thy ===== *)
theory Cache_Cat2
  imports Cache_Pers
begin

text \<open>
  From abstract cache states to categories: the first and last l-block of each set in a
  basic block (otawa/src/prog/cache_FirstLastBuilder.cpp) and the categories of the l-blocks
  (otawa/src/prog/cache_CAT2Builder.cpp). An l-block is described by its identifier in the
  set, its cache block, its address and its basic block; the loop annotations are functions
  from block numbers.
\<close>

subsection \<open>First and last l-blocks\<close>

record lblock =
  lb_id :: nat
  lb_cacheblock :: nat
  lb_addr :: nat
  lb_bb :: nat

text \<open>
  The loop over the l-blocks of a basic block keeps, for each cache line, the l-block of
  greatest and of least address seen so far.
\<close>

definition firstlast_step ::
  "(nat \<Rightarrow> nat) \<Rightarrow> lblock \<Rightarrow> (nat \<Rightarrow> lblock option) \<times> (nat \<Rightarrow> lblock option) \<Rightarrow>
   (nat \<Rightarrow> lblock option) \<times> (nat \<Rightarrow> lblock option)" where
  "firstlast_step cache_line lb mm =
     (let line = cache_line (lb_addr lb); (mx, mn) = mm;
          mx' = (case mx line of None \<Rightarrow> mx(line := Some lb)
                 | Some m \<Rightarrow> if lb_addr lb > lb_addr m then mx(line := Some lb) else mx);
          mn' = (case mn line of None \<Rightarrow> mn(line := Some lb)
                 | Some m \<Rightarrow> if lb_addr lb < lb_addr m then mn(line := Some lb) else mn)
      in (mx', mn'))"

definition firstlast :: "(nat \<Rightarrow> nat) \<Rightarrow> lblock list \<Rightarrow> (nat \<Rightarrow> lblock option) \<times> (nat \<Rightarrow> lblock option)" where
  "firstlast cache_line lbs = fold (firstlast_step cache_line) lbs (\<lambda>_. None, \<lambda>_. None)"

definition LAST_LBLOCK :: "(nat \<Rightarrow> nat) \<Rightarrow> lblock list \<Rightarrow> nat \<Rightarrow> lblock option" where
  "LAST_LBLOCK cache_line lbs line = fst (firstlast cache_line lbs) line"

definition LBLOCK_ISFIRST :: "(nat \<Rightarrow> nat) \<Rightarrow> lblock list \<Rightarrow> lblock \<Rightarrow> bool" where
  "LBLOCK_ISFIRST cache_line lbs lb \<longleftrightarrow> snd (firstlast cache_line lbs) (cache_line (lb_addr lb)) = Some lb"

definition is_extreme :: "(nat \<Rightarrow> nat \<Rightarrow> bool) \<Rightarrow> (nat \<Rightarrow> nat) \<Rightarrow> lblock list \<Rightarrow> (nat \<Rightarrow> lblock option) \<Rightarrow> bool" where
  "is_extreme le cache_line lbs m \<longleftrightarrow>
     (\<forall>line. case m line of
        None \<Rightarrow> \<forall>lb \<in> set lbs. cache_line (lb_addr lb) \<noteq> line
      | Some x \<Rightarrow> x \<in> set lbs \<and> cache_line (lb_addr x) = line \<and>
          (\<forall>lb \<in> set lbs. cache_line (lb_addr lb) = line \<longrightarrow> le (lb_addr lb) (lb_addr x)))"

lemma firstlast_extreme:
  "is_extreme (\<le>) cl lbs (fst (firstlast cl lbs)) \<and> is_extreme (\<ge>) cl lbs (snd (firstlast cl lbs))"
proof (induction lbs rule: rev_induct)
  case Nil
  then show ?case by (simp add: firstlast_def is_extreme_def)
next
  case (snoc lb lbs)
  obtain mx mn where m: "firstlast cl lbs = (mx, mn)" by fastforce
  have s: "firstlast cl (lbs @ [lb]) = firstlast_step cl lb (mx, mn)"
    using m by (simp add: firstlast_def)
  have IH: "is_extreme (\<le>) cl lbs mx" "is_extreme (\<ge>) cl lbs mn" using snoc m by auto
  have ext: "is_extreme le cl (lbs @ [lb]) (case m (cl (lb_addr lb)) of None \<Rightarrow> m(cl (lb_addr lb) := Some lb)
       | Some x \<Rightarrow> if \<not> le (lb_addr lb) (lb_addr x) then m(cl (lb_addr lb) := Some lb) else m)"
    if IH: "is_extreme le cl lbs m" and le: "\<And>a b c. le a b \<Longrightarrow> le b c \<Longrightarrow> le a c" "\<And>a b. le a b \<or> le b a" for le m
  proof -
    have refl: "le a a" for a using le(2) by blast
    show ?thesis
      unfolding is_extreme_def
    proof
      fix line
      have I: "case m line of None \<Rightarrow> \<forall>lb \<in> set lbs. cl (lb_addr lb) \<noteq> line
        | Some x \<Rightarrow> x \<in> set lbs \<and> cl (lb_addr x) = line \<and>
          (\<forall>lb \<in> set lbs. cl (lb_addr lb) = line \<longrightarrow> le (lb_addr lb) (lb_addr x))"
        using IH unfolding is_extreme_def by blast
      show "case (case m (cl (lb_addr lb)) of None \<Rightarrow> m(cl (lb_addr lb) := Some lb)
         | Some x \<Rightarrow> if \<not> le (lb_addr lb) (lb_addr x) then m(cl (lb_addr lb) := Some lb) else m) line of
          None \<Rightarrow> \<forall>lb \<in> set (lbs @ [lb]). cl (lb_addr lb) \<noteq> line
        | Some x \<Rightarrow> x \<in> set (lbs @ [lb]) \<and> cl (lb_addr x) = line \<and>
          (\<forall>lb \<in> set (lbs @ [lb]). cl (lb_addr lb) = line \<longrightarrow> le (lb_addr lb) (lb_addr x))"
      proof (cases "line = cl (lb_addr lb)")
        case True
        show ?thesis
        proof (cases "m line")
          case None
          then show ?thesis using I True refl by auto
        next
          case (Some x)
          have "le (lb_addr y) (lb_addr lb)" if "y \<in> set lbs" "cl (lb_addr y) = line" "\<not> le (lb_addr lb) (lb_addr x)" for y
          proof (rule le(1))
            show "le (lb_addr y) (lb_addr x)" using I Some that by auto
            show "le (lb_addr x) (lb_addr lb)" using le(2) that(3) by blast
          qed
          then show ?thesis using I True Some refl by auto
        qed
      next
        case False
        then show ?thesis using I by (cases "m (cl (lb_addr lb))") (auto split: option.splits)
      qed
    qed
  qed
  have "fst (firstlast_step cl lb (mx, mn)) = (case mx (cl (lb_addr lb)) of None \<Rightarrow> mx(cl (lb_addr lb) := Some lb)
       | Some x \<Rightarrow> if \<not> lb_addr lb \<le> lb_addr x then mx(cl (lb_addr lb) := Some lb) else mx)"
    "snd (firstlast_step cl lb (mx, mn)) = (case mn (cl (lb_addr lb)) of None \<Rightarrow> mn(cl (lb_addr lb) := Some lb)
       | Some x \<Rightarrow> if \<not> lb_addr lb \<ge> lb_addr x then mn(cl (lb_addr lb) := Some lb) else mn)"
    by (auto simp: firstlast_step_def Let_def not_le split: option.splits)
  then show ?case using ext [OF IH(1)] ext [OF IH(2)] unfolding s by force
qed

subsection \<open>Categories\<close>

datatype category = INVALID_CATEGORY | ALWAYS_HIT | FIRST_HIT | FIRST_MISS | ALWAYS_MISS | NOT_CLASSIFIED

datatype fmlevel = FML_INNER | FML_OUTER | FML_MULTI | FML_NONE

text \<open>
  The persistence loop runs from the innermost level outwards while there is an enclosing
  loop; it does not stop at the first level where the block is not persistent.
\<close>

fun fm_scan :: "pers \<Rightarrow> nat \<Rightarrow> (nat \<Rightarrow> nat option) \<Rightarrow> nat list \<Rightarrow> nat option \<Rightarrow>
    category \<times> nat option \<times> bool \<Rightarrow> (category \<times> nat option \<times> bool) res" where
  "fm_scan p b enclosing [] header st = Inr st"
| "fm_scan p b enclosing (k # ks) header (cat, cat_header, perfect) =
     (case header of
        None \<Rightarrow> Inr (cat, cat_header, perfect)
      | Some h \<Rightarrow> rbind (pers_isPersistent p b k) (\<lambda>per.
          fm_scan p b enclosing ks (enclosing h)
            (if per then (FIRST_MISS, Some h, perfect) else (cat, cat_header, False))))"

definition cat2_lblock ::
  "fmlevel \<Rightarrow> (nat \<Rightarrow> bool) \<Rightarrow> (nat \<Rightarrow> nat option) \<Rightarrow> acs \<Rightarrow> acs option \<Rightarrow> pers \<Rightarrow> bool \<Rightarrow> lblock \<Rightarrow>
   (category \<times> nat option) res" where
  "cat2_lblock level loop_header enclosing must may pers first lb =
     (if \<not> first then Inr (ALWAYS_MISS, None)
      else let cat = (if may \<noteq> None then NOT_CLASSIFIED else ALWAYS_MISS); b = lb_cacheblock lb in
        rbind (must_contains must b) (\<lambda>mu.
        if mu then Inr (ALWAYS_HIT, None)
        else rbind (case may of None \<Rightarrow> Inr False | Some m \<Rightarrow> rbind (may_contains m b) (\<lambda>c. Inr (\<not> c))) (\<lambda>absent.
        if absent then Inr (ALWAYS_MISS, None)
        else if level = FML_NONE then Inr (cat, None)
        else let header = (if loop_header (lb_bb lb) then Some (lb_bb lb) else enclosing (lb_bb lb)) in
          rbind (pers_length pers) (\<lambda>len.
          let bound = (if len > 1 \<and> level = FML_INNER then len - 1 else 0) in
          rbind (fm_scan pers b enclosing (rev [bound..<len]) header (cat, None, True)) (\<lambda>(c, h, perfect).
            Inr (if level = FML_OUTER \<and> \<not> perfect then ALWAYS_MISS else c, h))))))"

record cat_counts =
  total_cnt :: nat
  ah_cnt :: nat
  am_cnt :: nat
  pers_cnt :: nat
  nc_cnt :: nat

definition count_cat :: "category \<Rightarrow> cat_counts \<Rightarrow> cat_counts" where
  "count_cat c s = (let s = s\<lparr>total_cnt := total_cnt s + 1\<rparr> in
     case c of ALWAYS_HIT \<Rightarrow> s\<lparr>ah_cnt := ah_cnt s + 1\<rparr>
       | ALWAYS_MISS \<Rightarrow> s\<lparr>am_cnt := am_cnt s + 1\<rparr>
       | FIRST_MISS \<Rightarrow> s\<lparr>pers_cnt := pers_cnt s + 1\<rparr>
       | NOT_CLASSIFIED \<Rightarrow> s\<lparr>nc_cnt := nc_cnt s + 1\<rparr>
       | _ \<Rightarrow> s)"

text \<open>
  The set's l-blocks in order; the first and the last one are markers without code. \<open>acss\<close>
  gives the states of a basic block, \<open>isfirst\<close> the annotation of the l-blocks.
\<close>

definition cat2_set ::
  "fmlevel \<Rightarrow> (nat \<Rightarrow> bool) \<Rightarrow> (nat \<Rightarrow> nat option) \<Rightarrow> (nat \<Rightarrow> acs \<times> acs option \<times> pers) \<Rightarrow> (lblock \<Rightarrow> bool) \<Rightarrow>
   lblock list \<Rightarrow> (lblock \<times> category \<times> nat option) list \<times> cat_counts \<Rightarrow>
   ((lblock \<times> category \<times> nat option) list \<times> cat_counts) res" where
  "cat2_set level loop_header enclosing acss isfirst lbset st =
     rfold (\<lambda>lb (cats, s).
       if lb_id lb = 0 \<or> lb_id lb = length lbset - 1 then Inr (cats, s)
       else let (must, may, pers) = acss (lb_bb lb) in
         rbind (cat2_lblock level loop_header enclosing must may pers (isfirst lb) lb) (\<lambda>(c, h).
           Inr (cats @ [(lb, c, h)], count_cat c s))) lbset st"

subsection \<open>What the categories promise\<close>

lemma fm_scan_persistent:
  assumes "fm_scan p b enc ks h (cat, ch, pf) = Inr (c, ch', pf')" "cat \<noteq> FIRST_MISS"
  shows "c = cat \<and> ch' = ch \<or> c = FIRST_MISS \<and> (\<exists>k \<in> set ks. pers_isPersistent p b k = Inr True)"
proof -
  have "c = cat \<and> ch' = ch \<or> c = FIRST_MISS \<and> (cat = FIRST_MISS \<or> (\<exists>k \<in> set ks. pers_isPersistent p b k = Inr True))"
    using assms(1)
  proof (induction p b enc ks h "(cat, ch, pf)" arbitrary: cat ch pf rule: fm_scan.induct)
    case (1 p b enc header)
    then show ?case by simp
  next
    case (2 p b enc k ks header cat ch pf)
    show ?case
    proof (cases header)
      case None
      then show ?thesis using 2(2) by simp
    next
      case (Some h)
      then obtain per where per: "pers_isPersistent p b k = Inr per"
        and r: "fm_scan p b enc ks (enc h) (if per then (FIRST_MISS, Some h, pf) else (cat, ch, False)) = Inr (c, ch', pf')"
        using 2(2) by (auto simp: res_simps)
      show ?thesis using 2(1) [OF Some, of per] per r by (cases per) auto
    qed
  qed
  then show ?thesis using assms(2) by blast
qed

lemma cat2_cases:
  assumes "cat2_lblock level lh enc must may pers True lb = Inr (c, h)"
  shows "must_contains must (lb_cacheblock lb) = Inr True \<and> c = ALWAYS_HIT \<or>
    must_contains must (lb_cacheblock lb) = Inr False \<and>
      ((\<exists>m. may = Some m \<and> may_contains m (lb_cacheblock lb) = Inr False) \<and> c = ALWAYS_MISS \<or>
       c = FIRST_MISS \<and> (\<exists>k. pers_isPersistent pers (lb_cacheblock lb) k = Inr True) \<or>
       c = (if may \<noteq> None then NOT_CLASSIFIED else ALWAYS_MISS) \<or>
       level = FML_OUTER \<and> c = ALWAYS_MISS)"
proof -
  define cat where "cat = (if may \<noteq> None then NOT_CLASSIFIED else ALWAYS_MISS)"
  obtain mu where mu: "must_contains must (lb_cacheblock lb) = Inr mu"
    using assms(1) by (auto simp: cat2_lblock_def Let_def res_simps)
  show ?thesis
  proof (cases mu)
    case True
    then show ?thesis using assms(1) mu by (simp add: cat2_lblock_def Let_def)
  next
    case False
    obtain absent where ab:
      "(case may of None \<Rightarrow> Inr False | Some m \<Rightarrow> rbind (may_contains m (lb_cacheblock lb)) (\<lambda>c. Inr (\<not> c))) = Inr absent"
      using assms(1) mu False by (auto simp: cat2_lblock_def Let_def res_simps)
    show ?thesis
    proof (cases "absent \<or> level = FML_NONE")
      case True
      then show ?thesis
        using assms(1) mu False ab
        by (auto simp: cat2_lblock_def Let_def res_simps split: if_splits option.splits)
    next
      case go: False
      define header where "header = (if lh (lb_bb lb) then Some (lb_bb lb) else enc (lb_bb lb))"
      obtain len where len: "pers_length pers = Inr len"
        using assms(1) mu False ab go by (auto simp: cat2_lblock_def Let_def res_simps)
      define bound where "bound = (if len > 1 \<and> level = FML_INNER then len - 1 else 0)"
      obtain c' hh pf where sc: "fm_scan pers (lb_cacheblock lb) enc (rev [bound..<len]) header (cat, None, True) = Inr (c', hh, pf)"
        and c: "c = (if level = FML_OUTER \<and> \<not> pf then ALWAYS_MISS else c')"
        using assms(1) mu False ab go len
        by (auto simp: cat2_lblock_def Let_def res_simps header_def bound_def cat_def)
      have "cat \<noteq> FIRST_MISS" by (simp add: cat_def)
      from fm_scan_persistent [OF sc this] show ?thesis using mu False c by (auto simp: cat_def)
    qed
  qed
qed

lemma cat2_not_first: "cat2_lblock level lh enc must may pers False lb = Inr (ALWAYS_MISS, None)"
  by (simp add: cat2_lblock_def)

text \<open>The counters of a set add up.\<close>

definition counts_ok :: "cat_counts \<Rightarrow> bool" where
  "counts_ok s \<longleftrightarrow> total_cnt s = ah_cnt s + am_cnt s + pers_cnt s + nc_cnt s"

lemma cat2_lblock_counted:
  assumes "cat2_lblock level lh enc must may pers first lb = Inr (c, h)"
  shows "c \<in> {ALWAYS_HIT, ALWAYS_MISS, FIRST_MISS, NOT_CLASSIFIED}"
  using assms cat2_cases [of level lh enc must may pers lb c h] cat2_not_first [of level lh enc must may pers lb]
  by (cases first) (auto split: if_splits)

lemma cat2_set_counts:
  assumes "cat2_set level lh enc acss isfirst lbset (cats, s) = Inr (cats', s')" "counts_ok s"
  shows "counts_ok s' \<and> total_cnt s' - total_cnt s = length cats' - length cats"
proof -
  let ?f = "\<lambda>lb (cats, s).
       if lb_id lb = 0 \<or> lb_id lb = length lbset - 1 then Inr (cats, s)
       else let (must, may, pers) = acss (lb_bb lb) in
         rbind (cat2_lblock level lh enc must may pers (isfirst lb) lb) (\<lambda>(c, h).
           Inr (cats @ [(lb, c, h)], count_cat c s))"
  have "rfold ?f xs (cats, s) = Inr (cats', s') \<Longrightarrow> counts_ok s \<Longrightarrow>
      counts_ok s' \<and> total_cnt s' + length cats = total_cnt s + length cats'" for xs
  proof (induction xs arbitrary: cats s)
    case Nil
    then show ?case by simp
  next
    case (Cons lb xs)
    then obtain cats1 s1 where st: "?f lb (cats, s) = Inr (cats1, s1)" "rfold ?f xs (cats1, s1) = Inr (cats', s')"
      by (auto simp: res_simps)
    have "counts_ok s1 \<and> total_cnt s1 + length cats = total_cnt s + length cats1"
    proof (cases "lb_id lb = 0 \<or> lb_id lb = length lbset - 1")
      case True
      then show ?thesis using st(1) Cons.prems(2) by simp
    next
      case False
      obtain must may pers where a: "acss (lb_bb lb) = (must, may, pers)" by (cases "acss (lb_bb lb)") auto
      then obtain c h where c: "cat2_lblock level lh enc must may pers (isfirst lb) lb = Inr (c, h)"
          "cats1 = cats @ [(lb, c, h)]" "s1 = count_cat c s"
        using st(1) False by (auto simp: res_simps)
      show ?thesis
        using cat2_lblock_counted [OF c(1)] c(2,3) Cons.prems(2) by (auto simp: count_cat_def counts_ok_def Let_def)
    qed
    then show ?case using Cons.IH [OF st(2)] by linarith
  qed
  from this [of lbset] show ?thesis using assms by (auto simp: cat2_set_def)
qed

text \<open>
  A basic block that accesses two blocks of the same set updates the MUST state with the
  last one only: with two ways, the state keeps a block that the execution has evicted.
\<close>

lemma last_block_only_unsound:
  "must_valid 3 2 \<lparr>acs_A = 2, acs_age = [0, -1, -1]\<rparr> \<and> must_gamma 2 \<lparr>acs_A = 2, acs_age = [0, -1, -1]\<rparr> [0] \<and>
   must_update \<lparr>acs_A = 2, acs_age = [0, -1, -1]\<rparr> \<lparr>acs_A = 2, acs_age = [0, -1, -1]\<rparr> (Some 2) =
     Inr \<lparr>acs_A = 2, acs_age = [1, -1, 0]\<rparr> \<and>
   0 \<notin> set (fold (lru_access 2) [1, 2] [0])"
proof (intro conjI)
  show "must_valid 3 2 \<lparr>acs_A = 2, acs_age = [0, -1, -1]\<rparr>"
    by (auto simp: must_valid_def less_Suc_eq numeral_3_eq_3)
  show "must_gamma 2 \<lparr>acs_A = 2, acs_age = [0, -1, -1]\<rparr> [0]"
    by (auto simp: must_gamma_def lru_wf_def lru_age_def less_Suc_eq)
  show "must_update \<lparr>acs_A = 2, acs_age = [0, -1, -1]\<rparr> \<lparr>acs_A = 2, acs_age = [0, -1, -1]\<rparr> (Some 2) =
     Inr \<lparr>acs_A = 2, acs_age = [1, -1, 0]\<rparr>" by code_simp
  show "0 \<notin> set (fold (lru_access 2) [1, 2] [0])" by (simp add: lru_access_def numeral_2_eq_2)
qed

text \<open>A level where the block is not persistent does not stop the search for an outer one.\<close>

lemma fm_scan_skips_level:
  assumes "pers_isPersistent p b 1 = Inr False" "pers_isPersistent p b 0 = Inr True" "enc h = Some h'"
  shows "fm_scan p b enc [1, 0] (Some h) (NOT_CLASSIFIED, None, True) = Inr (FIRST_MISS, Some h', False)"
  using assms by simp

text \<open>
  With the option for the outermost level, a block that is not persistent is classified always
  miss even when the set may hold it.
\<close>

lemma outer_level_misses_present:
  "cat2_lblock FML_OUTER (\<lambda>_. True) (\<lambda>_. None) \<lparr>acs_A = 2, acs_age = [-1]\<rparr> (Some \<lparr>acs_A = 2, acs_age = [0]\<rparr>)
     \<lparr>pd_A = 2, pd_size = 1, pd_bottom = False, pd_whole = \<lparr>acs_A = 2, acs_age = [-1]\<rparr>, pd_data = [\<lparr>acs_A = 2, acs_age = [-1]\<rparr>]\<rparr> True
     \<lparr>lb_id = 1, lb_cacheblock = 0, lb_addr = 0, lb_bb = 1\<rparr> = Inr (ALWAYS_MISS, None)"
  "must_gamma 2 \<lparr>acs_A = 2, acs_age = [-1]\<rparr> [0]" "may_gamma 2 \<lparr>acs_A = 2, acs_age = [0]\<rparr> [0]"
  "pers_gamma 2 \<lparr>pd_A = 2, pd_size = 1, pd_bottom = False, pd_whole = \<lparr>acs_A = 2, acs_age = [-1]\<rparr>, pd_data = [\<lparr>acs_A = 2, acs_age = [-1]\<rparr>]\<rparr> [[]] [] [0]"
  by code_simp+

end
