(* ===== verification/Clp_Value.thy ===== *)
theory Clp_Value
  imports Elm_Int "HOL-Library.Signed_Division"
begin

text \<open>
  Circular linear progressions (otawa/include/otawa/data/clp/ClpValue.h and the \<^verbatim>\<open>Value\<close>
  methods of otawa/src/prog/clp_analysis.cpp): a value is a set of 32-bit integers
  \<open>lower + i * delta\<close> for \<open>i\<close> up to \<open>mtimes\<close>. The fields are 32-bit words; \<open>lower\<close> and \<open>delta\<close>
  are read as signed numbers where the code compares or divides them, and additions wrap
  around, as the compiled code does. A division by zero and a shift by 32 or more are \<open>Undefined\<close>.
  The last case of the intersection, which computes with floating-point numbers, is not
  modelled: \<open>clp_inter_special\<close> returns \<open>None\<close> there.
\<close>

unbundle bit_operations_syntax

subsection \<open>Values\<close>

datatype clp_kind = K_NONE | K_REG | K_VAL | K_ALL

record clp =
  c_kind :: clp_kind
  c_lower :: "32 word"
  c_delta :: "32 word"
  c_mtimes :: "32 word"

definition UMAXn :: "32 word" where "UMAXn = 0xFFFFFFFF"
definition MAXn :: "32 word" where "MAXn = 0x7FFFFFFF"
definition MINn :: "32 word" where "MINn = 0x80000000"

definition clp_set :: "clp_kind \<Rightarrow> 32 word \<Rightarrow> 32 word \<Rightarrow> 32 word \<Rightarrow> clp" where
  "clp_set k l d m = \<lparr>c_kind = k, c_lower = l, c_delta = d, c_mtimes = m\<rparr>"

definition clp_none :: clp where "clp_none = clp_set K_NONE 0 0 0"
definition clp_all :: clp where "clp_all = clp_set K_ALL 0 1 UMAXn"

definition clp_const :: "32 word \<Rightarrow> clp" where "clp_const k = clp_set K_VAL k 0 0"

definition isConst :: "clp \<Rightarrow> bool" where
  "isConst v \<longleftrightarrow> c_delta v = 0 \<or> c_mtimes v = 0"

definition isTop :: "clp \<Rightarrow> bool" where
  "isTop v \<longleftrightarrow> c_kind v = K_ALL"

text \<open>\<^verbatim>\<open>elm::abs\<close> gives an unsigned number.\<close>

definition elm_abs :: "32 word \<Rightarrow> 32 word" where
  "elm_abs v = (if 0 \<le> sint v then v else - v)"

definition clp_upper :: "clp \<Rightarrow> 32 word" where
  "clp_upper v = c_lower v + c_delta v * c_mtimes v"

definition clp_start :: "clp \<Rightarrow> 32 word" where
  "clp_start v = (if sint (c_delta v) < 0 then c_lower v + c_delta v * c_mtimes v else c_lower v)"

definition clp_stop :: "clp \<Rightarrow> 32 word" where
  "clp_stop v = (if sint (c_delta v) < 0 then c_lower v else c_lower v + c_delta v * c_mtimes v)"

definition swrap :: "clp \<Rightarrow> bool" where
  "swrap v \<longleftrightarrow> c_delta v \<noteq> 0 \<and> c_mtimes v > (MAXn - c_lower v) div elm_abs (c_delta v)"

definition uwrap :: "clp \<Rightarrow> bool" where
  "uwrap v \<longleftrightarrow> c_delta v \<noteq> 0 \<and> c_mtimes v > (UMAXn - c_lower v) div elm_abs (c_delta v)"

subsection \<open>Arithmetic helpers\<close>

function clp_gcd :: "int \<Rightarrow> int \<Rightarrow> int" where
  "clp_gcd a b = (let a = (if a < 0 then - a else a); b = (if b < 0 then - b else b) in
     if a = 0 then b else if b = 0 then a else clp_gcd b (a mod b))"
  by pat_completeness auto

termination
  by (relation "measure (\<lambda>(a, b). nat \<bar>b\<bar>)") (auto simp: nat_less_eq_zless)

declare clp_gcd.simps [simp del]

definition clp_min :: "32 word \<Rightarrow> 32 word \<Rightarrow> 32 word" where
  "clp_min a b = (if sint a < sint b then a else b)"

definition clp_max :: "32 word \<Rightarrow> 32 word \<Rightarrow> 32 word" where
  "clp_max a b = (if sint a > sint b then a else b)"

definition clp_umin :: "32 word \<Rightarrow> 32 word \<Rightarrow> 32 word" where
  "clp_umin a b = (if a < b then a else b)"

text \<open>Division and remainder of signed numbers truncate towards zero.\<close>

definition int_div :: "32 word \<Rightarrow> 32 word \<Rightarrow> 32 word" where
  "int_div a b = word_of_int (sint a sdiv sint b)"

definition int_rem :: "32 word \<Rightarrow> 32 word \<Rightarrow> 32 word" where
  "int_rem a b = word_of_int (sint a smod sint b)"

subsection \<open>Operations\<close>

definition clp_reverse :: "clp \<Rightarrow> clp" where
  "clp_reverse v = clp_set K_VAL (c_lower v + c_delta v * c_mtimes v) (- c_delta v) (c_mtimes v)"

definition clp_add :: "clp \<Rightarrow> clp \<Rightarrow> clp" where
  "clp_add a b =
     (let needreverse = (sint (c_delta a) < 0 \<or> sint (c_delta b) < 0);
          v = (if c_kind a = K_NONE \<and> c_kind b = K_NONE then clp_set K_NONE 0 0 0
               else if c_kind a = K_ALL \<or> c_kind b = K_ALL then clp_set K_ALL 0 1 UMAXn
               else if c_delta a = 0 \<and> c_delta b = 0 then clp_set (c_kind a) (c_lower a + c_lower b) 0 0
               else let g = word_of_int (clp_gcd (sint (c_delta a)) (sint (c_delta b))) in
                 clp_set K_VAL (clp_start a + clp_start b) g
                   (c_mtimes a * (elm_abs (c_delta a) div g) + c_mtimes b * (elm_abs (c_delta b) div g)))
      in if needreverse then clp_reverse v else v)"

definition clp_sub :: "clp \<Rightarrow> clp \<Rightarrow> clp" where
  "clp_sub a b =
     (let needreverse = (sint (c_delta a) < 0 \<or> sint (c_delta b) < 0);
          v = (if c_kind a = K_NONE \<and> c_kind b = K_NONE then clp_set K_NONE 0 0 0
               else if c_kind a = K_ALL \<or> c_kind b = K_ALL then clp_set K_ALL 0 1 UMAXn
               else if c_delta a = 0 \<and> c_delta b = 0 then clp_set (c_kind a) (c_lower a - c_lower b) 0 0
               else let g = word_of_int (clp_gcd (sint (c_delta a)) (sint (c_delta b))) in
                 clp_set K_VAL (clp_start a - clp_stop b) g
                   (c_mtimes a * (elm_abs (c_delta a) div g) + c_mtimes b * (elm_abs (c_delta b) div g)))
      in if needreverse then clp_reverse v else v)"

text \<open>The shift count is the lower bound of the argument.\<close>

definition clp_shl :: "clp \<Rightarrow> clp \<Rightarrow> clp res" where
  "clp_shl a b =
     (if \<not> isConst b \<or> sint (c_lower b) < 0 then Inr (clp_set K_ALL 0 1 UMAXn)
      else if c_kind a \<noteq> K_NONE \<and> c_kind a \<noteq> K_ALL then
        if 32 \<le> unat (c_lower b) then Inl Undefined
        else let k = unat (c_lower b) in
          Inr (if c_delta a = 0 \<and> c_mtimes a = 0 then clp_set K_VAL (push_bit k (c_lower a)) 0 0
               else clp_set K_VAL (push_bit k (c_lower a)) (push_bit k (c_delta a)) (c_mtimes a))
      else Inr a)"

definition clp_shr :: "clp \<Rightarrow> clp \<Rightarrow> clp res" where
  "clp_shr a b =
     (if \<not> isConst b \<or> sint (c_lower b) < 0 then Inr (clp_set K_ALL 0 1 UMAXn)
      else if c_kind a \<noteq> K_NONE \<and> c_kind a \<noteq> K_ALL then
        if 32 \<le> unat (c_lower b) then Inl Undefined
        else let k = unat (c_lower b) in
          Inr (if c_delta a = 0 \<and> c_mtimes a = 0 then clp_set K_VAL (signed_drop_bit k (c_lower a)) 0 0
               else if sint (c_delta a) smod 2 = 0
               then clp_set K_VAL (signed_drop_bit k (c_lower a)) (signed_drop_bit k (c_delta a)) (c_mtimes a)
               else clp_set K_VAL (signed_drop_bit k (c_lower a)) 1 (drop_bit k (c_delta a * c_mtimes a)))
      else Inr a)"

definition clp_or :: "clp \<Rightarrow> clp \<Rightarrow> clp" where
  "clp_or a b =
     (if c_kind a = K_ALL \<or> c_kind b = K_NONE then a
      else if c_kind b = K_ALL \<or> c_kind a = K_NONE then b
      else if isConst b then if isConst a then a\<lparr>c_lower := c_lower a OR c_lower b\<rparr> else clp_all
      else clp_all)"

text \<open>The upper bounds of a join are 64-bit numbers; the quotient is truncated to 32 bits.\<close>

definition clp_join :: "clp \<Rightarrow> clp \<Rightarrow> clp res" where
  "clp_join a b =
     (if a = b then Inr a
      else if c_kind a = K_ALL \<or> c_kind b = K_ALL then Inr (clp_set K_ALL 0 1 UMAXn)
      else if c_kind a = K_NONE then Inr (clp_set K_VAL (c_lower b) (c_delta b) (c_mtimes b))
      else if c_kind b = K_NONE then Inr a
      else if c_delta a = 0 \<and> c_mtimes a = 0 \<and> isConst b
        then Inr (clp_set K_VAL (clp_min (c_lower a) (c_lower b)) (elm_abs (c_lower a - c_lower b)) 1)
      else
        let g = clp_gcd (clp_gcd (uint (elm_abs (clp_start a - clp_start b))) (sint (c_delta a))) (sint (c_delta b));
            ls = clp_min (clp_start a) (clp_start b);
            u1 = sint (clp_start a) + uint (elm_abs (c_delta a)) * uint (c_mtimes a);
            u2 = sint (clp_start b) + uint (elm_abs (c_delta b)) * uint (c_mtimes b);
            um = (if u1 > u2 then u1 else u2)
        in if g = 0 \<or> um - sint ls \<ge> 2 ^ 63 then Inl Undefined
           else Inr (clp_set K_VAL ls (word_of_int g) (word_of_int ((um - sint ls) sdiv g))))"

definition clp_widening :: "clp \<Rightarrow> clp \<Rightarrow> clp res" where
  "clp_widening a b =
     (if c_kind a = K_NONE \<and> c_kind b = K_NONE then Inr a
      else if c_kind a = K_ALL \<or> c_kind b = K_ALL then Inr clp_all
      else if a = b then Inr a
      else if isConst a \<and> isConst b then Inr (a\<lparr>c_delta := c_lower b - c_lower a, c_mtimes := UMAXn\<rparr>)
      else if sint (clp_start b) \<le> sint (clp_start a) \<and> sint (clp_stop b) \<le> sint (clp_stop a) then
        let absd = elm_abs (c_delta a); startd = clp_start a - clp_start b; stopd = clp_stop a - clp_stop b;
            absd = (if absd \<noteq> elm_abs (c_delta b) \<or> (stopd \<noteq> 0 \<and> stopd \<noteq> absd) \<or> startd \<noteq> absd then 1 else absd)
        in if absd = 0 then Inl Undefined else Inr (clp_set (c_kind a) (clp_stop a) (- absd) (UMAXn div absd))
      else if sint (clp_start b) \<ge> sint (clp_start a) \<and> sint (clp_stop b) \<ge> sint (clp_stop a) then
        let absd = elm_abs (c_delta a); startd = clp_start b - clp_start a; stopd = clp_stop b - clp_stop a;
            absd = (if absd \<noteq> elm_abs (c_delta b) \<or> (startd \<noteq> 0 \<and> startd \<noteq> absd) \<or> stopd \<noteq> absd then 1 else absd)
        in if absd = 0 then Inl Undefined else Inr (clp_set (c_kind a) (clp_start a) absd (UMAXn div absd))
      else Inr clp_all)"

definition clp_ffwidening :: "clp \<Rightarrow> clp \<Rightarrow> 32 word \<Rightarrow> clp res" where
  "clp_ffwidening a b loopBound =
     (if c_kind a = K_NONE \<and> c_kind b = K_NONE then Inr a
      else if c_kind a = K_ALL \<or> c_kind b = K_ALL then Inr (clp_set K_ALL 0 1 UMAXn)
      else if a = b then Inr a
      else if isConst a \<and> isConst b then
        if sint (c_lower a) < sint (c_lower b) then Inr (clp_set K_VAL (c_lower a) (c_lower b - c_lower a) loopBound)
        else let step = c_lower a - c_lower b in Inr (clp_set K_VAL (c_lower a - loopBound * step) step loopBound)
      else if c_delta a = c_delta b then
        if c_delta a = 0 then Inl Undefined
        else if int_rem (c_lower b - c_lower a) (c_delta a) = 0 \<and> c_mtimes a \<ge> c_mtimes b then Inr a
        else Inr (clp_set K_ALL 0 1 UMAXn)
      else Inr (clp_set K_ALL 0 1 UMAXn))"

subsection \<open>Intersection and filters\<close>

text \<open>
  Intersection with a progression \<open>(l, d, _)\<close> by an interval from \<open>sta\<close> to \<open>sto\<close>, the
  cases 2.5 of the source: \<open>st\<close> is the stop of the progression and \<open>m\<close> its count.
\<close>

definition inter_interval :: "32 word \<Rightarrow> 32 word \<Rightarrow> 32 word \<Rightarrow> 32 word \<Rightarrow> 32 word \<Rightarrow> 32 word \<Rightarrow> clp res" where
  "inter_interval sta sto l d m st =
     (if sint d > 0 then rbind (roundup (sta - l) d) (\<lambda>r.
        let ls = clp_max l (r + l); ms = clp_umin ((sto - ls) div d) ((st - ls) div d)
        in Inr (clp_set K_VAL ls (if ms = 0 then 0 else d) ms))
      else asserting (sint d < 0)
        (let ls = clp_min l (int_div (sto - l) d * d + l);
             ms = clp_min (m + int_div (l - ls) d) ((ls - sta) div (- d))
         in Inr (clp_set K_VAL ls (if ms = 0 then 0 else d) ms)))"

definition clp_inter_special :: "clp \<Rightarrow> clp \<Rightarrow> clp res option" where
  "clp_inter_special a b =
     (let l1 = c_lower a; l2 = c_lower b; sta1 = clp_start a; sta2 = clp_start b; sto1 = clp_stop a; sto2 = clp_stop b;
          d1 = c_delta a; d2 = c_delta b; m1 = c_mtimes a; m2 = c_mtimes b;
          u1 = (if sint d1 < 0 then sint l1 else sint l1 + sint d1 * uint m1);
          u2 = (if sint d2 < 0 then sint l1 else sint l2 + sint d2 * uint m2)
      in if a = b then Some (Inr a)
         else if isTop a then Some (Inr b)
         else if isTop b then Some (Inr a)
         else if isConst a \<and> isConst b then Some (Inr (if l1 = l2 then clp_set K_VAL l1 0 0 else clp_set K_NONE 0 0 0))
         else if isConst a then
           Some (Inr (if sint sta1 \<ge> sint sta2 \<and> int_rem (sta1 - sta2) d2 = 0 \<and> u1 \<le> u2 \<or> b = clp_all
                 then clp_set K_VAL sta1 0 0 else clp_set K_NONE 0 0 0))
         else if isConst b then
           Some (Inr (if int_rem (l2 - l1) d1 = 0 \<and> int_div (l2 - l1) d1 \<le> m1
                 then clp_set K_VAL sta2 0 0 else clp_set K_NONE 0 0 0))
         else if \<not> ((sta2 - sta1) div elm_abs d1 \<le> m1 \<or> (sto2 - sta1) div elm_abs d1 \<le> m1 \<or>
                    (sta1 - sta2) div elm_abs d2 \<le> m2 \<or> (sto1 - sta2) div elm_abs d2 \<le> m2)
           then Some (Inr (clp_set K_NONE 0 0 0))
         else if d1 = 1 \<or> d1 = -1 then Some (inter_interval sta1 sto1 l2 d2 m2 sto2)
         else if d2 = 1 \<or> d2 = -1 then Some (inter_interval sta2 sto2 l1 d1 m1 sto1)
         else None)"

text \<open>The order filters call the intersection with a step of 1, which is one of its special cases.\<close>

definition clp_inter_interval :: "clp \<Rightarrow> clp \<Rightarrow> clp res" where
  "clp_inter_interval a b = (case clp_inter_special a b of Some r \<Rightarrow> r | None \<Rightarrow> Inl Undefined)"

text \<open>
  The general case divides in single precision; the two floating-point expressions of the
  code, converted to integers, are the fields of \<open>fpu\<close>: \<^verbatim>\<open>ceil(i * (float)d / ds)\<close> and
  \<^verbatim>\<open>floor((float)n / ds)\<close>.
\<close>

record fpu =
  fp_ceil :: "int \<Rightarrow> 32 word \<Rightarrow> 32 word \<Rightarrow> 32 word"
  fp_floor :: "32 word \<Rightarrow> 32 word \<Rightarrow> 32 word"

definition clp_lcm :: "32 word \<Rightarrow> 32 word \<Rightarrow> 32 word" where
  "clp_lcm a b = word_of_int (uint (elm_abs (word_of_int (sint a * sint b))) div clp_gcd (sint a) (sint b))"

definition clp_inter_main :: "fpu \<Rightarrow> clp \<Rightarrow> clp \<Rightarrow> clp res" where
  "clp_inter_main fp a b =
     (let l1 = c_lower a; l2 = c_lower b; d1 = c_delta a; d2 = c_delta b; m1 = c_mtimes a; m2 = c_mtimes b;
          d = word_of_int (clp_gcd (sint d1) (sint d2)); ds = clp_lcm d1 d2
      in if (l2 - l1) mod d \<noteq> 0 then Inr (clp_set K_NONE 0 0 0)
         else case List.find (\<lambda>i. (d1 * of_nat i - 1) mod d2 = 0) [1..<unat (elm_abs d2)] of
             None \<Rightarrow> Inr (clp_set K_NONE 0 0 0)
           | Some i \<Rightarrow>
               let i1p = int i * sint (l2 - l1);
                   i2p = ((1 - sint d1 * int i) sdiv (- sint d2)) * sint (l2 - l1);
                   k = sint (clp_max (fp_ceil fp (- i1p) d1 ds) (fp_ceil fp (- i2p) d2 ds));
                   i1s = word_of_int (i1p + (k * uint ds) sdiv sint d1);
                   i2s = word_of_int (i2p + (k * uint ds) sdiv sint d2);
                   ls = l1 + d1 * i1s
               in asserting (ls = l2 + d2 * i2s)
                 (let umin = clp_min (l1 + d1 * m1) (l2 + d2 * m2); ms = fp_floor fp (umin - ls) ds
                  in Inr (if ds = 0 \<or> ms = 0 then clp_set K_VAL ls 0 0 else clp_set K_VAL ls ds ms)))"

definition clp_inter :: "fpu \<Rightarrow> clp \<Rightarrow> clp \<Rightarrow> clp res" where
  "clp_inter fp a b = (case clp_inter_special a b of Some r \<Rightarrow> r | None \<Rightarrow> clp_inter_main fp a b)"

definition clp_ge :: "clp \<Rightarrow> 32 word \<Rightarrow> clp res" where
  "clp_ge a k =
     (if a = clp_all \<or> a = clp_none then Inr a
      else if isConst a then Inr (if sint k > sint (c_lower a) then clp_none else a)
      else if sint (c_delta a) > 0 then clp_inter_interval a (clp_set K_VAL k 1 (MAXn - k))
      else let a = (if swrap a then a\<lparr>c_mtimes := (MAXn - k) div (- c_delta a)\<rparr> else a) in
        if sint (c_lower a) \<le> sint k then Inr clp_none
        else if sint (c_lower a + c_delta a * c_mtimes a) \<ge> sint k then Inr a
        else Inr (a\<lparr>c_mtimes := int_div (k - c_lower a) (c_delta a)\<rparr>))"

definition le_unwrap :: "clp \<Rightarrow> clp" where
  "le_unwrap a = (if swrap a then
       if 0 \<le> sint (c_delta a) then a\<lparr>c_mtimes := (MAXn - c_lower a) div c_delta a\<rparr>
       else a\<lparr>c_mtimes := (MINn + c_lower a) div (- c_delta a)\<rparr>
     else a)"

definition le_apply :: "clp \<Rightarrow> 32 word \<Rightarrow> clp res" where
  "le_apply a k =
     (if sint (clp_start a) > sint k then Inr clp_none
      else if sint (clp_stop a) < sint k then Inr a
      else if 0 \<le> sint (c_delta a) then Inr (a\<lparr>c_mtimes := int_div (k - c_lower a) (c_delta a)\<rparr>)
      else let s = int_div (c_lower a - k - c_delta a - 1) (- c_delta a) in
        asserting (0 \<le> sint s) (Inr (a\<lparr>c_lower := c_lower a + c_delta a * s, c_mtimes := c_mtimes a - s\<rparr>)))"

definition clp_le :: "clp \<Rightarrow> 32 word \<Rightarrow> clp res" where
  "clp_le a k =
     (if a = clp_all \<or> a = clp_none then Inr a
      else if isConst a then Inr (if sint k < sint (c_lower a) then clp_none else a)
      else le_apply (le_unwrap a) k)"

definition clp_geu :: "clp \<Rightarrow> 32 word \<Rightarrow> clp res" where
  "clp_geu a k =
     (if a = clp_all \<or> a = clp_none then Inr a
      else if isConst a then Inr (if k > c_lower a then clp_none else a)
      else if sint (c_delta a) > 0 then clp_inter_interval a (clp_set K_VAL k 1 (UMAXn - k))
      else let a = (if uwrap a then a\<lparr>c_mtimes := (UMAXn - k) div (- c_delta a)\<rparr> else a) in
        if c_lower a \<le> k then Inr clp_none
        else if c_lower a + c_delta a * c_mtimes a \<ge> k then Inr a
        else Inr (a\<lparr>c_mtimes := int_div (k - c_lower a) (c_delta a)\<rparr>))"

definition clp_leu :: "clp \<Rightarrow> 32 word \<Rightarrow> clp res" where
  "clp_leu a k =
     (if a = clp_all \<or> a = clp_none then Inr a
      else if isConst a then Inr (if k < c_lower a then clp_none else a)
      else if sint (c_delta a) < 0 then clp_inter_interval a (clp_set K_VAL 0 1 k)
      else let a = (if uwrap a then a\<lparr>c_mtimes := k div c_delta a\<rparr> else a) in
        if c_lower a \<ge> k then Inr clp_none
        else if c_lower a + c_delta a * c_mtimes a \<le> k then Inr a
        else Inr (a\<lparr>c_mtimes := (k - c_lower a) div c_delta a\<rparr>))"

definition clp_eq :: "clp \<Rightarrow> 32 word \<Rightarrow> clp" where "clp_eq a k = a"
definition clp_ne :: "clp \<Rightarrow> 32 word \<Rightarrow> clp" where "clp_ne a k = a"

subsection \<open>Bitwise and\<close>

text \<open>The field of ones of a constant: its lowest bit and the last bit of the run above it.\<close>

definition field_low :: "32 word \<Rightarrow> nat" where
  "field_low k = length (takeWhile (\<lambda>i. \<not> bit k i) [0..<32])"

definition field_high :: "32 word \<Rightarrow> nat \<Rightarrow> nat" where
  "field_high k m = m + length (takeWhile (bit k) [m..<32]) - 1"

definition and_threshold :: "32 word" where "and_threshold = 8"

definition clp_and_field :: "clp \<Rightarrow> 32 word \<Rightarrow> nat \<Rightarrow> nat \<Rightarrow> clp res" where
  "clp_and_field v k n m =
     (let p = push_bit m 1 in
      if int_rem (c_lower v) p = 0 \<and> sint p \<le> sint (c_delta v) \<and> int_rem (c_delta v) p = 0 then Inr v
      else if int_rem (c_lower v) p = 0 \<and> \<not> sint p \<le> sint (c_delta v) \<and> int_rem p (c_delta v) = 0
        then Inr (clp_set K_VAL (c_lower v) p ((c_mtimes v + 1) div int_div p (c_delta v) - 1))
      else if c_mtimes v + 1 < and_threshold then
        rfold (\<lambda>i r. clp_join r (clp_set K_VAL ((c_lower v + of_nat i * c_delta v) AND k) 0 0)) [0..<unat (c_mtimes v)] clp_none
      else Inr (clp_set K_VAL 0 p (push_bit (n + 1 - m - 1) 1)))"

definition clp_and :: "clp \<Rightarrow> clp \<Rightarrow> clp res" where
  "clp_and a b =
     (if a = clp_all then Inr a
      else if b = clp_all then Inr clp_all
      else if a = clp_none then Inr a
      else if b = clp_none then Inr clp_none
      else if isConst a \<and> isConst b then Inr (clp_const (c_lower b AND c_lower a))
      else if \<not> isConst a \<and> \<not> isConst b then Inr clp_all
      else let v = (if isConst a then b else a); k = (if isConst a then c_lower a else c_lower b) in
        if k = 0 then Inr (clp_const 0)
        else let m = field_low k; n = field_high k m in
          if k AND NOT (push_bit n 1 - 1) \<noteq> 0 then Inr clp_all
          else clp_and_field v k n m)"

subsection \<open>Meaning of a value\<close>

definition clp_gamma :: "clp \<Rightarrow> 32 word set" where
  "clp_gamma v = (case c_kind v of K_NONE \<Rightarrow> {} | K_ALL \<Rightarrow> UNIV
     | _ \<Rightarrow> (\<lambda>i. c_lower v + of_nat i * c_delta v) ` {..unat (c_mtimes v)})"

named_theorems clp_simps \<open>fields of a value\<close>

lemma clp_set_fields [simp, clp_simps]:
  "c_kind (clp_set k l d m) = k" "c_lower (clp_set k l d m) = l"
  "c_delta (clp_set k l d m) = d" "c_mtimes (clp_set k l d m) = m"
  by (simp_all add: clp_set_def)

lemma clp_kinds [simp]: "c_kind clp_none = K_NONE" "c_kind clp_all = K_ALL" "c_kind (clp_const k) = K_VAL"
  by (simp_all add: clp_none_def clp_all_def clp_const_def)

lemma clp_gamma_none [simp]: "clp_gamma clp_none = {}"
  by (simp add: clp_gamma_def clp_none_def)

lemma clp_gamma_all [simp]: "clp_gamma clp_all = UNIV" "clp_gamma (clp_set K_ALL l d m) = UNIV"
  by (simp_all add: clp_gamma_def clp_all_def)

lemma clp_gamma_val: "clp_gamma (clp_set K_VAL l d m) = (\<lambda>i. l + of_nat i * d) ` {..unat m}"
  by (simp add: clp_gamma_def)

lemma clp_gamma_const [simp]: "clp_gamma (clp_const k) = {k}"
  by (auto simp: clp_const_def clp_gamma_val)

lemma clp_gamma_VAL: "c_kind v = K_VAL \<Longrightarrow> clp_gamma v = (\<lambda>i. c_lower v + of_nat i * c_delta v) ` {..unat (c_mtimes v)}"
  by (simp add: clp_gamma_def)

lemma clp_gamma_isConst: "c_kind v = K_VAL \<Longrightarrow> isConst v \<Longrightarrow> clp_gamma v = {c_lower v}"
  by (auto simp: clp_gamma_VAL isConst_def)

lemma mult_split: "i \<le> unat m \<Longrightarrow> m * d = of_nat i * d + of_nat (unat m - i) * (d :: 32 word)"
  by (simp add: of_nat_diff algebra_simps)

lemma image_reflect: "f ` {..n :: nat} = (\<lambda>i. f (n - i)) ` {..n}"
proof
  show "f ` {..n} \<subseteq> (\<lambda>i. f (n - i)) ` {..n}"
  proof
    fix x assume "x \<in> f ` {..n}"
    then obtain i where "i \<le> n" "x = f i" by auto
    then show "x \<in> (\<lambda>i. f (n - i)) ` {..n}" by (intro image_eqI [of _ _ "n - i"]) auto
  qed
qed auto

text \<open>Read from its start upwards, or from its stop downwards, a value steps by \<open>\<bar>delta\<bar>\<close>.\<close>

lemma gamma_from_start:
  assumes "c_kind v = K_VAL"
  shows "clp_gamma v = (\<lambda>i. clp_start v + of_nat i * elm_abs (c_delta v)) ` {..unat (c_mtimes v)}"
proof (cases "sint (c_delta v) < 0")
  case True
  have "c_lower v + of_nat (unat (c_mtimes v) - i) * c_delta v = clp_start v + of_nat i * elm_abs (c_delta v)"
    if "i \<le> unat (c_mtimes v)" for i
    using mult_split [OF that, of "c_delta v"] True by (simp add: clp_start_def elm_abs_def mult.commute)
  then show ?thesis
    unfolding clp_gamma_VAL [OF assms] by (subst image_reflect) (auto intro!: image_cong)
next
  case False
  then show ?thesis using assms by (simp add: clp_gamma_VAL clp_start_def elm_abs_def)
qed

lemma stop_start: "clp_stop v = clp_start v + c_mtimes v * elm_abs (c_delta v)"
  by (simp add: clp_stop_def clp_start_def elm_abs_def mult.commute)

lemma gamma_from_stop:
  assumes "c_kind v = K_VAL"
  shows "clp_gamma v = (\<lambda>i. clp_stop v - of_nat i * elm_abs (c_delta v)) ` {..unat (c_mtimes v)}"
proof -
  let ?n = "unat (c_mtimes v)" and ?a = "elm_abs (c_delta v)"
  have "clp_start v + of_nat (?n - i) * ?a = clp_stop v - of_nat i * ?a" if "i \<le> ?n" for i
    using mult_split [OF that, of ?a] by (simp add: stop_start)
  then show ?thesis
    unfolding gamma_from_start [OF assms] by (subst image_reflect) (auto intro!: image_cong)
qed

lemma clp_reverse_gamma:
  assumes "c_kind v = K_VAL"
  shows "clp_gamma (clp_reverse v) = clp_gamma v"
proof -
  let ?n = "unat (c_mtimes v)"
  have "c_lower v + of_nat (?n - i) * c_delta v = c_lower v + c_delta v * c_mtimes v + of_nat i * - c_delta v"
    if "i \<le> ?n" for i
    using mult_split [OF that, of "c_delta v"] by (simp add: mult.commute)
  then show ?thesis
    unfolding clp_gamma_VAL [OF assms] clp_reverse_def clp_gamma_val
    by (subst (2) image_reflect) (auto intro!: image_cong)
qed

subsection \<open>Greatest common divisor and absolute value\<close>

lemma clp_gcd_gcd: "clp_gcd a b = gcd a b"
proof (induction a b rule: clp_gcd.induct)
  case (1 a b)
  let ?a = "if a < 0 then - a else a" and ?b = "if b < 0 then - b else b"
  have abs: "?a = \<bar>a\<bar>" "?b = \<bar>b\<bar>" by auto
  show ?case
  proof (cases "?a = 0 \<or> ?b = 0")
    case True
    then show ?thesis using abs by (subst clp_gcd.simps) (auto simp: Let_def)
  next
    case False
    then have "clp_gcd a b = clp_gcd ?b (?a mod ?b)" by (subst clp_gcd.simps) (simp add: Let_def)
    also have "\<dots> = gcd ?b (?a mod ?b)" by (rule 1) (use False in auto)
    also have "\<dots> = gcd ?a ?b" by (simp only: gcd_red_int [symmetric])
    also have "\<dots> = gcd a b" using abs by simp
    finally show ?thesis .
  qed
qed

lemma sint_range32: "- (2 ^ 31) \<le> sint (w :: 32 word)" "sint (w :: 32 word) < 2 ^ 31"
  using sint_ge [of w] sint_lt [of w] by simp_all

lemma uint_elm_abs: "uint (elm_abs v) = \<bar>sint v\<bar>"
proof (cases "0 \<le> sint v")
  case True
  then have "uint v = sint v" using sint_range32 [of v] by (simp add: uint_sint take_bit_int_eq_self)
  then show ?thesis using True by (simp add: elm_abs_def)
next
  case False
  then have "- v = word_of_int (- sint v)" by simp
  then have "uint (- v) = take_bit 32 (- sint v)" by (simp only: uint_word_of_int_eq) simp
  also have "\<dots> = - sint v" using False sint_range32 [of v] by (intro take_bit_int_eq_self) auto
  finally show ?thesis using False by (simp add: elm_abs_def)
qed

lemma unat_elm_abs: "unat (elm_abs v) = nat \<bar>sint v\<bar>"
  using uint_elm_abs [of v] by (simp add: unat_eq_nat_uint)

lemma elm_abs_0 [simp]: "elm_abs 0 = 0"
  by (simp add: elm_abs_def)

lemma elm_abs_eq_0 [simp]: "elm_abs v = 0 \<longleftrightarrow> v = 0"
  by (auto simp: elm_abs_def)

text \<open>The step that an addition chooses divides both steps.\<close>

lemma gcd_steps:
  fixes d e :: "32 word"
  defines "g \<equiv> word_of_int (clp_gcd (sint d) (sint e)) :: 32 word"
  assumes "d \<noteq> 0 \<or> e \<noteq> 0"
  shows gcd_step_unat: "unat g = nat (gcd (sint d) (sint e))"
    and gcd_step: "g \<noteq> 0" "unat g dvd unat (elm_abs d)" "unat g dvd unat (elm_abs e)"
proof -
  have nz: "sint d \<noteq> 0 \<or> sint e \<noteq> 0" using assms(2) by (metis sint_0 signed_word_eqI)
  have le: "gcd (sint d) (sint e) \<le> 2 ^ 31"
  proof (cases "sint d = 0")
    case True
    then show ?thesis using sint_range32 [of e] by auto
  next
    case False
    then have "gcd (sint d) (sint e) \<le> \<bar>sint d\<bar>" by (rule gcd_le1_int [of "\<bar>sint d\<bar>", simplified])
    then show ?thesis using sint_range32 [of d] by linarith
  qed
  have "gcd (sint d) (sint e) \<noteq> 0" using nz by simp
  then have pos: "0 < gcd (sint d) (sint e)" using gcd_ge_0_int [of "sint d" "sint e"] by linarith
  have "uint g = gcd (sint d) (sint e)"
    unfolding g_def clp_gcd_gcd uint_word_of_int_eq using le pos by (intro take_bit_int_eq_self) auto
  then have ug: "unat g = nat (gcd (sint d) (sint e))" by (simp add: unat_eq_nat_uint)
  show "unat g = nat (gcd (sint d) (sint e))" by (rule ug)
  show "g \<noteq> 0"
  proof
    assume "g = 0"
    then have "nat (gcd (sint d) (sint e)) = 0" using ug by simp
    then show False using pos by linarith
  qed
  show "unat g dvd unat (elm_abs d)" "unat g dvd unat (elm_abs e)"
    by (simp_all add: ug unat_elm_abs nat_dvd_iff dvd_nat_abs_iff)
qed

lemma combine_steps:
  fixes a b g m n :: "32 word"
  assumes "unat g dvd unat a" "unat g dvd unat b" "i \<le> unat m" "j \<le> unat n"
    and "unat m * (unat a div unat g) + unat n * (unat b div unat g) < 2 ^ 32"
  shows "\<exists>k \<le> unat (m * (a div g) + n * (b div g)). of_nat i * a + of_nat j * b = of_nat k * g"
proof -
  let ?p = "unat a div unat g" and ?q = "unat b div unat g"
  have "m * (a div g) + n * (b div g) = of_nat (unat m * ?p + unat n * ?q)"
    by (simp add: unat_div [symmetric] del: unat_div)
  moreover have "unat (of_nat (unat m * ?p + unat n * ?q) :: 32 word) = unat m * ?p + unat n * ?q"
    using assms(5) unfolding unat_of_nat by simp
  ultimately have u: "unat (m * (a div g) + n * (b div g)) = unat m * ?p + unat n * ?q" by simp
  have ab: "a = of_nat ?p * g" "b = of_nat ?q * g"
    using arg_cong [OF dvd_div_mult_self [OF assms(1)], of "of_nat :: nat \<Rightarrow> 32 word"]
      arg_cong [OF dvd_div_mult_self [OF assms(2)], of "of_nat :: nat \<Rightarrow> 32 word"] by simp_all
  have "of_nat i * (of_nat ?p * g) + of_nat j * (of_nat ?q * g) = of_nat (i * ?p + j * ?q) * g"
    by (simp add: algebra_simps)
  then have "of_nat i * a + of_nat j * b = of_nat (i * ?p + j * ?q) * g" using ab by metis
  then show ?thesis using u assms(3,4) by (intro exI [of _ "i * ?p + j * ?q"]) (auto intro: add_mono mult_le_mono1)
qed

subsection \<open>Soundness of the arithmetic\<close>

text \<open>The number of steps of a sum must fit in 32 bits.\<close>

definition steps_fit :: "clp \<Rightarrow> clp \<Rightarrow> bool" where
  "steps_fit a b \<longleftrightarrow> (let g = nat (gcd (sint (c_delta a)) (sint (c_delta b))) in
     unat (c_mtimes a) * (nat \<bar>sint (c_delta a)\<bar> div g) + unat (c_mtimes b) * (nat \<bar>sint (c_delta b)\<bar> div g) < 2 ^ 32)"

definition is_value :: "clp \<Rightarrow> bool" where
  "is_value v \<longleftrightarrow> v = clp_none \<or> v = clp_all \<or> c_kind v = K_VAL"

lemma full_circle: "clp_gamma (clp_set K_VAL l 1 UMAXn) = UNIV" "clp_gamma (clp_set K_VAL l (-1) UMAXn) = UNIV"
proof -
  have n: "unat (w :: 32 word) \<le> unat UMAXn" for w using unat_bound [of w] by (simp add: UMAXn_def)
  have "x \<in> clp_gamma (clp_set K_VAL l 1 UMAXn)" "x \<in> clp_gamma (clp_set K_VAL l (-1) UMAXn)" for x
  proof -
    show "x \<in> clp_gamma (clp_set K_VAL l 1 UMAXn)"
      unfolding clp_gamma_val by (rule image_eqI [of _ _ "unat (x - l)"]) (use n in auto)
    show "x \<in> clp_gamma (clp_set K_VAL l (-1) UMAXn)"
      unfolding clp_gamma_val by (rule image_eqI [of _ _ "unat (l - x)"]) (use n in auto)
  qed
  then show "clp_gamma (clp_set K_VAL l 1 UMAXn) = UNIV" "clp_gamma (clp_set K_VAL l (-1) UMAXn) = UNIV" by auto
qed

lemma reverse_all_gamma: "clp_gamma (clp_reverse (clp_set K_ALL 0 1 UMAXn)) = UNIV"
  by (simp add: clp_reverse_def full_circle)

lemma steps_fit_combine:
  assumes "steps_fit a b" "c_delta a \<noteq> 0 \<or> c_delta b \<noteq> 0" "i \<le> unat (c_mtimes a)" "j \<le> unat (c_mtimes b)"
  defines "g \<equiv> word_of_int (clp_gcd (sint (c_delta a)) (sint (c_delta b)))"
  shows "\<exists>k \<le> unat (c_mtimes a * (elm_abs (c_delta a) div g) + c_mtimes b * (elm_abs (c_delta b) div g)).
    of_nat i * elm_abs (c_delta a) + of_nat j * elm_abs (c_delta b) = of_nat k * g"
proof (rule combine_steps)
  have "unat g = nat (gcd (sint (c_delta a)) (sint (c_delta b)))"
    using gcd_step_unat [OF assms(2)] by (simp add: g_def)
  then show "unat (c_mtimes a) * (unat (elm_abs (c_delta a)) div unat g) +
    unat (c_mtimes b) * (unat (elm_abs (c_delta b)) div unat g) < 2 ^ 32"
    using assms(1) by (simp add: steps_fit_def Let_def unat_elm_abs)
qed (use assms(3,4) gcd_step [OF assms(2)] in \<open>auto simp: g_def\<close>)

lemma clp_add_sound:
  assumes v: "is_value a" "is_value b" and f: "steps_fit a b" and x: "x \<in> clp_gamma a" and y: "y \<in> clp_gamma b"
  shows "x + y \<in> clp_gamma (clp_add a b)"
proof -
  have nn: "a \<noteq> clp_none" "b \<noteq> clp_none" using x y by auto
  consider (all) "c_kind a = K_ALL \<or> c_kind b = K_ALL" | (val) "c_kind a = K_VAL" "c_kind b = K_VAL"
    using v nn by (auto simp: is_value_def clp_all_def)
  then show ?thesis
  proof cases
    case all
    then have "clp_add a b = (if sint (c_delta a) < 0 \<or> sint (c_delta b) < 0
        then clp_reverse (clp_set K_ALL 0 1 UMAXn) else clp_set K_ALL 0 1 UMAXn)"
      by (auto simp: clp_add_def Let_def)
    then show ?thesis using reverse_all_gamma by simp
  next
    case val
    show ?thesis
    proof (cases "c_delta a = 0 \<and> c_delta b = 0")
      case True
      then have "x = c_lower a" "y = c_lower b" using x y val by (auto simp: clp_gamma_VAL)
      then show ?thesis using True val by (simp add: clp_add_def Let_def clp_gamma_VAL)
    next
      case False
      let ?g = "word_of_int (clp_gcd (sint (c_delta a)) (sint (c_delta b))) :: 32 word"
      let ?v = "clp_set K_VAL (clp_start a + clp_start b) ?g
        (c_mtimes a * (elm_abs (c_delta a) div ?g) + c_mtimes b * (elm_abs (c_delta b) div ?g))"
      obtain i where i: "i \<le> unat (c_mtimes a)" "x = clp_start a + of_nat i * elm_abs (c_delta a)"
        using x gamma_from_start [OF val(1)] by auto
      obtain j where j: "j \<le> unat (c_mtimes b)" "y = clp_start b + of_nat j * elm_abs (c_delta b)"
        using y gamma_from_start [OF val(2)] by auto
      have nz: "c_delta a \<noteq> 0 \<or> c_delta b \<noteq> 0" using False by simp
      obtain k where k: "k \<le> unat (c_mtimes ?v)"
          "of_nat i * elm_abs (c_delta a) + of_nat j * elm_abs (c_delta b) = of_nat k * ?g"
        using steps_fit_combine [OF f nz i(1) j(1)] by auto
      have "x + y = c_lower ?v + of_nat k * c_delta ?v" using i(2) j(2) k(2) by (simp add: algebra_simps)
      then have "x + y \<in> clp_gamma ?v" using k(1) by (auto simp: clp_gamma_VAL)
      then show ?thesis using False val clp_reverse_gamma [of ?v] by (auto simp: clp_add_def Let_def)
    qed
  qed
qed

lemma clp_sub_sound:
  assumes v: "is_value a" "is_value b" and f: "steps_fit a b" and x: "x \<in> clp_gamma a" and y: "y \<in> clp_gamma b"
  shows "x - y \<in> clp_gamma (clp_sub a b)"
proof -
  have nn: "a \<noteq> clp_none" "b \<noteq> clp_none" using x y by auto
  consider (all) "c_kind a = K_ALL \<or> c_kind b = K_ALL" | (val) "c_kind a = K_VAL" "c_kind b = K_VAL"
    using v nn by (auto simp: is_value_def clp_all_def)
  then show ?thesis
  proof cases
    case all
    then have "clp_sub a b = (if sint (c_delta a) < 0 \<or> sint (c_delta b) < 0
        then clp_reverse (clp_set K_ALL 0 1 UMAXn) else clp_set K_ALL 0 1 UMAXn)"
      by (auto simp: clp_sub_def Let_def)
    then show ?thesis using reverse_all_gamma by simp
  next
    case val
    show ?thesis
    proof (cases "c_delta a = 0 \<and> c_delta b = 0")
      case True
      then have "x = c_lower a" "y = c_lower b" using x y val by (auto simp: clp_gamma_VAL)
      then show ?thesis using True val by (simp add: clp_sub_def Let_def clp_gamma_VAL)
    next
      case False
      let ?g = "word_of_int (clp_gcd (sint (c_delta a)) (sint (c_delta b))) :: 32 word"
      let ?v = "clp_set K_VAL (clp_start a - clp_stop b) ?g
        (c_mtimes a * (elm_abs (c_delta a) div ?g) + c_mtimes b * (elm_abs (c_delta b) div ?g))"
      obtain i where i: "i \<le> unat (c_mtimes a)" "x = clp_start a + of_nat i * elm_abs (c_delta a)"
        using x gamma_from_start [OF val(1)] by auto
      obtain j where j: "j \<le> unat (c_mtimes b)" "y = clp_stop b - of_nat j * elm_abs (c_delta b)"
        using y gamma_from_stop [OF val(2)] by auto
      have nz: "c_delta a \<noteq> 0 \<or> c_delta b \<noteq> 0" using False by simp
      obtain k where k: "k \<le> unat (c_mtimes ?v)"
          "of_nat i * elm_abs (c_delta a) + of_nat j * elm_abs (c_delta b) = of_nat k * ?g"
        using steps_fit_combine [OF f nz i(1) j(1)] by auto
      have "x - y = (clp_start a - clp_stop b) + (of_nat i * elm_abs (c_delta a) + of_nat j * elm_abs (c_delta b))"
        unfolding i(2) j(2) by simp
      then have "x - y = c_lower ?v + of_nat k * c_delta ?v" unfolding k(2) by simp
      then have "x - y \<in> clp_gamma ?v" using k(1) by (auto simp: clp_gamma_VAL)
      then show ?thesis using False val clp_reverse_gamma [of ?v] by (auto simp: clp_sub_def Let_def)
    qed
  qed
qed

text \<open>A count that does not fit makes a sum lose values.\<close>

lemma clp_add_wraps:
  "\<exists>x \<in> clp_gamma (clp_set K_VAL 0 1 UMAXn). \<exists>y \<in> clp_gamma (clp_set K_VAL 0 1 1).
     x + y \<notin> clp_gamma (clp_add (clp_set K_VAL 0 1 UMAXn) (clp_set K_VAL 0 1 1))"
proof -
  have "clp_gcd 1 1 = 1" by (simp add: clp_gcd_gcd)
  then have "clp_add (clp_set K_VAL 0 1 UMAXn) (clp_set K_VAL 0 1 1) = clp_set K_VAL 0 1 0"
    by (simp add: clp_add_def Let_def elm_abs_def clp_start_def UMAXn_def)
  moreover have "1 \<in> clp_gamma (clp_set K_VAL 0 1 1)"
    unfolding clp_gamma_val by (auto intro: image_eqI [of _ _ 1])
  moreover have "0 \<in> clp_gamma (clp_set K_VAL 0 1 UMAXn)" by (simp add: full_circle)
  ultimately show ?thesis by (intro bexI [of _ 0] bexI [of _ 1]) (auto simp: clp_gamma_val)
qed

lemma push_bit_mult: "push_bit k (w :: 32 word) = w * 2 ^ k"
  by (simp add: push_bit_eq_mult)

lemma clp_shl_sound:
  assumes "is_value a" "isConst b" "0 \<le> sint (c_lower b)" "unat (c_lower b) < 32" "x \<in> clp_gamma a"
  shows "\<exists>v. clp_shl a b = Inr v \<and> push_bit (unat (c_lower b)) x \<in> clp_gamma v"
proof (cases "c_kind a = K_VAL")
  case True
  then obtain i where i: "i \<le> unat (c_mtimes a)" "x = c_lower a + of_nat i * c_delta a"
    using assms(5) by (auto simp: clp_gamma_VAL)
  let ?k = "unat (c_lower b)"
  have "push_bit ?k x = push_bit ?k (c_lower a) + of_nat i * push_bit ?k (c_delta a)"
    unfolding i(2) push_bit_mult by (simp add: algebra_simps)
  then show ?thesis using True assms(2-4) i(1) by (auto simp: clp_shl_def Let_def clp_gamma_val)
next
  case False
  then have "a = clp_all" using assms(1,5) by (auto simp: is_value_def)
  then show ?thesis using assms(2,3) by (simp add: clp_shl_def clp_all_def)
qed

lemma clp_shl_variable: "\<not> isConst b \<or> sint (c_lower b) < 0 \<Longrightarrow> clp_shl a b = Inr clp_all"
  by (simp add: clp_shl_def clp_all_def)

text \<open>
  A right shift is exact on constants. On a range it misses values: \<open>{1, 2}\<close> shifted by one
  gives \<open>{0}\<close>, and the even step of \<open>{2, 4}\<close> shifted by two gives \<open>{0}\<close> as well.
\<close>

lemma clp_shr_const:
  assumes "c_kind a = K_VAL" "c_delta a = 0" "c_mtimes a = 0" "isConst b" "0 \<le> sint (c_lower b)" "unat (c_lower b) < 32"
  shows "\<exists>v. clp_shr a b = Inr v \<and> clp_gamma v = signed_drop_bit (unat (c_lower b)) ` clp_gamma a"
  using assms by (auto simp: clp_shr_def Let_def clp_gamma_val clp_gamma_VAL)

lemma clp_shr_misses:
  "\<exists>v. clp_shr (clp_set K_VAL 1 1 1) (clp_const 1) = Inr v \<and> 2 \<in> clp_gamma (clp_set K_VAL 1 1 1) \<and> 1 \<notin> clp_gamma v"
  "\<exists>v. clp_shr (clp_set K_VAL 2 2 1) (clp_const 2) = Inr v \<and> 4 \<in> clp_gamma (clp_set K_VAL 2 2 1) \<and> 1 \<notin> clp_gamma v"
proof -
  have "clp_shr (clp_set K_VAL 1 1 1) (clp_const 1) = Inr (clp_set K_VAL 0 1 0)"
    "clp_shr (clp_set K_VAL 2 2 1) (clp_const 2) = Inr (clp_set K_VAL 0 0 1)"
    by code_simp+
  moreover have "(2 :: 32 word) \<in> clp_gamma (clp_set K_VAL 1 1 1)" "(4 :: 32 word) \<in> clp_gamma (clp_set K_VAL 2 2 1)"
    unfolding clp_gamma_val by (rule image_eqI [of _ _ 1]; simp)+
  ultimately show "\<exists>v. clp_shr (clp_set K_VAL 1 1 1) (clp_const 1) = Inr v \<and> 2 \<in> clp_gamma (clp_set K_VAL 1 1 1) \<and> 1 \<notin> clp_gamma v"
    "\<exists>v. clp_shr (clp_set K_VAL 2 2 1) (clp_const 2) = Inr v \<and> 4 \<in> clp_gamma (clp_set K_VAL 2 2 1) \<and> 1 \<notin> clp_gamma v"
    by (auto simp: clp_gamma_val)
qed

lemma clp_or_sound:
  assumes "is_value a" "is_value b" "x \<in> clp_gamma a" "y \<in> clp_gamma b"
  shows "x OR y \<in> clp_gamma (clp_or a b)"
proof (cases "c_kind a = K_VAL \<and> c_kind b = K_VAL \<and> isConst a \<and> isConst b")
  case True
  then have "x = c_lower a" "y = c_lower b" using assms(3,4) clp_gamma_isConst by auto
  then show ?thesis using True by (auto simp: clp_or_def clp_gamma_def intro!: image_eqI [of _ _ 0])
next
  case False
  have "clp_or a b = clp_all"
    using False assms by (auto simp: is_value_def clp_or_def clp_all_def clp_none_def clp_gamma_def)
  then show ?thesis by simp
qed

subsection \<open>Join\<close>

text \<open>
  A value is flat when it does not go over the greatest signed integer, and well formed when
  a null step comes with a null count, as in every value the operations build.
\<close>

definition clp_flat :: "clp \<Rightarrow> bool" where
  "clp_flat v \<longleftrightarrow> sint (clp_start v) + \<bar>sint (c_delta v)\<bar> * uint (c_mtimes v) < 2 ^ 31"

definition clp_ok :: "clp \<Rightarrow> bool" where
  "clp_ok v \<longleftrightarrow> is_value v \<and> (c_delta v = 0 \<longrightarrow> c_mtimes v = 0)"

lemma elm_abs_of_int: "elm_abs d = word_of_int \<bar>sint d\<bar>"
  using uint_elm_abs [of d] by (metis word_of_int_uint)

lemma step_of_int: "s + of_nat i * elm_abs d = word_of_int (sint s + int i * \<bar>sint d\<bar>)"
  by (simp add: elm_abs_of_int)

lemma sdiv_nonneg: "0 \<le> a \<Longrightarrow> 0 < b \<Longrightarrow> a sdiv b = a div (b :: int)"
  by (cases "a = 0") (simp_all add: signed_divide_int_def)

lemma join_member:
  assumes g: "0 < g" "g dvd sint s - sint ls" "g dvd sint d"
    and le: "sint ls \<le> sint s" "sint s + \<bar>sint d\<bar> * uint m \<le> um" "um - sint ls < 2 ^ 32" and i: "i \<le> unat m"
  shows "s + of_nat i * elm_abs d \<in> clp_gamma (clp_set K_VAL ls (word_of_int g) (word_of_int ((um - sint ls) sdiv g)))"
proof -
  obtain p where p: "sint s - sint ls = g * p" using g(2) by auto
  obtain q where q: "\<bar>sint d\<bar> = g * q" using g(3) by (metis dvd_abs_iff dvdE)
  have pos: "0 \<le> p" "0 \<le> q"
    using p q le(1) g(1) abs_ge_zero [of "sint d"] by (metis diff_ge_0_iff_ge zero_le_mult_iff not_less)+
  let ?k = "p + int i * q"
  have k: "sint s + int i * \<bar>sint d\<bar> = sint ls + ?k * g" using p q by (simp add: algebra_simps)
  have "int i * \<bar>sint d\<bar> \<le> \<bar>sint d\<bar> * uint m"
    using i by (metis abs_ge_zero mult.commute mult_right_mono of_nat_le_iff uint_nat)
  then have "?k * g \<le> um - sint ls" using k le(2) by linarith
  then have kle: "?k \<le> (um - sint ls) div g" using g(1) by (simp add: zdiv_mono1 [of "?k * g" _ g, simplified])
  have nn: "0 \<le> um - sint ls" using pos g(1) \<open>?k * g \<le> um - sint ls\<close>
    by (metis add_nonneg_nonneg mult_nonneg_nonneg of_nat_0_le_iff less_imp_le order_trans)
  have "(um - sint ls) sdiv g = (um - sint ls) div g" using nn g(1) by (rule sdiv_nonneg)
  moreover have "(um - sint ls) div g \<le> um - sint ls" using zdiv_mono2 [of "um - sint ls" 1 g] nn g(1) by simp
  ultimately have u: "uint (word_of_int ((um - sint ls) sdiv g) :: 32 word) = (um - sint ls) div g"
    unfolding uint_word_of_int_eq using le(3) nn g(1)
    by (simp add: take_bit_int_eq_self pos_imp_zdiv_nonneg_iff)
  have "s + of_nat i * elm_abs d = ls + of_nat (nat ?k) * word_of_int g"
    using k pos by (simp add: step_of_int)
  moreover have "nat ?k \<le> unat (word_of_int ((um - sint ls) sdiv g) :: 32 word)"
    using kle u by (simp add: unat_eq_nat_uint nat_mono)
  ultimately show ?thesis unfolding clp_gamma_val by blast
qed

lemma sint_diff_small:
  fixes a b :: "32 word"
  assumes "\<bar>sint a - sint b\<bar> < 2 ^ 31"
  shows "sint (a - b) = sint a - sint b"
proof -
  have "signed_take_bit 31 (sint a - sint b) = sint a - sint b"
    using assms by (intro signed_take_bit_int_eq_self) auto
  then show ?thesis by (simp add: sint_word_diff)
qed

lemma clp_start_const: "isConst v \<Longrightarrow> clp_start v = c_lower v"
  by (auto simp: clp_start_def isConst_def)

lemma join_consts:
  assumes "\<bar>sint a - sint b\<bar> < 2 ^ 31"
  shows "{a, b} \<subseteq> clp_gamma (clp_set K_VAL (clp_min a b) (elm_abs (a - b)) 1)"
proof -
  have "{clp_min a b, clp_min a b + elm_abs (a - b)} = {a, b}"
    using sint_diff_small [OF assms] by (auto simp: clp_min_def elm_abs_def)
  moreover have "clp_gamma (clp_set K_VAL (clp_min a b) (elm_abs (a - b)) 1) = {clp_min a b, clp_min a b + elm_abs (a - b)}"
    by (auto simp: clp_gamma_val atMost_Suc)
  ultimately show ?thesis by simp
qed

lemma span32: "x < 2 ^ 31 \<Longrightarrow> - (2 ^ 31) \<le> y \<Longrightarrow> x - y < (2 ^ 32 :: int)"
  by simp

text \<open>The distance of the starts is taken on 32 bits: the join misses a constant that is 2^31 or more away.\<close>

lemma clp_join_misses:
  "\<exists>v. clp_join (clp_const 0x80000000) (clp_const 0x7FFFFFFF) = Inr v \<and> 0x7FFFFFFF \<in> clp_gamma (clp_const 0x7FFFFFFF) \<and>
     0x7FFFFFFF \<notin> clp_gamma v"
proof -
  have "clp_join (clp_const 0x80000000) (clp_const 0x7FFFFFFF) = Inr (clp_set K_VAL 0x80000000 1 1)" by code_simp
  then show ?thesis by (auto simp: clp_gamma_VAL clp_const_def le_Suc_eq)
qed

lemma clp_join_sound:
  assumes ok: "clp_ok a" "clp_ok b"
    and fl: "c_kind a = K_VAL \<Longrightarrow> c_kind b = K_VAL \<Longrightarrow>
      clp_flat a \<and> clp_flat b \<and> \<bar>sint (clp_start a) - sint (clp_start b)\<bar> < 2 ^ 31"
  shows "\<exists>v. clp_join a b = Inr v \<and> clp_gamma a \<union> clp_gamma b \<subseteq> clp_gamma v"
proof (cases "a = b \<or> c_kind a \<noteq> K_VAL \<or> c_kind b \<noteq> K_VAL")
  case True
  then consider "a = b" | "a \<noteq> b" "a = clp_all \<or> b = clp_all"
    | "a \<noteq> b" "a = clp_none" "c_kind b = K_VAL" | "a \<noteq> b" "c_kind a = K_VAL" "b = clp_none"
    using ok unfolding clp_ok_def is_value_def by blast
  then show ?thesis
  proof cases
    case 1
    then show ?thesis by (simp add: clp_join_def)
  next
    case 2
    then show ?thesis by (auto simp: clp_join_def)
  next
    case 3
    then have "clp_join a b = Inr (clp_set K_VAL (c_lower b) (c_delta b) (c_mtimes b))" by (simp add: clp_join_def)
    then show ?thesis using 3 by (simp add: clp_gamma_val clp_gamma_VAL)
  next
    case 4
    then show ?thesis by (simp add: clp_join_def)
  qed
next
  case False
  then have ne: "a \<noteq> b" and k: "c_kind a = K_VAL" "c_kind b = K_VAL" by auto
  note flat = fl [OF k]
  show ?thesis
  proof (cases "c_delta a = 0 \<and> c_mtimes a = 0 \<and> isConst b")
    case True
    then have c: "isConst a" "isConst b" by (auto simp: isConst_def)
    have "\<bar>sint (c_lower a) - sint (c_lower b)\<bar> < 2 ^ 31" using flat c by (simp add: clp_start_const)
    from join_consts [OF this] show ?thesis
      using True ne k c by (simp add: clp_join_def clp_gamma_isConst)
  next
    case nc: False
    let ?sa = "clp_start a" and ?sb = "clp_start b"
    let ?g = "gcd (gcd (uint (elm_abs (?sa - ?sb))) (sint (c_delta a))) (sint (c_delta b))"
    let ?ls = "clp_min ?sa ?sb"
    let ?u1 = "sint ?sa + uint (elm_abs (c_delta a)) * uint (c_mtimes a)"
    let ?u2 = "sint ?sb + uint (elm_abs (c_delta b)) * uint (c_mtimes b)"
    let ?um = "if ?u1 > ?u2 then ?u1 else ?u2"
    have dd: "uint (elm_abs (?sa - ?sb)) = \<bar>sint ?sa - sint ?sb\<bar>"
      using flat by (simp add: uint_elm_abs sint_diff_small)
    have "c_delta a \<noteq> 0 \<or> c_delta b \<noteq> 0" using nc ok by (auto simp: clp_ok_def isConst_def)
    then have "sint (c_delta a) \<noteq> 0 \<or> sint (c_delta b) \<noteq> 0" by (metis sint_0 signed_word_eqI)
    then have "?g \<noteq> 0" by simp
    then have g: "0 < ?g" using gcd_ge_0_int by (metis order_le_less)
    have gd: "?g dvd sint (c_delta a)" "?g dvd sint (c_delta b)" "?g dvd sint ?sa - sint ?sb"
      using dd by (metis gcd_dvd1 gcd_dvd2 dvd_trans dvd_abs_iff)+
    have ls: "sint ?ls \<le> sint ?sa" "sint ?ls \<le> sint ?sb" "?ls = ?sa \<or> ?ls = ?sb" by (auto simp: clp_min_def)
    have um: "?u1 \<le> ?um" "?u2 \<le> ?um" "?um < 2 ^ 31" using flat by (auto simp: clp_flat_def uint_elm_abs)
    have sp: "?um - sint ?ls < 2 ^ 32" by (rule span32 [OF um(3) sint_range32(1)])
    let ?v = "clp_set K_VAL ?ls (word_of_int ?g) (word_of_int ((?um - sint ?ls) sdiv ?g))"
    have c: "(a = b) = False" "(c_kind a = K_ALL \<or> c_kind b = K_ALL) = False" "(c_kind a = K_NONE) = False"
        "(c_kind b = K_NONE) = False" "(c_delta a = 0 \<and> c_mtimes a = 0 \<and> isConst b) = False"
        "(?g = 0 \<or> 2 ^ 63 \<le> ?um - sint ?ls) = False"
      using ne k nc \<open>?g \<noteq> 0\<close> sp by auto
    have "clp_join a b = Inr ?v"
      unfolding clp_join_def Let_def clp_gcd_gcd by (simp only: c if_False)
    moreover have "clp_gamma a \<subseteq> clp_gamma ?v"
    proof
      fix x assume "x \<in> clp_gamma a"
      then obtain i where i: "i \<le> unat (c_mtimes a)" "x = ?sa + of_nat i * elm_abs (c_delta a)"
        using gamma_from_start [OF k(1)] by auto
      have "?g dvd sint ?sa - sint ?ls" using gd(3) ls(3) by auto
      from join_member [OF g this gd(1) ls(1) _ sp i(1)] show "x \<in> clp_gamma ?v"
        using i(2) um(1) by (simp add: uint_elm_abs)
    qed
    moreover have "clp_gamma b \<subseteq> clp_gamma ?v"
    proof
      fix x assume "x \<in> clp_gamma b"
      then obtain i where i: "i \<le> unat (c_mtimes b)" "x = ?sb + of_nat i * elm_abs (c_delta b)"
        using gamma_from_start [OF k(2)] by auto
      have "?g dvd sint ?sb - sint ?ls" using gd(3) ls(3) by (auto simp: dvd_diff_commute)
      from join_member [OF g this gd(2) ls(2) _ sp i(1)] show "x \<in> clp_gamma ?v"
        using i(2) um(2) by (simp add: uint_elm_abs)
    qed
    ultimately show ?thesis by blast
  qed
qed

subsection \<open>Widening\<close>

lemma uint_diff_le: "sint b \<le> sint a \<Longrightarrow> uint (a - b) = sint a - sint (b :: 32 word)"
proof -
  assume le: "sint b \<le> sint a"
  have "a - b = word_of_int (sint a - sint b)" by simp
  then have "uint (a - b) = take_bit 32 (sint a - sint b)" by (simp only: uint_word_of_int_eq) simp
  also have "\<dots> = sint a - sint b"
    using le sint_range32 [of a] sint_range32 [of b] by (intro take_bit_int_eq_self) auto
  finally show ?thesis .
qed

lemma unat_diff_le: "sint b \<le> sint a \<Longrightarrow> unat (a - b) = nat (sint a - sint (b :: 32 word))"
  using uint_diff_le [of b a] by (simp add: unat_eq_nat_uint)

lemma sint_of_int32: "- (2 ^ 31) \<le> i \<Longrightarrow> i < 2 ^ 31 \<Longrightarrow> sint (word_of_int i :: 32 word) = i"
  by (simp add: sint_sbintrunc' signed_take_bit_int_eq_self)

lemma flat_stop:
  assumes "clp_flat v"
  shows "sint (clp_stop v) = sint (clp_start v) + \<bar>sint (c_delta v)\<bar> * uint (c_mtimes v)"
proof -
  have "clp_stop v = word_of_int (sint (clp_start v) + \<bar>sint (c_delta v)\<bar> * uint (c_mtimes v))"
    by (simp add: stop_start elm_abs_of_int mult.commute)
  moreover have "- (2 ^ 31) \<le> sint (clp_start v) + \<bar>sint (c_delta v)\<bar> * uint (c_mtimes v)"
    using sint_range32(1) [of "clp_start v"] by (meson abs_ge_zero add_increasing2 mult_nonneg_nonneg uint_ge_0)
  ultimately show ?thesis using assms unfolding clp_flat_def by (simp only: sint_of_int32)
qed

lemma steps_in_range:
  assumes "int k * \<bar>sint d\<bar> < 2 ^ 32" "d \<noteq> 0"
  shows "k \<le> unat (UMAXn div elm_abs d)"
proof -
  have "k * unat (elm_abs d) < 2 ^ 32"
    using assms(1) by (simp add: unat_elm_abs flip: of_nat_less_iff [where 'a = int])
  moreover have "0 < unat (elm_abs d)" using assms(2) by (simp add: unat_gt_0)
  ultimately show ?thesis by (simp add: unat_div UMAXn_def less_eq_div_iff_mult_less_eq)
qed

lemma flat_in_range:
  assumes "clp_flat v" "c_delta v \<noteq> 0" "i \<le> unat (c_mtimes v)"
  shows "i \<le> unat (UMAXn div elm_abs (c_delta v))"
proof (rule steps_in_range [OF _ assms(2)])
  have "\<bar>sint (c_delta v)\<bar> * uint (c_mtimes v) < 2 ^ 32"
    using assms(1) sint_range32(1) [of "clp_start v"] by (simp add: clp_flat_def)
  moreover have "int i * \<bar>sint (c_delta v)\<bar> \<le> \<bar>sint (c_delta v)\<bar> * uint (c_mtimes v)"
    using assms(3) by (metis abs_ge_zero mult.commute mult_right_mono of_nat_le_iff uint_nat)
  ultimately show "int i * \<bar>sint (c_delta v)\<bar> < 2 ^ 32" by linarith
qed

text \<open>The next value may be one step beyond the current one.\<close>

lemma flat_next_in_range:
  fixes e :: "32 word"
  assumes "clp_flat b" "c_delta b \<noteq> 0" "j \<le> unat (c_mtimes b)"
    and "sint e = sint (clp_stop b) + \<bar>sint (c_delta b)\<bar> \<or> sint e = sint (clp_start b) - \<bar>sint (c_delta b)\<bar>"
  shows "Suc j \<le> unat (UMAXn div elm_abs (c_delta b))"
proof (rule steps_in_range [OF _ assms(2)])
  have le: "int j * \<bar>sint (c_delta b)\<bar> \<le> \<bar>sint (c_delta b)\<bar> * uint (c_mtimes b)"
    using assms(3) by (metis abs_ge_zero mult.commute mult_right_mono of_nat_le_iff uint_nat)
  have "\<bar>sint (c_delta b)\<bar> * uint (c_mtimes b) + \<bar>sint (c_delta b)\<bar> < 2 ^ 32"
    using assms(1,4) flat_stop [OF assms(1)] sint_range32 [of e] sint_range32 [of "clp_start b"]
    by (auto simp: clp_flat_def)
  then show "int (Suc j) * \<bar>sint (c_delta b)\<bar> < 2 ^ 32" using le by (simp add: algebra_simps)
qed

lemma widen_down:
  assumes k: "c_kind a = K_VAL" "c_kind b = K_VAL" and fl: "clp_flat a" "clp_flat b" and d: "c_delta a \<noteq> 0"
    and le: "sint (clp_stop b) \<le> sint (clp_stop a)" and ad: "elm_abs (c_delta a) = elm_abs (c_delta b)"
    and st: "clp_stop a - clp_stop b = 0 \<or> clp_stop a - clp_stop b = elm_abs (c_delta a)"
  defines "v \<equiv> clp_set K_VAL (clp_stop a) (- elm_abs (c_delta a)) (UMAXn div elm_abs (c_delta a))"
  shows "clp_gamma a \<union> clp_gamma b \<subseteq> clp_gamma v"
proof -
  let ?d = "elm_abs (c_delta a)"
  have mem: "clp_stop a - of_nat i * ?d \<in> clp_gamma v" if "i \<le> unat (UMAXn div ?d)" for i
    using that by (auto simp: v_def clp_gamma_val)
  have db: "c_delta b \<noteq> 0" using ad d by (metis elm_abs_eq_0)
  have "clp_gamma a \<subseteq> clp_gamma v"
    using mem flat_in_range [OF fl(1) d] by (auto simp: gamma_from_stop [OF k(1)])
  moreover have "clp_stop b - of_nat j * ?d \<in> clp_gamma v" if j: "j \<le> unat (c_mtimes b)" for j
    using st
  proof
    assume "clp_stop a - clp_stop b = 0"
    then show ?thesis using mem [of j] flat_in_range [OF fl(2) db j] ad by simp
  next
    assume e: "clp_stop a - clp_stop b = ?d"
    then have "sint (clp_stop a) = sint (clp_stop b) + \<bar>sint (c_delta b)\<bar>"
      using uint_diff_le [OF le] ad uint_elm_abs [of "c_delta b"] by simp
    from flat_next_in_range [OF fl(2) db j disjI1 [OF this]] have "Suc j \<le> unat (UMAXn div ?d)" using ad by simp
    moreover have "clp_stop b - of_nat j * ?d = clp_stop a - of_nat (Suc j) * ?d"
      using e by (simp add: algebra_simps)
    ultimately show ?thesis using mem [of "Suc j"] by simp
  qed
  ultimately show ?thesis by (auto simp: gamma_from_stop [OF k(2)] ad)
qed

lemma widen_up:
  assumes k: "c_kind a = K_VAL" "c_kind b = K_VAL" and fl: "clp_flat a" "clp_flat b" and d: "c_delta a \<noteq> 0"
    and le: "sint (clp_start a) \<le> sint (clp_start b)" and ad: "elm_abs (c_delta a) = elm_abs (c_delta b)"
    and st: "clp_start b - clp_start a = 0 \<or> clp_start b - clp_start a = elm_abs (c_delta a)"
  defines "v \<equiv> clp_set K_VAL (clp_start a) (elm_abs (c_delta a)) (UMAXn div elm_abs (c_delta a))"
  shows "clp_gamma a \<union> clp_gamma b \<subseteq> clp_gamma v"
proof -
  let ?d = "elm_abs (c_delta a)"
  have mem: "clp_start a + of_nat i * ?d \<in> clp_gamma v" if "i \<le> unat (UMAXn div ?d)" for i
    using that by (auto simp: v_def clp_gamma_val)
  have db: "c_delta b \<noteq> 0" using ad d by (metis elm_abs_eq_0)
  have "clp_gamma a \<subseteq> clp_gamma v"
    using mem flat_in_range [OF fl(1) d] by (auto simp: gamma_from_start [OF k(1)])
  moreover have "clp_start b + of_nat j * ?d \<in> clp_gamma v" if j: "j \<le> unat (c_mtimes b)" for j
    using st
  proof
    assume "clp_start b - clp_start a = 0"
    then show ?thesis using mem [of j] flat_in_range [OF fl(2) db j] ad by simp
  next
    assume e: "clp_start b - clp_start a = ?d"
    then have "sint (clp_start a) = sint (clp_start b) - \<bar>sint (c_delta b)\<bar>"
      using uint_diff_le [OF le] ad uint_elm_abs [of "c_delta b"] by simp
    from flat_next_in_range [OF fl(2) db j disjI2 [OF this]] have "Suc j \<le> unat (UMAXn div ?d)" using ad by simp
    moreover have "clp_start b + of_nat j * ?d = clp_start a + of_nat (Suc j) * ?d"
      using e by (simp add: algebra_simps)
    ultimately show ?thesis using mem [of "Suc j"] by simp
  qed
  ultimately show ?thesis by (auto simp: gamma_from_start [OF k(2)] ad)
qed

lemma widen_consts:
  assumes "c_kind a = K_VAL" "c_kind b = K_VAL" "isConst a" "isConst b"
  shows "clp_gamma a \<union> clp_gamma b \<subseteq> clp_gamma (a\<lparr>c_delta := c_lower b - c_lower a, c_mtimes := UMAXn\<rparr>)"
  unfolding clp_gamma_isConst [OF assms(1,3)] clp_gamma_isConst [OF assms(2,4)]
  using assms(1) by (auto simp: clp_gamma_def UMAXn_def intro: image_eqI [of _ _ 0] image_eqI [of _ _ 1])

lemma clp_widening_sound:
  assumes k: "c_kind a = K_VAL" "c_kind b = K_VAL" and fl: "clp_flat a" "clp_flat b"
  shows "\<exists>v. clp_widening a b = Inr v \<and> clp_gamma a \<union> clp_gamma b \<subseteq> clp_gamma v"
proof -
  consider (eq) "a = b" | (const) "a \<noteq> b" "isConst a \<and> isConst b"
    | (down) "a \<noteq> b" "\<not> (isConst a \<and> isConst b)"
        "sint (clp_start b) \<le> sint (clp_start a) \<and> sint (clp_stop b) \<le> sint (clp_stop a)"
    | (up) "a \<noteq> b" "\<not> (isConst a \<and> isConst b)"
        "\<not> (sint (clp_start b) \<le> sint (clp_start a) \<and> sint (clp_stop b) \<le> sint (clp_stop a))"
        "sint (clp_start b) \<ge> sint (clp_start a) \<and> sint (clp_stop b) \<ge> sint (clp_stop a)"
    | (other) "a \<noteq> b" "\<not> (isConst a \<and> isConst b)"
        "\<not> (sint (clp_start b) \<le> sint (clp_start a) \<and> sint (clp_stop b) \<le> sint (clp_stop a))"
        "\<not> (sint (clp_start b) \<ge> sint (clp_start a) \<and> sint (clp_stop b) \<ge> sint (clp_stop a))" by blast
  then show ?thesis
  proof cases
    case eq
    then show ?thesis using k by (simp add: clp_widening_def)
  next
    case const
    then show ?thesis using k widen_consts [OF k] by (simp add: clp_widening_def)
  next
    case down
    let ?d = "elm_abs (c_delta a)"
    let ?one = "?d \<noteq> elm_abs (c_delta b) \<or> (clp_stop a - clp_stop b \<noteq> 0 \<and> clp_stop a - clp_stop b \<noteq> ?d) \<or>
      clp_start a - clp_start b \<noteq> ?d"
    have nz: "c_delta a \<noteq> 0" if "\<not> ?one"
    proof -
      have "c_delta b = 0 \<longleftrightarrow> c_delta a = 0" using that by (metis elm_abs_eq_0)
      then show ?thesis using down(2) by (auto simp: isConst_def)
    qed
    let ?v = "clp_set K_VAL (clp_stop a) (- (if ?one then 1 else ?d)) (UMAXn div (if ?one then 1 else ?d))"
    have "(if ?one then 1 else ?d) \<noteq> 0" using nz by auto
    then have "clp_widening a b = Inr ?v"
      unfolding clp_widening_def Let_def using k down by (simp only: if_False simp_thms clp_kind.simps if_True)
    moreover have "clp_gamma a \<union> clp_gamma b \<subseteq> clp_gamma ?v"
    proof (cases ?one)
      case True
      then have "?v = clp_set K_VAL (clp_stop a) (-1) UMAXn" by simp
      then show ?thesis by (simp add: full_circle)
    next
      case False
      then show ?thesis using widen_down [OF k fl nz [OF False]] down(3) by auto
    qed
    ultimately show ?thesis by blast
  next
    case up
    let ?d = "elm_abs (c_delta a)"
    let ?one = "?d \<noteq> elm_abs (c_delta b) \<or> (clp_start b - clp_start a \<noteq> 0 \<and> clp_start b - clp_start a \<noteq> ?d) \<or>
      clp_stop b - clp_stop a \<noteq> ?d"
    have nz: "c_delta a \<noteq> 0" if "\<not> ?one"
    proof -
      have "c_delta b = 0 \<longleftrightarrow> c_delta a = 0" using that by (metis elm_abs_eq_0)
      then show ?thesis using up(2) by (auto simp: isConst_def)
    qed
    let ?v = "clp_set K_VAL (clp_start a) (if ?one then 1 else ?d) (UMAXn div (if ?one then 1 else ?d))"
    have "(if ?one then 1 else ?d) \<noteq> 0" using nz by auto
    then have "clp_widening a b = Inr ?v"
      unfolding clp_widening_def Let_def using k up by (simp only: if_False simp_thms clp_kind.simps if_True)
    moreover have "clp_gamma a \<union> clp_gamma b \<subseteq> clp_gamma ?v"
    proof (cases ?one)
      case True
      then have "?v = clp_set K_VAL (clp_start a) 1 UMAXn" by simp
      then show ?thesis by (simp add: full_circle)
    next
      case False
      then show ?thesis using widen_up [OF k fl nz [OF False]] up(4) by auto
    qed
    ultimately show ?thesis by blast
  next
    case other
    then show ?thesis using k by (auto simp: clp_widening_def)
  qed
qed

text \<open>Widening the empty value keeps its kind, hence its emptiness.\<close>

lemma clp_widening_none:
  assumes "c_kind b = K_VAL" "isConst b"
  shows "\<exists>v. clp_widening clp_none b = Inr v \<and> clp_gamma v = {} \<and> clp_gamma b \<noteq> {}"
  using assms by (auto simp: clp_widening_def clp_none_def clp_gamma_def isConst_def)

text \<open>With a loop bound, two constants widen to the values of that many iterations.\<close>

lemma clp_ffwidening_consts:
  assumes "a \<noteq> b" "c_kind a = K_VAL" "c_kind b = K_VAL" "isConst a" "isConst b" "i \<le> unat n"
  shows "\<exists>v. clp_ffwidening a b n = Inr v \<and> c_lower a + of_nat i * (c_lower b - c_lower a) \<in> clp_gamma v"
proof (cases "sint (c_lower a) < sint (c_lower b)")
  case True
  then show ?thesis using assms by (auto simp: clp_ffwidening_def clp_gamma_val)
next
  case False
  let ?s = "c_lower a - c_lower b"
  have "c_lower a + of_nat i * (c_lower b - c_lower a) = c_lower a - n * ?s + of_nat (unat n - i) * ?s"
    using mult_split [OF assms(6), of ?s] by (simp add: algebra_simps)
  then have "c_lower a + of_nat i * (c_lower b - c_lower a) \<in> clp_gamma (clp_set K_VAL (c_lower a - n * ?s) ?s n)"
    unfolding clp_gamma_val by (rule image_eqI) simp
  then show ?thesis using False assms by (auto simp: clp_ffwidening_def Let_def)
qed

lemma clp_ffwidening_total: "\<exists>v. clp_ffwidening a b n = Inr v"
  by (auto simp: clp_ffwidening_def Let_def isConst_def)

subsection \<open>Filters\<close>

text \<open>A flat value is an interval of a progression of signed integers.\<close>

lemma flat_index:
  assumes "clp_flat v" "i \<le> unat (c_mtimes v)"
  shows "sint (clp_start v + of_nat i * elm_abs (c_delta v)) = sint (clp_start v) + int i * \<bar>sint (c_delta v)\<bar>"
proof -
  have "int i * \<bar>sint (c_delta v)\<bar> \<le> \<bar>sint (c_delta v)\<bar> * uint (c_mtimes v)"
    using assms(2) by (metis abs_ge_zero mult.commute mult_right_mono of_nat_le_iff uint_nat)
  then have "sint (clp_start v) + int i * \<bar>sint (c_delta v)\<bar> < 2 ^ 31" using assms(1) by (simp add: clp_flat_def)
  moreover have "- (2 ^ 31) \<le> sint (clp_start v) + int i * \<bar>sint (c_delta v)\<bar>"
    using sint_range32(1) [of "clp_start v"] by (simp add: add_increasing2)
  ultimately show ?thesis unfolding step_of_int by (intro sint_of_int32)
qed

lemma flat_member:
  assumes "c_kind v = K_VAL" "clp_flat v" "x \<in> clp_gamma v"
  obtains i where "i \<le> unat (c_mtimes v)" "x = clp_start v + of_nat i * elm_abs (c_delta v)"
    "sint x = sint (clp_start v) + int i * \<bar>sint (c_delta v)\<bar>"
  using assms flat_index [OF assms(2)] by (auto simp: gamma_from_start)

lemma flat_member_down:
  assumes k: "c_kind v = K_VAL" and fl: "clp_flat v" and d: "sint (c_delta v) < 0" and x: "x \<in> clp_gamma v"
  obtains i where "i \<le> unat (c_mtimes v)" "x = c_lower v + of_nat i * c_delta v"
    "sint x = sint (c_lower v) - int i * - sint (c_delta v)"
proof -
  obtain i where i: "i \<le> unat (c_mtimes v)" "x = c_lower v + of_nat i * c_delta v"
    using k x by (auto simp: clp_gamma_VAL)
  let ?j = "unat (c_mtimes v) - i"
  have "x = clp_start v + of_nat ?j * elm_abs (c_delta v)"
    using i d mult_split [OF i(1), of "c_delta v"] by (simp add: clp_start_def elm_abs_def mult.commute)
  then have "sint x = sint (clp_start v) + int ?j * \<bar>sint (c_delta v)\<bar>" using flat_index [OF fl, of ?j] by simp
  moreover have "sint (c_lower v) = sint (clp_start v) + \<bar>sint (c_delta v)\<bar> * uint (c_mtimes v)"
    using flat_stop [OF fl] d by (simp add: clp_stop_def)
  moreover have "int ?j = uint (c_mtimes v) - int i" using i(1) by (simp add: of_nat_diff)
  ultimately have "sint x = sint (c_lower v) - int i * - sint (c_delta v)"
    using d by (simp add: algebra_simps)
  then show ?thesis using that i by blast
qed

lemma int_div_nonneg:
  assumes "0 \<le> sint a" "0 < sint b"
  shows "unat (int_div a b) = nat (sint a div sint b)"
proof -
  have "0 \<le> sint a div sint b" using assms by (simp add: pos_imp_zdiv_nonneg_iff)
  moreover have "sint a div sint b \<le> sint a" using zdiv_mono2 [of "sint a" 1 "sint b"] assms by simp
  ultimately show ?thesis
    using assms sint_range32(2) [of a]
    by (simp add: int_div_def sdiv_nonneg unat_eq_nat_uint uint_word_of_int_eq take_bit_int_eq_self)
qed

lemma round_up_div: "0 < D \<Longrightarrow> (i * D + (D - 1)) div D = (i :: int)"
  by simp

lemma le_forward:
  assumes k: "c_kind a = K_VAL" and fl: "clp_flat a" and d: "0 < sint (c_delta a)" and x: "x \<in> clp_gamma a" "sint x \<le> sint t"
    and ov: "sint t - sint (c_lower a) < 2 ^ 31"
  shows "x \<in> clp_gamma (a\<lparr>c_mtimes := int_div (t - c_lower a) (c_delta a)\<rparr>)"
proof -
  have s: "clp_start a = c_lower a" "elm_abs (c_delta a) = c_delta a" using d by (auto simp: clp_start_def elm_abs_def)
  obtain i where i: "i \<le> unat (c_mtimes a)" "x = c_lower a + of_nat i * c_delta a"
      "sint x = sint (c_lower a) + int i * sint (c_delta a)"
    using flat_member [OF k fl x(1)] d s by auto
  have "0 \<le> sint t - sint (c_lower a)" using i(3) x(2) d by (smt (verit) mult_nonneg_nonneg of_nat_0_le_iff)
  then have sd: "sint (t - c_lower a) = sint t - sint (c_lower a)" using ov by (intro sint_diff_small) auto
  have "int i \<le> (sint t - sint (c_lower a)) div sint (c_delta a)"
    using i(3) x(2) d by (simp add: zdiv_mono1 [of "int i * sint (c_delta a)" _ "sint (c_delta a)", simplified])
  then have "i \<le> unat (int_div (t - c_lower a) (c_delta a))"
    using int_div_nonneg [of "t - c_lower a" "c_delta a"] sd d \<open>0 \<le> sint t - sint (c_lower a)\<close> by simp
  then show ?thesis using k i(2) by (auto simp: clp_gamma_def)
qed

lemma le_backward:
  assumes k: "c_kind a = K_VAL" and fl: "clp_flat a" and d: "sint (c_delta a) < 0" and x: "x \<in> clp_gamma a" "sint x \<le> sint t"
    and le: "sint t \<le> sint (c_lower a)" and ov: "sint (c_lower a) - sint t - sint (c_delta a) < 2 ^ 31"
  defines "s \<equiv> int_div (c_lower a - t - c_delta a - 1) (- c_delta a)"
  shows "0 \<le> sint s \<and> x \<in> clp_gamma (a\<lparr>c_lower := c_lower a + c_delta a * s, c_mtimes := c_mtimes a - s\<rparr>)"
proof -
  let ?D = "- sint (c_delta a)" and ?c = "sint (c_lower a) - sint t"
  have D: "0 < ?D" "?D < 2 ^ 31" using d ov le by linarith+
  have nd: "sint (- c_delta a) = ?D"
  proof -
    have "- c_delta a = word_of_int ?D" by simp
    then show ?thesis using D sint_of_int32 [of ?D] by (metis (no_types, lifting) dual_order.trans less_imp_le neg_le_0_iff_le zero_le_numeral zero_le_power)
  qed
  have num: "sint (c_lower a - t - c_delta a - 1) = ?c + ?D - 1"
  proof -
    have "c_lower a - t - c_delta a - 1 = word_of_int (?c + ?D - 1)" by simp
    moreover have "- (2 ^ 31) \<le> ?c + ?D - 1" "?c + ?D - 1 < 2 ^ 31" using le D ov by linarith+
    ultimately show ?thesis using sint_of_int32 by metis
  qed
  let ?q = "(?c + ?D - 1) div ?D"
  have "0 \<le> ?c + ?D - 1" using le D(1) by linarith
  then have us: "unat s = nat ?q" and q: "0 \<le> ?q" "?q \<le> ?c + ?D - 1"
    unfolding s_def using int_div_nonneg [of "c_lower a - t - c_delta a - 1" "- c_delta a"] num nd D(1)
      zdiv_mono2 [of "?c + ?D - 1" 1 ?D] by (simp_all add: pos_imp_zdiv_nonneg_iff)
  have "of_nat (unat s) = s" by simp
  then have "s = word_of_int ?q" using us q(1) by (metis int_nat_eq of_int_of_nat_eq)
  then have ss: "sint s = ?q" using q ov D by (auto intro!: sint_of_int32)
  obtain i where i: "i \<le> unat (c_mtimes a)" "x = c_lower a + of_nat i * c_delta a"
      "sint x = sint (c_lower a) - int i * ?D"
    using flat_member_down [OF k fl d x(1)] by blast
  have "?c + ?D - 1 \<le> int i * ?D + (?D - 1)" using i(3) x(2) by linarith
  then have "?q \<le> (int i * ?D + (?D - 1)) div ?D" using D(1) by (rule zdiv_mono1)
  also have "\<dots> = int i" by (rule round_up_div [OF D(1)])
  finally have si: "unat s \<le> i" using us by simp
  then have "unat (c_mtimes a - s) = unat (c_mtimes a) - unat s"
    using i(1) by (simp add: unat_sub word_le_nat_alt)
  moreover have "x = c_lower a + c_delta a * s + of_nat (i - unat s) * c_delta a"
    using i(2) si by (simp add: of_nat_diff algebra_simps)
  ultimately show ?thesis using ss q(1) k i(1) by (auto simp: clp_gamma_def)
qed

lemma swrap_flat_up:
  assumes "clp_flat a" "0 < sint (c_delta a)"
  shows "\<not> swrap a"
proof -
  have le: "sint (c_lower a) \<le> sint MAXn" using sint_range32(2) [of "c_lower a"] by (simp add: MAXn_def)
  have "int (unat (c_mtimes a)) * sint (c_delta a) \<le> uint (MAXn - c_lower a)"
    using assms uint_diff_le [OF le] by (simp add: clp_flat_def clp_start_def MAXn_def mult.commute)
  then have "unat (c_mtimes a) * unat (elm_abs (c_delta a)) \<le> unat (MAXn - c_lower a)"
    using assms(2) by (simp add: unat_elm_abs flip: of_nat_le_iff [where 'a = int])
  then have "c_mtimes a \<le> (MAXn - c_lower a) div elm_abs (c_delta a)"
    using assms(2) by (simp add: word_le_nat_alt unat_div less_eq_div_iff_mult_less_eq unat_elm_abs)
  then show ?thesis by (auto simp: swrap_def)
qed

text \<open>The wrap correction of a decreasing value only adds elements, down to the least integer.\<close>

lemma le_wrap_fix:
  assumes k: "c_kind a = K_VAL" and fl: "clp_flat a" and d: "sint (c_delta a) < 0" "- (2 ^ 31) < sint (c_delta a)"
  defines "b \<equiv> a\<lparr>c_mtimes := (MINn + c_lower a) div (- c_delta a)\<rparr>"
  shows "clp_flat b" "clp_gamma a \<subseteq> clp_gamma b"
proof -
  let ?D = "- sint (c_delta a)"
  have mn: "MINn + c_lower a = c_lower a - MINn" by (simp add: MINn_def)
  have "sint MINn = - (2 ^ 31)" by (simp add: MINn_def)
  then have u: "uint (MINn + c_lower a) = sint (c_lower a) + 2 ^ 31"
    unfolding mn using uint_diff_le [of MINn "c_lower a"] sint_range32(1) [of "c_lower a"] by simp
  have nd: "uint (- c_delta a) = ?D" using uint_elm_abs [of "c_delta a"] d(1) by (simp add: elm_abs_def)
  have ub: "uint (c_mtimes b) = (sint (c_lower a) + 2 ^ 31) div ?D"
    by (simp add: b_def uint_div u nd)
  have "?D * ((sint (c_lower a) + 2 ^ 31) div ?D) \<le> sint (c_lower a) + 2 ^ 31"
    using mult_div_mod_eq [of ?D "sint (c_lower a) + 2 ^ 31"] d(1) pos_mod_sign [of ?D] by (smt (verit))
  then have lo: "- (2 ^ 31) \<le> sint (c_lower a) - ?D * uint (c_mtimes b)" using ub by simp
  have hi: "sint (c_lower a) - ?D * uint (c_mtimes b) < 2 ^ 31"
    using sint_range32(2) [of "c_lower a"] d(1) by (smt (verit) mult_nonneg_nonneg uint_ge_0)
  have "clp_start b = word_of_int (sint (c_lower a) - ?D * uint (c_mtimes b))"
    using d(1) by (simp add: clp_start_def b_def)
  then have sb: "sint (clp_start b) = sint (c_lower a) - ?D * uint (c_mtimes b)"
    using sint_of_int32 [OF lo hi] by simp
  show "clp_flat b" using sb d(1) sint_range32(2) [of "c_lower a"] by (simp add: clp_flat_def b_def)
  have "sint (clp_start a) + ?D * uint (c_mtimes a) = sint (c_lower a)"
    using flat_stop [OF fl] d(1) by (simp add: clp_stop_def)
  then have "?D * uint (c_mtimes a) \<le> sint (c_lower a) + 2 ^ 31" using sint_range32(1) [of "clp_start a"] by linarith
  then have "uint (c_mtimes a) \<le> uint (c_mtimes b)"
    using d(1) ub zdiv_mono1 [of "?D * uint (c_mtimes a)" "sint (c_lower a) + 2 ^ 31" ?D] by simp
  then have "unat (c_mtimes a) \<le> unat (c_mtimes b)" by (simp only: word_le_def [symmetric] word_le_nat_alt)
  then show "clp_gamma a \<subseteq> clp_gamma b" using k by (auto simp: clp_gamma_def b_def)
qed

lemma clp_le_sound:
  assumes k: "c_kind a = K_VAL" and fl: "clp_flat a" and x: "x \<in> clp_gamma a" "sint x \<le> sint t"
    and ov: "\<bar>sint t - sint (c_lower a)\<bar> + \<bar>sint (c_delta a)\<bar> < 2 ^ 31"
  shows "\<exists>v. clp_le a t = Inr v \<and> x \<in> clp_gamma v"
proof (cases "isConst a")
  case True
  then have "x = c_lower a" using x(1) k by (simp add: clp_gamma_isConst)
  then show ?thesis using True x by (auto simp: clp_le_def)
next
  case nc: False
  have na: "a \<noteq> clp_all" "a \<noteq> clp_none" using k by (auto simp: clp_all_def clp_none_def)
  have "c_delta a \<noteq> 0" using nc by (simp add: isConst_def)
  then have "sint (c_delta a) \<noteq> 0" by (metis sint_0 signed_word_eqI)
  then consider (up) "0 < sint (c_delta a)" | (down) "sint (c_delta a) < 0" by linarith
  then show ?thesis
  proof cases
    case up
    obtain i where "sint x = sint (clp_start a) + int i * \<bar>sint (c_delta a)\<bar>" using flat_member [OF k fl x(1)] .
    then have "\<not> sint t < sint (clp_start a)" using x(2) by (smt (verit) abs_ge_zero mult_nonneg_nonneg of_nat_0_le_iff)
    moreover have "clp_le a t = le_apply a t" using na nc swrap_flat_up [OF fl up] by (simp add: clp_le_def le_unwrap_def)
    ultimately show ?thesis using up x(1) le_forward [OF k fl up x] ov by (auto simp: le_apply_def)
  next
    case down
    have "- (2 ^ 31) < sint (c_delta a)" using ov by linarith
    define b where "b = le_unwrap a"
    have b: "c_kind b = K_VAL" "c_lower b = c_lower a" "c_delta b = c_delta a" using k by (auto simp: b_def le_unwrap_def)
    have fb: "clp_flat b" and xb: "x \<in> clp_gamma b"
      using le_wrap_fix [OF k fl down] fl x(1) down \<open>- (2 ^ 31) < sint (c_delta a)\<close> by (auto simp: b_def le_unwrap_def)
    have db: "sint (c_delta b) < 0" using down b by simp
    obtain i where "sint x = sint (clp_start b) + int i * \<bar>sint (c_delta b)\<bar>" using flat_member [OF b(1) fb xb] .
    then have lo: "\<not> sint t < sint (clp_start b)" using x(2) by (smt (verit) abs_ge_zero mult_nonneg_nonneg of_nat_0_le_iff)
    have "clp_le a t = le_apply b t" using na nc by (simp add: clp_le_def b_def)
    moreover have "\<not> sint (clp_stop b) < sint t \<Longrightarrow> sint t \<le> sint (c_lower b)" using db by (simp add: clp_stop_def)
    ultimately show ?thesis
      using xb lo db le_backward [OF b(1) fb db xb x(2)] ov b by (auto simp: le_apply_def Let_def)
  qed
qed

lemma div_steps:
  fixes d ls e :: "32 word"
  assumes d: "0 < sint d" and le: "sint ls \<le> sint e" "int n * sint d \<le> sint e - sint ls"
  shows "n \<le> unat ((e - ls) div d)"
proof -
  have ud: "unat d = nat (sint d)" using unat_elm_abs [of d] d by (simp add: elm_abs_def)
  have "int (n * unat d) \<le> uint (e - ls)" using le ud d uint_diff_le [OF le(1)] by simp
  then have "n * unat d \<le> unat (e - ls)" by (simp flip: of_nat_le_iff [where 'a = int])
  then show ?thesis using ud d by (simp add: unat_div less_eq_div_iff_mult_less_eq)
qed

text \<open>The elements of a progression that an interval keeps.\<close>

lemma interval_keeps:
  fixes d l x ls e f :: "32 word"
  assumes d: "0 < sint d" and x: "x = l + of_nat i * d" "sint x = sint l + int i * sint d"
    and ls: "ls = l + of_nat j * d" "sint ls = sint l + int j * sint d" "sint ls \<le> sint x"
    and e: "sint x \<le> sint e" "sint x \<le> sint f"
  defines "ms \<equiv> clp_umin ((e - ls) div d) ((f - ls) div d)"
  shows "x \<in> clp_gamma (clp_set K_VAL ls (if ms = 0 then 0 else d) ms)"
proof -
  have "int j * sint d \<le> int i * sint d" using ls x by linarith
  then have ji: "j \<le> i" using d by simp
  have n: "int (i - j) * sint d = sint x - sint ls" using ls x ji by (simp add: of_nat_diff algebra_simps)
  have "i - j \<le> unat ((e - ls) div d)" "i - j \<le> unat ((f - ls) div d)"
    using n e ls(3) by (auto intro!: div_steps [OF d])
  then have m: "i - j \<le> unat ms" by (simp add: ms_def clp_umin_def)
  have xe: "x = ls + of_nat (i - j) * d" using x(1) ls(1) ji by (simp add: of_nat_diff algebra_simps)
  show ?thesis
  proof (cases "ms = 0")
    case True
    then show ?thesis using m xe by (simp add: clp_gamma_val)
  next
    case False
    then show ?thesis using m xe by (auto simp: clp_gamma_val)
  qed
qed

text \<open>Where the filtered progression starts: the first element from the threshold on.\<close>

lemma first_above:
  fixes x :: "32 word"
  assumes d: "0 < sint d" and lt: "sint l < sint t" and ov: "sint t - sint l + sint d < 2 ^ 31"
    and x: "sint t \<le> sint x" "sint x = sint l + int i * sint d"
  shows "\<exists>r j. roundup (t - l) d = Inr r \<and> clp_max l (r + l) = l + of_nat j * d \<and>
    sint (l + of_nat j * d) = sint l + int j * sint d \<and> j \<le> i"
proof -
  have uv: "uint (t - l) = sint t - sint l" using uint_diff_le [of l t] lt by simp
  then have unv: "unat (t - l) = nat (sint t - sint l)" by (simp add: unat_eq_nat_uint)
  have ud: "unat d = nat (sint d)" using unat_elm_abs [of d] d by (simp add: elm_abs_def)
  have "0 < t - l" "0 < d" using unv ud lt d by (auto simp: word_gt_0 simp flip: unat_eq_0 [where x = "t - l"])
  moreover have "unat (t - l) + unat d \<le> 2 ^ 32"
  proof -
    have "int (unat (t - l) + unat d) = sint t - sint l + sint d" using unv ud lt d by simp
    then have "int (unat (t - l) + unat d) \<le> int (2 ^ 32)" using ov by simp
    then show ?thesis by (simp only: of_nat_le_iff)
  qed
  ultimately obtain r where r: "roundup (t - l) d = Inr r" "unat d dvd unat r" "t - l \<le> r" "unat r < unat (t - l) + unat d"
    using roundup_spec by blast
  obtain j where j: "unat r = j * unat d" using r(2) by (metis dvdE mult.commute)
  have "of_nat (unat r) = r" "of_nat (unat d) = d" by simp_all
  then have rj: "r = of_nat j * d" using j by (metis of_nat_mult)
  have "j * nat (sint d) < nat (sint t - sint l) + nat (sint d)" using r(4) j unv ud by simp
  then have up: "int j * sint d < sint t - sint l + sint d"
    using d lt by (simp flip: of_nat_less_iff [where 'a = int])
  have "sint t - sint l + sint d \<le> int i * sint d + sint d" using x by linarith
  then have "int j * sint d < (int i + 1) * sint d" using up by (simp add: algebra_simps)
  then have ji: "j \<le> i" using d by simp
  have "l + of_nat j * d = word_of_int (sint l + int j * sint d)" by simp
  moreover have "- (2 ^ 31) \<le> sint l + int j * sint d" using sint_range32(1) [of l] d by (simp add: add_increasing2)
  moreover have "sint l + int j * sint d < 2 ^ 31"
  proof -
    have "int j * sint d \<le> int i * sint d" using ji d by simp
    then show ?thesis using x(2) sint_range32(2) [of x] by linarith
  qed
  ultimately have sj: "sint (l + of_nat j * d) = sint l + int j * sint d" using sint_of_int32 by metis
  have "0 < j" using r(3) j unv lt by (metis gr0I mult_0 order.strict_iff_order unat_0 word_le_nat_alt zero_less_diff zero_less_nat_eq leD diff_gt_0_iff_gt)
  then have "sint l < sint (r + l)" using sj d rj by (simp add: add.commute)
  then have "clp_max l (r + l) = l + of_nat j * d" by (simp add: clp_max_def rj add.commute)
  then show ?thesis using r(1) sj ji by blast
qed

text \<open>Below the lower bound, the rounding is right when the step is a power of two.\<close>

lemma below_lower:
  assumes d: "d = 2 ^ p" "p < 31" and le: "sint t \<le> sint l" and ov: "sint l - sint t < 2 ^ 31"
  shows "\<exists>r. roundup (t - l) d = Inr r \<and> clp_max l (r + l) = l"
proof -
  let ?D = "2 ^ p :: int" and ?c = "sint l - sint t" and ?M = "2 ^ 32 :: int"
  have D: "0 < ?D" by simp
  have "?D < 2 ^ 31" using d(2) by (intro power_strict_increasing) auto
  then have "uint (word_of_int ?D :: 32 word) = ?D" unfolding uint_word_of_int_eq by (intro take_bit_int_eq_self) auto
  then have ud: "uint d = ?D" using d(1) by (simp only: word_of_int_2p)
  have "t - l - 1 = word_of_int (?M - ?c - 1)" by simp
  then have "uint (t - l - 1) = take_bit 32 (?M - ?c - 1)" by (simp only: uint_word_of_int_eq) simp
  also have "\<dots> = ?M - ?c - 1" using le ov by (intro take_bit_int_eq_self) auto
  finally have uv: "uint (t - l - 1) = ?M - ?c - 1" .
  have "(?M - ?c - 1) div ?D = 2 ^ (32 - p) - ?c div ?D - 1"
  proof (rule int_div_pos_eq)
    have M: "?M = ?D * 2 ^ (32 - p)" using d(2) by (simp flip: power_add)
    show "?M - ?c - 1 = ?D * (2 ^ (32 - p) - ?c div ?D - 1) + (?D - 1 - ?c mod ?D)"
      unfolding M using mult_div_mod_eq [of ?D ?c] by (simp add: algebra_simps)
    show "0 \<le> ?D - 1 - ?c mod ?D" using pos_mod_bound [OF D, of ?c] by linarith
    show "?D - 1 - ?c mod ?D < ?D" using pos_mod_sign [OF D, of ?c] by linarith
  qed
  then have "(t - l - 1) div d = word_of_int (2 ^ (32 - p) - ?c div ?D - 1)"
    using uv ud by (simp add: word_div_def)
  then have "((t - l - 1) div d + 1) * d = word_of_int ((2 ^ (32 - p) - ?c div ?D) * ?D)"
    using d(1) by simp
  also have "(2 ^ (32 - p) - ?c div ?D) * ?D = ?M - ?c div ?D * ?D"
    using d(2) by (simp add: left_diff_distrib flip: power_add)
  finally have r: "((t - l - 1) div d + 1) * d + l = word_of_int (sint l - ?c div ?D * ?D)" by simp
  have "?c div ?D * ?D + ?c mod ?D = ?c" by (rule div_mult_mod_eq)
  then have q: "0 \<le> ?c div ?D * ?D" "?c div ?D * ?D \<le> ?c"
    using le pos_mod_sign [OF D, of ?c] by (simp add: pos_imp_zdiv_nonneg_iff, linarith)
  then have "sint (((t - l - 1) div d + 1) * d + l) = sint l - ?c div ?D * ?D"
    unfolding r using sint_range32 [of l] sint_range32 [of t] by (intro sint_of_int32) linarith+
  then have "clp_max l (((t - l - 1) div d + 1) * d + l) = l"
    using q by (cases "?c div ?D * ?D = 0") (auto simp: clp_max_def r)
  moreover have "d \<noteq> 0" using ud by auto
  ultimately show ?thesis by (simp add: roundup_def)
qed

lemma sint_threshold: "sint MAXn = 2 ^ 31 - 1" "sint (t :: 32 word) \<le> sint MAXn"
  using sint_range32(2) [of t] by (simp_all add: MAXn_def)

definition pow2_step :: "32 word \<Rightarrow> bool" where
  "pow2_step d \<longleftrightarrow> (\<exists>p < 31. d = 2 ^ p)"

lemma ge_start:
  fixes x :: "32 word"
  assumes "0 < sint d" "sint l < sint t \<or> pow2_step d" "\<bar>sint t - sint l\<bar> + sint d < 2 ^ 31"
    and "sint t \<le> sint x" "sint x = sint l + int i * sint d"
  shows "\<exists>r j. roundup (t - l) d = Inr r \<and> clp_max l (r + l) = l + of_nat j * d \<and>
    sint (l + of_nat j * d) = sint l + int j * sint d \<and> j \<le> i"
proof (cases "sint l < sint t")
  case True
  have "sint t - sint l + sint d < 2 ^ 31" using assms(3) True by linarith
  from first_above [OF assms(1) True this assms(4,5)] show ?thesis .
next
  case False
  then obtain p where "d = 2 ^ p" "p < 31" using assms(2) by (auto simp: pow2_step_def)
  then obtain r where "roundup (t - l) d = Inr r" "clp_max l (r + l) = l"
    using below_lower [of d p t l] False assms(1,3) by auto
  then show ?thesis by (intro exI [of _ r] exI [of _ 0]) simp
qed

lemma ge_meets:
  fixes x :: "32 word"
  assumes d: "0 < sint d" and i: "i \<le> unat m" "sint x = sint l + int i * sint d" and x: "sint t \<le> sint x"
  shows "(t - l) div d \<le> m \<or> l - t \<le> MAXn - t"
proof (cases "sint t \<le> sint l")
  case True
  then have "uint (l - t) \<le> uint (MAXn - t)"
    using uint_diff_le [OF True] uint_diff_le [of t MAXn] sint_threshold(2) [of t] sint_threshold(2) [of l] by simp
  then show ?thesis by (simp add: word_le_def)
next
  case False
  have ud: "unat d = nat (sint d)" using d unat_elm_abs [of d] by (simp add: elm_abs_def)
  have "unat (t - l) = nat (sint t - sint l)" using False by (intro unat_diff_le) simp
  also have "\<dots> \<le> nat (int i * sint d)" using i(2) x by (intro nat_mono) linarith
  also have "\<dots> = i * unat d" using d ud by (simp add: nat_mult_distrib)
  also have "\<dots> \<le> unat m * unat d" using i(1) by (rule mult_le_mono1)
  finally have "unat (t - l) div unat d \<le> unat m"
    using d ud by (metis div_le_mono nonzero_mult_div_cancel_right div_by_0 le0)
  then show ?thesis by (simp add: word_le_nat_alt unat_div)
qed

lemma exact_steps:
  assumes "0 < sint d" "sint (t - l) = int i * sint d" "i < 2 ^ 32"
  shows "int_rem (t - l) d = 0" "unat (int_div (t - l) d) = i"
proof -
  have "0 \<le> int i * sint d" using assms(1) by simp
  then have "sint (t - l) sdiv sint d = int i" using assms(1,2) by (simp add: sdiv_nonneg)
  moreover have "sint (t - l) smod sint d = sint (t - l) - sint (t - l) sdiv sint d * sint d"
    by (metis add_diff_cancel_left' sdiv_mult_smod_eq)
  ultimately show "int_rem (t - l) d = 0" "unat (int_div (t - l) d) = i"
    using assms(2,3) by (simp_all add: int_rem_def int_div_def unat_of_nat)
qed

text \<open>The cases of the intersection with an increasing interval.\<close>

lemma inter_same: "clp_inter_special a a = Some (Inr a)"
  by (simp add: clp_inter_special_def Let_def)

lemma inter_const_right:
  assumes "a \<noteq> b" "\<not> isTop a" "\<not> isTop b" "\<not> isConst a" "isConst b"
  shows "clp_inter_special a b = Some (Inr (if int_rem (c_lower b - c_lower a) (c_delta a) = 0 \<and>
      int_div (c_lower b - c_lower a) (c_delta a) \<le> c_mtimes a
    then clp_set K_VAL (clp_start b) 0 0 else clp_set K_NONE 0 0 0))"
  using assms by (simp add: clp_inter_special_def Let_def)

lemma inter_interval_cases:
  assumes "a \<noteq> b" "\<not> isTop a" "\<not> isTop b" "\<not> isConst a" "\<not> isConst b" "c_delta b = 1" "c_delta a \<noteq> -1"
    and "(clp_start b - clp_start a) div elm_abs (c_delta a) \<le> c_mtimes a \<or>
      (clp_start a - clp_start b) div elm_abs (c_delta b) \<le> c_mtimes b"
  shows "clp_inter_special a b = Some (if c_delta a = 1
    then inter_interval (clp_start a) (clp_stop a) (c_lower b) 1 (c_mtimes b) (clp_stop b)
    else inter_interval (clp_start b) (clp_stop b) (c_lower a) (c_delta a) (c_mtimes a) (clp_stop a))"
  using assms by (auto simp: clp_inter_special_def Let_def)

lemma unit_steps:
  fixes x t :: "32 word"
  assumes "sint t \<le> sint x"
  shows "x = t + of_nat (nat (sint x - sint t)) * 1" "sint x = sint t + int (nat (sint x - sint t)) * sint (1 :: 32 word)"
  using assms by simp_all

lemma clp_ge_up_sound:
  assumes k: "c_kind a = K_VAL" and fl: "clp_flat a" and d: "0 < sint (c_delta a)"
    and x: "x \<in> clp_gamma a" "sint t \<le> sint x"
    and ov: "\<bar>sint t - sint (c_lower a)\<bar> + sint (c_delta a) < 2 ^ 31"
    and rnd: "sint (c_lower a) < sint t \<or> pow2_step (c_delta a)"
  shows "\<exists>v. clp_ge a t = Inr v \<and> x \<in> clp_gamma v"
proof (cases "isConst a")
  case True
  then have "x = c_lower a" using x(1) k by (simp add: clp_gamma_isConst)
  then show ?thesis using True x by (auto simp: clp_ge_def)
next
  case nc: False
  let ?l = "c_lower a" and ?d = "c_delta a" and ?m = "c_mtimes a" and ?b = "clp_set K_VAL t 1 (MAXn - t)"
  have s: "clp_start a = ?l" "elm_abs ?d = ?d" "clp_stop a = ?l + ?d * ?m" using d by (auto simp: clp_start_def elm_abs_def clp_stop_def)
  obtain i where i: "i \<le> unat ?m" "x = ?l + of_nat i * ?d" "sint x = sint ?l + int i * sint ?d"
    using flat_member [OF k fl x(1)] d s by auto
  have xs: "sint x \<le> sint (clp_stop a)"
  proof -
    have "int i * sint ?d \<le> sint ?d * uint ?m"
      using i(1) d by (metis less_imp_le mult.commute mult_right_mono of_nat_le_iff uint_nat)
    then show ?thesis using i(3) flat_stop [OF fl] d s by simp
  qed
  have ge: "clp_ge a t = clp_inter_interval a ?b" using nc d k by (auto simp: clp_ge_def)
  have bs: "clp_start ?b = t" "clp_stop ?b = MAXn" "elm_abs 1 = 1" by (simp_all add: clp_start_def clp_stop_def elm_abs_def)
  have tops: "\<not> isTop a" "\<not> isTop ?b" using k by (simp_all add: isTop_def)
  have md: "?d \<noteq> -1" using d by auto
  have meets: "(clp_start ?b - clp_start a) div elm_abs ?d \<le> ?m \<or>
      (clp_start a - clp_start ?b) div elm_abs (c_delta ?b) \<le> c_mtimes ?b"
    using ge_meets [OF d i(1,3) x(2)] s bs by simp
  consider (eq) "a = ?b" | (const) "a \<noteq> ?b" "isConst ?b" | (one) "a \<noteq> ?b" "\<not> isConst ?b" "?d = 1"
    | (many) "a \<noteq> ?b" "\<not> isConst ?b" "?d \<noteq> 1" by blast
  then show ?thesis
  proof cases
    case eq
    then show ?thesis using ge x(1) inter_same [of a] by (simp add: clp_inter_interval_def)
  next
    case const
    then have "sint x = sint t" using x(2) sint_threshold(2) [of x] by (simp add: isConst_def)
    then have tm: "x = t" by (rule signed_word_eqI)
    then have "sint (t - ?l) = int i * sint ?d" using i(3) ov d by (subst sint_diff_small) auto
    from exact_steps [OF d this] have "int_rem (t - ?l) ?d = 0" "int_div (t - ?l) ?d \<le> ?m"
      using i(1) unat_bound [of ?m] by (simp_all add: word_le_nat_alt)
    then show ?thesis
      using ge tm inter_const_right [OF const(1) tops nc const(2)] bs by (simp add: clp_inter_interval_def clp_gamma_val)
  next
    case one
    have "clp_ge a t = inter_interval ?l (clp_stop a) t 1 (MAXn - t) MAXn"
      using ge inter_interval_cases [OF one(1) tops nc one(2) _ md meets] one(3) s bs by (simp add: clp_inter_interval_def)
    moreover have "roundup (?l - t) 1 = Inr (?l - t)" by (simp add: roundup_def)
    moreover have "sint ?l \<le> sint x" using i(3) d by simp
    ultimately show ?thesis
      using interval_keeps [OF _ unit_steps [OF x(2)] unit_steps [of t "clp_max t ?l"] _ xs sint_threshold(2)] x(2)
      by (simp add: inter_interval_def Let_def) (auto simp: clp_max_def)
  next
    case many
    have "clp_ge a t = inter_interval t MAXn ?l ?d ?m (clp_stop a)"
      using ge inter_interval_cases [OF many(1) tops nc many(2) _ md meets] many(3) s bs by (simp add: clp_inter_interval_def)
    moreover obtain r j where "roundup (t - ?l) ?d = Inr r" "clp_max ?l (r + ?l) = ?l + of_nat j * ?d"
        "sint (?l + of_nat j * ?d) = sint ?l + int j * sint ?d" "j \<le> i"
      using ge_start [OF d rnd ov x(2) i(3)] by blast
    ultimately show ?thesis
      using d interval_keeps [OF d i(2,3) refl _ _ sint_threshold(2) xs, of j] i(3)
      by (simp add: inter_interval_def Let_def mult_right_mono)
  qed
qed

text \<open>
  At or below the lower bound the rounding goes wrong for other steps: filtering
  \<open>{10, 13, \<dots>}\<close> by \<open>\<ge> 10\<close> starts the result at 12. A decreasing value that ends on the
  threshold is emptied, and so is an increasing one that starts on it in the unsigned case.
\<close>

lemma clp_ge_misses:
  "\<exists>v. clp_ge (clp_set K_VAL 10 3 5) 10 = Inr v \<and> 10 \<in> clp_gamma (clp_set K_VAL 10 3 5) \<and> 10 \<notin> clp_gamma v"
proof -
  have "clp_ge (clp_set K_VAL 10 3 5) 10 = Inr (clp_set K_VAL 12 3 4)" by code_simp
  moreover have "(10 :: 32 word) \<notin> clp_gamma (clp_set K_VAL 12 3 4)"
    unfolding clp_gamma_val by (simp add: atMost_nat_numeral atMost_Suc pred_numeral_simps)
  moreover have "(10 :: 32 word) \<in> clp_gamma (clp_set K_VAL 10 3 5)"
    unfolding clp_gamma_val by (rule image_eqI [of _ _ 0]) auto
  ultimately show ?thesis by blast
qed

lemma clp_ge_drops_bound:
  "clp_ge (clp_set K_VAL 10 (-2) 3) 10 = Inr clp_none" "clp_leu (clp_set K_VAL 10 2 3) 10 = Inr clp_none"
  by code_simp+

lemma clp_bound_member: "m \<in> clp_gamma (clp_set K_VAL m d n)"
  unfolding clp_gamma_val by (rule image_eqI [of _ _ 0]) auto

subsection \<open>Bitwise and\<close>

lemma field_low_props:
  assumes "k \<noteq> 0"
  shows "bit k (field_low k)" "field_low k < 32"
proof -
  obtain i where i: "i < 32" "bit k i"
  proof (rule ccontr)
    assume "\<not> thesis"
    then have "k = 0" using that by (intro bit_word_eqI) auto
    then show False using assms by simp
  qed
  have "takeWhile (\<lambda>i. \<not> bit k i) [0..<32] \<noteq> [0..<32]"
  proof
    assume "takeWhile (\<lambda>i. \<not> bit k i) [0..<32] = [0..<32]"
    then have "\<forall>j \<in> set [0..<32]. \<not> bit k j" by (simp only: takeWhile_eq_all_conv)
    then show False using i by auto
  qed
  then have lt: "length (takeWhile (\<lambda>i. \<not> bit k i) [0..<32]) < length [0..<32]"
    by (metis length_takeWhile_le order_le_neq_trans take_all_iff takeWhile_eq_take order_refl)
  then show "field_low k < 32" by (simp add: field_low_def)
  show "bit k (field_low k)" using nth_length_takeWhile [OF lt] lt by (simp add: field_low_def)
qed

lemma field_high_bit:
  assumes "bit k m" "m < 32"
  shows "bit k (field_high k m)"
proof -
  let ?w = "takeWhile (bit k) [m..<32]"
  have ne: "?w \<noteq> []" using assms by (simp add: upt_rec [of m 32])
  have "last ?w = [m..<32] ! (length ?w - 1)"
    using ne by (simp add: last_conv_nth takeWhile_nth)
  also have "\<dots> = m + (length ?w - 1)" using ne length_takeWhile_le [of "bit k" "[m..<32]"] assms(2)
    by (intro nth_upt) (cases ?w; auto)
  also have "\<dots> = field_high k m" using ne by (cases ?w) (auto simp: field_high_def)
  finally show ?thesis using last_in_set [OF ne] set_takeWhileD by metis
qed

text \<open>
  The test for a pure field keeps the field's highest bit, so that it always succeeds: a
  range masked by a constant other than 0 gives the full set.
\<close>

lemma clp_and_range:
  assumes "isConst a \<noteq> isConst b" "a \<noteq> clp_none" "b \<noteq> clp_none" "(if isConst a then c_lower a else c_lower b) \<noteq> 0"
  shows "clp_and a b = Inr clp_all"
proof -
  define k where "k = (if isConst a then c_lower a else c_lower b)"
  define n where "n = field_high k (field_low k)"
  have k: "k \<noteq> 0" using assms(4) by (simp add: k_def)
  have "bit k n" unfolding n_def by (rule field_high_bit [OF field_low_props [OF k]])
  then have "bit (k AND NOT (push_bit n 1 - 1)) n"
    using bit_imp_le_length [of k n] by (simp add: bit_simps push_bit_of_1 flip: mask_eq_exp_minus_1)
  then have "k AND NOT (push_bit n 1 - 1) \<noteq> 0" by (metis bit_0_eq bot_apply bot_bool_def)
  then show ?thesis using assms(1-3) k unfolding clp_and_def k_def [symmetric] n_def by (auto simp: Let_def)
qed

lemma clp_and_sound:
  assumes "is_value a" "is_value b" "x \<in> clp_gamma a" "y \<in> clp_gamma b"
  shows "\<exists>v. clp_and a b = Inr v \<and> x AND y \<in> clp_gamma v"
proof -
  have nn: "a \<noteq> clp_none" "b \<noteq> clp_none" using assms(3,4) by auto
  show ?thesis
  proof (cases "a = clp_all \<or> b = clp_all")
    case True
    then show ?thesis by (auto simp: clp_and_def)
  next
    case False
    then have k: "c_kind a = K_VAL" "c_kind b = K_VAL" using assms(1,2) nn by (auto simp: is_value_def)
    consider "isConst a" "isConst b" | "\<not> isConst a" "\<not> isConst b" | "isConst a \<noteq> isConst b" by blast
    then show ?thesis
    proof cases
      case 1
      then have "x = c_lower a" "y = c_lower b" using assms(3,4) k clp_gamma_isConst by auto
      then show ?thesis using 1 False nn by (simp add: clp_and_def and.commute)
    next
      case 2
      then show ?thesis using False nn by (simp add: clp_and_def)
    next
      case 3
      show ?thesis
      proof (cases "(if isConst a then c_lower a else c_lower b) = 0")
        case True
        then have "x AND y = 0" using 3 k assms(3,4) clp_gamma_isConst [of a] clp_gamma_isConst [of b] by (auto split: if_splits)
        moreover have "clp_and a b = Inr (clp_const 0)" using True 3 False nn by (auto simp: clp_and_def)
        ultimately show ?thesis by simp
      next
        case nz: False
        then show ?thesis using clp_and_range [OF 3 nn nz] by simp
      qed
    qed
  qed
qed

end
