(* ===== verification/Clp_State.thy ===== *)
theory Clp_State
  imports Clp_Value
begin

text \<open>
  Abstract states of the CLP analysis (otawa/include/otawa/data/clp/ClpState.h and the
  \<^verbatim>\<open>State\<close> methods of otawa/src/prog/clp_analysis.cpp). A state has a default value, the values
  of the registers and of the temporaries, and a list of memory cells sorted by address; a
  register, a temporary or a cell without a value may hold anything. The state whose default
  value is \<open>clp_none\<close> is the bottom.

  The linked list of nodes is a list of pairs, and \<open>mem_put\<close>, \<open>mem_get\<close> and \<open>mem_merge\<close> are
  its traversals. The locale \<open>cells\<close> states what a reader and a writer of cells promise; the
  memory list and the vectors of registers interpret it.
\<close>

subsection \<open>Memory cells\<close>

type_synonym mem = "(32 word \<times> clp) list"

fun mem_put :: "32 word \<Rightarrow> clp \<Rightarrow> mem \<Rightarrow> mem" where
  "mem_put a v [] = (if c_kind v \<noteq> K_ALL then [(a, v)] else [])"
| "mem_put a v ((b, w) # m) =
     (if b < a then (b, w) # mem_put a v m
      else if b = a then (if c_kind v \<noteq> K_ALL then (b, v) # m else m)
      else if c_kind v \<noteq> K_ALL then (a, v) # (b, w) # m
      else (b, w) # m)"

fun mem_get :: "clp \<Rightarrow> 32 word \<Rightarrow> mem \<Rightarrow> clp" where
  "mem_get d a [] = d"
| "mem_get d a ((b, w) # m) = (if b < a then mem_get d a m else if b = a then w else d)"

fun mem_merge :: "(clp \<Rightarrow> clp \<Rightarrow> clp res) \<Rightarrow> mem \<Rightarrow> mem \<Rightarrow> mem res" where
  "mem_merge f ((a, v) # m) ((b, w) # n) =
     (if a < b then mem_merge f m ((b, w) # n)
      else if a = b then rbind (f v w) (\<lambda>z.
        if c_kind z = K_ALL then mem_merge f m ((b, w) # n)
        else rbind (mem_merge f m n) (\<lambda>r. Inr ((a, z) # r)))
      else mem_merge f ((a, v) # m) n)"
| "mem_merge f [] n = Inr []"
| "mem_merge f m [] = Inr []"

text \<open>The comparison of two nodes compares the value of the first node with itself.\<close>

fun mem_equals :: "mem \<Rightarrow> mem \<Rightarrow> bool" where
  "mem_equals ((a, v) # m) ((b, w) # n) = (if a \<noteq> b then False else if v \<noteq> v then False else mem_equals m n)"
| "mem_equals [] [] = True"
| "mem_equals m n = False"

subsection \<open>Registers\<close>

text \<open>A register beyond the end of the vector is added, after as many full values as needed.\<close>

definition vals_put :: "nat \<Rightarrow> clp \<Rightarrow> clp list \<Rightarrow> clp list" where
  "vals_put i v xs = (if i < length xs then xs[i := v] else xs @ replicate (i - length xs) clp_all @ [v])"

definition vals_get :: "nat \<Rightarrow> clp list \<Rightarrow> clp" where
  "vals_get i xs = (if i < length xs then xs ! i else clp_all)"

fun vals_merge :: "(clp \<Rightarrow> clp \<Rightarrow> clp res) \<Rightarrow> clp list \<Rightarrow> clp list \<Rightarrow> clp list res" where
  "vals_merge f (x # xs) (y # ys) = rbind (f x y) (\<lambda>z. rbind (vals_merge f xs ys) (\<lambda>zs. Inr (z # zs)))"
| "vals_merge f [] ys = Inr ys"
| "vals_merge f xs [] = Inr xs"

subsection \<open>States\<close>

record clp_state =
  st_def :: clp
  st_mem :: mem
  st_regs :: "clp list"
  st_tmps :: "clp list"

definition st_new :: "clp \<Rightarrow> clp_state" where
  "st_new d = \<lparr>st_def = d, st_mem = [], st_regs = [], st_tmps = []\<rparr>"

definition st_EMPTY :: clp_state where "st_EMPTY = st_new clp_none"
definition st_FULL :: clp_state where "st_FULL = st_new clp_all"

definition st_clear :: "clp_state \<Rightarrow> clp_state" where
  "st_clear s = s\<lparr>st_regs := [], st_tmps := [], st_mem := []\<rparr>"

definition st_copy :: "clp_state \<Rightarrow> clp_state \<Rightarrow> clp_state" where
  "st_copy s t = (st_clear s)\<lparr>st_def := st_def t, st_mem := st_mem t, st_regs := st_regs t, st_tmps := st_tmps t\<rparr>"

definition st_clear_range :: "32 word \<Rightarrow> 32 word \<Rightarrow> clp_state \<Rightarrow> clp_state" where
  "st_clear_range base sz s =
     (if st_def s = clp_none then s
      else s\<lparr>st_mem := filter (\<lambda>(a, v). \<not> (base \<le> a \<and> a < base + sz)) (st_mem s)\<rparr>)"

definition st_set :: "clp \<Rightarrow> clp \<Rightarrow> clp_state \<Rightarrow> clp_state res" where
  "st_set addr v s =
     (if st_def s = clp_none then Inr s
      else if v = clp_none then Inr ((st_clear s)\<lparr>st_def := clp_none\<rparr>)
      else asserting (isConst addr \<or> addr = clp_all)
        (Inr (if c_kind addr = K_REG then
                if sint (c_lower addr) < 0 then s\<lparr>st_tmps := vals_put (nat (- sint (c_lower addr))) v (st_tmps s)\<rparr>
                else s\<lparr>st_regs := vals_put (nat (sint (c_lower addr))) v (st_regs s)\<rparr>
              else if addr = clp_all then s\<lparr>st_mem := []\<rparr>
              else s\<lparr>st_mem := mem_put (c_lower addr) v (st_mem s)\<rparr>)))"

definition st_get :: "clp \<Rightarrow> clp_state \<Rightarrow> clp res" where
  "st_get addr s = asserting (isConst addr)
     (Inr (if c_kind addr = K_REG then
             if sint (c_lower addr) < 0 then vals_get (nat (- sint (c_lower addr))) (st_tmps s)
             else vals_get (nat (sint (c_lower addr))) (st_regs s)
           else mem_get (st_def s) (c_lower addr) (st_mem s)))"

definition st_equals :: "clp_state \<Rightarrow> clp_state \<Rightarrow> bool" where
  "st_equals s t \<longleftrightarrow> length (st_regs s) = length (st_regs t) \<and>
     (\<forall>i \<in> set [0..<length (st_regs s)]. st_regs s ! i = st_regs t ! i) \<and>
     c_kind (st_def s) = c_kind (st_def t) \<and> mem_equals (st_mem s) (st_mem t)"

definition st_merge :: "(clp \<Rightarrow> clp \<Rightarrow> clp res) \<Rightarrow> clp_state \<Rightarrow> clp_state \<Rightarrow> clp_state res" where
  "st_merge f s t =
     (if st_def t = clp_none then Inr s
      else if st_def s = clp_none then Inr (st_copy s t)
      else rbind (vals_merge f (st_regs s) (st_regs t)) (\<lambda>rs.
        rbind (vals_merge f (st_tmps s) (st_tmps t)) (\<lambda>ts.
        rbind (mem_merge f (st_mem s) (st_mem t)) (\<lambda>m.
        Inr (s\<lparr>st_regs := rs, st_tmps := ts, st_mem := m\<rparr>)))))"

definition st_join :: "clp_state \<Rightarrow> clp_state \<Rightarrow> clp_state res" where
  "st_join = st_merge clp_join"

definition st_widening :: "clp_state \<Rightarrow> clp_state \<Rightarrow> int \<Rightarrow> clp_state res" where
  "st_widening s t loopBound = st_merge
     (\<lambda>v w. if loopBound \<ge> 0 then clp_ffwidening v w (word_of_int loopBound) else clp_widening v w) s t"

text \<open>The iterator gives the registers, then the memory cells, with their identifiers.\<close>

definition clp_reg :: "int \<Rightarrow> clp" where "clp_reg i = clp_set K_REG (word_of_int i) 0 0"

definition st_iter :: "clp_state \<Rightarrow> (clp \<times> clp) list" where
  "st_iter s = map (\<lambda>i. (clp_reg (int i), st_regs s ! i)) [0..<length (st_regs s)] @
     map (\<lambda>(a, v). (clp_const a, v)) (st_mem s)"

subsection \<open>What a store of cells promises\<close>

locale cells =
  fixes put :: "'k \<Rightarrow> clp \<Rightarrow> 'm \<Rightarrow> 'm" and get :: "'k \<Rightarrow> 'm \<Rightarrow> clp" and ok :: "'m \<Rightarrow> bool"
  assumes ok_put: "ok m \<Longrightarrow> ok (put k v m)"
    and get_put_same: "ok m \<Longrightarrow> c_kind v \<noteq> K_ALL \<or> v = clp_all \<Longrightarrow> get k (put k v m) = v"
    and get_put_other: "ok m \<Longrightarrow> k' \<noteq> k \<Longrightarrow> get k' (put k v m) = get k' m"
begin

text \<open>The concrete stores that a store of cells describes, and their updates.\<close>

definition rep :: "'m \<Rightarrow> ('k \<Rightarrow> 32 word) \<Rightarrow> bool" where
  "rep m c \<longleftrightarrow> (\<forall>k. c k \<in> clp_gamma (get k m))"

lemma rep_put:
  assumes "ok m" "rep m c" "c_kind v \<noteq> K_ALL \<or> v = clp_all" "x \<in> clp_gamma v"
  shows "rep (put k v m) (c(k := x))"
  using assms get_put_same [of m v k] get_put_other [of m _ k v] by (auto simp: rep_def)

lemma rep_put_weak:
  assumes "ok m" "rep m c" "c_kind v \<noteq> K_ALL \<or> v = clp_all" "c k \<in> clp_gamma v"
  shows "rep (put k v m) c"
  using rep_put [OF assms(1-3), of "c k" k] assms(4) by simp

lemma get_fold_put:
  assumes "ok m" "c_kind v \<noteq> K_ALL \<or> v = clp_all"
  shows "ok (fold (\<lambda>k. put k v) ks m)"
    and "get k' (fold (\<lambda>k. put k v) ks m) = (if k' \<in> set ks then v else get k' m)"
proof -
  have "ok (fold (\<lambda>k. put k v) ks m) \<and>
      get k' (fold (\<lambda>k. put k v) ks m) = (if k' \<in> set ks then v else get k' m)"
  proof (induction ks rule: rev_induct)
    case Nil
    then show ?case using assms(1) by simp
  next
    case (snoc k ks)
    then show ?case
      using ok_put get_put_same [OF _ assms(2), of _ k] get_put_other [of _ k' k v] by (cases "k' = k") auto
  qed
  then show "ok (fold (\<lambda>k. put k v) ks m)"
    "get k' (fold (\<lambda>k. put k v) ks m) = (if k' \<in> set ks then v else get k' m)" by auto
qed

end

subsection \<open>The memory list is a sorted map\<close>

definition mem_ok :: "mem \<Rightarrow> bool" where
  "mem_ok m \<longleftrightarrow> sorted_wrt (<) (map fst m) \<and> (\<forall>(a, v) \<in> set m. c_kind v \<noteq> K_ALL)"

lemma mem_ok_Nil [simp]: "mem_ok []"
  by (simp add: mem_ok_def)

lemma mem_ok_Cons: "mem_ok ((a, v) # m) \<longleftrightarrow> (\<forall>(b, w) \<in> set m. a < b) \<and> c_kind v \<noteq> K_ALL \<and> mem_ok m"
  by (auto simp: mem_ok_def)

lemma set_mem_put: "set (mem_put a v m) \<subseteq> insert (a, v) (set m)"
  by (induction a v m rule: mem_put.induct) auto

lemma mem_ok_put: "mem_ok m \<Longrightarrow> mem_ok (mem_put a v m)"
proof (induction a v m rule: mem_put.induct)
  case (1 a v)
  then show ?case by (simp add: mem_ok_Cons)
next
  case (2 a v b w m)
  then show ?case using set_mem_put [of a v m] by (fastforce simp: mem_ok_Cons)
qed

lemma mem_ok_filter: "mem_ok m \<Longrightarrow> mem_ok (filter P m)"
  by (induction m) (auto simp: mem_ok_Cons)

lemma mem_get_map_of: "mem_ok m \<Longrightarrow> mem_get d a m = (case map_of m a of Some v \<Rightarrow> v | None \<Rightarrow> d)"
proof (induction d a m rule: mem_get.induct)
  case (1 d a)
  then show ?case by simp
next
  case (2 d a b w m)
  then show ?case by (auto simp: mem_ok_Cons split: option.splits dest: map_of_SomeD)
qed

lemma map_of_mem_put:
  assumes "mem_ok m"
  shows "map_of (mem_put a v m) = (if c_kind v = K_ALL then (map_of m)(a := None) else (map_of m)(a \<mapsto> v))"
  using assms
proof (induction a v m rule: mem_put.induct)
  case (1 a v)
  then show ?case by auto
next
  case (2 a v b w m)
  have "map_of m a = None" if "a \<le> b" using 2(2) that by (fastforce simp: mem_ok_Cons map_of_eq_None_iff)
  then show ?case using 2 by (auto simp: mem_ok_Cons fun_eq_iff)
qed

text \<open>Cells whose default is the full value, the only default of a state that is not bottom.\<close>

interpretation mc: cells mem_put "mem_get clp_all" mem_ok
proof unfold_locales
  fix m k v assume ok: "mem_ok m"
  show "mem_ok (mem_put k v m)" by (rule mem_ok_put [OF ok])
  show "c_kind v \<noteq> K_ALL \<or> v = clp_all \<Longrightarrow> mem_get clp_all k (mem_put k v m) = v"
    using mem_ok_put [OF ok] by (auto simp: mem_get_map_of map_of_mem_put [OF ok])
  show "k' \<noteq> k \<Longrightarrow> mem_get clp_all k' (mem_put k v m) = mem_get clp_all k' m" for k'
    using ok mem_ok_put [OF ok] by (simp add: mem_get_map_of map_of_mem_put [OF ok])
qed

lemma vals_get_put: "vals_get j (vals_put i v xs) = (if j = i then v else vals_get j xs)"
  by (auto simp: vals_get_def vals_put_def nth_append nth_Cons split: nat.splits)

interpretation vc: cells vals_put vals_get "\<lambda>_. True"
  by unfold_locales (simp_all add: vals_get_put)

subsection \<open>Machine states\<close>

text \<open>A variable of a semantic instruction is a register when it is not negative, else a temporary.\<close>

record machine =
  m_regs :: "nat \<Rightarrow> 32 word"
  m_tmps :: "nat \<Rightarrow> 32 word"
  m_mem :: "32 word \<Rightarrow> 32 word"

definition m_get :: "machine \<Rightarrow> int \<Rightarrow> 32 word" where
  "m_get M i = (if i < 0 then m_tmps M (nat (- i)) else m_regs M (nat i))"

definition m_set :: "machine \<Rightarrow> int \<Rightarrow> 32 word \<Rightarrow> machine" where
  "m_set M i x = (if i < 0 then M\<lparr>m_tmps := (m_tmps M)(nat (- i) := x)\<rparr> else M\<lparr>m_regs := (m_regs M)(nat i := x)\<rparr>)"

definition st_rep :: "clp_state \<Rightarrow> machine \<Rightarrow> bool" where
  "st_rep s M \<longleftrightarrow> st_def s = clp_all \<and> mem_ok (st_mem s) \<and> mc.rep (st_mem s) (m_mem M) \<and>
     vc.rep (st_regs s) (m_regs M) \<and> vc.rep (st_tmps s) (m_tmps M)"

lemma all_neq_none [simp]: "clp_all \<noteq> clp_none" "clp_none \<noteq> clp_all"
  by (simp_all add: clp_all_def clp_none_def clp_set_def)

lemma st_FULL_rep: "st_rep st_FULL M"
  by (simp add: st_rep_def st_FULL_def st_new_def mc.rep_def vc.rep_def vals_get_def)

lemma st_EMPTY_rep: "\<not> st_rep st_EMPTY M"
  by (simp add: st_rep_def st_EMPTY_def st_new_def)

definition proper :: "clp \<Rightarrow> bool" where
  "proper v \<longleftrightarrow> c_kind v \<noteq> K_ALL \<or> v = clp_all"

definition var_ok :: "int \<Rightarrow> bool" where
  "var_ok i \<longleftrightarrow> - (2 ^ 15) \<le> i \<and> i < 2 ^ 15"

lemma sint_var: "var_ok i \<Longrightarrow> sint (c_lower (clp_reg i)) = i"
  unfolding clp_reg_def clp_set_fields by (rule sint_of_int32) (auto simp: var_ok_def)

lemma clp_reg_fields [simp]: "c_kind (clp_reg i) = K_REG" "isConst (clp_reg i)" "clp_reg i \<noteq> clp_all"
  by (auto simp: clp_reg_def isConst_def clp_all_def clp_set_def)

lemma st_get_var:
  assumes "st_rep s M" "var_ok i"
  shows "\<exists>v. st_get (clp_reg i) s = Inr v \<and> m_get M i \<in> clp_gamma v"
  using assms by (auto simp: st_get_def sint_var m_get_def st_rep_def vc.rep_def)

lemma st_set_var:
  assumes "st_rep s M" "var_ok i" "proper v" "x \<in> clp_gamma v"
  shows "\<exists>s'. st_set (clp_reg i) v s = Inr s' \<and> st_rep s' (m_set M i x)"
proof -
  have "v \<noteq> clp_none" using assms(4) by auto
  then show ?thesis
    using assms vc.rep_put [of "st_tmps s" "m_tmps M" v x] vc.rep_put [of "st_regs s" "m_regs M" v x]
    by (auto simp: st_set_def st_rep_def sint_var m_set_def proper_def)
qed

lemma st_get_mem:
  assumes "st_rep s M" "c_kind a = K_VAL" "isConst a"
  shows "\<exists>v. st_get a s = Inr v \<and> m_mem M (c_lower a) \<in> clp_gamma v"
  using assms by (auto simp: st_get_def st_rep_def mc.rep_def)

lemma st_set_mem:
  assumes "st_rep s M" "c_kind a = K_VAL" "isConst a" "proper v" "x \<in> clp_gamma v"
  shows "\<exists>s'. st_set a v s = Inr s' \<and> st_rep s' (M\<lparr>m_mem := (m_mem M)(c_lower a := x)\<rparr>)"
proof -
  have "v \<noteq> clp_none" "a \<noteq> clp_all" using assms(2,5) by auto
  then show ?thesis
    using assms mc.rep_put [of "st_mem s" "m_mem M" v x] mem_ok_put by (auto simp: st_set_def st_rep_def proper_def)
qed

lemma st_set_all:
  assumes "st_rep s M" "v \<noteq> clp_none"
  shows "\<exists>s'. st_set clp_all v s = Inr s' \<and> st_rep s' (M\<lparr>m_mem := c\<rparr>)"
  using assms by (auto simp: st_set_def st_rep_def mc.rep_def)

lemma st_set_bottom: "st_def s \<noteq> clp_none \<Longrightarrow> st_set a clp_none s = Inr st_EMPTY"
  by (simp add: st_set_def st_clear_def st_EMPTY_def st_new_def)

text \<open>Clearing an area only forgets cells.\<close>

lemma mem_get_filter:
  assumes "mem_ok m"
  shows "mem_get clp_all k (filter (\<lambda>(a, v). P a) m) = (if P k then mem_get clp_all k m else clp_all)"
proof -
  have "map_of (filter (\<lambda>(a, v). P a) m) k = (if P k then map_of m k else None)"
    by (induction m) auto
  then show ?thesis using assms mem_ok_filter [OF assms] by (simp add: mem_get_map_of)
qed

lemma st_clear_range_rep:
  assumes "st_rep s M" "\<And>a. \<not> (base \<le> a \<and> a < base + sz) \<Longrightarrow> c a = m_mem M a"
  shows "st_rep (st_clear_range base sz s) (M\<lparr>m_mem := c\<rparr>)"
  using assms mem_get_filter [of "st_mem s" _ "\<lambda>a. \<not> (base \<le> a \<and> a < base + sz)"] mem_ok_filter [of "st_mem s"]
  by (auto simp: st_clear_range_def st_rep_def mc.rep_def)

subsection \<open>Merging states\<close>

definition sound_at :: "(clp \<Rightarrow> clp \<Rightarrow> clp res) \<Rightarrow> clp \<Rightarrow> clp \<Rightarrow> bool" where
  "sound_at f v w \<longleftrightarrow> (\<exists>z. f v w = Inr z \<and> clp_gamma v \<union> clp_gamma w \<subseteq> clp_gamma z)"

lemma vals_merge_sound:
  assumes "length xs = length ys" "\<And>i. i < length xs \<Longrightarrow> sound_at f (xs ! i) (ys ! i)"
  shows "\<exists>zs. vals_merge f xs ys = Inr zs \<and> length zs = length xs \<and>
    (\<forall>i < length xs. clp_gamma (xs ! i) \<union> clp_gamma (ys ! i) \<subseteq> clp_gamma (zs ! i))"
  using assms
proof (induction f xs ys rule: vals_merge.induct)
  case (1 f x xs y ys)
  obtain z where z: "f x y = Inr z" "clp_gamma x \<union> clp_gamma y \<subseteq> clp_gamma z"
    using 1(3) [of 0] by (auto simp: sound_at_def)
  have "sound_at f (xs ! i) (ys ! i)" if "i < length xs" for i using 1(3) [of "Suc i"] that by simp
  then obtain zs where "vals_merge f xs ys = Inr zs" "length zs = length xs"
      "\<forall>i < length xs. clp_gamma (xs ! i) \<union> clp_gamma (ys ! i) \<subseteq> clp_gamma (zs ! i)"
    using 1(1) 1(2) by auto
  then show ?case using z by (auto simp: nth_Cons split: nat.splits)
qed auto

lemma vals_merge_rep:
  assumes "length xs = length ys" "\<And>i. i < length xs \<Longrightarrow> sound_at f (xs ! i) (ys ! i)"
  shows "\<exists>zs. vals_merge f xs ys = Inr zs \<and> (\<forall>c. vc.rep xs c \<or> vc.rep ys c \<longrightarrow> vc.rep zs c)"
proof -
  obtain zs where "vals_merge f xs ys = Inr zs" "length zs = length xs"
      "\<forall>i < length xs. clp_gamma (xs ! i) \<union> clp_gamma (ys ! i) \<subseteq> clp_gamma (zs ! i)"
    using vals_merge_sound [OF assms] by blast
  then show ?thesis using assms(1) by (intro exI [of _ zs]) (auto simp: vc.rep_def vals_get_def)
qed

lemma mem_get_Cons:
  "mem_ok ((b, w) # m) \<Longrightarrow> mem_get clp_all k ((b, w) # m) = (if k = b then w else mem_get clp_all k m)"
  by (subst mem_get_map_of, assumption) (simp add: mem_get_map_of mem_ok_Cons)

declare mem_get.simps(2) [simp del]

lemma mem_get_nokey: "mem_ok m \<Longrightarrow> k \<notin> fst ` set m \<Longrightarrow> mem_get clp_all k m = clp_all"
  by (simp add: mem_get_map_of map_of_eq_None_iff [THEN iffD2])

lemma mem_ok_nokey: "mem_ok ((b, w) # m) \<Longrightarrow> k \<le> b \<Longrightarrow> k \<notin> fst ` set m"
  by (fastforce simp: mem_ok_Cons)

text \<open>\<open>covers r m n\<close>: the cells of \<open>r\<close> are those of \<open>m\<close> at most, and hold what both memories hold.\<close>

definition covers :: "mem \<Rightarrow> mem \<Rightarrow> mem \<Rightarrow> bool" where
  "covers r m n \<longleftrightarrow> mem_ok r \<and> fst ` set r \<subseteq> fst ` set m \<and>
     (\<forall>k. clp_gamma (mem_get clp_all k m) \<union> clp_gamma (mem_get clp_all k n) \<subseteq> clp_gamma (mem_get clp_all k r))"

lemma covers_skip_left:
  assumes "mem_ok ((a, v) # m)" "covers r m n"
  shows "covers r ((a, v) # m) n"
proof -
  have "a \<notin> fst ` set m" by (rule mem_ok_nokey [OF assms(1)]) simp
  then have "mem_get clp_all a r = clp_all" using assms(2) by (intro mem_get_nokey) (auto simp: covers_def)
  then show ?thesis using assms by (auto simp: covers_def mem_get_Cons)
qed

lemma covers_skip_right:
  assumes "mem_ok ((b, w) # n)" "covers r m n" "b \<notin> fst ` set m"
  shows "covers r m ((b, w) # n)"
proof -
  have "mem_get clp_all b r = clp_all" using assms by (intro mem_get_nokey) (auto simp: covers_def)
  then show ?thesis using assms by (auto simp: covers_def mem_get_Cons)
qed

lemma covers_both:
  assumes "mem_ok ((a, v) # m)" "mem_ok ((a, w) # n)" "covers r m n" "c_kind z \<noteq> K_ALL"
    and "clp_gamma v \<union> clp_gamma w \<subseteq> clp_gamma z"
  shows "covers ((a, z) # r) ((a, v) # m) ((a, w) # n)"
proof -
  have "mem_ok ((a, z) # r)" using assms(1,3,4) by (fastforce simp: covers_def mem_ok_Cons)
  then show ?thesis using assms by (auto simp: covers_def mem_get_Cons)
qed

lemma mem_merge_sound:
  assumes "mem_ok m" "mem_ok n" "\<And>a v w. (a, v) \<in> set m \<Longrightarrow> (a, w) \<in> set n \<Longrightarrow> sound_at f v w"
  shows "\<exists>r. mem_merge f m n = Inr r \<and> covers r m n"
  using assms
proof (induction f m n rule: mem_merge.induct)
  case (1 f a v m b w n)
  have ok: "mem_ok m" "mem_ok n" using "1.prems"(1,2) by (auto simp: mem_ok_Cons)
  consider (less) "a < b" | (eq) "a = b" | (greater) "b < a" by (rule linorder_cases)
  then show ?case
  proof cases
    case less
    then obtain r where "mem_merge f m ((b, w) # n) = Inr r" "covers r m ((b, w) # n)"
      using "1.IH"(1) [OF less ok(1) "1.prems"(2)] "1.prems"(3) by (meson list.set_intros)
    then show ?thesis using less covers_skip_left [OF "1.prems"(1)] by auto
  next
    case eq
    obtain z where z: "f v w = Inr z" "clp_gamma v \<union> clp_gamma w \<subseteq> clp_gamma z"
      using "1.prems"(3) [of a v w] eq by (auto simp: sound_at_def)
    show ?thesis
    proof (cases "c_kind z = K_ALL")
      case True
      then obtain r where "mem_merge f m ((b, w) # n) = Inr r" "covers r m ((b, w) # n)"
        using "1.IH"(2) [OF _ eq True ok(1) "1.prems"(2)] "1.prems"(3) eq by (meson list.set_intros order_less_irrefl)
      then show ?thesis using covers_skip_left [OF "1.prems"(1)] eq z True by auto
    next
      case False
      then obtain r where "mem_merge f m n = Inr r" "covers r m n"
        using "1.IH"(3) [OF _ eq False ok] "1.prems"(3) eq by (meson list.set_intros order_less_irrefl)
      then show ?thesis
        using covers_both [of a v m w n r z] "1.prems"(1,2) eq z False by auto
    qed
  next
    case greater
    then have "b \<notin> fst ` set ((a, v) # m)" using mem_ok_nokey [OF "1.prems"(1), of b] by auto
    moreover have "\<not> a < b" "a \<noteq> b" using greater by auto
    then obtain r where "mem_merge f ((a, v) # m) n = Inr r" "covers r ((a, v) # m) n"
      using "1.IH"(4) [OF _ _ "1.prems"(1) ok(2)] "1.prems"(3) by (meson list.set_intros(2))
    ultimately show ?thesis using greater covers_skip_right [OF "1.prems"(2)] by auto
  qed
qed (auto simp: covers_def mem_get_map_of)

definition cells_sound :: "(clp \<Rightarrow> clp \<Rightarrow> clp res) \<Rightarrow> mem \<Rightarrow> mem \<Rightarrow> bool" where
  "cells_sound f m n \<longleftrightarrow> (\<forall>(a, v) \<in> set m. \<forall>(b, w) \<in> set n. a = b \<longrightarrow> sound_at f v w)"

lemma mem_merge_rep:
  assumes "mem_ok m" "mem_ok n" "cells_sound f m n"
  shows "\<exists>r. mem_merge f m n = Inr r \<and> mem_ok r \<and> (\<forall>c. mc.rep m c \<or> mc.rep n c \<longrightarrow> mc.rep r c)"
proof -
  have "sound_at f v w" if "(a, v) \<in> set m" "(a, w) \<in> set n" for a v w
    using bspec [OF bspec [OF assms(3) [unfolded cells_sound_def] that(1), simplified] that(2)] by simp
  then obtain r where "mem_merge f m n = Inr r" "covers r m n" using mem_merge_sound [OF assms(1,2)] by metis
  then show ?thesis by (intro exI [of _ r]) (auto simp: covers_def mc.rep_def; meson subsetD)
qed

text \<open>Two states of the same shape whose values merge soundly.\<close>

definition mergeable :: "(clp \<Rightarrow> clp \<Rightarrow> clp res) \<Rightarrow> clp_state \<Rightarrow> clp_state \<Rightarrow> bool" where
  "mergeable f s t \<longleftrightarrow>
     length (st_regs s) = length (st_regs t) \<and> length (st_tmps s) = length (st_tmps t) \<and>
     (\<forall>i < length (st_regs s). sound_at f (st_regs s ! i) (st_regs t ! i)) \<and>
     (\<forall>i < length (st_tmps s). sound_at f (st_tmps s ! i) (st_tmps t ! i)) \<and>
     cells_sound f (st_mem s) (st_mem t)"

lemma st_merge_sound:
  assumes d: "st_def s = clp_all" "st_def t = clp_all" and ok: "mem_ok (st_mem s)" "mem_ok (st_mem t)"
    and m: "mergeable f s t"
  shows "\<exists>u. st_merge f s t = Inr u \<and> (\<forall>M. st_rep s M \<or> st_rep t M \<longrightarrow> st_rep u M)"
proof -
  obtain rs where rs: "vals_merge f (st_regs s) (st_regs t) = Inr rs"
      "\<And>c. vc.rep (st_regs s) c \<or> vc.rep (st_regs t) c \<Longrightarrow> vc.rep rs c"
    using vals_merge_rep [of "st_regs s" "st_regs t" f] m by (auto simp: mergeable_def)
  obtain ts where ts: "vals_merge f (st_tmps s) (st_tmps t) = Inr ts"
      "\<And>c. vc.rep (st_tmps s) c \<or> vc.rep (st_tmps t) c \<Longrightarrow> vc.rep ts c"
    using vals_merge_rep [of "st_tmps s" "st_tmps t" f] m by (auto simp: mergeable_def)
  obtain r where r: "mem_merge f (st_mem s) (st_mem t) = Inr r" "mem_ok r"
      "\<And>c. mc.rep (st_mem s) c \<or> mc.rep (st_mem t) c \<Longrightarrow> mc.rep r c"
    using mem_merge_rep [OF ok, of f] m by (auto simp: mergeable_def)
  have "st_merge f s t = Inr (s\<lparr>st_regs := rs, st_tmps := ts, st_mem := r\<rparr>)"
    using d rs(1) ts(1) r(1) by (simp add: st_merge_def)
  then show ?thesis using d rs(2) ts(2) r(2,3) by (auto simp: st_rep_def)
qed

text \<open>
  Values whose join is known to cover both, and states whose values are such: progressions of
  the signed range that start less than half of it apart.
\<close>

definition clp_close :: "clp \<Rightarrow> clp \<Rightarrow> bool" where
  "clp_close v w \<longleftrightarrow> v = w \<or> clp_ok v \<and> clp_ok w \<and> (c_kind v = K_VAL \<and> c_kind w = K_VAL \<longrightarrow>
     clp_flat v \<and> clp_flat w \<and> \<bar>sint (clp_start v) - sint (clp_start w)\<bar> < 2 ^ 31)"

definition st_close :: "clp_state \<Rightarrow> clp_state \<Rightarrow> bool" where
  "st_close s t \<longleftrightarrow> st_def s = clp_all \<and> st_def t = clp_all \<and> mem_ok (st_mem s) \<and> mem_ok (st_mem t) \<and>
     list_all2 clp_close (st_regs s) (st_regs t) \<and> list_all2 clp_close (st_tmps s) (st_tmps t) \<and>
     (\<forall>(a, v) \<in> set (st_mem s). \<forall>(b, w) \<in> set (st_mem t). a = b \<longrightarrow> clp_close v w)"

lemma clp_close_sound: "clp_close v w \<Longrightarrow> sound_at clp_join v w"
  using clp_join_sound [of v w] by (auto simp: clp_close_def sound_at_def clp_join_def)

lemma st_close_mergeable: "st_close s t \<Longrightarrow> mergeable clp_join s t"
  unfolding st_close_def mergeable_def cells_sound_def
  by (intro conjI) (simp_all add: list_all2_conv_all_nth clp_close_sound, blast intro: clp_close_sound)

lemma st_join_sound:
  assumes "st_close s t"
  shows "\<exists>u. st_join s t = Inr u \<and> (\<forall>M. st_rep s M \<or> st_rep t M \<longrightarrow> st_rep u M)"
  using st_merge_sound [OF _ _ _ _ st_close_mergeable [OF assms]] assms unfolding st_join_def st_close_def by blast

lemma st_merge_bottom:
  "st_def t = clp_none \<Longrightarrow> st_merge f s t = Inr s"
  "st_def s = clp_none \<Longrightarrow> st_def t \<noteq> clp_none \<Longrightarrow> st_merge f s t = Inr t"
  by (simp_all add: st_merge_def st_copy_def st_clear_def)

text \<open>
  The values of a register that only one of two states tracks are not joined: the state
  without the register may hold anything there, the join keeps the other state's value.
\<close>

lemma st_join_unbalanced:
  "\<exists>s t u M. st_rep s M \<and> st_join s t = Inr u \<and> \<not> st_rep u M \<and> mem_ok (st_mem t) \<and> st_def t = clp_all"
proof -
  let ?t = "st_FULL\<lparr>st_regs := [clp_const 1]\<rparr>"
  let ?M = "\<lparr>m_regs = \<lambda>_. 0, m_tmps = \<lambda>_. 0, m_mem = \<lambda>_. 0\<rparr>"
  have "st_join st_FULL ?t = Inr ?t" by (simp add: st_join_def st_merge_def st_FULL_def st_new_def)
  moreover have "\<not> st_rep ?t ?M" by (auto simp: st_rep_def vc.rep_def vals_get_def intro!: exI [of _ 0])
  ultimately show ?thesis
    using st_FULL_rep [of ?M] by (intro exI [of _ st_FULL] exI [of _ ?t] exI [of _ ?M]) (simp add: st_FULL_def st_new_def)
qed

text \<open>The equality test of states does not look at the values in memory.\<close>

lemma st_equals_blind: "st_equals (st_FULL\<lparr>st_mem := [(a, v)]\<rparr>) (st_FULL\<lparr>st_mem := [(a, w)]\<rparr>)"
  by (simp add: st_equals_def st_FULL_def st_new_def)

lemma st_equals_refl: "st_equals s s"
proof -
  have "mem_equals m m" for m by (induction m) auto
  then show ?thesis by (simp add: st_equals_def)
qed

end
