(* ===== verification/Sem_Inst.thy ===== *)
theory Sem_Inst
  imports Otawa_Base
begin

text \<open>
  Semantic instructions (otawa/include/otawa/sem/inst.h, otawa/src/prog/sem.cpp): the
  architecture-independent instructions into which a machine instruction is translated, and
  the iterator over the paths of a block of them (otawa/include/otawa/sem/PathIter.h).

  The two 16-bit operands \<open>a\<close> and \<open>b\<close> and the 32-bit constant share their storage in the
  source; every instruction uses one or the other, so that the record has all three.
  The enumerators keep their names behind a prefix.
\<close>

datatype opcode = S_NOP | S_BRANCH | S_TRAP | S_CONT | S_IF | S_LOAD | S_STORE | S_SCRATCH | S_SET | S_SETI
  | S_SETP | S_CMP | S_CMPU | S_ADD | S_SUB | S_SHL | S_SHR | S_ASR | S_NEG | S_NOT | S_AND | S_OR | S_XOR
  | S_MUL | S_MULU | S_DIV | S_DIVU | S_MOD | S_MODU | S_SPEC

datatype sem_cond = C_NO_COND | C_EQ | C_LT | C_LE | C_GE | C_GT | C_ANY_COND | C_NE | C_ULT | C_ULE | C_UGE | C_UGT
  | C_MAX_COND

datatype sem_type = T_NO_TYPE | T_INT8 | T_INT16 | T_INT32 | T_INT64 | T_UINT8 | T_UINT16 | T_UINT32 | T_UINT64
  | T_FLOAT32 | T_FLOAT64 | T_MAX_TYPE

record sem_inst =
  i_op :: opcode
  i_d :: int
  i_a :: int
  i_b :: int
  i_cst :: "32 word"

definition inst0 :: "opcode \<Rightarrow> sem_inst" where
  "inst0 op = \<lparr>i_op = op, i_d = 0, i_a = 0, i_b = 0, i_cst = 0\<rparr>"

text \<open>The fields are 16-bit integers.\<close>

definition s16 :: "int \<Rightarrow> int" where
  "s16 i = sint (word_of_int i :: 16 word)"

lemma s16_small [simp]: "s16 0 = 0" "s16 1 = 1" "\<lbrakk>- 32768 \<le> i; i < 32768\<rbrakk> \<Longrightarrow> s16 i = i"
  by (simp_all add: s16_def signed_take_bit_int_eq_self sint_sbintrunc')

definition inst1 :: "opcode \<Rightarrow> int \<Rightarrow> sem_inst" where
  "inst1 op d = (inst0 op)\<lparr>i_d := s16 d\<rparr>"

definition inst2 :: "opcode \<Rightarrow> int \<Rightarrow> int \<Rightarrow> sem_inst" where
  "inst2 op d a = (inst0 op)\<lparr>i_d := s16 d, i_a := s16 a\<rparr>"

definition inst3 :: "opcode \<Rightarrow> int \<Rightarrow> int \<Rightarrow> int \<Rightarrow> sem_inst" where
  "inst3 op d a b = (inst0 op)\<lparr>i_d := s16 d, i_a := s16 a, i_b := s16 b\<rparr>"

definition cond_code :: "sem_cond \<Rightarrow> int" where
  "cond_code c = (case c of C_NO_COND \<Rightarrow> 0 | C_EQ \<Rightarrow> 1 | C_LT \<Rightarrow> 2 | C_LE \<Rightarrow> 3 | C_GE \<Rightarrow> 4 | C_GT \<Rightarrow> 5
     | C_ANY_COND \<Rightarrow> 8 | C_NE \<Rightarrow> 9 | C_ULT \<Rightarrow> 10 | C_ULE \<Rightarrow> 11 | C_UGE \<Rightarrow> 12 | C_UGT \<Rightarrow> 13 | C_MAX_COND \<Rightarrow> 14)"

definition type_code :: "sem_type \<Rightarrow> int" where
  "type_code t = (case t of T_NO_TYPE \<Rightarrow> 0 | T_INT8 \<Rightarrow> 1 | T_INT16 \<Rightarrow> 2 | T_INT32 \<Rightarrow> 3 | T_INT64 \<Rightarrow> 4 | T_UINT8 \<Rightarrow> 5
     | T_UINT16 \<Rightarrow> 6 | T_UINT32 \<Rightarrow> 7 | T_UINT64 \<Rightarrow> 8 | T_FLOAT32 \<Rightarrow> 9 | T_FLOAT64 \<Rightarrow> 10 | T_MAX_TYPE \<Rightarrow> 11)"

definition sem_if :: "int \<Rightarrow> int \<Rightarrow> int \<Rightarrow> sem_inst res" where
  "sem_if cond sr jump = asserting (cond \<ge> 0 \<and> cond < cond_code C_MAX_COND) (Inr (inst3 S_IF cond sr jump))"

definition sem_cont :: sem_inst where "sem_cont = inst0 S_CONT"
definition sem_seti :: "int \<Rightarrow> 32 word \<Rightarrow> sem_inst" where "sem_seti d k = (inst1 S_SETI d)\<lparr>i_cst := k\<rparr>"

subsection \<open>Conditions and types\<close>

definition invs :: "sem_cond list" where
  "invs = [C_NO_COND, C_NE, C_GE, C_GT, C_LT, C_LE, C_NO_COND, C_NO_COND, C_ANY_COND, C_EQ, C_UGE, C_UGT, C_ULT, C_ULE]"

definition invert :: "sem_cond \<Rightarrow> sem_cond res" where
  "invert c = asserting (cond_code c < cond_code C_MAX_COND) (Inr (invs ! nat (cond_code c)))"

definition sizes :: "int list" where
  "sizes = [0, 1, 2, 4, 8, 1, 2, 4, 8, 4, 8]"

definition type_size :: "sem_type \<Rightarrow> int res" where
  "type_size t = (if nat (type_code t) < length sizes then Inr (sizes ! nat (type_code t)) else Inl OutOfBounds)"

text \<open>What a condition means for two numbers, in their signed and unsigned readings.\<close>

definition cond_holds :: "sem_cond \<Rightarrow> 32 word \<Rightarrow> 32 word \<Rightarrow> bool" where
  "cond_holds c x y = (case c of C_EQ \<Rightarrow> x = y | C_NE \<Rightarrow> x \<noteq> y
     | C_LT \<Rightarrow> sint x < sint y | C_LE \<Rightarrow> sint x \<le> sint y | C_GE \<Rightarrow> sint x \<ge> sint y | C_GT \<Rightarrow> sint x > sint y
     | C_ULT \<Rightarrow> x < y | C_ULE \<Rightarrow> x \<le> y | C_UGE \<Rightarrow> x \<ge> y | C_UGT \<Rightarrow> x > y | _ \<Rightarrow> True)"

lemma invert_total: "c \<noteq> C_MAX_COND \<Longrightarrow> \<exists>c'. invert c = Inr c' \<and> c' \<noteq> C_MAX_COND"
  by (cases c) (simp_all add: invert_def cond_code_def invs_def)

lemma invert_fault: "invert C_MAX_COND = Inl AssertFail"
  by (simp add: invert_def)

lemma invert_involution: "invert c = Inr c' \<Longrightarrow> invert c' = Inr c"
  by (cases c) (auto simp: invert_def cond_code_def invs_def)

lemma invert_negates:
  assumes "invert c = Inr c'" "c \<noteq> C_NO_COND" "c \<noteq> C_ANY_COND"
  shows "cond_holds c' x y \<longleftrightarrow> \<not> cond_holds c x y"
  using assms by (cases c) (auto simp: invert_def cond_code_def invs_def cond_holds_def)

lemma type_size_total: "t \<noteq> T_MAX_TYPE \<Longrightarrow> \<exists>k. type_size t = Inr k \<and> k \<in> {0, 1, 2, 4, 8}"
  by (cases t) (simp_all add: type_size_def type_code_def sizes_def)

subsection \<open>Paths\<close>

text \<open>The iterator's state: the block ended by a \<open>cont\<close>, the program counter and the stack of paths to do.\<close>

record path_iter =
  pi_bb :: "sem_inst list"
  pi_todo :: "int list"
  pi_pc :: int

definition bb_at :: "sem_inst list \<Rightarrow> int \<Rightarrow> sem_inst res" where
  "bb_at b p = (if p < 0 then Inl OutOfBounds else asserting (p < int (length b)) (Inr (b ! nat p)))"

definition pi_start :: "sem_inst list \<Rightarrow> path_iter" where
  "pi_start b = \<lparr>pi_bb = b @ [sem_cont], pi_todo = [], pi_pc = 0\<rparr>"

definition pi_pathEnd :: "path_iter \<Rightarrow> bool res" where
  "pi_pathEnd p = rbind (bb_at (pi_bb p) (pi_pc p)) (\<lambda>i. Inr (i_op i = S_CONT))"

definition pi_isCond :: "path_iter \<Rightarrow> bool res" where
  "pi_isCond p = rbind (bb_at (pi_bb p) (pi_pc p)) (\<lambda>i. Inr (i_op i = S_IF))"

definition pi_ended :: "path_iter \<Rightarrow> bool res" where
  "pi_ended p = rbind (pi_pathEnd p) (\<lambda>e. Inr (e \<and> pi_todo p = []))"

definition pi_item :: "path_iter \<Rightarrow> sem_inst res" where
  "pi_item p = bb_at (pi_bb p) (pi_pc p)"

text \<open>\<^verbatim>\<open>jump()\<close> is the operand \<open>b\<close> read as an unsigned 16-bit number.\<close>

definition i_jump :: "sem_inst \<Rightarrow> int" where
  "i_jump i = i_b i mod 2 ^ 16"

definition pi_next :: "path_iter \<Rightarrow> path_iter res" where
  "pi_next p = rbind (pi_pathEnd p) (\<lambda>e.
     if e then asserting (pi_todo p \<noteq> []) (Inr (p\<lparr>pi_pc := last (pi_todo p), pi_todo := butlast (pi_todo p)\<rparr>))
     else rbind (pi_item p) (\<lambda>i.
       Inr (p\<lparr>pi_todo := (if i_op i = S_IF then pi_todo p @ [pi_pc p + i_jump i] else pi_todo p),
              pi_pc := pi_pc p + 1\<rparr>)))"

text \<open>
  An \<open>if\<close> with a null jump comes back to itself: the iteration never ends. The interpreter of
  the CLP analysis resumes one instruction further.
\<close>

lemma pi_null_jump:
  assumes "sem_if c sr 0 = Inr i"
  shows "\<exists>s. pi_next (pi_start [i]) = Inr s \<and> pi_next s = Inr (pi_start [i])"
proof -
  have i: "i_op i = S_IF" "i_b i = 0" using assms by (auto simp: sem_if_def inst3_def inst0_def res_simps)
  let ?s = "(pi_start [i])\<lparr>pi_todo := [0], pi_pc := 1\<rparr>"
  have "pi_next (pi_start [i]) = Inr ?s"
    by (simp add: pi_start_def pi_next_def pi_pathEnd_def pi_item_def bb_at_def i i_jump_def)
  moreover have "pi_next ?s = Inr (pi_start [i])"
    by (simp add: pi_start_def pi_next_def pi_pathEnd_def bb_at_def sem_cont_def inst0_def)
  ultimately show ?thesis by blast
qed

end
