(* ===== verification/Clp_Problem.thy ===== *)
theory Clp_Problem
  imports Clp_State Sem_Inst
begin

text \<open>
  Interpretation of semantic instructions on abstract states (class \<^verbatim>\<open>ClpProblem\<close> of
  otawa/src/prog/clp_analysis.cpp): one instruction, the paths of the semantic block of a
  machine instruction, and a basic block. The memory image of the program and its symbols
  come from the loader and are the fields of \<open>clp_env\<close>.
\<close>

subsection \<open>The problem's state\<close>

record clp_env =
  env_data_min :: "32 word"
  env_data_max :: "32 word"
  env_get8 :: "32 word \<Rightarrow> 8 word"
  env_get16 :: "32 word \<Rightarrow> 16 word"
  env_get32 :: "32 word \<Rightarrow> 32 word"
  env_findSymbolAt :: "32 word \<Rightarrow> (32 word \<times> 32 word) option"

record clp_stats =
  nb_inst :: nat
  nb_sem_inst :: nat
  nb_set :: nat
  nb_top_set :: nat
  nb_store :: nat
  nb_top_store :: nat
  nb_top_store_addr :: nat
  nb_load :: nat
  nb_load_top_addr :: nat
  nb_top_load :: nat
  nb_filters :: nat
  nb_top_filters :: nat

record clp_prob =
  pr_pc :: int
  pr_todo :: "(int \<times> clp_state) list"
  pr_has_if :: bool
  pr_stats :: clp_stats

definition var_get :: "clp_state \<Rightarrow> int \<Rightarrow> clp res" where
  "var_get s i = st_get (clp_reg i) s"

definition var_set :: "clp_state \<Rightarrow> int \<Rightarrow> clp \<Rightarrow> clp_state res" where
  "var_set s i v = st_set (clp_reg i) v s"

definition initialize :: "int \<Rightarrow> 32 word \<Rightarrow> clp_state \<Rightarrow> clp_state res" where
  "initialize reg address s = var_set s reg (clp_const address)"

subsection \<open>Loads and stores\<close>

definition readFromMem :: "clp_env \<Rightarrow> 32 word \<Rightarrow> int \<Rightarrow> clp" where
  "readFromMem env address t =
     (if t = type_code T_INT8 then clp_const (signed (env_get8 env address))
      else if t = type_code T_INT16 then clp_const (signed (env_get16 env address))
      else if t = type_code T_INT32 then clp_const (env_get32 env address)
      else if t = type_code T_UINT8 then clp_const (unsigned (env_get8 env address))
      else if t = type_code T_UINT16 then clp_const (unsigned (env_get16 env address))
      else if t = type_code T_UINT32 then clp_const (env_get32 env address)
      else clp_all)"

text \<open>The data loader reads the program image when a load at a constant address gave nothing.\<close>

definition load_data :: "clp_env \<Rightarrow> sem_inst \<Rightarrow> clp \<Rightarrow> clp_state \<Rightarrow> clp_state res" where
  "load_data env i ad s = rbind (var_get s (i_d i)) (\<lambda>v.
     if v = clp_all \<and> isConst ad \<and> env_data_min env \<le> clp_start ad \<and> clp_start ad < env_data_max env
     then var_set s (i_d i) (readFromMem env (c_lower ad) (i_b i))
     else Inr s)"

definition load_join :: "sem_inst \<Rightarrow> clp \<Rightarrow> nat \<Rightarrow> clp_state \<Rightarrow> clp_state res" where
  "load_join i ad m s = rbind (var_get s (i_d i)) (\<lambda>v.
     rbind (st_get (clp_const (c_lower ad + c_delta ad * of_nat m)) s) (\<lambda>w.
     rbind (clp_join v w) (\<lambda>j. var_set s (i_d i) j)))"

definition load_fetch :: "sem_inst \<Rightarrow> clp \<Rightarrow> clp_state \<Rightarrow> clp_stats \<Rightarrow> (clp_state \<times> clp_stats) res" where
  "load_fetch i ad s st =
     (if ad = clp_all then
        rbind (var_set s (i_d i) ad) (\<lambda>s. Inr (s, st\<lparr>nb_load_top_addr := nb_load_top_addr st + 1\<rparr>))
      else if c_mtimes ad < 42 then
        rbind (st_get (clp_const (c_lower ad)) s) (\<lambda>v.
        rbind (var_set s (i_d i) v) (\<lambda>s.
        rbind (rfold (load_join i ad) [1..<Suc (unat (c_mtimes ad))] s) (\<lambda>s. Inr (s, st))))
      else rbind (var_set s (i_d i) clp_all) (\<lambda>s. Inr (s, st)))"

definition exec_load :: "clp_env \<Rightarrow> sem_inst \<Rightarrow> clp_state \<Rightarrow> clp_stats \<Rightarrow> (clp_state \<times> clp_stats) res" where
  "exec_load env i s st =
     rbind (var_get s (i_a i)) (\<lambda>ad.
     rbind (load_fetch i ad s (st\<lparr>nb_load := nb_load st + 1\<rparr>)) (\<lambda>(s, st).
     rbind (load_data env i ad s) (\<lambda>s.
     rbind (var_get s (i_d i)) (\<lambda>v.
       Inr (s, if v = clp_all then st\<lparr>nb_top_load := nb_top_load st + 1\<rparr> else st)))))"

definition exec_store :: "clp_env \<Rightarrow> sem_inst \<Rightarrow> clp_state \<Rightarrow> clp_stats \<Rightarrow> (clp_state \<times> clp_stats) res" where
  "exec_store env i s st =
     rbind (var_get s (i_a i)) (\<lambda>ad.
     rbind (var_get s (i_d i)) (\<lambda>v.
       let st = st\<lparr>nb_store := nb_store st + 1\<rparr> in
       if ad = clp_all then
         rbind (st_set ad v s) (\<lambda>s.
           Inr (s, st\<lparr>nb_top_store := nb_top_store st + 1, nb_top_store_addr := nb_top_store_addr st + 1\<rparr>))
       else if c_mtimes ad \<ge> 42 then
         let st = st\<lparr>nb_top_store := nb_top_store st + 1\<rparr> in
         if c_mtimes ad < UMAXn then
           rbind (st_set clp_all v s) (\<lambda>s.
             Inr (st_clear_range (clp_start ad) (elm_abs (c_delta ad) * c_mtimes ad) s, st))
         else case env_findSymbolAt env (c_lower ad) of
             None \<Rightarrow> Inr (s, st\<lparr>nb_top_store_addr := nb_top_store_addr st + 1\<rparr>)
           | Some (base, sz) \<Rightarrow> Inr (st_clear_range base sz s, st)
       else
         let st = (if v = clp_all then st\<lparr>nb_top_store := nb_top_store st + 1\<rparr> else st) in
         rbind (rfold (\<lambda>m s. rbind (var_get s (i_d i)) (\<lambda>v. st_set (clp_const (c_lower ad + c_delta ad * of_nat m)) v s))
             [0..<Suc (unat (c_mtimes ad))] s) (\<lambda>s. Inr (s, st))))"

subsection \<open>One semantic instruction\<close>

definition exec_binary :: "sem_inst \<Rightarrow> (clp \<Rightarrow> clp \<Rightarrow> clp res) \<Rightarrow> clp_state \<Rightarrow> clp_state res" where
  "exec_binary i f s = rbind (var_get s (i_a i)) (\<lambda>v. rbind (var_get s (i_b i)) (\<lambda>w. rbind (f v w) (\<lambda>r. var_set s (i_d i) r)))"

definition clp_exec :: "clp_env \<Rightarrow> sem_inst \<Rightarrow> clp_state \<Rightarrow> clp_stats \<Rightarrow> (clp_state \<times> clp_stats) res" where
  "clp_exec env i s st =
     (case i_op i of
        S_BRANCH \<Rightarrow> Inr (s, st) | S_TRAP \<Rightarrow> Inr (s, st) | S_CONT \<Rightarrow> Inr (s, st) | S_IF \<Rightarrow> Inr (s, st) | S_NOP \<Rightarrow> Inr (s, st)
      | S_LOAD \<Rightarrow> exec_load env i s st
      | S_STORE \<Rightarrow> exec_store env i s st
      | S_SET \<Rightarrow> rbind (var_get s (i_a i)) (\<lambda>v. rbind (var_set s (i_d i) v) (\<lambda>s.
          let st = st\<lparr>nb_set := nb_set st + 1\<rparr> in Inr (s, if v = clp_all then st\<lparr>nb_top_set := nb_top_set st + 1\<rparr> else st)))
      | S_SETI \<Rightarrow> rbind (var_set s (i_d i) (clp_const (i_cst i))) (\<lambda>s. Inr (s, st))
      | S_ADD \<Rightarrow> rbind (exec_binary i (\<lambda>v w. Inr (clp_add v w)) s) (\<lambda>s. Inr (s, st))
      | S_SUB \<Rightarrow> rbind (exec_binary i (\<lambda>v w. Inr (clp_sub v w)) s) (\<lambda>s. Inr (s, st))
      | S_SHL \<Rightarrow> rbind (exec_binary i clp_shl s) (\<lambda>s. Inr (s, st))
      | S_SHR \<Rightarrow> rbind (exec_binary i clp_shr s) (\<lambda>s. Inr (s, st))
      | S_ASR \<Rightarrow> rbind (exec_binary i clp_shr s) (\<lambda>s. Inr (s, st))
      | S_OR \<Rightarrow> rbind (exec_binary i (\<lambda>v w. Inr (clp_or v w)) s) (\<lambda>s. Inr (s, st))
      | _ \<Rightarrow> rbind (var_set s (i_d i) clp_all) (\<lambda>s. Inr (s, st)))"

text \<open>The program counter after an instruction, before the final increment.\<close>

definition clp_step :: "clp_env \<Rightarrow> sem_inst list \<Rightarrow> clp_state \<Rightarrow> clp_prob \<Rightarrow> (clp_state \<times> clp_prob) res" where
  "clp_step env b s p = rbind (bb_at b (pr_pc p)) (\<lambda>i. rbind (clp_exec env i s (pr_stats p)) (\<lambda>(s', st).
     let pc = (if i_op i \<in> {S_BRANCH, S_TRAP, S_CONT} then int (length b) else pr_pc p);
         p' = (if i_op i = S_IF then p\<lparr>pr_todo := (pr_pc p + i_b i + 1, s) # pr_todo p, pr_has_if := True\<rparr> else p)
     in Inr (s', p'\<lparr>pr_pc := pc + 1, pr_stats := st\<rparr>)))"

subsection \<open>Paths of a machine instruction\<close>

lemma rbind_cong [fundef_cong]: "r = r' \<Longrightarrow> (\<And>x. r' = Inr x \<Longrightarrow> f x = f' x) \<Longrightarrow> rbind r f = rbind r' f'"
  by (cases r') auto

lemma clp_step_pc:
  assumes "clp_step env b s p = Inr (s', p')"
  shows "0 \<le> pr_pc p" "pr_pc p < int (length b)" "pr_pc p < pr_pc p'"
  using assms by (auto simp: clp_step_def bb_at_def Let_def res_simps split: if_splits)

definition count_sem :: "clp_prob \<Rightarrow> clp_prob" where
  "count_sem p = p\<lparr>pr_stats := (pr_stats p)\<lparr>nb_sem_inst := nb_sem_inst (pr_stats p) + 1\<rparr>\<rparr>"

lemma count_sem_fields [simp]: "pr_pc (count_sem p) = pr_pc p" "pr_todo (count_sem p) = pr_todo p"
  by (simp_all add: count_sem_def)

function clp_path :: "clp_env \<Rightarrow> sem_inst list \<Rightarrow> clp_state \<Rightarrow> clp_prob \<Rightarrow> (clp_state \<times> clp_prob) res" where
  "clp_path env b s p =
     (if pr_pc p < int (length b) then rbind (clp_step env b s p) (\<lambda>sp. clp_path env b (fst sp) (count_sem (snd sp)))
      else Inr (s, p))"
  by pat_completeness auto

termination
  by (relation "measure (\<lambda>(env, b, s, p). nat (int (length b) - pr_pc p))")
    (auto dest!: clp_step_pc simp: prod_eq_iff)

declare clp_path.simps [simp del]

text \<open>The first path works on the output state itself; the others are joined with it.\<close>

partial_function (option) clp_paths ::
  "clp_env \<Rightarrow> sem_inst list \<Rightarrow> clp_state \<Rightarrow> clp_prob \<Rightarrow> (clp_state \<times> clp_prob) res option" where
  "clp_paths env b out p =
     (case pr_todo p of
        [] \<Rightarrow> Some (Inr (out, p))
      | (pc, s) # todo \<Rightarrow>
          (case clp_path env b s (p\<lparr>pr_pc := pc, pr_todo := todo\<rparr>) of
             Inl e \<Rightarrow> Some (Inl e)
           | Inr (s', p') \<Rightarrow>
               (case st_join out s' of
                  Inl e \<Rightarrow> Some (Inl e)
                | Inr out' \<Rightarrow> clp_paths env b out' p')))"

declare clp_paths.simps [code]

definition count_inst :: "clp_prob \<Rightarrow> clp_prob" where
  "count_inst p = p\<lparr>pr_stats := (pr_stats p)\<lparr>nb_inst := nb_inst (pr_stats p) + 1\<rparr>\<rparr>"

definition prepare :: "clp_prob \<Rightarrow> clp_prob" where
  "prepare p = p\<lparr>pr_pc := 0, pr_todo := []\<rparr>"

definition clp_inst :: "clp_env \<Rightarrow> sem_inst list \<Rightarrow> clp_state \<Rightarrow> clp_prob \<Rightarrow> (clp_state \<times> clp_prob) res option" where
  "clp_inst env b out p =
     (case clp_path env b out (prepare (count_inst p)) of
        Inl e \<Rightarrow> Some (Inl e)
      | Inr (out', p') \<Rightarrow> clp_paths env b out' p')"

fun clp_insts :: "clp_env \<Rightarrow> sem_inst list list \<Rightarrow> clp_state \<Rightarrow> clp_prob \<Rightarrow> (clp_state \<times> clp_prob) res option" where
  "clp_insts env [] out p = Some (Inr (out, p))"
| "clp_insts env (b # bs) out p =
     (case clp_inst env b out p of
        None \<Rightarrow> None
      | Some (Inl e) \<Rightarrow> Some (Inl e)
      | Some (Inr (out', p')) \<Rightarrow> clp_insts env bs out' p')"

definition clp_update :: "clp_env \<Rightarrow> sem_inst list list \<Rightarrow> clp_state \<Rightarrow> clp_prob \<Rightarrow> (clp_state \<times> clp_prob) res option" where
  "clp_update env bb st_in p = clp_insts env bb (st_copy st_FULL st_in) (p\<lparr>pr_has_if := False\<rparr>)"

subsection \<open>Termination on forward jumps\<close>

definition forward_block :: "sem_inst list \<Rightarrow> bool" where
  "forward_block b \<longleftrightarrow> (\<forall>i \<in> set b. i_op i = S_IF \<longrightarrow> 0 \<le> i_b i)"

text \<open>The work left at a program counter doubles with each instruction that may fork.\<close>

definition work :: "sem_inst list \<Rightarrow> int \<Rightarrow> nat" where
  "work b pc = 2 ^ nat (int (length b) - pc)"

definition todo_work :: "sem_inst list \<Rightarrow> (int \<times> clp_state) list \<Rightarrow> nat" where
  "todo_work b todo = sum_list (map (\<lambda>(pc, s). work b pc) todo)"

lemma work_mono: "pc \<le> pc' \<Longrightarrow> work b pc' \<le> work b pc"
  by (simp add: work_def power_increasing)

lemma work_Suc: "pc < int (length b) \<Longrightarrow> work b pc = 2 * work b (pc + 1)"
proof -
  assume "pc < int (length b)"
  then have "nat (int (length b) - pc) = Suc (nat (int (length b) - (pc + 1)))" by simp
  then show ?thesis by (simp only: work_def power_Suc)
qed

lemma bb_at_set: "bb_at b p = Inr i \<Longrightarrow> i \<in> set b"
  by (auto simp: bb_at_def res_simps nat_less_iff split: if_splits)

lemma clp_step_work:
  assumes "clp_step env b s p = Inr (s', p')" "forward_block b"
  shows "todo_work b (pr_todo p') + work b (pr_pc p') \<le> todo_work b (pr_todo p) + work b (pr_pc p)"
proof -
  note pc = clp_step_pc [OF assms(1)]
  obtain i st where i: "bb_at b (pr_pc p) = Inr i" "clp_exec env i s (pr_stats p) = Inr (s', st)"
    and p': "p' = (if i_op i = S_IF then p\<lparr>pr_todo := (pr_pc p + i_b i + 1, s) # pr_todo p, pr_has_if := True\<rparr> else p)
      \<lparr>pr_pc := (if i_op i \<in> {S_BRANCH, S_TRAP, S_CONT} then int (length b) else pr_pc p) + 1, pr_stats := st\<rparr>"
    using assms(1) by (auto simp: clp_step_def Let_def res_simps)
  show ?thesis
  proof (cases "i_op i = S_IF")
    case True
    then have "0 \<le> i_b i" using assms(2) bb_at_set [OF i(1)] by (auto simp: forward_block_def)
    then have "work b (pr_pc p + i_b i + 1) \<le> work b (pr_pc p + 1)" by (intro work_mono) simp
    then show ?thesis using True p' work_Suc [OF pc(2)] by (simp add: todo_work_def)
  next
    case False
    then show ?thesis using p' work_mono [of "pr_pc p" "pr_pc p'" b] pc(3) by simp
  qed
qed

lemma clp_path_work:
  "clp_path env b s p = Inr (s', p') \<Longrightarrow> forward_block b \<Longrightarrow>
     todo_work b (pr_todo p') < todo_work b (pr_todo p) + work b (pr_pc p)"
proof (induction env b s p rule: clp_path.induct)
  case (1 env b s p)
  show ?case
  proof (cases "pr_pc p < int (length b)")
    case True
    then obtain t q where q: "clp_step env b s p = Inr (t, q)" "clp_path env b t (count_sem q) = Inr (s', p')"
      using 1(2) by (subst (asm) clp_path.simps) (auto simp: res_simps)
    then have "todo_work b (pr_todo p') < todo_work b (pr_todo q) + work b (pr_pc q)"
      using 1(1) [OF True q(1)] 1(3) by simp
    then show ?thesis using clp_step_work [OF q(1) 1(3)] by linarith
  next
    case False
    then show ?thesis using 1(2) by (subst (asm) clp_path.simps) (auto simp: work_def)
  qed
qed

lemma clp_paths_ends:
  assumes "forward_block b"
  shows "\<exists>r. clp_paths env b out p = Some r"
proof (induction "todo_work b (pr_todo p)" arbitrary: out p rule: less_induct)
  case less
  show ?case
  proof (cases "pr_todo p")
    case Nil
    then show ?thesis by (subst clp_paths.simps) simp
  next
    case (Cons e todo)
    obtain pc s where e: "e = (pc, s)" by (cases e)
    show ?thesis
    proof (cases "clp_path env b s (p\<lparr>pr_pc := pc, pr_todo := todo\<rparr>)")
      case (Inl f)
      then show ?thesis using Cons e by (subst clp_paths.simps) simp
    next
      case (Inr sp)
      obtain s' p' where sp: "sp = (s', p')" by (cases sp)
      show ?thesis
      proof (cases "st_join out s'")
        case (Inl f)
        then show ?thesis using Cons e Inr sp by (subst clp_paths.simps) simp
      next
        case j: (Inr out')
        have "todo_work b (pr_todo p') < todo_work b (pr_todo p)"
          using clp_path_work [OF Inr [unfolded sp] assms] Cons e by (simp add: todo_work_def)
        then show ?thesis using less [of p' out'] Cons e Inr sp j by (subst clp_paths.simps) simp
      qed
    qed
  qed
qed

lemma clp_inst_ends: "forward_block b \<Longrightarrow> \<exists>r. clp_inst env b out p = Some r"
  using clp_paths_ends by (auto simp: clp_inst_def split: sum.splits)

lemma clp_insts_ends: "(\<And>b. b \<in> set bs \<Longrightarrow> forward_block b) \<Longrightarrow> \<exists>r. clp_insts env bs out p = Some r"
proof (induction bs arbitrary: out p)
  case Nil
  then show ?case by simp
next
  case (Cons b bs)
  obtain r where "clp_inst env b out p = Some r" using clp_inst_ends [of b env out p] Cons.prems by auto
  then show ?case using Cons by (auto split: sum.splits)
qed

subsection \<open>Executions of semantic instructions\<close>

text \<open>
  The machine states after an instruction, as the comments of the instruction set give them.
  Memory is a map from addresses to words, as the abstract states see it: accesses of
  different sizes to overlapping addresses are not described. The instructions that the
  analysis does not follow may leave anything in their target.
\<close>

definition m_exec :: "sem_inst \<Rightarrow> machine \<Rightarrow> machine set" where
  "m_exec i M =
     (case i_op i of
        S_BRANCH \<Rightarrow> {M} | S_TRAP \<Rightarrow> {M} | S_CONT \<Rightarrow> {M} | S_IF \<Rightarrow> {M} | S_NOP \<Rightarrow> {M}
      | S_LOAD \<Rightarrow> {m_set M (i_d i) (m_mem M (m_get M (i_a i)))}
      | S_STORE \<Rightarrow> {M\<lparr>m_mem := (m_mem M)(m_get M (i_a i) := m_get M (i_d i))\<rparr>}
      | S_SET \<Rightarrow> {m_set M (i_d i) (m_get M (i_a i))}
      | S_SETI \<Rightarrow> {m_set M (i_d i) (i_cst i)}
      | S_ADD \<Rightarrow> {m_set M (i_d i) (m_get M (i_a i) + m_get M (i_b i))}
      | S_SUB \<Rightarrow> {m_set M (i_d i) (m_get M (i_a i) - m_get M (i_b i))}
      | S_SHL \<Rightarrow> {m_set M (i_d i) (push_bit (unat (m_get M (i_b i))) (m_get M (i_a i)))}
      | S_SHR \<Rightarrow> {m_set M (i_d i) (drop_bit (unat (m_get M (i_b i))) (m_get M (i_a i)))}
      | S_ASR \<Rightarrow> {m_set M (i_d i) (signed_drop_bit (unat (m_get M (i_b i))) (m_get M (i_a i)))}
      | S_OR \<Rightarrow> {m_set M (i_d i) (m_get M (i_a i) OR m_get M (i_b i))}
      | _ \<Rightarrow> {m_set M (i_d i) x |x. True})"

definition good :: "clp \<Rightarrow> bool" where
  "good v \<longleftrightarrow> v = clp_all \<or> c_kind v = K_VAL"

definition st_good :: "clp_state \<Rightarrow> bool" where
  "st_good s \<longleftrightarrow> (\<forall>v \<in> set (st_regs s) \<union> set (st_tmps s) \<union> snd ` set (st_mem s). good v)"

lemma good_simps [simp]: "good clp_all" "good (clp_const k)" "good (clp_set K_VAL l d m)"
  by (simp_all add: good_def)

lemma good_value: "good v \<Longrightarrow> is_value v" "good v \<Longrightarrow> proper v" "good v \<Longrightarrow> v \<noteq> clp_none"
  by (auto simp: good_def is_value_def proper_def)

lemma good_vals_put: "\<forall>v \<in> set xs. good v \<Longrightarrow> good w \<Longrightarrow> \<forall>v \<in> set (vals_put i w xs). good v"
  by (auto simp: vals_put_def dest: subsetD [OF set_update_subset_insert])

lemma good_mem_put: "\<forall>v \<in> snd ` set m. good v \<Longrightarrow> good w \<Longrightarrow> \<forall>v \<in> snd ` set (mem_put a w m). good v"
  using set_mem_put [of a w m] by auto

lemma good_var_get:
  assumes "st_good s" "var_ok i" "var_get s i = Inr v"
  shows "good v"
  using assms by (auto simp: var_get_def st_get_def sint_var vals_get_def st_good_def split: if_splits)

lemma good_mem_get:
  assumes "st_good s" "st_rep s M" "st_get (clp_const a) s = Inr v"
  shows "good v"
proof -
  have "v = clp_all \<or> v \<in> snd ` set (st_mem s)"
    using assms(2,3) by (force simp: st_get_def st_rep_def mem_get_map_of isConst_def clp_const_def split: option.splits dest: map_of_SomeD)
  then show ?thesis using assms(1) by (auto simp: st_good_def)
qed

lemma var_get_sound:
  assumes "st_good s" "st_rep s M" "var_ok i"
  shows "\<exists>v. var_get s i = Inr v \<and> good v \<and> m_get M i \<in> clp_gamma v"
  using st_get_var [OF assms(2,3)] good_var_get [OF assms(1,3)] by (auto simp: var_get_def)

lemma var_set_eq:
  assumes "st_def s = clp_all" "v \<noteq> clp_none" "var_ok i"
  shows "var_set s i v = Inr (if i < 0 then s\<lparr>st_tmps := vals_put (nat (- i)) v (st_tmps s)\<rparr>
    else s\<lparr>st_regs := vals_put (nat i) v (st_regs s)\<rparr>)"
  using assms by (simp add: var_set_def st_set_def sint_var)

lemma clp_const_fields [simp]: "isConst (clp_const a)" "c_lower (clp_const a) = a" "clp_const a \<noteq> clp_all"
  by (auto simp: clp_const_def isConst_def clp_all_def clp_set_def)

lemma mem_set_eq:
  assumes "st_def s = clp_all" "v \<noteq> clp_none"
  shows "st_set (clp_const a) v s = Inr (s\<lparr>st_mem := mem_put a v (st_mem s)\<rparr>)"
  using assms by (simp add: st_set_def)

lemma st_good_iff:
  "st_good s \<longleftrightarrow> (\<forall>v \<in> set (st_regs s). good v) \<and> (\<forall>v \<in> set (st_tmps s). good v) \<and> (\<forall>v \<in> snd ` set (st_mem s). good v)"
  unfolding st_good_def by blast

lemma st_goodD:
  assumes "st_good s"
  shows "\<forall>v \<in> set (st_regs s). good v" "\<forall>v \<in> set (st_tmps s). good v" "\<forall>v \<in> snd ` set (st_mem s). good v"
  using assms by (simp_all add: st_good_iff)

lemma st_good_upd:
  assumes "st_good s"
  shows "\<forall>v \<in> set xs. good v \<Longrightarrow> st_good (s\<lparr>st_regs := xs\<rparr>)" "\<forall>v \<in> set xs. good v \<Longrightarrow> st_good (s\<lparr>st_tmps := xs\<rparr>)"
    "\<forall>v \<in> snd ` set m. good v \<Longrightarrow> st_good (s\<lparr>st_mem := m\<rparr>)"
  using assms by (simp_all add: st_good_iff)

lemma var_set_sound:
  assumes "st_good s" "st_rep s M" "var_ok i" "good v" "x \<in> clp_gamma v"
  shows "\<exists>s'. var_set s i v = Inr s' \<and> st_good s' \<and> st_rep s' (m_set M i x)"
proof -
  obtain s' where s': "var_set s i v = Inr s'" "st_rep s' (m_set M i x)"
    using st_set_var [OF assms(2,3) good_value(2) [OF assms(4)] assms(5)] by (auto simp: var_set_def)
  have "st_def s = clp_all" using assms(2) by (simp add: st_rep_def)
  then have e: "s' = (if i < 0 then s\<lparr>st_tmps := vals_put (nat (- i)) v (st_tmps s)\<rparr>
      else s\<lparr>st_regs := vals_put (nat i) v (st_regs s)\<rparr>)"
    using s'(1) var_set_eq [OF _ good_value(3) [OF assms(4)] assms(3)] by simp
  have "st_good s'" unfolding e
    using st_good_upd(2) [OF assms(1) good_vals_put [OF st_goodD(2) [OF assms(1)] assms(4)]]
      st_good_upd(1) [OF assms(1) good_vals_put [OF st_goodD(1) [OF assms(1)] assms(4)]] by simp
  then show ?thesis using s' by blast
qed

lemma mem_set_sound:
  assumes "st_good s" "st_rep s M" "good v" "x \<in> clp_gamma v"
  shows "\<exists>s'. st_set (clp_const a) v s = Inr s' \<and> st_good s' \<and> st_rep s' (M\<lparr>m_mem := (m_mem M)(a := x)\<rparr>)"
proof -
  obtain s' where s': "st_set (clp_const a) v s = Inr s'" "st_rep s' (M\<lparr>m_mem := (m_mem M)(a := x)\<rparr>)"
    using st_set_mem [OF assms(2) _ _ good_value(2) [OF assms(3)] assms(4), of "clp_const a"] by auto
  have "st_def s = clp_all" using assms(2) by (simp add: st_rep_def)
  then have e: "s' = s\<lparr>st_mem := mem_put a v (st_mem s)\<rparr>"
    using s'(1) mem_set_eq [OF _ good_value(3) [OF assms(3)]] by simp
  have "st_good s'" unfolding e
    by (rule st_good_upd(3) [OF assms(1)]) (rule good_mem_put [OF st_goodD(3) [OF assms(1)] assms(3)])
  then show ?thesis using s' by blast
qed

lemma good_add: "good a \<Longrightarrow> good b \<Longrightarrow> good (clp_add a b)"
  by (auto simp: good_def clp_add_def Let_def clp_reverse_def clp_all_def)

lemma good_sub: "good a \<Longrightarrow> good b \<Longrightarrow> good (clp_sub a b)"
  by (auto simp: good_def clp_sub_def Let_def clp_reverse_def clp_all_def)

lemma good_or: "good a \<Longrightarrow> good b \<Longrightarrow> good (clp_or a b)"
  by (auto simp: good_def clp_or_def)

lemma good_shl: "good a \<Longrightarrow> clp_shl a b = Inr v \<Longrightarrow> good v"
  by (auto simp: good_def clp_shl_def Let_def clp_all_def split: if_splits)

lemma good_shr: "good a \<Longrightarrow> clp_shr a b = Inr v \<Longrightarrow> good v"
  by (auto simp: good_def clp_shr_def Let_def clp_all_def split: if_splits)

subsection \<open>Soundness of an instruction\<close>

text \<open>
  The conditions under which an instruction is interpreted soundly: sums whose count fits,
  right shifts of constants only, loads and stores whose address is one constant, unknown or
  one of many.
\<close>

definition sole :: "clp \<Rightarrow> bool" where
  "sole v \<longleftrightarrow> c_delta v = 0 \<and> c_mtimes v = 0"

definition shift_safe :: "clp \<Rightarrow> bool" where
  "shift_safe w \<longleftrightarrow> \<not> isConst w \<or> sint (c_lower w) < 0 \<or> unat (c_lower w) < 32"

definition operands :: "clp_state \<Rightarrow> sem_inst \<Rightarrow> clp \<times> clp" where
  "operands s i = (projr (var_get s (i_a i)), projr (var_get s (i_b i)))"

definition inst_safe :: "clp_state \<Rightarrow> sem_inst \<Rightarrow> bool" where
  "inst_safe s i \<longleftrightarrow> var_ok (i_d i) \<and> var_ok (i_a i) \<and> var_ok (i_b i) \<and> (let (v, w) = operands s i in
     case i_op i of
       S_ADD \<Rightarrow> steps_fit v w
     | S_SUB \<Rightarrow> steps_fit v w
     | S_SHL \<Rightarrow> shift_safe w
     | S_SHR \<Rightarrow> shift_safe w \<and> (v = clp_all \<or> sole v \<and> 0 \<le> sint (c_lower v))
     | S_ASR \<Rightarrow> shift_safe w \<and> (v = clp_all \<or> sole v)
     | S_LOAD \<Rightarrow> v = clp_all \<or> sole v \<or> c_mtimes v \<ge> 42
     | S_STORE \<Rightarrow> v = clp_all \<or> sole v \<or> c_mtimes v \<ge> 42 \<and> c_mtimes v < UMAXn
     | _ \<Rightarrow> True)"

text \<open>The constant data of the program are in memory.\<close>

definition image_ok :: "clp_env \<Rightarrow> int \<Rightarrow> machine \<Rightarrow> bool" where
  "image_ok env t M \<longleftrightarrow> (\<forall>a. env_data_min env \<le> a \<and> a < env_data_max env \<longrightarrow> m_mem M a \<in> clp_gamma (readFromMem env a t))"

lemma good_readFromMem: "good (readFromMem env a t)"
  by (simp add: readFromMem_def)

lemma m_set_twice [simp]: "m_set (m_set M i x) i y = m_set M i y"
  by (simp add: m_set_def)

lemma m_mem_set [simp]: "m_mem (m_set M i x) = m_mem M"
  by (simp add: m_set_def)

lemma gamma_lower: "good v \<Longrightarrow> isConst v \<Longrightarrow> x \<in> clp_gamma v \<Longrightarrow> x = c_lower v"
  using clp_gamma_isConst [of v] by (auto simp: good_def isConst_def clp_all_def UMAXn_def)

lemma load_data_sound:
  assumes s: "st_good s" "st_rep s (m_set M (i_d i) x)" and d: "var_ok (i_d i)"
    and ad: "isConst ad \<Longrightarrow> x = m_mem M (c_lower ad)" and im: "image_ok env (i_b i) M"
  shows "\<exists>s'. load_data env i ad s = Inr s' \<and> st_good s' \<and> st_rep s' (m_set M (i_d i) x)"
proof -
  obtain v where v: "var_get s (i_d i) = Inr v" using var_get_sound [OF s d] by blast
  show ?thesis
  proof (cases "v = clp_all \<and> isConst ad \<and> env_data_min env \<le> clp_start ad \<and> clp_start ad < env_data_max env")
    case True
    then have "x \<in> clp_gamma (readFromMem env (c_lower ad) (i_b i))"
      using im ad by (auto simp: image_ok_def clp_start_const)
    from var_set_sound [OF s d good_readFromMem this] show ?thesis using v True by (simp add: load_data_def)
  next
    case False
    then show ?thesis using v s by (auto simp: load_data_def)
  qed
qed

lemma load_fetch_sound:
  assumes s: "st_good s" "st_rep s M" and d: "var_ok (i_d i)"
    and ad: "ad = clp_all \<or> sole ad \<or> c_mtimes ad \<ge> 42" and lo: "isConst ad \<Longrightarrow> x = m_mem M (c_lower ad)"
  shows "\<exists>s' st'. load_fetch i ad s st = Inr (s', st') \<and> st_good s' \<and> st_rep s' (m_set M (i_d i) x)"
proof -
  obtain s1 where s1: "var_set s (i_d i) clp_all = Inr s1" "st_good s1" "st_rep s1 (m_set M (i_d i) x)"
    using var_set_sound [OF s d, of clp_all x] by auto
  consider (all) "ad = clp_all" | (sole) "ad \<noteq> clp_all" "sole ad" | (many) "ad \<noteq> clp_all" "c_mtimes ad \<ge> 42" using ad by blast
  then show ?thesis
  proof cases
    case all
    then show ?thesis using s1 by (simp add: load_fetch_def)
  next
    case many
    then have "\<not> c_mtimes ad < 42" by simp
    then show ?thesis using many(1) s1 by (simp add: load_fetch_def)
  next
    case sole
    obtain v where v: "st_get (clp_const (c_lower ad)) s = Inr v" "m_mem M (c_lower ad) \<in> clp_gamma v"
      using st_get_mem [OF s(2), of "clp_const (c_lower ad)"] by auto
    have "x \<in> clp_gamma v" using lo sole v(2) by (simp add: sole_def isConst_def)
    then obtain s2 where "var_set s (i_d i) v = Inr s2" "st_good s2" "st_rep s2 (m_set M (i_d i) x)"
      using var_set_sound [OF s d good_mem_get [OF s v(1)]] by blast
    then show ?thesis using sole v(1) by (simp add: load_fetch_def sole_def)
  qed
qed

lemma exec_load_sound:
  assumes s: "st_good s" "st_rep s M" and d: "var_ok (i_d i)" "var_ok (i_a i)"
    and ad: "var_get s (i_a i) = Inr ad" "ad = clp_all \<or> sole ad \<or> c_mtimes ad \<ge> 42" and im: "image_ok env (i_b i) M"
  shows "\<exists>s' st'. exec_load env i s st = Inr (s', st') \<and> st_good s' \<and> st_rep s' (m_set M (i_d i) (m_mem M (m_get M (i_a i))))"
proof -
  let ?x = "m_mem M (m_get M (i_a i))"
  have g: "good ad" "m_get M (i_a i) \<in> clp_gamma ad" using var_get_sound [OF s d(2)] ad(1) by auto
  have lo: "isConst ad \<Longrightarrow> ?x = m_mem M (c_lower ad)" using gamma_lower g by auto
  obtain s1 st1 where s1: "load_fetch i ad s (st\<lparr>nb_load := nb_load st + 1\<rparr>) = Inr (s1, st1)" "st_good s1" "st_rep s1 (m_set M (i_d i) ?x)"
    using load_fetch_sound [OF s d(1) ad(2) lo] by blast
  obtain s2 where s2: "load_data env i ad s1 = Inr s2" "st_good s2" "st_rep s2 (m_set M (i_d i) ?x)"
    using load_data_sound [OF s1(2,3) d(1) lo im] by blast
  obtain w where "var_get s2 (i_d i) = Inr w" using var_get_sound [OF s2(2,3) d(1)] by blast
  then show ?thesis using ad(1) s1 s2 by (simp add: exec_load_def)
qed

lemma st_set_all_sound:
  assumes "st_good s" "st_rep s M" "good v"
  shows "\<exists>s'. st_set clp_all v s = Inr s' \<and> st_good s' \<and> st_rep s' (M\<lparr>m_mem := c\<rparr>)"
proof -
  have "st_set clp_all v s = Inr (s\<lparr>st_mem := []\<rparr>)"
    using assms(2) good_value(3) [OF assms(3)] by (simp add: st_set_def st_rep_def)
  then show ?thesis
    using st_good_upd(3) [OF assms(1), of "[]"] st_set_all [OF assms(2) good_value(3) [OF assms(3)], of c] by simp
qed

lemma st_clear_range_good: "st_good s \<Longrightarrow> st_good (st_clear_range base sz s)"
  by (auto simp: st_clear_range_def st_good_def)

lemma exec_store_sound:
  assumes s: "st_good s" "st_rep s M" and d: "var_ok (i_d i)" "var_ok (i_a i)"
    and ad: "var_get s (i_a i) = Inr ad" "ad = clp_all \<or> sole ad \<or> c_mtimes ad \<ge> 42 \<and> c_mtimes ad < UMAXn"
  shows "\<exists>s' st'. exec_store env i s st = Inr (s', st') \<and> st_good s' \<and>
    st_rep s' (M\<lparr>m_mem := (m_mem M)(m_get M (i_a i) := m_get M (i_d i))\<rparr>)"
proof -
  let ?c = "(m_mem M)(m_get M (i_a i) := m_get M (i_d i))"
  have g: "good ad" "m_get M (i_a i) \<in> clp_gamma ad" using var_get_sound [OF s d(2)] ad(1) by auto
  obtain v where v: "var_get s (i_d i) = Inr v" "good v" "m_get M (i_d i) \<in> clp_gamma v"
    using var_get_sound [OF s d(1)] by blast
  obtain s1 where s1: "st_set clp_all v s = Inr s1" "st_good s1" "st_rep s1 (M\<lparr>m_mem := ?c\<rparr>)"
    using st_set_all_sound [OF s v(2)] by blast
  consider (all) "ad = clp_all" | (many) "ad \<noteq> clp_all" "c_mtimes ad \<ge> 42" "c_mtimes ad < UMAXn" | (sole) "ad \<noteq> clp_all" "sole ad"
    using ad(2) by blast
  then show ?thesis
  proof cases
    case all
    then show ?thesis using ad(1) v(1) s1 by (simp add: exec_store_def Let_def)
  next
    case many
    then show ?thesis
      using ad(1) v(1) s1 st_clear_range_good [OF s1(2)] st_clear_range_rep [OF s1(3)]
      by (simp add: exec_store_def Let_def)
  next
    case sole
    then have a: "m_get M (i_a i) = c_lower ad" using gamma_lower g by (simp add: sole_def isConst_def)
    obtain s2 where "st_set (clp_const (c_lower ad)) v s = Inr s2" "st_good s2" "st_rep s2 (M\<lparr>m_mem := ?c\<rparr>)"
      using mem_set_sound [OF s v(2,3), of "c_lower ad"] a by auto
    then show ?thesis using sole ad(1) v(1) by (simp add: exec_store_def Let_def sole_def)
  qed
qed

lemma exec_binary_sound:
  assumes s: "st_good s" "st_rep s M" and d: "var_ok (i_d i)" "var_ok (i_a i)" "var_ok (i_b i)"
    and ops: "operands s i = (v, w)"
  shows "good v" "good w" "m_get M (i_a i) \<in> clp_gamma v" "m_get M (i_b i) \<in> clp_gamma w"
    and "f v w = Inr r \<Longrightarrow> good r \<Longrightarrow> z \<in> clp_gamma r \<Longrightarrow>
      \<exists>s'. exec_binary i f s = Inr s' \<and> st_good s' \<and> st_rep s' (m_set M (i_d i) z)"
proof -
  have v: "var_get s (i_a i) = Inr v" "good v" "m_get M (i_a i) \<in> clp_gamma v"
    using var_get_sound [OF s d(2)] ops by (auto simp: operands_def)
  have w: "var_get s (i_b i) = Inr w" "good w" "m_get M (i_b i) \<in> clp_gamma w"
    using var_get_sound [OF s d(3)] ops by (auto simp: operands_def)
  show "good v" "good w" "m_get M (i_a i) \<in> clp_gamma v" "m_get M (i_b i) \<in> clp_gamma w" using v w by auto
  show "f v w = Inr r \<Longrightarrow> good r \<Longrightarrow> z \<in> clp_gamma r \<Longrightarrow>
      \<exists>s'. exec_binary i f s = Inr s' \<and> st_good s' \<and> st_rep s' (m_set M (i_d i) z)"
    using var_set_sound [OF s d(1), of r z] v(1) w(1) by (auto simp: exec_binary_def)
qed

lemma shift_sound:
  assumes "good v" "good w" "shift_safe w" "x \<in> clp_gamma v" "y \<in> clp_gamma w"
  shows "\<exists>r. clp_shl v w = Inr r \<and> good r \<and> push_bit (unat y) x \<in> clp_gamma r"
proof (cases "isConst w \<and> 0 \<le> sint (c_lower w)")
  case True
  then have y: "y = c_lower w" using gamma_lower assms by auto
  have "unat (c_lower w) < 32" using True assms(3) by (auto simp: shift_safe_def)
  then show ?thesis
    using clp_shl_sound [OF good_value(1) [OF assms(1)] _ _ _ assms(4), of w] True good_shl [OF assms(1), of w] y by auto
next
  case False
  then show ?thesis using clp_shl_variable [of w v] by auto
qed

lemma clp_shr_variable: "\<not> isConst b \<or> sint (c_lower b) < 0 \<Longrightarrow> clp_shr a b = Inr clp_all"
  by (simp add: clp_shr_def clp_all_def)

lemma shift_right_sound:
  assumes v: "good v" "good w" and w: "shift_safe w" "v = clp_all \<or> sole v" and x: "x \<in> clp_gamma v" "y \<in> clp_gamma w"
  shows "\<exists>r. clp_shr v w = Inr r \<and> good r \<and> signed_drop_bit (unat y) x \<in> clp_gamma r"
proof (cases "isConst w \<and> 0 \<le> sint (c_lower w)")
  case True
  then have y: "y = c_lower w" using gamma_lower v x by auto
  have k: "unat (c_lower w) < 32" using True w by (auto simp: shift_safe_def)
  show ?thesis
  proof (cases "v = clp_all")
    case all: True
    then show ?thesis using True by (simp add: clp_shr_def)
  next
    case False
    then have "c_kind v = K_VAL" "c_delta v = 0" "c_mtimes v = 0" using v(1) w(2) by (auto simp: good_def sole_def)
    then obtain r where "clp_shr v w = Inr r" "clp_gamma r = signed_drop_bit (unat (c_lower w)) ` clp_gamma v"
      using clp_shr_const [of v w] True k by blast
    then show ?thesis using good_shr [OF v(1)] x(1) y by auto
  qed
next
  case False
  then show ?thesis using clp_shr_variable [of w v] by auto
qed

lemma logical_shift: "0 \<le> sint (x :: 32 word) \<Longrightarrow> drop_bit k x = signed_drop_bit k x"
proof (rule bit_word_eqI)
  fix n assume "0 \<le> sint x" and n: "n < LENGTH(32)"
  then have "\<not> bit x 31" using bit_last_iff [of x] by simp
  then show "bit (drop_bit k x) n \<longleftrightarrow> bit (signed_drop_bit k x) n"
    using n bit_imp_le_length [of x "k + n"] by (auto simp: bit_signed_drop_bit_iff bit_drop_bit_eq)
qed

lemma clp_exec_sound:
  assumes s: "st_good s" "st_rep s M" and safe: "inst_safe s i" and im: "i_op i = S_LOAD \<Longrightarrow> image_ok env (i_b i) M"
    and M': "M' \<in> m_exec i M"
  shows "\<exists>s' st'. clp_exec env i s st = Inr (s', st') \<and> st_good s' \<and> st_rep s' M'"
proof -
  obtain v w where ops: "operands s i = (v, w)" by (cases "operands s i")
  have d: "var_ok (i_d i)" "var_ok (i_a i)" "var_ok (i_b i)" using safe by (simp_all add: inst_safe_def)
  obtain ad where ad: "var_get s (i_a i) = Inr ad" using var_get_sound [OF s d(2)] by blast
  then have va: "v = ad" using ops by (simp add: operands_def)
  have top: "\<exists>s' st'. rbind (var_set s (i_d i) clp_all) (\<lambda>s. Inr (s, st)) = Inr (s', st') \<and> st_good s' \<and>
      st_rep s' (m_set M (i_d i) x)" for x
    using var_set_sound [OF s d(1), of clp_all x] by auto
  note g = exec_binary_sound(1-4) [OF s d ops] and bin = exec_binary_sound(5) [OF s d ops]
  have vs: "is_value v" "is_value w" using g good_value by auto
  have arith: "inst_safe s i \<longleftrightarrow> (case i_op i of S_ADD \<Rightarrow> steps_fit v w | S_SUB \<Rightarrow> steps_fit v w | S_SHL \<Rightarrow> shift_safe w
     | S_SHR \<Rightarrow> shift_safe w \<and> (v = clp_all \<or> sole v \<and> 0 \<le> sint (c_lower v))
     | S_ASR \<Rightarrow> shift_safe w \<and> (v = clp_all \<or> sole v)
     | S_LOAD \<Rightarrow> v = clp_all \<or> sole v \<or> c_mtimes v \<ge> 42
     | S_STORE \<Rightarrow> v = clp_all \<or> sole v \<or> c_mtimes v \<ge> 42 \<and> c_mtimes v < UMAXn
     | _ \<Rightarrow> True)"
    using d ops by (simp add: inst_safe_def)
  show ?thesis
  proof (cases "i_op i")
    case S_LOAD
    then show ?thesis using exec_load_sound [OF s d(1,2) ad _ im] safe M' va arith by (simp add: clp_exec_def m_exec_def)
  next
    case S_STORE
    then show ?thesis using exec_store_sound [OF s d(1,2) ad] safe M' va arith by (simp add: clp_exec_def m_exec_def)
  next
    case S_SET
    then show ?thesis
      using ad M' var_set_sound [OF s d(1) g(1,3)] va by (auto simp: clp_exec_def m_exec_def Let_def)
  next
    case S_SETI
    then show ?thesis using M' var_set_sound [OF s d(1), of "clp_const (i_cst i)" "i_cst i"] by (auto simp: clp_exec_def m_exec_def)
  next
    case S_ADD
    then show ?thesis
      using M' safe arith bin [where f = "\<lambda>v w. Inr (clp_add v w)", OF refl good_add [OF g(1,2)] clp_add_sound [OF vs _ g(3,4)]] by (auto simp: clp_exec_def m_exec_def)
  next
    case S_SUB
    then show ?thesis
      using M' safe arith bin [where f = "\<lambda>v w. Inr (clp_sub v w)", OF refl good_sub [OF g(1,2)] clp_sub_sound [OF vs _ g(3,4)]] by (auto simp: clp_exec_def m_exec_def)
  next
    case S_SHL
    then obtain r where "clp_shl v w = Inr r" "good r" "push_bit (unat (m_get M (i_b i))) (m_get M (i_a i)) \<in> clp_gamma r"
      using shift_sound [OF g(1,2) _ g(3,4)] safe arith by auto
    from bin [where f = clp_shl, OF this] show ?thesis using S_SHL M' by (auto simp: clp_exec_def m_exec_def)
  next
    case S_SHR
    then have sh: "shift_safe w" "v = clp_all \<or> sole v" using safe arith by auto
    obtain r where r: "clp_shr v w = Inr r" "good r" "signed_drop_bit (unat (m_get M (i_b i))) (m_get M (i_a i)) \<in> clp_gamma r"
      using shift_right_sound [OF g(1,2) sh g(3,4)] by auto
    have "drop_bit (unat (m_get M (i_b i))) (m_get M (i_a i)) \<in> clp_gamma r"
    proof (cases "v = clp_all")
      case True
      then have "r = clp_all \<or> clp_shr v w = Inl Undefined" using r(1) by (auto simp: clp_shr_def clp_all_def split: if_splits)
      then show ?thesis using r(1) by auto
    next
      case False
      then have "m_get M (i_a i) = c_lower v" "0 \<le> sint (c_lower v)"
        using S_SHR safe arith gamma_lower [OF g(1) _ g(3)] by (auto simp: sole_def isConst_def)
      then show ?thesis using r(3) by (simp add: logical_shift)
    qed
    from bin [where f = clp_shr, OF r(1,2) this] show ?thesis using S_SHR M' by (auto simp: clp_exec_def m_exec_def)
  next
    case S_ASR
    then obtain r where "clp_shr v w = Inr r" "good r" "signed_drop_bit (unat (m_get M (i_b i))) (m_get M (i_a i)) \<in> clp_gamma r"
      using shift_right_sound [OF g(1,2) _ _ g(3,4)] safe arith by auto
    from bin [where f = clp_shr, OF this] show ?thesis using S_ASR M' by (auto simp: clp_exec_def m_exec_def)
  next
    case S_OR
    then show ?thesis
      using M' bin [where f = "\<lambda>v w. Inr (clp_or v w)", OF refl good_or [OF g(1,2)] clp_or_sound [OF vs g(3,4)]] by (auto simp: clp_exec_def m_exec_def)
  qed (use M' s top in \<open>auto simp: clp_exec_def m_exec_def\<close>)
qed

subsection \<open>Soundness of a path\<close>

text \<open>
  Executions of a semantic block from a program counter, through machine states that satisfy
  \<open>C\<close> (which says, for instance, that the constant data are not overwritten). An \<open>if\<close> goes on or
  skips the instructions it guards; the condition is not interpreted.
\<close>

inductive m_path :: "sem_inst list \<Rightarrow> (machine \<Rightarrow> bool) \<Rightarrow> int \<Rightarrow> machine \<Rightarrow> machine \<Rightarrow> bool"
  for b :: "sem_inst list" and C :: "machine \<Rightarrow> bool" where
  path_end: "int (length b) \<le> pc \<Longrightarrow> m_path b C pc M M"
| path_stop: "bb_at b pc = Inr i \<Longrightarrow> i_op i \<in> {S_BRANCH, S_TRAP, S_CONT} \<Longrightarrow> m_path b C pc M M"
| path_step: "bb_at b pc = Inr i \<Longrightarrow> i_op i \<notin> {S_BRANCH, S_TRAP, S_CONT} \<Longrightarrow> C M \<Longrightarrow> M1 \<in> m_exec i M \<Longrightarrow>
    m_path b C (pc + 1) M1 M' \<Longrightarrow> m_path b C pc M M'"
| path_skip: "bb_at b pc = Inr i \<Longrightarrow> i_op i = S_IF \<Longrightarrow> m_path b C (pc + i_b i + 1) M M' \<Longrightarrow> m_path b C pc M M'"

inductive_cases m_pathE: "m_path b C pc M M'"

text \<open>\<open>path_safe\<close> follows the interpretation and asks that every instruction it meets be safe.\<close>

function path_safe :: "clp_env \<Rightarrow> sem_inst list \<Rightarrow> clp_state \<Rightarrow> clp_prob \<Rightarrow> bool" where
  "path_safe env b s p \<longleftrightarrow> 0 \<le> pr_pc p \<and> (pr_pc p < int (length b) \<longrightarrow> inst_safe s (b ! nat (pr_pc p)) \<and>
     (case clp_step env b s p of Inl e \<Rightarrow> True | Inr sp \<Rightarrow> path_safe env b (fst sp) (count_sem (snd sp))))"
  by pat_completeness auto

termination
  by (relation "measure (\<lambda>(env, b, s, p). nat (int (length b) - pr_pc p))")
    (auto dest!: clp_step_pc simp: prod_eq_iff)

declare path_safe.simps [simp del]

lemma bb_at_nth: "0 \<le> p \<Longrightarrow> p < int (length b) \<Longrightarrow> bb_at b p = Inr (b ! nat p)"
  by (simp add: bb_at_def)

lemma clp_path_todo: "clp_path env b s p = Inr (s', p') \<Longrightarrow> set (pr_todo p) \<subseteq> set (pr_todo p')"
proof (induction env b s p rule: clp_path.induct)
  case (1 env b s p)
  show ?case
  proof (cases "pr_pc p < int (length b)")
    case True
    then obtain t q where q: "clp_step env b s p = Inr (t, q)" "clp_path env b t (count_sem q) = Inr (s', p')"
      using 1(2) by (subst (asm) clp_path.simps) (auto simp: res_simps)
    have "set (pr_todo p) \<subseteq> set (pr_todo q)" using q(1) by (auto simp: clp_step_def Let_def res_simps)
    then show ?thesis using 1(1) [OF True q(1)] q(2) by auto
  next
    case False
    then show ?thesis using 1(2) by (subst (asm) clp_path.simps) auto
  qed
qed

definition pending :: "sem_inst list \<Rightarrow> (machine \<Rightarrow> bool) \<Rightarrow> clp_prob \<Rightarrow> machine \<Rightarrow> bool" where
  "pending b C p M' \<longleftrightarrow> (\<exists>(pc, t) \<in> set (pr_todo p). \<exists>M. st_rep t M \<and> m_path b C pc M M')"

lemma m_path_past_end: "int (length b) \<le> pc \<Longrightarrow> m_path b C pc M M' \<Longrightarrow> M' = M"
  by (erule m_pathE) (auto simp: bb_at_def res_simps split: if_splits)

text \<open>One step: the machine goes on from the next program counter, or the path is put aside.\<close>

lemma clp_step_sound:
  assumes s: "st_good s" "st_rep s M" and pc: "0 \<le> pr_pc p" "pr_pc p < int (length b)"
    and safe: "inst_safe s (b ! nat (pr_pc p))"
    and im: "\<And>i M. i \<in> set b \<Longrightarrow> i_op i = S_LOAD \<Longrightarrow> C M \<Longrightarrow> image_ok env (i_b i) M"
    and run: "m_path b C (pr_pc p) M M'"
  shows "\<exists>s' p'. clp_step env b s p = Inr (s', p') \<and> st_good s' \<and>
    ((\<exists>M1. st_rep s' M1 \<and> m_path b C (pr_pc p') M1 M') \<or> pending b C p' M')"
proof -
  let ?i = "b ! nat (pr_pc p)"
  have i: "bb_at b (pr_pc p) = Inr ?i" "?i \<in> set b" using bb_at_nth [OF pc] pc by (auto simp: nat_less_iff)
  have keep: "clp_exec env ?i s st = Inr (s, st)" if "i_op ?i \<in> {S_BRANCH, S_TRAP, S_CONT, S_IF}" for st
    using that by (auto simp: clp_exec_def)
  from run show ?thesis
  proof (cases rule: m_path.cases)
    case path_end
    then show ?thesis using pc by simp
  next
    case (path_stop j)
    then have j: "j = ?i" using i by simp
    have "m_path b C (int (length b) + 1) M M'" using path_stop by (auto intro: m_path.path_end)
    then show ?thesis using i path_stop j keep s by (auto simp: clp_step_def Let_def)
  next
    case (path_step j M1)
    then have j: "j = ?i" using i by simp
    obtain s' st where "clp_exec env ?i s (pr_stats p) = Inr (s', st)" "st_good s'" "st_rep s' M1"
      using clp_exec_sound [OF s safe _ path_step(4) [unfolded j]] im [OF i(2) _ path_step(3)] by blast
    then show ?thesis using i path_step j by (auto simp: clp_step_def Let_def)
  next
    case (path_skip j)
    then have j: "j = ?i" using i by simp
    then show ?thesis using i path_skip keep s by (auto simp: clp_step_def Let_def pending_def)
  qed
qed

text \<open>A safe instruction never fails, whatever the state.\<close>

lemma var_get_total: "\<exists>v. var_get s i = Inr v"
  by (simp add: var_get_def st_get_def)

lemma var_set_total: "\<exists>s'. var_set s i v = Inr s'"
  by (simp add: var_set_def st_set_def)

lemma const_access_total: "\<exists>v. st_get (clp_const a) s = Inr v" "\<exists>s'. st_set (clp_const a) v s = Inr s'" "\<exists>s'. st_set clp_all v s = Inr s'"
  by (simp_all add: st_get_def st_set_def)

lemma shift_total: "shift_safe w \<Longrightarrow> \<exists>r. clp_shl v w = Inr r" "shift_safe w \<Longrightarrow> \<exists>r. clp_shr v w = Inr r"
  by (auto simp: clp_shl_def clp_shr_def shift_safe_def Let_def)

lemma rbind_total: "\<exists>x. r = Inr x \<Longrightarrow> (\<And>x. r = Inr x \<Longrightarrow> \<exists>y. f x = Inr y) \<Longrightarrow> \<exists>y. rbind r f = Inr y"
  by auto

lemma exec_binary_total: "(\<And>v w. operands s i = (v, w) \<Longrightarrow> \<exists>r. f v w = Inr r) \<Longrightarrow> \<exists>s'. exec_binary i f s = Inr s'"
  unfolding exec_binary_def by (intro rbind_total var_get_total var_set_total) (simp add: operands_def)

lemma load_data_total: "\<exists>s'. load_data env i ad s = Inr s'"
  using var_get_total [of s "i_d i"] var_set_total by (auto simp: load_data_def)

lemma load_fetch_total: "sole ad \<or> c_mtimes ad \<ge> 42 \<or> ad = clp_all \<Longrightarrow> \<exists>x. load_fetch i ad s st = Inr x"
  using var_set_total [of s "i_d i"] const_access_total(1) [of "c_lower ad" s]
  by (auto simp: load_fetch_def sole_def not_less rbind_eq_Inr intro!: rbind_total)

lemma exec_load_total:
  assumes "var_get s (i_a i) = Inr ad" "sole ad \<or> c_mtimes ad \<ge> 42 \<or> ad = clp_all"
  shows "\<exists>x. exec_load env i s st = Inr x"
proof -
  obtain s1 st1 where f: "load_fetch i ad s (st\<lparr>nb_load := nb_load st + 1\<rparr>) = Inr (s1, st1)"
    using load_fetch_total [OF assms(2)] by fastforce
  obtain s2 where d: "load_data env i ad s1 = Inr s2" using load_data_total by blast
  obtain v where "var_get s2 (i_d i) = Inr v" using var_get_total by blast
  then show ?thesis using assms(1) f d by (simp add: exec_load_def)
qed

lemma exec_store_total:
  assumes "var_get s (i_a i) = Inr ad" "ad = clp_all \<or> sole ad \<or> c_mtimes ad \<ge> 42"
  shows "\<exists>x. exec_store env i s st = Inr x"
proof -
  obtain v where v: "var_get s (i_d i) = Inr v" using var_get_total by blast
  obtain s1 where s1: "st_set clp_all v s = Inr s1" using const_access_total(3) by blast
  obtain s2 where s2: "st_set (clp_const (c_lower ad)) v s = Inr s2" using const_access_total(2) by blast
  show ?thesis using assms v s1 s2 by (auto simp: exec_store_def Let_def sole_def split: option.splits)
qed

lemma clp_exec_total:
  assumes "inst_safe s i"
  shows "\<exists>x. clp_exec env i s st = Inr x"
proof -
  obtain v w where ops: "operands s i = (v, w)" by (cases "operands s i")
  obtain ad where ad: "var_get s (i_a i) = Inr ad" using var_get_total by blast
  then have va: "v = ad" using ops by (simp add: operands_def)
  have top: "\<exists>x. rbind (var_set s d u) (\<lambda>s. Inr (s, st)) = Inr x" for d u using var_set_total [of s d u] by auto
  have bin: "\<exists>x. rbind (exec_binary i f s) (\<lambda>s. Inr (s, st)) = Inr x" if "\<exists>r. f v w = Inr r" for f
    using exec_binary_total [of s i f] that ops by auto
  show ?thesis
  proof (cases "i_op i")
    case S_LOAD
    then show ?thesis using exec_load_total [OF ad] assms ops va by (auto simp: inst_safe_def clp_exec_def)
  next
    case S_STORE
    then show ?thesis using exec_store_total [OF ad] assms ops va by (auto simp: inst_safe_def clp_exec_def)
  next
    case S_SET
    then show ?thesis using ad var_set_total [of s "i_d i" ad] by (auto simp: clp_exec_def Let_def)
  next
    case S_SHL
    then show ?thesis using bin [of clp_shl] shift_total(1) [of w v] assms ops by (simp add: inst_safe_def clp_exec_def)
  next
    case S_SHR
    then show ?thesis using bin [of clp_shr] shift_total(2) [of w v] assms ops by (simp add: inst_safe_def clp_exec_def)
  next
    case S_ASR
    then show ?thesis using bin [of clp_shr] shift_total(2) [of w v] assms ops by (simp add: inst_safe_def clp_exec_def)
  qed (use top bin in \<open>auto simp: clp_exec_def\<close>)
qed

lemma clp_step_total:
  assumes "0 \<le> pr_pc p" "pr_pc p < int (length b)" "inst_safe s (b ! nat (pr_pc p))"
  shows "\<exists>s' p'. clp_step env b s p = Inr (s', p')"
proof -
  obtain s' st where "clp_exec env (b ! nat (pr_pc p)) s (pr_stats p) = Inr (s', st)"
    using clp_exec_total [OF assms(3)] by fastforce
  then show ?thesis using bb_at_nth [OF assms(1,2)] by (simp add: clp_step_def)
qed

lemma clp_path_total: "path_safe env b s p \<Longrightarrow> \<exists>s' p'. clp_path env b s p = Inr (s', p')"
proof (induction env b s p rule: clp_path.induct)
  case (1 env b s p)
  show ?case
  proof (cases "pr_pc p < int (length b)")
    case True
    then obtain t q where q: "clp_step env b s p = Inr (t, q)"
      using clp_step_total 1(2) by (subst (asm) path_safe.simps) blast
    then have "path_safe env b t (count_sem q)" using 1(2) True by (subst (asm) path_safe.simps) simp
    then show ?thesis using 1(1) [OF True q] True q by (subst clp_path.simps) simp
  next
    case False
    then show ?thesis by (subst clp_path.simps) simp
  qed
qed

lemma clp_path_sound:
  assumes "path_safe env b s p" "st_good s" "st_rep s M" "m_path b C (pr_pc p) M M'"
    and "\<And>i M. i \<in> set b \<Longrightarrow> i_op i = S_LOAD \<Longrightarrow> C M \<Longrightarrow> image_ok env (i_b i) M"
  shows "\<exists>s' p'. clp_path env b s p = Inr (s', p') \<and> (st_rep s' M' \<or> pending b C p' M')"
  using assms
proof (induction env b s p arbitrary: M rule: clp_path.induct)
  case (1 env b s p)
  show ?case
  proof (cases "pr_pc p < int (length b)")
    case False
    then have "M' = M" by (intro m_path_past_end [OF _ "1.prems"(4)]) simp
    then show ?thesis using False "1.prems"(3) by (subst clp_path.simps) simp
  next
    case True
    have pc: "0 \<le> pr_pc p" and safe: "inst_safe s (b ! nat (pr_pc p))"
      using "1.prems"(1) True by (subst (asm) path_safe.simps, simp)+
    obtain t q where q: "clp_step env b s p = Inr (t, q)" "st_good t"
        "(\<exists>M1. st_rep t M1 \<and> m_path b C (pr_pc q) M1 M') \<or> pending b C q M'"
      using clp_step_sound [OF "1.prems"(2,3) pc True safe "1.prems"(5,4)] by blast
    have ps: "path_safe env b t (count_sem q)" using "1.prems"(1) True q(1) by (subst (asm) path_safe.simps) simp
    have go: "clp_path env b s p = clp_path env b t (count_sem q)" using True q(1) by (subst clp_path.simps) simp
    from q(3) show ?thesis
    proof
      assume "\<exists>M1. st_rep t M1 \<and> m_path b C (pr_pc q) M1 M'"
      then obtain M1 where "st_rep t M1" "m_path b C (pr_pc (count_sem q)) M1 M'" by auto
      from "1.IH" [OF True q(1), unfolded fst_conv snd_conv, OF ps q(2) this "1.prems"(5)] show ?thesis unfolding go .
    next
      assume pd: "pending b C q M'"
      obtain s' p' where r: "clp_path env b t (count_sem q) = Inr (s', p')" using clp_path_total [OF ps] by blast
      then have "pending b C p' M'" using pd clp_path_todo [OF r] by (fastforce simp: pending_def)
      then show ?thesis using go r by simp
    qed
  qed
qed

subsection \<open>Soundness of a machine instruction\<close>

text \<open>
  The condition on the paths put aside: the instructions of each are safe, and its result is
  close to the output with which it is joined.
\<close>

inductive paths_safe :: "clp_env \<Rightarrow> sem_inst list \<Rightarrow> clp_state \<Rightarrow> clp_prob \<Rightarrow> bool" for env b where
  paths_done: "pr_todo p = [] \<Longrightarrow> paths_safe env b out p"
| paths_next: "pr_todo p = (pc, s) # todo \<Longrightarrow> path_safe env b s (p\<lparr>pr_pc := pc, pr_todo := todo\<rparr>) \<Longrightarrow> st_good s \<Longrightarrow>
    clp_path env b s (p\<lparr>pr_pc := pc, pr_todo := todo\<rparr>) = Inr (s', p') \<Longrightarrow> st_join out s' = Inr out' \<Longrightarrow>
    st_close out s' \<Longrightarrow> paths_safe env b out' p' \<Longrightarrow> paths_safe env b out p"

lemma clp_paths_sound:
  assumes "paths_safe env b out p" "st_rep out M' \<or> pending b C p M'"
    and im: "\<And>i M. i \<in> set b \<Longrightarrow> i_op i = S_LOAD \<Longrightarrow> C M \<Longrightarrow> image_ok env (i_b i) M"
  shows "\<exists>out' p'. clp_paths env b out p = Some (Inr (out', p')) \<and> st_rep out' M'"
  using assms(1,2)
proof (induction rule: paths_safe.induct)
  case (paths_done p out)
  then show ?case by (subst clp_paths.simps) (simp add: pending_def)
next
  case (paths_next p pc s todo s' p' out out')
  have cov: "st_rep out' M" if "st_rep out M \<or> st_rep s' M" for M
    using st_join_sound [OF paths_next(6)] paths_next(5) that by auto
  have "st_rep out' M' \<or> pending b C p' M'"
  proof (cases "st_rep out M' \<or> pending b C (p\<lparr>pr_pc := pc, pr_todo := todo\<rparr>) M'")
    case True
    moreover have "pending b C p' M'" if "pending b C (p\<lparr>pr_pc := pc, pr_todo := todo\<rparr>) M'"
      using that subsetD [OF clp_path_todo [OF paths_next(4)]] unfolding pending_def by blast
    ultimately show ?thesis using cov by blast
  next
    case False
    then obtain M where M: "st_rep s M" "m_path b C (pr_pc (p\<lparr>pr_pc := pc, pr_todo := todo\<rparr>)) M M'"
      using paths_next(1) paths_next.prems by (auto simp: pending_def)
    then have "st_rep s' M' \<or> pending b C p' M'"
      using clp_path_sound [OF paths_next(2,3) M im] unfolding paths_next(4) by blast
    then show ?thesis using cov by blast
  qed
  from paths_next.IH [OF this] show ?case using paths_next(1,4,5) by (subst clp_paths.simps) simp
qed

lemma clp_inst_sound:
  assumes "path_safe env b s (prepare (count_inst p))" "st_good s" "st_rep s M" "m_path b C 0 M M'"
    and im: "\<And>i M. i \<in> set b \<Longrightarrow> i_op i = S_LOAD \<Longrightarrow> C M \<Longrightarrow> image_ok env (i_b i) M"
    and ps: "\<And>s' p'. clp_path env b s (prepare (count_inst p)) = Inr (s', p') \<Longrightarrow> paths_safe env b s' p'"
  shows "\<exists>s' p'. clp_inst env b s p = Some (Inr (s', p')) \<and> st_rep s' M'"
proof -
  have "m_path b C (pr_pc (prepare (count_inst p))) M M'" using assms(4) by (simp add: prepare_def)
  then obtain t q where q: "clp_path env b s (prepare (count_inst p)) = Inr (t, q)" "st_rep t M' \<or> pending b C q M'"
    using clp_path_sound [OF assms(1-3) _ im] by blast
  then show ?thesis using clp_paths_sound [OF ps [OF q(1)] q(2) im] by (simp add: clp_inst_def)
qed

subsection \<open>Where the interpretation is not sound\<close>

text \<open>
  A store whose address is one of several writes its value in all of them, although the
  machine writes one only; a store at an unbounded address with no symbol changes nothing.
\<close>

definition two_cells :: clp_state where
  "two_cells = \<lparr>st_def = clp_all, st_mem = [(0, clp_const 7), (4, clp_const 7)],
     st_regs = [clp_set K_VAL 0 4 1, clp_const 9], st_tmps = []\<rparr>"

definition two_cells_machine :: machine where
  "two_cells_machine = \<lparr>m_regs = (\<lambda>i. if i = 1 then 9 else 0), m_tmps = (\<lambda>_. 0), m_mem = (\<lambda>_. 7)\<rparr>"

lemma two_cells_rep: "st_rep two_cells two_cells_machine"
proof -
  have "(0 :: 32 word) \<in> clp_gamma (clp_set K_VAL 0 4 1)" by (rule clp_bound_member)
  then show ?thesis
    by (auto simp: st_rep_def two_cells_def two_cells_machine_def mem_ok_def mc.rep_def vc.rep_def vals_get_def
        mem_get.simps nth_Cons split: nat.splits)
qed

lemma store_strong_update:
  "\<exists>s' st'. exec_store env (inst2 S_STORE 1 0) two_cells st = Inr (s', st') \<and>
     \<not> st_rep s' (two_cells_machine\<lparr>m_mem := (m_mem two_cells_machine)(m_get two_cells_machine 0 := m_get two_cells_machine 1)\<rparr>)"
proof -
  have g: "var_get two_cells 0 = Inr (clp_set K_VAL 0 4 1)" "var_get two_cells 1 = Inr (clp_const 9)"
    by code_simp+
  have c: "\<not> (42 :: 32 word) \<le> 1" "clp_set K_VAL 0 4 1 \<noteq> clp_all" by (simp_all add: word_le_nat_alt clp_all_def clp_set_def)
  let ?s = "two_cells\<lparr>st_mem := [(0, clp_const 9), (4, clp_const 9)]\<rparr>"
  have "rfold (\<lambda>m s. rbind (var_get s 1) (\<lambda>v. st_set (clp_const (0 + 4 * of_nat m)) v s)) [0, 1] two_cells = Inr ?s"
    by code_simp
  then have "\<exists>st'. exec_store env (inst2 S_STORE 1 0) two_cells st = Inr (?s, st')"
    using g c by (simp add: exec_store_def inst2_def inst0_def Let_def upt_rec)
  moreover have "\<not> st_rep ?s (two_cells_machine\<lparr>m_mem := (m_mem two_cells_machine)(m_get two_cells_machine 0 := m_get two_cells_machine 1)\<rparr>)"
    (is "\<not> st_rep _ ?M")
  proof
    assume "st_rep ?s ?M"
    then have "m_mem ?M 4 \<in> clp_gamma (mem_get clp_all 4 (st_mem ?s))" by (simp only: st_rep_def mc.rep_def)
    then show False by (simp add: mem_get.simps two_cells_machine_def m_get_def)
  qed
  ultimately show ?thesis by blast
qed

lemma store_unbounded_ignored:
  assumes "var_get s (i_a i) = Inr ad" "ad \<noteq> clp_all" "c_mtimes ad = UMAXn" "env_findSymbolAt env (c_lower ad) = None"
  shows "\<exists>st'. exec_store env i s st = Inr (s, st')"
proof -
  obtain v where v: "var_get s (i_d i) = Inr v" using var_get_total by blast
  have c: "(42 :: 32 word) \<le> UMAXn" by (simp add: UMAXn_def word_le_nat_alt)
  show ?thesis using assms v c by (simp add: exec_store_def Let_def)
qed

end
