(* ===== verification/Clp_Symbolic.thy ===== *)
theory Clp_Symbolic
  imports Clp_Value Sem_Inst
begin

text \<open>
  Symbolic expressions of the branch filters (otawa/include/otawa/data/clp/SymbolicExpr.h and
  otawa/src/prog/clp_symbolic_expr.cpp): the expressions, their canonical form, comparisons and
  their negation, and the application of a comparison to a value.

  An expression node knows its parent, and \<^verbatim>\<open>canonize\<close> folds constants only in a node that has
  one. All nodes below another have it as parent, except the additions that the rotation of a
  sum creates: the flag of an addition says whether its parent is set. Copies set it.
\<close>

subsection \<open>Expressions\<close>

datatype se_op = SE_NONE | SE_CONST | SE_ADDR | SE_REG | SE_NEG | SE_ADD | SE_CMP | SE_CMPU | SE_LE | SE_LT | SE_GE | SE_GT
  | SE_EQ | SE_NE | SE_ULE | SE_ULT | SE_UGE | SE_UGT | SE_OR

text \<open>\<open>SECmpE\<close> is an undetermined comparison inside an expression, unsigned when its flag is set.\<close>

datatype symb = SEConst clp | SEAddr clp | SEReg clp | SENeg symb | SEAdd bool symb symb | SECmpE bool symb symb

datatype secmp = SECmp (sc_op: se_op) (sc_a: "symb option") (sc_b: "symb option")

fun symb_op :: "symb \<Rightarrow> se_op" where
  "symb_op (SEConst v) = SE_CONST"
| "symb_op (SEAddr v) = SE_ADDR"
| "symb_op (SEReg v) = SE_REG"
| "symb_op (SENeg a) = SE_NEG"
| "symb_op (SEAdd t a b) = SE_ADD"
| "symb_op (SECmpE u a b) = (if u then SE_CMPU else SE_CMP)"

fun symb_val :: "symb \<Rightarrow> clp" where
  "symb_val (SEConst v) = v"
| "symb_val (SEAddr v) = v"
| "symb_val (SEReg v) = v"
| "symb_val _ = clp_const 0"

fun symb_copy :: "symb \<Rightarrow> symb" where
  "symb_copy (SEConst v) = SEConst v"
| "symb_copy (SEAddr v) = SEAddr v"
| "symb_copy (SEReg v) = SEReg v"
| "symb_copy (SENeg a) = SENeg (symb_copy a)"
| "symb_copy (SEAdd t a b) = SEAdd True (symb_copy a) (symb_copy b)"
| "symb_copy (SECmpE u a b) = SECmpE u (symb_copy a) (symb_copy b)"

fun symb_equals :: "symb \<Rightarrow> symb \<Rightarrow> bool" where
  "symb_equals (SEConst v) e \<longleftrightarrow> symb_op e = SE_CONST \<and> v = symb_val e"
| "symb_equals (SEAddr v) e \<longleftrightarrow> symb_op e = SE_ADDR \<and> v = symb_val e"
| "symb_equals (SEReg v) e \<longleftrightarrow> symb_op e = SE_REG \<and> v = symb_val e"
| "symb_equals (SENeg a) e \<longleftrightarrow> (case e of SENeg a' \<Rightarrow> symb_equals a a' | _ \<Rightarrow> False)"
| "symb_equals (SEAdd t a b) e \<longleftrightarrow> (case e of SEAdd t' a' b' \<Rightarrow> symb_equals a a' \<and> symb_equals b b' | _ \<Rightarrow> False)"
| "symb_equals (SECmpE u a b) e \<longleftrightarrow> (case e of SECmpE u' a' b' \<Rightarrow> u = u' \<and> symb_equals a a' \<and> symb_equals b b' | _ \<Rightarrow> False)"

text \<open>The replacement compares each child before it goes down into it.\<close>

fun symb_replace :: "symb \<Rightarrow> symb \<Rightarrow> symb \<Rightarrow> symb" where
  "symb_replace s n (SENeg a) = SENeg (if symb_equals a s then symb_copy n else symb_replace s n a)"
| "symb_replace s n (SEAdd t a b) = SEAdd t (if symb_equals a s then symb_copy n else symb_replace s n a)
     (if symb_equals b s then symb_copy n else symb_replace s n b)"
| "symb_replace s n (SECmpE u a b) = SECmpE u (if symb_equals a s then symb_copy n else symb_replace s n a)
     (if symb_equals b s then symb_copy n else symb_replace s n b)"
| "symb_replace s n e = e"

definition replace_child :: "symb \<Rightarrow> symb \<Rightarrow> symb \<Rightarrow> symb" where
  "replace_child s n a = (if symb_equals a s then symb_copy n else symb_replace s n a)"

definition secmp_replace :: "symb \<Rightarrow> symb \<Rightarrow> secmp \<Rightarrow> secmp" where
  "secmp_replace s n c = SECmp (sc_op c) (map_option (replace_child s n) (sc_a c)) (map_option (replace_child s n) (sc_b c))"

definition secmp_copy :: "secmp \<Rightarrow> secmp" where
  "secmp_copy c = SECmp (sc_op c) (map_option symb_copy (sc_a c)) (map_option symb_copy (sc_b c))"

definition add_absent :: "'a list \<Rightarrow> 'a list \<Rightarrow> 'a list" where
  "add_absent xs ys = fold (\<lambda>y xs. if y \<in> set xs then xs else xs @ [y]) ys xs"

fun used_reg :: "symb \<Rightarrow> clp list" where
  "used_reg (SEReg v) = [v]"
| "used_reg (SENeg a) = used_reg a"
| "used_reg (SEAdd t a b) = add_absent (used_reg a) (used_reg b)"
| "used_reg (SECmpE u a b) = add_absent (used_reg a) (used_reg b)"
| "used_reg _ = []"

fun used_addr :: "symb \<Rightarrow> clp list" where
  "used_addr (SEAddr v) = [v]"
| "used_addr (SENeg a) = used_addr a"
| "used_addr (SEAdd t a b) = add_absent (used_addr a) (used_addr b)"
| "used_addr (SECmpE u a b) = add_absent (used_addr a) (used_addr b)"
| "used_addr _ = []"

definition secmp_used :: "(symb \<Rightarrow> clp list) \<Rightarrow> secmp \<Rightarrow> clp list" where
  "secmp_used f c = add_absent (case sc_a c of None \<Rightarrow> [] | Some a \<Rightarrow> f a) (case sc_b c of None \<Rightarrow> [] | Some b \<Rightarrow> f b)"

lemma set_add_absent [simp]: "set (add_absent xs ys) = set xs \<union> set ys"
  unfolding add_absent_def by (induction ys arbitrary: xs) auto

lemma distinct_add_absent: "distinct xs \<Longrightarrow> distinct (add_absent xs ys)"
  unfolding add_absent_def by (induction ys arbitrary: xs) auto

lemma used_reg_distinct: "distinct (used_reg e)" and used_addr_distinct: "distinct (used_addr e)"
  by (induction e) (simp_all add: distinct_add_absent)

subsection \<open>Canonical form of an expression\<close>

fun is_seconst :: "symb \<Rightarrow> bool" where
  "is_seconst (SEConst v) = True"
| "is_seconst _ = False"

fun is_var :: "symb \<Rightarrow> bool" where
  "is_var (SEReg v) = True"
| "is_var (SEAddr v) = True"
| "is_var _ = False"

fun attach :: "symb \<Rightarrow> symb" where
  "attach (SEAdd t a b) = SEAdd True a b"
| "attach e = e"

definition canon_neg :: "symb \<Rightarrow> symb" where
  "canon_neg a = (case a of SEConst v \<Rightarrow> SEConst (clp_sub (clp_const 0) v) | SENeg x \<Rightarrow> symb_copy x | _ \<Rightarrow> SENeg a)"

definition const_right :: "symb \<Rightarrow> symb \<Rightarrow> symb \<times> symb" where
  "const_right a b = (if is_seconst a then (b, a) else (a, b))"

definition rotated :: "symb \<Rightarrow> (symb \<times> symb) option" where
  "rotated l = (case l of SEAdd u x y \<Rightarrow> if is_var x then Some (symb_copy x, symb_copy y) else None | _ \<Rightarrow> None)"

function (domintros) canonize :: "symb \<Rightarrow> symb" where
  "canonize (SEConst v) = SEConst v"
| "canonize (SEAddr v) = SEAddr v"
| "canonize (SEReg v) = SEReg v"
| "canonize (SENeg a) = canon_neg (canonize a)"
| "canonize (SECmpE u a b) = SECmpE u (canonize a) (canonize b)"
| "canonize (SEAdd t a b) =
     (let a' = canonize a; b' = canonize b in
      if t \<and> is_seconst a' \<and> is_seconst b' then SEConst (clp_add (symb_val a') (symb_val b'))
      else case const_right a' b' of (l, r) \<Rightarrow>
        (case rotated l of
           Some (x, y) \<Rightarrow> SEAdd t x (canonize (SEAdd False y (attach r)))
         | None \<Rightarrow> SEAdd t l r))"
  by pat_completeness auto

fun ssz :: "symb \<Rightarrow> nat" where
  "ssz (SENeg a) = Suc (ssz a)"
| "ssz (SEAdd t a b) = Suc (ssz a + ssz b)"
| "ssz (SECmpE u a b) = Suc (ssz a + ssz b)"
| "ssz _ = 1"

lemma ssz_pos: "0 < ssz e" by (cases e) auto

lemma ssz_copy [simp]: "ssz (symb_copy e) = ssz e" by (induction e) auto

lemma ssz_attach [simp]: "ssz (attach e) = ssz e" by (cases e) auto

lemma const_right_ssz: "const_right a b = (l, r) \<Longrightarrow> ssz l + ssz r = ssz a + ssz b"
  by (auto simp: const_right_def split: if_splits)

lemma rotated_ssz: "rotated l = Some (x, y) \<Longrightarrow> ssz l = Suc (ssz x + ssz y)"
  by (auto simp: rotated_def split: symb.splits if_splits)

lemma canon_neg_ssz: "ssz (canon_neg a) \<le> Suc (ssz a)"
  by (auto simp: canon_neg_def split: symb.splits)

lemma canonize_ssz: "canonize_dom e \<Longrightarrow> ssz (canonize e) \<le> ssz e"
proof (induction rule: canonize.pinduct)
  case (4 a)
  then show ?case using canon_neg_ssz [of "canonize a"] by (simp add: canonize.psimps)
next
  case (6 t a b)
  obtain l r where lr: "const_right (canonize a) (canonize b) = (l, r)" by fastforce
  have le: "ssz l + ssz r \<le> ssz a + ssz b" using 6(2) 6(3) [OF refl] const_right_ssz [OF lr] by simp
  note e = canonize.psimps(6) [OF 6(1), unfolded Let_def]
  consider "t \<and> is_seconst (canonize a) \<and> is_seconst (canonize b)"
    | "\<not> (t \<and> is_seconst (canonize a) \<and> is_seconst (canonize b))" "rotated l = None"
    | x y where "\<not> (t \<and> is_seconst (canonize a) \<and> is_seconst (canonize b))" "rotated l = Some (x, y)"
    by (cases "rotated l") auto
  then show ?case
  proof cases
    case 3
    then have "ssz (canonize (SEAdd False y (attach r))) \<le> Suc (ssz y + ssz r)" using 6(4) [OF refl refl 3(1) lr [symmetric] 3(2) refl] by simp
    then show ?thesis unfolding e using 3 lr le rotated_ssz [OF 3(2)] by simp
  qed (unfold e, use lr le in simp_all)
qed (auto simp: canonize.psimps)

lemma canonize_dom_all: "canonize_dom e"
proof (induction "ssz e" arbitrary: e rule: less_induct)
  case less
  show ?case
  proof (cases e)
    case (SEAdd t a b)
    have d: "canonize_dom a" "canonize_dom b" using less SEAdd by simp_all
    have rot: "canonize_dom (SEAdd False y (attach r))"
      if "(l, r) = const_right (canonize a) (canonize b)" "rotated l = Some (x, y)" for l r x y
      using canonize_ssz [OF d(1)] canonize_ssz [OF d(2)] const_right_ssz [OF that(1) [symmetric]] rotated_ssz [OF that(2)]
      by (intro less) (simp add: SEAdd)
    show ?thesis unfolding SEAdd by (rule canonize.domintros(6)) (assumption | rule d rot)+
  qed (use less in \<open>simp_all add: canonize.domintros\<close>)
qed

termination canonize
  using canonize_dom_all by blast

lemma canonize_add:
  "\<not> (t \<and> is_seconst (canonize a) \<and> is_seconst (canonize b)) \<Longrightarrow> const_right (canonize a) (canonize b) = (l, r) \<Longrightarrow>
     canonize (SEAdd t a b) = (case rotated l of
         Some (x, y) \<Rightarrow> SEAdd t x (canonize (SEAdd False y (attach r)))
       | None \<Rightarrow> SEAdd t l r)"
  by (subst canonize.simps(6)) (auto simp: Let_def simp del: canonize.simps)

lemmas canonize_le = canonize_ssz [OF canonize_dom_all]

subsection \<open>Comparisons\<close>

fun se_reverse :: "se_op \<Rightarrow> se_op" where
  "se_reverse SE_LE = SE_GE"
| "se_reverse SE_LT = SE_GT"
| "se_reverse SE_GE = SE_LE"
| "se_reverse SE_GT = SE_LT"
| "se_reverse SE_ULE = SE_UGE"
| "se_reverse SE_ULT = SE_UGT"
| "se_reverse SE_UGE = SE_ULE"
| "se_reverse SE_UGT = SE_ULT"
| "se_reverse op = op"

fun se_unsigned :: "se_op \<Rightarrow> se_op" where
  "se_unsigned SE_LE = SE_ULE"
| "se_unsigned SE_LT = SE_ULT"
| "se_unsigned SE_GE = SE_UGE"
| "se_unsigned SE_GT = SE_UGT"
| "se_unsigned op = op"

text \<open>One round of the loop of \<^verbatim>\<open>SECmp::canonize\<close>, with the flag \<^verbatim>\<open>cancont\<close>: its five tests in order.\<close>

definition cmp_unfold :: "bool \<Rightarrow> secmp \<times> bool \<Rightarrow> secmp \<times> bool" where
  "cmp_unfold u cc = (case cc of
       (SECmp op (Some (SECmpE u' x y)) None, c) \<Rightarrow>
         if u' = u then (SECmp (if u then se_unsigned op else op) (Some (symb_copy x)) (Some (symb_copy y)), True) else cc
     | _ \<Rightarrow> cc)"

definition cmp_swap :: "secmp \<times> bool \<Rightarrow> secmp \<times> bool" where
  "cmp_swap cc = (case cc of
       (SECmp op (Some a) (Some b), c) \<Rightarrow>
         if is_seconst a \<and> \<not> is_seconst b then (SECmp (se_reverse op) (Some b) (Some a), True) else cc
     | _ \<Rightarrow> cc)"

definition cmp_add :: "secmp \<times> bool \<Rightarrow> secmp \<times> bool" where
  "cmp_add cc = (case cc of
       (SECmp op (Some (SEAdd t x y)) (Some b), c) \<Rightarrow>
         (SECmp op (Some (symb_copy x)) (Some (canonize (symb_copy (SEAdd True b (SENeg y))))), True)
     | _ \<Rightarrow> cc)"

definition cmp_neg :: "secmp \<times> bool \<Rightarrow> secmp \<times> bool" where
  "cmp_neg cc = (case cc of
       (SECmp op (Some (SENeg x)) (Some b), c) \<Rightarrow>
         (SECmp (se_reverse op) (Some (symb_copy x)) (Some (canonize (SENeg (symb_copy b)))), True)
     | _ \<Rightarrow> cc)"

definition cmp_round :: "secmp \<Rightarrow> secmp \<times> bool" where
  "cmp_round c = cmp_neg (cmp_add (cmp_swap (cmp_unfold True (cmp_unfold False (c, False)))))"

partial_function (option) cmp_loop :: "secmp \<Rightarrow> secmp option" where
  "cmp_loop c = (case cmp_round c of (c', cont) \<Rightarrow> if cont then cmp_loop c' else Some c')"

declare cmp_loop.simps [code]

definition secmp_canonize :: "secmp \<Rightarrow> secmp option" where
  "secmp_canonize c = (let c' = SECmp (sc_op c) (map_option canonize (sc_a c)) (map_option canonize (sc_b c)) in
     if sc_op c = SE_CMP \<or> sc_op c = SE_CMPU then Some c' else cmp_loop c')"

fun se_not :: "se_op \<Rightarrow> se_op" where
  "se_not SE_LE = SE_GT"
| "se_not SE_LT = SE_GE"
| "se_not SE_GE = SE_LT"
| "se_not SE_GT = SE_LE"
| "se_not SE_EQ = SE_NE"
| "se_not SE_NE = SE_EQ"
| "se_not SE_ULE = SE_UGT"
| "se_not SE_ULT = SE_UGE"
| "se_not SE_UGE = SE_ULT"
| "se_not SE_UGT = SE_ULE"
| "se_not SE_OR = SE_NONE"
| "se_not op = op"

text \<open>The copies are calls on the children, which a separator of alternatives does not have.\<close>

definition logicalNot :: "secmp \<Rightarrow> secmp res" where
  "logicalNot c = (case (sc_a c, sc_b c) of
       (Some a, Some b) \<Rightarrow> Inr (SECmp (se_not (sc_op c)) (Some (symb_copy a)) (Some (symb_copy b)))
     | _ \<Rightarrow> Inl Undefined)"

subsection \<open>The canonical form of a comparison is reached\<close>

fun top_att :: "symb \<Rightarrow> bool" where
  "top_att (SEAdd t a b) = t"
| "top_att _ = True"

text \<open>A detached addition is the right operand of a sum that starts with a variable.\<close>

fun att_ok :: "symb \<Rightarrow> bool" where
  "att_ok (SENeg a) \<longleftrightarrow> att_ok a \<and> top_att a"
| "att_ok (SEAdd t a b) \<longleftrightarrow> att_ok a \<and> top_att a \<and> att_ok b \<and> (top_att b \<or> is_var a)"
| "att_ok (SECmpE u a b) \<longleftrightarrow> att_ok a \<and> top_att a \<and> att_ok b \<and> top_att b"
| "att_ok _ = True"

text \<open>In a canonical expression, what a sum starts with and what is negated is not a constant.\<close>

fun cform :: "symb \<Rightarrow> bool" where
  "cform (SENeg a) \<longleftrightarrow> cform a \<and> \<not> is_seconst a"
| "cform (SEAdd t a b) \<longleftrightarrow> cform a \<and> \<not> is_seconst a"
| "cform (SECmpE u a b) \<longleftrightarrow> cform a \<and> cform b"
| "cform _ = True"

lemma copy_kinds [simp]: "is_seconst (symb_copy e) = is_seconst e" "is_var (symb_copy e) = is_var e" "cform (symb_copy e) = cform e"
  by (induction e) auto

lemma copy_attached [simp]: "top_att (symb_copy e)" "att_ok (symb_copy e)"
  by (induction e) auto

lemma canonize_var: "is_var a \<Longrightarrow> canonize a = a"
  by (cases a) auto

lemma rotated_var: "rotated l = Some (x, y) \<Longrightarrow> is_var x"
  by (auto simp: rotated_def split: symb.splits if_splits)

lemma var_facts: "is_var x \<Longrightarrow> cform x \<and> \<not> is_seconst x"
  by (cases x) auto

lemma canonize_cform: "att_ok e \<Longrightarrow> top_att e \<Longrightarrow> cform (canonize e)"
proof (induction e)
  case (SENeg a)
  then show ?case by (auto simp: canon_neg_def split: symb.splits)
next
  case (SEAdd t a b)
  obtain l r where lr: "const_right (canonize a) (canonize b) = (l, r)" by fastforce
  show ?case
  proof (cases "is_seconst (canonize a) \<and> is_seconst (canonize b)")
    case True
    then show ?thesis using SEAdd.prems by (simp add: Let_def)
  next
    case False
    have l: "cform l \<and> \<not> is_seconst l"
    proof (cases "is_seconst (canonize a)")
      case True
      then have "\<not> is_var a" using canonize_var [of a] var_facts [of a] by auto
      then show ?thesis using SEAdd True False lr by (auto simp: const_right_def)
    next
      case f: False
      then show ?thesis using SEAdd lr by (auto simp: const_right_def)
    qed
    then show ?thesis using False lr rotated_var [of l] var_facts by (auto simp: Let_def split: option.splits)
  qed
qed auto

definition cmp_ok :: "secmp \<Rightarrow> bool" where
  "cmp_ok c \<longleftrightarrow> (\<forall>e \<in> set_option (sc_a c) \<union> set_option (sc_b c). cform e)"

fun cmp_measure :: "secmp \<Rightarrow> nat" where
  "cmp_measure (SECmp op (Some a) (Some b)) = (if is_seconst a then Suc (ssz b) else ssz a)"
| "cmp_measure (SECmp op (Some a) None) = Suc (ssz a)"
| "cmp_measure (SECmp op None b) = 0"

text \<open>A test of the loop does nothing, or it asks for another round and the comparison gets smaller.\<close>

definition shrinks :: "secmp \<times> bool \<Rightarrow> secmp \<times> bool \<Rightarrow> bool" where
  "shrinks p q \<longleftrightarrow> cmp_ok (fst q) \<and> (q = p \<or> cmp_measure (fst q) < cmp_measure (fst p) \<and> snd q)"

lemma shrinks_trans: "shrinks p q \<Longrightarrow> shrinks q r \<Longrightarrow> shrinks p r"
  by (auto simp: shrinks_def)

lemma shrinks_ok: "shrinks p q \<Longrightarrow> cmp_ok (fst q)"
  by (simp add: shrinks_def)

lemma canonize_copy_cform [simp]: "cform (canonize (SEAdd True (symb_copy a) (SENeg (symb_copy b))))" "cform (canonize (SENeg (symb_copy a)))"
  by (intro canonize_cform; simp)+

lemma cmp_unfold_shrinks: "cmp_ok (fst p) \<Longrightarrow> shrinks p (cmp_unfold u p)"
  by (auto simp: shrinks_def cmp_unfold_def cmp_ok_def ssz_pos split: prod.splits secmp.splits option.splits symb.splits)

lemma cmp_swap_shrinks: "cmp_ok (fst p) \<Longrightarrow> shrinks p (cmp_swap p)"
  by (auto simp: shrinks_def cmp_swap_def cmp_ok_def split: prod.splits secmp.splits option.splits)

lemma cmp_add_shrinks: "cmp_ok (fst p) \<Longrightarrow> shrinks p (cmp_add p)"
  by (auto simp: shrinks_def cmp_add_def cmp_ok_def simp del: canonize.simps split: prod.splits secmp.splits option.splits symb.splits)

lemma cmp_neg_shrinks: "cmp_ok (fst p) \<Longrightarrow> shrinks p (cmp_neg p)"
  by (auto simp: shrinks_def cmp_neg_def cmp_ok_def simp del: canonize.simps split: prod.splits secmp.splits option.splits symb.splits)

lemma cmp_round_shrinks: "cmp_ok c \<Longrightarrow> shrinks (c, False) (cmp_round c)"
proof -
  assume "cmp_ok c"
  then have 1: "shrinks (c, False) (cmp_unfold False (c, False))" (is "shrinks _ ?p1") by (simp add: cmp_unfold_shrinks)
  from cmp_unfold_shrinks [OF shrinks_ok [OF 1]] have 2: "shrinks ?p1 (cmp_unfold True ?p1)" (is "shrinks _ ?p2") .
  from cmp_swap_shrinks [OF shrinks_ok [OF 2]] have 3: "shrinks ?p2 (cmp_swap ?p2)" (is "shrinks _ ?p3") .
  from cmp_add_shrinks [OF shrinks_ok [OF 3]] have 4: "shrinks ?p3 (cmp_add ?p3)" (is "shrinks _ ?p4") .
  from cmp_neg_shrinks [OF shrinks_ok [OF 4]] have "shrinks ?p4 (cmp_neg ?p4)" .
  then show ?thesis using 1 2 3 4 shrinks_trans unfolding cmp_round_def by blast
qed

lemma cmp_loop_ends:
  assumes "cmp_ok c" "I c" and I: "\<And>d. I d \<Longrightarrow> I (fst (cmp_round d))"
  shows "\<exists>c'. cmp_loop c = Some c' \<and> cmp_round c' = (c', False) \<and> I c'"
  using assms(1,2)
proof (induction "cmp_measure c" arbitrary: c rule: less_induct)
  case less
  note s = cmp_round_shrinks [OF less.prems(1)]
  show ?case
  proof (cases "snd (cmp_round c)")
    case True
    then have "cmp_measure (fst (cmp_round c)) < cmp_measure c" "cmp_ok (fst (cmp_round c))" using s by (auto simp: shrinks_def)
    then obtain c' where "cmp_loop (fst (cmp_round c)) = Some c'" "cmp_round c' = (c', False)" "I c'"
      using less.hyps I [OF less.prems(2)] by blast
    then show ?thesis using True by (subst cmp_loop.simps) (auto split: prod.splits)
  next
    case False
    then have "cmp_round c = (c, False)" using s by (auto simp: shrinks_def)
    then show ?thesis using less.prems(2) by (subst cmp_loop.simps) auto
  qed
qed

text \<open>What a comparison that no test changes looks like.\<close>

definition secmp_att :: "secmp \<Rightarrow> bool" where
  "secmp_att c \<longleftrightarrow> (\<forall>e \<in> set_option (sc_a c) \<union> set_option (sc_b c). att_ok e \<and> top_att e)"

lemma cmp_unfold_both: "cmp_unfold u (SECmp op (Some a) (Some b), k) = (SECmp op (Some a) (Some b), k)"
  by (cases a) (simp_all add: cmp_unfold_def)

lemma cmp_round_fixed:
  assumes "cmp_round c = (c, False)" "sc_a c = Some a" "sc_b c = Some b"
  shows "is_var a \<or> symb_op a \<in> {SE_CMP, SE_CMPU} \<or> is_seconst a \<and> is_seconst b"
proof -
  obtain op where c: "c = SECmp op (Some a) (Some b)" using assms(2,3) by (cases c) auto
  then have u: "cmp_unfold True (cmp_unfold False (c, False)) = (c, False)" by (simp add: cmp_unfold_both)
  have flag: "snd p \<longrightarrow> snd (cmp_neg p)" "snd p \<longrightarrow> snd (cmp_add p)" for p
    by (auto simp: cmp_neg_def cmp_add_def split: prod.splits secmp.splits option.splits symb.splits)
  show ?thesis
  proof (rule ccontr)
    assume "\<not> ?thesis"
    then consider "is_seconst a" "\<not> is_seconst b" | x where "a = SENeg x" | t x y where "a = SEAdd t x y"
      by (cases a) (auto split: if_splits)
    then have "snd (cmp_neg (cmp_add (cmp_swap (c, False))))"
    proof cases
      case 1
      then show ?thesis using flag c by (simp add: cmp_swap_def)
    next
      case 2
      then show ?thesis using c by (simp add: cmp_swap_def cmp_add_def cmp_neg_def)
    next
      case 3
      then show ?thesis using flag c by (simp add: cmp_swap_def cmp_add_def del: canonize.simps)
    qed
    then show False using assms(1) u by (simp add: cmp_round_def)
  qed
qed

lemma secmp_canonize_ends:
  assumes "secmp_att c"
  shows "\<exists>c'. secmp_canonize c = Some c' \<and> (sc_op c \<notin> {SE_CMP, SE_CMPU} \<longrightarrow> cmp_round c' = (c', False))"
proof -
  have "cmp_ok (SECmp (sc_op c) (map_option canonize (sc_a c)) (map_option canonize (sc_b c)))"
    using assms canonize_cform by (auto simp: cmp_ok_def secmp_att_def)
  then show ?thesis using cmp_loop_ends [of _ "\<lambda>_. True"] by (fastforce simp: secmp_canonize_def Let_def)
qed

subsection \<open>Values of expressions\<close>

text \<open>
  The value of an expression whose constants are single values, in given registers and
  memory; an undetermined comparison is worth the difference of its operands.
\<close>

fun symb_word :: "(32 word \<Rightarrow> 32 word) \<Rightarrow> (32 word \<Rightarrow> 32 word) \<Rightarrow> symb \<Rightarrow> 32 word" where
  "symb_word R M (SEConst v) = c_lower v"
| "symb_word R M (SEAddr v) = M (c_lower v)"
| "symb_word R M (SEReg v) = R (c_lower v)"
| "symb_word R M (SENeg a) = - symb_word R M a"
| "symb_word R M (SEAdd t a b) = symb_word R M a + symb_word R M b"
| "symb_word R M (SECmpE u a b) = symb_word R M a - symb_word R M b"

fun symb_plain :: "symb \<Rightarrow> bool" where
  "symb_plain (SEConst v) \<longleftrightarrow> v = clp_const (c_lower v)"
| "symb_plain (SENeg a) \<longleftrightarrow> symb_plain a"
| "symb_plain (SEAdd t a b) \<longleftrightarrow> symb_plain a \<and> symb_plain b"
| "symb_plain (SECmpE u a b) \<longleftrightarrow> symb_plain a \<and> symb_plain b"
| "symb_plain _ \<longleftrightarrow> True"

lemma word_copy [simp]: "symb_word R M (symb_copy e) = symb_word R M e" "symb_plain (symb_copy e) = symb_plain e"
  by (induction e) auto

lemma word_attach [simp]: "symb_word R M (attach e) = symb_word R M e" "symb_plain (attach e) = symb_plain e"
  by (cases e; simp)+

lemma const_lower [simp]: "c_lower (clp_const k) = k"
  by (simp add: clp_const_def)

lemma clp_const_arith: "clp_add (clp_const k) (clp_const l) = clp_const (k + l)" "clp_sub (clp_const k) (clp_const l) = clp_const (k - l)"
  by (simp_all add: clp_add_def clp_sub_def clp_const_def Let_def)

lemma canon_neg_word: "symb_plain a \<Longrightarrow> symb_plain (canon_neg a) \<and> symb_word R M (canon_neg a) = - symb_word R M a"
proof (cases a)
  case (SEConst v)
  moreover assume "symb_plain a"
  ultimately show ?thesis using clp_const_arith(2) [of 0 "c_lower v"] by (simp add: canon_neg_def)
qed (auto simp: canon_neg_def)

lemma canonize_word: "symb_plain e \<Longrightarrow> symb_plain (canonize e) \<and> symb_word R M (canonize e) = symb_word R M e"
proof (induction e rule: canonize.induct)
  case (4 a)
  then show ?case using canon_neg_word by simp
next
  case (6 t a b)
  obtain l r where lr: "const_right (canonize a) (canonize b) = (l, r)" by fastforce
  have ab: "symb_plain (canonize a)" "symb_plain (canonize b)" "symb_word R M (canonize a) = symb_word R M a"
      "symb_word R M (canonize b) = symb_word R M b"
    using 6(1) 6(2) [OF refl] 6(4) by auto
  then have p: "symb_plain l" "symb_plain r" "symb_word R M l + symb_word R M r = symb_word R M a + symb_word R M b"
    using lr by (auto simp: const_right_def split: if_splits)
  show ?case
  proof (cases "t \<and> is_seconst (canonize a) \<and> is_seconst (canonize b)")
    case True
    then obtain v w where vw: "canonize a = SEConst v" "canonize b = SEConst w"
      by (cases "canonize a"; cases "canonize b") auto
    then have "v = clp_const (symb_word R M a)" "w = clp_const (symb_word R M b)" using ab by auto
    then show ?thesis using True vw by (simp add: Let_def clp_const_arith)
  next
    case False
    show ?thesis
    proof (cases "rotated l")
      case None
      then show ?thesis unfolding canonize_add [OF False lr] using p by simp
    next
      case (Some xy)
      obtain x y where xy: "xy = (x, y)" by fastforce
      then have w: "symb_plain x" "symb_plain y" "symb_word R M l = symb_word R M x + symb_word R M y"
        using Some p(1) by (auto simp: rotated_def split: symb.splits if_splits)
      have "symb_plain (canonize (SEAdd False y (attach r))) \<and>
          symb_word R M (canonize (SEAdd False y (attach r))) = symb_word R M y + symb_word R M r"
        using 6(3) [OF refl refl False lr [symmetric] Some xy [symmetric]] w p by simp
      then show ?thesis unfolding canonize_add [OF False lr] using Some xy w p(3) by (simp add: ac_simps del: canonize.simps)
    qed
  qed
qed auto

text \<open>Equalities and inequalities keep their truth: sums and negations are moved exactly, modulo \<^verbatim>\<open>2^32\<close>.\<close>

fun cmp_equal :: "(32 word \<Rightarrow> 32 word) \<Rightarrow> (32 word \<Rightarrow> 32 word) \<Rightarrow> secmp \<Rightarrow> bool" where
  "cmp_equal R M (SECmp op (Some a) (Some b)) \<longleftrightarrow> symb_word R M a = symb_word R M b"
| "cmp_equal R M (SECmp op (Some a) None) \<longleftrightarrow> symb_word R M a = 0"
| "cmp_equal R M (SECmp op None b) \<longleftrightarrow> True"

definition cmp_plain :: "secmp \<Rightarrow> bool" where
  "cmp_plain c \<longleftrightarrow> (\<forall>e \<in> set_option (sc_a c) \<union> set_option (sc_b c). symb_plain e) \<and> sc_op c \<in> {SE_EQ, SE_NE}"

definition same_equal :: "(32 word \<Rightarrow> 32 word) \<Rightarrow> (32 word \<Rightarrow> 32 word) \<Rightarrow> secmp \<Rightarrow> secmp \<Rightarrow> bool" where
  "same_equal R M c c' \<longleftrightarrow> cmp_plain c' \<and> sc_op c' = sc_op c \<and> cmp_equal R M c' = cmp_equal R M c"

lemma canonize_words [simp]:
  "symb_plain e \<Longrightarrow> symb_plain (canonize e)" "symb_plain e \<Longrightarrow> symb_word R M (canonize e) = symb_word R M e"
  using canonize_word by auto

lemma cmp_tests_equal:
  assumes "cmp_plain (fst p)"
  shows "same_equal R M (fst p) (fst (cmp_unfold u p))" "same_equal R M (fst p) (fst (cmp_swap p))"
    "same_equal R M (fst p) (fst (cmp_add p))" "same_equal R M (fst p) (fst (cmp_neg p))"
proof -
  obtain op a b k where p: "p = (SECmp op a b, k)" by (cases p; cases "fst p") auto
  note ps = assms p
  show "same_equal R M (fst p) (fst (cmp_unfold u p))"
    using ps by (auto simp: same_equal_def cmp_plain_def cmp_unfold_def split: option.splits symb.splits)
  show "same_equal R M (fst p) (fst (cmp_swap p))"
    using ps by (auto simp: same_equal_def cmp_plain_def cmp_swap_def split: option.splits)
  have "x + y = z \<longleftrightarrow> x = z - y" for x y z :: "32 word" by (auto simp: algebra_simps)
  then show "same_equal R M (fst p) (fst (cmp_add p))"
    using ps by (auto simp: same_equal_def cmp_plain_def cmp_add_def simp del: canonize.simps split: option.splits symb.splits)
  have "- x = z \<longleftrightarrow> x = - z" for x z :: "32 word" by (auto simp: algebra_simps)
  then show "same_equal R M (fst p) (fst (cmp_neg p))"
    using ps by (auto simp: same_equal_def cmp_plain_def cmp_neg_def simp del: canonize.simps split: option.splits symb.splits)
qed

lemma same_equal_trans: "same_equal R M c d \<Longrightarrow> same_equal R M d e \<Longrightarrow> same_equal R M c e"
  by (auto simp: same_equal_def)

lemma cmp_round_equal: "cmp_plain c \<Longrightarrow> same_equal R M c (fst (cmp_round c))"
proof -
  have pl: "same_equal R M x y \<Longrightarrow> cmp_plain y" for x y by (simp add: same_equal_def)
  assume "cmp_plain c"
  then have 1: "same_equal R M c (fst (cmp_unfold False (c, False)))" (is "same_equal R M c (fst ?p1)") using cmp_tests_equal(1) [of "(c, False)"] by simp
  from cmp_tests_equal(1) [OF pl [OF 1]] have 2: "same_equal R M (fst ?p1) (fst (cmp_unfold True ?p1))" (is "same_equal _ _ _ (fst ?p2)") .
  from cmp_tests_equal(2) [OF pl [OF 2]] have 3: "same_equal R M (fst ?p2) (fst (cmp_swap ?p2))" (is "same_equal _ _ _ (fst ?p3)") .
  from cmp_tests_equal(3) [OF pl [OF 3]] have 4: "same_equal R M (fst ?p3) (fst (cmp_add ?p3))" (is "same_equal _ _ _ (fst ?p4)") .
  from cmp_tests_equal(4) [OF pl [OF 4]] have "same_equal R M (fst ?p4) (fst (cmp_neg ?p4))" .
  then show ?thesis using 1 2 3 4 same_equal_trans unfolding cmp_round_def by blast
qed

lemma secmp_canonize_equal:
  assumes "secmp_att c" "cmp_plain c"
  shows "\<exists>c'. secmp_canonize c = Some c' \<and> cmp_round c' = (c', False) \<and> same_equal R M c c'"
proof -
  let ?c = "SECmp (sc_op c) (map_option canonize (sc_a c)) (map_option canonize (sc_b c))"
  have ok: "cmp_ok ?c" using assms(1) canonize_cform by (auto simp: cmp_ok_def secmp_att_def)
  have "same_equal R M c ?c" using assms(2)
    by (cases "(R, M, c)" rule: cmp_equal.cases) (auto simp: same_equal_def cmp_plain_def option.set_map)
  then obtain c' where "cmp_loop ?c = Some c'" "cmp_round c' = (c', False)" "same_equal R M c c'"
    using cmp_loop_ends [OF ok, of "same_equal R M c"] same_equal_trans cmp_round_equal by (metis same_equal_def)
  then show ?thesis using assms(2) by (auto simp: secmp_canonize_def cmp_plain_def Let_def)
qed

text \<open>Both sides stay.\<close>

definition both_sides :: "secmp \<Rightarrow> bool" where
  "both_sides c \<longleftrightarrow> sc_a c \<noteq> None \<and> sc_b c \<noteq> None"

lemma cmp_tests_both:
  assumes "both_sides (fst p)"
  shows "both_sides (fst (cmp_unfold u p))" "both_sides (fst (cmp_swap p))" "both_sides (fst (cmp_add p))" "both_sides (fst (cmp_neg p))"
  using assms
  by (auto simp: both_sides_def cmp_unfold_def cmp_swap_def cmp_add_def cmp_neg_def simp del: canonize.simps
      split: prod.splits secmp.splits option.splits symb.splits)

lemma cmp_round_both: "both_sides c \<Longrightarrow> both_sides (fst (cmp_round c))"
  unfolding cmp_round_def by (intro cmp_tests_both) simp

lemma secmp_canonize_both:
  assumes "secmp_att c" "cmp_plain c" "sc_a c \<noteq> None" "sc_b c \<noteq> None"
  shows "\<exists>c'. secmp_canonize c = Some c' \<and> cmp_round c' = (c', False) \<and> same_equal R M c c' \<and> sc_a c' \<noteq> None \<and> sc_b c' \<noteq> None"
proof -
  obtain c' where c': "secmp_canonize c = Some c'" "cmp_round c' = (c', False)" "same_equal R M c c'"
    using secmp_canonize_equal [OF assms(1,2), of R M] by blast
  let ?c = "SECmp (sc_op c) (map_option canonize (sc_a c)) (map_option canonize (sc_b c))"
  have ok: "cmp_ok ?c" using assms(1) canonize_cform by (auto simp: cmp_ok_def secmp_att_def)
  have l: "cmp_loop ?c = Some c'" using c'(1) assms(2) by (auto simp: secmp_canonize_def cmp_plain_def Let_def)
  have "both_sides ?c" using assms(3,4) by (simp add: both_sides_def)
  then have "both_sides c'" using cmp_loop_ends [OF ok, of both_sides] cmp_round_both l by auto
  then show ?thesis using c' by (auto simp: both_sides_def)
qed

text \<open>Orders do not: \<open>r + 1 < 0\<close> holds of the greatest integer, \<open>r < -1\<close> does not.\<close>

definition ex_lt :: secmp where
  "ex_lt = SECmp SE_LT (Some (SEAdd True (SEReg (clp_const 0)) (SEConst (clp_const 1)))) (Some (SEConst (clp_const 0)))"

lemma canonize_order_wraps:
  "secmp_canonize ex_lt = Some (SECmp SE_LT (Some (SEReg (clp_const 0))) (Some (SEConst (clp_const (-1)))))"
  "sint (symb_word (\<lambda>_. MAXn) M (SEAdd True (SEReg (clp_const 0)) (SEConst (clp_const 1)))) < sint (0 :: 32 word)"
  "\<not> sint (symb_word (\<lambda>_. MAXn) M (SEReg (clp_const 0))) < sint (- 1 :: 32 word)"
proof -
  have r: "cmp_round ex_lt = (SECmp SE_LT (Some (SEReg (clp_const 0))) (Some (SEConst (clp_const (-1)))), True)" by code_simp
  have "cmp_round (SECmp SE_LT (Some (SEReg (clp_const 0))) (Some (SEConst (clp_const (-1))))) =
      (SECmp SE_LT (Some (SEReg (clp_const 0))) (Some (SEConst (clp_const (-1)))), False)" by code_simp
  then have "cmp_loop ex_lt = Some (SECmp SE_LT (Some (SEReg (clp_const 0))) (Some (SEConst (clp_const (-1)))))"
    using r by (simp add: cmp_loop.simps)
  moreover have "SECmp (sc_op ex_lt) (map_option canonize (sc_a ex_lt)) (map_option canonize (sc_b ex_lt)) = ex_lt" by code_simp
  ultimately show "secmp_canonize ex_lt = Some (SECmp SE_LT (Some (SEReg (clp_const 0))) (Some (SEConst (clp_const (-1)))))"
    by (simp add: secmp_canonize_def ex_lt_def Let_def)
qed (simp_all add: MAXn_def)

subsection \<open>Negation\<close>

definition se_truth :: "se_op \<Rightarrow> 32 word \<Rightarrow> 32 word \<Rightarrow> bool" where
  "se_truth op x y = (case op of SE_LE \<Rightarrow> sint x \<le> sint y | SE_LT \<Rightarrow> sint x < sint y | SE_GE \<Rightarrow> sint x \<ge> sint y | SE_GT \<Rightarrow> sint x > sint y
     | SE_EQ \<Rightarrow> x = y | SE_NE \<Rightarrow> x \<noteq> y | SE_ULE \<Rightarrow> x \<le> y | SE_ULT \<Rightarrow> x < y | SE_UGE \<Rightarrow> x \<ge> y | SE_UGT \<Rightarrow> x > y | _ \<Rightarrow> True)"

lemma se_truth_not: "op \<in> {SE_LE, SE_LT, SE_GE, SE_GT, SE_EQ, SE_NE, SE_ULE, SE_ULT, SE_UGE, SE_UGT} \<Longrightarrow> se_truth (se_not op) x y \<longleftrightarrow> \<not> se_truth op x y"
  by (auto simp: se_truth_def)

lemma se_truth_reverse: "se_truth (se_reverse op) y x = se_truth op x y"
  by (cases op) (auto simp: se_truth_def)

lemma logicalNot_negates:
  assumes "sc_a c = Some a" "sc_b c = Some b" "sc_op c \<in> {SE_LE, SE_LT, SE_GE, SE_GT, SE_EQ, SE_NE, SE_ULE, SE_ULT, SE_UGE, SE_UGT}"
  shows "\<exists>n a' b'. logicalNot c = Inr n \<and> sc_a n = Some a' \<and> sc_b n = Some b' \<and>
    (se_truth (sc_op n) (symb_word R M a') (symb_word R M b') \<longleftrightarrow> \<not> se_truth (sc_op c) (symb_word R M a) (symb_word R M b))"
  using assms se_truth_not [OF assms(3)] by (auto simp: logicalNot_def)

text \<open>A separator of alternatives has no operands: its negation goes through a null pointer.\<close>

lemma logicalNot_or: "logicalNot (SECmp SE_OR None None) = Inl Undefined"
  by (simp add: logicalNot_def)

subsection \<open>Filtering a value\<close>

definition applyFilter :: "fpu \<Rightarrow> clp \<Rightarrow> se_op \<Rightarrow> clp \<Rightarrow> clp res" where
  "applyFilter fp v op f = (case op of
       SE_LT \<Rightarrow> if swrap f then Inr v else clp_le v (clp_stop f - 1)
     | SE_LE \<Rightarrow> if swrap f then Inr v else clp_le v (clp_stop f)
     | SE_GE \<Rightarrow> if swrap f then Inr v else clp_ge v (clp_start f)
     | SE_GT \<Rightarrow> if swrap f then Inr v else clp_ge v (clp_start f + 1)
     | SE_ULE \<Rightarrow> if uwrap f then Inr v else clp_leu v (clp_stop f)
     | SE_ULT \<Rightarrow> if uwrap f then Inr v else clp_leu v (clp_stop f - 1)
     | SE_UGE \<Rightarrow> if uwrap f then Inr v else clp_geu v (clp_start f)
     | SE_UGT \<Rightarrow> if uwrap f then Inr v else clp_geu v (clp_start f + 1)
     | SE_EQ \<Rightarrow> clp_inter fp v f
     | _ \<Rightarrow> Inr v)"

lemma flat_le_stop:
  assumes "c_kind f = K_VAL" "clp_flat f" "y \<in> clp_gamma f"
  shows "sint y \<le> sint (clp_stop f)"
proof -
  obtain i where i: "i \<le> unat (c_mtimes f)" "sint y = sint (clp_start f) + int i * \<bar>sint (c_delta f)\<bar>"
    using flat_member [OF assms] by blast
  have "int i * \<bar>sint (c_delta f)\<bar> \<le> \<bar>sint (c_delta f)\<bar> * uint (c_mtimes f)"
    using i(1) by (metis abs_ge_zero mult.commute mult_right_mono of_nat_le_iff uint_nat)
  then show ?thesis using i(2) flat_stop [OF assms(2)] by simp
qed

lemma sint_pred: "sint (x :: 32 word) < sint (y :: 32 word) \<Longrightarrow> sint x \<le> sint (y - 1)"
proof -
  assume x: "sint x < sint y"
  have "y - 1 = word_of_int (sint y - 1)" by simp
  then have "sint (y - 1) = sint y - 1" using x sint_range32 [of x] sint_range32 [of y]
    by (simp only:) (rule sint_of_int32, auto)
  then show ?thesis using x by simp
qed

text \<open>
  A filter by an upper bound keeps what satisfies the comparison with some member of the
  bound, when the bound and the value stay in the signed range.
\<close>

lemma applyFilter_upper_sound:
  assumes "c_kind v = K_VAL" "clp_flat v" "x \<in> clp_gamma v" "c_kind f = K_VAL" "clp_flat f" "y \<in> clp_gamma f"
    and "op \<in> {SE_LE, SE_LT}" "se_truth op x y"
    and "\<And>t. t \<in> {clp_stop f, clp_stop f - 1} \<Longrightarrow> \<bar>sint t - sint (c_lower v)\<bar> + \<bar>sint (c_delta v)\<bar> < 2 ^ 31"
  shows "\<exists>w. applyFilter fp v op f = Inr w \<and> x \<in> clp_gamma w"
proof -
  note y = flat_le_stop [OF assms(4-6)]
  show ?thesis
  proof (cases "op = SE_LE")
    case True
    then have "sint x \<le> sint (clp_stop f)" using assms(8) y by (simp add: se_truth_def)
    then show ?thesis using clp_le_sound [OF assms(1-3) _ assms(9)] assms(3) True by (simp add: applyFilter_def)
  next
    case False
    then have op: "op = SE_LT" using assms(7) by simp
    then have "sint x \<le> sint (clp_stop f - 1)" using assms(8) y sint_pred [of x "clp_stop f"] by (simp add: se_truth_def)
    then show ?thesis using clp_le_sound [OF assms(1-3) _ assms(9)] assms(3) op by (simp add: applyFilter_def)
  qed
qed
lemma flat_ge_start:
  assumes "c_kind f = K_VAL" "clp_flat f" "y \<in> clp_gamma f"
  shows "sint (clp_start f) \<le> sint y"
  using flat_member [OF assms] by (metis abs_ge_zero le_add_same_cancel1 mult_nonneg_nonneg of_nat_0_le_iff)

lemma sint_succ: "sint (y :: 32 word) < sint (x :: 32 word) \<Longrightarrow> sint (y + 1) \<le> sint x"
proof -
  assume x: "sint y < sint x"
  have "y + 1 = word_of_int (sint y + 1)" by simp
  then have "sint (y + 1) = sint y + 1" using x sint_range32 [of x] sint_range32 [of y]
    by (simp only:) (rule sint_of_int32, auto)
  then show ?thesis using x by simp
qed

lemma word_pred_le: "(x :: 32 word) < y \<Longrightarrow> x \<le> y - 1"
  by (cases "y = 0") (simp_all add: word_le_nat_alt word_less_nat_alt unat_minus_one)

lemma applyFilter_lower_sound:
  assumes "c_kind v = K_VAL" "clp_flat v" "0 < sint (c_delta v)" "x \<in> clp_gamma v" "c_kind f = K_VAL" "clp_flat f" "y \<in> clp_gamma f"
    and "op \<in> {SE_GE, SE_GT}" "se_truth op x y"
    and "\<And>t. t \<in> {clp_start f, clp_start f + 1} \<Longrightarrow> \<bar>sint t - sint (c_lower v)\<bar> + sint (c_delta v) < 2 ^ 31 \<and>
      (sint (c_lower v) < sint t \<or> pow2_step (c_delta v))"
  shows "\<exists>w. applyFilter fp v op f = Inr w \<and> x \<in> clp_gamma w"
proof -
  note y = flat_ge_start [OF assms(5-7)]
  show ?thesis
  proof (cases "op = SE_GE")
    case True
    then have "sint (clp_start f) \<le> sint x" using assms(9) y by (simp add: se_truth_def)
    then show ?thesis using clp_ge_up_sound [OF assms(1-4)] assms(4,10) True by (simp add: applyFilter_def)
  next
    case False
    then have op: "op = SE_GT" using assms(8) by simp
    then have "sint (clp_start f + 1) \<le> sint x" using assms(9) y sint_succ [of "clp_start f" x] by (simp add: se_truth_def)
    then show ?thesis using clp_ge_up_sound [OF assms(1-4)] assms(4,10) op by (simp add: applyFilter_def)
  qed
qed

text \<open>A constant is kept by every comparison that it satisfies.\<close>

lemma applyFilter_const_sound:
  assumes v: "c_kind v = K_VAL" "isConst v" "x \<in> clp_gamma v" and f: "c_kind f = K_VAL" "y \<in> clp_gamma f" and t: "se_truth op x y"
    and ok: "op \<in> {SE_LE, SE_LT, SE_GE, SE_GT} \<and> clp_flat f \<or> op \<in> {SE_ULE, SE_ULT, SE_UGE, SE_UGT} \<and> isConst f"
  shows "\<exists>w. applyFilter fp v op f = Inr w \<and> x \<in> clp_gamma w"
proof -
  have x: "x = c_lower v" using clp_gamma_isConst [OF v(1,2)] v(3) by simp
  from ok have "applyFilter fp v op f = Inr v"
  proof (elim disjE conjE)
    assume op: "op \<in> {SE_LE, SE_LT, SE_GE, SE_GT}" and fl: "clp_flat f"
    have y: "sint (clp_start f) \<le> sint y" "sint y \<le> sint (clp_stop f)"
      using flat_ge_start [OF f(1) fl f(2)] flat_le_stop [OF f(1) fl f(2)] by simp_all
    have p: "sint x < sint y \<Longrightarrow> sint x \<le> sint (clp_stop f - 1)" "sint y < sint x \<Longrightarrow> sint (clp_start f + 1) \<le> sint x"
      using y sint_pred [of x "clp_stop f"] sint_succ [of "clp_start f" x] by simp_all
    show ?thesis using op t y p v(2) unfolding x
      by (auto simp: applyFilter_def se_truth_def clp_le_def clp_ge_def)
  next
    assume op: "op \<in> {SE_ULE, SE_ULT, SE_UGE, SE_UGT}" and c: "isConst f"
    have y: "clp_start f = y" "clp_stop f = y" using clp_gamma_isConst [OF f(1) c] f(2) c
      by (auto simp: clp_start_def clp_stop_def isConst_def)
    show ?thesis using op t v(2) word_pred_le [of x y] inc_le [of y x] unfolding x
      by (auto simp: applyFilter_def se_truth_def clp_leu_def clp_geu_def y)
  qed
  then show ?thesis using v(3) by blast
qed

text \<open>Where the filters are known to keep what satisfies them: the value, the operator and the value compared with.\<close>

definition filter_fits :: "clp \<Rightarrow> se_op \<Rightarrow> clp \<Rightarrow> bool" where
  "filter_fits v op f \<longleftrightarrow> (case op of
       SE_NE \<Rightarrow> True
     | SE_EQ \<Rightarrow> v = clp_all \<or> f = clp_all \<or> c_kind v = K_VAL \<and> c_kind f = K_VAL \<and> isConst v \<and> isConst f
     | _ \<Rightarrow> v = clp_all \<or> c_kind v = K_VAL \<and> c_kind f = K_VAL \<and>
         (if op \<in> {SE_LE, SE_LT} then clp_flat f \<and> (isConst v \<or> clp_flat v \<and>
            (\<forall>t \<in> {clp_stop f, clp_stop f - 1}. \<bar>sint t - sint (c_lower v)\<bar> + \<bar>sint (c_delta v)\<bar> < 2 ^ 31))
          else if op \<in> {SE_GE, SE_GT} then clp_flat f \<and> (isConst v \<or> clp_flat v \<and> 0 < sint (c_delta v) \<and>
            (\<forall>t \<in> {clp_start f, clp_start f + 1}. \<bar>sint t - sint (c_lower v)\<bar> + sint (c_delta v) < 2 ^ 31 \<and>
              (sint (c_lower v) < sint t \<or> pow2_step (c_delta v))))
          else isConst v \<and> isConst f))"

definition comparisons :: "se_op set" where
  "comparisons = {SE_LE, SE_LT, SE_GE, SE_GT, SE_EQ, SE_NE, SE_ULE, SE_ULT, SE_UGE, SE_UGT}"

lemma inter_eq_sound:
  assumes "v = clp_all \<or> f = clp_all \<or> c_kind v = K_VAL \<and> c_kind f = K_VAL \<and> isConst v \<and> isConst f"
    and "x \<in> clp_gamma v" "x \<in> clp_gamma f"
  shows "\<exists>w. clp_inter fp v f = Inr w \<and> x \<in> clp_gamma w"
proof -
  from assms(1) show ?thesis
  proof (elim disjE conjE)
    assume "v = clp_all"
    then show ?thesis using assms(3) by (simp add: clp_inter_def clp_inter_special_def Let_def isTop_def)
  next
    assume "f = clp_all"
    then show ?thesis using assms(2,3) by (simp add: clp_inter_def clp_inter_special_def Let_def isTop_def)
  next
    assume k: "c_kind v = K_VAL" "c_kind f = K_VAL" "isConst v" "isConst f"
    then have "c_lower v = x" "c_lower f = x" using clp_gamma_isConst assms(2,3) by auto
    then show ?thesis using k assms(2,3) by (simp add: clp_inter_def clp_inter_special_def Let_def isTop_def clp_gamma_val)
  qed
qed

lemma applyFilter_sound:
  assumes "filter_fits v op f" "op \<in> comparisons" "x \<in> clp_gamma v" "y \<in> clp_gamma f" "se_truth op x y"
  shows "\<exists>w. applyFilter fp v op f = Inr w \<and> x \<in> clp_gamma w"
proof (cases "op \<in> {SE_EQ, SE_NE} \<or> v = clp_all")
  case True
  have "clp_le clp_all k = Inr clp_all" "clp_ge clp_all k = Inr clp_all" "clp_leu clp_all k = Inr clp_all" "clp_geu clp_all k = Inr clp_all" for k
    by (simp_all add: clp_le_def clp_ge_def clp_leu_def clp_geu_def)
  moreover have "\<exists>w. clp_inter fp v f = Inr w \<and> x \<in> clp_gamma w" if "op = SE_EQ"
    using inter_eq_sound [of v f x fp] assms that by (simp add: filter_fits_def se_truth_def)
  ultimately show ?thesis using True assms(2,3) by (auto simp: applyFilter_def comparisons_def)
next
  case False
  then have k: "c_kind v = K_VAL" "c_kind f = K_VAL" using assms(1,2) by (auto simp: filter_fits_def comparisons_def)
  consider "op \<in> {SE_LE, SE_LT}" | "op \<in> {SE_GE, SE_GT}" | "op \<in> {SE_ULE, SE_ULT, SE_UGE, SE_UGT}"
    using False assms(2) by (auto simp: comparisons_def)
  then show ?thesis
  proof cases
    case 1
    then have f: "clp_flat f" "isConst v \<or> clp_flat v \<and>
        (\<forall>t \<in> {clp_stop f, clp_stop f - 1}. \<bar>sint t - sint (c_lower v)\<bar> + \<bar>sint (c_delta v)\<bar> < 2 ^ 31)"
      using assms(1) False by (auto simp: filter_fits_def)
    then show ?thesis
      using applyFilter_const_sound [OF k(1) _ assms(3) k(2) assms(4,5)] applyFilter_upper_sound [OF k(1) _ assms(3) k(2) _ assms(4) 1 assms(5)] 1
      by blast
  next
    case 2
    then have f: "clp_flat f" "isConst v \<or> clp_flat v \<and> 0 < sint (c_delta v) \<and>
        (\<forall>t \<in> {clp_start f, clp_start f + 1}. \<bar>sint t - sint (c_lower v)\<bar> + sint (c_delta v) < 2 ^ 31 \<and>
          (sint (c_lower v) < sint t \<or> pow2_step (c_delta v)))"
      using assms(1) False by (auto simp: filter_fits_def)
    then show ?thesis
      using applyFilter_const_sound [OF k(1) _ assms(3) k(2) assms(4,5)] applyFilter_lower_sound [OF k(1) _ _ assms(3) k(2) _ assms(4) 2 assms(5)] 2
      by blast
  next
    case 3
    then have "isConst v" "isConst f" using assms(1) False by (auto simp: filter_fits_def)
    then show ?thesis using applyFilter_const_sound [OF k(1) _ assms(3) k(2) assms(4,5)] 3 by blast
  qed
qed

end
