(* ===== verification/Clp_Filter.thy ===== *)
theory Clp_Filter
  imports Clp_Problem Clp_Symbolic Otawa_Cfg
begin

text \<open>
  The rest of the data-value analysis: the packs of states inside a basic block
  (\<^verbatim>\<open>ClpStatePack\<close>), the filters that a conditional block builds (\<^verbatim>\<open>se::FilterBuilder\<close>) and the
  edges apply (\<^verbatim>\<open>ClpProblem::updateEdge\<close>), the initial state, the traversal of a block by
  \<^verbatim>\<open>Manager\<close> and the marking of dead edges. Sources: otawa/src/prog/clp_analysis.cpp,
  otawa/src/prog/clp_symbolic_expr.cpp, otawa/include/otawa/data/clp/ClpPack.h.
\<close>

subsection \<open>Packs of states\<close>

record inst_pack =
  ip_addr :: "32 word"
  ip_states :: "clp_state list"

record state_pack =
  sp_in :: clp_state
  sp_packs :: "inst_pack list"

definition outputState :: "inst_pack \<Rightarrow> clp_state res" where
  "outputState k = asserting (length (ip_states k) > 0) (Inr (ip_states k ! (length (ip_states k) - 1)))"

definition pack_append :: "clp_state \<Rightarrow> inst_pack \<Rightarrow> inst_pack" where
  "pack_append s k = k\<lparr>ip_states := ip_states k @ [s]\<rparr>"

definition pack_at :: "inst_pack \<Rightarrow> nat \<Rightarrow> clp_state res" where
  "pack_at k i = asserting (i < length (ip_states k)) (Inr (ip_states k ! i))"

fun packs_after :: "inst_pack list \<Rightarrow> 32 word \<Rightarrow> clp_state res" where
  "packs_after [] a = Inr st_EMPTY"
| "packs_after (k # ks) a = (if ip_addr k = a then outputState k else packs_after ks a)"

definition state_after :: "state_pack \<Rightarrow> 32 word \<Rightarrow> clp_state res" where
  "state_after sp a = packs_after (sp_packs sp) a"

fun packs_after_sem :: "inst_pack list \<Rightarrow> 32 word \<Rightarrow> nat \<Rightarrow> clp_state res" where
  "packs_after_sem [] a i = Inr st_EMPTY"
| "packs_after_sem (k # ks) a i = (if ip_addr k = a then pack_at k i else packs_after_sem ks a i)"

definition state_after_sem :: "state_pack \<Rightarrow> 32 word \<Rightarrow> nat \<Rightarrow> clp_state res" where
  "state_after_sem sp a i = packs_after_sem (sp_packs sp) a i"

fun packs_before :: "inst_pack list \<Rightarrow> 32 word \<Rightarrow> clp_state \<Rightarrow> clp_state res" where
  "packs_before [] a s = Inr s"
| "packs_before (k # ks) a s = (if ip_addr k = a then Inr s else rbind (outputState k) (packs_before ks a))"

definition state_before :: "state_pack \<Rightarrow> 32 word \<Rightarrow> clp_state res" where
  "state_before sp a = packs_before (sp_packs sp) a (sp_in sp)"

fun packs_before_sem :: "inst_pack list \<Rightarrow> 32 word \<Rightarrow> nat \<Rightarrow> clp_state \<Rightarrow> clp_state res" where
  "packs_before_sem [] a i s = Inr s"
| "packs_before_sem (k # ks) a i s =
     (if ip_addr k = a then if i = 0 then Inr s else pack_at k (i - 1)
      else if ip_states k \<noteq> [] then rbind (outputState k) (packs_before_sem ks a i)
      else packs_before_sem ks a i s)"

definition state_before_sem :: "state_pack \<Rightarrow> 32 word \<Rightarrow> nat \<Rightarrow> clp_state res" where
  "state_before_sem sp a i = packs_before_sem (sp_packs sp) a i (sp_in sp)"

text \<open>
  With a pack, the interpretation of a block also keeps the state after each semantic
  instruction, over all the paths of a machine instruction.
\<close>

record minst =
  mi_addr :: "32 word"
  mi_sem :: "sem_inst list"
  mi_control :: bool
  mi_cond :: bool

function pack_path :: "clp_env \<Rightarrow> sem_inst list \<Rightarrow> clp_state \<Rightarrow> clp_prob \<Rightarrow> inst_pack \<Rightarrow> (clp_state \<times> clp_prob \<times> inst_pack) res" where
  "pack_path env b s p k =
     (if pr_pc p < int (length b)
      then rbind (clp_step env b s p) (\<lambda>sp. pack_path env b (fst sp) (count_sem (snd sp)) (pack_append (fst sp) k))
      else Inr (s, p, k))"
  by pat_completeness auto

termination
  by (relation "measure (\<lambda>(env, b, s, p, k). nat (int (length b) - pr_pc p))")
    (auto dest!: clp_step_pc simp: prod_eq_iff)

declare pack_path.simps [simp del]

partial_function (option) pack_paths ::
  "clp_env \<Rightarrow> sem_inst list \<Rightarrow> clp_state \<Rightarrow> clp_prob \<Rightarrow> inst_pack \<Rightarrow> (clp_state \<times> clp_prob \<times> inst_pack) res option" where
  "pack_paths env b out p k =
     (case pr_todo p of
        [] \<Rightarrow> Some (Inr (out, p, k))
      | (pc, s) # todo \<Rightarrow>
          (case pack_path env b s (p\<lparr>pr_pc := pc, pr_todo := todo\<rparr>) k of
             Inl e \<Rightarrow> Some (Inl e)
           | Inr (s', p', k') \<Rightarrow>
               (case st_join out s' of
                  Inl e \<Rightarrow> Some (Inl e)
                | Inr out' \<Rightarrow> pack_paths env b out' p' k')))"

declare pack_paths.simps [code]

definition pack_inst :: "clp_env \<Rightarrow> minst \<Rightarrow> clp_state \<Rightarrow> clp_prob \<Rightarrow> (clp_state \<times> clp_prob \<times> inst_pack) res option" where
  "pack_inst env i out p =
     (case pack_path env (mi_sem i) out (prepare (count_inst p)) \<lparr>ip_addr = mi_addr i, ip_states = []\<rparr> of
        Inl e \<Rightarrow> Some (Inl e)
      | Inr (out', p', k) \<Rightarrow> pack_paths env (mi_sem i) out' p' k)"

fun pack_insts :: "clp_env \<Rightarrow> minst list \<Rightarrow> clp_state \<Rightarrow> clp_prob \<Rightarrow> inst_pack list \<Rightarrow> (clp_state \<times> clp_prob \<times> inst_pack list) res option" where
  "pack_insts env [] out p ks = Some (Inr (out, p, ks))"
| "pack_insts env (i # is) out p ks =
     (case pack_inst env i out p of
        None \<Rightarrow> None
      | Some (Inl e) \<Rightarrow> Some (Inl e)
      | Some (Inr (out', p', k)) \<Rightarrow> pack_insts env is out' p' (ks @ [k]))"

definition fillPack :: "clp_env \<Rightarrow> minst list \<Rightarrow> clp_state \<Rightarrow> clp_prob \<Rightarrow> (state_pack \<times> clp_prob) res option" where
  "fillPack env bb st_in p =
     (case pack_insts env bb (st_copy st_FULL st_in) (p\<lparr>pr_has_if := False\<rparr>) [] of
        None \<Rightarrow> None
      | Some (Inl e) \<Rightarrow> Some (Inl e)
      | Some (Inr (out, p', ks)) \<Rightarrow> Some (Inr (\<lparr>sp_in = st_in, sp_packs = ks\<rparr>, p')))"

subsection \<open>Keeping the states does not change the interpretation\<close>

definition unpack :: "(clp_state \<times> clp_prob \<times> 'k) res \<Rightarrow> (clp_state \<times> clp_prob) res" where
  "unpack r = (case r of Inl e \<Rightarrow> Inl e | Inr (s, p, k) \<Rightarrow> Inr (s, p))"

lemma unpack_simps [simp]: "unpack (Inl e) = Inl e" "unpack (Inr (s, p, k)) = Inr (s, p)"
  by (simp_all add: unpack_def)

lemma unpack_rbind: "unpack (rbind r f) = rbind r (\<lambda>x. unpack (f x))"
  by (cases r) auto

lemma pack_path_erase: "unpack (pack_path env b s p k) = clp_path env b s p"
proof (induction env b s p k rule: pack_path.induct)
  case (1 env b s p k)
  show ?case
  proof (cases "pr_pc p < int (length b)")
    case True
    show ?thesis
    proof (cases "clp_step env b s p")
      case (Inr sp)
      then show ?thesis using True 1 [OF True Inr] by (subst pack_path.simps, subst clp_path.simps) (simp add: unpack_rbind)
    qed (use True in \<open>subst pack_path.simps, subst clp_path.simps, simp\<close>)
  qed (subst pack_path.simps, subst clp_path.simps, simp)
qed

lemma pack_paths_erase:
  assumes "forward_block b"
  shows "map_option unpack (pack_paths env b out p k) = clp_paths env b out p"
proof (induction "todo_work b (pr_todo p)" arbitrary: out p k rule: less_induct)
  case less
  show ?case
  proof (cases "pr_todo p")
    case Nil
    then show ?thesis by (subst pack_paths.simps, subst clp_paths.simps) simp
  next
    case (Cons e todo)
    obtain pc s where e: "e = (pc, s)" by (cases e)
    let ?p = "p\<lparr>pr_pc := pc, pr_todo := todo\<rparr>"
    have er: "unpack (pack_path env b s ?p k) = clp_path env b s ?p" by (rule pack_path_erase)
    show ?thesis
    proof (cases "pack_path env b s ?p k")
      case (Inl f)
      then have "clp_path env b s ?p = Inl f" using er by simp
      then show ?thesis using Inl Cons e by (subst pack_paths.simps, subst clp_paths.simps) simp
    next
      case (Inr spk)
      obtain s' p' k' where spk: "spk = (s', p', k')" by (cases spk)
      then have path: "clp_path env b s ?p = Inr (s', p')" using er Inr by simp
      have "todo_work b (pr_todo p') < todo_work b (pr_todo p)"
        using clp_path_work [OF path assms] Cons e by (simp add: todo_work_def)
      then have ih: "map_option unpack (pack_paths env b out' p' k') = clp_paths env b out' p'" for out' by (rule less)
      show ?thesis using Cons e Inr spk path ih
        by (subst pack_paths.simps, subst clp_paths.simps) (simp split: sum.splits)
    qed
  qed
qed

lemma pack_inst_erase: "forward_block (mi_sem i) \<Longrightarrow> map_option unpack (pack_inst env i out p) = clp_inst env (mi_sem i) out p"
  using pack_path_erase [of env "mi_sem i" out "prepare (count_inst p)" "\<lparr>ip_addr = mi_addr i, ip_states = []\<rparr>"]
    pack_paths_erase [of "mi_sem i" env]
  by (auto simp: pack_inst_def clp_inst_def unpack_def split: sum.splits prod.splits)

lemma pack_insts_erase:
  "(\<And>i. i \<in> set is \<Longrightarrow> forward_block (mi_sem i)) \<Longrightarrow>
     map_option unpack (pack_insts env is out p ks) = clp_insts env (map mi_sem is) out p"
proof (induction "is" arbitrary: out p ks)
  case Nil
  then show ?case by simp
next
  case (Cons i "is")
  have i: "map_option unpack (pack_inst env i out p) = clp_inst env (mi_sem i) out p" using pack_inst_erase Cons.prems by simp
  have ih: "map_option unpack (pack_insts env is out' p' ks') = clp_insts env (map mi_sem is) out' p'" for out' p' ks'
    using Cons by simp
  obtain r where r: "pack_inst env i out p = Some r"
    using i clp_inst_ends [of "mi_sem i" env out p] Cons.prems by (cases "pack_inst env i out p") auto
  show ?case using i [symmetric] r ih by (cases r) (auto split: prod.splits)
qed

text \<open>Each machine instruction of the block has its pack, in order.\<close>

lemma pack_path_addr: "pack_path env b s p k = Inr (s', p', k') \<Longrightarrow> ip_addr k' = ip_addr k"
proof (induction env b s p k rule: pack_path.induct)
  case (1 env b s p k)
  show ?case
  proof (cases "pr_pc p < int (length b)")
    case True
    then obtain sp where sp: "clp_step env b s p = Inr sp"
        "pack_path env b (fst sp) (count_sem (snd sp)) (pack_append (fst sp) k) = Inr (s', p', k')"
      using 1(2) by (subst (asm) pack_path.simps) (auto simp: res_simps)
    then show ?thesis using 1(1) [OF True sp] by (simp add: pack_append_def)
  qed (use 1(2) in \<open>subst (asm) pack_path.simps, simp\<close>)
qed

lemma pack_paths_addr:
  assumes "forward_block b" "pack_paths env b out p k = Some (Inr (s', p', k'))"
  shows "ip_addr k' = ip_addr k"
  using assms(2)
proof (induction "todo_work b (pr_todo p)" arbitrary: out p k rule: less_induct)
  case less
  show ?case
  proof (cases "pr_todo p")
    case Nil
    then show ?thesis using less.prems by (subst (asm) pack_paths.simps) simp
  next
    case (Cons e todo)
    obtain pc s where e: "e = (pc, s)" by (cases e)
    let ?p = "p\<lparr>pr_pc := pc, pr_todo := todo\<rparr>"
    obtain s1 p1 k1 out1 where st: "pack_path env b s ?p k = Inr (s1, p1, k1)" "st_join out s1 = Inr out1"
        "pack_paths env b out1 p1 k1 = Some (Inr (s', p', k'))"
      using less.prems Cons e by (subst (asm) pack_paths.simps) (auto split: sum.splits prod.splits)
    have "clp_path env b s ?p = Inr (s1, p1)" using pack_path_erase [of env b s ?p k] st(1) by simp
    from clp_path_work [OF this assms(1)] have "todo_work b (pr_todo p1) < todo_work b (pr_todo p)" using Cons e by (simp add: todo_work_def)
    from less.hyps [OF this st(3)] show ?thesis using pack_path_addr [OF st(1)] by simp
  qed
qed

lemma pack_insts_addrs:
  "(\<And>i. i \<in> set is \<Longrightarrow> forward_block (mi_sem i)) \<Longrightarrow> pack_insts env is out p ks = Some (Inr (s', p', ks')) \<Longrightarrow>
     map ip_addr ks' = map ip_addr ks @ map mi_addr is"
proof (induction "is" arbitrary: out p ks)
  case (Cons i "is")
  obtain out1 p1 k where k: "pack_inst env i out p = Some (Inr (out1, p1, k))" "pack_insts env is out1 p1 (ks @ [k]) = Some (Inr (s', p', ks'))"
    using Cons.prems(2) by (auto split: option.splits sum.splits prod.splits)
  have f: "forward_block (mi_sem i)" using Cons.prems(1) by simp
  have "ip_addr k = mi_addr i"
    using k(1) pack_paths_addr [OF f] pack_path_addr by (fastforce simp: pack_inst_def split: sum.splits prod.splits)
  then show ?case using Cons.IH [OF _ k(2)] Cons.prems(1) by simp
qed simp

subsection \<open>Building filters\<close>

text \<open>Results of code that may not return: \<open>None\<close> is a loop without end.\<close>

definition obind :: "'a res option \<Rightarrow> ('a \<Rightarrow> 'b res option) \<Rightarrow> 'b res option" where
  "obind r f = (case r of None \<Rightarrow> None | Some (Inl e) \<Rightarrow> Some (Inl e) | Some (Inr x) \<Rightarrow> f x)"

fun ofold :: "('a \<Rightarrow> 's \<Rightarrow> 's res option) \<Rightarrow> 'a list \<Rightarrow> 's \<Rightarrow> 's res option" where
  "ofold f [] s = Some (Inr s)"
| "ofold f (x # xs) s = obind (f x s) (ofold f xs)"

definition after_CMPU :: "se_op \<Rightarrow> bool" where
  "after_CMPU op \<longleftrightarrow> op \<in> {SE_LE, SE_LT, SE_GE, SE_GT, SE_EQ, SE_NE, SE_ULE, SE_ULT, SE_UGE, SE_UGT, SE_OR}"

definition reg_of :: "clp \<Rightarrow> clp" where
  "reg_of r = clp_set K_REG (c_lower r) 0 0"

definition subst_reg :: "clp_state \<Rightarrow> clp \<Rightarrow> secmp \<Rightarrow> secmp res" where
  "subst_reg s r se = rbind (st_get (reg_of r) s) (\<lambda>v. Inr (secmp_replace (SEReg r) (SEConst v) se))"

definition subst_addr :: "clp_state \<Rightarrow> clp \<Rightarrow> secmp \<Rightarrow> secmp res" where
  "subst_addr s a se = rbind (st_get a s) (\<lambda>v. Inr (secmp_replace (SEAddr a) (SEConst v) se))"

definition is_filter :: "(symb \<Rightarrow> bool) \<Rightarrow> secmp \<Rightarrow> bool" where
  "is_filter P se \<longleftrightarrow> after_CMPU (sc_op se) \<and> (case (sc_a se, sc_b se) of (Some a, Some b) \<Rightarrow> P a \<and> is_seconst b | _ \<Rightarrow> False)"

definition getFilterForReg :: "secmp \<Rightarrow> clp \<Rightarrow> state_pack \<Rightarrow> 32 word \<Rightarrow> nat \<Rightarrow> clp list \<Rightarrow> clp list \<Rightarrow> secmp option res option" where
  "getFilterForReg se reg pack a i regs addrs =
     obind (Some (rbind (state_before_sem pack a i) (\<lambda>s. asserting (isConst reg)
       (rbind (rfold (\<lambda>r se. asserting (isConst r) (if c_lower r \<noteq> c_lower reg then subst_reg s r se else Inr se)) regs se)
         (rfold (\<lambda>ad se. asserting (isConst ad) (subst_addr s ad se)) addrs))))) (\<lambda>se.
     map_option (\<lambda>se. Inr (if is_filter (\<lambda>e. symb_op e = SE_REG) se then Some se else None)) (secmp_canonize se))"

definition getFilterForAddr :: "secmp \<Rightarrow> clp \<Rightarrow> state_pack \<Rightarrow> 32 word \<Rightarrow> nat \<Rightarrow> clp list \<Rightarrow> clp list \<Rightarrow> secmp option res option" where
  "getFilterForAddr se addr pack a i regs addrs =
     obind (Some (rbind (state_before_sem pack a i) (\<lambda>s. asserting (isConst addr)
       (rbind (rfold (\<lambda>r se. asserting (isConst r) (subst_reg s r se)) regs se)
         (rfold (\<lambda>ad se. asserting (isConst ad) (if ad \<noteq> addr then subst_addr s ad se else Inr se)) addrs))))) (\<lambda>se.
     map_option (\<lambda>se. Inr (if is_filter (\<lambda>e. symb_op e = SE_ADDR) se then Some se else None)) (secmp_canonize se))"

record filters =
  reg_filters :: "secmp list"
  addr_filters :: "secmp list"
  known_reg :: "clp list"
  known_addr :: "clp list"

definition if_op :: "int \<Rightarrow> se_op res" where
  "if_op c = (if c = cond_code C_LE then Inr SE_LE else if c = cond_code C_LT then Inr SE_LT else if c = cond_code C_GE then Inr SE_GE
     else if c = cond_code C_GT then Inr SE_GT else if c = cond_code C_EQ then Inr SE_EQ else if c = cond_code C_NE then Inr SE_NE
     else if c = cond_code C_ULE then Inr SE_ULE else if c = cond_code C_ULT then Inr SE_ULT else if c = cond_code C_UGE then Inr SE_UGE
     else if c = cond_code C_UGT then Inr SE_UGT else if c = cond_code C_ANY_COND then Inr SE_NONE else Inl AssertFail)"

definition se_reg :: "int \<Rightarrow> symb" where
  "se_reg r = SEReg (clp_const (word_of_int r))"

text \<open>
  For \<^verbatim>\<open>SETI\<close> the code reads field \<^verbatim>\<open>a\<close> of the arguments, which share their bytes with the
  constant: on a little-endian host, its low half.
\<close>

definition seti_a :: "sem_inst \<Rightarrow> int" where
  "seti_a i = sint (ucast (i_cst i) :: 16 word)"

text \<open>The comparison before an instruction from the comparison after it.\<close>

definition backward :: "state_pack \<Rightarrow> 32 word \<Rightarrow> nat \<Rightarrow> sem_inst \<Rightarrow> secmp option \<Rightarrow> secmp option res" where
  "backward pack a pc i se =
     (let rd = se_reg (i_d i); subst = (\<lambda>n. Inr (map_option (secmp_replace rd n) se));
          forget = (\<lambda>c. if symb_val rd \<in> set (secmp_used used_reg c) then None else Some c)
      in case i_op i of
         S_IF \<Rightarrow> rbind (if_op (i_d i)) (\<lambda>op. Inr (if op \<noteq> SE_NONE then Some (SECmp op (Some (se_reg (i_a i))) None) else se))
       | S_LOAD \<Rightarrow> (case se of None \<Rightarrow> Inr None | Some c \<Rightarrow>
           rbind (state_after_sem pack a pc) (\<lambda>s. rbind (st_get (clp_reg (i_a i)) s) (\<lambda>v.
             if v = clp_all then Inr se
             else if \<not> isConst v then Inr (forget c)
             else subst (SEAddr (clp_const (c_lower v))))))
       | S_CMPU \<Rightarrow> subst (SECmpE True (se_reg (i_a i)) (se_reg (i_b i)))
       | S_CMP \<Rightarrow> subst (SECmpE False (se_reg (i_a i)) (se_reg (i_b i)))
       | S_SETI \<Rightarrow> subst (SEConst (clp_const (word_of_int (seti_a i))))
       | S_ADD \<Rightarrow> subst (SEAdd True (se_reg (i_a i)) (se_reg (i_b i)))
       | S_SUB \<Rightarrow> subst (SEAdd True (se_reg (i_a i)) (SENeg (se_reg (i_b i))))
       | S_SCRATCH \<Rightarrow> Inr (case se of None \<Rightarrow> None | Some c \<Rightarrow> forget c)
       | _ \<Rightarrow> Inr se)"

definition find_reg :: "secmp \<Rightarrow> state_pack \<Rightarrow> 32 word \<Rightarrow> nat \<Rightarrow> clp list \<Rightarrow> clp list \<Rightarrow> clp \<Rightarrow> filters \<Rightarrow> filters res option" where
  "find_reg c pack a pc regs addrs r f =
     (if r \<in> set (known_reg f) then Some (Inr f)
      else obind (getFilterForReg (secmp_copy c) r pack a pc regs addrs) (\<lambda>n. Some (Inr (case n of None \<Rightarrow> f
        | Some n \<Rightarrow> f\<lparr>reg_filters := reg_filters f @ [n], known_reg := known_reg f @ [r]\<rparr>))))"

definition find_addr :: "secmp \<Rightarrow> state_pack \<Rightarrow> 32 word \<Rightarrow> nat \<Rightarrow> clp list \<Rightarrow> clp list \<Rightarrow> clp \<Rightarrow> filters \<Rightarrow> filters res option" where
  "find_addr c pack a pc regs addrs ad f =
     (if ad \<in> set (known_addr f) then Some (Inr f)
      else obind (getFilterForAddr (secmp_copy c) ad pack a pc regs addrs) (\<lambda>n. Some (Inr (case n of None \<Rightarrow> f
        | Some n \<Rightarrow> f\<lparr>addr_filters := addr_filters f @ [n], known_addr := known_addr f @ [ad]\<rparr>))))"

definition find_filters :: "secmp \<Rightarrow> state_pack \<Rightarrow> 32 word \<Rightarrow> nat \<Rightarrow> filters \<Rightarrow> filters res option" where
  "find_filters c pack a pc f =
     (if after_CMPU (sc_op c) \<and> sc_a c \<noteq> None \<and> sc_b c \<noteq> None then
        let regs = secmp_used used_reg c; addrs = secmp_used used_addr c in
        if \<exists>r \<in> set regs. sint (c_lower r) < 0 then Some (Inr f)
        else obind (ofold (find_reg c pack a pc regs addrs) regs f) (ofold (find_addr c pack a pc regs addrs) addrs)
      else Some (Inr f))"

definition makeFilters_step :: "state_pack \<Rightarrow> 32 word \<Rightarrow> sem_inst list \<Rightarrow> nat \<Rightarrow> secmp option \<times> filters \<Rightarrow> (secmp option \<times> filters) res option" where
  "makeFilters_step pack a b pc = (\<lambda>(se, f). obind (Some (backward pack a pc (b ! pc) se)) (\<lambda>se.
     case se of
       None \<Rightarrow> Some (Inr (None, f))
     | Some c \<Rightarrow> obind (map_option Inr (secmp_canonize c)) (\<lambda>c.
         obind (find_filters c pack a pc f) (\<lambda>f. Some (Inr (Some c, f))))))"

definition makeFilters :: "state_pack \<Rightarrow> secmp option \<Rightarrow> 32 word \<Rightarrow> sem_inst list \<Rightarrow> filters \<Rightarrow> (secmp option \<times> filters) res option" where
  "makeFilters pack se a b f = ofold (makeFilters_step pack a b) (rev [0..<length b]) (se, f)"

definition addFilters :: "state_pack \<Rightarrow> secmp option \<Rightarrow> minst list \<Rightarrow> filters \<Rightarrow> filters res option" where
  "addFilters pack se insts f =
     obind (ofold (\<lambda>i (se, f). makeFilters pack se (mi_addr i) (mi_sem i) f) (rev insts) (se, f)) (\<lambda>(se, f). Some (Inr f))"

definition reverseCond :: "int \<Rightarrow> int res" where
  "reverseCond c = (case List.find (\<lambda>d. cond_code d = c)
       [C_NO_COND, C_EQ, C_LT, C_LE, C_GE, C_GT, C_ANY_COND, C_NE, C_ULT, C_ULE, C_UGE, C_UGT] of
     None \<Rightarrow> Inl Undefined
   | Some d \<Rightarrow> Inr (cond_code (case d of C_EQ \<Rightarrow> C_NE | C_LT \<Rightarrow> C_GE | C_LE \<Rightarrow> C_GT | C_GE \<Rightarrow> C_LT | C_GT \<Rightarrow> C_LE | C_NE \<Rightarrow> C_EQ
       | C_ULT \<Rightarrow> C_UGE | C_ULE \<Rightarrow> C_UGT | C_UGE \<Rightarrow> C_ULT | C_UGT \<Rightarrow> C_ULE | d \<Rightarrow> d)))"

text \<open>\<open>path_t\<close>: the length of the instruction stack, the index in the block and whether a branch was met.\<close>

type_synonym path_t = "nat \<times> int \<times> bool"

function walk_path :: "sem_inst list \<Rightarrow> int \<Rightarrow> bool \<Rightarrow> sem_inst list \<Rightarrow> path_t list \<Rightarrow> (bool \<times> sem_inst list \<times> path_t list) res" where
  "walk_path b n br st ps =
     (if n < int (length b) then rbind (bb_at b n) (\<lambda>i.
        let st = st @ [i] in
        if i_op i = S_CONT then Inr (br, st, ps)
        else walk_path b (n + 1) (if i_op i = S_BRANCH then True else br) st
          (if i_op i = S_IF then (length st, n + i_b i + 1, br) # ps else ps))
      else Inr (br, st, ps))"
  by pat_completeness auto

termination
  by (relation "measure (\<lambda>(b, n, br, st, ps). nat (int (length b) - n))") auto

declare walk_path.simps [simp del]

definition restart_path :: "path_t \<Rightarrow> sem_inst list \<Rightarrow> sem_inst list res" where
  "restart_path q st = (case q of (k, n, br) \<Rightarrow>
     let st = take k st in
     if k = 0 then Inr st
     else rbind (reverseCond (i_d (st ! (k - 1)))) (\<lambda>c. Inr (st[k - 1 := (st ! (k - 1))\<lparr>i_d := c\<rparr>])))"

partial_function (option) branch_paths ::
  "state_pack \<Rightarrow> minst \<Rightarrow> minst list \<Rightarrow> bool \<Rightarrow> sem_inst list \<Rightarrow> path_t list \<Rightarrow> filters \<Rightarrow> filters res option" where
  "branch_paths pack inst insts first st ps f =
     (case ps of
        [] \<Rightarrow> Some (Inr f)
      | q # ps \<Rightarrow>
          (case rbind (restart_path q st) (\<lambda>st. walk_path (mi_sem inst) (fst (snd q)) (snd (snd q)) st ps) of
             Inl e \<Rightarrow> Some (Inl e)
           | Inr (br, st, ps) \<Rightarrow>
               if br then
                 (let f = (if first then f else f\<lparr>reg_filters := reg_filters f @ [SECmp SE_OR None None],
                        addr_filters := addr_filters f @ [SECmp SE_OR None None]\<rparr>)
                  in case obind (makeFilters pack None (mi_addr inst) st f) (\<lambda>(se, f). addFilters pack se insts f) of
                      None \<Rightarrow> None
                    | Some (Inl e) \<Rightarrow> Some (Inl e)
                    | Some (Inr f) \<Rightarrow> branch_paths pack inst insts False st ps f)
               else branch_paths pack inst insts first st ps f))"

declare branch_paths.simps [code]

definition iterateBranchPaths :: "state_pack \<Rightarrow> minst \<Rightarrow> minst list \<Rightarrow> filters \<Rightarrow> filters res option" where
  "iterateBranchPaths pack inst insts f = branch_paths pack inst insts True [] [(0, 0, False)] f"

definition getFilters :: "state_pack \<Rightarrow> minst list \<Rightarrow> (secmp list \<times> secmp list) res option" where
  "getFilters pack bb =
     (let insts = takeWhile (\<lambda>i. \<not> mi_control i) bb; f = \<lparr>reg_filters = [], addr_filters = [], known_reg = [], known_addr = []\<rparr>
      in obind (case dropWhile (\<lambda>i. \<not> mi_control i) bb of
             i # is \<Rightarrow> if mi_cond i then iterateBranchPaths pack i insts f else addFilters pack None insts f
           | [] \<Rightarrow> addFilters pack None insts f) (\<lambda>f. Some (Inr (reg_filters f, addr_filters f))))"

text \<open>The whole update of a block: the output state, and the filters when an \<^verbatim>\<open>if\<close> was met.\<close>

definition bb_update ::
  "clp_env \<Rightarrow> minst list \<Rightarrow> clp_state \<Rightarrow> clp_prob \<Rightarrow> (clp_state \<times> clp_prob \<times> (secmp list \<times> secmp list) option) res option" where
  "bb_update env bb st_in p = obind (clp_update env (map mi_sem bb) st_in p) (\<lambda>(out, p).
     if pr_has_if p then
       obind (fillPack env bb st_in p) (\<lambda>(pack, p). obind (getFilters pack bb) (\<lambda>f. Some (Inr (out, p, Some f))))
     else Some (Inr (out, p, None)))"

subsection \<open>Applying filters on an edge\<close>

definition edge_filter ::
  "fpu \<Rightarrow> (clp \<Rightarrow> clp) \<Rightarrow> clp_state \<Rightarrow> secmp \<Rightarrow> clp_state \<times> clp_state \<times> clp_stats \<Rightarrow> (clp_state \<times> clp_state \<times> clp_stats) res" where
  "edge_filter fp loc init f = (\<lambda>(d, all, st).
     if sc_op f = SE_NONE then Inr (d, all, st)
     else if sc_op f = SE_OR then rbind (st_join all d) (\<lambda>all. Inr (st_copy d init, all, st))
     else case (sc_a f, sc_b f) of
         (Some a, Some b) \<Rightarrow>
           rbind (st_get (loc (symb_val a)) d) (\<lambda>v.
           rbind (applyFilter fp v (sc_op f) (symb_val b)) (\<lambda>w.
           rbind (st_set (loc (symb_val a)) w d) (\<lambda>d.
             Inr (d, all, st\<lparr>nb_filters := nb_filters st + 1,
               nb_top_filters := nb_top_filters st + (if symb_val b = clp_all then 1 else 0)\<rparr>))))
       | _ \<Rightarrow> Inl Undefined)"

definition not_filters :: "secmp list \<Rightarrow> secmp list res" where
  "not_filters fs = rfold (\<lambda>f ns. rbind (logicalNot f) (\<lambda>n. Inr (ns @ [n]))) fs []"

definition updateEdge ::
  "fpu \<Rightarrow> edge_kind \<Rightarrow> (secmp list \<times> secmp list) option \<Rightarrow> clp_state \<Rightarrow> clp_stats \<Rightarrow> (clp_state \<times> clp_stats) res" where
  "updateEdge fp kind fs d st = (case fs of None \<Rightarrow> Inr (d, st) | Some (rf, af) \<Rightarrow>
     rbind (if kind \<noteq> TAKEN then not_filters rf else Inr rf) (\<lambda>rf.
     rbind (if kind \<noteq> TAKEN then not_filters af else Inr af) (\<lambda>af.
     rbind (rfold (edge_filter fp reg_of (st_copy st_FULL d)) rf (d, st_EMPTY, st)) (\<lambda>(d, all, st).
     rbind (st_join d all) (\<lambda>d.
     rbind (rfold (edge_filter fp (\<lambda>a. a) (st_copy st_FULL d)) af (d, all, st)) (\<lambda>(d, all, st).
     rbind (st_join d all) (\<lambda>d. Inr (d, st))))))))"

subsection \<open>Initial state\<close>

record bank =
  bk_writable :: bool
  bk_address :: "32 word"
  bk_top :: "32 word"

text \<open>Null addresses are \<open>None\<close>.\<close>

definition bank_stack :: "bank list \<Rightarrow> 32 word option" where
  "bank_stack banks = fold (\<lambda>b addr. if bk_writable b \<and> (case addr of None \<Rightarrow> True | Some a \<Rightarrow> bk_address b > a)
     then Some (bk_top b) else addr) banks None"

definition init_state ::
  "(int \<times> 32 word) list \<Rightarrow> int option \<Rightarrow> bank list option \<Rightarrow> 32 word option \<Rightarrow> clp_state \<Rightarrow> clp_state res" where
  "init_state inits sp mem defaultStack s =
     rbind (rfold (\<lambda>(r, a). initialize r a) inits s) (\<lambda>s.
     case sp of None \<Rightarrow> Inr s
     | Some r \<Rightarrow> rbind (var_get s r) (\<lambda>v.
         if isTop v then (case mem of None \<Rightarrow> Inr s
           | Some banks \<Rightarrow>
               (case (case bank_stack banks of None \<Rightarrow> defaultStack | Some a \<Rightarrow> Some a) of
                  None \<Rightarrow> Inr s
                | Some a \<Rightarrow> initialize r a s))
         else Inr s))"

subsection \<open>Traversal of a block\<close>

record manager =
  mg_insts :: "minst list"
  mg_s :: clp_state
  mg_cs :: "clp_state option"
  mg_prob :: clp_prob
  mg_i :: int

definition NEW_SEM :: nat where "NEW_SEM = 1"
definition NEW_PATH :: nat where "NEW_PATH = 2"
definition NEW_INST :: nat where "NEW_INST = 4"
definition ENDED :: nat where "ENDED = 0"

text \<open>\<open>mg_cs\<close> is the state of a path put aside, or \<open>None\<close> when the current state is the one of the manager.\<close>

definition mg_update :: "clp_env \<Rightarrow> manager \<Rightarrow> manager res" where
  "mg_update env m = (case mg_insts m of [] \<Rightarrow> Inl Undefined | inst # _ \<Rightarrow>
     rbind (clp_step env (mi_sem inst) (case mg_cs m of None \<Rightarrow> mg_s m | Some s \<Rightarrow> s) (mg_prob m)) (\<lambda>(s, p).
       Inr (case mg_cs m of None \<Rightarrow> m\<lparr>mg_s := s, mg_prob := p\<rparr> | Some _ \<Rightarrow> m\<lparr>mg_cs := Some s, mg_prob := p\<rparr>)))"

definition mg_start :: "clp_env \<Rightarrow> minst list \<Rightarrow> clp_state \<Rightarrow> clp_prob \<Rightarrow> (nat \<times> manager) res" where
  "mg_start env bb st_in p =
     rbind (mg_update env \<lparr>mg_insts = bb, mg_s = st_in, mg_cs = None, mg_prob = prepare p, mg_i = 0\<rparr>) (\<lambda>m.
       Inr (NEW_INST OR NEW_PATH OR NEW_SEM, m))"

definition mg_lub :: "manager \<Rightarrow> clp_state res" where
  "mg_lub m = (case mg_cs m of None \<Rightarrow> Inr (mg_s m) | Some s \<Rightarrow> st_join (mg_s m) s)"

function mg_seek :: "nat \<Rightarrow> manager \<Rightarrow> (nat \<times> manager) res" where
  "mg_seek r m = (case mg_insts m of [] \<Rightarrow> Inl Undefined | inst # insts \<Rightarrow>
     if pr_pc (mg_prob m) < int (length (mi_sem inst)) then Inr (r, m)
     else rbind (mg_lub m) (\<lambda>s. case pr_todo (mg_prob m) of
         (pc, t) # todo \<Rightarrow> mg_seek (r OR NEW_PATH)
           (m\<lparr>mg_s := s, mg_cs := Some t, mg_prob := (mg_prob m)\<lparr>pr_pc := pc, pr_todo := todo\<rparr>\<rparr>)
       | [] \<Rightarrow> if insts = [] then Inr (ENDED, m\<lparr>mg_s := s, mg_cs := None, mg_insts := []\<rparr>)
           else mg_seek (r OR NEW_PATH OR NEW_INST) (m\<lparr>mg_insts := insts, mg_s := s, mg_cs := None, mg_prob := prepare (mg_prob m), mg_i := 0\<rparr>)))"
  by pat_completeness auto

termination
  by (relation "measures [\<lambda>(r, m). length (mg_insts m), \<lambda>(r, m). length (pr_todo (mg_prob m))]") auto

definition mg_next :: "clp_env \<Rightarrow> manager \<Rightarrow> (nat \<times> manager) res" where
  "mg_next env m = rbind (mg_seek NEW_SEM m) (\<lambda>(r, m).
     if mg_insts m = [] then Inr (r, m)
     else rbind (mg_update env (m\<lparr>mg_i := pr_pc (mg_prob m)\<rparr>)) (\<lambda>m. Inr (r, m)))"

subsection \<open>Dead edges\<close>

type_synonym never_taken = "edge \<rightharpoonup> bool"

definition mark_dead :: "edge \<Rightarrow> never_taken \<Rightarrow> never_taken" where
  "mark_dead e nt = nt(e \<mapsto> True)"

definition mark_live :: "edge \<Rightarrow> never_taken \<Rightarrow> never_taken" where
  "mark_live e nt = (if nt e = None then nt(e \<mapsto> False) else nt)"

definition dead_bb :: "cfg \<Rightarrow> (nat \<Rightarrow> clp_state) \<Rightarrow> nat \<Rightarrow> never_taken \<Rightarrow> never_taken" where
  "dead_bb g state_out b nt = (let mark = (if st_equals (state_out b) st_EMPTY then mark_dead else mark_live)
     in fold mark (outs g b) (fold mark (ins g b) nt))"

definition dead_code :: "cfg \<Rightarrow> (nat \<Rightarrow> clp_state) \<Rightarrow> never_taken" where
  "dead_code g state_out = fold (dead_bb g state_out) (bb_iter g) Map.empty"

subsection \<open>What filters and marks mean\<close>

lemma join_EMPTY: "st_join s st_EMPTY = Inr s"
  by (simp add: st_join_def st_merge_bottom(1) st_EMPTY_def st_new_def)

definition loc_word :: "machine \<Rightarrow> clp \<Rightarrow> 32 word" where
  "loc_word M l = (if c_kind l = K_REG then m_get M (sint (c_lower l)) else m_mem M (c_lower l))"

definition loc_ok :: "clp \<Rightarrow> bool" where
  "loc_ok l \<longleftrightarrow> var_ok (sint (c_lower l)) \<and> l = clp_reg (sint (c_lower l)) \<or> c_kind l = K_VAL \<and> isConst l"

text \<open>
  A comparison holds of \<open>M\<close> when the word at its location compares so with some member of its
  right side; a list of filters is a disjunction of conjunctions separated by \<^verbatim>\<open>OR\<close>.
\<close>

definition filter_true :: "(clp \<Rightarrow> clp) \<Rightarrow> machine \<Rightarrow> secmp \<Rightarrow> bool" where
  "filter_true loc M f \<longleftrightarrow> sc_op f = SE_NONE \<or> (\<exists>a b y. sc_a f = Some a \<and> sc_b f = Some b \<and>
     y \<in> clp_gamma (symb_val b) \<and> se_truth (sc_op f) (loc_word M (loc (symb_val a))) y)"

fun alt_true :: "(clp \<Rightarrow> clp) \<Rightarrow> machine \<Rightarrow> secmp list \<Rightarrow> bool" where
  "alt_true loc M [] \<longleftrightarrow> True"
| "alt_true loc M (f # fs) \<longleftrightarrow> sc_op f = SE_OR \<or> filter_true loc M f \<and> alt_true loc M fs"

fun later_true :: "(clp \<Rightarrow> clp) \<Rightarrow> machine \<Rightarrow> secmp list \<Rightarrow> bool" where
  "later_true loc M [] \<longleftrightarrow> False"
| "later_true loc M (f # fs) \<longleftrightarrow> sc_op f = SE_OR \<and> alt_true loc M fs \<or> later_true loc M fs"

definition filters_true :: "(clp \<Rightarrow> clp) \<Rightarrow> machine \<Rightarrow> secmp list \<Rightarrow> bool" where
  "filters_true loc M fs \<longleftrightarrow> alt_true loc M fs \<or> later_true loc M fs"

text \<open>
  \<open>filters_fit\<close> follows the filters and asks that none fails, that each compares values for which
  the filter is sound, and that the alternatives are close when they are joined.
\<close>

definition joinable :: "clp_state \<Rightarrow> clp_state \<Rightarrow> bool" where
  "joinable s t \<longleftrightarrow> st_def s = clp_none \<or> st_def t = clp_none \<or> st_close s t"

definition filter_at :: "fpu \<Rightarrow> (clp \<Rightarrow> clp) \<Rightarrow> secmp \<Rightarrow> clp_state \<Rightarrow> clp_state res" where
  "filter_at fp loc f d = (case (sc_a f, sc_b f) of
       (Some a, Some b) \<Rightarrow> rbind (st_get (loc (symb_val a)) d) (\<lambda>v.
         rbind (applyFilter fp v (sc_op f) (symb_val b)) (\<lambda>w. st_set (loc (symb_val a)) w d))
     | _ \<Rightarrow> Inl Undefined)"

definition fits_at :: "fpu \<Rightarrow> (clp \<Rightarrow> clp) \<Rightarrow> secmp \<Rightarrow> clp_state \<Rightarrow> bool" where
  "fits_at fp loc f d \<longleftrightarrow> sc_op f \<in> comparisons \<and> (case (sc_a f, sc_b f) of
       (Some a, Some b) \<Rightarrow> loc_ok (loc (symb_val a)) \<and> (case st_get (loc (symb_val a)) d of Inl _ \<Rightarrow> False
         | Inr v \<Rightarrow> filter_fits v (sc_op f) (symb_val b) \<and> (case applyFilter fp v (sc_op f) (symb_val b) of Inl _ \<Rightarrow> False
           | Inr w \<Rightarrow> proper w))
     | _ \<Rightarrow> False)"

fun filters_fit :: "fpu \<Rightarrow> (clp \<Rightarrow> clp) \<Rightarrow> clp_state \<Rightarrow> secmp list \<Rightarrow> clp_state \<Rightarrow> clp_state \<Rightarrow> bool" where
  "filters_fit fp loc init [] d all \<longleftrightarrow> joinable d all"
| "filters_fit fp loc init (f # fs) d all \<longleftrightarrow>
     (if sc_op f = SE_NONE then filters_fit fp loc init fs d all
      else if sc_op f = SE_OR then joinable all d \<and>
        (case st_join all d of Inl _ \<Rightarrow> False | Inr all' \<Rightarrow> filters_fit fp loc init fs (st_copy d init) all')
      else (st_def d = clp_none \<or> fits_at fp loc f d) \<and>
        (case filter_at fp loc f d of Inl _ \<Rightarrow> False | Inr d' \<Rightarrow> filters_fit fp loc init fs d' all))"

definition edge_fits :: "fpu \<Rightarrow> secmp list \<Rightarrow> secmp list \<Rightarrow> clp_state \<Rightarrow> clp_stats \<Rightarrow> bool" where
  "edge_fits fp rf af d st \<longleftrightarrow> filters_fit fp reg_of (st_copy st_FULL d) rf d st_EMPTY \<and>
     (case rfold (edge_filter fp reg_of (st_copy st_FULL d)) rf (d, st_EMPTY, st) of Inl _ \<Rightarrow> False
      | Inr (d1, all, _) \<Rightarrow> (case st_join d1 all of Inl _ \<Rightarrow> False
         | Inr d2 \<Rightarrow> filters_fit fp (\<lambda>a. a) (st_copy st_FULL d2) af d2 all))"

lemma joinable_sound:
  assumes "joinable s t"
  shows "\<exists>u. st_join s t = Inr u \<and> (\<forall>M. st_rep s M \<or> st_rep t M \<longrightarrow> st_rep u M)"
proof -
  have n: "\<not> st_rep s M" if "st_def s = clp_none" for s M using that by (simp add: st_rep_def)
  consider "st_def t = clp_none" | "st_def s = clp_none" "st_def t \<noteq> clp_none" | "st_close s t"
    using assms by (auto simp: joinable_def)
  then show ?thesis
  proof cases
    case 3
    then show ?thesis by (rule st_join_sound)
  qed (auto simp: st_join_def st_merge_bottom n)
qed

lemma m_set_same [simp]: "m_set M i (m_get M i) = M"
  by (auto simp: m_set_def m_get_def)

lemma st_set_same:
  assumes "st_rep d M" "loc_ok l" "proper w" "loc_word M l \<in> clp_gamma w"
  shows "\<exists>d'. st_set l w d = Inr d' \<and> st_rep d' M"
proof (cases "c_kind l = K_REG")
  case True
  then obtain i where i: "var_ok i" "l = clp_reg i" using assms(2) by (auto simp: loc_ok_def)
  then have "loc_word M l = m_get M i" using True sint_var [OF i(1)] i(2) by (simp add: loc_word_def)
  then show ?thesis using st_set_var [OF assms(1) i(1) assms(3)] assms(4) i(2) by fastforce
next
  case False
  then have l: "c_kind l = K_VAL" "isConst l" using assms(2) clp_reg_fields(1) unfolding loc_ok_def by metis+
  have "M\<lparr>m_mem := (m_mem M)(c_lower l := m_mem M (c_lower l))\<rparr> = M" by simp
  then show ?thesis using st_set_mem [OF assms(1) l assms(3), of "m_mem M (c_lower l)"] assms(4) False by (simp add: loc_word_def)
qed

lemma st_get_word:
  assumes "st_rep d M" "loc_ok l" "st_get l d = Inr v"
  shows "loc_word M l \<in> clp_gamma v"
proof (cases "c_kind l = K_REG")
  case True
  then obtain i where i: "var_ok i" "l = clp_reg i" using assms(2) by (auto simp: loc_ok_def)
  then show ?thesis using st_get_var [OF assms(1) i(1)] assms(3) sint_var [OF i(1)] by (simp add: loc_word_def)
next
  case False
  then have l: "c_kind l = K_VAL" "isConst l" using assms(2) clp_reg_fields(1) unfolding loc_ok_def by metis+
  then show ?thesis using st_get_mem [OF assms(1) l] assms(3) False by (simp add: loc_word_def)
qed

text \<open>One comparison keeps the machine states of which it holds.\<close>

lemma filter_at_sound:
  assumes "st_rep d M" "fits_at fp loc f d" "filter_true loc M f"
  shows "\<exists>d'. filter_at fp loc f d = Inr d' \<and> st_rep d' M"
proof -
  obtain a b v w where f: "sc_op f \<in> comparisons" "sc_a f = Some a" "sc_b f = Some b" "loc_ok (loc (symb_val a))"
      "st_get (loc (symb_val a)) d = Inr v" "filter_fits v (sc_op f) (symb_val b)"
      "applyFilter fp v (sc_op f) (symb_val b) = Inr w" "proper w"
    using assms(2) by (auto simp: fits_at_def split: option.splits sum.splits)
  have "sc_op f \<noteq> SE_NONE" using f(1) by (auto simp: comparisons_def)
  then obtain y where y: "y \<in> clp_gamma (symb_val b)" "se_truth (sc_op f) (loc_word M (loc (symb_val a))) y"
    using assms(3) f(2,3) by (auto simp: filter_true_def)
  have "loc_word M (loc (symb_val a)) \<in> clp_gamma w"
    using applyFilter_sound [OF f(6,1) st_get_word [OF assms(1) f(4,5)] y, of fp] f(7) by simp
  from st_set_same [OF assms(1) f(4,8) this] show ?thesis using f by (simp add: filter_at_def)
qed

lemma edge_filter_skip:
  "sc_op f = SE_NONE \<Longrightarrow> edge_filter fp loc init f (d, all, st) = Inr (d, all, st)"
  "sc_op f = SE_OR \<Longrightarrow> edge_filter fp loc init f (d, all, st) = rbind (st_join all d) (\<lambda>all. Inr (st_copy d init, all, st))"
  by (simp_all add: edge_filter_def)

lemma edge_filter_at:
  assumes "sc_op f \<notin> {SE_NONE, SE_OR}" "filter_at fp loc f d = Inr d'"
  shows "\<exists>st'. edge_filter fp loc init f (d, all, st) = Inr (d', all, st')"
  using assms by (auto simp: edge_filter_def filter_at_def res_simps split: option.splits)

lemma edge_filters_sound:
  assumes "filters_fit fp loc init fs d all" "st_rep init M"
    and "st_rep all M \<or> st_rep d M \<and> alt_true loc M fs \<or> later_true loc M fs"
  shows "\<exists>d' all' st'. rfold (edge_filter fp loc init) fs (d, all, st) = Inr (d', all', st') \<and> joinable d' all' \<and>
    (st_rep d' M \<or> st_rep all' M)"
  using assms
proof (induction fs arbitrary: d all st)
  case (Cons f fs)
  consider (none) "sc_op f = SE_NONE" | (alt) "sc_op f = SE_OR" | (cmp) "sc_op f \<notin> {SE_NONE, SE_OR}" by blast
  then show ?case
  proof cases
    case none
    then have "st_rep all M \<or> st_rep d M \<and> alt_true loc M fs \<or> later_true loc M fs" using Cons.prems(3) by auto
    then show ?thesis using Cons.IH [of d all st] Cons.prems(1,2) none by (simp add: edge_filter_skip)
  next
    case alt
    have c: "st_copy d init = init" by (simp add: st_copy_def st_clear_def)
    obtain all' where a: "st_join all d = Inr all'" "joinable all d" "filters_fit fp loc init fs init all'"
      using Cons.prems(1) alt c by (auto split: sum.splits)
    then have "st_rep all' M \<or> st_rep init M \<and> alt_true loc M fs \<or> later_true loc M fs"
      using joinable_sound [OF a(2)] Cons.prems(2,3) alt by auto
    from Cons.IH [OF a(3) Cons.prems(2) this, of st] show ?thesis using alt a(1) c by (simp add: edge_filter_skip)
  next
    case cmp
    then obtain d1 where d1: "filter_at fp loc f d = Inr d1" "filters_fit fp loc init fs d1 all" "st_def d = clp_none \<or> fits_at fp loc f d"
      using Cons.prems(1) by (auto split: sum.splits)
    have "st_rep all M \<or> st_rep d1 M \<and> alt_true loc M fs \<or> later_true loc M fs"
      using Cons.prems(3) cmp d1(1,3) filter_at_sound [of d M fp loc f] by (auto simp: st_rep_def)
    moreover obtain st1 where "edge_filter fp loc init f (d, all, st) = Inr (d1, all, st1)" using edge_filter_at [OF cmp d1(1)] by blast
    ultimately show ?thesis using Cons.IH [OF d1(2) Cons.prems(2), of st1] by simp
  qed
qed auto

lemma updateEdge_sound:
  assumes "st_rep d M" "edge_fits fp rf af d st" "filters_true reg_of M rf" "filters_true (\<lambda>a. a) M af"
  shows "\<exists>d' st'. updateEdge fp TAKEN (Some (rf, af)) d st = Inr (d', st') \<and> st_rep d' M"
proof -
  have c: "st_copy st_FULL s = s" for s by (simp add: st_copy_def st_clear_def)
  have "st_rep st_EMPTY M \<or> st_rep d M \<and> alt_true reg_of M rf \<or> later_true reg_of M rf"
    using assms(1,3) by (auto simp: filters_true_def)
  then obtain d1 all st1 where 1: "rfold (edge_filter fp reg_of d) rf (d, st_EMPTY, st) = Inr (d1, all, st1)"
      "joinable d1 all" "st_rep d1 M \<or> st_rep all M"
    using edge_filters_sound [of fp reg_of d rf d st_EMPTY M st] assms(1,2) by (auto simp: edge_fits_def c)
  obtain d2 where d2: "st_join d1 all = Inr d2" "st_rep d2 M" using joinable_sound [OF 1(2)] 1(3) by blast
  have "filters_fit fp (\<lambda>a. a) d2 af d2 all" using assms(2) 1(1) d2(1) by (simp add: edge_fits_def c)
  moreover have "st_rep all M \<or> st_rep d2 M \<and> alt_true (\<lambda>a. a) M af \<or> later_true (\<lambda>a. a) M af"
    using d2(2) assms(4) by (auto simp: filters_true_def)
  ultimately obtain d3 all3 st3 where 3: "rfold (edge_filter fp (\<lambda>a. a) d2) af (d2, all, st1) = Inr (d3, all3, st3)"
      "joinable d3 all3" "st_rep d3 M \<or> st_rep all3 M"
    using edge_filters_sound [of fp "\<lambda>a. a" d2 af d2 all M st1] d2(2) by blast
  obtain d4 where d4: "st_join d3 all3 = Inr d4" "st_rep d4 M" using joinable_sound [OF 3(2)] 3(3) by blast
  show ?thesis using 1(1) d2(1) 3(1) d4 by (simp add: updateEdge_def c)
qed

text \<open>The edge not taken of a branch with several alternatives goes through a null pointer.\<close>

lemma not_filters_or:
  assumes "\<And>f. f \<in> set xs \<Longrightarrow> sc_a f \<noteq> None \<and> sc_b f \<noteq> None"
  shows "not_filters (xs @ SECmp SE_OR None None # ys) = Inl Undefined"
proof -
  have "\<exists>ns'. rfold (\<lambda>f ns. rbind (logicalNot f) (\<lambda>n. Inr (ns @ [n]))) xs ns = Inr ns'" for ns
    using assms
  proof (induction xs arbitrary: ns)
    case (Cons f fs)
    obtain a b where "sc_a f = Some a" "sc_b f = Some b" using Cons.prems [of f] by auto
    then obtain n where "logicalNot f = Inr n" by (simp add: logicalNot_def)
    then show ?case using Cons by simp
  qed auto
  then obtain ns' where "rfold (\<lambda>f ns. rbind (logicalNot f) (\<lambda>n. Inr (ns @ [n]))) xs [] = Inr ns'" by blast
  then show ?thesis by (simp add: not_filters_def rfold_append logicalNot_or)
qed

lemma updateEdge_or_fault:
  assumes "kind \<noteq> TAKEN" "\<And>f. f \<in> set xs \<Longrightarrow> sc_a f \<noteq> None \<and> sc_b f \<noteq> None"
  shows "updateEdge fp kind (Some (xs @ SECmp SE_OR None None # ys, af)) d st = Inl Undefined"
  using not_filters_or [OF assms(2)] assms(1) by (simp add: updateEdge_def)

subsection \<open>Dead edges are those of dead blocks\<close>

lemma fold_mark_dead: "fold mark_dead es nt e = (if e \<in> set es then Some True else nt e)"
  by (induction es arbitrary: nt) (auto simp: mark_dead_def)

lemma fold_mark_live: "fold mark_live es nt e = (if e \<in> set es \<and> nt e = None then Some False else nt e)"
  by (induction es arbitrary: nt) (auto simp: mark_live_def)

definition touches :: "cfg \<Rightarrow> nat \<Rightarrow> edge \<Rightarrow> bool" where
  "touches g b e \<longleftrightarrow> e \<in> set (ins g b) \<union> set (outs g b)"

lemma dead_bb_at:
  "dead_bb g so b nt e = (if \<not> touches g b e then nt e else if st_equals (so b) st_EMPTY then Some True
     else if nt e = None then Some False else nt e)"
  by (auto simp: dead_bb_def touches_def Let_def fold_mark_dead fold_mark_live)

lemma dead_blocks:
  "fold (dead_bb g so) bs Map.empty e =
     (if \<exists>b \<in> set bs. touches g b e then Some (\<exists>b \<in> set bs. touches g b e \<and> st_equals (so b) st_EMPTY) else None)"
  by (induction bs rule: rev_induct) (auto simp: dead_bb_at)

lemma dead_code_at:
  "dead_code g so e = (if \<exists>b < countBB g. touches g b e
     then Some (\<exists>b < countBB g. touches g b e \<and> st_equals (so b) st_EMPTY) else None)"
  unfolding dead_code_def dead_blocks by (auto simp: bb_iter_def)

end
