(* ===== verification/Loop_Info.thy ===== *)
theory Loop_Info
  imports Dominance
begin

text \<open>
  Loop membership and loop exits (otawa/src/prog/cfg_LoopInfoBuilder.cpp): the headers are
  collected in a sorted list (elm/include/elm/genstruct/SortedSLList.h) whose order is
  dominance, a backward data-flow problem over sets of header indices finds the loops around
  each block, and the smallest index of a set names the loop.

  The results are compared with natural loops: the loop of a header holds the blocks from
  which a back edge to the header can be reached without going through it.
\<close>

subsection \<open>Sorted list of headers\<close>

text \<open>\<^verbatim>\<open>SortedSLList::add\<close>: the value goes before the first element it compares lower than.\<close>

fun ssl_add :: "('a \<Rightarrow> 'a \<Rightarrow> int res) \<Rightarrow> 'a \<Rightarrow> 'a list \<Rightarrow> 'a list res" where
  "ssl_add compare v [] = Inr [v]"
| "ssl_add compare v (c # cs) =
     rbind (compare v c) (\<lambda>k. if k < 0 then Inr (v # c # cs) else rbind (ssl_add compare v cs) (\<lambda>r. Inr (c # r)))"

definition dom_compare :: "bitset list \<Rightarrow> nat \<Rightarrow> nat \<Rightarrow> int res" where
  "dom_compare rd bb1 bb2 =
     rbind (dominates rd bb1 bb2) (\<lambda>d1. if d1 then Inr 1
       else rbind (dominates rd bb2 bb1) (\<lambda>d2. Inr (if d2 then -1 else 0)))"

text \<open>\<^verbatim>\<open>Vector::indexOf\<close>, -1 when the value is not there.\<close>

fun vec_indexOf :: "nat list \<Rightarrow> nat \<Rightarrow> int \<Rightarrow> int" where
  "vec_indexOf [] v i = -1"
| "vec_indexOf (x # xs) v i = (if v = x then i else vec_indexOf xs v (i + 1))"

definition lip_add_header :: "cfg \<Rightarrow> dom_info \<Rightarrow> nat \<Rightarrow> nat list \<Rightarrow> nat list res" where
  "lip_add_header g di b hs =
     (if \<not> isEntry g b \<and> di_header di ! b then ssl_add (dom_compare (di_reverse di)) b hs else Inr hs)"

definition lip_headers :: "cfg \<Rightarrow> dom_info \<Rightarrow> nat list res" where
  "lip_headers g di = rfold (lip_add_header g di) (bb_iter g) []"

subsection \<open>Problem\<close>

text \<open>A negative index passes the upper bound check of the bit vector and then shifts by a
  negative amount.\<close>

definition lip_set_index :: "bitset \<Rightarrow> int \<Rightarrow> bitset res" where
  "lip_set_index s i = (if i < 0 then Inl Undefined else bs_add s (nat i))"

definition lip_gen_edge :: "dom_info \<Rightarrow> nat list \<Rightarrow> nat \<Rightarrow> edge \<Rightarrow> bitset \<Rightarrow> bitset res" where
  "lip_gen_edge di hdrs b e s =
     (if e_kind e \<noteq> CALL \<and> b \<noteq> e_tgt e
      then rbind (dominates (di_reverse di) (e_tgt e) b) (\<lambda>dm.
        if dm then lip_set_index s (vec_indexOf hdrs (e_tgt e) 0) else Inr s)
      else Inr s)"

definition lip_gen :: "cfg \<Rightarrow> dom_info \<Rightarrow> nat list \<Rightarrow> nat \<Rightarrow> bitset res" where
  "lip_gen g di hdrs b = rbind (bs_new (length hdrs)) (rfold (lip_gen_edge di hdrs b) (outs g b))"

definition lip_kill :: "dom_info \<Rightarrow> nat list \<Rightarrow> nat \<Rightarrow> bitset res" where
  "lip_kill di hdrs b = rbind (bs_new (length hdrs)) (\<lambda>s.
     if di_header di ! b then lip_set_index s (vec_indexOf hdrs b 0) else Inr s)"

definition lip_problem :: "cfg \<Rightarrow> dom_info \<Rightarrow> nat list \<Rightarrow> bitset problem" where
  "lip_problem g di hdrs = \<lparr>
     p_empty = bs_new (length hdrs),
     p_gen = lip_gen g di hdrs,
     p_kill = lip_kill di hdrs,
     p_equals = bs_equals,
     p_reset = bs_empty,
     p_merge = bs_add_set,
     p_set = bs_assign,
     p_add = bs_add_set,
     p_diff = bs_remove_set\<rparr>"

subsection \<open>Processor\<close>

text \<open>The annotations: \<^verbatim>\<open>ENCLOSING_LOOP_HEADER\<close>, \<^verbatim>\<open>LOOP_EXIT_EDGE\<close>, \<^verbatim>\<open>EXIT_LIST\<close>.\<close>

record loop_info =
  li_enclosing :: "nat option list"
  li_exit :: "edge \<Rightarrow> nat option"
  li_list :: "nat \<Rightarrow> edge list option"

definition li_none :: "cfg \<Rightarrow> loop_info" where
  "li_none g = \<lparr>li_enclosing = replicate (countBB g) None, li_exit = (\<lambda>_. None), li_list = (\<lambda>_. None)\<rparr>"

definition lib_enclose :: "nat list \<Rightarrow> bitset list \<Rightarrow> nat \<Rightarrow> loop_info \<Rightarrow> loop_info" where
  "lib_enclose hdrs os b li =
     (case bs_items (os ! b) of [] \<Rightarrow> li | i # _ \<Rightarrow> li\<lparr>li_enclosing := (li_enclosing li)[b := Some (hdrs ! i)]\<rparr>)"

definition lib_add_self :: "nat list \<Rightarrow> nat \<Rightarrow> bitset list \<Rightarrow> bitset list res" where
  "lib_add_self hdrs i os = rbind (bs_add (os ! (hdrs ! i)) i) (\<lambda>s. Inr (os[hdrs ! i := s]))"

definition lib_exit_edge :: "nat list \<Rightarrow> bitset list \<Rightarrow> nat \<Rightarrow> edge \<Rightarrow> loop_info \<Rightarrow> loop_info res" where
  "lib_exit_edge hdrs os b e li =
     (if e_kind e \<noteq> CALL
      then rbind (bs_remove_set (bs_copy (os ! b)) (os ! e_tgt e)) (\<lambda>r.
        Inr (case bs_items r of [] \<Rightarrow> li | i # _ \<Rightarrow> li\<lparr>li_exit := (li_exit li)(e \<mapsto> hdrs ! i)\<rparr>))
      else Inr li)"

definition lib_exit_bb :: "cfg \<Rightarrow> dom_info \<Rightarrow> nat list \<Rightarrow> bitset list \<Rightarrow> nat \<Rightarrow> loop_info \<Rightarrow> loop_info res" where
  "lib_exit_bb g di hdrs os b li =
     (if li_enclosing li ! b \<noteq> None \<or> di_header di ! b
      then rfold (lib_exit_edge hdrs os b) (outs g b) li else Inr li)"

definition lib_list_edge :: "edge \<Rightarrow> loop_info \<Rightarrow> loop_info" where
  "lib_list_edge e li =
     (case li_exit li e of None \<Rightarrow> li
      | Some h \<Rightarrow>
          (let li = (if li_list li h = None then li\<lparr>li_list := (li_list li)(h \<mapsto> [])\<rparr> else li)
           in li\<lparr>li_list := (li_list li)(h := map_option (\<lambda>l. l @ [e]) (li_list li h))\<rparr>))"

definition buildLoopExitList :: "cfg \<Rightarrow> loop_info \<Rightarrow> loop_info" where
  "buildLoopExitList g li = fold (\<lambda>b. fold lib_list_edge (outs g b)) (bb_iter g) li"

definition lib_annotate :: "cfg \<Rightarrow> dom_info \<Rightarrow> nat list \<Rightarrow> bitset list \<Rightarrow> loop_info res" where
  "lib_annotate g di hdrs os =
     (let li = fold (lib_enclose hdrs os) (bb_iter g) (li_none g) in
      rbind (rfold (lib_add_self hdrs) [0..<length hdrs] os) (\<lambda>os.
      rbind (rfold (lib_exit_bb g di hdrs os) (bb_iter g) li) (\<lambda>li.
        Inr (buildLoopExitList g li))))"

definition lib_processCFG :: "cfg \<Rightarrow> dom_info \<Rightarrow> loop_info res option" where
  "lib_processCFG g di =
     (case lip_headers g di of
        Inl e \<Rightarrow> Some (Inl e)
      | Inr hdrs \<Rightarrow>
          if length hdrs = 0 then Some (Inr (li_none g))
          else (case idfa_run (lip_problem g di hdrs) Successor g of
              None \<Rightarrow> None
            | Some (Inl e) \<Rightarrow> Some (Inl e)
            | Some (Inr d) \<Rightarrow> Some (lib_annotate g di hdrs (d_outs d))))"

subsection \<open>Dominators of a block are in line\<close>

abbreviation succs :: "cfg \<Rightarrow> nat \<Rightarrow> nat \<Rightarrow> bool" where
  "succs g \<equiv> flow_edge Predecessor g"

lemma is_path_last:
  assumes "is_path E a p b" "S \<inter> set p \<noteq> {}"
  shows "\<exists>x q. x \<in> S \<and> is_path E x q b \<and> set q \<subseteq> set p \<and> set (tl q) \<inter> S = {}"
  using assms
proof (induction rule: is_path_induct)
  case start
  then show ?case by (intro exI [of _ a] exI [of _ "[a]"]) auto
next
  case (step q b c)
  show ?case
  proof (cases "c \<in> S")
    case True
    then show ?thesis by (intro exI [of _ c] exI [of _ "[c]"]) auto
  next
    case False
    then obtain x r where r: "x \<in> S" "is_path E x r b" "set r \<subseteq> set q" "set (tl r) \<inter> S = {}" using step by auto
    then have "r \<noteq> []" by (auto dest: is_path_ends)
    then have "is_path E x (r @ [c]) c" "set (tl (r @ [c])) \<inter> S = {}"
      using r is_path_snoc [OF r(2) step(2)] False by (auto simp: tl_append split: list.split)
    then show ?thesis using r by (intro exI [of _ x] exI [of _ "r @ [c]"]) auto
  qed
qed

lemma dom_chain:
  assumes "a \<in> dom_set g c" "b \<in> dom_set g c" "reachable g c"
  shows "a \<in> dom_set g b \<or> b \<in> dom_set g a"
proof (rule ccontr)
  assume no: "\<not> ?thesis"
  obtain p where p: "is_path (succs g) 0 p c" using assms(3) by (auto simp: reachable_def)
  have n: "a < countBB g" "b < countBB g" using assms by (auto simp: on_all_paths_def)
  with no obtain q r where q: "is_path (succs g) 0 q b" "a \<notin> set q" and r: "is_path (succs g) 0 r a" "b \<notin> set r"
    by (auto simp: on_all_paths_def)
  have "{a, b} \<inter> set p \<noteq> {}" using assms p by (auto simp: on_all_paths_def)
  from is_path_last [OF p this] obtain x s where s: "x = a \<or> x = b" "is_path (succs g) x s c" "set (tl s) \<inter> {a, b} = {}"
    by blast
  from s(1) show False
  proof
    assume "x = a"
    then have "is_path (succs g) 0 (r @ tl s) c" using is_path_append [OF r(1)] s by simp
    then show False using assms(2) r(2) s(3) by (auto simp: on_all_paths_def)
  next
    assume "x = b"
    then have "is_path (succs g) 0 (q @ tl s) c" using is_path_append [OF q(1)] s by simp
    then show False using assms(1) q(2) s(3) by (auto simp: on_all_paths_def)
  qed
qed

lemma dom_trans:
  assumes "a \<in> dom_set g b" "b \<in> dom_set g c"
  shows "a \<in> dom_set g c"
proof -
  have "a \<in> set p" if p: "is_path (succs g) 0 p c" for p
  proof -
    have "b \<in> set p" using assms(2) p by (auto simp: on_all_paths_def)
    from is_path_prefix [OF p this] obtain q where "is_path (succs g) 0 q b" "set q \<subseteq> set p" by blast
    then show ?thesis using assms(1) by (auto simp: on_all_paths_def)
  qed
  then show ?thesis using assms(1) by (auto simp: on_all_paths_def)
qed

lemma dom_of_reachable:
  assumes "a \<in> dom_set g b" "reachable g b"
  shows "reachable g a"
proof -
  obtain p where p: "is_path (succs g) 0 p b" using assms(2) by (auto simp: reachable_def)
  then have "a \<in> set p" using assms(1) by (auto simp: on_all_paths_def)
  from is_path_prefix [OF p this] show ?thesis by (auto simp: reachable_def)
qed

subsection \<open>The headers, inner ones first\<close>

lemma ssl_add_sorted:
  assumes cmp: "\<And>x y. x \<in> S \<Longrightarrow> y \<in> S \<Longrightarrow> \<exists>k. compare x y = Inr k \<and> (k < 0 \<longleftrightarrow> lt x y)"
    and irr: "\<And>x. \<not> lt x x"
    and trans: "\<And>x y z. x \<in> S \<Longrightarrow> y \<in> S \<Longrightarrow> z \<in> S \<Longrightarrow> lt x y \<Longrightarrow> lt y z \<Longrightarrow> lt x z"
    and "v \<in> S" "set cs \<subseteq> S" "v \<notin> set cs" "distinct cs" "sorted_wrt (\<lambda>a b. \<not> lt b a) cs"
  shows "\<exists>r. ssl_add compare v cs = Inr r \<and> set r = insert v (set cs) \<and> distinct r \<and> sorted_wrt (\<lambda>a b. \<not> lt b a) r"
  using assms(4-)
proof (induction cs)
  case Nil
  then show ?case by simp
next
  case (Cons c cs)
  obtain k where k: "compare v c = Inr k" "k < 0 \<longleftrightarrow> lt v c" using cmp [of v c] Cons.prems by auto
  show ?case
  proof (cases "lt v c")
    case True
    have "\<not> lt x v" if "x \<in> set (c # cs)" for x
    proof
      assume x: "lt x v"
      then have "lt x c" using trans [of x v c] True Cons.prems that by auto
      then show False using irr [of c] that Cons.prems by auto
    qed
    then show ?thesis using k True Cons.prems by (intro exI [of _ "v # c # cs"]) auto
  next
    case False
    obtain r where r: "ssl_add compare v cs = Inr r" "set r = insert v (set cs)" "distinct r"
        "sorted_wrt (\<lambda>a b. \<not> lt b a) r"
      using Cons by auto
    then show ?thesis using k False Cons.prems by (intro exI [of _ "c # r"]) auto
  qed
qed

definition loop_header :: "cfg \<Rightarrow> nat \<Rightarrow> bool" where
  "loop_header g h \<longleftrightarrow> (\<exists>e \<in> all_edges g. back_edge g e \<and> e_tgt e = h)"

text \<open>What the processor is given: the annotations of the dominance processor on a graph
  whose blocks with an output can be reached and whose entry has no input.\<close>

definition loop_input :: "cfg \<Rightarrow> dom_info \<Rightarrow> bool" where
  "loop_input g di \<longleftrightarrow> wf_cfg g \<and> ins g 0 = [] \<and> (\<forall>b < countBB g. outs g b \<noteq> [] \<longrightarrow> reachable g b) \<and>
     dom_table g (di_reverse di) \<and> (\<forall>h < countBB g. di_header di ! h \<longleftrightarrow> loop_header g h)"

lemma dom_gives_loop_input:
  assumes "wf_cfg g" "ins g 0 = []" "\<forall>b < countBB g. outs g b \<noteq> [] \<longrightarrow> reachable g b"
  shows "\<exists>di. dom_processCFG g = Some (Inr di) \<and> loop_input g di"
proof -
  obtain di where "dom_processCFG g = Some (Inr di)" "dom_table g (di_reverse di)"
      "marked g (di_reverse di) {e \<in> all_edges g. back_edge g e} di"
    using dom_processCFG_marked [OF assms(1)] assms(3) by blast
  then show ?thesis using assms by (auto simp: loop_input_def marked_def loop_header_def)
qed

lemma all_edges_src:
  assumes "wf_edges g" "e \<in> all_edges g"
  shows "e_src e < countBB g \<and> e \<in> set (outs g (e_src e))"
  using assms by (auto simp: wf_edges_def all_edges_def)

lemma wf_edges_out:
  assumes "wf_edges g" "b < countBB g" "e \<in> set (outs g b)"
  shows "e_src e = b \<and> (e_kind e \<noteq> CALL \<longrightarrow> e_tgt e < countBB g \<and> e \<in> set (ins g (e_tgt e)))"
  using assms unfolding wf_edges_def by blast

lemma header_props:
  assumes "loop_input g di" "loop_header g h"
  shows "h < countBB g \<and> reachable g h \<and> h \<noteq> 0 \<and> \<not> isEntry g h"
proof -
  obtain e where e: "e \<in> all_edges g" "back_edge g e" "e_tgt e = h" using assms(2) by (auto simp: loop_header_def)
  have wf: "wf_edges g" using assms(1) by (simp add: loop_input_def wf_cfg_def)
  have s: "e_src e < countBB g" "e \<in> set (outs g (e_src e))" using all_edges_src [OF wf e(1)] by auto
  then have r: "reachable g (e_src e)" using assms(1) by (auto simp: loop_input_def)
  have h: "h \<in> dom_set g (e_src e)" using e by (simp add: back_edge_def)
  then have hn: "h < countBB g" by (simp add: on_all_paths_def)
  have "e \<in> set (ins g h)" using wf_edges_out [OF wf s] e(2,3) by (simp add: back_edge_def)
  moreover have "ins g 0 = []" using assms(1) by (simp add: loop_input_def)
  ultimately have h0: "h \<noteq> 0" by (metis empty_iff empty_set)
  then have "\<not> isEntry g h" using assms(1) hn by (simp add: loop_input_def wf_cfg_def)
  then show ?thesis using dom_of_reachable [OF h r] hn h0 by simp
qed

definition inner :: "cfg \<Rightarrow> nat \<Rightarrow> nat \<Rightarrow> bool" where
  "inner g a b \<longleftrightarrow> a \<noteq> b \<and> b \<in> dom_set g a"

lemma dom_compare_inner:
  assumes "loop_input g di" "loop_header g a" "loop_header g b"
  shows "\<exists>k. dom_compare (di_reverse di) a b = Inr k \<and> (k < 0 \<longleftrightarrow> inner g a b)"
proof -
  have ab: "a < countBB g" "b < countBB g" "reachable g a" "reachable g b"
    using header_props [OF assms(1)] assms(2,3) by auto
  have rd: "dom_table g (di_reverse di)" using assms(1) by (simp add: loop_input_def)
  have "dominates (di_reverse di) a b = Inr (a \<in> dom_set g b)" "dominates (di_reverse di) b a = Inr (b \<in> dom_set g a)"
    using dominates_reachable [OF rd ab(1,2)] dominates_reachable [OF rd ab(2,1)] ab by auto
  then show ?thesis
    using dom_antisym [OF ab(3)] dom_self [OF ab(1)] by (auto simp: dom_compare_def inner_def)
qed

lemma inner_trans:
  assumes "reachable g a" "inner g a b" "inner g b c"
  shows "inner g a c"
  using assms dom_trans [of c g b a] dom_antisym [of g a b] by (auto simp: inner_def)

definition headers_ok :: "cfg \<Rightarrow> nat list \<Rightarrow> bool" where
  "headers_ok g hdrs \<longleftrightarrow> set hdrs = {h. loop_header g h} \<and> distinct hdrs \<and> sorted_wrt (\<lambda>a b. \<not> inner g b a) hdrs"

lemma lip_headers_ok:
  assumes "loop_input g di"
  shows "\<exists>hdrs. lip_headers g di = Inr hdrs \<and> headers_ok g hdrs"
proof -
  let ?P = "\<lambda>bs hs. set hs = {h \<in> set bs. loop_header g h} \<and> distinct hs \<and> sorted_wrt (\<lambda>a b. \<not> inner g b a) hs"
  have "\<exists>hs. rfold (lip_add_header g di) (bb_iter g) [] = Inr hs \<and> ?P (bb_iter g) hs"
  proof (rule rfold_invariant)
    show "?P [] []" by simp
    fix pre b post hs assume split: "bb_iter g = pre @ b # post" and P: "?P pre hs"
    have "distinct (pre @ b # post)" unfolding split [symmetric] by (simp add: bb_iter_def)
    moreover have "b \<in> set (bb_iter g)" using split by simp
    ultimately have b: "b < countBB g" "b \<notin> set pre" by (auto simp: bb_iter_def)
    show "\<exists>hs'. lip_add_header g di b hs = Inr hs' \<and> ?P (pre @ [b]) hs'"
    proof (cases "loop_header g b")
      case True
      have "\<exists>r. ssl_add (dom_compare (di_reverse di)) b hs = Inr r \<and> set r = insert b (set hs) \<and> distinct r \<and>
          sorted_wrt (\<lambda>a b. \<not> inner g b a) r"
      proof (rule ssl_add_sorted [where S = "{h. loop_header g h}" and lt = "inner g"])
        show "\<exists>k. dom_compare (di_reverse di) x y = Inr k \<and> (k < 0 \<longleftrightarrow> inner g x y)"
          if "x \<in> {h. loop_header g h}" "y \<in> {h. loop_header g h}" for x y
          using dom_compare_inner [OF assms] that by simp
        show "inner g x z" if "x \<in> {h. loop_header g h}" "inner g x y" "inner g y z" for x y z
          using inner_trans [OF _ that(2,3)] header_props [OF assms] that(1) by simp
      qed (use P True b in \<open>simp_all add: inner_def subset_iff\<close>)
      moreover have "di_header di ! b" "\<not> isEntry g b"
        using True b assms header_props [OF assms True] by (auto simp: loop_input_def)
      ultimately show ?thesis using P True by (auto simp: lip_add_header_def)
    next
      case False
      then have "\<not> di_header di ! b" using assms b by (simp add: loop_input_def)
      then show ?thesis using P False by (auto simp: lip_add_header_def)
    qed
  qed
  then show ?thesis using header_props [OF assms] by (fastforce simp: lip_headers_def headers_ok_def bb_iter_def)
qed

subsection \<open>Natural loops\<close>

definition in_loop :: "cfg \<Rightarrow> nat \<Rightarrow> nat \<Rightarrow> bool" where
  "in_loop g h b \<longleftrightarrow> (\<exists>p e. is_path (succs g) b p (e_src e) \<and> h \<notin> set p \<and> e \<in> all_edges g \<and> back_edge g e \<and> e_tgt e = h)"

lemma in_loop_props:
  assumes "loop_input g di" "in_loop g h b" "b < countBB g"
  shows "loop_header g h \<and> reachable g b \<and> h \<noteq> b \<and> h \<in> dom_set g b"
proof -
  obtain p e where e: "is_path (succs g) b p (e_src e)" "h \<notin> set p" "e \<in> all_edges g" "back_edge g e" "e_tgt e = h"
    using assms(2) by (auto simp: in_loop_def)
  have wf: "wf_edges g" using assms(1) by (simp add: loop_input_def wf_cfg_def)
  have hb: "h \<noteq> b" using is_path_ends [OF e(1)] e(2) by auto
  have "outs g b \<noteq> []"
  proof (cases p rule: remdups_adj.cases)
    case (2 x)
    then show ?thesis using e(1) all_edges_src [OF wf e(3)] by auto
  next
    case (3 x y ys)
    then show ?thesis using e(1) by (auto simp: flow_edge_def not_calls_filter)
  qed (use e(1) in simp)
  then have r: "reachable g b" using assms(1,3) by (auto simp: loop_input_def)
  have hs: "h \<in> dom_set g (e_src e)" using e by (simp add: back_edge_def)
  have "h \<in> set q" if q: "is_path (succs g) 0 q b" for q
  proof -
    have "h \<in> set (q @ tl p)" using hs is_path_append [OF q e(1)] by (auto simp: on_all_paths_def)
    moreover have "set (tl p) \<subseteq> set p" by (cases p) auto
    ultimately show ?thesis using e(2) by auto
  qed
  then show ?thesis using r hb hs e by (auto simp: loop_header_def on_all_paths_def)
qed

text \<open>The loops around a block form a chain, so the sorted list puts the innermost first.\<close>

lemma first_is_innermost:
  assumes hd: "headers_ok g hdrs" and S: "S \<subseteq> {..<length hdrs}" "i \<in> S"
    and dom: "\<And>j. j \<in> S \<Longrightarrow> hdrs ! j \<in> dom_set g b" and b: "reachable g b"
  shows "hdrs ! i \<in> dom_set g (hdrs ! Min S) \<and> (i \<noteq> Min S \<longrightarrow> hdrs ! i \<noteq> hdrs ! Min S)"
proof -
  let ?m = "Min S"
  have fin: "finite S" using S finite_subset by blast
  have m: "?m \<in> S" "?m \<le> i" using S fin by (auto intro: Min_in)
  have ml: "?m < length hdrs" "i < length hdrs" using m S by auto
  have "hdrs ! ?m < countBB g" using dom [OF m(1)] by (simp add: on_all_paths_def)
  note self = dom_self [OF this]
  show ?thesis
  proof (cases "?m = i")
    case True
    then show ?thesis using self by simp
  next
    case False
    then have ne: "hdrs ! i \<noteq> hdrs ! ?m" using hd ml by (auto simp: headers_ok_def nth_eq_iff_index_eq)
    have "\<not> inner g (hdrs ! i) (hdrs ! ?m)"
      using hd ml m False sorted_wrt_nth_less [of "\<lambda>a b. \<not> inner g b a" hdrs ?m i] by (simp add: headers_ok_def)
    then have "hdrs ! ?m \<notin> dom_set g (hdrs ! i)" using ne by (simp add: inner_def)
    then show ?thesis using dom_chain [OF dom [OF S(2)] dom [OF m(1)] b] ne by blast
  qed
qed

subsection \<open>Solution of the data-flow problem\<close>

lemma vec_indexOf_nth: "v \<in> set xs \<Longrightarrow> \<exists>k < length xs. vec_indexOf xs v i = i + int k \<and> xs ! k = v"
proof (induction xs arbitrary: i)
  case (Cons x xs)
  show ?case
  proof (cases "v = x")
    case True
    then show ?thesis by (intro exI [of _ 0]) simp
  next
    case False
    then obtain k where "k < length xs" "vec_indexOf xs v (i + 1) = i + 1 + int k" "xs ! k = v"
      using Cons.IH [of "i + 1"] Cons.prems by auto
    then show ?thesis using False by (intro exI [of _ "Suc k"]) simp
  qed
qed simp

lemma set_index_rep:
  assumes "bv_rep (length hdrs) S s" "v \<in> set hdrs" "distinct hdrs"
  shows "\<exists>t. lip_set_index s (vec_indexOf hdrs v 0) = Inr t \<and>
    bv_rep (length hdrs) (S \<union> {i. i < length hdrs \<and> hdrs ! i = v}) t"
proof -
  obtain k where k: "k < length hdrs" "vec_indexOf hdrs v 0 = int k" "hdrs ! k = v"
    using vec_indexOf_nth [OF assms(2), of 0] by auto
  then have "{i. i < length hdrs \<and> hdrs ! i = v} = {k}"
    using assms(3) by (auto simp: nth_eq_iff_index_eq)
  then show ?thesis using bs.add_rep [OF assms(1) k(1)] k(2) by (simp add: lip_set_index_def)
qed

definition gen_set :: "cfg \<Rightarrow> nat list \<Rightarrow> nat \<Rightarrow> nat set" where
  "gen_set g hdrs b = {i. i < length hdrs \<and> hdrs ! i \<noteq> b \<and> (\<exists>e \<in> set (outs g b). back_edge g e \<and> e_tgt e = hdrs ! i)}"

definition kill_set :: "nat list \<Rightarrow> nat \<Rightarrow> nat set" where
  "kill_set hdrs b = {i. i < length hdrs \<and> hdrs ! i = b}"

lemma lip_gen_rep:
  assumes inp: "loop_input g di" and hd: "headers_ok g hdrs" "hdrs \<noteq> []" and b: "b < countBB g"
  shows "\<exists>s. lip_gen g di hdrs b = Inr s \<and> bv_rep (length hdrs) (gen_set g hdrs b) s"
proof -
  let ?n = "length hdrs"
  let ?S = "\<lambda>es. {i. i < ?n \<and> hdrs ! i \<noteq> b \<and> (\<exists>e \<in> set es. back_edge g e \<and> e_tgt e = hdrs ! i)}"
  have wf: "wf_edges g" and rd: "dom_table g (di_reverse di)" using inp by (auto simp: loop_input_def wf_cfg_def)
  obtain s0 where s0: "bs_new ?n = Inr s0" "bv_rep ?n {} s0" using bs.new_rep [of ?n] hd by auto
  have "\<exists>s. rfold (lip_gen_edge di hdrs b) (outs g b) s0 = Inr s \<and> bv_rep ?n (?S (outs g b)) s"
  proof (rule rfold_invariant [where P = "\<lambda>es s. bv_rep ?n (?S es) s"])
    show "bv_rep ?n (?S []) s0" using s0 by simp
    fix pre e post t assume o: "outs g b = pre @ e # post" and t: "bv_rep ?n (?S pre) t"
    have eb: "e \<in> set (outs g b)" using o by simp
    have r: "reachable g b" using inp b o by (auto simp: loop_input_def)
    show "\<exists>t'. lip_gen_edge di hdrs b e t = Inr t' \<and> bv_rep ?n (?S (pre @ [e])) t'"
    proof (cases "e_kind e \<noteq> CALL \<and> b \<noteq> e_tgt e \<and> e_tgt e \<in> dom_set g b")
      case True
      then have "back_edge g e" using wf_edges_out [OF wf b eb] by (simp add: back_edge_def)
      moreover have "e \<in> all_edges g" using eb b by (auto simp: all_edges_def)
      ultimately have "e_tgt e \<in> set hdrs" using hd by (auto simp: headers_ok_def loop_header_def)
      then obtain t' where "lip_set_index t (vec_indexOf hdrs (e_tgt e) 0) = Inr t'"
          "bv_rep ?n (?S pre \<union> {i. i < ?n \<and> hdrs ! i = e_tgt e}) t'"
        using set_index_rep [OF t] hd by (auto simp: headers_ok_def)
      moreover have "?S pre \<union> {i. i < ?n \<and> hdrs ! i = e_tgt e} = ?S (pre @ [e])"
        using True \<open>back_edge g e\<close> by auto
      moreover have "dominates (di_reverse di) (e_tgt e) b = Inr True"
        using dominates_reachable [OF rd _ b] r True wf_edges_out [OF wf b eb] by simp
      ultimately show ?thesis using True by (simp add: lip_gen_edge_def)
    next
      case False
      have "\<not> back_edge g e \<or> e_tgt e = b" using False wf_edges_out [OF wf b eb] by (auto simp: back_edge_def)
      then have "?S (pre @ [e]) = ?S pre" by auto
      moreover have "dominates (di_reverse di) (e_tgt e) b = Inr (e_tgt e \<in> dom_set g b)" if "e_kind e \<noteq> CALL"
        using dominates_reachable [OF rd _ b] r that wf_edges_out [OF wf b eb] by simp
      ultimately show ?thesis using False t by (auto simp: lip_gen_edge_def)
    qed
  qed
  then show ?thesis using s0 by (simp add: lip_gen_def gen_set_def)
qed

lemma lip_kill_rep:
  assumes inp: "loop_input g di" and hd: "headers_ok g hdrs" "hdrs \<noteq> []" and b: "b < countBB g"
  shows "\<exists>s. lip_kill di hdrs b = Inr s \<and> bv_rep (length hdrs) (kill_set hdrs b) s"
proof -
  obtain s0 where s0: "bs_new (length hdrs) = Inr s0" "bv_rep (length hdrs) {} s0"
    using bs.new_rep [of "length hdrs"] hd by auto
  have h: "di_header di ! b \<longleftrightarrow> b \<in> set hdrs" using inp b hd by (simp add: loop_input_def headers_ok_def)
  show ?thesis
  proof (cases "b \<in> set hdrs")
    case True
    then show ?thesis using set_index_rep [OF s0(2) True] hd s0(1) h by (simp add: lip_kill_def kill_set_def headers_ok_def)
  next
    case False
    then have "kill_set hdrs b = {}" by (auto simp: kill_set_def)
    then show ?thesis using False s0 h by (simp add: lip_kill_def)
  qed
qed

lemma foldl_Un: "foldl (\<union>) U (map X ps) = U \<union> (\<Union>p \<in> set ps. X p)"
  by (induction ps arbitrary: U) auto

lemma loop_impl:
  assumes inp: "loop_input g di" and hd: "headers_ok g hdrs" "hdrs \<noteq> []"
  shows "dfa_impl (Pow {..<length hdrs}) (\<subseteq>) (\<union>) {} g Successor (\<union>) (-) (kill_set hdrs) (gen_set g hdrs)
    (lip_problem g di hdrs) (\<lambda>s S. bv_rep (length hdrs) S s)"
proof -
  let ?n = "length hdrs"
  have wf: "wf_edges g" "0 < countBB g" using inp by (auto simp: loop_input_def wf_cfg_def)
  obtain s0 where s0: "bs_new ?n = Inr s0" "bv_rep ?n {} s0" using bs.new_rep [of ?n] hd by auto
  show ?thesis
  proof unfold_locales
    show "\<exists>s. p_empty (lip_problem g di hdrs) = Inr s \<and> bv_rep ?n {} s" using s0 by (simp add: lip_problem_def)
    show "\<exists>s. p_gen (lip_problem g di hdrs) i = Inr s \<and> bv_rep ?n (gen_set g hdrs i) s" if "i < countBB g" for i
      using lip_gen_rep [OF inp hd that] by (simp add: lip_problem_def)
    show "\<exists>s. p_kill (lip_problem g di hdrs) i = Inr s \<and> bv_rep ?n (kill_set hdrs i) s" if "i < countBB g" for i
      using lip_kill_rep [OF inp hd that] by (simp add: lip_problem_def)
    show "bv_rep ?n {} (p_reset (lip_problem g di hdrs) s)" if "bv_rep ?n x s" for s x
      using bs.clear_rep [OF that] by (simp add: lip_problem_def)
    show "\<exists>u. p_equals (lip_problem g di hdrs) s t = Inr (x = y, u) \<and> bv_rep ?n x u"
      if "bv_rep ?n x s" "bv_rep ?n y t" for s x t y
      using bs.equals_rep [OF that] that by (simp add: lip_problem_def)
    show "\<exists>u. p_merge (lip_problem g di hdrs) s t = Inr u \<and> bv_rep ?n (x \<union> y) u"
      if "bv_rep ?n x s" "bv_rep ?n y t" for s x t y
      using bs.union_rep [OF that] by (simp add: lip_problem_def)
    show "\<exists>u. p_set (lip_problem g di hdrs) s t = Inr u \<and> bv_rep ?n y u"
      if "bv_rep ?n x s" "bv_rep ?n y t" for s x t y
      using bs.assign_rep [OF that] that by (simp add: lip_problem_def)
    show "\<exists>u. p_add (lip_problem g di hdrs) s t = Inr u \<and> bv_rep ?n (x \<union> y) u"
      if "bv_rep ?n x s" "bv_rep ?n y t" for s x t y
      using bs.union_rep [OF that] by (simp add: lip_problem_def)
    show "\<exists>u. p_diff (lip_problem g di hdrs) s t = Inr u \<and> bv_rep ?n (x - y) u"
      if "bv_rep ?n x s" "bv_rep ?n y t" for s x t y
      using bs.diff_rep [OF that] by (simp add: lip_problem_def)
    show "0 < countBB g" by (rule wf)
    show "j < countBB g" if "i < countBB g" "j \<in> set (iter_items Successor g i)" for i j
      by (rule iter_items_bound [OF wf(1) that])
    show "j < countBB g" if "i < countBB g" "j \<in> set (iter_items (forward Successor) g i)" for i j
      by (rule iter_items_bound [OF wf(1) that])
    show "j \<in> set (iter_items (forward Successor) g i)"
      if "i < countBB g" "j < countBB g" "i \<in> set (iter_items Successor g j)" for i j
      using iter_items_forward [OF wf(1) that(1,2), of Successor] that(3) by blast
    show "x \<in> Pow {..<?n}" if "bv_rep ?n x s" for s x using bs.rep_sub [OF that] by simp
  qed (auto simp: gen_set_def)
qed

definition loop_set :: "cfg \<Rightarrow> nat list \<Rightarrow> nat \<Rightarrow> nat set" where
  "loop_set g hdrs b = {i. i < length hdrs \<and> in_loop g (hdrs ! i) b}"

lemma in_loop_step:
  assumes "in_loop g h c" "b < countBB g" "succs g b c" "h \<noteq> b"
  shows "in_loop g h b"
proof -
  obtain p e where e: "is_path (succs g) c p (e_src e)" "h \<notin> set p" "e \<in> all_edges g" "back_edge g e" "e_tgt e = h"
    using assms(1) by (auto simp: in_loop_def)
  then obtain q where "p = c # q" using is_path_ends [OF e(1)] by (cases p) auto
  then have "is_path (succs g) b (b # p) (e_src e)" using e(1) assms(3) by simp
  then show ?thesis using e assms(4) unfolding in_loop_def by (intro exI [of _ "b # p"] exI [of _ e]) auto
qed

lemma loop_run:
  assumes inp: "loop_input g di" and hd: "headers_ok g hdrs" "hdrs \<noteq> []"
  shows "\<exists>e. idfa_run (lip_problem g di hdrs) Successor g = Some (Inr e) \<and> length (d_outs e) = countBB g \<and>
    (\<forall>b < countBB g. bv_rep (length hdrs) (loop_set g hdrs b) (d_outs e ! b))"
proof -
  let ?n = "length hdrs" and ?K = "kill_set hdrs" and ?G = "gen_set g hdrs"
  have wf: "wf_edges g" using inp by (simp add: loop_input_def wf_cfg_def)
  have inf: "inflow (\<union>) {} (iter_items Successor g) X b = (\<Union>s \<in> {s. succs g b s}. X s)" for X b
    by (auto simp: inflow_def foldl_Un flow_edge_def)
  from dfa_impl.idfa_run_least [OF loop_impl [OF inp hd], unfolded inf]
  obtain e X where run: "idfa_run (lip_problem g di hdrs) Successor g = Some (Inr e)" "length (d_outs e) = countBB g"
      and X': "\<forall>b < countBB g. bv_rep ?n (X b) (d_outs e ! b) \<and>
        bv_rep ?n (\<Union>s \<in> {s. succs g b s}. X s) (d_ins e ! b) \<and> X b = (\<Union>s \<in> {s. succs g b s}. X s) - ?K b \<union> ?G b"
      and least: "\<forall>Y. (\<forall>b < countBB g. Y b \<in> Pow {..<?n} \<and> (\<Union>s \<in> {s. succs g b s}. Y s) - ?K b \<union> ?G b \<subseteq> Y b) \<longrightarrow>
        (\<forall>b < countBB g. X b \<subseteq> Y b)"
    by (elim exE conjE) (rule that)
  then have X: "X b = (\<Union>s \<in> {s. succs g b s}. X s) - ?K b \<union> ?G b" if "b < countBB g" for b using that by blast
  have "i \<in> X b" if p: "is_path (succs g) b p (e_src ed)" and i: "i < ?n" "hdrs ! i \<notin> set p" and b: "b < countBB g"
    and ed: "ed \<in> all_edges g" "back_edge g ed" "e_tgt ed = hdrs ! i" for i b p ed
    using p i(2) b
  proof (induction p arbitrary: b)
    case (Cons x p)
    show ?case
    proof (cases p)
      case Nil
      then have "i \<in> ?G b" using Cons.prems i ed all_edges_src [OF wf ed(1)] by (auto simp: gen_set_def)
      then show ?thesis using X Cons.prems by blast
    next
      case (Cons y ys)
      then have s: "succs g b y" "is_path (succs g) y p (e_src ed)" "hdrs ! i \<noteq> b" "hdrs ! i \<notin> set p"
        using Cons.prems by auto
      have "y < countBB g" using s(1) iter_items_bound [OF wf Cons.prems(3), of y "forward Predecessor"] by (simp add: flow_edge_def)
      then have "i \<in> X y" using Cons.IH s by blast
      moreover have "i \<notin> ?K b" using s by (auto simp: kill_set_def)
      ultimately show ?thesis using X Cons.prems(3) s(1) by blast
    qed
  qed simp
  then have "loop_set g hdrs b \<subseteq> X b" if "b < countBB g" for b
    using that unfolding loop_set_def in_loop_def by blast
  moreover have "loop_set g hdrs b \<in> Pow {..<?n} \<and>
      (\<Union>s \<in> {s. succs g b s}. loop_set g hdrs s) - ?K b \<union> ?G b \<subseteq> loop_set g hdrs b" if b: "b < countBB g" for b
  proof -
    have "in_loop g (hdrs ! i) b" if i: "i \<in> ?G b" for i
    proof -
      obtain x where x: "x \<in> set (outs g b)" "back_edge g x" "e_tgt x = hdrs ! i" "hdrs ! i \<noteq> b"
        using i by (auto simp: gen_set_def)
      then show ?thesis unfolding in_loop_def using wf_edges_out [OF wf b x(1)] b
        by (intro exI [of _ "[b]"] exI [of _ x]) (auto simp: all_edges_def)
    qed
    moreover have "in_loop g (hdrs ! i) b" if "succs g b s" "in_loop g (hdrs ! i) s" "i < ?n" "i \<notin> ?K b" for i s
      using in_loop_step [OF that(2) b that(1)] that(3,4) by (auto simp: kill_set_def)
    ultimately show ?thesis by (auto simp: loop_set_def gen_set_def)
  qed
  ultimately have eq: "X b = loop_set g hdrs b" if "b < countBB g" for b using least that by blast
  have "bv_rep ?n (loop_set g hdrs b) (d_outs e ! b)" if b: "b < countBB g" for b
  proof -
    have "bv_rep ?n (X b) (d_outs e ! b)" using X' b by blast
    then show ?thesis by (simp only: eq [OF b])
  qed
  then show ?thesis using run by blast
qed

subsection \<open>Annotations\<close>

definition full_set :: "cfg \<Rightarrow> nat list \<Rightarrow> nat \<Rightarrow> nat set" where
  "full_set g hdrs b = loop_set g hdrs b \<union> kill_set hdrs b"

definition enclosing_of :: "cfg \<Rightarrow> nat list \<Rightarrow> nat \<Rightarrow> nat option" where
  "enclosing_of g hdrs b = (if loop_set g hdrs b = {} then None else Some (hdrs ! Min (loop_set g hdrs b)))"

definition exit_of :: "cfg \<Rightarrow> nat list \<Rightarrow> edge \<Rightarrow> nat option" where
  "exit_of g hdrs e =
     (let D = full_set g hdrs (e_src e) - full_set g hdrs (e_tgt e) in
      if e_kind e = CALL \<or> D = {} then None else Some (hdrs ! Min D))"

lemma items_first:
  assumes "bv_rep n S s"
  shows "(case bs_items s of [] \<Rightarrow> x | i # _ \<Rightarrow> f i) = (if S = {} then x else f (Min S))"
proof -
  have "finite S" using bs.rep_sub [OF assms] finite_subset by blast
  then show ?thesis using bs.items_rep [OF assms] by (simp add: sorted_list_of_set_nonempty)
qed

lemma enclose_all:
  assumes "length os = countBB g" "\<forall>b < countBB g. bv_rep n (loop_set g hdrs b) (os ! b)"
  shows "fold (lib_enclose hdrs os) (bb_iter g) (li_none g) = (li_none g)\<lparr>li_enclosing := map (enclosing_of g hdrs) (bb_iter g)\<rparr>"
proof -
  have "fold (lib_enclose hdrs os) [0..<k] (li_none g) =
      (li_none g)\<lparr>li_enclosing := map (enclosing_of g hdrs) [0..<k] @ replicate (countBB g - k) None\<rparr>"
    if "k \<le> countBB g" for k
    using that
  proof (induction k)
    case 0
    then show ?case by (simp add: li_none_def)
  next
    case (Suc k)
    obtain m where m: "countBB g - k = Suc m" "countBB g - Suc k = m" using Suc.prems by (metis Suc_diff_Suc Suc_le_lessD)
    have "bv_rep n (loop_set g hdrs k) (os ! k)" using assms Suc.prems by simp
    then show ?case using Suc m
      by (simp add: lib_enclose_def items_first enclosing_of_def list_update_append)
  qed
  from this [of "countBB g"] show ?thesis by (simp add: bb_iter_def)
qed

lemma add_self_all:
  assumes hd: "headers_ok g hdrs" "loop_input g di" and os: "length os = countBB g"
    "\<forall>b < countBB g. bv_rep (length hdrs) (loop_set g hdrs b) (os ! b)"
  shows "\<exists>os'. rfold (lib_add_self hdrs) [0..<length hdrs] os = Inr os' \<and> length os' = countBB g \<and>
    (\<forall>b < countBB g. bv_rep (length hdrs) (full_set g hdrs b) (os' ! b))"
proof -
  let ?n = "length hdrs"
  let ?P = "\<lambda>is os'. length os' = countBB g \<and>
    (\<forall>b < countBB g. bv_rep ?n (loop_set g hdrs b \<union> {i \<in> set is. hdrs ! i = b}) (os' ! b))"
  have "\<exists>os'. rfold (lib_add_self hdrs) [0..<?n] os = Inr os' \<and> ?P [0..<?n] os'"
  proof (rule rfold_invariant)
    show "?P [] os" using os by simp
    fix pre i post os1 assume split: "[0..<?n] = pre @ i # post" and P: "?P pre os1"
    have "i \<in> set [0..<?n]" unfolding split by simp
    then have i: "i < ?n" by simp
    then have "loop_header g (hdrs ! i)" using hd(1) nth_mem [OF i] by (auto simp: headers_ok_def)
    then have h: "hdrs ! i < countBB g" using header_props [OF hd(2)] by blast
    obtain t where t: "bs_add (os1 ! (hdrs ! i)) i = Inr t"
        "bv_rep ?n (insert i (loop_set g hdrs (hdrs ! i) \<union> {k \<in> set pre. hdrs ! k = hdrs ! i})) t"
      using bs.add_rep [OF _ i] P h by blast
    have "insert i (loop_set g hdrs (hdrs ! i) \<union> {k \<in> set pre. hdrs ! k = hdrs ! i}) =
        loop_set g hdrs (hdrs ! i) \<union> {k \<in> set (pre @ [i]). hdrs ! k = hdrs ! i}" by auto
    moreover have "{k \<in> set (pre @ [i]). hdrs ! k = b} = {k \<in> set pre. hdrs ! k = b}" if "b \<noteq> hdrs ! i" for b
      using that by auto
    ultimately have "bv_rep ?n (loop_set g hdrs b \<union> {k \<in> set (pre @ [i]). hdrs ! k = b}) (os1[hdrs ! i := t] ! b)"
      if "b < countBB g" for b
      using t P h that by (cases "b = hdrs ! i") (simp_all del: set_append)
    then show "\<exists>os2. lib_add_self hdrs i os1 = Inr os2 \<and> ?P (pre @ [i]) os2"
      using t(1) P by (simp add: lib_add_self_def)
  qed
  moreover have "{i \<in> set [0..<?n]. hdrs ! i = b} = kill_set hdrs b" for b by (auto simp: kill_set_def)
  ultimately show ?thesis by (simp add: full_set_def)
qed

lemma exit_edges_all:
  assumes wf: "wf_edges g" and b: "b < countBB g" and os: "\<forall>b < countBB g. bv_rep n (full_set g hdrs b) (os ! b)"
    and li: "li_exit li = (\<lambda>e. if e \<in> E then exit_of g hdrs e else None)"
  shows "rfold (lib_exit_edge hdrs os b) (outs g b) li =
    Inr (li\<lparr>li_exit := \<lambda>e. if e \<in> E \<union> set (outs g b) then exit_of g hdrs e else None\<rparr>)"
proof -
  let ?li = "\<lambda>es. li\<lparr>li_exit := \<lambda>e. if e \<in> E \<union> set es then exit_of g hdrs e else None\<rparr>"
  have "\<exists>t. rfold (lib_exit_edge hdrs os b) (outs g b) li = Inr t \<and> t = ?li (outs g b)"
  proof (rule rfold_invariant [where P = "\<lambda>es t. t = ?li es"])
    show "li = ?li []" using li by simp
    fix pre e post t assume o: "outs g b = pre @ e # post" and t: "t = ?li pre"
    have e: "e_src e = b" "e_kind e \<noteq> CALL \<Longrightarrow> e_tgt e < countBB g" using wf_edges_out [OF wf b] o by auto
    have upd: "(\<lambda>x. if x \<in> E \<union> set (pre @ [e]) then exit_of g hdrs x else None) =
        (\<lambda>x. if x \<in> E \<union> set pre then exit_of g hdrs x else None)(e := exit_of g hdrs e)" by auto
    show "\<exists>t'. lib_exit_edge hdrs os b e t = Inr t' \<and> t' = ?li (pre @ [e])"
    proof (cases "e_kind e = CALL")
      case True
      then have "exit_of g hdrs e = None" by (simp add: exit_of_def)
      then have "?li (pre @ [e]) = ?li pre" by (auto simp: fun_eq_iff intro!: arg_cong [where f = "\<lambda>x. li_exit_update (\<lambda>_. x) li"])
      then show ?thesis using True t by (simp add: lib_exit_edge_def)
    next
      case False
      let ?D = "full_set g hdrs (e_src e) - full_set g hdrs (e_tgt e)"
      have c: "bs_copy (os ! b) = os ! b" using os b bs.copy_rep by blast
      obtain r where r: "bs_remove_set (os ! b) (os ! e_tgt e) = Inr r" "bv_rep n ?D r"
        using bs.diff_rep os b e False by metis
      have "exit_of g hdrs e = (if ?D = {} then None else Some (hdrs ! Min ?D))" using False by (simp add: exit_of_def)
      moreover have "(\<lambda>x. if x \<in> E \<union> set pre then exit_of g hdrs x else None)(e := None) =
          (\<lambda>x. if x \<in> E \<union> set pre then exit_of g hdrs x else None)" if "exit_of g hdrs e = None"
        using that by auto
      ultimately show ?thesis using False t r c unfolding upd
        by (simp add: lib_exit_edge_def items_first)
    qed
  qed
  then show ?thesis by simp
qed

lemma exit_blocks_all:
  assumes inp: "loop_input g di" and hd: "headers_ok g hdrs"
    and os: "\<forall>b < countBB g. bv_rep n (full_set g hdrs b) (os ! b)"
    and li: "li_exit li = (\<lambda>_. None)" "li_enclosing li = map (enclosing_of g hdrs) (bb_iter g)"
  shows "rfold (lib_exit_bb g di hdrs os) (bb_iter g) li =
    Inr (li\<lparr>li_exit := \<lambda>e. if e \<in> all_edges g then exit_of g hdrs e else None\<rparr>)"
proof -
  have wf: "wf_edges g" using inp by (simp add: loop_input_def wf_cfg_def)
  let ?E = "\<lambda>bs. \<Union>b \<in> set bs. set (outs g b)"
  let ?li = "\<lambda>bs. li\<lparr>li_exit := \<lambda>e. if e \<in> ?E bs then exit_of g hdrs e else None\<rparr>"
  have "\<exists>t. rfold (lib_exit_bb g di hdrs os) (bb_iter g) li = Inr t \<and> t = ?li (bb_iter g)"
  proof (rule rfold_invariant [where P = "\<lambda>bs t. t = ?li bs"])
    show "li = ?li []" using li by simp
    fix pre b post t assume split: "bb_iter g = pre @ b # post" and t: "t = ?li pre"
    have "b \<in> set (bb_iter g)" using split by simp
    then have b: "b < countBB g" by (simp add: bb_iter_def)
    have enc: "li_enclosing t ! b = enclosing_of g hdrs b" using t li(2) b by (simp add: bb_iter_def)
    have E: "?E (pre @ [b]) = ?E pre \<union> set (outs g b)" by auto
    show "\<exists>t'. lib_exit_bb g di hdrs os b t = Inr t' \<and> t' = ?li (pre @ [b])"
    proof (cases "enclosing_of g hdrs b \<noteq> None \<or> di_header di ! b")
      case True
      have "li_exit t = (\<lambda>e. if e \<in> ?E pre then exit_of g hdrs e else None)" using t by simp
      from exit_edges_all [OF wf b os this] show ?thesis
        using True enc t unfolding lib_exit_bb_def E by simp
    next
      case False
      then have "loop_set g hdrs b = {}" by (simp add: enclosing_of_def split: if_splits)
      moreover have "b \<notin> set hdrs" using False inp hd b by (simp add: loop_input_def headers_ok_def)
      ultimately have "full_set g hdrs b = {}" by (auto simp: full_set_def kill_set_def)
      then have no: "exit_of g hdrs e = None" if "e \<in> set (outs g b)" for e
        using wf_edges_out [OF wf b that] by (simp add: exit_of_def)
      have "(\<lambda>e. if e \<in> ?E pre \<union> set (outs g b) then exit_of g hdrs e else None) =
          (\<lambda>e. if e \<in> ?E pre then exit_of g hdrs e else None)" using no by auto
      then show ?thesis using False enc t unfolding lib_exit_bb_def E by simp
    qed
  qed
  moreover have "?E (bb_iter g) = all_edges g" by (auto simp: bb_iter_def all_edges_def)
  ultimately show ?thesis by simp
qed

text \<open>The exit lists gather the annotated edges in the order of the blocks.\<close>

definition edge_list :: "cfg \<Rightarrow> edge list" where
  "edge_list g = concat (map (outs g) (bb_iter g))"

lemma list_edges_all:
  assumes "li_list li = (\<lambda>_. None)"
  shows "fold lib_list_edge es li =
    li\<lparr>li_list := \<lambda>h. let l = filter (\<lambda>e. li_exit li e = Some h) es in if l = [] then None else Some l\<rparr>"
proof (induction es rule: rev_induct)
  case Nil
  then show ?case using assms by simp
next
  case (snoc e es)
  show ?case
  proof (cases "li_exit li e")
    case None
    then show ?thesis using snoc by (simp add: lib_list_edge_def)
  next
    case (Some h)
    have "(\<lambda>k. let l = filter (\<lambda>x. li_exit li x = Some k) (es @ [e]) in if l = [] then None else Some l) =
      (\<lambda>k. let l = filter (\<lambda>x. li_exit li x = Some k) es in if l = [] then None else Some l)
        (h \<mapsto> filter (\<lambda>x. li_exit li x = Some h) es @ [e])"
      using Some by (auto simp: fun_eq_iff)
    then show ?thesis using snoc Some by (simp add: lib_list_edge_def Let_def)
  qed
qed

lemma buildLoopExitList_edges: "buildLoopExitList g li = fold lib_list_edge (edge_list g) li"
proof -
  have "fold (\<lambda>b. fold lib_list_edge (outs g b)) bs l = fold lib_list_edge (concat (map (outs g) bs)) l" for bs l
    by (induction bs arbitrary: l) simp_all
  then show ?thesis by (simp add: buildLoopExitList_def edge_list_def)
qed

lemma lib_processCFG_result:
  assumes "loop_input g di"
  shows "\<exists>hdrs li. headers_ok g hdrs \<and> lib_processCFG g di = Some (Inr li) \<and>
    (\<forall>b < countBB g. li_enclosing li ! b = enclosing_of g hdrs b) \<and>
    li_exit li = (\<lambda>e. if e \<in> all_edges g then exit_of g hdrs e else None) \<and>
    li_list li = (\<lambda>h. let l = filter (\<lambda>e. li_exit li e = Some h) (edge_list g) in if l = [] then None else Some l)"
proof -
  obtain hdrs where hd: "lip_headers g di = Inr hdrs" "headers_ok g hdrs" using lip_headers_ok [OF assms] by blast
  show ?thesis
  proof (cases "hdrs = []")
    case True
    then have "enclosing_of g hdrs b = None" "exit_of g hdrs e = None" for b e
      by (simp_all add: enclosing_of_def exit_of_def loop_set_def full_set_def kill_set_def)
    then show ?thesis using hd True
      by (intro exI [of _ hdrs] exI [of _ "li_none g"]) (auto simp: lib_processCFG_def li_none_def)
  next
    case False
    let ?n = "length hdrs"
    obtain e where e: "idfa_run (lip_problem g di hdrs) Successor g = Some (Inr e)" "length (d_outs e) = countBB g"
        "\<forall>b < countBB g. bv_rep ?n (loop_set g hdrs b) (d_outs e ! b)"
      using loop_run [OF assms hd(2) False] by blast
    let ?li = "(li_none g)\<lparr>li_enclosing := map (enclosing_of g hdrs) (bb_iter g)\<rparr>"
    have enc: "fold (lib_enclose hdrs (d_outs e)) (bb_iter g) (li_none g) = ?li" by (rule enclose_all [OF e(2,3)])
    obtain os where os: "rfold (lib_add_self hdrs) [0..<?n] (d_outs e) = Inr os"
        "\<forall>b < countBB g. bv_rep ?n (full_set g hdrs b) (os ! b)"
      using add_self_all [OF hd(2) assms e(2,3)] by blast
    let ?li2 = "?li\<lparr>li_exit := \<lambda>e. if e \<in> all_edges g then exit_of g hdrs e else None\<rparr>"
    have "rfold (lib_exit_bb g di hdrs os) (bb_iter g) ?li = Inr ?li2"
      by (rule exit_blocks_all [OF assms hd(2) os(2)]) (simp_all add: li_none_def)
    then have "lib_processCFG g di = Some (Inr (fold lib_list_edge (edge_list g) ?li2))"
      using hd(1) False e(1) enc os(1)
      by (simp add: lib_processCFG_def lib_annotate_def buildLoopExitList_edges Let_def)
    moreover have "li_list ?li2 = (\<lambda>_. None)" by (simp add: li_none_def)
    note list_edges_all [OF this, of "edge_list g"]
    ultimately show ?thesis using hd(2) by (intro exI [of _ hdrs]) (simp add: bb_iter_def)
  qed
qed

subsection \<open>Results against natural loops\<close>

definition in_body :: "cfg \<Rightarrow> nat \<Rightarrow> nat \<Rightarrow> bool" where
  "in_body g h b \<longleftrightarrow> loop_header g h \<and> (h = b \<or> in_loop g h b)"

definition leaves :: "cfg \<Rightarrow> nat \<Rightarrow> edge \<Rightarrow> bool" where
  "leaves g h e \<longleftrightarrow> in_body g h (e_src e) \<and> \<not> in_body g h (e_tgt e)"

definition innermost :: "cfg \<Rightarrow> (nat \<Rightarrow> bool) \<Rightarrow> nat \<Rightarrow> bool" where
  "innermost g P h \<longleftrightarrow> P h \<and> (\<forall>h'. P h' \<longrightarrow> h' \<in> dom_set g h)"

lemma Min_innermost:
  assumes inp: "loop_input g di" and hd: "headers_ok g hdrs" and b: "b < countBB g"
    and P: "\<And>h. P h \<Longrightarrow> in_body g h b" and S: "S = {i. i < length hdrs \<and> P (hdrs ! i)}"
  shows "(if S = {} then None else Some (hdrs ! Min S)) = Some h \<longleftrightarrow> innermost g P h"
proof -
  have hdr: "\<exists>i \<in> S. hdrs ! i = x" if "P x" for x
  proof -
    have "x \<in> set hdrs" using P [OF that] hd by (simp add: in_body_def headers_ok_def)
    then show ?thesis using that by (auto simp: S in_set_conv_nth)
  qed
  have dom: "x \<in> dom_set g b \<and> reachable g b" if "P x" for x
    using P [OF that] in_loop_props [OF inp _ b] header_props [OF inp] dom_self [OF b]
    by (auto simp: in_body_def)
  have Sub: "S \<subseteq> {..<length hdrs}" by (auto simp: S)
  have domS: "hdrs ! j \<in> dom_set g b" if "j \<in> S" for j using dom that by (simp add: S)
  show ?thesis
  proof (cases "S = {}")
    case True
    then show ?thesis using hdr by (auto simp: innermost_def)
  next
    case False
    have mS: "Min S \<in> S" using False Sub finite_subset [OF Sub] by (auto intro: Min_in)
    then have Pm: "P (hdrs ! Min S)" by (simp add: S)
    have all: "h' \<in> dom_set g (hdrs ! Min S)" if h': "P h'" for h'
    proof -
      obtain i where i: "i \<in> S" "hdrs ! i = h'" using hdr [OF h'] by blast
      then show ?thesis using first_is_innermost [OF hd Sub i(1) domS] dom [OF h'] by auto
    qed
    have "h = hdrs ! Min S" if "innermost g P h"
    proof -
      have "h \<in> dom_set g (hdrs ! Min S)" "hdrs ! Min S \<in> dom_set g h"
        using that all Pm by (auto simp: innermost_def)
      moreover have "reachable g h"
        using that P header_props [OF inp] by (auto simp: innermost_def in_body_def)
      ultimately show ?thesis using dom_antisym by blast
    qed
    then show ?thesis using False Pm all by (auto simp: innermost_def)
  qed
qed

lemma enclosing_innermost:
  assumes "loop_input g di" "headers_ok g hdrs" "b < countBB g"
  shows "enclosing_of g hdrs b = Some h \<longleftrightarrow> innermost g (\<lambda>h. in_loop g h b) h"
  unfolding enclosing_of_def
  by (rule Min_innermost [OF assms]) (use in_loop_props [OF assms(1) _ assms(3)] in \<open>auto simp: in_body_def loop_set_def\<close>)

lemma full_set_body:
  assumes "loop_input g di" "headers_ok g hdrs" "b < countBB g"
  shows "full_set g hdrs b = {i. i < length hdrs \<and> in_body g (hdrs ! i) b}"
proof -
  have "loop_header g (hdrs ! i)" if "i < length hdrs" for i
    using assms(2) nth_mem [OF that] by (auto simp: headers_ok_def)
  then show ?thesis by (auto simp: full_set_def loop_set_def kill_set_def in_body_def)
qed

lemma exit_innermost:
  assumes inp: "loop_input g di" and hd: "headers_ok g hdrs" and e: "e \<in> all_edges g" "e_kind e \<noteq> CALL"
  shows "exit_of g hdrs e = Some h \<longleftrightarrow> innermost g (\<lambda>h. leaves g h e) h"
proof -
  have wf: "wf_edges g" using inp by (simp add: loop_input_def wf_cfg_def)
  have s: "e_src e < countBB g" "e_tgt e < countBB g"
    using all_edges_src [OF wf e(1)] wf_edges_out [OF wf] e(2) by auto
  let ?D = "full_set g hdrs (e_src e) - full_set g hdrs (e_tgt e)"
  have "?D = {i. i < length hdrs \<and> leaves g (hdrs ! i) e}"
    using full_set_body [OF inp hd s(1)] full_set_body [OF inp hd s(2)] by (auto simp: leaves_def)
  from Min_innermost [OF inp hd s(1) _ this, of h] show ?thesis
    using e(2) by (simp add: exit_of_def leaves_def)
qed

lemma lib_processCFG_loops:
  assumes "loop_input g di"
  shows "\<exists>li. lib_processCFG g di = Some (Inr li) \<and>
    (\<forall>b < countBB g. \<forall>h. li_enclosing li ! b = Some h \<longleftrightarrow> innermost g (\<lambda>h. in_loop g h b) h) \<and>
    (\<forall>e h. li_exit li e = Some h \<longleftrightarrow> e \<in> all_edges g \<and> e_kind e \<noteq> CALL \<and> innermost g (\<lambda>h. leaves g h e) h) \<and>
    (\<forall>h. (case li_list li h of None \<Rightarrow> {} | Some l \<Rightarrow> set l) = {e. li_exit li e = Some h})"
proof -
  obtain hdrs li where hd: "headers_ok g hdrs" and li: "lib_processCFG g di = Some (Inr li)"
      "\<forall>b < countBB g. li_enclosing li ! b = enclosing_of g hdrs b"
      "li_exit li = (\<lambda>e. if e \<in> all_edges g then exit_of g hdrs e else None)"
      "li_list li = (\<lambda>h. let l = filter (\<lambda>e. li_exit li e = Some h) (edge_list g) in if l = [] then None else Some l)"
    using lib_processCFG_result [OF assms] by blast
  have call: "exit_of g hdrs e = None" if "e_kind e = CALL" for e using that by (simp add: exit_of_def)
  have ex: "li_exit li e = Some h \<longleftrightarrow> e \<in> all_edges g \<and> e_kind e \<noteq> CALL \<and> innermost g (\<lambda>h. leaves g h e) h" for e h
    using exit_innermost [OF assms hd, of e h] call [of e] unfolding li(3) by (cases "e_kind e = CALL") auto
  have edges: "set (edge_list g) = all_edges g" by (auto simp: edge_list_def all_edges_def bb_iter_def)
  have ls: "(case li_list li h of None \<Rightarrow> {} | Some l \<Rightarrow> set l) = {e. li_exit li e = Some h}" for h
  proof -
    have "(case li_list li h of None \<Rightarrow> {} | Some l \<Rightarrow> set l) = {e \<in> all_edges g. li_exit li e = Some h}"
      unfolding li(4) Let_def edges [symmetric] by (auto simp: filter_empty_conv)
    then show ?thesis using ex by auto
  qed
  show ?thesis
    using li(1,2) enclosing_innermost [OF assms hd] ex ls by (intro exI [of _ li] conjI) auto
qed

text \<open>The documentation of \<^verbatim>\<open>LOOP_EXIT_EDGE\<close> asks for the outer loop when several are left.
  The annotation never names the outer one of two loops that the edge leaves.\<close>

lemma exit_never_outer:
  assumes "loop_input g di" "lib_processCFG g di = Some (Inr li)"
    and "leaves g outer e" "leaves g inn e" "inner g inn outer"
  shows "li_exit li e \<noteq> Some outer"
proof
  assume "li_exit li e = Some outer"
  then have "innermost g (\<lambda>h. leaves g h e) outer" using lib_processCFG_loops [OF assms(1)] assms(2) by auto
  then have "inn \<in> dom_set g outer" using assms(4) by (simp add: innermost_def)
  moreover have "loop_header g outer" using assms(3) by (simp add: leaves_def in_body_def)
  then have "reachable g outer" using header_props [OF assms(1)] by blast
  ultimately show False using dom_antisym assms(5) by (auto simp: inner_def)
qed

end
