(* ===== verification/Ilp_System.thy ===== *)
theory Ilp_System
  imports Otawa_Base
begin

text \<open>
  Integer linear systems (otawa/include/otawa/ilp/System.h, Constraint.h, Var.h and their
  implementation for \<^verbatim>\<open>lp_solve\<close>, otawa/src/lp_solve5/lp_solve5.cpp): variables and constraints
  are objects named by a number that stands for their address, a constraint is a list of
  factors, a comparator and a constant, and \<^verbatim>\<open>solve\<close> hands a matrix to the solver.

  Coefficients are \<open>int\<close>: the sources store integers in \<^verbatim>\<open>double\<close>, which is exact below 2^53.
  The solver is a parameter; \<open>lp_solver_ok\<close> states what its manual promises of an optimal result.
\<close>

subsection \<open>Data\<close>

datatype comparator = LT | LE | EQ | GE | GT

datatype var_type = NO_TYPE | INT_TYPE | BIN_TYPE | FLOAT_TYPE

type_synonym ilp_var = nat

record constr =
  c_label :: string
  c_cmp :: comparator
  c_cst :: int
  c_facts :: "(ilp_var \<times> int) list"

record ilp_sys =
  s_vars :: "(ilp_var \<times> nat) list"
  s_conss :: "(nat \<times> constr) list"
  s_ofun :: constr
  s_cols :: nat
  s_rows :: nat
  s_val :: int
  s_values :: "nat \<Rightarrow> int"
  s_new :: nat

subsection \<open>Operations\<close>

definition new_constr :: "string \<Rightarrow> comparator \<Rightarrow> int \<Rightarrow> constr" where
  "new_constr label cmp constant = \<lparr>c_label = label, c_cmp = cmp, c_cst = constant, c_facts = []\<rparr>"

definition sys_new :: "bool \<Rightarrow> ilp_sys" where
  "sys_new mx = \<lparr>s_vars = [], s_conss = [], s_ofun = new_constr [] (if mx then GT else LT) 0, s_cols = 0,
     s_rows = 0, s_val = 0, s_values = (\<lambda>_. 0), s_new = 0\<rparr>"

definition newVar :: "ilp_sys \<Rightarrow> ilp_var \<times> ilp_sys" where
  "newVar s = (s_new s, s\<lparr>s_new := Suc (s_new s)\<rparr>)"

definition findVar :: "ilp_sys \<Rightarrow> ilp_var \<Rightarrow> nat option" where
  "findVar s v = map_of (s_vars s) v"

definition getVar :: "ilp_var \<Rightarrow> ilp_sys \<Rightarrow> nat \<times> ilp_sys" where
  "getVar v s = (case findVar s v of
     Some c \<Rightarrow> (c, s)
   | None \<Rightarrow> (Suc (s_cols s), s\<lparr>s_cols := Suc (s_cols s), s_vars := (v, Suc (s_cols s)) # s_vars s\<rparr>))"

text \<open>\<^verbatim>\<open>Constraint::add\<close>: the factor of the variable is updated or a new one goes first; without
  a variable the constant on the right is lowered.\<close>

fun has_fact :: "ilp_var \<Rightarrow> (ilp_var \<times> int) list \<Rightarrow> bool" where
  "has_fact v [] \<longleftrightarrow> False"
| "has_fact v ((w, k) # fs) \<longleftrightarrow> w = v \<or> has_fact v fs"

fun upd_fact :: "int \<Rightarrow> ilp_var \<Rightarrow> (ilp_var \<times> int) list \<Rightarrow> (ilp_var \<times> int) list" where
  "upd_fact coef v [] = []"
| "upd_fact coef v ((w, k) # fs) = (if w = v then (w, k + coef) # fs else (w, k) # upd_fact coef v fs)"

definition constr_add :: "int \<Rightarrow> ilp_var option \<Rightarrow> constr \<Rightarrow> constr" where
  "constr_add coef var c = (case var of
     None \<Rightarrow> c\<lparr>c_cst := c_cst c - coef\<rparr>
   | Some v \<Rightarrow> c\<lparr>c_facts := (if has_fact v (c_facts c) then upd_fact coef v (c_facts c) else (v, coef) # c_facts c)\<rparr>)"

definition touchVar :: "ilp_var option \<Rightarrow> ilp_sys \<Rightarrow> ilp_sys" where
  "touchVar var s = (case var of None \<Rightarrow> s | Some v \<Rightarrow> snd (getVar v s))"

definition cons_add :: "nat \<Rightarrow> int \<Rightarrow> ilp_var option \<Rightarrow> ilp_sys \<Rightarrow> ilp_sys" where
  "cons_add i coef var s = (touchVar var s)\<lparr>s_conss :=
     map (\<lambda>(j, c). (j, if j = i then constr_add coef var c else c)) (s_conss s)\<rparr>"

definition cons_sub :: "nat \<Rightarrow> int \<Rightarrow> ilp_var option \<Rightarrow> ilp_sys \<Rightarrow> ilp_sys" where
  "cons_sub i coef var s = cons_add i (- coef) var s"

definition addLeft :: "nat \<Rightarrow> int \<Rightarrow> ilp_var option \<Rightarrow> ilp_sys \<Rightarrow> ilp_sys" where
  "addLeft i coef var s = cons_add i coef var s"

definition addRight :: "nat \<Rightarrow> int \<Rightarrow> ilp_var option \<Rightarrow> ilp_sys \<Rightarrow> ilp_sys" where
  "addRight i coef var s = cons_add i (- coef) var s"

definition newConstraint :: "string \<Rightarrow> comparator \<Rightarrow> int \<Rightarrow> ilp_sys \<Rightarrow> nat \<times> ilp_sys" where
  "newConstraint label cmp constant s =
     (s_new s, s\<lparr>s_conss := (s_new s, new_constr label cmp constant) # s_conss s, s_rows := Suc (s_rows s),
        s_new := Suc (s_new s)\<rparr>)"

text \<open>\<^verbatim>\<open>delete cons\<close>: the constraint leaves the list, the count of rows stays.\<close>

definition removeConstraint :: "nat \<Rightarrow> ilp_sys \<Rightarrow> ilp_sys" where
  "removeConstraint i s = s\<lparr>s_conss := filter (\<lambda>(j, c). j \<noteq> i) (s_conss s)\<rparr>"

definition addObjectFunction :: "int \<Rightarrow> ilp_var option \<Rightarrow> ilp_sys \<Rightarrow> ilp_sys" where
  "addObjectFunction coef var s = (touchVar var s)\<lparr>s_ofun := constr_add coef var (s_ofun s)\<rparr>"

definition countVars :: "ilp_sys \<Rightarrow> nat" where "countVars s = s_cols s"
definition countConstraints :: "ilp_sys \<Rightarrow> nat" where "countConstraints s = s_rows s"
definition valueOf :: "ilp_var \<Rightarrow> ilp_sys \<Rightarrow> int \<times> ilp_sys" where
  "valueOf v s = (let (c, s') = getVar v s in (s_values s' c, s'))"

subsection \<open>The matrix handed to the solver\<close>

record lp_matrix =
  lp_cols :: nat
  lp_types :: "(nat \<times> var_type) list"
  lp_max :: bool
  lp_obj :: "int list"
  lp_rows :: "(int list \<times> comparator \<times> int) list"

datatype lp_result = OPTIMAL int "nat \<Rightarrow> int" | FAILED

definition fillRow :: "ilp_sys \<Rightarrow> constr \<Rightarrow> int list \<Rightarrow> int list" where
  "fillRow s c row = foldl (\<lambda>row (v, k). row[the (findVar s v) := k]) row (c_facts c)"

fun comps :: "comparator \<Rightarrow> comparator" where
  "comps LT = LE" | "comps LE = LE" | "comps EQ = EQ" | "comps GE = GE" | "comps GT = GE"

fun corr :: "comparator \<Rightarrow> int" where
  "corr LT = -1" | "corr LE = 0" | "corr EQ = 0" | "corr GE = 0" | "corr GT = 1"

text \<open>\<^verbatim>\<open>resetRow\<close> clears the row between two constraints, so each starts from zeroes. All
  variables made by \<^verbatim>\<open>newVar\<close> have the type \<open>INT_TYPE\<close>.\<close>

definition lp_of :: "ilp_sys \<Rightarrow> lp_matrix" where
  "lp_of s = (let zero = replicate (Suc (s_cols s)) 0 in \<lparr>
     lp_cols = s_cols s,
     lp_types = map (\<lambda>(v, c). (c, INT_TYPE)) (s_vars s),
     lp_max = (c_cmp (s_ofun s) \<in> {EQ, GE, GT}),
     lp_obj = (fillRow s (s_ofun s) zero)[0 := 0],
     lp_rows = map (\<lambda>(i, c). (fillRow s c zero, comps (c_cmp c), c_cst c + corr (c_cmp c))) (s_conss s)\<rparr>)"

definition sys_solve :: "(lp_matrix \<Rightarrow> lp_result) \<Rightarrow> bool \<Rightarrow> ilp_sys \<Rightarrow> bool \<times> ilp_sys" where
  "sys_solve solver cancelled s = (case solver (lp_of s) of
     OPTIMAL obj x \<Rightarrow> if cancelled then (False, s) else (True, s\<lparr>s_values := x, s_val := obj\<rparr>)
   | FAILED \<Rightarrow> (False, s))"

subsection \<open>Meaning\<close>

definition facts_val :: "(ilp_var \<Rightarrow> int) \<Rightarrow> (ilp_var \<times> int) list \<Rightarrow> int" where
  "facts_val val fs = (\<Sum>(v, k) \<leftarrow> fs. k * val v)"

text \<open>Left side minus right side of a constraint.\<close>

definition constr_val :: "(ilp_var \<Rightarrow> int) \<Rightarrow> constr \<Rightarrow> int" where
  "constr_val val c = facts_val val (c_facts c) - c_cst c"

fun cmp_zero :: "comparator \<Rightarrow> int \<Rightarrow> bool" where
  "cmp_zero LT x \<longleftrightarrow> x < 0" | "cmp_zero LE x \<longleftrightarrow> x \<le> 0" | "cmp_zero EQ x \<longleftrightarrow> x = 0"
| "cmp_zero GE x \<longleftrightarrow> 0 \<le> x" | "cmp_zero GT x \<longleftrightarrow> 0 < x"

definition constr_sat :: "(ilp_var \<Rightarrow> int) \<Rightarrow> constr \<Rightarrow> bool" where
  "constr_sat val c \<longleftrightarrow> cmp_zero (c_cmp c) (constr_val val c)"

definition sys_sat :: "(ilp_var \<Rightarrow> int) \<Rightarrow> ilp_sys \<Rightarrow> bool" where
  "sys_sat val s \<longleftrightarrow> (\<forall>(i, c) \<in> set (s_conss s). constr_sat val c)"

definition var_val :: "(ilp_var \<Rightarrow> int) \<Rightarrow> ilp_var option \<Rightarrow> int" where
  "var_val val var = (case var of None \<Rightarrow> 1 | Some v \<Rightarrow> val v)"

definition row_val :: "nat \<Rightarrow> int list \<Rightarrow> (nat \<Rightarrow> int) \<Rightarrow> int" where
  "row_val n row x = (\<Sum>i \<in> {1..n}. row ! i * x i)"

definition lp_feasible :: "lp_matrix \<Rightarrow> (nat \<Rightarrow> int) \<Rightarrow> bool" where
  "lp_feasible m x \<longleftrightarrow> (\<forall>i \<in> {1..lp_cols m}. 0 \<le> x i) \<and>
     (\<forall>(row, cmp, k) \<in> set (lp_rows m). cmp_zero cmp (row_val (lp_cols m) row x - k))"

definition lp_value :: "lp_matrix \<Rightarrow> (nat \<Rightarrow> int) \<Rightarrow> int" where
  "lp_value m x = row_val (lp_cols m) (lp_obj m) x"

definition lp_solver_ok :: "(lp_matrix \<Rightarrow> lp_result) \<Rightarrow> bool" where
  "lp_solver_ok solver \<longleftrightarrow> (\<forall>m obj sol. solver m = OPTIMAL obj sol \<longrightarrow>
     lp_feasible m sol \<and> obj = lp_value m sol \<and>
     (\<forall>x. lp_feasible m x \<longrightarrow> (if lp_max m then lp_value m x \<le> obj else obj \<le> lp_value m x)))"

subsection \<open>Well-formed systems\<close>

definition facts_wf :: "ilp_sys \<Rightarrow> constr \<Rightarrow> bool" where
  "facts_wf s c \<longleftrightarrow> distinct (map fst (c_facts c)) \<and> fst ` set (c_facts c) \<subseteq> fst ` set (s_vars s)"

definition sys_wf :: "ilp_sys \<Rightarrow> bool" where
  "sys_wf s \<longleftrightarrow> distinct (map fst (s_vars s)) \<and> map snd (s_vars s) = rev [1..<Suc (s_cols s)] \<and>
     facts_wf s (s_ofun s) \<and> (\<forall>(i, c) \<in> set (s_conss s). facts_wf s c \<and> i < s_new s) \<and>
     distinct (map fst (s_conss s)) \<and> (\<forall>v \<in> fst ` set (s_vars s). v < s_new s)"

lemma has_fact_iff: "has_fact v fs \<longleftrightarrow> v \<in> fst ` set fs"
  by (induction fs) force+

lemma upd_fact_keys: "map fst (upd_fact coef v fs) = map fst fs"
  by (induction fs) auto

lemma upd_fact_val:
  assumes "distinct (map fst fs)" "v \<in> fst ` set fs"
  shows "facts_val val (upd_fact coef v fs) = facts_val val fs + coef * val v"
  using assms
proof (induction fs)
  case (Cons f fs)
  obtain w k where f: "f = (w, k)" by (cases f)
  show ?case
  proof (cases "w = v")
    case True
    then show ?thesis by (simp add: f facts_val_def algebra_simps)
  next
    case False
    then show ?thesis using Cons by (force simp: f facts_val_def)
  qed
qed simp

lemma constr_add_val:
  assumes "distinct (map fst (c_facts c))"
  shows "constr_val val (constr_add coef var c) = constr_val val c + coef * var_val val var"
proof (cases var)
  case None
  then show ?thesis by (simp add: constr_val_def constr_add_def var_val_def)
next
  case (Some v)
  show ?thesis
  proof (cases "has_fact v (c_facts c)")
    case True
    then show ?thesis using upd_fact_val [OF assms] Some
      by (simp add: constr_val_def constr_add_def var_val_def has_fact_iff)
  next
    case False
    then show ?thesis using Some by (simp add: constr_val_def constr_add_def var_val_def facts_val_def)
  qed
qed

lemma constr_add_cmp [simp]: "c_cmp (constr_add coef var c) = c_cmp c"
  by (cases var) (simp_all add: constr_add_def)

lemma touchVar_fields [simp]:
  "s_conss (touchVar var s) = s_conss s" "s_ofun (touchVar var s) = s_ofun s" "s_new (touchVar var s) = s_new s"
  "s_rows (touchVar var s) = s_rows s"
  by (cases var; simp add: touchVar_def getVar_def split: option.split)+

lemma touchVar_vars:
  "fst ` set (s_vars (touchVar var s)) = fst ` set (s_vars s) \<union> set_option var"
proof (cases var)
  case (Some v)
  have "v \<in> fst ` set (s_vars s)" if "map_of (s_vars s) v = Some c" for c
    using map_of_SomeD [OF that] by force
  then show ?thesis using Some by (auto simp: touchVar_def getVar_def findVar_def split: option.split)
qed (simp add: touchVar_def)

lemma touchVar_wf:
  assumes "sys_wf s" "\<And>v. var = Some v \<Longrightarrow> v < s_new s"
  shows "sys_wf (touchVar var s)"
proof -
  have f: "facts_wf (touchVar var s) c" if "facts_wf s c" for c
    using that touchVar_vars [of var s] by (auto simp: facts_wf_def)
  have "distinct (map fst (s_vars (touchVar var s))) \<and>
      map snd (s_vars (touchVar var s)) = rev [1..<Suc (s_cols (touchVar var s))]"
  proof (cases "\<exists>v. var = Some v \<and> findVar s v = None")
    case True
    then obtain v where v: "var = Some v" "v \<notin> fst ` set (s_vars s)" by (auto simp: findVar_def map_of_eq_None_iff)
    then have t: "touchVar var s = s\<lparr>s_cols := Suc (s_cols s), s_vars := (v, Suc (s_cols s)) # s_vars s\<rparr>"
      using True by (auto simp: touchVar_def getVar_def)
    have "rev [1..<Suc (Suc n)] = Suc n # rev [1..<Suc n]" for n by simp
    then show ?thesis using assms(1) v unfolding t sys_wf_def by (simp del: upt_Suc)
  next
    case False
    then have "touchVar var s = s" by (auto simp: touchVar_def getVar_def split: option.split)
    then show ?thesis using assms(1) by (simp add: sys_wf_def)
  qed
  moreover have "\<forall>v \<in> fst ` set (s_vars (touchVar var s)). v < s_new s"
    using assms unfolding touchVar_vars by (auto simp: sys_wf_def)
  ultimately show ?thesis using assms(1) f by (auto simp: sys_wf_def)
qed

lemma constr_add_facts_wf:
  assumes "facts_wf s c" "set_option var \<subseteq> fst ` set (s_vars s)"
  shows "facts_wf s (constr_add coef var c)"
proof (cases var)
  case None
  then show ?thesis using assms by (simp add: constr_add_def facts_wf_def)
next
  case (Some v)
  have "fst ` set (upd_fact coef v fs) = fst ` set fs" for fs
    using upd_fact_keys [of coef v fs] by (metis list.set_map)
  then show ?thesis using assms Some
    by (simp add: constr_add_def facts_wf_def upd_fact_keys has_fact_iff)
qed

lemma facts_wf_more: "facts_wf (s\<lparr>s_conss := x\<rparr>) c = facts_wf s c" "facts_wf (s\<lparr>s_ofun := y\<rparr>) c = facts_wf s c"
  "facts_wf (s\<lparr>s_new := n\<rparr>) c = facts_wf s c" "facts_wf (s\<lparr>s_rows := n\<rparr>) c = facts_wf s c"
  by (simp_all add: facts_wf_def)

lemma cons_add_wf:
  assumes "sys_wf s" "\<And>v. var = Some v \<Longrightarrow> v < s_new s"
  shows "sys_wf (cons_add i coef var s)"
proof -
  let ?t = "touchVar var s"
  have w: "sys_wf ?t" by (rule touchVar_wf [OF assms])
  have "facts_wf ?t (constr_add coef var c)" if "facts_wf ?t c" for c
    using constr_add_facts_wf [OF that] touchVar_vars [of var s] by simp
  moreover have "fst \<circ> (\<lambda>(j, c). (j, if j = i then constr_add coef var c else c)) = fst" by auto
  ultimately show ?thesis using w by (auto simp: cons_add_def sys_wf_def facts_wf_more)
qed

lemma newConstraint_wf:
  assumes "sys_wf s" "newConstraint l cmp k s = (i, s')"
  shows "sys_wf s'"
proof -
  have s': "i = s_new s" "s' = s\<lparr>s_conss := (s_new s, new_constr l cmp k) # s_conss s, s_rows := Suc (s_rows s),
      s_new := Suc (s_new s)\<rparr>" using assms(2) by (auto simp: newConstraint_def)
  have "i \<notin> fst ` set (s_conss s)" using assms(1) s' by (auto simp: sys_wf_def)
  moreover have "facts_wf s' = facts_wf s" using s'(2) by (simp add: facts_wf_def fun_eq_iff)
  moreover have "facts_wf s (new_constr l cmp k)" by (simp add: facts_wf_def new_constr_def)
  ultimately show ?thesis using assms(1) s' by (auto simp: sys_wf_def less_Suc_eq)
qed

lemma newVar_wf:
  assumes "sys_wf s" "newVar s = (v, s')"
  shows "sys_wf s'"
proof -
  have s': "s' = s\<lparr>s_new := Suc (s_new s)\<rparr>" using assms(2) by (auto simp: newVar_def)
  then have "facts_wf s' = facts_wf s" by (simp add: facts_wf_def fun_eq_iff)
  then show ?thesis using assms(1) s' by (auto simp: sys_wf_def less_Suc_eq)
qed

lemma removeConstraint_wf:
  assumes "sys_wf s"
  shows "sys_wf (removeConstraint i s)"
proof -
  have "distinct (map fst (filter P cs))" if "distinct (map fst cs)" for P and cs :: "(nat \<times> constr) list"
    using that by (induction cs) auto
  then show ?thesis using assms by (auto simp: removeConstraint_def sys_wf_def facts_wf_more)
qed

lemma addObjectFunction_wf:
  assumes "sys_wf s" "\<And>v. var = Some v \<Longrightarrow> v < s_new s"
  shows "sys_wf (addObjectFunction coef var s)"
proof -
  have w: "sys_wf (touchVar var s)" by (rule touchVar_wf [OF assms])
  then have "facts_wf (touchVar var s) (constr_add coef var (s_ofun s))"
    using constr_add_facts_wf touchVar_vars [of var s] by (simp add: sys_wf_def)
  then show ?thesis using w by (auto simp: addObjectFunction_def sys_wf_def facts_wf_more)
qed

lemma sys_new_wf: "sys_wf (sys_new mx)"
  by (simp add: sys_wf_def sys_new_def facts_wf_def new_constr_def)

subsection \<open>A system as a map from constraints to their values\<close>

definition view :: "(ilp_var \<Rightarrow> int) \<Rightarrow> ilp_sys \<Rightarrow> nat \<Rightarrow> (comparator \<times> int) option" where
  "view val s i = map_option (\<lambda>c. (c_cmp c, constr_val val c)) (map_of (s_conss s) i)"

definition obj_val :: "(ilp_var \<Rightarrow> int) \<Rightarrow> ilp_sys \<Rightarrow> int" where
  "obj_val val s = facts_val val (c_facts (s_ofun s))"

lemma view_sat: "sys_wf s \<Longrightarrow> sys_sat val s \<longleftrightarrow> (\<forall>i cmp x. view val s i = Some (cmp, x) \<longrightarrow> cmp_zero cmp x)"
  by (fastforce simp: sys_sat_def view_def constr_sat_def sys_wf_def)

lemma view_newConstraint:
  "newConstraint l cmp k s = (i, s') \<Longrightarrow> view val s' = (view val s)(i \<mapsto> (cmp, - k))"
  by (auto simp: newConstraint_def view_def new_constr_def constr_val_def facts_val_def)

lemma view_cons_add:
  assumes "sys_wf s"
  shows "view val (cons_add i coef var s) =
    (view val s)(i := map_option (\<lambda>(cmp, x). (cmp, x + coef * var_val val var)) (view val s i))"
proof
  fix j
  have "map_of (map (\<lambda>(j, c). (j, if j = i then f c else c)) cs) j =
      (if j = i then map_option f (map_of cs j) else map_of cs j)" for f and cs :: "(nat \<times> constr) list"
    by (induction cs) auto
  moreover have "distinct (map fst (c_facts c))" if "map_of (s_conss s) j = Some c" for c
    using assms map_of_SomeD [OF that] by (auto simp: sys_wf_def facts_wf_def)
  ultimately show "view val (cons_add i coef var s) j =
      ((view val s)(i := map_option (\<lambda>(cmp, x). (cmp, x + coef * var_val val var)) (view val s i))) j"
    by (cases "map_of (s_conss s) j") (auto simp: view_def cons_add_def constr_add_val)
qed

lemma view_removeConstraint: "view val (removeConstraint i s) = (view val s)(i := None)"
proof
  fix j
  have "map_of (filter (\<lambda>(j, c). j \<noteq> i) cs) j = (if j = i then None else map_of cs j)" for cs :: "(nat \<times> constr) list"
    by (induction cs) auto
  then show "view val (removeConstraint i s) j = ((view val s)(i := None)) j"
    by (simp add: view_def removeConstraint_def)
qed

lemma view_newVar: "newVar s = (v, s') \<Longrightarrow> view val s' = view val s"
  by (auto simp: newVar_def view_def)

lemma view_addObjectFunction: "view val (addObjectFunction k var s) = view val s"
  by (simp add: view_def addObjectFunction_def fun_eq_iff)

lemma obj_val_addObjectFunction:
  assumes "sys_wf s"
  shows "obj_val val (addObjectFunction k (Some v) s) = obj_val val s + k * val v"
proof -
  have "distinct (map fst (c_facts (s_ofun s)))" using assms by (simp add: sys_wf_def facts_wf_def)
  from constr_add_val [OF this, of val k "Some v"] show ?thesis
    by (simp add: obj_val_def addObjectFunction_def constr_val_def var_val_def constr_add_def)
qed

lemma obj_val_same [simp]:
  "obj_val val (cons_add i k var s) = obj_val val s" "obj_val val (removeConstraint i s) = obj_val val s"
  "newConstraint l cmp k s = (i, s') \<Longrightarrow> obj_val val s' = obj_val val s"
  "newVar s = (v, s') \<Longrightarrow> obj_val val s' = obj_val val s"
  by (auto simp: obj_val_def cons_add_def removeConstraint_def newConstraint_def newVar_def)

text \<open>A constraint only reads its own variables.\<close>

lemma view_cong:
  assumes "sys_wf s" "\<And>v. v < s_new s \<Longrightarrow> val v = val' v"
  shows "view val s = view val' s" and "obj_val val s = obj_val val' s"
proof -
  have "facts_val val (c_facts c) = facts_val val' (c_facts c)" if "facts_wf s c" for c
  proof -
    have "val v = val' v" if "(v, k) \<in> set (c_facts c)" for v k
      using assms that \<open>facts_wf s c\<close> by (force simp: facts_wf_def sys_wf_def)
    then show ?thesis unfolding facts_val_def by (intro arg_cong [where f = sum_list] map_cong) auto
  qed
  moreover have "facts_wf s c" if "map_of (s_conss s) i = Some c" for i c
    using assms(1) map_of_SomeD [OF that] by (auto simp: sys_wf_def)
  ultimately show "view val s = view val' s" "obj_val val s = obj_val val' s"
    using assms(1) by (auto simp: view_def constr_val_def obj_val_def sys_wf_def fun_eq_iff option.map_comp
        intro!: option.map_cong)
qed

subsection \<open>The matrix has the same solutions\<close>

lemma row_val_update:
  assumes "length r = Suc n" "j \<in> {1..n}"
  shows "row_val n (r[j := k]) x = row_val n r x + (k - r ! j) * x j"
proof -
  have "row_val n (r[j := k]) x = (\<Sum>i \<in> {1..n}. r ! i * x i + (if i = j then (k - r ! j) * x j else 0))"
    unfolding row_val_def using assms by (intro sum.cong) (auto simp: nth_list_update algebra_simps)
  also have "\<dots> = row_val n r x + (\<Sum>i \<in> {1..n}. if i = j then (k - r ! j) * x j else 0)"
    by (simp add: row_val_def sum.distrib)
  also have "(\<Sum>i \<in> {1..n}. if i = j then (k - r ! j) * x j else 0) = (k - r ! j) * x j"
    using assms(2) by (subst sum.delta) auto
  finally show ?thesis .
qed

lemma sys_wf_columns:
  assumes "sys_wf s"
  shows "v \<in> fst ` set (s_vars s) \<Longrightarrow> \<exists>j \<in> {1..s_cols s}. findVar s v = Some j \<and> (v, j) \<in> set (s_vars s)"
    and "findVar s v = Some j \<Longrightarrow> findVar s w = Some j \<Longrightarrow> v = w"
    and "distinct (map snd (s_vars s))"
proof -
  have cols: "map snd (s_vars s) = rev [1..<Suc (s_cols s)]" and d: "distinct (map fst (s_vars s))"
    using assms by (auto simp: sys_wf_def)
  show ds: "distinct (map snd (s_vars s))" unfolding cols by (simp del: upt_Suc)
  have r: "j \<in> {1..s_cols s}" if "(v, j) \<in> set (s_vars s)" for v j
  proof -
    have "j \<in> set (map snd (s_vars s))" using that by force
    then show ?thesis unfolding cols by (auto simp del: upt_Suc)
  qed
  show "\<exists>j \<in> {1..s_cols s}. findVar s v = Some j \<and> (v, j) \<in> set (s_vars s)" if "v \<in> fst ` set (s_vars s)"
    using that r d by (force simp: findVar_def)
  show "v = w" if "findVar s v = Some j" "findVar s w = Some j"
  proof -
    have "(v, j) \<in> set (s_vars s)" "(w, j) \<in> set (s_vars s)" using that map_of_SomeD by (auto simp: findVar_def)
    moreover have "inj_on snd (set (s_vars s))" using ds by (simp add: distinct_map)
    ultimately show ?thesis using inj_onD [of snd _ "(v, j)" "(w, j)"] by simp
  qed
qed

lemma fillRow_val:
  assumes wf: "sys_wf s" and c: "facts_wf s c"
  shows "row_val (s_cols s) (fillRow s c (replicate (Suc (s_cols s)) 0)) x = facts_val (\<lambda>v. x (the (findVar s v))) (c_facts c)"
proof -
  let ?n = "s_cols s" and ?col = "\<lambda>v. the (findVar s v)"
  have all: "row_val ?n (foldl (\<lambda>row (v, k). row[?col v := k]) row fs) x = row_val ?n row x + facts_val (\<lambda>v. x (?col v)) fs"
    if "distinct (map fst fs)" "fst ` set fs \<subseteq> fst ` set (s_vars s)" "length row = Suc ?n"
      "\<forall>v \<in> fst ` set fs. row ! ?col v = 0" for fs row
    using that
  proof (induction fs arbitrary: row)
    case (Cons f fs)
    obtain v k where f: "f = (v, k)" by (cases f)
    obtain j where j: "j \<in> {1..?n}" "findVar s v = Some j" using sys_wf_columns(1) [OF wf, of v] Cons.prems(2) f by auto
    have "?col w \<noteq> j" if w: "w \<in> fst ` set fs" for w
    proof -
      obtain i where i: "findVar s w = Some i" using sys_wf_columns(1) [OF wf, of w] Cons.prems(2) w by auto
      moreover have "w \<noteq> v" using Cons.prems(1) w f by auto
      ultimately show ?thesis using sys_wf_columns(2) [OF wf, of w j v] j(2) by fastforce
    qed
    moreover have "row ! ?col w = 0" if "w \<in> fst ` set fs" for w using Cons.prems(4) that by auto
    ultimately have "\<forall>w \<in> fst ` set fs. (row[j := k]) ! ?col w = 0" by (metis nth_list_update_neq)
    then have "row_val ?n (foldl (\<lambda>row (v, k). row[?col v := k]) (row[j := k]) fs) x =
        row_val ?n (row[j := k]) x + facts_val (\<lambda>v. x (?col v)) fs"
      using Cons.IH [of "row[j := k]"] Cons.prems by simp
    moreover have "row ! j = 0" using Cons.prems(4) f j by simp
    ultimately show ?case using row_val_update [OF Cons.prems(3) j(1)] f j(2) by (simp add: facts_val_def)
  qed (simp add: facts_val_def)
  have "row_val ?n (fillRow s c (replicate (Suc ?n) 0)) x =
      row_val ?n (replicate (Suc ?n) 0) x + facts_val (\<lambda>v. x (?col v)) (c_facts c)"
  proof -
    have "replicate (Suc ?n) 0 ! ?col v = (0 :: int)" if "v \<in> fst ` set (c_facts c)" for v
    proof -
      have "v \<in> fst ` set (s_vars s)" using that c by (auto simp: facts_wf_def)
      then show ?thesis using sys_wf_columns(1) [OF wf, of v] by (auto simp del: replicate_Suc)
    qed
    then show ?thesis using all [of "c_facts c" "replicate (Suc ?n) 0"] c unfolding fillRow_def facts_wf_def
      by (simp del: replicate_Suc)
  qed
  moreover have "row_val ?n (replicate (Suc ?n) 0) x = 0"
    unfolding row_val_def by (rule sum.neutral) (auto simp del: replicate_Suc)
  ultimately show ?thesis by simp
qed

definition columns_of :: "ilp_sys \<Rightarrow> (ilp_var \<Rightarrow> int) \<Rightarrow> nat \<Rightarrow> int" where
  "columns_of s val j = val (the (map_of (map prod.swap (s_vars s)) j))"

lemma columns_of_var:
  assumes "sys_wf s" "v \<in> fst ` set (s_vars s)"
  shows "columns_of s val (the (findVar s v)) = val v"
proof -
  obtain j where j: "findVar s v = Some j" "(v, j) \<in> set (s_vars s)" using sys_wf_columns(1) [OF assms] by blast
  have "(j, v) \<in> set (map prod.swap (s_vars s))" using j(2) by force
  moreover have "distinct (map fst (map prod.swap (s_vars s)))"
    using sys_wf_columns(3) [OF assms(1)] by (simp add: comp_def)
  ultimately have "map_of (map prod.swap (s_vars s)) j = Some v" by simp
  then show ?thesis using j(1) by (simp add: columns_of_def)
qed

lemma facts_columns:
  assumes "sys_wf s" "facts_wf s c"
  shows "row_val (s_cols s) (fillRow s c (replicate (Suc (s_cols s)) 0)) (columns_of s val) = facts_val val (c_facts c)"
proof -
  have "columns_of s val (the (findVar s v)) = val v" if "(v, k) \<in> set (c_facts c)" for v k
    using assms(2) that by (intro columns_of_var [OF assms(1)]) (force simp: facts_wf_def)
  then show ?thesis unfolding fillRow_val [OF assms] facts_val_def
    by (intro arg_cong [where f = sum_list] map_cong) auto
qed

lemma corr_sat: "cmp_zero (comps cmp) (x - (k + corr cmp)) \<longleftrightarrow> cmp_zero cmp (x - k)"
  by (cases cmp) auto

text \<open>A valuation that satisfies the system is a feasible point with the same objective.\<close>

lemma lp_of_complete:
  assumes wf: "sys_wf s" and sat: "sys_sat val s" and pos: "\<And>v. v \<in> fst ` set (s_vars s) \<Longrightarrow> 0 \<le> val v"
  shows "lp_feasible (lp_of s) (columns_of s val) \<and> lp_value (lp_of s) (columns_of s val) = obj_val val s"
proof -
  let ?x = "columns_of s val" and ?n = "s_cols s"
  have cols: "set (map snd (s_vars s)) = {1..?n}" using wf by (auto simp: sys_wf_def simp del: upt_Suc set_map)
  have "0 \<le> ?x j" if "j \<in> {1..?n}" for j
  proof -
    have "j \<in> snd ` set (s_vars s)" using that cols by simp
    then obtain v where v: "(v, j) \<in> set (s_vars s)" by force
    then have "findVar s v = Some j" using wf by (auto simp: findVar_def sys_wf_def)
    moreover have "v \<in> fst ` set (s_vars s)" using v by force
    ultimately show ?thesis using columns_of_var [OF wf, of v val] pos by simp
  qed
  moreover have "cmp_zero (comps (c_cmp c)) (row_val ?n (fillRow s c (replicate (Suc ?n) 0)) ?x - (c_cst c + corr (c_cmp c)))"
    if "(i, c) \<in> set (s_conss s)" for i c
  proof -
    have "facts_wf s c" using wf that by (auto simp: sys_wf_def)
    moreover have "cmp_zero (c_cmp c) (facts_val val (c_facts c) - c_cst c)"
      using sat that by (auto simp: sys_sat_def constr_sat_def constr_val_def)
    ultimately show ?thesis using facts_columns [OF wf] corr_sat by simp
  qed
  ultimately have "lp_feasible (lp_of s) ?x"
    by (fastforce simp: lp_feasible_def lp_of_def Let_def simp del: replicate_Suc)
  moreover have "row_val ?n (r[0 := 0]) ?x = row_val ?n r ?x" for r
    unfolding row_val_def by (intro sum.cong) auto
  then have "lp_value (lp_of s) ?x = obj_val val s"
    using facts_columns [OF wf, of "s_ofun s" val] wf by (simp add: lp_value_def lp_of_def Let_def obj_val_def sys_wf_def del: replicate_Suc)
  ultimately show ?thesis by simp
qed

text \<open>And a feasible point gives such a valuation.\<close>

lemma lp_of_sound:
  assumes wf: "sys_wf s" and x: "lp_feasible (lp_of s) x"
  shows "sys_sat (\<lambda>v. x (the (findVar s v))) s \<and> lp_value (lp_of s) x = obj_val (\<lambda>v. x (the (findVar s v))) s"
proof -
  let ?n = "s_cols s" and ?val = "\<lambda>v. x (the (findVar s v))"
  have "constr_sat ?val c" if c: "(i, c) \<in> set (s_conss s)" for i c
  proof -
    have "(fillRow s c (replicate (Suc ?n) 0), comps (c_cmp c), c_cst c + corr (c_cmp c)) \<in> set (lp_rows (lp_of s))"
      using c by (force simp: lp_of_def Let_def simp del: replicate_Suc)
    then have "cmp_zero (comps (c_cmp c)) (row_val ?n (fillRow s c (replicate (Suc ?n) 0)) x - (c_cst c + corr (c_cmp c)))"
      using x by (fastforce simp: lp_feasible_def lp_of_def Let_def simp del: replicate_Suc)
    moreover have "facts_wf s c" using wf c by (auto simp: sys_wf_def)
    ultimately show ?thesis using corr_sat by (simp add: fillRow_val [OF wf] constr_sat_def constr_val_def del: replicate_Suc)
  qed
  moreover have "row_val ?n (r[0 := 0]) x = row_val ?n r x" for r
    unfolding row_val_def by (intro sum.cong) auto
  then have "lp_value (lp_of s) x = obj_val ?val s"
    using fillRow_val [OF wf, of "s_ofun s" x] wf by (simp add: lp_value_def lp_of_def Let_def obj_val_def sys_wf_def del: replicate_Suc)
  ultimately show ?thesis by (auto simp: sys_sat_def)
qed

text \<open>A deleted constraint is still counted.\<close>

lemma countConstraints_overcounts:
  assumes "sys_wf s" "newConstraint l cmp k s = (i, s')"
  shows "s_conss (removeConstraint i s') = s_conss s \<and> countConstraints (removeConstraint i s') = Suc (countConstraints s)"
proof -
  have "i \<notin> fst ` set (s_conss s)" using assms by (auto simp: sys_wf_def newConstraint_def)
  then have "filter (\<lambda>(j, c). j \<noteq> i) (s_conss s) = s_conss s" by (intro filter_True) force
  then show ?thesis using assms(2) by (auto simp: removeConstraint_def newConstraint_def countConstraints_def)
qed

text \<open>The optimum reported for a maximisation is an upper bound of every solution.\<close>

lemma solve_bounds:
  assumes "lp_solver_ok solver" "sys_solve solver cancelled s = (True, s')" "sys_wf s" "c_cmp (s_ofun s) = GT"
    and "sys_sat val s" "\<And>v. v \<in> fst ` set (s_vars s) \<Longrightarrow> 0 \<le> val v"
  shows "obj_val val s \<le> s_val s'"
proof -
  have f: "lp_feasible (lp_of s) (columns_of s val)" "lp_value (lp_of s) (columns_of s val) = obj_val val s"
    using lp_of_complete [OF assms(3,5,6)] by auto
  obtain obj x where o: "solver (lp_of s) = OPTIMAL obj x" "s_val s' = obj"
    using assms(2) by (auto simp: sys_solve_def split: lp_result.splits if_splits)
  have "lp_max (lp_of s)" using assms(4) by (simp add: lp_of_def Let_def)
  then show ?thesis using assms(1) o f unfolding lp_solver_ok_def by fastforce
qed

lemma ofun_cmp [simp]:
  "c_cmp (s_ofun (cons_add i k var s)) = c_cmp (s_ofun s)" "c_cmp (s_ofun (removeConstraint i s)) = c_cmp (s_ofun s)"
  "newConstraint l cmp k s = (i, s') \<Longrightarrow> c_cmp (s_ofun s') = c_cmp (s_ofun s)"
  "newVar s = (v, s') \<Longrightarrow> c_cmp (s_ofun s') = c_cmp (s_ofun s)"
  "c_cmp (s_ofun (addObjectFunction k var s)) = c_cmp (s_ofun s)"
  by (auto simp: cons_add_def removeConstraint_def newConstraint_def newVar_def addObjectFunction_def)

end
