(* ===== verification/Ipet_Program.thy ===== *)
theory Ipet_Program
  imports Otawa_Cfg
begin

text \<open>
  A program as the whole-program processors see it: the CFGs of the workspace, named by their
  position, and the CFG that each call edge enters (\<^verbatim>\<open>Edge::calledCFG\<close>, absent when the call is
  not resolved). \<^verbatim>\<open>CFGCollector\<close> (otawa/src/prog/cfg_CFGCollector.cpp) builds the list of
  CFGs that the processors visit; \<^verbatim>\<open>BBProcessor\<close> (otawa/src/prog/proc_BBProcessor.cpp,
  proc_CFGProcessor.cpp) visits their blocks.

  The executions of a program are traces of blocks, traversed edges and calls; their counts
  obey the flow laws that the IPET constraints state.
\<close>

subsection \<open>Programs and processors\<close>

record program =
  pg_cfgs :: "cfg list"
  pg_callee :: "edge \<Rightarrow> nat option"

definition cfg_of :: "program \<Rightarrow> nat \<Rightarrow> cfg" where
  "cfg_of pg k = pg_cfgs pg ! k"

definition calledCFG :: "program \<Rightarrow> edge \<Rightarrow> nat option res" where
  "calledCFG pg e = asserting (e_kind e = CALL) (Inr (pg_callee pg e))"

definition bb_processor :: "program \<Rightarrow> (nat \<Rightarrow> nat \<Rightarrow> 's \<Rightarrow> 's res) \<Rightarrow> nat list \<Rightarrow> 's \<Rightarrow> 's res" where
  "bb_processor pg processBB cfgs = rfold (\<lambda>k. rfold (processBB k) (bb_iter (cfg_of pg k))) cfgs"

subsection \<open>Collection of the CFGs\<close>

record collector =
  co_cfgs :: "nat list"
  co_mark :: "nat \<Rightarrow> bool"
  co_called_by :: "nat \<Rightarrow> edge list"

definition collect_edge :: "program \<Rightarrow> edge \<Rightarrow> collector \<Rightarrow> collector" where
  "collect_edge pg e co =
     (if e_kind e = CALL
      then (case pg_callee pg e of
          None \<Rightarrow> co
        | Some f \<Rightarrow>
            if \<not> co_mark co f
            then co\<lparr>co_cfgs := co_cfgs co @ [f], co_called_by := (co_called_by co)(f := co_called_by co f @ [e]),
                 co_mark := (co_mark co)(f := True)\<rparr>
            else co)
      else co)"

definition collect_cfg :: "program \<Rightarrow> nat \<Rightarrow> collector \<Rightarrow> collector" where
  "collect_cfg pg k co = fold (\<lambda>b. fold (collect_edge pg) (outs (cfg_of pg k) b)) (bb_iter (cfg_of pg k)) co"

partial_function (option) collect_loop :: "program \<Rightarrow> nat \<Rightarrow> collector \<Rightarrow> collector option" where
  "collect_loop pg i co =
     (if i < length (co_cfgs co) then collect_loop pg (i + 1) (collect_cfg pg (co_cfgs co ! i) co) else Some co)"

declare collect_loop.simps [code]

definition collector_new :: "nat \<Rightarrow> nat list \<Rightarrow> collector" where
  "collector_new entry added = \<lparr>co_cfgs = entry # added, co_mark = (\<lambda>_. False), co_called_by = (\<lambda>_. [])\<rparr>"

definition collector_processWorkSpace :: "program \<Rightarrow> nat \<Rightarrow> nat list \<Rightarrow> bool \<Rightarrow> collector option" where
  "collector_processWorkSpace pg entry added recursive =
     (let co = collector_new entry added in if recursive then collect_loop pg 0 co else Some co)"

subsection \<open>The collection holds what can be called\<close>

definition call_edges :: "program \<Rightarrow> nat \<Rightarrow> edge list" where
  "call_edges pg k = filter (\<lambda>e. e_kind e = CALL) (concat (map (outs (cfg_of pg k)) (bb_iter (cfg_of pg k))))"

definition calls_cfg :: "program \<Rightarrow> nat \<Rightarrow> nat \<Rightarrow> bool" where
  "calls_cfg pg k f \<longleftrightarrow> (\<exists>e \<in> set (call_edges pg k). pg_callee pg e = Some f)"

definition callees_bound :: "program \<Rightarrow> bool" where
  "callees_bound pg \<longleftrightarrow> (\<forall>k < length (pg_cfgs pg). \<forall>f. calls_cfg pg k f \<longrightarrow> f < length (pg_cfgs pg))"

lemma collect_cfg_edges: "collect_cfg pg k co = fold (collect_edge pg) (call_edges pg k) co"
proof -
  have skip: "fold (collect_edge pg) es co = fold (collect_edge pg) (filter (\<lambda>e. e_kind e = CALL) es) co" for es co
    by (induction es arbitrary: co) (auto simp: collect_edge_def)
  have "fold (\<lambda>b. fold (collect_edge pg) (outs (cfg_of pg k) b)) bs co =
      fold (collect_edge pg) (concat (map (outs (cfg_of pg k)) bs)) co" for bs
    by (induction bs arbitrary: co) simp_all
  then show ?thesis unfolding collect_cfg_def call_edges_def using skip by simp
qed

definition grows :: "collector \<Rightarrow> nat set \<Rightarrow> collector \<Rightarrow> bool" where
  "grows co fs co' \<longleftrightarrow> (\<exists>new. co_cfgs co' = co_cfgs co @ new \<and> distinct new \<and>
     set new = {f \<in> fs. \<not> co_mark co f} \<and> (\<forall>f. co_mark co' f \<longleftrightarrow> co_mark co f \<or> f \<in> fs))"

lemma grows_trans:
  assumes "grows co fs co1" "grows co1 gs co2"
  shows "grows co (fs \<union> gs) co2"
proof -
  obtain a b where a: "co_cfgs co1 = co_cfgs co @ a" "distinct a" "set a = {f \<in> fs. \<not> co_mark co f}"
      "\<forall>f. co_mark co1 f \<longleftrightarrow> co_mark co f \<or> f \<in> fs"
    and b: "co_cfgs co2 = co_cfgs co1 @ b" "distinct b" "set b = {f \<in> gs. \<not> co_mark co1 f}"
      "\<forall>f. co_mark co2 f \<longleftrightarrow> co_mark co1 f \<or> f \<in> gs"
    using assms unfolding grows_def by blast
  then show ?thesis unfolding grows_def by (intro exI [of _ "a @ b"]) auto
qed

lemma collect_edges_grows:
  "grows co {f. \<exists>e \<in> set es. e_kind e = CALL \<and> pg_callee pg e = Some f} (fold (collect_edge pg) es co)"
proof (induction es arbitrary: co)
  case Nil
  then show ?case by (simp add: grows_def)
next
  case (Cons e es)
  have g: "grows co {f. e_kind e = CALL \<and> pg_callee pg e = Some f} (collect_edge pg e co)"
  proof (cases "e_kind e = CALL \<and> (\<exists>f. pg_callee pg e = Some f \<and> \<not> co_mark co f)")
    case True
    then obtain f where "e_kind e = CALL" "pg_callee pg e = Some f" "\<not> co_mark co f" by blast
    then show ?thesis unfolding grows_def by (intro exI [of _ "[f]"]) (auto simp: collect_edge_def)
  next
    case False
    then show ?thesis by (auto simp: grows_def collect_edge_def split: option.split)
  qed
  have eq: "{f. e_kind e = CALL \<and> pg_callee pg e = Some f} \<union>
      {f. \<exists>e \<in> set es. e_kind e = CALL \<and> pg_callee pg e = Some f} =
      {f. \<exists>x \<in> set (e # es). e_kind x = CALL \<and> pg_callee pg x = Some f}" by auto
  show ?case using grows_trans [OF g Cons.IH] unfolding eq fold_simps .
qed

lemma collect_cfg_grows: "grows co {f. calls_cfg pg k f} (collect_cfg pg k co)"
proof -
  have "{f. \<exists>e \<in> set (call_edges pg k). e_kind e = CALL \<and> pg_callee pg e = Some f} = {f. calls_cfg pg k f}"
    by (auto simp: calls_cfg_def call_edges_def)
  then show ?thesis using collect_edges_grows [of co "call_edges pg k" pg] by (simp add: collect_cfg_edges)
qed

text \<open>State of the loop: the CFGs before \<open>i\<close> have been visited, the base of the list was given,
  the others have been marked.\<close>

definition collecting :: "program \<Rightarrow> nat list \<Rightarrow> nat \<Rightarrow> collector \<Rightarrow> bool" where
  "collecting pg base i co \<longleftrightarrow> (\<exists>new. co_cfgs co = base @ new \<and> distinct new \<and> (\<forall>f. co_mark co f \<longleftrightarrow> f \<in> set new)) \<and>
     i \<le> length (co_cfgs co) \<and> set (co_cfgs co) \<subseteq> {..<length (pg_cfgs pg)} \<and>
     (\<forall>f. co_mark co f \<longleftrightarrow> (\<exists>k \<in> set (take i (co_cfgs co)). calls_cfg pg k f))"

lemma collecting_step:
  assumes b: "callees_bound pg" and c: "collecting pg base i co" and i: "i < length (co_cfgs co)"
  defines "co' \<equiv> collect_cfg pg (co_cfgs co ! i) co"
  shows "collecting pg base (Suc i) co' \<and>
    card {f. f < length (pg_cfgs pg) \<and> \<not> co_mark co' f} + (length (co_cfgs co') - Suc i) <
    card {f. f < length (pg_cfgs pg) \<and> \<not> co_mark co f} + (length (co_cfgs co) - i)"
proof -
  let ?k = "co_cfgs co ! i" and ?n = "length (pg_cfgs pg)"
  obtain new0 where n0: "co_cfgs co = base @ new0" "distinct new0" "\<forall>f. co_mark co f \<longleftrightarrow> f \<in> set new0"
    using c by (auto simp: collecting_def)
  obtain new where n: "co_cfgs co' = co_cfgs co @ new" "distinct new" "set new = {f. calls_cfg pg ?k f \<and> \<not> co_mark co f}"
      "\<forall>f. co_mark co' f \<longleftrightarrow> co_mark co f \<or> calls_cfg pg ?k f"
    using collect_cfg_grows [of co pg ?k] by (auto simp: grows_def co'_def)
  have "?k \<in> set (co_cfgs co)" using i by simp
  then have k: "?k < ?n" using c by (auto simp: collecting_def)
  then have nb: "set new \<subseteq> {..<?n}" using b n(3) by (auto simp: callees_bound_def)
  have tk: "take (Suc i) (co_cfgs co') = take i (co_cfgs co) @ [?k]" using i n(1) by (simp add: take_Suc_conv_app_nth nth_append)
  have "collecting pg base (Suc i) co'"
    unfolding collecting_def tk
    using n0 n nb c i by (intro conjI exI [of _ "new0 @ new"]) (auto simp: collecting_def)
  note step = this
  have "{f. f < ?n \<and> \<not> co_mark co f} = {f. f < ?n \<and> \<not> co_mark co' f} \<union> set new"
    using n(3,4) nb by auto
  moreover have "{f. f < ?n \<and> \<not> co_mark co' f} \<inter> set new = {}" using n(3,4) by auto
  ultimately have "card {f. f < ?n \<and> \<not> co_mark co f} = card {f. f < ?n \<and> \<not> co_mark co' f} + card (set new)"
    by (simp add: card_Un_disjoint)
  moreover have "card (set new) = length new" using n(2) by (rule distinct_card)
  ultimately show ?thesis using i n(1) step by simp
qed

lemma collect_loop_ends:
  assumes "callees_bound pg" "collecting pg base i co"
  shows "\<exists>co'. collect_loop pg i co = Some co' \<and> collecting pg base (length (co_cfgs co')) co'"
  using assms(2)
proof (induction "card {f. f < length (pg_cfgs pg) \<and> \<not> co_mark co f} + (length (co_cfgs co) - i)"
    arbitrary: i co rule: less_induct)
  case less
  show ?case
  proof (cases "i < length (co_cfgs co)")
    case True
    then show ?thesis using collecting_step [OF assms(1) less.prems True] less.hyps
      by (subst collect_loop.simps) auto
  next
    case False
    then have "i = length (co_cfgs co)" using less.prems by (simp add: collecting_def)
    then show ?thesis using less.prems by (subst collect_loop.simps) simp
  qed
qed

text \<open>The recursive collection ends with a list closed under calls. It is without repetition
  when the given CFGs are never called.\<close>

lemma collector_closed:
  assumes "callees_bound pg" "set (entry # added) \<subseteq> {..<length (pg_cfgs pg)}"
  shows "\<exists>co. collector_processWorkSpace pg entry added True = Some co \<and> hd (co_cfgs co) = entry \<and>
    set (co_cfgs co) \<subseteq> {..<length (pg_cfgs pg)} \<and>
    (\<forall>k \<in> set (co_cfgs co). \<forall>f. calls_cfg pg k f \<longrightarrow> f \<in> set (co_cfgs co)) \<and>
    (distinct (entry # added) \<longrightarrow> (\<forall>k \<in> set (co_cfgs co). \<forall>f \<in> set (entry # added). \<not> calls_cfg pg k f) \<longrightarrow>
       distinct (co_cfgs co))"
proof -
  have "collecting pg (entry # added) 0 (collector_new entry added)"
    using assms(2) by (auto simp: collecting_def collector_new_def)
  from collect_loop_ends [OF assms(1) this] obtain co where co: "collect_loop pg 0 (collector_new entry added) = Some co"
      "collecting pg (entry # added) (length (co_cfgs co)) co" by blast
  then obtain new where new: "co_cfgs co = entry # added @ new" "distinct new" "\<forall>f. co_mark co f \<longleftrightarrow> f \<in> set new"
    unfolding collecting_def by (metis append_Cons)
  have m: "co_mark co f \<longleftrightarrow> (\<exists>k \<in> set (co_cfgs co). calls_cfg pg k f)" for f using co(2) by (simp add: collecting_def)
  have "f \<in> set (co_cfgs co)" if "k \<in> set (co_cfgs co)" "calls_cfg pg k f" for k f
  proof -
    have "f \<in> set new" using that m new(3) by blast
    then show ?thesis unfolding new(1) by simp
  qed
  moreover have "distinct (co_cfgs co)"
    if "distinct (entry # added)" "\<forall>k \<in> set (co_cfgs co). \<forall>f \<in> set (entry # added). \<not> calls_cfg pg k f"
  proof -
    have "set (entry # added) \<inter> set new = {}" using that(2) m new(3) by blast
    then show ?thesis using that(1) new(2) unfolding new(1) by simp
  qed
  moreover have "set (co_cfgs co) \<subseteq> {..<length (pg_cfgs pg)}" using co(2) by (simp add: collecting_def)
  moreover have "hd (co_cfgs co) = entry" unfolding new(1) by simp
  moreover have "collector_processWorkSpace pg entry added True = Some co"
    using co(1) by (simp add: collector_processWorkSpace_def)
  ultimately show ?thesis by blast
qed

text \<open>Every CFG that a chain of calls reaches is collected after finitely many steps.\<close>

lemma collector_reaches:
  assumes "callees_bound pg" "set (entry # added) \<subseteq> {..<length (pg_cfgs pg)}" "k \<in> set (entry # added)" "(calls_cfg pg)\<^sup>*\<^sup>* k f"
  shows "\<exists>co. collector_processWorkSpace pg entry added True = Some co \<and> f \<in> set (co_cfgs co)"
proof -
  have "collecting pg (entry # added) 0 (collector_new entry added)"
    using assms(2) by (auto simp: collecting_def collector_new_def)
  from collect_loop_ends [OF assms(1) this] obtain co where co: "collect_loop pg 0 (collector_new entry added) = Some co"
      "collecting pg (entry # added) (length (co_cfgs co)) co" by blast
  obtain new where "co_cfgs co = (entry # added) @ new" using co(2) unfolding collecting_def by blast
  then have k: "k \<in> set (co_cfgs co)" using assms(3) by auto
  have p: "collector_processWorkSpace pg entry added True = Some co" using co(1) by (simp add: collector_processWorkSpace_def)
  then have closed: "\<forall>k \<in> set (co_cfgs co). \<forall>f. calls_cfg pg k f \<longrightarrow> f \<in> set (co_cfgs co)"
    using collector_closed [OF assms(1,2)] by fastforce
  from assms(4) have "f \<in> set (co_cfgs co)" by induction (use k closed in blast)+
  then show ?thesis using p by blast
qed

text \<open>An entry that is called is collected twice: it is in the list before any mark is put.\<close>

lemma collector_repeats:
  assumes "callees_bound pg" "entry < length (pg_cfgs pg)" "calls_cfg pg entry entry"
  shows "\<exists>co. collector_processWorkSpace pg entry [] True = Some co \<and> \<not> distinct (co_cfgs co)"
proof -
  have "collecting pg [entry] 0 (collector_new entry [])"
    using assms(2) by (auto simp: collecting_def collector_new_def)
  from collect_loop_ends [OF assms(1) this] obtain co where co: "collect_loop pg 0 (collector_new entry []) = Some co"
      "collecting pg [entry] (length (co_cfgs co)) co" by blast
  then obtain new where new: "co_cfgs co = entry # new" "\<forall>f. co_mark co f \<longleftrightarrow> f \<in> set new"
    unfolding collecting_def by (metis append_Cons append_Nil)
  have "co_mark co entry \<longleftrightarrow> (\<exists>k \<in> set (co_cfgs co). calls_cfg pg k entry)" using co(2) by (simp add: collecting_def)
  then have "co_mark co entry" using assms(3) new(1) by simp
  then have "\<not> distinct (co_cfgs co)" using new by simp
  then show ?thesis using co(1) by (simp add: collector_processWorkSpace_def)
qed

subsection \<open>Executions\<close>

text \<open>
  A run of a CFG goes from its entry to its exit. A block with call edges runs one of the
  CFGs they enter before it is left.
\<close>

datatype item = At nat nat | Through edge | Enter edge

inductive walk :: "program \<Rightarrow> nat \<Rightarrow> nat \<Rightarrow> item list \<Rightarrow> bool"
  and calling :: "program \<Rightarrow> nat \<Rightarrow> nat \<Rightarrow> item list \<Rightarrow> bool" for pg where
  walk_end: "isExit (cfg_of pg k) b \<Longrightarrow> calling pg k b cs \<Longrightarrow> walk pg k b (At k b # cs)"
| walk_edge: "e \<in> set (outs (cfg_of pg k) b) \<Longrightarrow> e_kind e \<noteq> CALL \<Longrightarrow> calling pg k b cs \<Longrightarrow>
    walk pg k (e_tgt e) t \<Longrightarrow> walk pg k b (At k b # cs @ Through e # t)"
| calling_none: "\<forall>e \<in> set (outs (cfg_of pg k) b). e_kind e \<noteq> CALL \<Longrightarrow> calling pg k b []"
| calling_one: "e \<in> set (outs (cfg_of pg k) b) \<Longrightarrow> e_kind e = CALL \<Longrightarrow> pg_callee pg e = Some f \<Longrightarrow>
    walk pg f 0 t \<Longrightarrow> calling pg k b (Enter e # t)"

inductive_cases calling_cases: "calling pg k b cs"

definition run :: "program \<Rightarrow> nat \<Rightarrow> item list \<Rightarrow> bool" where
  "run pg k t \<longleftrightarrow> walk pg k 0 t"

definition wf_program :: "program \<Rightarrow> bool" where
  "wf_program pg \<longleftrightarrow>
     (\<forall>k < length (pg_cfgs pg). let g = cfg_of pg k in wf_cfg g \<and> ins g 0 = [] \<and>
        (\<forall>e \<in> set (outs g (countBB g - 1)). e_kind e = CALL)) \<and>
     (\<forall>k < length (pg_cfgs pg). \<forall>l < length (pg_cfgs pg). \<forall>b < countBB (cfg_of pg k). \<forall>c < countBB (cfg_of pg l).
        \<forall>e \<in> set (outs (cfg_of pg k) b) \<inter> set (outs (cfg_of pg l) c). k = l) \<and>
     callees_bound pg"

lemma wf_program_cfg:
  assumes "wf_program pg" "k < length (pg_cfgs pg)"
  shows "wf_cfg (cfg_of pg k)" "wf_edges (cfg_of pg k)" "ins (cfg_of pg k) 0 = []" "0 < countBB (cfg_of pg k)"
    "b < countBB (cfg_of pg k) \<Longrightarrow> isExit (cfg_of pg k) b \<longleftrightarrow> b = countBB (cfg_of pg k) - 1"
    "\<forall>e \<in> set (outs (cfg_of pg k) (countBB (cfg_of pg k) - 1)). e_kind e = CALL"
  using assms by (auto simp: wf_program_def wf_cfg_def Let_def)

lemma wf_edges_src: "wf_edges g \<Longrightarrow> b < countBB g \<Longrightarrow> e \<in> set (outs g b) \<Longrightarrow> e_src e = b"
  unfolding wf_edges_def by blast

lemma wf_program_owner:
  assumes "wf_program pg" "k < length (pg_cfgs pg)" "l < length (pg_cfgs pg)" "b < countBB (cfg_of pg k)"
    "c < countBB (cfg_of pg l)" "e \<in> set (outs (cfg_of pg k) b)" "e \<in> set (outs (cfg_of pg l) c)"
  shows "k = l \<and> b = c"
proof -
  have "k = l" using assms unfolding wf_program_def by blast
  moreover have "b = c"
    using wf_edges_src [OF wf_program_cfg(2) [OF assms(1,2)] assms(4,6)]
      wf_edges_src [OF wf_program_cfg(2) [OF assms(1,3)] assms(5,7)] by simp
  ultimately show ?thesis by simp
qed

lemma wf_program_edge:
  assumes "wf_program pg" "k < length (pg_cfgs pg)" "b < countBB (cfg_of pg k)" "e \<in> set (outs (cfg_of pg k) b)" "e_kind e \<noteq> CALL"
  shows "e_src e = b \<and> e_tgt e < countBB (cfg_of pg k) \<and> e \<in> set (ins (cfg_of pg k) (e_tgt e))"
  using assms wf_program_cfg(2) [OF assms(1,2)] unfolding wf_edges_def by blast

lemma wf_program_callee:
  assumes "wf_program pg" "k < length (pg_cfgs pg)" "b < countBB (cfg_of pg k)" "e \<in> set (outs (cfg_of pg k) b)" "e_kind e = CALL"
    "pg_callee pg e = Some f"
  shows "f < length (pg_cfgs pg) \<and> calls_cfg pg k f"
proof -
  have "e \<in> set (call_edges pg k)" using assms(3-5) by (auto simp: call_edges_def bb_iter_def)
  then have "calls_cfg pg k f" using assms(6) by (auto simp: calls_cfg_def)
  then show ?thesis using assms(1,2) by (auto simp: wf_program_def callees_bound_def)
qed

subsection \<open>Flow laws\<close>

definition at :: "item list \<Rightarrow> nat \<Rightarrow> nat \<Rightarrow> nat" where
  "at t k b = count_list t (At k b)"

definition through :: "item list \<Rightarrow> edge list \<Rightarrow> nat" where
  "through t es = (\<Sum>e \<leftarrow> es. count_list t (Through e))"

definition entered :: "item list \<Rightarrow> edge list \<Rightarrow> nat" where
  "entered t es = (\<Sum>e \<leftarrow> es. count_list t (Enter e))"

text \<open>The number of calls of a CFG in a trace.\<close>

definition calls_to :: "program \<Rightarrow> item list \<Rightarrow> nat \<Rightarrow> nat" where
  "calls_to pg t f = length (filter (\<lambda>i. case i of Enter e \<Rightarrow> pg_callee pg e = Some f | _ \<Rightarrow> False) t)"

lemma count_nil [simp]: "at [] k b = 0" "through [] es = 0" "entered [] es = 0" "calls_to pg [] f = 0"
  by (simp_all add: at_def through_def entered_def calls_to_def)

lemma count_append [simp]: "at (s @ t) k b = at s k b + at t k b" "through (s @ t) es = through s es + through t es"
  "entered (s @ t) es = entered s es + entered t es" "calls_to pg (s @ t) f = calls_to pg s f + calls_to pg t f"
  by (simp_all add: at_def through_def entered_def calls_to_def sum_list_addf)

lemma sum_list_eq_indicator: "distinct es \<Longrightarrow> (\<Sum>x \<leftarrow> es. if e = x then 1 else 0) = (if e \<in> set es then 1 else (0 :: nat))"
  by (induction es) auto

lemma count_cons [simp]:
  "at (i # t) k b = (if i = At k b then 1 else 0) + at t k b"
  "distinct es \<Longrightarrow> through (i # t) es = (if \<exists>e \<in> set es. i = Through e then 1 else 0) + through t es"
  "distinct es \<Longrightarrow> entered (i # t) es = (if \<exists>e \<in> set es. i = Enter e then 1 else 0) + entered t es"
  "calls_to pg (i # t) f = (if \<exists>e. i = Enter e \<and> pg_callee pg e = Some f then 1 else 0) + calls_to pg t f"
proof -
  assume d: "distinct es"
  have "through (i # t) es = (\<Sum>x \<leftarrow> es. (if i = Through x then 1 else 0) + count_list t (Through x))"
    unfolding through_def by (intro arg_cong [where f = sum_list] map_cong) auto
  also have "\<dots> = (\<Sum>x \<leftarrow> es. if i = Through x then 1 else 0) + through t es"
    by (simp add: through_def sum_list_addf)
  also have "(\<Sum>x \<leftarrow> es. if i = Through x then 1 else 0) = (if \<exists>e \<in> set es. i = Through e then 1 else (0 :: nat))"
    using sum_list_eq_indicator [OF d] by (cases i) auto
  finally show "through (i # t) es = (if \<exists>e \<in> set es. i = Through e then 1 else 0) + through t es" .
  have "entered (i # t) es = (\<Sum>x \<leftarrow> es. (if i = Enter x then 1 else 0) + count_list t (Enter x))"
    unfolding entered_def by (intro arg_cong [where f = sum_list] map_cong) auto
  also have "\<dots> = (\<Sum>x \<leftarrow> es. if i = Enter x then 1 else 0) + entered t es"
    by (simp add: entered_def sum_list_addf)
  also have "(\<Sum>x \<leftarrow> es. if i = Enter x then 1 else 0) = (if \<exists>e \<in> set es. i = Enter e then 1 else (0 :: nat))"
    using sum_list_eq_indicator [OF d] by (cases i) auto
  finally show "entered (i # t) es = (if \<exists>e \<in> set es. i = Enter e then 1 else 0) + entered t es" .
qed (auto simp: at_def calls_to_def split: item.split)

definition flow_outs :: "program \<Rightarrow> nat \<Rightarrow> nat \<Rightarrow> edge list" where
  "flow_outs pg k b = filter (\<lambda>e. e_kind e \<noteq> CALL) (outs (cfg_of pg k) b)"

definition call_outs :: "program \<Rightarrow> nat \<Rightarrow> nat \<Rightarrow> edge list" where
  "call_outs pg k b = filter (\<lambda>e. e_kind e = CALL) (outs (cfg_of pg k) b)"

abbreviation block :: "program \<Rightarrow> nat \<Rightarrow> nat \<Rightarrow> bool" where
  "block pg k b \<equiv> k < length (pg_cfgs pg) \<and> b < countBB (cfg_of pg k)"

lemma distinct_outs:
  assumes "wf_program pg" "block pg k b"
  shows "distinct (outs (cfg_of pg k) b)" "distinct (ins (cfg_of pg k) b)" "distinct (flow_outs pg k b)" "distinct (call_outs pg k b)"
  using assms wf_program_cfg(2) [OF assms(1), of k] by (auto simp: wf_edges_def flow_outs_def call_outs_def)

lemma in_ins_iff:
  assumes wf: "wf_program pg" and k: "block pg k b" and e: "e \<in> set (outs (cfg_of pg k) b)" "e_kind e \<noteq> CALL" and l: "block pg l x"
  shows "e \<in> set (ins (cfg_of pg l) x) \<longleftrightarrow> l = k \<and> x = e_tgt e"
proof
  assume i: "e \<in> set (ins (cfg_of pg l) x)"
  have "wf_edges (cfg_of pg l)" using wf_program_cfg(2) [OF wf] l by blast
  then have s: "e_tgt e = x" "e_src e < countBB (cfg_of pg l)" "e \<in> set (outs (cfg_of pg l) (e_src e))"
    using i l unfolding wf_edges_def by blast+
  then show "l = k \<and> x = e_tgt e" using wf_program_owner [OF wf _ _ _ _ s(3) e(1)] k l by blast
next
  assume "l = k \<and> x = e_tgt e"
  then show "e \<in> set (ins (cfg_of pg l) x)" using wf_program_edge [OF wf _ _ e] k by blast
qed

lemma input_law:
  assumes wf: "wf_program pg"
  shows "walk pg k b t \<Longrightarrow> block pg k b \<Longrightarrow> \<forall>l x. block pg l x \<longrightarrow>
      at t l x = (if l = k \<and> x = b then 1 else 0) + through t (ins (cfg_of pg l) x) + (if x = 0 then calls_to pg t l else 0)"
    and "calling pg k b cs \<Longrightarrow> block pg k b \<Longrightarrow> \<forall>l x. block pg l x \<longrightarrow>
      at cs l x = through cs (ins (cfg_of pg l) x) + (if x = 0 then calls_to pg cs l else 0)"
proof (induction rule: walk_calling.inducts)
  case (walk_end k b cs)
  then show ?case using distinct_outs(2) [OF wf] by auto
next
  case (walk_edge e k b cs t)
  note e = \<open>e \<in> set (outs (cfg_of pg k) b)\<close> \<open>e_kind e \<noteq> CALL\<close>
  have "block pg k (e_tgt e)" using wf_program_edge [OF wf _ _ e] walk_edge.prems by blast
  then have IH: "\<forall>l x. block pg l x \<longrightarrow> at t l x = (if l = k \<and> x = e_tgt e then 1 else 0) +
      through t (ins (cfg_of pg l) x) + (if x = 0 then calls_to pg t l else 0)" using walk_edge.IH by blast
  show ?case
  proof (intro allI impI)
    fix l x assume lx: "block pg l x"
    have "through (Through e # t) (ins (cfg_of pg l) x) = (if l = k \<and> x = e_tgt e then 1 else 0) + through t (ins (cfg_of pg l) x)"
      using in_ins_iff [OF wf walk_edge.prems e lx] distinct_outs(2) [OF wf lx] by auto
    moreover have "at cs l x = through cs (ins (cfg_of pg l) x) + (if x = 0 then calls_to pg cs l else 0)"
      using walk_edge walk_edge.prems lx by blast
    moreover have "at t l x = (if l = k \<and> x = e_tgt e then 1 else 0) + through t (ins (cfg_of pg l) x) +
        (if x = 0 then calls_to pg t l else 0)" using IH lx by blast
    ultimately show "at (At k b # cs @ Through e # t) l x = (if l = k \<and> x = b then 1 else 0) +
        through (At k b # cs @ Through e # t) (ins (cfg_of pg l) x) +
        (if x = 0 then calls_to pg (At k b # cs @ Through e # t) l else 0)"
      using distinct_outs(2) [OF wf lx] by simp
  qed
next
  case (calling_one e k b f t)
  note e = \<open>e \<in> set (outs (cfg_of pg k) b)\<close> \<open>e_kind e = CALL\<close> \<open>pg_callee pg e = Some f\<close>
  have f: "block pg f 0" using wf_program_callee [OF wf _ _ e] calling_one.prems wf_program_cfg(4) [OF wf] by blast
  show ?case using calling_one.IH f e(3) distinct_outs(2) [OF wf] by auto
qed simp

lemma output_law:
  assumes wf: "wf_program pg"
  shows "walk pg k b t \<Longrightarrow> block pg k b \<Longrightarrow> \<forall>l x. block pg l x \<longrightarrow> \<not> isExit (cfg_of pg l) x \<longrightarrow>
      at t l x = through t (flow_outs pg l x)"
    and "calling pg k b cs \<Longrightarrow> block pg k b \<Longrightarrow> \<forall>l x. block pg l x \<longrightarrow> \<not> isExit (cfg_of pg l) x \<longrightarrow>
      at cs l x = through cs (flow_outs pg l x)"
proof (induction rule: walk_calling.inducts)
  case (walk_end k b cs)
  then show ?case using distinct_outs(3) [OF wf] by auto
next
  case (walk_edge e k b cs t)
  note e = \<open>e \<in> set (outs (cfg_of pg k) b)\<close> \<open>e_kind e \<noteq> CALL\<close>
  have b': "block pg k (e_tgt e)" using wf_program_edge [OF wf _ _ e] walk_edge.prems by blast
  show ?case
  proof (intro allI impI)
    fix l x assume lx: "block pg l x" and nx: "\<not> isExit (cfg_of pg l) x"
    have "e \<in> set (flow_outs pg l x) \<longleftrightarrow> l = k \<and> x = b"
      using wf_program_owner [OF wf _ _ _ _ e(1), of l x] walk_edge.prems e lx
      by (auto simp: flow_outs_def)
    then have "through (Through e # t) (flow_outs pg l x) = (if l = k \<and> x = b then 1 else 0) + through t (flow_outs pg l x)"
      using distinct_outs(3) [OF wf lx] by auto
    moreover have "at cs l x = through cs (flow_outs pg l x)" "at t l x = through t (flow_outs pg l x)"
      using walk_edge.IH walk_edge.prems b' lx nx by blast+
    ultimately show "at (At k b # cs @ Through e # t) l x = through (At k b # cs @ Through e # t) (flow_outs pg l x)"
      using distinct_outs(3) [OF wf lx] by simp
  qed
next
  case (calling_one e k b f t)
  note e = \<open>e \<in> set (outs (cfg_of pg k) b)\<close> \<open>e_kind e = CALL\<close> \<open>pg_callee pg e = Some f\<close>
  have f: "block pg f 0" using wf_program_callee [OF wf _ _ e] calling_one.prems wf_program_cfg(4) [OF wf] by blast
  show ?case using calling_one.IH f distinct_outs(3) [OF wf] by auto
qed simp

lemma call_law:
  assumes wf: "wf_program pg"
  shows "walk pg k b t \<Longrightarrow> block pg k b \<Longrightarrow> \<forall>l x. block pg l x \<longrightarrow> call_outs pg l x \<noteq> [] \<longrightarrow>
      at t l x = entered t (call_outs pg l x)"
    and "calling pg k b cs \<Longrightarrow> block pg k b \<Longrightarrow> \<forall>l x. block pg l x \<longrightarrow> call_outs pg l x \<noteq> [] \<longrightarrow>
      (if l = k \<and> x = b then 1 else 0) + at cs l x = entered cs (call_outs pg l x)"
proof (induction rule: walk_calling.inducts)
  case (walk_end k b cs)
  show ?case
  proof (intro allI impI)
    fix l x assume lx: "block pg l x" and nx: "call_outs pg l x \<noteq> []"
    have "(if l = k \<and> x = b then 1 else 0) + at cs l x = entered cs (call_outs pg l x)"
      using walk_end.IH walk_end.prems lx nx by blast
    then show "at (At k b # cs) l x = entered (At k b # cs) (call_outs pg l x)"
      using distinct_outs(4) [OF wf lx] by auto
  qed
next
  case (walk_edge e k b cs t)
  note e = \<open>e \<in> set (outs (cfg_of pg k) b)\<close> \<open>e_kind e \<noteq> CALL\<close>
  have b': "block pg k (e_tgt e)" using wf_program_edge [OF wf _ _ e] walk_edge.prems by blast
  show ?case
  proof (intro allI impI)
    fix l x assume lx: "block pg l x" and nx: "call_outs pg l x \<noteq> []"
    have "(if l = k \<and> x = b then 1 else 0) + at cs l x = entered cs (call_outs pg l x)"
      "at t l x = entered t (call_outs pg l x)"
      using walk_edge.IH walk_edge.prems b' lx nx by blast+
    then show "at (At k b # cs @ Through e # t) l x = entered (At k b # cs @ Through e # t) (call_outs pg l x)"
      using distinct_outs(4) [OF wf lx] by auto
  qed
next
  case (calling_none k b)
  then show ?case by (auto simp: call_outs_def filter_empty_conv)
next
  case (calling_one e k b f t)
  note e = \<open>e \<in> set (outs (cfg_of pg k) b)\<close> \<open>e_kind e = CALL\<close> \<open>pg_callee pg e = Some f\<close>
  have f: "block pg f 0" using wf_program_callee [OF wf _ _ e] calling_one.prems wf_program_cfg(4) [OF wf] by blast
  show ?case
  proof (intro allI impI)
    fix l x assume lx: "block pg l x" and nx: "call_outs pg l x \<noteq> []"
    have "e \<in> set (call_outs pg l x) \<longleftrightarrow> l = k \<and> x = b"
      using wf_program_owner [OF wf _ _ _ _ e(1), of l x] calling_one.prems e(1,2) lx
      by (auto simp: call_outs_def)
    moreover have "at t l x = entered t (call_outs pg l x)" using calling_one.IH f lx nx by blast
    ultimately show "(if l = k \<and> x = b then 1 else 0) + at (Enter e # t) l x = entered (Enter e # t) (call_outs pg l x)"
      using distinct_outs(4) [OF wf lx] by auto
  qed
qed

text \<open>A run stays in a set of CFGs closed under calls.\<close>

lemma walk_within:
  assumes wf: "wf_program pg" and C: "\<forall>k \<in> C. \<forall>f. calls_cfg pg k f \<longrightarrow> f \<in> C" "C \<subseteq> {..<length (pg_cfgs pg)}"
  shows "walk pg k b t \<Longrightarrow> k \<in> C \<Longrightarrow> b < countBB (cfg_of pg k) \<Longrightarrow> \<forall>i \<in> set t. case i of
      At l x \<Rightarrow> l \<in> C \<and> x < countBB (cfg_of pg l)
    | Through e \<Rightarrow> \<exists>l \<in> C. \<exists>x < countBB (cfg_of pg l). e \<in> set (flow_outs pg l x)
    | Enter e \<Rightarrow> \<exists>l \<in> C. \<exists>x < countBB (cfg_of pg l). e \<in> set (call_outs pg l x)"
    and "calling pg k b cs \<Longrightarrow> k \<in> C \<Longrightarrow> b < countBB (cfg_of pg k) \<Longrightarrow> \<forall>i \<in> set cs. case i of
      At l x \<Rightarrow> l \<in> C \<and> x < countBB (cfg_of pg l)
    | Through e \<Rightarrow> \<exists>l \<in> C. \<exists>x < countBB (cfg_of pg l). e \<in> set (flow_outs pg l x)
    | Enter e \<Rightarrow> \<exists>l \<in> C. \<exists>x < countBB (cfg_of pg l). e \<in> set (call_outs pg l x)"
proof (induction rule: walk_calling.inducts)
  case (walk_edge e k b cs t)
  note e = \<open>e \<in> set (outs (cfg_of pg k) b)\<close> \<open>e_kind e \<noteq> CALL\<close>
  have k: "k < length (pg_cfgs pg)" using C(2) walk_edge.prems by blast
  have "e_tgt e < countBB (cfg_of pg k)" using wf_program_edge [OF wf k _ e] walk_edge.prems by blast
  then have "\<forall>i \<in> set cs \<union> set t. case i of
      At l x \<Rightarrow> l \<in> C \<and> x < countBB (cfg_of pg l)
    | Through e \<Rightarrow> \<exists>l \<in> C. \<exists>x < countBB (cfg_of pg l). e \<in> set (flow_outs pg l x)
    | Enter e \<Rightarrow> \<exists>l \<in> C. \<exists>x < countBB (cfg_of pg l). e \<in> set (call_outs pg l x)"
    using walk_edge.IH walk_edge.prems by blast
  moreover have "e \<in> set (flow_outs pg k b)" using e by (simp add: flow_outs_def)
  ultimately show ?case using walk_edge.prems by auto
next
  case (calling_one e k b f t)
  note e = \<open>e \<in> set (outs (cfg_of pg k) b)\<close> \<open>e_kind e = CALL\<close> \<open>pg_callee pg e = Some f\<close>
  have k: "k < length (pg_cfgs pg)" using C(2) calling_one.prems by blast
  have "f < length (pg_cfgs pg)" "calls_cfg pg k f" using wf_program_callee [OF wf k _ e] calling_one.prems by auto
  then have "f \<in> C" "0 < countBB (cfg_of pg f)" using C(1) calling_one.prems wf_program_cfg(4) [OF wf] by auto
  moreover have "e \<in> set (call_outs pg k b)" using e(1,2) by (simp add: call_outs_def)
  ultimately show ?case using calling_one.IH calling_one.prems by auto
qed auto

lemma calls_to_entered:
  assumes "distinct es" "\<And>e. Enter e \<in> set t \<Longrightarrow> pg_callee pg e = Some f \<Longrightarrow> e \<in> set es" "\<And>e. e \<in> set es \<Longrightarrow> pg_callee pg e = Some f"
  shows "calls_to pg t f = entered t es"
  using assms(2)
proof (induction t)
  case (Cons i t)
  then have "calls_to pg t f = entered t es" by simp
  moreover have "(\<exists>e. i = Enter e \<and> pg_callee pg e = Some f) \<longleftrightarrow> (\<exists>e \<in> set es. i = Enter e)"
    using Cons.prems assms(3) by auto
  ultimately show ?case using assms(1) by simp
qed simp

end
