(* ===== verification/Ipet_Control.thy ===== *)
theory Ipet_Control
  imports Ipet_Program Ilp_System
begin

text \<open>
  Variables and control constraints of the IPET system:
  otawa/src/prog/ipet_VarAssignment.cpp gives a variable to each block and edge,
  otawa/src/prog/ipet_BasicConstraintsBuilder.cpp states that a block is executed as often as
  its inputs and outputs are traversed and that a CFG is entered as often as it is called.

  The counts of every complete run satisfy these constraints.
\<close>

subsection \<open>Annotations\<close>

text \<open>\<^verbatim>\<open>SYSTEM\<close> of the workspace, \<^verbatim>\<open>VAR\<close> of the blocks and of the edges,
  \<^verbatim>\<open>CALLING_CONSTRAINT\<close> of the CFGs.\<close>

record ipet =
  ip_sys :: ilp_sys
  ip_varb :: "nat \<times> nat \<Rightarrow> ilp_var option"
  ip_vare :: "edge \<Rightarrow> ilp_var option"
  ip_calling :: "nat \<Rightarrow> nat option"

definition on_sys :: "(ilp_sys \<Rightarrow> ilp_sys) \<Rightarrow> ipet \<Rightarrow> ipet" where
  "on_sys f ip = ip\<lparr>ip_sys := f (ip_sys ip)\<rparr>"

definition ip_newConstraint :: "string \<Rightarrow> comparator \<Rightarrow> int \<Rightarrow> ipet \<Rightarrow> nat \<times> ipet" where
  "ip_newConstraint label cmp constant ip =
     (let (c, s) = newConstraint label cmp constant (ip_sys ip) in (c, ip\<lparr>ip_sys := s\<rparr>))"

definition ipet_new :: "ipet" where
  "ipet_new = \<lparr>ip_sys = sys_new True, ip_varb = (\<lambda>_. None), ip_vare = (\<lambda>_. None), ip_calling = (\<lambda>_. None)\<rparr>"

subsection \<open>Variable assignment\<close>

definition va_block :: "nat \<Rightarrow> nat \<Rightarrow> ipet \<Rightarrow> ipet" where
  "va_block k b ip =
     (if ip_varb ip (k, b) = None
      then (let (v, s) = newVar (ip_sys ip) in ip\<lparr>ip_sys := s, ip_varb := (ip_varb ip)((k, b) \<mapsto> v)\<rparr>)
      else ip)"

definition va_edge :: "edge \<Rightarrow> ipet \<Rightarrow> ipet" where
  "va_edge e ip =
     (if ip_vare ip e = None
      then (let (v, s) = newVar (ip_sys ip) in ip\<lparr>ip_sys := s, ip_vare := (ip_vare ip)(e \<mapsto> v)\<rparr>)
      else ip)"

definition va_processBB :: "program \<Rightarrow> nat \<Rightarrow> nat \<Rightarrow> ipet \<Rightarrow> ipet res" where
  "va_processBB pg k b ip = Inr (fold va_edge (outs (cfg_of pg k) b) (va_block k b ip))"

definition va_processWorkSpace :: "program \<Rightarrow> nat list \<Rightarrow> ipet \<Rightarrow> ipet res" where
  "va_processWorkSpace pg cfgs = bb_processor pg (va_processBB pg) cfgs"

subsection \<open>Control constraints\<close>

definition addEntryConstraint :: "nat \<Rightarrow> ilp_var option \<Rightarrow> ipet \<Rightarrow> ipet" where
  "addEntryConstraint called var ip =
     (let (cons, ip) = (case ip_calling ip called of
          Some c \<Rightarrow> (c, ip)
        | None \<Rightarrow>
            (let (c, ip) = ip_newConstraint ''call constraint'' EQ 0 ip;
                 ip = on_sys (addLeft c 1 (ip_varb ip (called, 0))) ip
             in (c, ip\<lparr>ip_calling := (ip_calling ip)(called \<mapsto> c)\<rparr>)))
      in on_sys (addRight cons 1 var) ip)"

definition bc_input :: "program \<Rightarrow> nat \<Rightarrow> nat \<Rightarrow> ipet \<Rightarrow> ipet" where
  "bc_input pg k b ip =
     (let (cons, ip) = ip_newConstraint ''structural input constraint'' EQ 0 ip;
          ip = on_sys (addLeft cons 1 (ip_varb ip (k, b))) ip;
          (ip, used) = fold (\<lambda>e (ip, used). if e_kind e \<noteq> CALL then (on_sys (addRight cons 1 (ip_vare ip e)) ip, True)
              else (ip, used)) (ins (cfg_of pg k) b) (ip, False)
      in if \<not> used then on_sys (removeConstraint cons) ip else ip)"

record bc_outs =
  bo_ip :: ipet
  bo_used :: bool
  bo_called :: "nat option"
  bo_many :: bool

definition bc_output_edge :: "program \<Rightarrow> nat \<Rightarrow> edge \<Rightarrow> bc_outs \<Rightarrow> bc_outs res" where
  "bc_output_edge pg cons e bo =
     (if e_kind e \<noteq> CALL
      then Inr (bo\<lparr>bo_ip := on_sys (addRight cons 1 (ip_vare (bo_ip bo) e)) (bo_ip bo), bo_used := True\<rparr>)
      else rbind (calledCFG pg e) (\<lambda>called. case called of
          None \<Rightarrow> Inl Raised
        | Some f \<Rightarrow> Inr (if bo_called bo \<noteq> None then bo\<lparr>bo_many := True\<rparr> else bo\<lparr>bo_called := Some f\<rparr>)))"

definition bc_call_edge :: "program \<Rightarrow> nat \<Rightarrow> edge \<Rightarrow> ipet \<Rightarrow> ipet res" where
  "bc_call_edge pg call_cons e ip =
     (if e_kind e = CALL
      then rbind (calledCFG pg e) (\<lambda>called. case called of
          None \<Rightarrow> Inl Undefined
        | Some f \<Rightarrow>
            (let (call_var, s) = newVar (ip_sys ip);
                 ip = addEntryConstraint f (Some call_var) (ip\<lparr>ip_sys := s\<rparr>)
             in Inr (on_sys (addRight call_cons 1 (Some call_var)) ip)))
      else Inr ip)"

definition bc_calls :: "program \<Rightarrow> nat \<Rightarrow> nat \<Rightarrow> nat option \<Rightarrow> bool \<Rightarrow> ipet \<Rightarrow> ipet res" where
  "bc_calls pg k b called many ip =
     (case called of
        None \<Rightarrow> Inr ip
      | Some f \<Rightarrow>
          if \<not> many then Inr (addEntryConstraint f (ip_varb ip (k, b)) ip)
          else (let (call_cons, ip) = ip_newConstraint ''multiple call constraint'' EQ 0 ip;
                    ip = on_sys (addLeft call_cons 1 (ip_varb ip (k, b))) ip
                in rfold (bc_call_edge pg call_cons) (outs (cfg_of pg k) b) ip))"

definition bc_processBB :: "program \<Rightarrow> nat \<Rightarrow> nat \<Rightarrow> ipet \<Rightarrow> ipet res" where
  "bc_processBB pg k b ip =
     (let ip = bc_input pg k b ip;
          (cons, ip) = ip_newConstraint ''structural output constraint'' EQ 0 ip;
          ip = on_sys (addLeft cons 1 (ip_varb ip (k, b))) ip
      in rbind (rfold (bc_output_edge pg cons) (outs (cfg_of pg k) b)
             \<lparr>bo_ip = ip, bo_used = False, bo_called = None, bo_many = False\<rparr>) (\<lambda>bo.
         let ip = (if \<not> bo_used bo then on_sys (removeConstraint cons) (bo_ip bo) else bo_ip bo)
         in bc_calls pg k b (bo_called bo) (bo_many bo) ip))"

definition bc_processWorkSpace :: "program \<Rightarrow> nat list \<Rightarrow> nat \<Rightarrow> ipet \<Rightarrow> ipet res" where
  "bc_processWorkSpace pg cfgs entry ip =
     rbind (bb_processor pg (bc_processBB pg) cfgs ip) (\<lambda>ip.
       let (cons, ip) = ip_newConstraint ''program entry constraint'' EQ 1 ip;
           ip = on_sys (addLeft cons 1 (ip_varb ip (entry, 0))) ip
       in Inr (ip\<lparr>ip_calling := (ip_calling ip)(entry \<mapsto> cons)\<rparr>))"

subsection \<open>Values of the variables\<close>

lemma s_ofun_same [simp]:
  "s_ofun (cons_add i k var s) = s_ofun s" "s_ofun (removeConstraint i s) = s_ofun s"
  "newConstraint l cmp c s = (i, s') \<Longrightarrow> s_ofun s' = s_ofun s" "newVar s = (v, s') \<Longrightarrow> s_ofun s' = s_ofun s"
  by (auto simp: cons_add_def removeConstraint_def newConstraint_def newVar_def)

lemma addLeft_cons: "addLeft i k var = cons_add i k var"
  and addRight_cons: "addRight i k var = cons_add i (- k) var"
  by (simp_all add: addLeft_def addRight_def fun_eq_iff)

definition vars_ok :: "ipet \<Rightarrow> bool" where
  "vars_ok ip \<longleftrightarrow> sys_wf (ip_sys ip) \<and> s_ofun (ip_sys ip) = new_constr [] GT 0 \<and>
     (\<forall>x v. ip_varb ip x = Some v \<longrightarrow> v < s_new (ip_sys ip)) \<and> (\<forall>e v. ip_vare ip e = Some v \<longrightarrow> v < s_new (ip_sys ip))"

lemma vars_ok_grow:
  assumes "vars_ok ip" "sys_wf s" "s_ofun s = s_ofun (ip_sys ip)" "s_new (ip_sys ip) \<le> s_new s"
  shows "vars_ok (ip\<lparr>ip_sys := s\<rparr>)"
  using assms(1-3) by (auto simp: vars_ok_def intro: less_le_trans [OF _ assms(4)])

definition vars_distinct :: "ipet \<Rightarrow> bool" where
  "vars_distinct ip \<longleftrightarrow> (\<forall>x y v. ip_varb ip x = Some v \<longrightarrow> ip_varb ip y = Some v \<longrightarrow> x = y) \<and>
     (\<forall>e f v. ip_vare ip e = Some v \<longrightarrow> ip_vare ip f = Some v \<longrightarrow> e = f) \<and>
     (\<forall>x e v. ip_varb ip x = Some v \<longrightarrow> ip_vare ip e \<noteq> Some v)"

text \<open>The variables hold the counts of the trace.\<close>

definition counts :: "item list \<Rightarrow> (ilp_var \<Rightarrow> int) \<Rightarrow> ipet \<Rightarrow> bool" where
  "counts t val ip \<longleftrightarrow> (\<forall>v. 0 \<le> val v) \<and> (\<forall>k b v. ip_varb ip (k, b) = Some v \<longrightarrow> val v = int (at t k b)) \<and>
     (\<forall>e v. ip_vare ip e = Some v \<longrightarrow> val v = int (count_list t (Through e)))"

lemma counts_exist:
  assumes "vars_distinct ip"
  shows "\<exists>val. counts t val ip"
proof -
  define val where "val v = (if \<exists>x. ip_varb ip x = Some v then (let x = (SOME x. ip_varb ip x = Some v) in int (at t (fst x) (snd x)))
    else if \<exists>e. ip_vare ip e = Some v then int (count_list t (Through (SOME e. ip_vare ip e = Some v))) else 0)" for v
  have "val v = int (at t k b)" if "ip_varb ip (k, b) = Some v" for k b v
  proof -
    have "(SOME x. ip_varb ip x = Some v) = (k, b)" using that assms by (intro some_equality) (auto simp: vars_distinct_def)
    then show ?thesis using that by (auto simp: val_def Let_def)
  qed
  moreover have "val v = int (count_list t (Through e))" if "ip_vare ip e = Some v" for e v
  proof -
    have "(SOME e. ip_vare ip e = Some v) = e" using that assms by (intro some_equality) (auto simp: vars_distinct_def)
    moreover have "\<nexists>x. ip_varb ip x = Some v" using that assms by (auto simp: vars_distinct_def)
    ultimately show ?thesis using that by (auto simp: val_def)
  qed
  moreover have "0 \<le> val v" for v by (simp add: val_def Let_def)
  ultimately show ?thesis unfolding counts_def by blast
qed

definition va_inv :: "(nat \<times> nat) set \<Rightarrow> edge set \<Rightarrow> ipet \<Rightarrow> bool" where
  "va_inv B E ip \<longleftrightarrow> vars_ok ip \<and> vars_distinct ip \<and> B \<subseteq> dom (ip_varb ip) \<and> E \<subseteq> dom (ip_vare ip) \<and>
     s_conss (ip_sys ip) = [] \<and> s_ofun (ip_sys ip) = new_constr [] GT 0 \<and> s_vars (ip_sys ip) = [] \<and> ip_calling ip = (\<lambda>_. None)"

lemma va_inv_new: "va_inv {} {} ipet_new"
  by (simp add: va_inv_def ipet_new_def vars_ok_def vars_distinct_def sys_new_wf) (simp add: sys_new_def)

lemma va_block_inv:
  assumes "va_inv B E ip"
  shows "va_inv (insert (k, b) B) E (va_block k b ip)"
proof (cases "ip_varb ip (k, b)")
  case None
  obtain v s where n: "newVar (ip_sys ip) = (v, s)" by fastforce
  have "v = s_new (ip_sys ip)" "s = (ip_sys ip)\<lparr>s_new := Suc (s_new (ip_sys ip))\<rparr>" using n by (auto simp: newVar_def)
  then show ?thesis using assms n newVar_wf [OF _ n] None
    by (auto simp: va_inv_def va_block_def vars_ok_def vars_distinct_def less_Suc_eq)
next
  case (Some v)
  then show ?thesis using assms by (auto simp: va_inv_def va_block_def)
qed

lemma va_edge_inv:
  assumes "va_inv B E ip"
  shows "va_inv B (insert e E) (va_edge e ip)"
proof (cases "ip_vare ip e")
  case None
  obtain v s where n: "newVar (ip_sys ip) = (v, s)" by fastforce
  have "v = s_new (ip_sys ip)" "s = (ip_sys ip)\<lparr>s_new := Suc (s_new (ip_sys ip))\<rparr>" using n by (auto simp: newVar_def)
  then show ?thesis using assms n newVar_wf [OF _ n] None
    by (auto simp: va_inv_def va_edge_def vars_ok_def vars_distinct_def less_Suc_eq)
next
  case (Some v)
  then show ?thesis using assms by (auto simp: va_inv_def va_edge_def)
qed

lemma va_processBB_inv:
  assumes "va_inv B E ip"
  shows "\<exists>ip'. va_processBB pg k b ip = Inr ip' \<and> va_inv (insert (k, b) B) (E \<union> set (outs (cfg_of pg k) b)) ip'"
proof -
  have "va_inv B' (E' \<union> set es) (fold va_edge es ip')" if "va_inv B' E' ip'" for B' E' es ip'
    using that
  proof (induction es arbitrary: E' ip')
    case (Cons e es)
    from Cons.IH [OF va_edge_inv [OF Cons.prems]] show ?case by simp
  qed simp
  from this [OF va_block_inv [OF assms]] show ?thesis by (simp add: va_processBB_def)
qed

lemma set_bb_iter: "set (bb_iter g) = {..<countBB g}"
  by (auto simp: bb_iter_def)

text \<open>A processor that keeps an invariant of the visited blocks.\<close>

lemma bb_processor_invariant:
  assumes start: "P [] s"
    and step: "\<And>pre k b s. k \<in> set cfgs \<Longrightarrow> b < countBB (cfg_of pg k) \<Longrightarrow> P pre s \<Longrightarrow>
      (k, b) \<notin> set pre \<or> \<not> distinct cfgs \<Longrightarrow> \<exists>s'. f k b s = Inr s' \<and> P (pre @ [(k, b)]) s'"
  shows "\<exists>s'. bb_processor pg f cfgs s = Inr s' \<and> P (concat (map (\<lambda>k. map (Pair k) (bb_iter (cfg_of pg k))) cfgs)) s'"
proof -
  let ?bs = "\<lambda>k. map (Pair k) (bb_iter (cfg_of pg k))"
  have "\<exists>s'. rfold (\<lambda>k. rfold (f k) (bb_iter (cfg_of pg k))) cfgs s = Inr s' \<and> P (concat (map ?bs cfgs)) s'"
  proof (rule rfold_invariant [where P = "\<lambda>ks s. P (concat (map ?bs ks)) s"])
    show "P (concat (map ?bs [])) s" using start by simp
    fix pre k post t assume split: "cfgs = pre @ k # post" and t: "P (concat (map ?bs pre)) t"
    have "\<exists>t'. rfold (f k) (bb_iter (cfg_of pg k)) t = Inr t' \<and> P (concat (map ?bs pre) @ map (Pair k) (bb_iter (cfg_of pg k))) t'"
    proof (rule rfold_invariant [where P = "\<lambda>bs s. P (concat (map ?bs pre) @ map (Pair k) bs) s"])
      show "P (concat (map ?bs pre) @ map (Pair k) []) t" using t by simp
      fix pre' b post' u assume split': "bb_iter (cfg_of pg k) = pre' @ b # post'" and u: "P (concat (map ?bs pre) @ map (Pair k) pre') u"
      have "b \<in> set (bb_iter (cfg_of pg k))" using split' by simp
      then have b: "b < countBB (cfg_of pg k)" by (simp add: bb_iter_def)
      have "distinct (pre' @ b # post')" unfolding split' [symmetric] by (simp add: bb_iter_def)
      moreover have "k \<notin> set pre" if "distinct cfgs" using that split by simp
      ultimately have "(k, b) \<notin> set (concat (map ?bs pre) @ map (Pair k) pre') \<or> \<not> distinct cfgs" by auto
      from step [OF _ b u this] split show "\<exists>u'. f k b u = Inr u' \<and> P (concat (map ?bs pre) @ map (Pair k) (pre' @ [b])) u'"
        by simp
    qed
    then show "\<exists>t'. rfold (f k) (bb_iter (cfg_of pg k)) t = Inr t' \<and> P (concat (map ?bs (pre @ [k]))) t'" by simp
  qed
  then show ?thesis by (simp add: bb_processor_def)
qed

lemma va_processWorkSpace_inv:
  "\<exists>ip. va_processWorkSpace pg cfgs ipet_new = Inr ip \<and>
    va_inv {(k, b). k \<in> set cfgs \<and> b < countBB (cfg_of pg k)}
      (\<Union>k \<in> set cfgs. \<Union>b < countBB (cfg_of pg k). set (outs (cfg_of pg k) b)) ip"
proof -
  have "\<exists>ip. bb_processor pg (va_processBB pg) cfgs ipet_new = Inr ip \<and>
    (\<lambda>bs ip. va_inv (set bs) (\<Union>(k, b) \<in> set bs. set (outs (cfg_of pg k) b)) ip)
      (concat (map (\<lambda>k. map (Pair k) (bb_iter (cfg_of pg k))) cfgs)) ip"
  proof (rule bb_processor_invariant)
    show "va_inv (set []) (\<Union>(k, b) \<in> set []. set (outs (cfg_of pg k) b)) ipet_new" using va_inv_new by simp
    fix pre k b s assume "va_inv (set pre) (\<Union>(k, b) \<in> set pre. set (outs (cfg_of pg k) b)) s"
    from va_processBB_inv [OF this, of pg k b]
    show "\<exists>s'. va_processBB pg k b s = Inr s' \<and>
        va_inv (set (pre @ [(k, b)])) (\<Union>(k, b) \<in> set (pre @ [(k, b)]). set (outs (cfg_of pg k) b)) s'"
      by (simp add: Un_commute)
  qed
  moreover have "set (concat (map (\<lambda>k. map (Pair k) (bb_iter (cfg_of pg k))) cfgs)) =
      {(k, b). k \<in> set cfgs \<and> b < countBB (cfg_of pg k)}" by (auto simp: bb_iter_def)
  ultimately show ?thesis unfolding va_processWorkSpace_def by (simp add: set_bb_iter)
qed

subsection \<open>Building constraints under a valuation\<close>

text \<open>
  \<open>ipet_inv F t val K pend ip\<close>: the variables hold the counts of the trace \<open>t\<close>; \<open>pend\<close> maps the
  constraints being built to their current value; only CFGs of \<open>F\<close> have a calling constraint; the calling constraint of \<open>f\<close> still lacks what
  \<open>K f\<close>, the calls already added, leaves of the entries of \<open>f\<close>; all the others hold.
\<close>

definition ipet_inv :: "nat set \<Rightarrow> item list \<Rightarrow> (ilp_var \<Rightarrow> int) \<Rightarrow> (nat \<Rightarrow> int) \<Rightarrow> (nat \<Rightarrow> int option) \<Rightarrow> ipet \<Rightarrow> bool" where
  "ipet_inv F t val K pend ip \<longleftrightarrow> vars_ok ip \<and> counts t val ip \<and>
     (\<forall>i cmp x. view val (ip_sys ip) i = Some (cmp, x) \<longrightarrow> pend i = None \<longrightarrow> (\<forall>f. ip_calling ip f \<noteq> Some i) \<longrightarrow> cmp_zero cmp x) \<and>
     (\<forall>i x. pend i = Some x \<longrightarrow> view val (ip_sys ip) i = Some (EQ, x) \<and> (\<forall>f. ip_calling ip f \<noteq> Some i)) \<and>
     (\<forall>f i. ip_calling ip f = Some i \<longrightarrow> view val (ip_sys ip) i = Some (EQ, int (at t f 0) - K f)) \<and>
     (\<forall>f. ip_calling ip f = None \<longrightarrow> K f = 0) \<and>
     (\<forall>f g i. ip_calling ip f = Some i \<longrightarrow> ip_calling ip g = Some i \<longrightarrow> f = g) \<and> dom (ip_calling ip) \<subseteq> F"

lemma ipet_invI:
  assumes "vars_ok ip" "counts t val ip"
    "\<And>i cmp x. view val (ip_sys ip) i = Some (cmp, x) \<Longrightarrow> pend i = None \<Longrightarrow> (\<And>f. ip_calling ip f \<noteq> Some i) \<Longrightarrow> cmp_zero cmp x"
    "\<And>i x. pend i = Some x \<Longrightarrow> view val (ip_sys ip) i = Some (EQ, x) \<and> (\<forall>f. ip_calling ip f \<noteq> Some i)"
    "\<And>i f. ip_calling ip f = Some i \<Longrightarrow> view val (ip_sys ip) i = Some (EQ, int (at t f 0) - K f)"
    "\<And>i f :: nat. ip_calling ip f = None \<Longrightarrow> K f = 0"
    "\<And>i f g. ip_calling ip f = Some i \<Longrightarrow> ip_calling ip g = Some i \<Longrightarrow> f = g" "dom (ip_calling ip) \<subseteq> F"
  shows "ipet_inv F t val K pend ip"
  unfolding ipet_inv_def by (intro conjI allI impI) (use assms in blast)+

lemma view_fresh: "sys_wf s \<Longrightarrow> s_new s \<le> i \<Longrightarrow> view val s i = None"
  by (auto simp: view_def sys_wf_def map_of_eq_None_iff)

lemma inv_fresh:
  assumes "ipet_inv F t val K pend ip" "s_new (ip_sys ip) \<le> i"
  shows "pend i = None" "ip_calling ip f \<noteq> Some i"
proof -
  have "view val (ip_sys ip) i = None" using assms by (intro view_fresh) (auto simp: ipet_inv_def vars_ok_def)
  then show "pend i = None" "ip_calling ip f \<noteq> Some i"
    using assms(1) unfolding ipet_inv_def by (metis option.distinct(1) option.exhaust)+
qed

lemma inv_newConstraint:
  assumes inv: "ipet_inv F t val K pend ip" and n: "ip_newConstraint l EQ k ip = (c, ip')"
  shows "ipet_inv F t val K (pend(c \<mapsto> - k)) ip' \<and> pend c = None \<and>
    ip_varb ip' = ip_varb ip \<and> ip_vare ip' = ip_vare ip \<and> ip_calling ip' = ip_calling ip"
proof -
  obtain s where s: "newConstraint l EQ k (ip_sys ip) = (c, s)" "ip' = ip\<lparr>ip_sys := s\<rparr>"
    using n by (auto simp: ip_newConstraint_def split: prod.splits)
  have c: "c = s_new (ip_sys ip)" "s_new s = Suc c" using s(1) by (auto simp: newConstraint_def)
  have wf: "sys_wf s" using newConstraint_wf [OF _ s(1)] inv by (simp add: ipet_inv_def vars_ok_def)
  note v = view_newConstraint [OF s(1), of val]
  have f: "pend c = None" "ip_calling ip g \<noteq> Some c" for g using inv_fresh [OF inv, of c] c by auto
  have "vars_ok ip'" unfolding s(2)
    by (rule vars_ok_grow) (use inv wf c s(1) in \<open>simp_all add: ipet_inv_def\<close>)
  moreover have "counts t val ip'" using inv s(2) by (simp add: ipet_inv_def counts_def)
  ultimately show ?thesis using inv f s(2) unfolding ipet_inv_def by (simp add: v)
qed

lemma inv_add:
  assumes inv: "ipet_inv F t val K pend ip" and c: "pend c = Some x" and var: "\<And>v. var = Some v \<Longrightarrow> v < s_new (ip_sys ip)"
  shows "ipet_inv F t val K (pend(c \<mapsto> x + coef * var_val val var)) (on_sys (cons_add c coef var) ip)"
proof -
  have wf: "sys_wf (ip_sys ip)" using inv by (simp add: ipet_inv_def vars_ok_def)
  note v = view_cons_add [OF wf, of val c coef var]
  have vc: "view val (ip_sys ip) c = Some (EQ, x)" "\<forall>f. ip_calling ip f \<noteq> Some c" using inv c by (auto simp: ipet_inv_def)
  have "sys_wf (cons_add c coef var (ip_sys ip))" by (rule cons_add_wf [OF wf var])
  moreover have "s_new (cons_add c coef var (ip_sys ip)) = s_new (ip_sys ip)" by (simp add: cons_add_def)
  ultimately have "vars_ok (on_sys (cons_add c coef var) ip)" using inv by (simp add: ipet_inv_def vars_ok_def on_sys_def)
  moreover have "counts t val (on_sys (cons_add c coef var) ip)" using inv by (simp add: ipet_inv_def counts_def on_sys_def)
  ultimately show ?thesis using inv vc unfolding ipet_inv_def by (auto simp: v on_sys_def)
qed

lemma inv_remove:
  assumes inv: "ipet_inv F t val K pend ip" and c: "pend c = Some x"
  shows "ipet_inv F t val K (pend(c := None)) (on_sys (removeConstraint c) ip)"
proof -
  have wf: "sys_wf (ip_sys ip)" using inv by (simp add: ipet_inv_def vars_ok_def)
  have "\<forall>f. ip_calling ip f \<noteq> Some c" using inv c by (auto simp: ipet_inv_def)
  moreover have "s_new (removeConstraint c (ip_sys ip)) = s_new (ip_sys ip)" by (simp add: removeConstraint_def)
  then have "vars_ok (on_sys (removeConstraint c) ip)" using inv removeConstraint_wf [OF wf]
    by (simp add: ipet_inv_def vars_ok_def on_sys_def)
  moreover have "counts t val (on_sys (removeConstraint c) ip)" using inv by (simp add: ipet_inv_def counts_def on_sys_def)
  ultimately show ?thesis using inv unfolding ipet_inv_def by (auto simp: view_removeConstraint on_sys_def)
qed

lemma inv_complete:
  assumes "ipet_inv F t val K pend ip" "pend c = Some 0"
  shows "ipet_inv F t val K (pend(c := None)) ip"
  using assms unfolding ipet_inv_def by auto

lemma inv_newVar:
  assumes inv: "ipet_inv F t val K pend ip" and n: "newVar (ip_sys ip) = (v, s)" and y: "0 \<le> y"
  shows "ipet_inv F t (val(v := y)) K pend (ip\<lparr>ip_sys := s\<rparr>) \<and> v < s_new s \<and> s_new (ip_sys ip) \<le> v"
proof -
  have s: "v = s_new (ip_sys ip)" "s_new s = Suc v" using n by (auto simp: newVar_def)
  have wf: "sys_wf (ip_sys ip)" using inv by (simp add: ipet_inv_def vars_ok_def)
  have old: "view val (ip_sys ip) = view (val(v := y)) (ip_sys ip)" by (rule view_cong(1) [OF wf]) (simp add: s)
  have vw: "view (val(v := y)) s = view val (ip_sys ip)" using view_newVar [OF n, of "val(v := y)"] old by simp
  have "vars_ok (ip\<lparr>ip_sys := s\<rparr>)"
    by (rule vars_ok_grow) (use inv newVar_wf [OF wf n] n s in \<open>simp_all add: ipet_inv_def\<close>)
  moreover have "counts t (val(v := y)) (ip\<lparr>ip_sys := s\<rparr>)"
    using inv s y by (fastforce simp: ipet_inv_def counts_def vars_ok_def)
  ultimately have "ipet_inv F t (val(v := y)) K pend (ip\<lparr>ip_sys := s\<rparr>)"
    using inv unfolding ipet_inv_def by (simp add: vw)
  then show ?thesis using s by simp
qed

text \<open>A finished constraint becomes the calling constraint of \<open>f\<close>.\<close>

lemma inv_install:
  assumes inv: "ipet_inv F t val K (pend(d \<mapsto> int (at t f 0))) ip" and "pend d = None" "ip_calling ip f = None" "K f = 0"
    and c: "call = ip_calling ip" and F: "f \<in> F"
  shows "ipet_inv F t val K pend (ip\<lparr>ip_calling := call(f \<mapsto> d)\<rparr>)"
proof -
  define ip' where "ip' = ip\<lparr>ip_calling := (ip_calling ip)(f \<mapsto> d)\<rparr>"
  have s: "ip_sys ip' = ip_sys ip" and cl: "ip_calling ip' = (ip_calling ip)(f \<mapsto> d)" by (simp_all add: ip'_def)
  let ?pend = "pend(d \<mapsto> int (at t f 0))"
  have d: "view val (ip_sys ip') d = Some (EQ, int (at t f 0)) \<and> (\<forall>g. ip_calling ip g \<noteq> Some d)"
    using inv unfolding ipet_inv_def s by simp
  have old: "view val (ip_sys ip') i = Some (cmp, x) \<Longrightarrow> ?pend i = None \<Longrightarrow> \<forall>g. ip_calling ip g \<noteq> Some i \<Longrightarrow> cmp_zero cmp x"
    "?pend i = Some x \<Longrightarrow> view val (ip_sys ip') i = Some (EQ, x) \<and> (\<forall>g. ip_calling ip g \<noteq> Some i)"
    "ip_calling ip g = Some i \<Longrightarrow> view val (ip_sys ip') i = Some (EQ, int (at t g 0) - K g)"
    "ip_calling ip g = None \<Longrightarrow> K g = 0"
    "ip_calling ip g = Some i \<Longrightarrow> ip_calling ip h = Some i \<Longrightarrow> g = h" for i cmp x g h
    using inv unfolding ipet_inv_def s by blast+
  have "ipet_inv F t val K pend ip'"
  proof (rule ipet_invI)
    show "dom (ip_calling ip') \<subseteq> F" using inv F unfolding ipet_inv_def cl by auto
    show "vars_ok ip'" "counts t val ip'" using inv by (simp_all add: ip'_def ipet_inv_def vars_ok_def counts_def)
    fix i
    show "cmp_zero cmp x" if i: "view val (ip_sys ip') i = Some (cmp, x)" "pend i = None" "\<And>g. ip_calling ip' g \<noteq> Some i" for cmp x
    proof (rule old(1) [OF i(1)])
      show "?pend i = None" using i(2) i(3) [of f] by (simp add: cl)
      show "\<forall>g. ip_calling ip g \<noteq> Some i"
      proof
        fix g show "ip_calling ip g \<noteq> Some i" using i(3) [of g] assms(3) by (cases "g = f") (simp_all add: cl)
      qed
    qed
    show "view val (ip_sys ip') i = Some (EQ, x) \<and> (\<forall>g. ip_calling ip' g \<noteq> Some i)" if "pend i = Some x" for x
      using old(2) [of i x] that assms(2) by (cases "i = d") (auto simp: cl)
    fix g
    show "view val (ip_sys ip') i = Some (EQ, int (at t g 0) - K g)" if "ip_calling ip' g = Some i"
      using that d assms(4) old(3) [of g i] by (cases "g = f") (auto simp: cl)
    show "K g = 0" if "ip_calling ip' g = None" using that old(4) by (cases "g = f") (simp_all add: cl)
    fix h
    show "g = h" if "ip_calling ip' g = Some i" "ip_calling ip' h = Some i"
      using that old(5) [of g i h] d by (auto simp: cl split: if_splits)
  qed
  then show ?thesis by (simp add: ip'_def c)
qed

lemma inv_addEntry:
  assumes inv: "ipet_inv F t val K pend ip" and var: "var = Some v" "v < s_new (ip_sys ip)"
    and f: "ip_varb ip (f, 0) = Some w" "f \<in> F"
  shows "ipet_inv F t val (K(f := K f + val v)) pend (addEntryConstraint f var ip) \<and>
    ip_varb (addEntryConstraint f var ip) = ip_varb ip \<and> ip_vare (addEntryConstraint f var ip) = ip_vare ip \<and>
    s_new (ip_sys ip) \<le> s_new (ip_sys (addEntryConstraint f var ip))"
proof -
  define res where "res = (case ip_calling ip f of Some c \<Rightarrow> (c, ip)
    | None \<Rightarrow> (let (c, ip) = ip_newConstraint ''call constraint'' EQ 0 ip;
                 ip = on_sys (addLeft c 1 (ip_varb ip (f, 0))) ip
             in (c, ip\<lparr>ip_calling := (ip_calling ip)(f \<mapsto> c)\<rparr>)))"
  obtain c ip1 where r: "res = (c, ip1)" by fastforce
  have "ipet_inv F t val K pend ip1 \<and> ip_calling ip1 f = Some c \<and> ip_varb ip1 = ip_varb ip \<and> ip_vare ip1 = ip_vare ip \<and>
      s_new (ip_sys ip) \<le> s_new (ip_sys ip1)"
  proof (cases "ip_calling ip f")
    case (Some d)
    then show ?thesis using r inv by (simp add: res_def)
  next
    case None
    obtain d ip2 where n: "ip_newConstraint ''call constraint'' EQ 0 ip = (d, ip2)" by fastforce
    have i2: "ipet_inv F t val K (pend(d \<mapsto> 0)) ip2" "pend d = None" "ip_varb ip2 = ip_varb ip" "ip_vare ip2 = ip_vare ip"
      "ip_calling ip2 = ip_calling ip" using inv_newConstraint [OF inv n] by auto
    have sn: "s_new (ip_sys ip2) = Suc (s_new (ip_sys ip))"
      using n by (auto simp: ip_newConstraint_def newConstraint_def)
    have w: "w < s_new (ip_sys ip)" "val w = int (at t f 0)" using inv f by (auto simp: ipet_inv_def vars_ok_def counts_def)
    let ?ip3 = "on_sys (cons_add d 1 (Some w)) ip2"
    have i3: "ipet_inv F t val K (pend(d \<mapsto> int (at t f 0))) ?ip3"
      using inv_add [OF i2(1), of d 0 "Some w" 1] w sn by (simp add: var_val_def)
    have eq: "ip1 = ?ip3\<lparr>ip_calling := (ip_calling ip)(f \<mapsto> d)\<rparr>" "c = d"
      using r None n f i2 by (auto simp: res_def addLeft_cons on_sys_def)
    have "K f = 0" using inv None unfolding ipet_inv_def by blast
    then have "ipet_inv F t val K pend ip1" unfolding eq
      by (intro inv_install [OF i3 i2(2)]) (simp_all add: on_sys_def i2 None f(2))
    then show ?thesis using eq i2 sn by (simp add: on_sys_def cons_add_def)
  qed
  then have i1: "ipet_inv F t val K pend ip1" and c1: "ip_calling ip1 f = Some c" and
    s1: "ip_varb ip1 = ip_varb ip" "ip_vare ip1 = ip_vare ip" "s_new (ip_sys ip) \<le> s_new (ip_sys ip1)" by auto
  have eq: "addEntryConstraint f var ip = on_sys (cons_add c (-1) (Some v)) ip1"
    using r var(1) by (simp add: addEntryConstraint_def res_def [symmetric] addRight_cons)
  have wf: "sys_wf (ip_sys ip1)" using i1 by (simp add: ipet_inv_def vars_ok_def)
  note vw = view_cons_add [OF wf, of val c "-1" "Some v"]
  have vc: "view val (ip_sys ip1) c = Some (EQ, int (at t f 0) - K f)" using i1 c1 by (simp add: ipet_inv_def)
  have "pend c = None" using i1 c1 unfolding ipet_inv_def by (metis not_None_eq)
  moreover have "sys_wf (cons_add c (-1) (Some v) (ip_sys ip1))" by (rule cons_add_wf [OF wf]) (use var s1 in auto)
  then have "vars_ok (on_sys (cons_add c (-1) (Some v)) ip1)" using i1
    by (simp add: ipet_inv_def vars_ok_def on_sys_def cons_add_def)
  moreover have "counts t val (on_sys (cons_add c (-1) (Some v)) ip1)" using i1 by (simp add: ipet_inv_def counts_def on_sys_def)
  moreover have "g = f" if "ip_calling ip1 g = Some c" for g using i1 c1 that unfolding ipet_inv_def by blast
  ultimately have "ipet_inv F t val (K(f := K f + val v)) pend (on_sys (cons_add c (-1) (Some v)) ip1)"
    using i1 c1 vc unfolding ipet_inv_def by (auto simp: vw on_sys_def var_val_def)
  then show ?thesis using s1 unfolding eq by (simp add: on_sys_def cons_add_def)
qed

subsection \<open>One block\<close>

definition same_vars :: "ipet \<Rightarrow> ipet \<Rightarrow> bool" where
  "same_vars ip ip' \<longleftrightarrow> ip_varb ip' = ip_varb ip \<and> ip_vare ip' = ip_vare ip"

lemma same_vars_trans: "same_vars ip1 ip2 \<Longrightarrow> same_vars ip2 ip3 \<Longrightarrow> same_vars ip1 ip3"
  by (simp add: same_vars_def)

lemma on_sys_vars [simp]: "ip_varb (on_sys f ip) = ip_varb ip" "ip_vare (on_sys f ip) = ip_vare ip"
  "ip_calling (on_sys f ip) = ip_calling ip"
  by (simp_all add: on_sys_def)

lemma var_of_block:
  assumes "ipet_inv F t val K pend ip" "ip_varb ip (k, b) = Some v"
  shows "v < s_new (ip_sys ip)" "val v = int (at t k b)"
  using assms by (auto simp: ipet_inv_def vars_ok_def counts_def)

lemma var_of_edge:
  assumes "ipet_inv F t val K pend ip" "ip_vare ip e = Some v"
  shows "v < s_new (ip_sys ip)" "val v = int (count_list t (Through e))"
  using assms by (auto simp: ipet_inv_def vars_ok_def counts_def)

text \<open>A new constraint starts with the count of the block.\<close>

lemma inv_block_cons:
  assumes inv: "ipet_inv F t val K pend ip" and v: "ip_varb ip (k, b) = Some v" and n: "ip_newConstraint l EQ 0 ip = (c, ip1)"
  shows "ipet_inv F t val K (pend(c \<mapsto> int (at t k b))) (on_sys (addLeft c 1 (ip_varb ip1 (k, b))) ip1) \<and> pend c = None \<and>
    same_vars ip (on_sys (addLeft c 1 (ip_varb ip1 (k, b))) ip1)"
proof -
  have i: "ipet_inv F t val K (pend(c \<mapsto> 0)) ip1" "pend c = None" "ip_varb ip1 = ip_varb ip" "ip_vare ip1 = ip_vare ip"
    using inv_newConstraint [OF inv n] by auto
  have v1: "ip_varb ip1 (k, b) = Some v" using v i(3) by simp
  from inv_add [OF i(1), of c 0 "Some v" 1] var_of_block [OF i(1) v1] v1 i show ?thesis
    by (simp add: addLeft_cons var_val_def same_vars_def)
qed

lemma inv_edge_term:
  assumes inv: "ipet_inv F t val K (pend(c \<mapsto> x)) ip" and v: "ip_vare ip e \<noteq> None"
  shows "ipet_inv F t val K (pend(c \<mapsto> x - int (count_list t (Through e)))) (on_sys (addRight c 1 (ip_vare ip e)) ip)"
proof -
  obtain v where "ip_vare ip e = Some v" using v by blast
  with inv_add [OF inv, of c x "Some v" "-1"] var_of_edge [OF inv, of e v] show ?thesis
    by (simp add: addRight_cons var_val_def)
qed

lemma through_cons: "through t (e # es) = count_list t (Through e) + through t es"
  and entered_cons: "entered t (e # es) = count_list t (Enter e) + entered t es"
  by (simp_all add: through_def entered_def)

lemma through_snoc: "through t (es @ [e]) = through t es + count_list t (Through e)"
  and entered_snoc: "entered t (es @ [e]) = entered t es + count_list t (Enter e)"
  by (simp_all add: through_def entered_def)

lemma bc_input_inv:
  assumes inv: "ipet_inv F t val K pend ip" and v: "ip_varb ip (k, b) \<noteq> None"
    and es: "\<And>e. e \<in> set (ins (cfg_of pg k) b) \<Longrightarrow> e_kind e \<noteq> CALL \<and> ip_vare ip e \<noteq> None"
    and law: "ins (cfg_of pg k) b \<noteq> [] \<Longrightarrow> at t k b = through t (ins (cfg_of pg k) b)"
  shows "ipet_inv F t val K pend (bc_input pg k b ip) \<and> same_vars ip (bc_input pg k b ip)"
proof -
  let ?es = "ins (cfg_of pg k) b"
  obtain c ip1 where n: "ip_newConstraint ''structural input constraint'' EQ 0 ip = (c, ip1)" by fastforce
  define ip2 where "ip2 = on_sys (addLeft c 1 (ip_varb ip1 (k, b))) ip1"
  have i2: "ipet_inv F t val K (pend(c \<mapsto> int (at t k b))) ip2" "pend c = None" "same_vars ip ip2"
    using inv_block_cons [OF inv _ n] v by (auto simp: ip2_def)
  let ?f = "\<lambda>e (ip, used). if e_kind e \<noteq> CALL then (on_sys (addRight c 1 (ip_vare ip e)) ip, True) else (ip, used)"
  have "\<exists>ip'. fold ?f es (ip0, u) = (ip', u \<or> es \<noteq> []) \<and> ipet_inv F t val K (pend(c \<mapsto> x - int (through t es))) ip' \<and> same_vars ip0 ip'"
    if "\<forall>e \<in> set es. e_kind e \<noteq> CALL \<and> ip_vare ip0 e \<noteq> None" "ipet_inv F t val K (pend(c \<mapsto> x)) ip0" for es ip0 u x
    using that
  proof (induction es arbitrary: ip0 u x)
    case Nil
    then show ?case by (auto simp: through_def same_vars_def)
  next
    case (Cons e es)
    let ?ip = "on_sys (addRight c 1 (ip_vare ip0 e)) ip0"
    have i: "ipet_inv F t val K (pend(c \<mapsto> x - int (count_list t (Through e)))) ?ip"
      using inv_edge_term [OF Cons.prems(2)] Cons.prems(1) by simp
    have "\<forall>e \<in> set es. e_kind e \<noteq> CALL \<and> ip_vare ?ip e \<noteq> None" using Cons.prems(1) by simp
    from Cons.IH [OF this i, of True] obtain ip' where "fold ?f es (?ip, True) = (ip', True \<or> es \<noteq> [])"
        "ipet_inv F t val K (pend(c \<mapsto> x - int (count_list t (Through e)) - int (through t es))) ip'" "same_vars ?ip ip'"
      by (elim exE conjE)
    then show ?case using Cons.prems(1)
      by (intro exI [of _ ip'] conjI) (simp_all add: through_cons same_vars_def diff_diff_add fun_upd_def)
  qed
  from this [OF _ i2(1), of ?es False] obtain ip' where ip': "fold ?f ?es (ip2, False) = (ip', ?es \<noteq> [])"
      "ipet_inv F t val K (pend(c \<mapsto> int (at t k b) - int (through t ?es))) ip'" "same_vars ip2 ip'"
    using es i2(3) by (auto simp: same_vars_def)
  have eq: "bc_input pg k b ip = (if ?es = [] then on_sys (removeConstraint c) ip' else ip')"
    using n ip'(1) by (simp add: bc_input_def Let_def ip2_def [symmetric])
  have pc: "pend(c := None) = pend" using i2(2) by auto
  show ?thesis
  proof (cases "?es = []")
    case True
    then show ?thesis using inv_remove [OF ip'(2), of c] same_vars_trans [OF i2(3) ip'(3)] pc eq by (simp add: same_vars_def)
  next
    case False
    then show ?thesis using inv_complete [OF ip'(2), of c] law same_vars_trans [OF i2(3) ip'(3)] pc eq by simp
  qed
qed

lemma bc_output_inv:
  assumes inv: "ipet_inv F t val K (pend(c \<mapsto> x)) ip"
    and es: "\<And>e. e \<in> set es \<Longrightarrow> ip_vare ip e \<noteq> None" "\<And>e. e \<in> set es \<Longrightarrow> e_kind e = CALL \<Longrightarrow> pg_callee pg e \<noteq> None"
  shows "\<exists>bo. rfold (bc_output_edge pg c) es \<lparr>bo_ip = ip, bo_used = False, bo_called = None, bo_many = False\<rparr> = Inr bo \<and>
    ipet_inv F t val K (pend(c \<mapsto> x - int (through t (filter (\<lambda>e. e_kind e \<noteq> CALL) es)))) (bo_ip bo) \<and> same_vars ip (bo_ip bo) \<and>
    (bo_used bo \<longleftrightarrow> filter (\<lambda>e. e_kind e \<noteq> CALL) es \<noteq> []) \<and>
    (case filter (\<lambda>e. e_kind e = CALL) es of [] \<Rightarrow> bo_called bo = None \<and> \<not> bo_many bo
     | e # r \<Rightarrow> bo_called bo = pg_callee pg e \<and> (bo_many bo \<longleftrightarrow> r \<noteq> []))"
proof (rule rfold_invariant [where P = "\<lambda>es bo.
    ipet_inv F t val K (pend(c \<mapsto> x - int (through t (filter (\<lambda>e. e_kind e \<noteq> CALL) es)))) (bo_ip bo) \<and> same_vars ip (bo_ip bo) \<and>
    (bo_used bo \<longleftrightarrow> filter (\<lambda>e. e_kind e \<noteq> CALL) es \<noteq> []) \<and>
    (case filter (\<lambda>e. e_kind e = CALL) es of [] \<Rightarrow> bo_called bo = None \<and> \<not> bo_many bo
     | e # r \<Rightarrow> bo_called bo = pg_callee pg e \<and> (bo_many bo \<longleftrightarrow> r \<noteq> []))"], goal_cases)
  case 1
  then show ?case using inv by (simp add: through_def same_vars_def)
next
  case (2 pre e post bo)
  have e: "e \<in> set es" using 2(1) by simp
  have v: "ip_vare (bo_ip bo) e \<noteq> None" using es(1) [OF e] 2(2) by (simp add: same_vars_def)
  show ?case
  proof (cases "e_kind e = CALL")
    case False
    have "filter (\<lambda>e. e_kind e \<noteq> CALL) (pre @ [e]) = filter (\<lambda>e. e_kind e \<noteq> CALL) pre @ [e]"
      "filter (\<lambda>e. e_kind e = CALL) (pre @ [e]) = filter (\<lambda>e. e_kind e = CALL) pre" using False by simp_all
    moreover have "ipet_inv F t val K (pend(c \<mapsto> x - int (through t (filter (\<lambda>e. e_kind e \<noteq> CALL) pre)) - int (count_list t (Through e))))
        (on_sys (addRight c 1 (ip_vare (bo_ip bo) e)) (bo_ip bo))"
      using inv_edge_term [OF conjunct1 [OF 2(2)] v] .
    ultimately show ?thesis using False 2(2)
      by (cases "filter (\<lambda>e. e_kind e = CALL) pre")
        (simp_all add: bc_output_edge_def through_snoc same_vars_def diff_diff_add)
  next
    case True
    obtain f where f: "pg_callee pg e = Some f" using es(2) [OF e True] by blast
    have "filter (\<lambda>e. e_kind e \<noteq> CALL) (pre @ [e]) = filter (\<lambda>e. e_kind e \<noteq> CALL) pre" using True by simp
    moreover have "filter (\<lambda>e. e_kind e = CALL) (pre @ [e]) = filter (\<lambda>e. e_kind e = CALL) pre @ [e]" using True by simp
    moreover have "pg_callee pg a \<noteq> None" if "filter (\<lambda>e. e_kind e = CALL) pre = a # r" for a r
    proof -
      have "a \<in> set (filter (\<lambda>e. e_kind e = CALL) pre)" using that by simp
      then show ?thesis using es(2) 2(1) by auto
    qed
    ultimately show ?thesis using True f 2(2)
      by (cases "filter (\<lambda>e. e_kind e = CALL) pre") (auto simp: bc_output_edge_def calledCFG_def)
  qed
qed

definition calls_in :: "item list \<Rightarrow> program \<Rightarrow> edge list \<Rightarrow> nat \<Rightarrow> int" where
  "calls_in t pg es f = int (entered t (filter (\<lambda>e. e_kind e = CALL \<and> pg_callee pg e = Some f) es))"

lemma calls_in_snoc:
  "calls_in t pg (es @ [e]) =
    (if e_kind e = CALL
     then (case pg_callee pg e of None \<Rightarrow> calls_in t pg es
       | Some f \<Rightarrow> (calls_in t pg es)(f := calls_in t pg es f + int (count_list t (Enter e))))
     else calls_in t pg es)"
  by (auto simp: calls_in_def entered_snoc fun_eq_iff split: option.split)

lemma bc_call_edge_inv:
  assumes inv: "ipet_inv F t val K (pend(c \<mapsto> x)) ip" and e: "e_kind e = CALL" "pg_callee pg e = Some f" "ip_varb ip (f, 0) \<noteq> None" "f \<in> F"
  shows "\<exists>ip' val'. bc_call_edge pg c e ip = Inr ip' \<and> same_vars ip ip' \<and>
    ipet_inv F t val' (K(f := K f + int (count_list t (Enter e)))) (pend(c \<mapsto> x - int (count_list t (Enter e)))) ip'"
proof -
  let ?y = "int (count_list t (Enter e))"
  obtain v s where n: "newVar (ip_sys ip) = (v, s)" by fastforce
  let ?val = "val(v := ?y)" and ?ip1 = "ip\<lparr>ip_sys := s\<rparr>"
  have i1: "ipet_inv F t ?val K (pend(c \<mapsto> x)) ?ip1" "v < s_new (ip_sys ?ip1)" using inv_newVar [OF inv n] by auto
  obtain w where w: "ip_varb ?ip1 (f, 0) = Some w" using e(3) by auto
  let ?ip2 = "addEntryConstraint f (Some v) ?ip1"
  have i2: "ipet_inv F t ?val (K(f := K f + ?val v)) (pend(c \<mapsto> x)) ?ip2" "same_vars ?ip1 ?ip2" "v < s_new (ip_sys ?ip2)"
    using inv_addEntry [OF i1(1) refl i1(2) w e(4)] i1(2) by (auto simp: same_vars_def)
  have "ipet_inv F t ?val (K(f := K f + ?y)) (pend(c \<mapsto> x - ?y)) (on_sys (addRight c 1 (Some v)) ?ip2)"
    using inv_add [OF i2(1), of c x "Some v" "-1"] i2(3) by (simp add: addRight_cons var_val_def)
  moreover have "bc_call_edge pg c e ip = Inr (on_sys (addRight c 1 (Some v)) ?ip2)"
    using e n by (simp add: bc_call_edge_def calledCFG_def)
  moreover have "same_vars ip (on_sys (addRight c 1 (Some v)) ?ip2)" using i2(2) by (simp add: same_vars_def)
  ultimately show ?thesis by blast
qed

lemma bc_calls_inv:
  assumes inv: "ipet_inv F t val K pend ip" and b: "ip_varb ip (k, b) \<noteq> None"
    and callees: "\<And>e. e \<in> set (call_outs pg k b) \<Longrightarrow> \<exists>f \<in> F. pg_callee pg e = Some f \<and> ip_varb ip (f, 0) \<noteq> None"
    and law: "call_outs pg k b \<noteq> [] \<Longrightarrow> at t k b = entered t (call_outs pg k b)"
    and called: "case call_outs pg k b of [] \<Rightarrow> called = None \<and> \<not> many
      | e # r \<Rightarrow> called = pg_callee pg e \<and> (many \<longleftrightarrow> r \<noteq> [])"
  shows "\<exists>ip' val'. bc_calls pg k b called many ip = Inr ip' \<and> same_vars ip ip' \<and>
    ipet_inv F t val' (\<lambda>g. K g + calls_in t pg (outs (cfg_of pg k) b) g) pend ip'"
proof -
  let ?os = "outs (cfg_of pg k) b"
  have ci: "calls_in t pg ?os g = int (entered t (filter (\<lambda>e. pg_callee pg e = Some g) (call_outs pg k b)))" for g
    by (simp add: calls_in_def call_outs_def conj_commute)
  show ?thesis
  proof (cases "call_outs pg k b")
    case Nil
    then show ?thesis using inv called ci by (auto simp: bc_calls_def same_vars_def entered_def)
  next
    case (Cons e r)
    then obtain f where f: "pg_callee pg e = Some f" "ip_varb ip (f, 0) \<noteq> None" "f \<in> F" using callees [of e] by auto
    obtain w where w: "ip_varb ip (f, 0) = Some w" using f by auto
    obtain v where v: "ip_varb ip (k, b) = Some v" using b by auto
    have cf: "called = Some f" "many \<longleftrightarrow> r \<noteq> []" using called Cons f by auto
    show ?thesis
    proof (cases "r = []")
      case True
      have "int (at t k b) = val v" "v < s_new (ip_sys ip)" using var_of_block [OF inv v] by auto
      moreover have "at t k b = count_list t (Enter e)" using law Cons True by (simp add: entered_def)
      ultimately have "(\<lambda>g. K g + calls_in t pg ?os g) = K(f := K f + val v)"
        using Cons True f by (auto simp: ci entered_def fun_eq_iff)
      then show ?thesis using inv_addEntry [OF inv v _ w f(3)] \<open>v < s_new (ip_sys ip)\<close> cf True
        by (auto simp: bc_calls_def same_vars_def)
    next
      case False
      obtain c ip1 where n: "ip_newConstraint ''multiple call constraint'' EQ 0 ip = (c, ip1)" by fastforce
      define ip2 where "ip2 = on_sys (addLeft c 1 (ip_varb ip1 (k, b))) ip1"
      have i2: "ipet_inv F t val K (pend(c \<mapsto> int (at t k b))) ip2" "pend c = None" "same_vars ip ip2"
        using inv_block_cons [OF inv v n] by (auto simp: ip2_def)
      have "\<exists>ip'. rfold (bc_call_edge pg c) ?os ip2 = Inr ip' \<and> same_vars ip ip' \<and> (\<exists>val'.
          ipet_inv F t val' (\<lambda>g. K g + calls_in t pg ?os g)
            (pend(c \<mapsto> int (at t k b) - int (entered t (filter (\<lambda>e. e_kind e = CALL) ?os)))) ip')"
      proof (rule rfold_invariant [where P = "\<lambda>es ip'. same_vars ip ip' \<and> (\<exists>val'.
          ipet_inv F t val' (\<lambda>g. K g + calls_in t pg es g)
            (pend(c \<mapsto> int (at t k b) - int (entered t (filter (\<lambda>e. e_kind e = CALL) es)))) ip')"])
        have "(\<lambda>g. K g + calls_in t pg [] g) = K" by (simp add: calls_in_def entered_def)
        then show "same_vars ip ip2 \<and> (\<exists>val'. ipet_inv F t val' (\<lambda>g. K g + calls_in t pg [] g)
            (pend(c \<mapsto> int (at t k b) - int (entered t (filter (\<lambda>e. e_kind e = CALL) [])))) ip2)"
          using i2 by (auto simp: entered_def)
        fix pre e post ip3
        assume split: "?os = pre @ e # post" and P: "same_vars ip ip3 \<and> (\<exists>val'. ipet_inv F t val' (\<lambda>g. K g + calls_in t pg pre g)
            (pend(c \<mapsto> int (at t k b) - int (entered t (filter (\<lambda>e. e_kind e = CALL) pre)))) ip3)"
        show "\<exists>ip4. bc_call_edge pg c e ip3 = Inr ip4 \<and> same_vars ip ip4 \<and>
          (\<exists>val'. ipet_inv F t val' (\<lambda>g. K g + calls_in t pg (pre @ [e]) g)
            (pend(c \<mapsto> int (at t k b) - int (entered t (filter (\<lambda>e. e_kind e = CALL) (pre @ [e]))))) ip4)"
        proof (cases "e_kind e = CALL")
          case True
          then have "e \<in> set (call_outs pg k b)" using split by (simp add: call_outs_def)
          then obtain f where f: "pg_callee pg e = Some f" "ip_varb ip (f, 0) \<noteq> None" "f \<in> F" using callees by blast
          obtain val' where "ipet_inv F t val' (\<lambda>g. K g + calls_in t pg pre g)
              (pend(c \<mapsto> int (at t k b) - int (entered t (filter (\<lambda>e. e_kind e = CALL) pre)))) ip3" using P by blast
          from bc_call_edge_inv [OF this True f(1) _ f(3)] P f(2)
          obtain ip4 val4 where i4: "bc_call_edge pg c e ip3 = Inr ip4" "same_vars ip3 ip4"
            "ipet_inv F t val4 ((\<lambda>g. K g + calls_in t pg pre g)(f := K f + calls_in t pg pre f + int (count_list t (Enter e))))
              (pend(c \<mapsto> int (at t k b) - int (entered t (filter (\<lambda>e. e_kind e = CALL) pre)) - int (count_list t (Enter e)))) ip4"
            by (auto simp: same_vars_def)
          have "(\<lambda>g. K g + calls_in t pg pre g)(f := K f + calls_in t pg pre f + int (count_list t (Enter e))) =
              (\<lambda>g. K g + calls_in t pg (pre @ [e]) g)" using True f by (auto simp: calls_in_snoc fun_eq_iff)
          moreover have "filter (\<lambda>e. e_kind e = CALL) (pre @ [e]) = filter (\<lambda>e. e_kind e = CALL) pre @ [e]" using True by simp
          ultimately show ?thesis using i4 P same_vars_trans [OF _ i4(2)] by (auto simp: entered_snoc diff_diff_add)
        next
          case False
          then show ?thesis using P by (auto simp: bc_call_edge_def calls_in_snoc)
        qed
      qed
      then obtain ip' val' where ip': "rfold (bc_call_edge pg c) ?os ip2 = Inr ip'" "same_vars ip ip'"
        "ipet_inv F t val' (\<lambda>g. K g + calls_in t pg ?os g) (pend(c \<mapsto> int (at t k b) - int (entered t (call_outs pg k b)))) ip'"
        by (auto simp: call_outs_def)
      have "at t k b = entered t (call_outs pg k b)" using law Cons by simp
      then have "ipet_inv F t val' (\<lambda>g. K g + calls_in t pg ?os g) (pend(c := None)) ip'"
        using inv_complete [OF ip'(3), of c] by simp
      moreover have "pend(c := None) = pend" using i2(2) by auto
      ultimately show ?thesis using ip'(1,2) cf False n by (auto simp: bc_calls_def ip2_def)
    qed
  qed
qed

subsection \<open>The whole program\<close>

text \<open>What the builders work on: a collection closed under calls, of resolved calls, whose entry
  is not called.\<close>

definition ipet_input :: "program \<Rightarrow> nat list \<Rightarrow> nat \<Rightarrow> bool" where
  "ipet_input pg cfgs entry \<longleftrightarrow> wf_program pg \<and> distinct cfgs \<and> set cfgs \<subseteq> {..<length (pg_cfgs pg)} \<and> entry \<in> set cfgs \<and>
     (\<forall>k \<in> set cfgs. \<forall>e \<in> set (call_edges pg k). \<exists>f \<in> set cfgs. pg_callee pg e = Some f \<and> f \<noteq> entry)"

definition covered :: "program \<Rightarrow> nat list \<Rightarrow> ipet \<Rightarrow> bool" where
  "covered pg cfgs ip \<longleftrightarrow> (\<forall>k \<in> set cfgs. \<forall>b < countBB (cfg_of pg k).
     ip_varb ip (k, b) \<noteq> None \<and> (\<forall>e \<in> set (outs (cfg_of pg k) b). ip_vare ip e \<noteq> None))"

lemma covered_same: "same_vars ip ip' \<Longrightarrow> covered pg cfgs ip' \<longleftrightarrow> covered pg cfgs ip"
  by (simp add: covered_def same_vars_def)

lemma ipet_input_block:
  assumes "ipet_input pg cfgs entry" "k \<in> set cfgs" "b < countBB (cfg_of pg k)"
  shows "wf_program pg" "block pg k b"
    "e \<in> set (ins (cfg_of pg k) b) \<Longrightarrow> e_kind e \<noteq> CALL \<and> e_src e < countBB (cfg_of pg k) \<and> e \<in> set (outs (cfg_of pg k) (e_src e))"
    "e \<in> set (call_outs pg k b) \<Longrightarrow> \<exists>f \<in> set cfgs. pg_callee pg e = Some f \<and> f \<noteq> entry \<and> 0 < countBB (cfg_of pg f)"
proof -
  show wf: "wf_program pg" and b: "block pg k b" using assms by (auto simp: ipet_input_def)
  show "e_kind e \<noteq> CALL \<and> e_src e < countBB (cfg_of pg k) \<and> e \<in> set (outs (cfg_of pg k) (e_src e))"
    if "e \<in> set (ins (cfg_of pg k) b)"
    using that wf_program_cfg(2) [OF wf conjunct1 [OF b]] assms(3) unfolding wf_edges_def by blast
  show "\<exists>f \<in> set cfgs. pg_callee pg e = Some f \<and> f \<noteq> entry \<and> 0 < countBB (cfg_of pg f)" if e: "e \<in> set (call_outs pg k b)"
  proof -
    have "e \<in> set (call_edges pg k)" using e assms(3) by (auto simp: call_outs_def call_edges_def set_bb_iter)
    then obtain f where "f \<in> set cfgs" "pg_callee pg e = Some f" "f \<noteq> entry"
      using assms(1,2) unfolding ipet_input_def by blast
    then show ?thesis using wf_program_cfg(4) [OF wf] assms(1) by (auto simp: ipet_input_def)
  qed
qed

lemma run_laws:
  assumes inp: "ipet_input pg cfgs entry" and run: "run pg entry t" and k: "k \<in> set cfgs" and b: "b < countBB (cfg_of pg k)"
  shows "at t k b = (if k = entry \<and> b = 0 then 1 else 0) + through t (ins (cfg_of pg k) b) + (if b = 0 then calls_to pg t k else 0)"
    and "flow_outs pg k b \<noteq> [] \<Longrightarrow> at t k b = through t (flow_outs pg k b)"
    and "call_outs pg k b \<noteq> [] \<Longrightarrow> at t k b = entered t (call_outs pg k b)"
proof -
  have wf: "wf_program pg" and kb: "block pg k b" using ipet_input_block [OF inp k b] by auto
  have e: "block pg entry 0" using inp wf_program_cfg(4) [OF wf] by (auto simp: ipet_input_def)
  have w: "walk pg entry 0 t" using run by (simp add: run_def)
  show "at t k b = (if k = entry \<and> b = 0 then 1 else 0) + through t (ins (cfg_of pg k) b) + (if b = 0 then calls_to pg t k else 0)"
    using input_law(1) [OF wf w e] kb by blast
  show "at t k b = through t (flow_outs pg k b)" if ne: "flow_outs pg k b \<noteq> []"
  proof -
    obtain x where "x \<in> set (flow_outs pg k b)" using ne by (cases "flow_outs pg k b") auto
    then have "\<not> isExit (cfg_of pg k) b"
      using wf_program_cfg(5,6) [OF wf conjunct1 [OF kb]] b by (auto simp: flow_outs_def)
    then show ?thesis using output_law(1) [OF wf w e] kb by blast
  qed
  show "at t k b = entered t (call_outs pg k b)" if "call_outs pg k b \<noteq> []"
    using call_law(1) [OF wf w e] kb that by blast
qed

lemma bc_processBB_inv:
  assumes inp: "ipet_input pg cfgs entry" and run: "run pg entry t" and k: "k \<in> set cfgs" and b: "b < countBB (cfg_of pg k)"
    and inv: "ipet_inv (set cfgs - {entry}) t val K Map.empty ip" and cov: "covered pg cfgs ip"
  shows "\<exists>ip' val'. bc_processBB pg k b ip = Inr ip' \<and> same_vars ip ip' \<and>
    ipet_inv (set cfgs - {entry}) t val' (\<lambda>g. K g + calls_in t pg (outs (cfg_of pg k) b) g) Map.empty ip'"
proof -
  let ?F = "set cfgs - {entry}" and ?os = "outs (cfg_of pg k) b"
  note blk = ipet_input_block [OF inp k b]
  have v: "ip_varb ip (k, b) \<noteq> None" using cov k b by (auto simp: covered_def)
  have vi: "e_kind e \<noteq> CALL \<and> ip_vare ip e \<noteq> None" if "e \<in> set (ins (cfg_of pg k) b)" for e
    using blk(3) [OF that] cov k by (auto simp: covered_def)
  have li: "at t k b = through t (ins (cfg_of pg k) b)" if "ins (cfg_of pg k) b \<noteq> []"
  proof -
    have "b \<noteq> 0" using that wf_program_cfg(3) [OF blk(1), of k] blk(2) by metis
    then show ?thesis using run_laws(1) [OF inp run k b] by simp
  qed
  let ?ip1 = "bc_input pg k b ip"
  have i1: "ipet_inv ?F t val K Map.empty ?ip1" "same_vars ip ?ip1" using bc_input_inv [OF inv v vi li] by auto
  obtain c ip2 where n: "ip_newConstraint ''structural output constraint'' EQ 0 ?ip1 = (c, ip2)" by fastforce
  define ip3 where "ip3 = on_sys (addLeft c 1 (ip_varb ip2 (k, b))) ip2"
  obtain w where w: "ip_varb ?ip1 (k, b) = Some w" using v i1(2) by (auto simp: same_vars_def)
  have i3: "ipet_inv ?F t val K [c \<mapsto> int (at t k b)] ip3" "same_vars ip ip3"
    using inv_block_cons [OF i1(1) w n] same_vars_trans [OF i1(2)] by (auto simp: ip3_def)
  have vo: "ip_vare ip3 e \<noteq> None" if "e \<in> set ?os" for e
    using that cov k b i3(2) by (auto simp: covered_def same_vars_def)
  have vc: "pg_callee pg e \<noteq> None" if "e \<in> set ?os" "e_kind e = CALL" for e
    using blk(4) [of e] that by (auto simp: call_outs_def)
  obtain bo where bo: "rfold (bc_output_edge pg c) ?os \<lparr>bo_ip = ip3, bo_used = False, bo_called = None, bo_many = False\<rparr> = Inr bo"
      "ipet_inv ?F t val K [c \<mapsto> int (at t k b) - int (through t (flow_outs pg k b))] (bo_ip bo)" "same_vars ip3 (bo_ip bo)"
      "bo_used bo \<longleftrightarrow> flow_outs pg k b \<noteq> []"
      "case call_outs pg k b of [] \<Rightarrow> bo_called bo = None \<and> \<not> bo_many bo
       | e # r \<Rightarrow> bo_called bo = pg_callee pg e \<and> (bo_many bo \<longleftrightarrow> r \<noteq> [])"
    using bc_output_inv [OF i3(1) vo vc] unfolding flow_outs_def call_outs_def by blast
  define ip4 where "ip4 = (if \<not> bo_used bo then on_sys (removeConstraint c) (bo_ip bo) else bo_ip bo)"
  have i4: "ipet_inv ?F t val K Map.empty ip4" "same_vars ip ip4"
  proof -
    show "same_vars ip ip4" using same_vars_trans [OF i3(2) bo(3)] by (simp add: ip4_def same_vars_def)
    show "ipet_inv ?F t val K Map.empty ip4"
    proof (cases "flow_outs pg k b = []")
      case True
      then show ?thesis using inv_remove [OF bo(2), of c] bo(4) by (simp add: ip4_def)
    next
      case False
      then show ?thesis using inv_complete [OF bo(2), of c] bo(4) run_laws(2) [OF inp run k b] by (simp add: ip4_def)
    qed
  qed
  have v4: "ip_varb ip4 (k, b) \<noteq> None" using v i4(2) by (simp add: same_vars_def)
  have f4: "\<exists>f \<in> ?F. pg_callee pg e = Some f \<and> ip_varb ip4 (f, 0) \<noteq> None" if "e \<in> set (call_outs pg k b)" for e
    using blk(4) [OF that] cov i4(2) by (auto simp: covered_def same_vars_def)
  obtain ip' val' where ip': "bc_calls pg k b (bo_called bo) (bo_many bo) ip4 = Inr ip'" "same_vars ip4 ip'"
      "ipet_inv ?F t val' (\<lambda>g. K g + calls_in t pg ?os g) Map.empty ip'"
    using bc_calls_inv [OF i4(1) v4 f4 run_laws(3) [OF inp run k b] bo(5)] by blast
  have "bc_processBB pg k b ip = Inr ip'"
    using n bo(1) ip'(1) unfolding bc_processBB_def by (simp add: Let_def ip3_def [symmetric] ip4_def [symmetric])
  then show ?thesis using ip' same_vars_trans [OF i4(2) ip'(2)] by blast
qed

text \<open>The calls added over all the blocks are the calls of the trace.\<close>

lemma calls_in_append: "calls_in t pg (xs @ ys) f = calls_in t pg xs f + calls_in t pg ys f"
  by (simp add: calls_in_def entered_def)

definition program_outs :: "program \<Rightarrow> nat list \<Rightarrow> edge list" where
  "program_outs pg cfgs = concat (map (\<lambda>(k, b). outs (cfg_of pg k) b)
     (concat (map (\<lambda>k. map (Pair k) (bb_iter (cfg_of pg k))) cfgs)))"

lemma distinct_program_outs:
  assumes "ipet_input pg cfgs entry"
  shows "distinct (program_outs pg cfgs)"
proof -
  have wf: "wf_program pg" using assms by (simp add: ipet_input_def)
  let ?bs = "concat (map (\<lambda>k. map (Pair k) (bb_iter (cfg_of pg k))) cfgs)"
  have set_bs: "set ?bs = {(k, b). k \<in> set cfgs \<and> b < countBB (cfg_of pg k)}" by (auto simp: set_bb_iter)
  have "distinct ?bs"
  proof -
    have "distinct (concat (map (\<lambda>k. map (Pair k) (bb_iter (cfg_of pg k))) ks))" if "distinct ks" for ks
      using that by (induction ks) (auto simp: bb_iter_def distinct_map inj_on_def)
    then show ?thesis using assms by (simp add: ipet_input_def)
  qed
  moreover have "distinct (outs (cfg_of pg k) b)" if "(k, b) \<in> set ?bs" for k b
    using that assms unfolding set_bs by (intro distinct_outs(1) [OF wf]) (auto simp: ipet_input_def)
  moreover have "set (outs (cfg_of pg k) b) \<inter> set (outs (cfg_of pg l) c) = {}"
    if "(k, b) \<in> set ?bs" "(l, c) \<in> set ?bs" "(k, b) \<noteq> (l, c)" for k b l c
    using that wf_program_owner [OF wf, of k l b c] assms unfolding set_bs by (auto simp: ipet_input_def)
  ultimately have "distinct (concat (map (\<lambda>(k, b). outs (cfg_of pg k) b) ?bs))"
  proof -
    have "distinct (concat (map (\<lambda>(k, b). outs (cfg_of pg k) b) xs))"
      if "distinct xs" "\<forall>(k, b) \<in> set xs. distinct (outs (cfg_of pg k) b)"
        "\<forall>(k, b) \<in> set xs. \<forall>(l, c) \<in> set xs. (k, b) \<noteq> (l, c) \<longrightarrow> set (outs (cfg_of pg k) b) \<inter> set (outs (cfg_of pg l) c) = {}" for xs
      using that by (induction xs) fastforce+
    moreover assume "distinct ?bs" "\<And>k b. (k, b) \<in> set ?bs \<Longrightarrow> distinct (outs (cfg_of pg k) b)"
      "\<And>k b l c. (k, b) \<in> set ?bs \<Longrightarrow> (l, c) \<in> set ?bs \<Longrightarrow> (k, b) \<noteq> (l, c) \<Longrightarrow>
        set (outs (cfg_of pg k) b) \<inter> set (outs (cfg_of pg l) c) = {}"
    ultimately show ?thesis by blast
  qed
  then show ?thesis by (simp add: program_outs_def)
qed

lemma calls_in_program:
  assumes inp: "ipet_input pg cfgs entry" and run: "run pg entry t"
  shows "calls_in t pg (program_outs pg cfgs) f = int (calls_to pg t f)"
proof -
  have wf: "wf_program pg" using inp by (simp add: ipet_input_def)
  have C: "\<forall>k \<in> set cfgs. \<forall>f. calls_cfg pg k f \<longrightarrow> f \<in> set cfgs" "set cfgs \<subseteq> {..<length (pg_cfgs pg)}"
    using inp by (fastforce simp: ipet_input_def calls_cfg_def)+
  have "entry \<in> set cfgs" using inp by (simp add: ipet_input_def)
  then have e: "entry \<in> set cfgs" "0 < countBB (cfg_of pg entry)" using wf_program_cfg(4) [OF wf] C(2) by auto
  let ?es = "filter (\<lambda>e. e_kind e = CALL \<and> pg_callee pg e = Some f) (program_outs pg cfgs)"
  have "calls_to pg t f = entered t ?es"
  proof (rule calls_to_entered)
    show "distinct ?es" using distinct_program_outs [OF inp] by simp
    fix x assume x: "Enter x \<in> set t" "pg_callee pg x = Some f"
    have "\<exists>l \<in> set cfgs. \<exists>b < countBB (cfg_of pg l). x \<in> set (call_outs pg l b)"
      using walk_within(1) [OF wf C, of entry 0 t] run e x(1) by (fastforce simp: run_def)
    then show "x \<in> set ?es" using x(2) by (auto simp: program_outs_def call_outs_def set_bb_iter)
  qed auto
  then show ?thesis by (simp add: calls_in_def)
qed

theorem control_constraints_hold:
  assumes inp: "ipet_input pg cfgs entry" and run: "run pg entry t"
  shows "\<exists>ip0 ip val. va_processWorkSpace pg cfgs ipet_new = Inr ip0 \<and> bc_processWorkSpace pg cfgs entry ip0 = Inr ip \<and>
    covered pg cfgs ip \<and> vars_ok ip \<and> counts t val ip \<and> sys_sat val (ip_sys ip)"
proof -
  have wf: "wf_program pg" and en: "entry \<in> set cfgs" using inp by (auto simp: ipet_input_def)
  then have e0: "0 < countBB (cfg_of pg entry)" using inp wf_program_cfg(4) [OF wf] by (auto simp: ipet_input_def)
  let ?F = "set cfgs - {entry}"
  obtain ip0 where ip0: "va_processWorkSpace pg cfgs ipet_new = Inr ip0"
      "va_inv {(k, b). k \<in> set cfgs \<and> b < countBB (cfg_of pg k)}
        (\<Union>k \<in> set cfgs. \<Union>b < countBB (cfg_of pg k). set (outs (cfg_of pg k) b)) ip0"
    using va_processWorkSpace_inv by blast
  have va: "vars_ok ip0" "vars_distinct ip0" "s_conss (ip_sys ip0) = []" "ip_calling ip0 = (\<lambda>_. None)"
    using ip0(2) by (simp_all add: va_inv_def)
  have "(k, b) \<in> dom (ip_varb ip0)" "e \<in> set (outs (cfg_of pg k) b) \<Longrightarrow> e \<in> dom (ip_vare ip0)"
    if "k \<in> set cfgs" "b < countBB (cfg_of pg k)" for k b e
    using ip0(2) that unfolding va_inv_def by blast+
  then have cov0: "covered pg cfgs ip0" by (simp add: covered_def domIff)
  obtain val0 where "counts t val0 ip0" using counts_exist [OF va(2)] by blast
  then have inv0: "ipet_inv ?F t val0 (calls_in t pg []) Map.empty ip0"
    using va by (simp add: ipet_inv_def view_def calls_in_def entered_def)
  have "\<exists>ip. bb_processor pg (bc_processBB pg) cfgs ip0 = Inr ip \<and>
    (\<lambda>bs ip. same_vars ip0 ip \<and> (\<exists>val. ipet_inv ?F t val
        (calls_in t pg (concat (map (\<lambda>(k, b). outs (cfg_of pg k) b) bs))) Map.empty ip))
      (concat (map (\<lambda>k. map (Pair k) (bb_iter (cfg_of pg k))) cfgs)) ip"
  proof (rule bb_processor_invariant)
    show "same_vars ip0 ip0 \<and> (\<exists>val. ipet_inv ?F t val (calls_in t pg (concat (map (\<lambda>(k, b). outs (cfg_of pg k) b) []))) Map.empty ip0)"
      using inv0 by (auto simp: same_vars_def)
    fix pre k b ip assume k: "k \<in> set cfgs" and b: "b < countBB (cfg_of pg k)"
      and P: "same_vars ip0 ip \<and> (\<exists>val. ipet_inv ?F t val (calls_in t pg (concat (map (\<lambda>(k, b). outs (cfg_of pg k) b) pre))) Map.empty ip)"
    let ?K = "calls_in t pg (concat (map (\<lambda>(k, b). outs (cfg_of pg k) b) pre))"
    obtain val where inv: "ipet_inv ?F t val ?K Map.empty ip" using P by blast
    have "covered pg cfgs ip" using cov0 P covered_same by blast
    from bc_processBB_inv [OF inp run k b inv this] obtain ip' val' where ip': "bc_processBB pg k b ip = Inr ip'" "same_vars ip ip'"
      "ipet_inv ?F t val' (\<lambda>g. ?K g + calls_in t pg (outs (cfg_of pg k) b) g) Map.empty ip'" by blast
    have "(\<lambda>g. ?K g + calls_in t pg (outs (cfg_of pg k) b) g) =
        calls_in t pg (concat (map (\<lambda>(k, b). outs (cfg_of pg k) b) (pre @ [(k, b)])))"
      by (simp add: fun_eq_iff calls_in_append)
    then show "\<exists>ip'. bc_processBB pg k b ip = Inr ip' \<and> same_vars ip0 ip' \<and> (\<exists>val. ipet_inv ?F t val
        (calls_in t pg (concat (map (\<lambda>(k, b). outs (cfg_of pg k) b) (pre @ [(k, b)])))) Map.empty ip')"
      using ip' same_vars_trans [OF _ ip'(2)] P by auto
  qed
  then obtain ip1 val1 where ip1: "bb_processor pg (bc_processBB pg) cfgs ip0 = Inr ip1" "same_vars ip0 ip1"
      "ipet_inv ?F t val1 (calls_in t pg (program_outs pg cfgs)) Map.empty ip1"
    by (auto simp: program_outs_def)
  obtain c ip2 where n: "ip_newConstraint ''program entry constraint'' EQ 1 ip1 = (c, ip2)" by fastforce
  have i2: "ipet_inv ?F t val1 (calls_in t pg (program_outs pg cfgs)) [c \<mapsto> - 1] ip2" "same_vars ip1 ip2"
    using inv_newConstraint [OF ip1(3) n] by (auto simp: same_vars_def)
  have cov2: "covered pg cfgs ip2" using cov0 covered_same ip1(2) i2(2) by blast
  then obtain v where v: "ip_varb ip2 (entry, 0) = Some v" using en e0 unfolding covered_def by blast
  have nocall: "calls_to pg t entry = 0"
  proof -
    have no: "pg_callee pg x \<noteq> Some entry"
      if "k \<in> set cfgs" "b < countBB (cfg_of pg k)" "x \<in> set (outs (cfg_of pg k) b)" "e_kind x = CALL" for k b x
      using ipet_input_block(4) [OF inp that(1,2), of x] that by (auto simp: call_outs_def)
    have "filter (\<lambda>e. e_kind e = CALL \<and> pg_callee pg e = Some entry) (program_outs pg cfgs) = []"
      using no by (auto simp: filter_empty_conv program_outs_def set_bb_iter)
    then have "calls_in t pg (program_outs pg cfgs) entry = 0" by (simp add: calls_in_def entered_def)
    then show ?thesis using calls_in_program [OF inp run] by simp
  qed
  have one: "at t entry 0 = 1"
    using run_laws(1) [OF inp run en e0] wf_program_cfg(3) [OF wf, of entry] nocall inp en by (auto simp: ipet_input_def through_def)
  let ?ip3 = "on_sys (addLeft c 1 (ip_varb ip2 (entry, 0))) ip2"
  have i3: "ipet_inv ?F t val1 (calls_in t pg (program_outs pg cfgs)) [c \<mapsto> 0] ?ip3"
    using inv_add [OF i2(1), of c "-1" "Some v" 1] var_of_block [OF i2(1) v] v one by (simp add: addLeft_cons var_val_def)
  have i4: "ipet_inv ?F t val1 (calls_in t pg (program_outs pg cfgs)) Map.empty ?ip3" using inv_complete [OF i3, of c] by simp
  let ?ip = "?ip3\<lparr>ip_calling := (ip_calling ?ip3)(entry \<mapsto> c)\<rparr>"
  have "bc_processWorkSpace pg cfgs entry ip0 = Inr ?ip"
    using ip1(1) n by (simp add: bc_processWorkSpace_def Let_def)
  moreover have "vars_ok ?ip" "counts t val1 ?ip" using i4 by (simp_all add: ipet_inv_def vars_ok_def counts_def)
  moreover have "covered pg cfgs ?ip" using cov2 by (simp add: covered_def)
  moreover have "sys_sat val1 (ip_sys ?ip3)"
  proof -
    have wfs: "sys_wf (ip_sys ?ip3)" using i4 by (simp add: ipet_inv_def vars_ok_def)
    have "cmp_zero cmp x" if vw: "view val1 (ip_sys ?ip3) i = Some (cmp, x)" for i cmp x
    proof (cases "\<exists>f. ip_calling ?ip3 f = Some i")
      case True
      then obtain f where f: "ip_calling ?ip3 f = Some i" by blast
      then have fF: "f \<in> set cfgs" "f \<noteq> entry" using i4 unfolding ipet_inv_def by blast+
      have "view val1 (ip_sys ?ip3) i = Some (EQ, int (at t f 0) - calls_in t pg (program_outs pg cfgs) f)"
        using i4 f unfolding ipet_inv_def by blast
      moreover have fk: "f < length (pg_cfgs pg)" using fF(1) inp by (auto simp: ipet_input_def)
      have "at t f 0 = calls_to pg t f"
        using run_laws(1) [OF inp run fF(1) wf_program_cfg(4) [OF wf fk]] fF(2) wf_program_cfg(3) [OF wf fk] by (simp add: through_def)
      ultimately show ?thesis using vw calls_in_program [OF inp run, of f] by simp
    next
      case False
      then show ?thesis using i4 vw unfolding ipet_inv_def by blast
    qed
    then show ?thesis unfolding view_sat [OF wfs] by blast
  qed
  ultimately show ?thesis using ip0(1) by (intro exI [of _ ip0] exI [of _ ?ip] exI [of _ val1]) simp
qed

text \<open>
  A called CFG that was not collected has no variable: the constant 1 then takes the place of
  its entry and the constraint holds only when the calling block is executed exactly once.
\<close>

lemma uncollected_call_once:
  assumes "vars_ok ip" "ip_calling ip f = None" "ip_varb ip (f, 0) = None" "v < s_new (ip_sys ip)"
  shows "\<exists>c. ip_calling (addEntryConstraint f (Some v) ip) f = Some c \<and>
    view val (ip_sys (addEntryConstraint f (Some v) ip)) c = Some (EQ, 1 - val v)"
proof -
  obtain c s where n: "newConstraint ''call constraint'' EQ 0 (ip_sys ip) = (c, s)" by fastforce
  have wf: "sys_wf s" using newConstraint_wf [OF _ n] assms(1) by (simp add: vars_ok_def)
  have "view val s c = Some (EQ, 0)" using view_newConstraint [OF n, of val] by simp
  then have "view val (cons_add c 1 None s) c = Some (EQ, 1)" using view_cons_add [OF wf, of val c 1 None] by (simp add: var_val_def)
  moreover have "sys_wf (cons_add c 1 None s)" by (rule cons_add_wf [OF wf]) simp
  ultimately have "view val (cons_add c (-1) (Some v) (cons_add c 1 None s)) c = Some (EQ, 1 - val v)"
    by (simp add: view_cons_add var_val_def)
  then show ?thesis using n assms(2,3)
    by (simp add: addEntryConstraint_def ip_newConstraint_def Let_def addLeft_cons addRight_cons on_sys_def)
qed

end
