(* ===== verification/Ipet_Wcet.thy ===== *)
theory Ipet_Wcet
  imports Ipet_Control Loop_Info
begin

text \<open>
  Loop bounds, objective and WCET: otawa/src/prog/ipet_FlowFactConstraintBuilder.cpp bounds the
  back edges of each loop by its entries, otawa/src/prog/ipet_BasicObjectFunctionBuilder.cpp sums
  the times of the edges and otawa/src/prog/ipet_WCETComputation.cpp takes the optimum.

  Together with the control constraints, the computed WCET bounds the time of every complete
  run that keeps_bounds the loop bounds.
\<close>

subsection \<open>Loop bounds\<close>

text \<open>
  The properties \<^verbatim>\<open>MAX_ITERATION\<close>, \<^verbatim>\<open>TOTAL_ITERATION\<close>, \<^verbatim>\<open>MIN_ITERATION\<close> (-1 when absent), and the
  blocks met by following \<^verbatim>\<open>UNROLLED_FROM\<close> from a block.
\<close>

record flow_facts =
  ff_max :: "nat \<times> nat \<Rightarrow> int"
  ff_total :: "nat \<times> nat \<Rightarrow> int"
  ff_min :: "nat \<times> nat \<Rightarrow> int"
  ff_unrolled :: "nat \<times> nat \<Rightarrow> nat list"

definition fc_zero_row :: "edge list \<Rightarrow> nat \<Rightarrow> ipet \<Rightarrow> ipet" where
  "fc_zero_row es n ip =
     (let (cons0, ip) = ip_newConstraint [] EQ 0 ip in
      fold (\<lambda>i. fold (\<lambda>e ip. on_sys (addLeft cons0 1 (ip_vare ip e)) ip) es) [0..<n] ip)"

definition fc_bound_edge :: "dom_info \<Rightarrow> nat \<Rightarrow> nat \<Rightarrow> int \<Rightarrow> edge \<Rightarrow> ipet \<Rightarrow> ipet res" where
  "fc_bound_edge di cons b n e ip =
     rbind (dominates (di_reverse di) b (e_src e)) (\<lambda>dm.
       Inr (if dm then on_sys (addLeft cons 1 (ip_vare ip e)) ip
         else on_sys (addRight cons (if n < 0 then 0 else n) (ip_vare ip e)) ip))"

definition fc_bound :: "dom_info \<Rightarrow> edge list \<Rightarrow> comparator \<Rightarrow> nat \<Rightarrow> nat list \<Rightarrow> int \<Rightarrow> ipet \<Rightarrow> ipet res" where
  "fc_bound di es cmp b unrolled n ip =
     (let n = foldl (\<lambda>n _. n - 1) n unrolled;
          ip = (if n < 0 then fc_zero_row es (nat (- n)) ip else ip);
          (cons, ip) = ip_newConstraint [] cmp 0 ip
      in rfold (fc_bound_edge di cons b n) es ip)"

definition fc_total_edge :: "dom_info \<Rightarrow> nat \<Rightarrow> nat \<Rightarrow> nat \<Rightarrow> int \<Rightarrow> edge \<Rightarrow> ipet \<Rightarrow> ipet res" where
  "fc_total_edge di cons zero b tot e ip =
     rbind (dominates (di_reverse di) b (e_src e)) (\<lambda>dm.
       Inr (if dm then on_sys (addLeft zero 1 (ip_vare ip e)) (on_sys (addLeft cons 1 (ip_vare ip e)) ip)
         else on_sys (addRight zero tot (ip_vare ip e)) ip))"

definition fc_total_unrolled :: "dom_info \<Rightarrow> nat \<Rightarrow> nat \<Rightarrow> edge \<Rightarrow> ipet \<Rightarrow> ipet res" where
  "fc_total_unrolled di cons u e ip =
     rbind (dominates (di_reverse di) (e_src e) u) (\<lambda>dm.
       Inr (if dm then on_sys (addLeft cons 1 (ip_vare ip e)) ip else ip))"

definition fc_total :: "cfg \<Rightarrow> dom_info \<Rightarrow> nat \<Rightarrow> nat list \<Rightarrow> int \<Rightarrow> ipet \<Rightarrow> ipet res" where
  "fc_total g di b unrolled tot ip =
     (let (cons, ip) = ip_newConstraint [] LE 0 ip;
          (zero, ip) = ip_newConstraint [] LE 0 ip;
          ip = on_sys (addRight cons tot None) ip
      in rbind (rfold (fc_total_edge di cons zero b tot) (ins g b) ip) (\<lambda>ip.
           rfold (\<lambda>u. rfold (fc_total_unrolled di cons u) (ins g u)) unrolled ip))"

definition fc_processBB :: "program \<Rightarrow> (nat \<Rightarrow> dom_info) \<Rightarrow> flow_facts \<Rightarrow> nat \<Rightarrow> nat \<Rightarrow> ipet \<Rightarrow> ipet res" where
  "fc_processBB pg doms ff k b ip =
     (let g = cfg_of pg k; di = doms k; unrolled = ff_unrolled ff (k, b);
          mx = ff_max ff (k, b); tot = ff_total ff (k, b); mn = ff_min ff (k, b) in
      if \<not> di_header di ! b then Inr ip
      else if mx < 0 \<and> tot < 0 then Inr ip
      else rbind (if mx \<ge> 0 then fc_bound di (ins g b) LE b unrolled mx ip else Inr ip) (\<lambda>ip.
           rbind (if mn \<ge> 0 then fc_bound di (ins g b) GE b unrolled mn ip else Inr ip) (\<lambda>ip.
             if tot \<ge> 0 then fc_total g di b unrolled tot ip else Inr ip)))"

definition fc_processWorkSpace :: "program \<Rightarrow> nat list \<Rightarrow> (nat \<Rightarrow> dom_info) \<Rightarrow> flow_facts \<Rightarrow> ipet \<Rightarrow> ipet res" where
  "fc_processWorkSpace pg cfgs doms ff = bb_processor pg (fc_processBB pg doms ff) cfgs"

subsection \<open>Objective and result\<close>

text \<open>\<^verbatim>\<open>TIME\<close> of the edges and of the blocks is 64 bits wide; the builder keeps it in an
  \<^verbatim>\<open>int\<close>.\<close>

record times =
  tm_edge :: "edge \<Rightarrow> int"
  tm_block :: "nat \<times> nat \<Rightarrow> int"

definition edge_time :: "times \<Rightarrow> nat \<Rightarrow> nat \<Rightarrow> edge \<Rightarrow> int" where
  "edge_time tm k b e = signed_take_bit 31 (if tm_edge tm e \<ge> 0 then tm_edge tm e else tm_block tm (k, b))"

definition of_edge :: "times \<Rightarrow> nat \<Rightarrow> nat \<Rightarrow> edge \<Rightarrow> ipet \<Rightarrow> ipet res" where
  "of_edge tm k b e ip =
     (if edge_time tm k b e < 0 then Inl Raised
      else Inr (on_sys (addObjectFunction (edge_time tm k b e) (ip_vare ip e)) ip))"

definition of_processBB :: "program \<Rightarrow> times \<Rightarrow> nat \<Rightarrow> nat \<Rightarrow> ipet \<Rightarrow> ipet res" where
  "of_processBB pg tm k b ip =
     (let g = cfg_of pg k in
      if \<not> isEntry g b \<and> \<not> isExit g b then rfold (of_edge tm k b) (ins g b) ip else Inr ip)"

definition of_processWorkSpace :: "program \<Rightarrow> nat list \<Rightarrow> times \<Rightarrow> ipet \<Rightarrow> ipet res" where
  "of_processWorkSpace pg cfgs tm = bb_processor pg (of_processBB pg tm) cfgs"

definition wcet_processWorkSpace :: "(lp_matrix \<Rightarrow> lp_result) \<Rightarrow> bool \<Rightarrow> ipet \<Rightarrow> int \<times> ipet" where
  "wcet_processWorkSpace solver cancelled ip =
     (let (ok, s) = sys_solve solver cancelled (ip_sys ip) in (if ok then s_val s else -1, ip\<lparr>ip_sys := s\<rparr>))"

text \<open>The processors in the order their features require.\<close>

definition ipet_wcet :: "program \<Rightarrow> nat list \<Rightarrow> nat \<Rightarrow> (nat \<Rightarrow> dom_info) \<Rightarrow> flow_facts \<Rightarrow> times \<Rightarrow>
    (lp_matrix \<Rightarrow> lp_result) \<Rightarrow> bool \<Rightarrow> int res" where
  "ipet_wcet pg cfgs entry doms ff tm solver cancelled =
     rbind (va_processWorkSpace pg cfgs ipet_new) (\<lambda>ip.
     rbind (bc_processWorkSpace pg cfgs entry ip) (\<lambda>ip.
     rbind (of_processWorkSpace pg cfgs tm ip) (\<lambda>ip.
     rbind (fc_processWorkSpace pg cfgs doms ff ip) (\<lambda>ip.
       Inr (fst (wcet_processWorkSpace solver cancelled ip))))))"

subsection \<open>Respecting the loop bounds\<close>

definition back_ins :: "program \<Rightarrow> nat \<Rightarrow> nat \<Rightarrow> edge list" where
  "back_ins pg k b = filter (\<lambda>e. b \<in> dom_set (cfg_of pg k) (e_src e)) (ins (cfg_of pg k) b)"

definition entry_ins :: "program \<Rightarrow> nat \<Rightarrow> nat \<Rightarrow> edge list" where
  "entry_ins pg k b = filter (\<lambda>e. b \<notin> dom_set (cfg_of pg k) (e_src e)) (ins (cfg_of pg k) b)"

text \<open>At most \<open>n\<close> back edges after each entry; \<open>c\<close> of them are left.\<close>

fun iter_max :: "edge set \<Rightarrow> edge set \<Rightarrow> nat \<Rightarrow> nat \<Rightarrow> item list \<Rightarrow> bool" where
  "iter_max B E n c [] \<longleftrightarrow> True"
| "iter_max B E n c (Through e # t) \<longleftrightarrow>
     (if e \<in> E then iter_max B E n n t else if e \<in> B then 0 < c \<and> iter_max B E n (c - 1) t else iter_max B E n c t)"
| "iter_max B E n c (_ # t) \<longleftrightarrow> iter_max B E n c t"

text \<open>At least \<open>n\<close> back edges after each entry; \<open>c\<close> are due.\<close>

fun iter_min :: "edge set \<Rightarrow> edge set \<Rightarrow> nat \<Rightarrow> nat \<Rightarrow> item list \<Rightarrow> bool" where
  "iter_min B E n c [] \<longleftrightarrow> c = 0"
| "iter_min B E n c (Through e # t) \<longleftrightarrow>
     (if e \<in> E then c = 0 \<and> iter_min B E n n t else if e \<in> B then iter_min B E n (c - 1) t else iter_min B E n c t)"
| "iter_min B E n c (_ # t) \<longleftrightarrow> iter_min B E n c t"

definition keeps_bounds :: "program \<Rightarrow> nat list \<Rightarrow> flow_facts \<Rightarrow> item list \<Rightarrow> bool" where
  "keeps_bounds pg cfgs ff t \<longleftrightarrow> (\<forall>k \<in> set cfgs. \<forall>b < countBB (cfg_of pg k). loop_header (cfg_of pg k) b \<longrightarrow>
     (let B = back_ins pg k b; E = entry_ins pg k b in
     (0 \<le> ff_max ff (k, b) \<longrightarrow> iter_max (set B) (set E) (nat (ff_max ff (k, b))) 0 t) \<and>
     (0 \<le> ff_min ff (k, b) \<longrightarrow> iter_min (set B) (set E) (nat (ff_min ff (k, b))) 0 t) \<and>
     (0 \<le> ff_total ff (k, b) \<longrightarrow> int (through t B) \<le> ff_total ff (k, b))))"

lemma iter_max_count:
  assumes "distinct bs" "distinct es" "set bs \<inter> set es = {}" "iter_max (set bs) (set es) n c t"
  shows "through t bs \<le> n * through t es + c"
  using assms(4)
proof (induction "set bs" "set es" n c t rule: iter_max.induct)
  case (2 n c e t)
  show ?case
  proof (cases "e \<in> set es")
    case True
    then have "e \<notin> set bs" using assms(3) by blast
    then show ?thesis using 2 True assms by (auto simp: algebra_simps)
  next
    case False
    then show ?thesis using 2 assms by (cases "e \<in> set bs") auto
  qed
qed (use assms in auto)

lemma iter_min_count:
  assumes "distinct bs" "distinct es" "set bs \<inter> set es = {}" "iter_min (set bs) (set es) n c t"
  shows "n * through t es + c \<le> through t bs"
  using assms(4)
proof (induction "set bs" "set es" n c t rule: iter_min.induct)
  case (2 n c e t)
  show ?case
  proof (cases "e \<in> set es")
    case True
    then have "e \<notin> set bs" using assms(3) by blast
    then show ?thesis using 2 True assms by (auto simp: algebra_simps)
  next
    case False
    then show ?thesis using 2 assms by (cases "e \<in> set bs") auto
  qed
qed (use assms in auto)

text \<open>A loop is entered before its back edges are taken.\<close>

lemma entered_before_back:
  assumes wf: "wf_program pg" and l: "block pg l h"
  shows "walk pg k b t \<Longrightarrow> block pg k b \<Longrightarrow> (k = l \<longrightarrow> (\<exists>p. is_path (flow_edge Predecessor (cfg_of pg k)) 0 p b \<and> h \<notin> set p)) \<Longrightarrow>
      h \<noteq> 0 \<Longrightarrow> 0 < through t (back_ins pg l h) \<Longrightarrow> 0 < through t (entry_ins pg l h)"
    and "calling pg k b cs \<Longrightarrow> block pg k b \<Longrightarrow> h \<noteq> 0 \<Longrightarrow> 0 < through cs (back_ins pg l h) \<Longrightarrow> 0 < through cs (entry_ins pg l h)"
proof (induction rule: walk_calling.inducts)
  case (walk_end k b cs)
  then show ?case using distinct_outs(2) [OF wf l] by (simp add: back_ins_def entry_ins_def)
next
  case (walk_edge e k b cs t)
  note e = \<open>e \<in> set (outs (cfg_of pg k) b)\<close> \<open>e_kind e \<noteq> CALL\<close>
  have d: "distinct (back_ins pg l h)" "distinct (entry_ins pg l h)"
    using distinct_outs(2) [OF wf l] by (simp_all add: back_ins_def entry_ins_def)
  have t: "e_src e = b" "block pg k (e_tgt e)" using wf_program_edge [OF wf _ _ e] walk_edge.prems by auto
  have ins: "e \<in> set (ins (cfg_of pg l) h) \<longleftrightarrow> l = k \<and> h = e_tgt e" using in_ins_iff [OF wf walk_edge.prems(1) e l] .
  show ?case
  proof (cases "l = k \<and> h = e_tgt e")
    case True
    then have "\<exists>p. is_path (flow_edge Predecessor (cfg_of pg k)) 0 p b \<and> h \<notin> set p" using walk_edge.prems(2) by blast
    then obtain p where p: "is_path (flow_edge Predecessor (cfg_of pg k)) 0 p b" "h \<notin> set p" by blast
    then have "h \<notin> dom_set (cfg_of pg l) (e_src e)" using True t by (auto simp: on_all_paths_def)
    then have "e \<in> set (entry_ins pg l h)" using ins True by (simp add: entry_ins_def)
    then show ?thesis using d by auto
  next
    case False
    have nb: "e \<notin> set (back_ins pg l h)" using ins False by (simp add: back_ins_def)
    have "\<exists>p. is_path (flow_edge Predecessor (cfg_of pg k)) 0 p (e_tgt e) \<and> h \<notin> set p" if kl: "k = l"
    proof -
      obtain p where p: "is_path (flow_edge Predecessor (cfg_of pg k)) 0 p b" "h \<notin> set p"
        using walk_edge.prems(2) kl by blast
      have "flow_edge Predecessor (cfg_of pg k) b (e_tgt e)" using e by (auto simp: flow_edge_def not_calls_filter)
      then show ?thesis using is_path_snoc [OF p(1)] p(2) False kl by (intro exI [of _ "p @ [e_tgt e]"]) auto
    qed
    then have "0 < through t (back_ins pg l h) \<Longrightarrow> 0 < through t (entry_ins pg l h)"
      "0 < through cs (back_ins pg l h) \<Longrightarrow> 0 < through cs (entry_ins pg l h)"
      using walk_edge t by blast+
    then show ?thesis using walk_edge.prems nb d by auto
  qed
next
  case (calling_one e k b f t)
  note e = \<open>e \<in> set (outs (cfg_of pg k) b)\<close> \<open>e_kind e = CALL\<close> \<open>pg_callee pg e = Some f\<close>
  have f: "block pg f 0" using wf_program_callee [OF wf _ _ e] calling_one.prems wf_program_cfg(4) [OF wf] by blast
  have d: "distinct (back_ins pg l h)" "distinct (entry_ins pg l h)"
    using distinct_outs(2) [OF wf l] by (simp_all add: back_ins_def entry_ins_def)
  have "\<exists>p. is_path (flow_edge Predecessor (cfg_of pg f)) 0 p 0 \<and> h \<notin> set p"
    using calling_one.prems by (intro exI [of _ "[0]"]) simp
  then have "0 < through t (back_ins pg l h) \<Longrightarrow> 0 < through t (entry_ins pg l h)" using calling_one f by blast
  then show ?case using calling_one.prems d by auto
qed simp

subsection \<open>Adding constraints and objective terms\<close>

text \<open>
  \<open>built t val obj pend ip\<close>: the variables hold the counts of the trace, the objective has the
  value \<open>obj\<close>, the constraints of \<open>pend\<close> are being built, the others hold.
\<close>

definition built :: "item list \<Rightarrow> (ilp_var \<Rightarrow> int) \<Rightarrow> int \<Rightarrow> (nat \<Rightarrow> (comparator \<times> int) option) \<Rightarrow> ipet \<Rightarrow> bool" where
  "built t val obj pend ip \<longleftrightarrow> sys_wf (ip_sys ip) \<and> c_cmp (s_ofun (ip_sys ip)) = GT \<and> obj_val val (ip_sys ip) = obj \<and>
     counts t val ip \<and> (\<forall>x v. ip_varb ip x = Some v \<longrightarrow> v < s_new (ip_sys ip)) \<and>
     (\<forall>e v. ip_vare ip e = Some v \<longrightarrow> v < s_new (ip_sys ip)) \<and>
     (\<forall>i cmp x. view val (ip_sys ip) i = Some (cmp, x) \<longrightarrow> pend i = None \<longrightarrow> cmp_zero cmp x) \<and>
     (\<forall>i y. pend i = Some y \<longrightarrow> view val (ip_sys ip) i = Some y)"

lemma built_new:
  assumes b: "built t val obj pend ip" and n: "ip_newConstraint l cmp k ip = (c, ip')"
  shows "built t val obj (pend(c \<mapsto> (cmp, - k))) ip' \<and> same_vars ip ip' \<and> pend c = None"
proof -
  obtain s where s: "newConstraint l cmp k (ip_sys ip) = (c, s)" "ip' = ip\<lparr>ip_sys := s\<rparr>"
    using n by (auto simp: ip_newConstraint_def split: prod.splits)
  have c: "c = s_new (ip_sys ip)" "s_new s = Suc c" using s(1) by (auto simp: newConstraint_def)
  have wf: "sys_wf (ip_sys ip)" using b by (simp add: built_def)
  have "view val (ip_sys ip) c = None" using view_fresh [OF wf] c(1) by simp
  then have f: "pend c = None" using b unfolding built_def by (metis option.distinct(1) option.exhaust)
  have "sys_wf s" by (rule newConstraint_wf [OF wf s(1)])
  moreover have "counts t val ip'" using b s(2) by (simp add: built_def counts_def)
  ultimately show ?thesis using b f s(1) c unfolding built_def s(2)
    by (auto simp: view_newConstraint [OF s(1)] same_vars_def less_Suc_eq)
qed

lemma built_add:
  assumes b: "built t val obj pend ip" and c: "pend c = Some (cmp, x)" and var: "\<And>v. var = Some v \<Longrightarrow> v < s_new (ip_sys ip)"
  shows "built t val obj (pend(c \<mapsto> (cmp, x + coef * var_val val var))) (on_sys (cons_add c coef var) ip)"
proof -
  have wf: "sys_wf (ip_sys ip)" using b by (simp add: built_def)
  have vc: "view val (ip_sys ip) c = Some (cmp, x)" using b c by (simp add: built_def)
  have "counts t val (on_sys (cons_add c coef var) ip)" using b by (simp add: built_def counts_def)
  moreover have "s_new (cons_add c coef var (ip_sys ip)) = s_new (ip_sys ip)" by (simp add: cons_add_def)
  ultimately show ?thesis using b vc cons_add_wf [OF wf var] unfolding built_def
    by (auto simp: view_cons_add [OF wf] on_sys_def)
qed

lemma built_done:
  assumes "built t val obj pend ip" "pend c = Some (cmp, x)" "cmp_zero cmp x"
  shows "built t val obj (pend(c := None)) ip"
  using assms unfolding built_def by auto

text \<open>One more factor: the count of an edge.\<close>

lemma built_edge:
  assumes b: "built t val obj (pend(c \<mapsto> (cmp, x))) ip" and e: "ip_vare ip e \<noteq> None"
  shows "built t val obj (pend(c \<mapsto> (cmp, x + k * int (count_list t (Through e))))) (on_sys (cons_add c k (ip_vare ip e)) ip)"
proof -
  obtain v where v: "ip_vare ip e = Some v" using e by blast
  then have "v < s_new (ip_sys ip)" "val v = int (count_list t (Through e))" using b by (auto simp: built_def counts_def)
  then show ?thesis using built_add [OF b, of c cmp x "Some v" k] v by (simp add: var_val_def)
qed

lemma built_objective:
  assumes b: "built t val obj pend ip" and e: "ip_vare ip e \<noteq> None"
  shows "built t val (obj + k * int (count_list t (Through e))) pend (on_sys (addObjectFunction k (ip_vare ip e)) ip)"
proof -
  obtain v where v: "ip_vare ip e = Some v" using e by blast
  then have x: "v < s_new (ip_sys ip)" "val v = int (count_list t (Through e))" using b by (auto simp: built_def counts_def)
  have wf: "sys_wf (ip_sys ip)" using b by (simp add: built_def)
  have "sys_wf (addObjectFunction k (Some v) (ip_sys ip))" by (rule addObjectFunction_wf [OF wf]) (simp add: x(1))
  moreover have "counts t val (on_sys (addObjectFunction k (Some v)) ip)" using b by (simp add: built_def counts_def)
  moreover have "s_new (addObjectFunction k (Some v) (ip_sys ip)) = s_new (ip_sys ip)" by (simp add: addObjectFunction_def)
  ultimately show ?thesis using b x(2) v unfolding built_def
    by (simp add: view_addObjectFunction obj_val_addObjectFunction [OF wf] on_sys_def)
qed

subsection \<open>The loop constraints hold\<close>

lemma built_right:
  assumes "built t val obj (pend(c \<mapsto> (cmp, x))) ip" "ip_vare ip e \<noteq> None"
  shows "built t val obj (pend(c \<mapsto> (cmp, x - k * int (count_list t (Through e))))) (on_sys (addRight c k (ip_vare ip e)) ip)"
  using built_edge [OF assms, of "- k"] by (simp add: addRight_cons)

lemma through_filter_cons:
  "through t (filter P (e # es)) = (if P e then count_list t (Through e) else 0) + through t (filter P es)"
  by (simp add: through_cons)

lemma fc_bound_edges:
  assumes "built t val obj (pend(c \<mapsto> (cmp, x))) ip" "0 \<le> n"
    "\<And>e. e \<in> set es \<Longrightarrow> ip_vare ip e \<noteq> None \<and> dominates (di_reverse di) b (e_src e) = Inr (P e)"
  shows "\<exists>ip'. rfold (fc_bound_edge di c b n) es ip = Inr ip' \<and> same_vars ip ip' \<and>
    built t val obj (pend(c \<mapsto> (cmp, x + int (through t (filter P es)) - n * int (through t (filter (\<lambda>e. \<not> P e) es))))) ip'"
  using assms
proof (induction es arbitrary: x ip)
  case Nil
  then show ?case by (simp add: same_vars_def through_def)
next
  case (Cons e es)
  have v: "ip_vare ip e \<noteq> None" and d: "dominates (di_reverse di) b (e_src e) = Inr (P e)" using Cons.prems(3) by auto
  obtain ip1 x1 where s: "fc_bound_edge di c b n e ip = Inr ip1" and i1: "built t val obj (pend(c \<mapsto> (cmp, x1))) ip1"
      and v1: "same_vars ip ip1" and x1: "x1 = (if P e then x + int (count_list t (Through e)) else x - n * int (count_list t (Through e)))"
    using built_edge [OF Cons.prems(1) v, of 1] built_right [OF Cons.prems(1) v, of n] d Cons.prems(2)
    by (cases "P e") (auto simp: fc_bound_edge_def addLeft_cons same_vars_def)
  have "ip_vare ip1 e \<noteq> None \<and> dominates (di_reverse di) b (e_src e) = Inr (P e)" if "e \<in> set es" for e
    using Cons.prems(3) [of e] that v1 by (simp add: same_vars_def)
  from Cons.IH [OF i1 Cons.prems(2) this] obtain ip' where "rfold (fc_bound_edge di c b n) es ip1 = Inr ip'" "same_vars ip1 ip'"
      "built t val obj (pend(c \<mapsto> (cmp, x1 + int (through t (filter P es)) - n * int (through t (filter (\<lambda>e. \<not> P e) es))))) ip'"
    by blast
  moreover have "x1 + int (through t (filter P es)) - n * int (through t (filter (\<lambda>e. \<not> P e) es)) =
      x + int (through t (filter P (e # es))) - n * int (through t (filter (\<lambda>e. \<not> P e) (e # es)))"
    unfolding x1 through_filter_cons by (simp add: algebra_simps)
  moreover have "rfold (fc_bound_edge di c b n) (e # es) ip = rfold (fc_bound_edge di c b n) es ip1" using s by simp
  ultimately show ?case using same_vars_trans [OF v1] by metis
qed

lemma fc_bound_built:
  assumes b: "built t val obj pend ip" and n: "0 \<le> n"
    and es: "\<And>e. e \<in> set es \<Longrightarrow> ip_vare ip e \<noteq> None \<and> dominates (di_reverse di) b (e_src e) = Inr (P e)"
    and sat: "cmp_zero cmp (int (through t (filter P es)) - n * int (through t (filter (\<lambda>e. \<not> P e) es)))"
  shows "\<exists>ip'. fc_bound di es cmp b [] n ip = Inr ip' \<and> same_vars ip ip' \<and> built t val obj pend ip'"
proof -
  obtain c ip1 where c: "ip_newConstraint [] cmp 0 ip = (c, ip1)" by fastforce
  have i1: "built t val obj (pend(c \<mapsto> (cmp, 0))) ip1" "same_vars ip ip1" "pend c = None" using built_new [OF b c] by auto
  have "ip_vare ip1 e \<noteq> None \<and> dominates (di_reverse di) b (e_src e) = Inr (P e)" if "e \<in> set es" for e
    using es [OF that] i1(2) by (simp add: same_vars_def)
  from fc_bound_edges [OF i1(1) n this] obtain ip' where ip': "rfold (fc_bound_edge di c b n) es ip1 = Inr ip'" "same_vars ip1 ip'"
      "built t val obj (pend(c \<mapsto> (cmp, int (through t (filter P es)) - n * int (through t (filter (\<lambda>e. \<not> P e) es))))) ip'"
    by auto
  have "built t val obj (pend(c := None)) ip'" using built_done [OF ip'(3), of c] sat by simp
  moreover have "pend(c := None) = pend" using i1(3) by auto
  ultimately show ?thesis using c ip'(1,2) n same_vars_trans [OF i1(2)] by (auto simp: fc_bound_def Let_def)
qed

lemma fc_total_edges:
  assumes "built t val obj (pend(c \<mapsto> (LE, x), z \<mapsto> (LE, y))) ip" "c \<noteq> z"
    "\<And>e. e \<in> set es \<Longrightarrow> ip_vare ip e \<noteq> None \<and> dominates (di_reverse di) b (e_src e) = Inr (P e)"
  shows "\<exists>ip'. rfold (fc_total_edge di c z b n) es ip = Inr ip' \<and> same_vars ip ip' \<and>
    built t val obj (pend(c \<mapsto> (LE, x + int (through t (filter P es))),
      z \<mapsto> (LE, y + int (through t (filter P es)) - n * int (through t (filter (\<lambda>e. \<not> P e) es))))) ip'"
  using assms
proof (induction es arbitrary: x y ip)
  case Nil
  then show ?case by (simp add: same_vars_def through_def)
next
  case (Cons e es)
  let ?k = "int (count_list t (Through e))"
  have v: "ip_vare ip e \<noteq> None" and d: "dominates (di_reverse di) b (e_src e) = Inr (P e)" using Cons.prems(3) by auto
  note tw = fun_upd_twist [OF Cons.prems(2), of pend]
  have i: "built t val obj (pend(z \<mapsto> (LE, y), c \<mapsto> (LE, x))) ip" using Cons.prems(1) unfolding tw .
  have t1: "built t val obj (pend(z \<mapsto> (LE, y), c \<mapsto> (LE, x + ?k))) (on_sys (addLeft c 1 (ip_vare ip e)) ip)"
    using built_edge [OF i v, of 1] by (simp add: addLeft_cons)
  then have t2: "built t val obj (pend(c \<mapsto> (LE, x + ?k), z \<mapsto> (LE, y))) (on_sys (addLeft c 1 (ip_vare ip e)) ip)"
    unfolding tw .
  have t3: "built t val obj (pend(c \<mapsto> (LE, x + ?k), z \<mapsto> (LE, y + ?k)))
      (on_sys (addLeft z 1 (ip_vare ip e)) (on_sys (addLeft c 1 (ip_vare ip e)) ip))"
    using built_edge [OF t2, of e 1] v by (simp add: addLeft_cons)
  obtain ip1 x1 y1 where s: "fc_total_edge di c z b n e ip = Inr ip1"
      and i1: "built t val obj (pend(c \<mapsto> (LE, x1), z \<mapsto> (LE, y1))) ip1" and v1: "same_vars ip ip1"
      and x1: "x1 = (if P e then x + ?k else x)" and y1: "y1 = (if P e then y + ?k else y - n * ?k)"
  proof (cases "P e")
    case True
    then show ?thesis using that [OF _ t3] d by (simp add: fc_total_edge_def same_vars_def)
  next
    case False
    then show ?thesis using that [OF _ built_right [OF Cons.prems(1) v, of n]] d by (simp add: fc_total_edge_def same_vars_def)
  qed
  have "ip_vare ip1 e \<noteq> None \<and> dominates (di_reverse di) b (e_src e) = Inr (P e)" if "e \<in> set es" for e
    using Cons.prems(3) [of e] that v1 by (simp add: same_vars_def)
  from Cons.IH [OF i1 Cons.prems(2) this] obtain ip' where ip': "rfold (fc_total_edge di c z b n) es ip1 = Inr ip'" "same_vars ip1 ip'"
      "built t val obj (pend(c \<mapsto> (LE, x1 + int (through t (filter P es))),
        z \<mapsto> (LE, y1 + int (through t (filter P es)) - n * int (through t (filter (\<lambda>e. \<not> P e) es))))) ip'"
    by blast
  have "x1 + int (through t (filter P es)) = x + int (through t (filter P (e # es)))"
    "y1 + int (through t (filter P es)) - n * int (through t (filter (\<lambda>e. \<not> P e) es)) =
      y + int (through t (filter P (e # es))) - n * int (through t (filter (\<lambda>e. \<not> P e) (e # es)))"
    unfolding x1 y1 through_filter_cons by (simp_all add: algebra_simps)
  moreover have "rfold (fc_total_edge di c z b n) (e # es) ip = rfold (fc_total_edge di c z b n) es ip1" using s by simp
  ultimately show ?case using ip' same_vars_trans [OF v1] by metis
qed

lemma fc_total_built:
  assumes b: "built t val obj pend ip"
    and es: "\<And>e. e \<in> set (ins g b) \<Longrightarrow> ip_vare ip e \<noteq> None \<and> dominates (di_reverse di) b (e_src e) = Inr (P e)"
    and tot: "int (through t (filter P (ins g b))) \<le> n"
    and zero: "0 < through t (filter P (ins g b)) \<Longrightarrow> 0 < through t (filter (\<lambda>e. \<not> P e) (ins g b))"
  shows "\<exists>ip'. fc_total g di b [] n ip = Inr ip' \<and> same_vars ip ip' \<and> built t val obj pend ip'"
proof -
  obtain c ip1 where c: "ip_newConstraint [] LE 0 ip = (c, ip1)" by fastforce
  have i1: "built t val obj (pend(c \<mapsto> (LE, 0))) ip1" "same_vars ip ip1" "pend c = None" using built_new [OF b c] by auto
  obtain z ip2 where z: "ip_newConstraint [] LE 0 ip1 = (z, ip2)" by fastforce
  have i2: "built t val obj (pend(c \<mapsto> (LE, 0), z \<mapsto> (LE, 0))) ip2" "same_vars ip1 ip2" "(pend(c \<mapsto> (LE, 0))) z = None"
    using built_new [OF i1(1) z] by auto
  then have cz: "c \<noteq> z" "pend z = None" by (auto split: if_splits)
  let ?ip3 = "on_sys (addRight c n None) ip2"
  have "built t val obj (pend(c \<mapsto> (LE, 0), z \<mapsto> (LE, 0), c \<mapsto> (LE, - n))) ?ip3"
    using built_add [OF i2(1), of c LE 0 None "- n"] cz by (simp add: addRight_cons var_val_def)
  then have i3: "built t val obj (pend(c \<mapsto> (LE, - n), z \<mapsto> (LE, 0))) ?ip3" using cz by (simp add: fun_upd_twist)
  have sv: "same_vars ip ?ip3" using same_vars_trans [OF i1(2) i2(2)] by (simp add: same_vars_def)
  have "ip_vare ?ip3 e \<noteq> None \<and> dominates (di_reverse di) b (e_src e) = Inr (P e)" if "e \<in> set (ins g b)" for e
    using es [OF that] sv by (simp add: same_vars_def)
  from fc_total_edges [OF i3 cz(1) this, where n = n] obtain ip' where ip': "rfold (fc_total_edge di c z b n) (ins g b) ?ip3 = Inr ip'" "same_vars ?ip3 ip'"
      "built t val obj (pend(c \<mapsto> (LE, - n + int (through t (filter P (ins g b)))),
        z \<mapsto> (LE, 0 + int (through t (filter P (ins g b))) - n * int (through t (filter (\<lambda>e. \<not> P e) (ins g b)))))) ip'"
    by blast
  have "int (through t (filter P (ins g b))) \<le> n * int (through t (filter (\<lambda>e. \<not> P e) (ins g b)))"
  proof (cases "0 < through t (filter P (ins g b))")
    case True
    then have "n * 1 \<le> n * int (through t (filter (\<lambda>e. \<not> P e) (ins g b)))"
      using zero tot by (intro mult_left_mono) auto
    then show ?thesis using tot by simp
  next
    case False
    then show ?thesis using tot by simp
  qed
  then have "built t val obj (pend(c \<mapsto> (LE, - n + int (through t (filter P (ins g b)))))) ip'"
    using built_done [OF ip'(3), of z] cz by (simp add: fun_upd_twist fun_upd_idem)
  from built_done [OF this, of c] tot have "built t val obj pend ip'" using i1(3) by (simp add: fun_upd_idem)
  then show ?thesis using c z ip'(1,2) same_vars_trans [OF sv] by (auto simp: fc_total_def Let_def)
qed

definition wcet_input :: "program \<Rightarrow> nat list \<Rightarrow> nat \<Rightarrow> (nat \<Rightarrow> dom_info) \<Rightarrow> bool" where
  "wcet_input pg cfgs entry doms \<longleftrightarrow> ipet_input pg cfgs entry \<and> (\<forall>k \<in> set cfgs. loop_input (cfg_of pg k) (doms k))"

lemma loop_counts:
  assumes inp: "wcet_input pg cfgs entry doms" and run: "run pg entry t" and keep: "keeps_bounds pg cfgs ff t"
    and k: "k \<in> set cfgs" "b < countBB (cfg_of pg k)" "loop_header (cfg_of pg k) b"
  shows "0 \<le> ff_max ff (k, b) \<Longrightarrow> int (through t (back_ins pg k b)) \<le> ff_max ff (k, b) * int (through t (entry_ins pg k b))"
    and "0 \<le> ff_min ff (k, b) \<Longrightarrow> ff_min ff (k, b) * int (through t (entry_ins pg k b)) \<le> int (through t (back_ins pg k b))"
    and "0 \<le> ff_total ff (k, b) \<Longrightarrow> int (through t (back_ins pg k b)) \<le> ff_total ff (k, b)"
    and "0 < through t (back_ins pg k b) \<Longrightarrow> 0 < through t (entry_ins pg k b)"
proof -
  have wf: "wf_program pg" and e: "block pg entry 0" and kb: "block pg k b"
    using inp k(1,2) wf_program_cfg(4) by (auto simp: wcet_input_def ipet_input_def)
  let ?B = "back_ins pg k b" and ?E = "entry_ins pg k b"
  have d: "distinct ?B" "distinct ?E" "set ?B \<inter> set ?E = {}"
    using distinct_outs(2) [OF wf kb] by (auto simp: back_ins_def entry_ins_def)
  have keep': "(0 \<le> ff_max ff (k, b) \<longrightarrow> iter_max (set ?B) (set ?E) (nat (ff_max ff (k, b))) 0 t) \<and>
     (0 \<le> ff_min ff (k, b) \<longrightarrow> iter_min (set ?B) (set ?E) (nat (ff_min ff (k, b))) 0 t) \<and>
     (0 \<le> ff_total ff (k, b) \<longrightarrow> int (through t ?B) \<le> ff_total ff (k, b))"
    using keep k by (simp add: keeps_bounds_def Let_def)
  have c: "x \<le> nat n * y \<Longrightarrow> int x \<le> n * int y" "nat n * y \<le> x \<Longrightarrow> n * int y \<le> int x" if "0 \<le> n" for x y n
    using that by (metis int_nat_eq of_nat_le_iff of_nat_mult)+
  show "int (through t ?B) \<le> ff_max ff (k, b) * int (through t ?E)" if "0 \<le> ff_max ff (k, b)"
    using c(1) [OF that] iter_max_count [OF d, of _ 0 t] keep' that by (metis add_0_right)
  show "ff_min ff (k, b) * int (through t ?E) \<le> int (through t ?B)" if "0 \<le> ff_min ff (k, b)"
    using c(2) [OF that] iter_min_count [OF d, of _ 0 t] keep' that by (metis add_0_right)
  show "int (through t ?B) \<le> ff_total ff (k, b)" if "0 \<le> ff_total ff (k, b)" using keep' that by blast
  have "b \<noteq> 0" using header_props [OF _ k(3)] inp k(1) by (auto simp: wcet_input_def)
  moreover have "\<exists>p. is_path (flow_edge Predecessor (cfg_of pg entry)) 0 p 0 \<and> b \<notin> set p"
    using \<open>b \<noteq> 0\<close> by (intro exI [of _ "[0]"]) simp
  ultimately show "0 < through t ?B \<Longrightarrow> 0 < through t ?E"
    using entered_before_back(1) [OF wf kb, of entry 0 t] run e by (auto simp: run_def)
qed

lemma fc_processBB_built:
  assumes inp: "wcet_input pg cfgs entry doms" and run: "run pg entry t" and keep: "keeps_bounds pg cfgs ff t"
    and k: "k \<in> set cfgs" "b < countBB (cfg_of pg k)" and u: "ff_unrolled ff (k, b) = []"
    and built: "built t val obj Map.empty ip" and cov: "covered pg cfgs ip"
  shows "\<exists>ip'. fc_processBB pg doms ff k b ip = Inr ip' \<and> same_vars ip ip' \<and> built t val obj Map.empty ip'"
proof (cases "loop_header (cfg_of pg k) b")
  case False
  then have "\<not> di_header (doms k) ! b" using inp k by (auto simp: wcet_input_def loop_input_def)
  then show ?thesis using built by (simp add: fc_processBB_def same_vars_def Let_def)
next
  case True
  let ?g = "cfg_of pg k" and ?P = "\<lambda>e. b \<in> dom_set (cfg_of pg k) (e_src e)"
  let ?mx = "ff_max ff (k, b)" and ?mn = "ff_min ff (k, b)" and ?tot = "ff_total ff (k, b)"
  have li: "loop_input ?g (doms k)" using inp k(1) by (simp add: wcet_input_def)
  have hd: "di_header (doms k) ! b" using li k(2) True by (simp add: loop_input_def)
  have rd: "dom_table ?g (di_reverse (doms k))" and wf: "wf_edges ?g" using li by (auto simp: loop_input_def wf_cfg_def)
  have r: "reachable ?g b" using header_props [OF li True] by simp
  have es: "ip_vare ip' e \<noteq> None \<and> dominates (di_reverse (doms k)) b (e_src e) = Inr (?P e)"
    if "e \<in> set (ins ?g b)" "same_vars ip ip'" for e ip'
  proof -
    have s: "e_src e < countBB ?g" "e \<in> set (outs ?g (e_src e))" using wf k(2) that(1) unfolding wf_edges_def by blast+
    then have "ip_vare ip e \<noteq> None" using cov k(1) unfolding covered_def by blast
    then show ?thesis using dominates_reachable [OF rd k(2) s(1)] r that(2) by (simp add: same_vars_def)
  qed
  have fl: "filter ?P (ins ?g b) = back_ins pg k b" "filter (\<lambda>e. \<not> ?P e) (ins ?g b) = entry_ins pg k b"
    by (simp_all add: back_ins_def entry_ins_def)
  note lc = loop_counts [OF inp run keep k True]
  obtain ip1 where i1: "(if 0 \<le> ?mx then fc_bound (doms k) (ins ?g b) LE b [] ?mx ip else Inr ip) = Inr ip1" "same_vars ip ip1"
      "built t val obj Map.empty ip1"
  proof (cases "0 \<le> ?mx")
    case m: True
    have "cmp_zero LE (int (through t (filter ?P (ins ?g b))) - ?mx * int (through t (filter (\<lambda>e. \<not> ?P e) (ins ?g b))))"
      unfolding fl using lc(1) [OF m] by simp
    from fc_bound_built [OF built m es [of _ ip] this] m that show ?thesis by (auto simp: same_vars_def)
  next
    case False
    then show ?thesis using that built by (simp add: same_vars_def)
  qed
  obtain ip2 where i2: "(if 0 \<le> ?mn then fc_bound (doms k) (ins ?g b) GE b [] ?mn ip1 else Inr ip1) = Inr ip2" "same_vars ip ip2"
      "built t val obj Map.empty ip2"
  proof (cases "0 \<le> ?mn")
    case m: True
    have "cmp_zero GE (int (through t (filter ?P (ins ?g b))) - ?mn * int (through t (filter (\<lambda>e. \<not> ?P e) (ins ?g b))))"
      unfolding fl using lc(2) [OF m] by simp
    from fc_bound_built [OF i1(3) m es [of _ ip1] this] obtain ip2 where
      "fc_bound (doms k) (ins ?g b) GE b [] ?mn ip1 = Inr ip2" "same_vars ip1 ip2" "built t val obj Map.empty ip2"
      using i1(2) by blast
    then show ?thesis using that m same_vars_trans [OF i1(2)] by auto
  next
    case False
    then show ?thesis using that i1 by simp
  qed
  have "\<exists>ip3. (if 0 \<le> ?tot then fc_total ?g (doms k) b [] ?tot ip2 else Inr ip2) = Inr ip3 \<and> same_vars ip ip3 \<and>
      built t val obj Map.empty ip3"
  proof (cases "0 \<le> ?tot")
    case m: True
    have "\<exists>ip3. fc_total ?g (doms k) b [] ?tot ip2 = Inr ip3 \<and> same_vars ip2 ip3 \<and> built t val obj Map.empty ip3"
      by (rule fc_total_built [where P = ?P, OF i2(3)], unfold fl) (use es i2(2) lc(3) [OF m] lc(4) in blast)+
    then obtain ip3 where
      "fc_total ?g (doms k) b [] ?tot ip2 = Inr ip3" "same_vars ip2 ip3" "built t val obj Map.empty ip3" by blast
    then show ?thesis using m same_vars_trans [OF i2(2)] by auto
  next
    case False
    then show ?thesis using i2 by simp
  qed
  then obtain ip3 where i3: "(if 0 \<le> ?tot then fc_total ?g (doms k) b [] ?tot ip2 else Inr ip2) = Inr ip3" "same_vars ip ip3"
      "built t val obj Map.empty ip3" by blast
  show ?thesis
  proof (cases "?mx < 0 \<and> ?tot < 0")
    case True
    then show ?thesis using built hd by (simp add: fc_processBB_def same_vars_def Let_def)
  next
    case False
    have "fc_processBB pg doms ff k b ip = Inr ip3"
      unfolding fc_processBB_def Let_def u if_not_P [OF False] i1(1) i2(1) i3(1) rbind_Inr by (simp add: hd)
    then show ?thesis using i3 by blast
  qed
qed

lemma fc_processWorkSpace_built:
  assumes inp: "wcet_input pg cfgs entry doms" and run: "run pg entry t" and keep: "keeps_bounds pg cfgs ff t"
    and u: "\<And>x. ff_unrolled ff x = []" and built: "built t val obj Map.empty ip" and cov: "covered pg cfgs ip"
  shows "\<exists>ip'. fc_processWorkSpace pg cfgs doms ff ip = Inr ip' \<and> same_vars ip ip' \<and> built t val obj Map.empty ip'"
proof -
  have "\<exists>ip'. bb_processor pg (fc_processBB pg doms ff) cfgs ip = Inr ip' \<and>
    (\<lambda>bs ip'. same_vars ip ip' \<and> built t val obj Map.empty ip') (concat (map (\<lambda>k. map (Pair k) (bb_iter (cfg_of pg k))) cfgs)) ip'"
  proof (rule bb_processor_invariant)
    show "same_vars ip ip \<and> built t val obj Map.empty ip" using built by (simp add: same_vars_def)
    fix pre k b s assume k: "k \<in> set cfgs" "b < countBB (cfg_of pg k)" and P: "same_vars ip s \<and> built t val obj Map.empty s"
    have "covered pg cfgs s" using P cov covered_same by blast
    from fc_processBB_built [OF inp run keep k u _ this] P
    show "\<exists>s'. fc_processBB pg doms ff k b s = Inr s' \<and> same_vars ip s' \<and> built t val obj Map.empty s'"
      using same_vars_trans by blast
  qed
  then show ?thesis by (auto simp: fc_processWorkSpace_def)
qed

subsection \<open>The objective bounds the time of the run\<close>

text \<open>The edges with a factor in the objective, in the order they are added.\<close>

definition timed_edges :: "program \<Rightarrow> nat list \<Rightarrow> (nat \<times> nat \<times> edge) list" where
  "timed_edges pg cfgs = concat (map (\<lambda>(k, b).
     if \<not> isEntry (cfg_of pg k) b \<and> \<not> isExit (cfg_of pg k) b then map (\<lambda>e. (k, b, e)) (ins (cfg_of pg k) b) else [])
     (concat (map (\<lambda>k. map (Pair k) (bb_iter (cfg_of pg k))) cfgs)))"

definition timed :: "program \<Rightarrow> nat list \<Rightarrow> times \<Rightarrow> bool" where
  "timed pg cfgs tm \<longleftrightarrow> (\<forall>(k, b, e) \<in> set (timed_edges pg cfgs). 0 \<le> edge_time tm k b e)"

definition time_sum :: "times \<Rightarrow> item list \<Rightarrow> (nat \<times> nat \<times> edge) list \<Rightarrow> int" where
  "time_sum tm t es = (\<Sum>(k, b, e) \<leftarrow> es. edge_time tm k b e * int (count_list t (Through e)))"

lemma timed_edges_iff: "(k, b, e) \<in> set (timed_edges pg cfgs) \<longleftrightarrow> k \<in> set cfgs \<and> b < countBB (cfg_of pg k) \<and>
    \<not> isEntry (cfg_of pg k) b \<and> \<not> isExit (cfg_of pg k) b \<and> e \<in> set (ins (cfg_of pg k) b)"
  unfolding timed_edges_def set_concat set_map set_bb_iter image_image by (fastforce split: if_splits)

lemma of_edges_built:
  assumes "built t val obj pend ip" "\<And>e. e \<in> set es \<Longrightarrow> ip_vare ip e \<noteq> None \<and> 0 \<le> edge_time tm k b e"
  shows "\<exists>ip'. rfold (of_edge tm k b) es ip = Inr ip' \<and> same_vars ip ip' \<and>
    built t val (obj + time_sum tm t (map (\<lambda>e. (k, b, e)) es)) pend ip'"
  using assms
proof (induction es arbitrary: obj ip)
  case Nil
  then show ?case by (simp add: same_vars_def time_sum_def)
next
  case (Cons e es)
  let ?ip = "on_sys (addObjectFunction (edge_time tm k b e) (ip_vare ip e)) ip"
  have b: "built t val (obj + edge_time tm k b e * int (count_list t (Through e))) pend ?ip"
    using built_objective [OF Cons.prems(1)] Cons.prems(2) by simp
  have s: "same_vars ip ?ip" by (simp add: same_vars_def)
  have "ip_vare ?ip x \<noteq> None \<and> 0 \<le> edge_time tm k b x" if "x \<in> set es" for x using Cons.prems(2) [of x] that by simp
  from Cons.IH [OF b this] obtain ip' where "rfold (of_edge tm k b) es ?ip = Inr ip'" "same_vars ?ip ip'"
      "built t val (obj + edge_time tm k b e * int (count_list t (Through e)) + time_sum tm t (map (\<lambda>e. (k, b, e)) es)) pend ip'"
    by blast
  moreover have "of_edge tm k b e ip = Inr ?ip" using Cons.prems(2) [of e] by (simp add: of_edge_def)
  moreover have "time_sum tm t (map (\<lambda>e. (k, b, e)) (e # es)) =
      edge_time tm k b e * int (count_list t (Through e)) + time_sum tm t (map (\<lambda>e. (k, b, e)) es)"
    by (simp add: time_sum_def)
  ultimately show ?case using same_vars_trans [OF s] by (auto simp: add.assoc)
qed

lemma of_processWorkSpace_built:
  assumes wf: "wf_program pg" "set cfgs \<subseteq> {..<length (pg_cfgs pg)}" and tm: "timed pg cfgs tm"
    and built: "built t val 0 Map.empty ip" and cov: "covered pg cfgs ip"
  shows "\<exists>ip'. of_processWorkSpace pg cfgs tm ip = Inr ip' \<and> same_vars ip ip' \<and>
    built t val (time_sum tm t (timed_edges pg cfgs)) Map.empty ip'"
proof -
  let ?te = "\<lambda>bs. concat (map (\<lambda>(k, b). if \<not> isEntry (cfg_of pg k) b \<and> \<not> isExit (cfg_of pg k) b
    then map (\<lambda>e. (k, b, e)) (ins (cfg_of pg k) b) else []) bs)"
  have "\<exists>ip'. bb_processor pg (of_processBB pg tm) cfgs ip = Inr ip' \<and>
    (\<lambda>bs ip'. same_vars ip ip' \<and> built t val (time_sum tm t (?te bs)) Map.empty ip')
      (concat (map (\<lambda>k. map (Pair k) (bb_iter (cfg_of pg k))) cfgs)) ip'"
  proof (rule bb_processor_invariant)
    show "same_vars ip ip \<and> built t val (time_sum tm t (?te [])) Map.empty ip"
      using built by (simp add: same_vars_def time_sum_def)
    fix pre k b s assume k: "k \<in> set cfgs" "b < countBB (cfg_of pg k)"
      and P: "same_vars ip s \<and> built t val (time_sum tm t (?te pre)) Map.empty s"
    have wfe: "wf_edges (cfg_of pg k)" using wf_program_cfg(2) [OF wf(1)] wf(2) k(1) by blast
    have app: "time_sum tm t (?te (pre @ [(k, b)])) = time_sum tm t (?te pre) + time_sum tm t (?te [(k, b)])"
      by (simp add: time_sum_def)
    show "\<exists>s'. of_processBB pg tm k b s = Inr s' \<and> same_vars ip s' \<and>
        built t val (time_sum tm t (?te (pre @ [(k, b)]))) Map.empty s'"
    proof (cases "\<not> isEntry (cfg_of pg k) b \<and> \<not> isExit (cfg_of pg k) b")
      case True
      have "ip_vare s e \<noteq> None \<and> 0 \<le> edge_time tm k b e" if e: "e \<in> set (ins (cfg_of pg k) b)" for e
      proof -
        have "e_src e < countBB (cfg_of pg k)" "e \<in> set (outs (cfg_of pg k) (e_src e))"
          using wfe k(2) e unfolding wf_edges_def by blast+
        then have "ip_vare ip e \<noteq> None" using cov k(1) unfolding covered_def by blast
        moreover have "(k, b, e) \<in> set (timed_edges pg cfgs)"
          using True e k by (simp add: timed_edges_iff)
        then have "0 \<le> edge_time tm k b e" using tm by (auto simp: timed_def)
        ultimately show ?thesis using P by (simp add: same_vars_def)
      qed
      from of_edges_built [OF conjunct2 [OF P] this] obtain s' where "rfold (of_edge tm k b) (ins (cfg_of pg k) b) s = Inr s'"
          "same_vars s s'" "built t val (time_sum tm t (?te pre) + time_sum tm t (map (\<lambda>e. (k, b, e)) (ins (cfg_of pg k) b))) Map.empty s'"
        by blast
      then show ?thesis using True P same_vars_trans unfolding app by (auto simp: of_processBB_def)
    next
      case False
      then show ?thesis using P unfolding app by (auto simp: of_processBB_def time_sum_def)
    qed
  qed
  then show ?thesis by (simp add: of_processWorkSpace_def timed_edges_def)
qed

subsection \<open>The computed WCET\<close>

definition run_time :: "(edge \<Rightarrow> int) \<Rightarrow> item list \<Rightarrow> int" where
  "run_time cost t = (\<Sum>i \<leftarrow> t. case i of Through e \<Rightarrow> cost e | _ \<Rightarrow> 0)"

text \<open>The costs of the hardware stay below the times given to the builder; what leads to the
  end blocks of a CFG costs nothing.\<close>

definition costs_within :: "program \<Rightarrow> nat list \<Rightarrow> times \<Rightarrow> (edge \<Rightarrow> int) \<Rightarrow> bool" where
  "costs_within pg cfgs tm cost \<longleftrightarrow> (\<forall>k \<in> set cfgs. \<forall>b < countBB (cfg_of pg k). \<forall>e \<in> set (ins (cfg_of pg k) b).
     cost e \<le> (if isEntry (cfg_of pg k) b \<or> isExit (cfg_of pg k) b then 0 else edge_time tm k b e))"

lemma run_time_below:
  assumes "\<forall>(k, b, e) \<in> set es. 0 \<le> edge_time tm k b e"
    "\<And>e. Through e \<in> set t \<Longrightarrow> (\<exists>k b. (k, b, e) \<in> set es \<and> cost e \<le> edge_time tm k b e) \<or> cost e \<le> 0"
  shows "run_time cost t \<le> time_sum tm t es"
  using assms(2)
proof (induction t)
  case Nil
  have "time_sum tm [] es = 0" by (induction es) (auto simp: time_sum_def)
  then show ?case by (simp add: run_time_def)
next
  case (Cons i t)
  have IH: "run_time cost t \<le> time_sum tm t es" using Cons by simp
  let ?one = "\<lambda>(k, b, e). edge_time tm k b e * (if i = Through e then 1 else 0)"
  have "time_sum tm (i # t) es = (\<Sum>x \<leftarrow> es. ?one x) + time_sum tm t es"
    by (induction es) (auto simp: time_sum_def algebra_simps)
  moreover have "(case i of Through e \<Rightarrow> cost e | _ \<Rightarrow> 0) \<le> (\<Sum>x \<leftarrow> es. ?one x)"
  proof -
    have nn: "0 \<le> ?one x" if "x \<in> set es" for x using assms(1) that by auto
    then have pos: "0 \<le> (\<Sum>x \<leftarrow> es. ?one x)" by (intro sum_list_nonneg) auto
    show ?thesis
    proof (cases i)
      case (Through e)
      show ?thesis
      proof (cases "cost e \<le> 0")
        case False
        then obtain k b where kb: "(k, b, e) \<in> set es" "cost e \<le> edge_time tm k b e" using Cons.prems [of e] Through by auto
        have "f x \<le> (\<Sum>x \<leftarrow> xs. f x)" if "x \<in> set xs" "\<forall>x \<in> set xs. 0 \<le> f x" for x xs and f :: "nat \<times> nat \<times> edge \<Rightarrow> int"
          using member_le_sum_list [of "f x" "map f xs"] that by auto
        from this [OF kb(1), of ?one] have "?one (k, b, e) \<le> (\<Sum>x \<leftarrow> es. ?one x)" using nn by blast
        then show ?thesis using kb(2) Through by simp
      qed (use pos Through in auto)
    qed (use pos in auto)
  qed
  ultimately show ?case using IH by (simp add: run_time_def)
qed

text \<open>The processors before the solver: the counts of the run solve the system and the objective
  has at least its time.\<close>

lemma ipet_system_built:
  assumes inp: "wcet_input pg cfgs entry doms" and u: "\<And>x. ff_unrolled ff x = []" and tm: "timed pg cfgs tm"
    and run: "run pg entry t" and keep: "keeps_bounds pg cfgs ff t" and cost: "costs_within pg cfgs tm cost"
  shows "\<exists>ip0 ip1 ip2 ip3 val obj. va_processWorkSpace pg cfgs ipet_new = Inr ip0 \<and> bc_processWorkSpace pg cfgs entry ip0 = Inr ip1 \<and>
    of_processWorkSpace pg cfgs tm ip1 = Inr ip2 \<and> fc_processWorkSpace pg cfgs doms ff ip2 = Inr ip3 \<and>
    covered pg cfgs ip3 \<and> built t val obj Map.empty ip3 \<and> run_time cost t \<le> obj"
proof -
  have inp': "ipet_input pg cfgs entry" and wf: "wf_program pg" and C: "set cfgs \<subseteq> {..<length (pg_cfgs pg)}"
    and en: "entry \<in> set cfgs" and closed: "\<forall>k \<in> set cfgs. \<forall>f. calls_cfg pg k f \<longrightarrow> f \<in> set cfgs"
    using inp by (fastforce simp: wcet_input_def ipet_input_def calls_cfg_def)+
  obtain ip0 ip1 val where ip: "va_processWorkSpace pg cfgs ipet_new = Inr ip0" "bc_processWorkSpace pg cfgs entry ip0 = Inr ip1"
      "covered pg cfgs ip1" "vars_ok ip1" "counts t val ip1" "sys_sat val (ip_sys ip1)"
    using control_constraints_hold [OF inp' run] by blast
  have wf1: "sys_wf (ip_sys ip1)" and ofun: "s_ofun (ip_sys ip1) = new_constr [] GT 0" using ip(4) by (simp_all add: vars_ok_def)
  have "\<forall>i cmp x. view val (ip_sys ip1) i = Some (cmp, x) \<longrightarrow> cmp_zero cmp x" using ip(6) view_sat [OF wf1] by blast
  then have b1: "built t val 0 Map.empty ip1"
    using wf1 ofun ip(4,5) by (simp add: built_def obj_val_def new_constr_def facts_val_def vars_ok_def)
  obtain ip2 where ip2: "of_processWorkSpace pg cfgs tm ip1 = Inr ip2" "same_vars ip1 ip2"
      "built t val (time_sum tm t (timed_edges pg cfgs)) Map.empty ip2"
    using of_processWorkSpace_built [OF wf C tm b1 ip(3)] by blast
  have "covered pg cfgs ip2" using ip(3) ip2(2) covered_same by blast
  from fc_processWorkSpace_built [OF inp run keep u ip2(3) this] obtain ip3 where
    ip3: "fc_processWorkSpace pg cfgs doms ff ip2 = Inr ip3" "same_vars ip2 ip3"
      "built t val (time_sum tm t (timed_edges pg cfgs)) Map.empty ip3" by blast
  have "covered pg cfgs ip3" using ip(3) ip2(2) ip3(2) covered_same by blast
  moreover have "run_time cost t \<le> time_sum tm t (timed_edges pg cfgs)"
  proof (rule run_time_below)
    show "\<forall>(k, b, e) \<in> set (timed_edges pg cfgs). 0 \<le> edge_time tm k b e" using tm by (simp add: timed_def)
    fix e assume e: "Through e \<in> set t"
    have "0 < countBB (cfg_of pg entry)" using wf_program_cfg(4) [OF wf] C en by blast
    then have "\<exists>l \<in> set cfgs. \<exists>x < countBB (cfg_of pg l). e \<in> set (flow_outs pg l x)"
      using walk_within(1) [OF wf closed C, of entry 0 t] run en e by (fastforce simp: run_def)
    then obtain l x where l: "l \<in> set cfgs" "x < countBB (cfg_of pg l)" "e \<in> set (outs (cfg_of pg l) x)" "e_kind e \<noteq> CALL"
      by (auto simp: flow_outs_def)
    have t: "e_tgt e < countBB (cfg_of pg l)" "e \<in> set (ins (cfg_of pg l) (e_tgt e))"
      using wf_program_edge [OF wf _ l(2-4)] C l(1) by auto
    then have c: "cost e \<le> (if isEntry (cfg_of pg l) (e_tgt e) \<or> isExit (cfg_of pg l) (e_tgt e) then 0 else edge_time tm l (e_tgt e) e)"
      using cost l(1) unfolding costs_within_def by blast
    show "(\<exists>k b. (k, b, e) \<in> set (timed_edges pg cfgs) \<and> cost e \<le> edge_time tm k b e) \<or> cost e \<le> 0"
      using c t l(1) timed_edges_iff [of l "e_tgt e" e pg cfgs] by (metis (full_types))
  qed
  ultimately show ?thesis using ip(1,2) ip2(1) ip3(1,3) by blast
qed

lemma wcet_of_built:
  assumes "lp_solver_ok solver" "built t val obj Map.empty ip" "fst (wcet_processWorkSpace solver cancelled ip) \<noteq> -1"
  shows "obj \<le> fst (wcet_processWorkSpace solver cancelled ip)"
proof -
  obtain ok s where s: "sys_solve solver cancelled (ip_sys ip) = (ok, s)" by fastforce
  then have w: "fst (wcet_processWorkSpace solver cancelled ip) = (if ok then s_val s else -1)"
    by (simp add: wcet_processWorkSpace_def)
  then have ok: ok using assms(3) by (simp split: if_splits)
  have wf: "sys_wf (ip_sys ip)" and g: "c_cmp (s_ofun (ip_sys ip)) = GT" and p: "\<And>v. 0 \<le> val v"
    and o: "obj_val val (ip_sys ip) = obj"
    and v: "\<forall>i cmp x. view val (ip_sys ip) i = Some (cmp, x) \<longrightarrow> cmp_zero cmp x"
    using assms(2) unfolding built_def counts_def by blast+
  have "sys_sat val (ip_sys ip)" using v view_sat [OF wf] by blast
  from solve_bounds [OF assms(1) _ wf g this p] have "obj_val val (ip_sys ip) \<le> s_val s" using s ok by simp
  then show ?thesis using w ok o by simp
qed

theorem ipet_wcet_bounds:
  assumes inp: "wcet_input pg cfgs entry doms" and u: "\<And>x. ff_unrolled ff x = []" and tm: "timed pg cfgs tm"
    and solver: "lp_solver_ok solver" and run: "run pg entry t" and keep: "keeps_bounds pg cfgs ff t"
    and cost: "costs_within pg cfgs tm cost"
  shows "\<exists>w. ipet_wcet pg cfgs entry doms ff tm solver cancelled = Inr w \<and> (w \<noteq> -1 \<longrightarrow> run_time cost t \<le> w)"
proof -
  obtain ip0 ip1 ip2 ip3 val obj where ip: "va_processWorkSpace pg cfgs ipet_new = Inr ip0"
    "bc_processWorkSpace pg cfgs entry ip0 = Inr ip1" "of_processWorkSpace pg cfgs tm ip1 = Inr ip2"
    "fc_processWorkSpace pg cfgs doms ff ip2 = Inr ip3" "built t val obj Map.empty ip3" "run_time cost t \<le> obj"
    using ipet_system_built [OF inp u tm run keep cost] by blast
  then show ?thesis using wcet_of_built [OF solver ip(5), of cancelled] by (fastforce simp: ipet_wcet_def)
qed

subsection \<open>Unrolled loops\<close>

text \<open>
  When more iterations were unrolled than the bound, the rows of \<open>fc_zero_row\<close> forbid every
  traversal of the edges that enter the header. This is right for the maximum; the same row
  is built for \<^verbatim>\<open>MIN_ITERATION\<close>, where a larger count is allowed.
\<close>

definition zero_state :: "(ilp_var \<Rightarrow> int) \<Rightarrow> (edge \<Rightarrow> ilp_var option) \<Rightarrow> nat \<Rightarrow> int \<Rightarrow> ipet \<Rightarrow> bool" where
  "zero_state val ve c x ip \<longleftrightarrow> sys_wf (ip_sys ip) \<and> ip_vare ip = ve \<and> (\<forall>e v. ve e = Some v \<longrightarrow> v < s_new (ip_sys ip)) \<and>
     view val (ip_sys ip) c = Some (EQ, x)"

lemma zero_state_add:
  assumes "zero_state val ve c x ip"
  shows "zero_state val ve c (x + var_val val (ve e)) (on_sys (addLeft c 1 (ip_vare ip e)) ip)"
proof -
  have wf: "sys_wf (ip_sys ip)" using assms by (simp add: zero_state_def)
  have "sys_wf (cons_add c 1 (ve e) (ip_sys ip))" by (rule cons_add_wf [OF wf]) (use assms in \<open>auto simp: zero_state_def\<close>)
  moreover have "s_new (cons_add c 1 (ve e) (ip_sys ip)) = s_new (ip_sys ip)" by (simp add: cons_add_def)
  ultimately show ?thesis using assms by (simp add: zero_state_def on_sys_def addLeft_cons view_cons_add)
qed

lemma zero_row_view:
  assumes "vars_ok ip"
  shows "\<exists>c. view val (ip_sys (fc_zero_row es n ip)) c = Some (EQ, int n * (\<Sum>e \<leftarrow> es. var_val val (ip_vare ip e)))"
proof -
  obtain c ip1 where c: "ip_newConstraint [] EQ 0 ip = (c, ip1)" by fastforce
  obtain s where s: "newConstraint [] EQ 0 (ip_sys ip) = (c, s)" "ip1 = ip\<lparr>ip_sys := s\<rparr>"
    using c by (auto simp: ip_newConstraint_def split: prod.splits)
  let ?S = "\<Sum>e \<leftarrow> es. var_val val (ip_vare ip e)"
  have "s_new s = Suc (s_new (ip_sys ip))" using s(1) by (auto simp: newConstraint_def)
  then have z: "zero_state val (ip_vare ip) c 0 ip1"
    using assms newConstraint_wf [OF _ s(1)] s(2) view_newConstraint [OF s(1), of val]
    by (auto simp: zero_state_def vars_ok_def less_Suc_eq)
  let ?row = "\<lambda>i. fold (\<lambda>e ip. on_sys (addLeft c 1 (ip_vare ip e)) ip) es"
  have row: "zero_state val (ip_vare ip) c (x + ?S) (?row (i :: nat) ip2)" if "zero_state val (ip_vare ip) c x ip2" for x i ip2
    using that
  proof (induction es arbitrary: x ip2)
    case (Cons e es)
    from Cons.IH [OF zero_state_add [OF Cons.prems], of e] show ?case by (simp add: add.assoc)
  qed simp
  have "zero_state val (ip_vare ip) c (int n * ?S) (fold ?row [0..<n] ip1)"
  proof (induction n)
    case 0
    then show ?case using z by simp
  next
    case (Suc n)
    from row [OF Suc] show ?case by (simp add: algebra_simps)
  qed
  moreover have "fc_zero_row es n ip = fold ?row [0..<n] ip1" using c by (simp add: fc_zero_row_def)
  ultimately show ?thesis unfolding zero_state_def by metis
qed

end
