(* ===== verification/Icache_Ipet.thy ===== *)
theory Icache_Ipet
  imports Ipet_Wcet Cache_Cat2
begin

text \<open>
  The instruction cache in the system of constraints. \<^verbatim>\<open>LinkedBlocksDetector\<close>
  (otawa/src/prog/cache_LinkedBlocksDetector.cpp) groups the first-miss l-blocks of a cache block and
  a loop; \<^verbatim>\<open>CAT2OnlyConstraintBuilder\<close> and \<^verbatim>\<open>CAT2ConstraintBuilder\<close>
  (otawa/src/prog/cache_CAT2ConstraintBuilder.cpp) give each l-block a variable for its misses, bound it
  by the category of the l-block and add the misses to the objective. When the misses of a run
  are within what the categories promise, the WCET bounds its time with the time of the misses.
\<close>

subsection \<open>L-blocks with their categories\<close>

text \<open>\<^verbatim>\<open>CATEGORY\<close> and \<^verbatim>\<open>CATEGORY_HEADER\<close> of an l-block; the first and the last one of a set are markers.\<close>

record cat_lblock = lblock +
  lc_cfg :: nat
  lc_cat :: category
  lc_header :: "(nat \<times> nat) option"

type_synonym linked = "nat \<Rightarrow> cat_lblock list option"

definition is_marker :: "cat_lblock list \<Rightarrow> cat_lblock \<Rightarrow> bool" where
  "is_marker lbset lb \<longleftrightarrow> lb_id lb = 0 \<or> lb_id lb = length lbset - 1"

subsection \<open>Linked l-blocks\<close>

text \<open>\<^verbatim>\<open>NumberOrder\<close> compares the numbers of the headers in their CFGs.\<close>

definition number_order :: "cat_lblock \<Rightarrow> cat_lblock \<Rightarrow> int res" where
  "number_order a b = rbind (deref (lc_header a)) (\<lambda>h. rbind (deref (lc_header b)) (\<lambda>h'.
     Inr (int (snd h) - int (snd h'))))"

definition link_add :: "cat_lblock list \<Rightarrow> cat_lblock \<Rightarrow> cat_lblock list list \<Rightarrow> cat_lblock list list res" where
  "link_add lbset lb bl =
     (if is_marker lbset lb \<or> lc_cat lb \<noteq> FIRST_MISS then Inr bl
      else if lb_cacheblock lb < length bl
      then rbind (ssl_add number_order lb (bl ! lb_cacheblock lb)) (\<lambda>l. Inr (bl[lb_cacheblock lb := l]))
      else Inl OutOfBounds)"

definition recordBlocks :: "cat_lblock list \<Rightarrow> linked \<Rightarrow> linked res" where
  "recordBlocks grp m =
     (if length grp = 1 then Inr m
      else rfold (\<lambda>lb m. asserting (lc_cat lb = FIRST_MISS) (Inr (m(lb_id lb \<mapsto> grp)))) grp m)"

fun link_split :: "cat_lblock list \<Rightarrow> (nat \<times> nat) option \<Rightarrow> cat_lblock list \<Rightarrow> linked \<Rightarrow> linked res" where
  "link_split [] old_header grp m = recordBlocks grp m"
| "link_split (lb # lbs) old_header grp m =
     rbind (if old_header \<noteq> None \<and> old_header \<noteq> lc_header lb
            then rbind (recordBlocks grp m) (\<lambda>m. Inr ([], m)) else Inr (grp, m))
       (\<lambda>(grp, m). link_split lbs (lc_header lb) (grp @ [lb]) m)"

text \<open>
  A list of cache block \<open>j\<close> that was not created is empty; \<^verbatim>\<open>cacheBlockCount\<close> of a set is the number of its
  l-blocks (otawa/include/otawa/cache/LBlockSet.h).
\<close>

definition link_set :: "cat_lblock list \<Rightarrow> linked res" where
  "link_set lbset =
     rbind (rfold (link_add lbset) lbset (replicate (length lbset) [])) (\<lambda>bl.
       rfold (\<lambda>l m. if l = [] then Inr m else link_split l None [] m) bl (\<lambda>_. None))"

definition link_processWorkSpace :: "cat_lblock list list \<Rightarrow> linked list res" where
  "link_processWorkSpace lbsets = rfold (\<lambda>lbset ms. rbind (link_set lbset) (\<lambda>m. Inr (ms @ [m]))) lbsets []"

subsection \<open>Constraints\<close>

text \<open>\<^verbatim>\<open>MISS_VAR\<close> of the l-blocks, by set and identifier.\<close>

record icache =
  ic_miss :: "nat \<times> nat \<Rightarrow> ilp_var option"
  ic_ip :: ipet

definition ic_sys :: "(ilp_sys \<Rightarrow> ilp_sys) \<Rightarrow> icache \<Rightarrow> icache" where
  "ic_sys f st = st\<lparr>ic_ip := on_sys f (ic_ip st)\<rparr>"

definition ic_cons :: "string \<Rightarrow> comparator \<Rightarrow> icache \<Rightarrow> nat \<times> icache" where
  "ic_cons label cmp st = (let (c, ip) = ip_newConstraint label cmp 0 (ic_ip st) in (c, st\<lparr>ic_ip := ip\<rparr>))"

definition ic_newVar :: "nat \<Rightarrow> cat_lblock \<Rightarrow> icache \<Rightarrow> icache" where
  "ic_newVar i lb st = (let (v, s) = newVar (ip_sys (ic_ip st))
     in \<lparr>ic_miss = (ic_miss st)((i, lb_id lb) \<mapsto> v), ic_ip = (ic_ip st)\<lparr>ip_sys := s\<rparr>\<rparr>)"

definition ic_block :: "cat_lblock \<Rightarrow> icache \<Rightarrow> ilp_var option" where
  "ic_block lb st = ip_varb (ic_ip st) (lc_cfg lb, lb_bb lb)"

definition add_entry_edge :: "dom_info \<Rightarrow> nat \<Rightarrow> nat \<Rightarrow> edge \<Rightarrow> icache \<Rightarrow> icache res" where
  "add_entry_edge di h c e st = rbind (dominates (di_reverse di) h (e_src e)) (\<lambda>dm.
     Inr (if \<not> dm then ic_sys (addRight c 1 (ip_vare (ic_ip st) e)) st else st))"

definition add_miss :: "nat \<Rightarrow> nat \<Rightarrow> cat_lblock \<Rightarrow> icache \<Rightarrow> icache" where
  "add_miss c i lb st = ic_sys (addLeft c 1 (ic_miss st (i, lb_id lb))) st"

definition add_block :: "nat \<Rightarrow> cat_lblock \<Rightarrow> icache \<Rightarrow> icache" where
  "add_block c lb st = ic_sys (addRight c 1 (ic_block lb st)) st"

definition fm_constraint :: "program \<Rightarrow> (nat \<Rightarrow> dom_info) \<Rightarrow> nat \<Rightarrow> nat \<times> nat \<Rightarrow> cat_lblock list \<Rightarrow> icache \<Rightarrow> icache res" where
  "fm_constraint pg doms i header lbs st = (case ic_cons ''L1 I$: first miss'' LE st of (c, st) \<Rightarrow>
     rfold (add_entry_edge (doms (fst header)) (snd header) c) (ins (cfg_of pg (fst header)) (snd header)) (fold (add_miss c i) lbs st))"

definition fm_bound :: "nat \<Rightarrow> cat_lblock \<Rightarrow> icache \<Rightarrow> icache" where
  "fm_bound i lb st = (case ic_cons ''L1 I$: first miss'' LE st of (c, st) \<Rightarrow> add_miss c i lb (add_block c lb st))"

definition cat2_first_miss :: "program \<Rightarrow> (nat \<Rightarrow> dom_info) \<Rightarrow> nat \<Rightarrow> linked \<Rightarrow> cat_lblock \<Rightarrow> icache \<Rightarrow> icache res" where
  "cat2_first_miss pg doms i m lb st = (case lc_header lb of
     None \<Rightarrow> Inl AssertFail
   | Some header \<Rightarrow>
       (case (case m (lb_id lb) of
           Some linked \<Rightarrow>
             (if linked = [] then Inl OutOfBounds
              else if lb_id (last linked) = lb_id lb then fm_constraint pg doms i header linked st else Inr st)
         | None \<Rightarrow> fm_constraint pg doms i header [lb] st) of
          Inl f \<Rightarrow> Inl f
        | Inr st \<Rightarrow> Inr (fm_bound i lb st)))"

definition cat2_category :: "program \<Rightarrow> (nat \<Rightarrow> dom_info) \<Rightarrow> nat \<Rightarrow> linked \<Rightarrow> cat_lblock \<Rightarrow> icache \<Rightarrow> icache res" where
  "cat2_category pg doms i m lb st = (case lc_cat lb of
       ALWAYS_HIT \<Rightarrow> (case ic_cons ''L1 I$: always hit'' EQ st of (c, st) \<Rightarrow> Inr (add_miss c i lb st))
     | FIRST_HIT \<Rightarrow> (case ic_cons ''L1 I$: not-classified'' LE st of (c, st) \<Rightarrow> Inr (add_block c lb (add_miss c i lb st)))
     | NOT_CLASSIFIED \<Rightarrow> (case ic_cons ''L1 I$: not-classified'' LE st of (c, st) \<Rightarrow> Inr (add_block c lb (add_miss c i lb st)))
     | ALWAYS_MISS \<Rightarrow> (case ic_cons ''L1 I$: always miss'' EQ st of (c, st) \<Rightarrow> Inr (add_block c lb (add_miss c i lb st)))
     | FIRST_MISS \<Rightarrow> cat2_first_miss pg doms i m lb st
     | INVALID_CATEGORY \<Rightarrow> Inl AssertFail)"

definition cat2_cons :: "program \<Rightarrow> (nat \<Rightarrow> dom_info) \<Rightarrow> nat \<Rightarrow> cat_lblock list \<Rightarrow> linked \<Rightarrow> cat_lblock \<Rightarrow> icache \<Rightarrow> icache res" where
  "cat2_cons pg doms i lbset m lb st =
     (if is_marker lbset lb then Inr st else cat2_category pg doms i m lb (ic_newVar i lb st))"

definition cat2_only_processWorkSpace :: "program \<Rightarrow> (nat \<Rightarrow> dom_info) \<Rightarrow> cat_lblock list list \<Rightarrow> linked list \<Rightarrow> icache \<Rightarrow> icache res" where
  "cat2_only_processWorkSpace pg doms lbsets ms =
     rfold (\<lambda>i. rfold (cat2_cons pg doms i (lbsets ! i) (ms ! i)) (lbsets ! i)) [0..<length lbsets]"

definition add_penalty :: "int \<Rightarrow> nat \<Rightarrow> cat_lblock \<Rightarrow> icache \<Rightarrow> icache" where
  "add_penalty penalty i lb st = ic_sys (addObjectFunction penalty (ic_miss st (i, lb_id lb))) st"

definition cat2_objective :: "int \<Rightarrow> cat_lblock list list \<Rightarrow> icache \<Rightarrow> icache" where
  "cat2_objective penalty lbsets = fold (\<lambda>i. fold (add_penalty penalty i) (lbsets ! i)) [0..<length lbsets]"

definition cat2_processWorkSpace :: "program \<Rightarrow> (nat \<Rightarrow> dom_info) \<Rightarrow> cat_lblock list list \<Rightarrow> linked list \<Rightarrow> int \<Rightarrow> icache \<Rightarrow> icache res" where
  "cat2_processWorkSpace pg doms lbsets ms penalty st =
     map_sum id (cat2_objective penalty lbsets) (cat2_only_processWorkSpace pg doms lbsets ms st)"

text \<open>The chain of processors with the instruction cache; \<open>link\<close> tells whether the detector runs.\<close>

definition icache_wcet :: "program \<Rightarrow> nat list \<Rightarrow> nat \<Rightarrow> (nat \<Rightarrow> dom_info) \<Rightarrow> flow_facts \<Rightarrow> times \<Rightarrow> bool \<Rightarrow>
    cat_lblock list list \<Rightarrow> int \<Rightarrow> (lp_matrix \<Rightarrow> lp_result) \<Rightarrow> bool \<Rightarrow> int res" where
  "icache_wcet pg cfgs entry doms ff tm link lbsets penalty solver cancelled =
     rbind (va_processWorkSpace pg cfgs ipet_new) (\<lambda>ip.
     rbind (bc_processWorkSpace pg cfgs entry ip) (\<lambda>ip.
     rbind (of_processWorkSpace pg cfgs tm ip) (\<lambda>ip.
     rbind (fc_processWorkSpace pg cfgs doms ff ip) (\<lambda>ip.
     rbind (if link then link_processWorkSpace lbsets else Inr (replicate (length lbsets) (\<lambda>_. None))) (\<lambda>ms.
     rbind (cat2_processWorkSpace pg doms lbsets ms penalty \<lparr>ic_miss = (\<lambda>_. None), ic_ip = ip\<rparr>) (\<lambda>st.
       Inr (fst (wcet_processWorkSpace solver cancelled (ic_ip st)))))))))"

subsection \<open>Groups of linked l-blocks\<close>

definition real :: "cat_lblock list \<Rightarrow> cat_lblock list" where
  "real lbset = filter (\<lambda>lb. \<not> is_marker lbset lb) lbset"

definition header_number :: "cat_lblock \<Rightarrow> nat" where
  "header_number lb = snd (the (lc_header lb))"

definition link_before :: "cat_lblock \<Rightarrow> cat_lblock \<Rightarrow> bool" where
  "link_before a b \<longleftrightarrow> header_number a < header_number b \<or> header_number a = header_number b \<and> lb_id a < lb_id b"

lemma number_order_eval:
  "lc_header a \<noteq> None \<Longrightarrow> lc_header b \<noteq> None \<Longrightarrow> number_order a b = Inr (int (header_number a) - int (header_number b))"
  by (auto simp: number_order_def header_number_def deref_def)

lemma number_add:
  assumes "\<forall>x \<in> set (v # l). lc_header x \<noteq> None" "sorted_wrt link_before l" "\<forall>x \<in> set l. lb_id x < lb_id v"
  shows "\<exists>r. ssl_add number_order v l = Inr r \<and> set r = insert v (set l) \<and> sorted_wrt link_before r"
  using assms
proof (induction l)
  case Nil
  then show ?case by simp
next
  case (Cons c l)
  have n: "number_order v c = Inr (int (header_number v) - int (header_number c))" using Cons.prems(1) by (intro number_order_eval) auto
  show ?case
  proof (cases "header_number v < header_number c")
    case True
    have "link_before v x" if "x \<in> set l" for x
      using Cons.prems(2) that True by (auto simp: link_before_def)
    then show ?thesis using n True Cons.prems(2) by (intro exI [of _ "v # c # l"]) (auto simp: link_before_def)
  next
    case False
    obtain r where r: "ssl_add number_order v l = Inr r" "set r = insert v (set l)" "sorted_wrt link_before r"
      using Cons by auto
    have "link_before c v" using False Cons.prems(3) by (auto simp: link_before_def)
    then show ?thesis using n False r Cons.prems(2) by (intro exI [of _ "c # r"]) auto
  qed
qed

text \<open>The l-blocks of a group are misses of one cache block in one loop, the last of the set is the last of the group.\<close>

definition group_ok :: "cat_lblock list \<Rightarrow> cat_lblock list \<Rightarrow> bool" where
  "group_ok lbset ls \<longleftrightarrow> ls \<noteq> [] \<and> set ls \<subseteq> set (real lbset) \<and> sorted_wrt (\<lambda>a b. lb_id a < lb_id b) ls \<and>
     (\<forall>a \<in> set ls. \<forall>b \<in> set ls. lc_cat a = FIRST_MISS \<and> lc_header a = lc_header b \<and> lb_cacheblock a = lb_cacheblock b)"

definition linked_ok :: "cat_lblock list \<Rightarrow> linked \<Rightarrow> bool" where
  "linked_ok lbset m \<longleftrightarrow> (\<forall>x ls. m x = Some ls \<longrightarrow> group_ok lbset ls)"

lemma recordBlocks_ok:
  assumes "linked_ok lbset m" "grp \<noteq> [] \<Longrightarrow> group_ok lbset grp"
  shows "\<exists>m'. recordBlocks grp m = Inr m' \<and> linked_ok lbset m'"
proof (cases "length grp = 1")
  case True
  then show ?thesis using assms(1) by (simp add: recordBlocks_def)
next
  case False
  have "\<exists>m'. rfold (\<lambda>lb m. asserting (lc_cat lb = FIRST_MISS) (Inr (m(lb_id lb \<mapsto> grp)))) xs m = Inr m' \<and> linked_ok lbset m'"
    if "set xs \<subseteq> set grp" "linked_ok lbset m" for xs m
    using that
  proof (induction xs arbitrary: m)
    case (Cons x xs)
    then have g: "group_ok lbset grp" "lc_cat x = FIRST_MISS" using assms(2) by (force simp: group_ok_def)+
    then have "linked_ok lbset (m(lb_id x \<mapsto> grp))" using Cons.prems(2) by (auto simp: linked_ok_def)
    from Cons.IH [OF _ this] Cons.prems(1) g(2) show ?case by simp
  qed simp
  from this [of grp m] show ?thesis using False assms(1) by (simp add: recordBlocks_def)
qed

lemma one_header_sorted:
  "sorted_wrt link_before ls \<Longrightarrow> \<forall>x \<in> set ls. lc_header x = h \<Longrightarrow> sorted_wrt (\<lambda>a b. lb_id a < lb_id b) ls"
  by (induction ls) (auto simp: link_before_def header_number_def)

lemma one_header_group:
  assumes "ls \<noteq> []" "set ls \<subseteq> {lb \<in> set (real lbset). lc_cat lb = FIRST_MISS \<and> lb_cacheblock lb = j \<and> lc_header lb \<noteq> None}"
    and "sorted_wrt link_before ls" and h: "\<forall>x \<in> set ls. lc_header x = h"
  shows "group_ok lbset ls"
proof -
  have "lc_header a = lc_header b" if "a \<in> set ls" "b \<in> set ls" for a b using h that by metis
  moreover have "sorted_wrt (\<lambda>a b. lb_id a < lb_id b) ls" by (rule one_header_sorted [OF assms(3) h])
  moreover have "lc_cat a = FIRST_MISS" "lb_cacheblock a = j" "a \<in> set (real lbset)" if "a \<in> set ls" for a
    using assms(2) that by blast+
  ultimately show ?thesis unfolding group_ok_def using assms(1) by (intro conjI ballI subsetI) metis+
qed

lemma link_split_ok:
  assumes "sorted_wrt link_before (grp @ l)" "set (grp @ l) \<subseteq> {lb \<in> set (real lbset). lc_cat lb = FIRST_MISS \<and>
      lb_cacheblock lb = j \<and> lc_header lb \<noteq> None}"
    and "grp = [] \<and> old = None \<or> grp \<noteq> [] \<and> (\<forall>x \<in> set grp. lc_header x = old)" "linked_ok lbset m"
  shows "\<exists>m'. link_split l old grp m = Inr m' \<and> linked_ok lbset m'"
  using assms
proof (induction l arbitrary: old grp m)
  case Nil
  have "group_ok lbset grp" if "grp \<noteq> []" by (rule one_header_group [OF that]) (use Nil(1-3) that in auto)
  then show ?case using recordBlocks_ok [OF Nil(4)] by simp
next
  case (Cons lb l)
  have s: "sorted_wrt link_before grp" "sorted_wrt link_before (lb # l)" "sorted_wrt link_before ((grp @ [lb]) @ l)"
    using Cons.prems(1) by (simp_all add: sorted_wrt_append)
  show ?case
  proof (cases "old \<noteq> None \<and> old \<noteq> lc_header lb")
    case True
    then have h: "grp \<noteq> []" "\<forall>x \<in> set grp. lc_header x = old" using Cons.prems(3) by blast+
    have "group_ok lbset grp" by (rule one_header_group [OF h(1) _ s(1) h(2)]) (use Cons.prems(2) in auto)
    then obtain m1 where m1: "recordBlocks grp m = Inr m1" "linked_ok lbset m1" using recordBlocks_ok [OF Cons.prems(4)] by blast
    have "\<exists>m'. link_split l (lc_header lb) ([] @ [lb]) m1 = Inr m' \<and> linked_ok lbset m'"
      by (rule Cons.IH [OF _ _ _ m1(2)]) (use s(2) Cons.prems(2) in auto)
    then show ?thesis using True m1(1) by simp
  next
    case False
    have "lc_header x = lc_header lb" if "x \<in> set grp" for x
    proof -
      have "lc_header x = old" "lc_header x \<noteq> None" using that Cons.prems(2,3) by auto
      then show ?thesis using False by metis
    qed
    then have "\<exists>m'. link_split l (lc_header lb) (grp @ [lb]) m = Inr m' \<and> linked_ok lbset m'"
      by (intro Cons.IH s(3) Cons.prems(4)) (use Cons.prems(2) in auto)
    then show ?thesis using False by auto
  qed
qed

definition lset_ok :: "program \<Rightarrow> nat list \<Rightarrow> cat_lblock list \<Rightarrow> bool" where
  "lset_ok pg cfgs lbset \<longleftrightarrow> map lb_id lbset = [0..<length lbset] \<and>
     (\<forall>lb \<in> set (real lbset). lc_cfg lb \<in> set cfgs \<and> lb_bb lb < countBB (cfg_of pg (lc_cfg lb)) \<and>
        lb_cacheblock lb < length lbset \<and> lc_cat lb \<noteq> INVALID_CATEGORY \<and>
        (lc_cat lb = FIRST_MISS \<longrightarrow> (\<exists>k h. lc_header lb = Some (k, h) \<and> k \<in> set cfgs \<and> h < countBB (cfg_of pg k) \<and>
           loop_header (cfg_of pg k) h)))"

definition lists_ok :: "cat_lblock list \<Rightarrow> cat_lblock list \<Rightarrow> cat_lblock list list \<Rightarrow> bool" where
  "lists_ok lbset seen bl \<longleftrightarrow> length bl = length lbset \<and> (\<forall>j < length bl. sorted_wrt link_before (bl ! j) \<and>
     set (bl ! j) \<subseteq> {lb \<in> set seen. \<not> is_marker lbset lb \<and> lc_cat lb = FIRST_MISS \<and> lb_cacheblock lb = j \<and> lc_header lb \<noteq> None})"

lemma lset_ids:
  assumes "lset_ok pg cfgs lbset" "lbset = pre @ lb # post" "x \<in> set pre"
  shows "lb_id x < lb_id lb"
proof -
  have "sorted_wrt (<) (map lb_id lbset)" using assms(1) by (simp add: lset_ok_def)
  then show ?thesis using assms(2,3) by (auto simp: sorted_wrt_append)
qed

lemma link_lists_ok:
  assumes ok: "lset_ok pg cfgs lbset" and "lbset = pre @ post" "lists_ok lbset pre bl"
  shows "\<exists>bl'. rfold (link_add lbset) post bl = Inr bl' \<and> lists_ok lbset lbset bl'"
  using assms(2,3)
proof (induction post arbitrary: pre bl)
  case Nil
  then show ?case by simp
next
  case (Cons lb post)
  have "\<exists>bl1. link_add lbset lb bl = Inr bl1 \<and> lists_ok lbset (pre @ [lb]) bl1"
  proof (cases "is_marker lbset lb \<or> lc_cat lb \<noteq> FIRST_MISS")
    case True
    then show ?thesis using Cons.prems(2) by (auto simp: link_add_def lists_ok_def)
  next
    case False
    have r: "lb \<in> set (real lbset)" using False Cons.prems(1) by (simp add: real_def)
    have lb: "lb_cacheblock lb < length lbset" "lc_header lb \<noteq> None"
      using ok r False unfolding lset_ok_def by blast+
    let ?j = "lb_cacheblock lb"
    have bl: "length bl = length lbset" "sorted_wrt link_before (bl ! ?j)"
      "set (bl ! ?j) \<subseteq> {lb \<in> set pre. \<not> is_marker lbset lb \<and> lc_cat lb = FIRST_MISS \<and> lb_cacheblock lb = ?j \<and> lc_header lb \<noteq> None}"
      using Cons.prems(2) lb(1) by (auto simp: lists_ok_def)
    have "\<exists>r. ssl_add number_order lb (bl ! ?j) = Inr r \<and> set r = insert lb (set (bl ! ?j)) \<and> sorted_wrt link_before r"
      by (rule number_add) (use bl lb lset_ids [OF ok Cons.prems(1)] in auto)
    then obtain r where r: "ssl_add number_order lb (bl ! ?j) = Inr r" "set r = insert lb (set (bl ! ?j))" "sorted_wrt link_before r"
      by blast
    have "link_add lbset lb bl = Inr (bl[?j := r])" using False r(1) lb(1) bl(1) by (simp add: link_add_def)
    moreover have "lists_ok lbset (pre @ [lb]) (bl[?j := r])"
      unfolding lists_ok_def
    proof (intro conjI allI impI)
      fix i assume i: "i < length (bl[?j := r])"
      show "sorted_wrt link_before (bl[?j := r] ! i)" using i r(3) Cons.prems(2) by (cases "i = ?j") (auto simp: lists_ok_def)
      have old: "set (bl ! i) \<subseteq> {lb \<in> set pre. \<not> is_marker lbset lb \<and> lc_cat lb = FIRST_MISS \<and> lb_cacheblock lb = i \<and> lc_header lb \<noteq> None}"
        using i Cons.prems(2) unfolding lists_ok_def length_list_update by blast
      show "set (bl[?j := r] ! i) \<subseteq> {x \<in> set (pre @ [lb]). \<not> is_marker lbset x \<and> lc_cat x = FIRST_MISS \<and> lb_cacheblock x = i \<and> lc_header x \<noteq> None}"
      proof (cases "i = ?j")
        case True
        then show ?thesis using i old r(2) False lb(2) by auto
      next
        case False
        then show ?thesis using old by auto
      qed
    qed (use bl in simp)
    ultimately show ?thesis by blast
  qed
  then obtain bl1 where bl1: "link_add lbset lb bl = Inr bl1" "lists_ok lbset (pre @ [lb]) bl1" by blast
  from Cons.IH [OF _ bl1(2)] Cons.prems(1) bl1(1) show ?case by simp
qed

lemma link_set_ok:
  assumes ok: "lset_ok pg cfgs lbset"
  shows "\<exists>m. link_set lbset = Inr m \<and> linked_ok lbset m"
proof -
  have "lists_ok lbset [] (replicate (length lbset) [])" by (simp add: lists_ok_def)
  then obtain bl where bl: "rfold (link_add lbset) lbset (replicate (length lbset) []) = Inr bl" "lists_ok lbset lbset bl"
    using link_lists_ok [OF ok, of "[]" lbset] by auto
  have "\<exists>m'. rfold (\<lambda>l m. if l = [] then Inr m else link_split l None [] m) ls m = Inr m' \<and> linked_ok lbset m'"
    if "set ls \<subseteq> set bl" "linked_ok lbset m" for ls m
    using that
  proof (induction ls arbitrary: m)
    case (Cons l ls)
    then obtain j where j: "j < length bl" "l = bl ! j" by (auto simp: in_set_conv_nth)
    have "\<exists>m1. link_split l None [] m = Inr m1 \<and> linked_ok lbset m1"
      by (rule link_split_ok [where j = j]) (use bl(2) j Cons.prems(2) in \<open>auto simp: lists_ok_def real_def\<close>)
    then obtain m1 where "link_split l None [] m = Inr m1" "linked_ok lbset m1" by blast
    then show ?case using Cons.IH [of m1] Cons.IH [of m] Cons.prems by auto
  qed simp
  from this [of bl "\<lambda>_. None"] show ?thesis using bl(1) by (simp add: link_set_def linked_ok_def)
qed

lemma link_processWorkSpace_ok:
  assumes "\<forall>lbset \<in> set lbsets. lset_ok pg cfgs lbset"
  shows "\<exists>ms. link_processWorkSpace lbsets = Inr ms \<and> length ms = length lbsets \<and> (\<forall>i < length lbsets. linked_ok (lbsets ! i) (ms ! i))"
  using assms
proof (induction lbsets rule: rev_induct)
  case (snoc lbset lbsets)
  then obtain ms where ms: "link_processWorkSpace lbsets = Inr ms" "length ms = length lbsets"
    "\<forall>i < length lbsets. linked_ok (lbsets ! i) (ms ! i)" by auto
  obtain m where m: "link_set lbset = Inr m" "linked_ok lbset m" using link_set_ok [of pg cfgs lbset] snoc.prems by auto
  then show ?case using ms
    by (intro exI [of _ "ms @ [m]"]) (auto simp: link_processWorkSpace_def rfold_append nth_append less_Suc_eq)
qed (simp add: link_processWorkSpace_def)

subsection \<open>The constraints hold\<close>

text \<open>
  \<open>ic_inv t val miss P obj pend st\<close>: as \<open>built\<close>, and the l-blocks of \<open>P\<close> have variables, which hold
  the misses \<open>miss\<close>.
\<close>

definition ic_inv :: "item list \<Rightarrow> (ilp_var \<Rightarrow> int) \<Rightarrow> (nat \<times> nat \<Rightarrow> int) \<Rightarrow> (nat \<times> nat) set \<Rightarrow> int \<Rightarrow>
    (nat \<Rightarrow> (comparator \<times> int) option) \<Rightarrow> icache \<Rightarrow> bool" where
  "ic_inv t val miss P obj pend st \<longleftrightarrow> built t val obj pend (ic_ip st) \<and>
     (\<forall>x \<in> P. \<exists>v. ic_miss st x = Some v \<and> v < s_new (ip_sys (ic_ip st)) \<and> val v = miss x) \<and>
     (\<forall>x. x \<notin> P \<longrightarrow> ic_miss st x = None)"

abbreviation same_ic :: "icache \<Rightarrow> icache \<Rightarrow> bool" where
  "same_ic st st' \<equiv> same_vars (ic_ip st) (ic_ip st')"

lemma ic_sys_fields [simp]:
  "ic_miss (ic_sys f st) = ic_miss st" "ic_ip (ic_sys f st) = on_sys f (ic_ip st)" "same_ic st (ic_sys f st)"
  by (simp_all add: ic_sys_def same_vars_def)

lemma ic_cons_inv:
  assumes inv: "ic_inv t val miss P obj pend st" and n: "ic_cons l cmp st = (c, st')"
  shows "ic_inv t val miss P obj (pend(c \<mapsto> (cmp, 0))) st' \<and> same_ic st st' \<and> pend c = None"
proof -
  obtain ip where ip: "ip_newConstraint l cmp 0 (ic_ip st) = (c, ip)" "st' = st\<lparr>ic_ip := ip\<rparr>"
    using n by (auto simp: ic_cons_def split: prod.splits)
  have b: "built t val obj pend (ic_ip st)" using inv by (simp add: ic_inv_def)
  have "s_new (ip_sys ip) = Suc (s_new (ip_sys (ic_ip st)))"
    using ip(1) by (auto simp: ip_newConstraint_def newConstraint_def)
  then show ?thesis using built_new [OF b ip(1)] inv ip(2) by (fastforce simp: ic_inv_def)
qed

lemma ic_add_inv:
  assumes inv: "ic_inv t val miss P obj (pend(c \<mapsto> (cmp, x))) st" and "\<And>v. var = Some v \<Longrightarrow> v < s_new (ip_sys (ic_ip st))"
  shows "ic_inv t val miss P obj (pend(c \<mapsto> (cmp, x + k * var_val val var))) (ic_sys (cons_add c k var) st)"
proof -
  have "built t val obj (pend(c \<mapsto> (cmp, x))) (ic_ip st)" using inv by (simp add: ic_inv_def)
  from built_add [OF this, of c cmp x var k] assms(2)
  have "built t val obj (pend(c \<mapsto> (cmp, x + k * var_val val var))) (on_sys (cons_add c k var) (ic_ip st))" by simp
  moreover have "s_new (ip_sys (on_sys (cons_add c k var) (ic_ip st))) = s_new (ip_sys (ic_ip st))"
    by (simp add: on_sys_def cons_add_def)
  ultimately show ?thesis using inv unfolding ic_inv_def by simp
qed

lemma ic_add_miss:
  assumes inv: "ic_inv t val miss P obj (pend(c \<mapsto> (cmp, x))) st" and y: "y \<in> P"
  shows "ic_inv t val miss P obj (pend(c \<mapsto> (cmp, x + miss y))) (ic_sys (addLeft c 1 (ic_miss st y)) st)"
proof -
  obtain v where v: "ic_miss st y = Some v" "v < s_new (ip_sys (ic_ip st))" "val v = miss y"
    using inv y unfolding ic_inv_def by blast
  then show ?thesis using ic_add_inv [OF inv, of "Some v" 1] by (simp add: addLeft_cons var_val_def)
qed

lemma ic_add_block:
  assumes inv: "ic_inv t val miss P obj (pend(c \<mapsto> (cmp, x))) st" and lb: "ic_block lb st \<noteq> None"
  shows "ic_inv t val miss P obj (pend(c \<mapsto> (cmp, x - int (at t (lc_cfg lb) (lb_bb lb))))) (ic_sys (addRight c 1 (ic_block lb st)) st)"
proof -
  obtain v where v: "ic_block lb st = Some v" using lb by blast
  then have "v < s_new (ip_sys (ic_ip st))" "val v = int (at t (lc_cfg lb) (lb_bb lb))"
    using inv by (auto simp: ic_inv_def built_def counts_def ic_block_def)
  then show ?thesis using ic_add_inv [OF inv, of "Some v" "-1"] v by (simp add: addRight_cons var_val_def)
qed

lemma ic_add_edge:
  assumes inv: "ic_inv t val miss P obj (pend(c \<mapsto> (cmp, x))) st" and e: "ip_vare (ic_ip st) e \<noteq> None"
  shows "ic_inv t val miss P obj (pend(c \<mapsto> (cmp, x - int (count_list t (Through e)))))
    (ic_sys (addRight c 1 (ip_vare (ic_ip st) e)) st)"
proof -
  obtain v where v: "ip_vare (ic_ip st) e = Some v" using e by blast
  then have "v < s_new (ip_sys (ic_ip st))" "val v = int (count_list t (Through e))"
    using inv by (auto simp: ic_inv_def built_def counts_def)
  then show ?thesis using ic_add_inv [OF inv, of "Some v" "-1"] v by (simp add: addRight_cons var_val_def)
qed

lemma ic_done:
  "ic_inv t val miss P obj (pend(c \<mapsto> (cmp, x))) st \<Longrightarrow> cmp_zero cmp x \<Longrightarrow> pend c = None \<Longrightarrow> ic_inv t val miss P obj pend st"
  using built_done [of t val obj "pend(c \<mapsto> (cmp, x))" "ic_ip st" c cmp x] by (auto simp: ic_inv_def fun_upd_idem)

lemma ic_newVar_inv:
  assumes inv: "ic_inv t val miss P obj pend st" and y: "0 \<le> miss (i, lb_id lb)" and new: "(i, lb_id lb) \<notin> P"
  shows "\<exists>val. ic_inv t val miss (insert (i, lb_id lb) P) obj pend (ic_newVar i lb st) \<and> same_ic st (ic_newVar i lb st)"
proof -
  let ?s = "ip_sys (ic_ip st)"
  let ?v = "s_new ?s" and ?y = "miss (i, lb_id lb)"
  obtain s where n: "newVar ?s = (?v, s)" "s_new s = Suc ?v" by (simp add: newVar_def)
  have b: "built t val obj pend (ic_ip st)" using inv by (simp add: ic_inv_def)
  then have wf: "sys_wf ?s" by (simp add: built_def)
  have old: "view (val(?v := ?y)) ?s = view val ?s" "obj_val (val(?v := ?y)) ?s = obj_val val ?s"
    using view_cong [OF wf, of val "val(?v := ?y)"] by simp_all
  have st: "ic_newVar i lb st = \<lparr>ic_miss = (ic_miss st)((i, lb_id lb) \<mapsto> ?v), ic_ip = (ic_ip st)\<lparr>ip_sys := s\<rparr>\<rparr>"
    using n(1) by (simp add: ic_newVar_def)
  have "counts t (val(?v := ?y)) ((ic_ip st)\<lparr>ip_sys := s\<rparr>)"
    using b y by (fastforce simp: built_def counts_def)
  then have "built t (val(?v := ?y)) obj pend ((ic_ip st)\<lparr>ip_sys := s\<rparr>)"
    using b newVar_wf [OF wf n(1)] view_newVar [OF n(1), of "val(?v := ?y)"] obj_val_same(4) [OF n(1), of "val(?v := ?y)"] ofun_cmp(4) [OF n(1)]
    unfolding built_def by (simp add: old n(2) less_Suc_eq)
  moreover have "\<exists>v. ((ic_miss st)((i, lb_id lb) \<mapsto> ?v)) x = Some v \<and> v < s_new s \<and> (val(?v := ?y)) v = miss x"
    if x: "x \<in> insert (i, lb_id lb) P" for x
  proof (cases "x = (i, lb_id lb)")
    case False
    then obtain v where "ic_miss st x = Some v" "v < ?v" "val v = miss x" using inv x unfolding ic_inv_def by blast
    then show ?thesis using False n(2) by (intro exI [of _ v]) auto
  qed (simp add: n(2))
  ultimately have "ic_inv t (val(?v := ?y)) miss (insert (i, lb_id lb) P) obj pend (ic_newVar i lb st)"
    using inv unfolding st ic_inv_def by simp
  moreover have "same_ic st (ic_newVar i lb st)" by (simp add: st same_vars_def)
  ultimately show ?thesis by blast
qed

lemma add_entry_edges_inv:
  assumes "ic_inv t val miss P obj (pend(c \<mapsto> (cmp, x))) st"
    "\<And>e. e \<in> set es \<Longrightarrow> ip_vare (ic_ip st) e \<noteq> None \<and> dominates (di_reverse di) h (e_src e) = Inr (D e)"
  shows "\<exists>st'. rfold (add_entry_edge di h c) es st = Inr st' \<and> same_ic st st' \<and>
    ic_inv t val miss P obj (pend(c \<mapsto> (cmp, x - int (through t (filter (\<lambda>e. \<not> D e) es))))) st'"
  using assms
proof (induction es arbitrary: x st)
  case Nil
  then show ?case by (simp add: same_vars_def through_def)
next
  case (Cons e es)
  have e: "ip_vare (ic_ip st) e \<noteq> None" "dominates (di_reverse di) h (e_src e) = Inr (D e)" using Cons.prems(2) by auto
  let ?st = "if D e then st else ic_sys (addRight c 1 (ip_vare (ic_ip st) e)) st"
  let ?x = "if D e then x else x - int (count_list t (Through e))"
  have i1: "ic_inv t val miss P obj (pend(c \<mapsto> (cmp, ?x))) ?st"
    using Cons.prems(1) ic_add_edge [OF Cons.prems(1) e(1)] by (cases "D e") (simp_all only: if_True if_False)
  have s1: "same_ic st ?st" by (simp add: same_vars_def)
  then have v: "ip_vare (ic_ip ?st) f \<noteq> None \<and> dominates (di_reverse di) h (e_src f) = Inr (D f)" if "f \<in> set es" for f
    using Cons.prems(2) [of f] that by (simp add: same_vars_def)
  obtain st' where st': "rfold (add_entry_edge di h c) es ?st = Inr st'" "same_ic ?st st'"
    "ic_inv t val miss P obj (pend(c \<mapsto> (cmp, ?x - int (through t (filter (\<lambda>e. \<not> D e) es))))) st'"
    using Cons.IH [OF i1 v] by blast
  have "add_entry_edge di h c e st = Inr ?st" using e(2) by (simp add: add_entry_edge_def)
  then have "rfold (add_entry_edge di h c) (e # es) st = Inr st'" using st'(1) by simp
  moreover have "?x - int (through t (filter (\<lambda>e. \<not> D e) es)) = x - int (through t (filter (\<lambda>e. \<not> D e) (e # es)))"
    by (simp add: through_cons)
  ultimately show ?case using st'(3) same_vars_trans [OF s1 st'(2)] by metis
qed

lemma add_misses_inv:
  assumes "ic_inv t val miss P obj (pend(c \<mapsto> (cmp, x))) st" "\<forall>lb \<in> set lbs. (i, lb_id lb) \<in> P"
  shows "ic_inv t val miss P obj (pend(c \<mapsto> (cmp, x + (\<Sum>lb \<leftarrow> lbs. miss (i, lb_id lb)))))
      (fold (add_miss c i) lbs st) \<and>
    same_ic st (fold (add_miss c i) lbs st)"
  using assms
proof (induction lbs arbitrary: x st)
  case Nil
  then show ?case by (simp add: same_vars_def)
next
  case (Cons lb lbs)
  let ?st = "ic_sys (addLeft c 1 (ic_miss st (i, lb_id lb))) st"
  have add: "fold (add_miss c i) (lb # lbs) st = fold (add_miss c i) lbs ?st" by (simp add: add_miss_def)
  have "ic_inv t val miss P obj (pend(c \<mapsto> (cmp, x + miss (i, lb_id lb)))) ?st"
    using ic_add_miss [OF Cons.prems(1), of "(i, lb_id lb)"] Cons.prems(2) by simp
  from Cons.IH [OF this] Cons.prems(2) show ?case unfolding add by (simp add: same_vars_def add.assoc)
qed

text \<open>What the categories promise about the misses of a run.\<close>

definition misses_within :: "program \<Rightarrow> item list \<Rightarrow> cat_lblock list list \<Rightarrow> (nat \<times> nat \<Rightarrow> int) \<Rightarrow> bool" where
  "misses_within pg t lbsets miss \<longleftrightarrow> (\<forall>i < length lbsets.
     (\<forall>lb \<in> set (real (lbsets ! i)). 0 \<le> miss (i, lb_id lb) \<and> miss (i, lb_id lb) \<le> int (at t (lc_cfg lb) (lb_bb lb)) \<and>
        (lc_cat lb = ALWAYS_HIT \<longrightarrow> miss (i, lb_id lb) = 0) \<and>
        (lc_cat lb = ALWAYS_MISS \<longrightarrow> miss (i, lb_id lb) = int (at t (lc_cfg lb) (lb_bb lb)))) \<and>
     (\<forall>cb k h. (\<Sum>lb \<leftarrow> filter (\<lambda>lb. lc_cat lb = FIRST_MISS \<and> lb_cacheblock lb = cb \<and> lc_header lb = Some (k, h)) (real (lbsets ! i)).
        miss (i, lb_id lb)) \<le> int (through t (entry_ins pg k h))))"

lemma fm_constraint_inv:
  assumes inp: "wcet_input pg cfgs entry doms" and inv: "ic_inv t val miss P obj Map.empty st"
    and cov: "covered pg cfgs (ic_ip st)" and lbs: "\<forall>lb \<in> set lbs. (i, lb_id lb) \<in> P"
    and h: "k \<in> set cfgs" "h < countBB (cfg_of pg k)" "loop_header (cfg_of pg k) h"
    and le: "(\<Sum>lb \<leftarrow> lbs. miss (i, lb_id lb)) \<le> int (through t (entry_ins pg k h))"
  shows "\<exists>st'. fm_constraint pg doms i (k, h) lbs st = Inr st' \<and> same_ic st st' \<and> ic_inv t val miss P obj Map.empty st'"
proof -
  let ?g = "cfg_of pg k"
  obtain c st1 where c: "ic_cons ''L1 I$: first miss'' LE st = (c, st1)" by fastforce
  have i1: "ic_inv t val miss P obj (Map.empty(c \<mapsto> (LE, 0))) st1" "same_ic st st1" using ic_cons_inv [OF inv c] by auto
  let ?st2 = "fold (add_miss c i) lbs st1"
  have i2: "ic_inv t val miss P obj (Map.empty(c \<mapsto> (LE, \<Sum>lb \<leftarrow> lbs. miss (i, lb_id lb)))) ?st2" "same_ic st1 ?st2"
    using add_misses_inv [OF i1(1) lbs] by auto
  have li: "loop_input ?g (doms k)" using inp h(1) by (simp add: wcet_input_def)
  have rd: "dom_table ?g (di_reverse (doms k))" and wf: "wf_edges ?g" using li by (auto simp: loop_input_def wf_cfg_def)
  have r: "reachable ?g h" using header_props [OF li h(3)] by simp
  have es: "ip_vare (ic_ip ?st2) e \<noteq> None \<and> dominates (di_reverse (doms k)) h (e_src e) = Inr (h \<in> dom_set ?g (e_src e))"
    if "e \<in> set (ins ?g h)" for e
  proof -
    have s: "e_src e < countBB ?g" "e \<in> set (outs ?g (e_src e))" using wf h(2) that unfolding wf_edges_def by blast+
    then have "ip_vare (ic_ip st) e \<noteq> None" using cov h(1) unfolding covered_def by blast
    then show ?thesis using dominates_reachable [OF rd h(2) s(1)] r i1(2) i2(2) by (simp add: same_vars_def)
  qed
  obtain st3 where st3: "rfold (add_entry_edge (doms k) h c) (ins ?g h) ?st2 = Inr st3" "same_ic ?st2 st3"
    "ic_inv t val miss P obj (Map.empty(c \<mapsto> (LE, (\<Sum>lb \<leftarrow> lbs. miss (i, lb_id lb)) - int (through t (entry_ins pg k h))))) st3"
    using add_entry_edges_inv [OF i2(1) es] by (auto simp: entry_ins_def)
  have "ic_inv t val miss P obj Map.empty st3" by (rule ic_done [OF st3(3)]) (use le in simp_all)
  moreover have "fm_constraint pg doms i (k, h) lbs st = Inr st3" using c st3(1) by (simp add: fm_constraint_def)
  ultimately show ?thesis using same_vars_trans [OF i1(2) same_vars_trans [OF i2(2) st3(2)]] by blast
qed

lemma lset_id_inj:
  assumes "lset_ok pg cfgs lbset" "a \<in> set (real lbset)" "b \<in> set (real lbset)" "lb_id a = lb_id b"
  shows "a = b"
proof -
  have "distinct (map lb_id lbset)" using assms(1) by (simp add: lset_ok_def)
  then show ?thesis using assms(2-4) by (auto simp: real_def distinct_map dest: inj_onD)
qed

lemma lset_distinct: "lset_ok pg cfgs lbset \<Longrightarrow> distinct (real lbset)"
  by (metis distinct_filter distinct_map distinct_upt lset_ok_def real_def)

lemma group_misses:
  assumes ok: "lset_ok pg cfgs lbset" and g: "group_ok lbset ls" "lc_header (last ls) = Some (k, h)"
    and nn: "\<forall>lb \<in> set (real lbset). 0 \<le> f (lb_id lb)"
    and le: "\<And>cb. (\<Sum>lb \<leftarrow> filter (\<lambda>lb. lc_cat lb = FIRST_MISS \<and> lb_cacheblock lb = cb \<and> lc_header lb = Some (k, h)) (real lbset). f (lb_id lb)) \<le> n"
  shows "(\<Sum>lb \<leftarrow> ls. f (lb_id lb)) \<le> (n :: int)"
proof -
  let ?l = "last ls"
  let ?F = "filter (\<lambda>lb. lc_cat lb = FIRST_MISS \<and> lb_cacheblock lb = lb_cacheblock ?l \<and> lc_header lb = Some (k, h)) (real lbset)"
  have l: "?l \<in> set ls" using g(1) by (simp add: group_ok_def)
  have m: "lc_cat x = FIRST_MISS" "lb_cacheblock x = lb_cacheblock ?l" "lc_header x = Some (k, h)" if "x \<in> set ls" for x
    using g l that unfolding group_ok_def by metis+
  have re: "set ls \<subseteq> set (real lbset)" using g(1) unfolding group_ok_def by blast
  have sub: "set ls \<subseteq> set ?F" using re by (intro subsetI) (simp add: m subsetD)
  have "sorted_wrt (<) (map lb_id ls)" using g(1) unfolding group_ok_def sorted_wrt_map by blast
  then have "distinct ls" using strict_sorted_iff distinct_map by blast
  then have "(\<Sum>lb \<leftarrow> ls. f (lb_id lb)) = (\<Sum>lb \<in> set ls. f (lb_id lb))" by (rule sum_list_distinct_conv_sum_set)
  also have "\<dots> \<le> (\<Sum>lb \<in> set ?F. f (lb_id lb))" by (rule sum_mono2 [OF _ sub]) (use nn in auto)
  also have "\<dots> = (\<Sum>lb \<leftarrow> ?F. f (lb_id lb))"
    by (rule sum_list_distinct_conv_sum_set [symmetric]) (use lset_distinct [OF ok] in simp)
  finally show ?thesis using le by (meson order_trans)
qed

lemma bounded_by_block:
  assumes inv: "ic_inv t val miss P obj Map.empty st" and c: "ic_cons l cmp st = (c, st1)"
    and key: "(i, lb_id lb) \<in> P" and b: "ic_block lb st \<noteq> None"
    and sat: "cmp_zero cmp (miss (i, lb_id lb) - int (at t (lc_cfg lb) (lb_bb lb)))"
  shows "same_ic st (add_block c lb (add_miss c i lb st1)) \<and> ic_inv t val miss P obj Map.empty (add_block c lb (add_miss c i lb st1))"
    and "same_ic st (add_miss c i lb (add_block c lb st1)) \<and> ic_inv t val miss P obj Map.empty (add_miss c i lb (add_block c lb st1))"
proof -
  note add = add_miss_def add_block_def
  have i1: "ic_inv t val miss P obj (Map.empty(c \<mapsto> (cmp, 0))) st1" "same_ic st st1" using ic_cons_inv [OF inv c] by auto
  then have b1: "ic_block lb st1 \<noteq> None" "ic_block lb (add_miss c i lb st1) \<noteq> None"
    using b by (auto simp: ic_block_def same_vars_def add)
  have l: "ic_inv t val miss P obj (Map.empty(c \<mapsto> (cmp, 0 + miss (i, lb_id lb)))) (add_miss c i lb st1)"
    unfolding add_miss_def by (rule ic_add_miss [OF i1(1) key])
  have r: "ic_inv t val miss P obj (Map.empty(c \<mapsto> (cmp, 0 - int (at t (lc_cfg lb) (lb_bb lb))))) (add_block c lb st1)"
    unfolding add_block_def by (rule ic_add_block [OF i1(1) b1(1)])
  have "ic_inv t val miss P obj Map.empty (add_block c lb (add_miss c i lb st1))"
    by (rule ic_done [OF ic_add_block [OF l b1(2), folded add_block_def]]) (use sat in simp_all)
  then show "same_ic st (add_block c lb (add_miss c i lb st1)) \<and> ic_inv t val miss P obj Map.empty (add_block c lb (add_miss c i lb st1))"
    using i1(2) by (simp add: same_vars_def add)
  have "cmp_zero cmp (0 - int (at t (lc_cfg lb) (lb_bb lb)) + miss (i, lb_id lb))" using sat by (simp add: algebra_simps)
  from ic_done [OF ic_add_miss [OF r key] this]
  have "ic_inv t val miss P obj Map.empty (add_miss c i lb (add_block c lb st1))" by (simp add: add_miss_def)
  then show "same_ic st (add_miss c i lb (add_block c lb st1)) \<and> ic_inv t val miss P obj Map.empty (add_miss c i lb (add_block c lb st1))"
    using i1(2) by (simp add: same_vars_def add)
qed

text \<open>What is assumed of one set of l-blocks and of its links.\<close>

definition lset_input :: "program \<Rightarrow> nat list \<Rightarrow> nat \<Rightarrow> (nat \<Rightarrow> dom_info) \<Rightarrow> item list \<Rightarrow> (nat \<times> nat \<Rightarrow> int) \<Rightarrow>
    cat_lblock list list \<Rightarrow> nat \<Rightarrow> linked \<Rightarrow> bool" where
  "lset_input pg cfgs entry doms t miss lbsets i m \<longleftrightarrow> wcet_input pg cfgs entry doms \<and> misses_within pg t lbsets miss \<and>
     i < length lbsets \<and> lset_ok pg cfgs (lbsets ! i) \<and> linked_ok (lbsets ! i) m"

lemma lblock_promises:
  assumes "lset_input pg cfgs entry doms t miss lbsets i m" "lb \<in> set (real (lbsets ! i))"
  shows "0 \<le> miss (i, lb_id lb)" "miss (i, lb_id lb) \<le> int (at t (lc_cfg lb) (lb_bb lb))"
    "lc_cat lb = ALWAYS_HIT \<Longrightarrow> miss (i, lb_id lb) = 0"
    "lc_cat lb = ALWAYS_MISS \<Longrightarrow> miss (i, lb_id lb) = int (at t (lc_cfg lb) (lb_bb lb))"
  using assms unfolding lset_input_def misses_within_def by blast+

lemma group_promise:
  assumes inp: "lset_input pg cfgs entry doms t miss lbsets i m" and g: "group_ok (lbsets ! i) ls" "lc_header (last ls) = Some (k, h)"
  shows "(\<Sum>lb \<leftarrow> ls. miss (i, lb_id lb)) \<le> int (through t (entry_ins pg k h))"
proof (rule group_misses [OF _ g, of pg cfgs "\<lambda>x. miss (i, x)"])
  show "lset_ok pg cfgs (lbsets ! i)" using inp by (simp add: lset_input_def)
  show "\<forall>lb \<in> set (real (lbsets ! i)). 0 \<le> miss (i, lb_id lb)" using lblock_promises(1) [OF inp] by blast
  show "(\<Sum>lb \<leftarrow> filter (\<lambda>lb. lc_cat lb = FIRST_MISS \<and> lb_cacheblock lb = cb \<and> lc_header lb = Some (k, h)) (real (lbsets ! i)).
      miss (i, lb_id lb)) \<le> int (through t (entry_ins pg k h))" for cb
    using inp unfolding lset_input_def misses_within_def by blast
qed

lemma last_is_greatest: "sorted_wrt (\<lambda>a b. lb_id a < lb_id b) ls \<Longrightarrow> x \<in> set ls \<Longrightarrow> lb_id x \<le> lb_id (last ls)"
  by (induction ls) (auto split: if_splits intro: less_imp_le)

lemma linked_inv:
  assumes inp: "lset_input pg cfgs entry doms t miss lbsets i m"
    and lb: "lb \<in> set (real (lbsets ! i))" "lc_cat lb = FIRST_MISS" and inv: "ic_inv t val miss P obj Map.empty st"
    and cov: "covered pg cfgs (ic_ip st)" and P: "\<forall>x \<in> set (real (lbsets ! i)). lb_id x \<le> lb_id lb \<longrightarrow> (i, lb_id x) \<in> P"
    and h: "lc_header lb = Some (k, h)" "k \<in> set cfgs" "h < countBB (cfg_of pg k)" "loop_header (cfg_of pg k) h"
  shows "\<exists>st1. (case m (lb_id lb) of Some linked \<Rightarrow> if linked = [] then Inl OutOfBounds
        else if lb_id (last linked) = lb_id lb then fm_constraint pg doms i (k, h) linked st else Inr st
      | None \<Rightarrow> fm_constraint pg doms i (k, h) [lb] st) = Inr st1 \<and> same_ic st st1 \<and> ic_inv t val miss P obj Map.empty st1"
proof -
  have wi: "wcet_input pg cfgs entry doms" and ok: "lset_ok pg cfgs (lbsets ! i)" and m: "linked_ok (lbsets ! i) m"
    using inp by (simp_all add: lset_input_def)
  note fm = fm_constraint_inv [OF wi inv cov _ h(2-4)]
  show ?thesis
  proof (cases "m (lb_id lb)")
    case None
    have "group_ok (lbsets ! i) [lb]" using lb by (simp add: group_ok_def)
    from fm [of "[lb]" i] group_promise [OF inp this, of k h] h(1) P lb(1) show ?thesis by (simp add: None)
  next
    case (Some ls)
    then have g: "group_ok (lbsets ! i) ls" using m by (simp add: linked_ok_def)
    then have ne: "ls \<noteq> []" and sub: "set ls \<subseteq> set (real (lbsets ! i))" and srt: "sorted_wrt (\<lambda>a b. lb_id a < lb_id b) ls"
      unfolding group_ok_def by blast+
    show ?thesis
    proof (cases "lb_id (last ls) = lb_id lb")
      case True
      have last: "last ls = lb" using lset_id_inj [OF ok _ lb(1) True] sub last_in_set [OF ne] by blast
      have "lb_id x \<le> lb_id lb" if "x \<in> set ls" for x using last_is_greatest [OF srt that] True by simp
      then have "\<forall>x \<in> set ls. (i, lb_id x) \<in> P" using P sub by blast
      from fm [OF this group_promise [OF inp g]] h(1) last show ?thesis using Some ne True by simp
    next
      case False
      then show ?thesis using Some ne inv by (simp add: same_vars_def)
    qed
  qed
qed

lemma cat2_first_miss_inv:
  assumes inp: "lset_input pg cfgs entry doms t miss lbsets i m"
    and lb: "lb \<in> set (real (lbsets ! i))" "lc_cat lb = FIRST_MISS" and inv: "ic_inv t val miss P obj Map.empty st"
    and cov: "covered pg cfgs (ic_ip st)" and P: "\<forall>x \<in> set (real (lbsets ! i)). lb_id x \<le> lb_id lb \<longrightarrow> (i, lb_id x) \<in> P"
  shows "\<exists>st'. cat2_first_miss pg doms i m lb st = Inr st' \<and> same_ic st st' \<and> ic_inv t val miss P obj Map.empty st'"
proof -
  have ok: "lset_ok pg cfgs (lbsets ! i)" using inp by (simp add: lset_input_def)
  obtain k h where h: "lc_header lb = Some (k, h)" "k \<in> set cfgs" "h < countBB (cfg_of pg k)" "loop_header (cfg_of pg k) h"
    using ok lb unfolding lset_ok_def by blast
  obtain st1 where st1: "(case m (lb_id lb) of Some linked \<Rightarrow> if linked = [] then Inl OutOfBounds
        else if lb_id (last linked) = lb_id lb then fm_constraint pg doms i (k, h) linked st else Inr st
      | None \<Rightarrow> fm_constraint pg doms i (k, h) [lb] st) = Inr st1" "same_ic st st1" "ic_inv t val miss P obj Map.empty st1"
    using linked_inv [OF inp lb inv cov P h] by blast
  obtain c st2 where c: "ic_cons ''L1 I$: first miss'' LE st1 = (c, st2)" by fastforce
  have b: "ic_block lb st1 \<noteq> None" using cov ok lb(1) st1(2) by (auto simp: covered_def lset_ok_def ic_block_def same_vars_def)
  have key: "(i, lb_id lb) \<in> P" using P lb(1) by blast
  have sat: "cmp_zero LE (miss (i, lb_id lb) - int (at t (lc_cfg lb) (lb_bb lb)))" using lblock_promises(2) [OF inp lb(1)] by simp
  let ?st4 = "add_miss c i lb (add_block c lb st2)"
  have st4: "same_ic st1 ?st4" "ic_inv t val miss P obj Map.empty ?st4"
    using bounded_by_block(2) [OF st1(3) c key b sat] by simp_all
  have "cat2_first_miss pg doms i m lb st = Inr ?st4"
    using h(1) st1(1) c by (simp only: cat2_first_miss_def fm_bound_def option.case prod.case sum.case)
  then show ?thesis using same_vars_trans [OF st1(2) st4(1)] st4(2) by blast
qed

lemma cat2_cons_inv:
  assumes inp: "lset_input pg cfgs entry doms t miss lbsets i m"
    and lb: "lb \<in> set (real (lbsets ! i))" and inv: "ic_inv t val miss P obj Map.empty st"
    and cov: "covered pg cfgs (ic_ip st)" and P: "\<forall>x \<in> set (real (lbsets ! i)). lb_id x < lb_id lb \<longrightarrow> (i, lb_id x) \<in> P"
    and new: "(i, lb_id lb) \<notin> P"
  shows "\<exists>st' val. cat2_cons pg doms i (lbsets ! i) m lb st = Inr st' \<and> same_ic st st' \<and>
    ic_inv t val miss (insert (i, lb_id lb) P) obj Map.empty st'"
proof -
  let ?P = "insert (i, lb_id lb) P" and ?st = "ic_newVar i lb st"
  have ok: "lset_ok pg cfgs (lbsets ! i)" using inp by (simp add: lset_input_def)
  note pr = lblock_promises [OF inp lb]
  obtain val where i1: "ic_inv t val miss ?P obj Map.empty ?st" and s1: "same_ic st ?st"
    using ic_newVar_inv [OF inv pr(1) new] by blast
  have cov1: "covered pg cfgs (ic_ip ?st)" using cov s1 covered_same by blast
  have b: "ic_block lb ?st \<noteq> None" using cov1 ok lb by (auto simp: covered_def lset_ok_def ic_block_def)
  have real: "is_marker (lbsets ! i) lb = False" using lb by (simp add: real_def)
  have P': "\<forall>x \<in> set (real (lbsets ! i)). lb_id x \<le> lb_id lb \<longrightarrow> (i, lb_id x) \<in> ?P"
    using P lset_id_inj [OF ok _ lb] by (metis insert_iff le_less)
  have key: "(i, lb_id lb) \<in> ?P" by simp
  note unf = cat2_cons_def cat2_category_def real if_False category.case prod.case
  note bb = bounded_by_block(1) [where miss = miss, OF i1 _ key b]
  have "\<exists>st'. cat2_cons pg doms i (lbsets ! i) m lb st = Inr st' \<and> same_ic ?st st' \<and> ic_inv t val miss ?P obj Map.empty st'"
  proof (cases "lc_cat lb")
    case INVALID_CATEGORY
    then show ?thesis using ok lb by (auto simp: lset_ok_def)
  next
    case ALWAYS_HIT
    obtain c st2 where c: "ic_cons ''L1 I$: always hit'' EQ ?st = (c, st2)" by fastforce
    have i2: "ic_inv t val miss ?P obj (Map.empty(c \<mapsto> (EQ, 0))) st2" "same_ic ?st st2" using ic_cons_inv [OF i1 c] by auto
    have "ic_inv t val miss ?P obj Map.empty (add_miss c i lb st2)" unfolding add_miss_def
      by (rule ic_done [OF ic_add_miss [OF i2(1) key]]) (use pr(3) [OF ALWAYS_HIT] in simp_all)
    moreover have "same_ic ?st (add_miss c i lb st2)" using i2(2) by (simp add: add_miss_def same_vars_def)
    ultimately show ?thesis unfolding unf ALWAYS_HIT c by blast
  next
    case FIRST_HIT
    obtain c st2 where c: "ic_cons ''L1 I$: not-classified'' LE ?st = (c, st2)" by fastforce
    have "cmp_zero LE (miss (i, lb_id lb) - int (at t (lc_cfg lb) (lb_bb lb)))" using pr(2) by simp
    from bb [OF c this] show ?thesis unfolding unf FIRST_HIT c by blast
  next
    case FIRST_MISS
    from cat2_first_miss_inv [OF inp lb FIRST_MISS i1 cov1 P'] show ?thesis unfolding unf FIRST_MISS .
  next
    case ALWAYS_MISS
    obtain c st2 where c: "ic_cons ''L1 I$: always miss'' EQ ?st = (c, st2)" by fastforce
    have "cmp_zero EQ (miss (i, lb_id lb) - int (at t (lc_cfg lb) (lb_bb lb)))" using pr(4) [OF ALWAYS_MISS] by simp
    from bb [OF c this] show ?thesis unfolding unf ALWAYS_MISS c by blast
  next
    case NOT_CLASSIFIED
    obtain c st2 where c: "ic_cons ''L1 I$: not-classified'' LE ?st = (c, st2)" by fastforce
    have "cmp_zero LE (miss (i, lb_id lb) - int (at t (lc_cfg lb) (lb_bb lb)))" using pr(2) by simp
    from bb [OF c this] show ?thesis unfolding unf NOT_CLASSIFIED c by blast
  qed
  then show ?thesis using same_vars_trans [OF s1] by blast
qed

subsection \<open>All the l-blocks\<close>

definition keys :: "nat \<Rightarrow> cat_lblock list \<Rightarrow> cat_lblock list \<Rightarrow> (nat \<times> nat) set" where
  "keys i lbset lbs = (\<lambda>lb. (i, lb_id lb)) ` {lb \<in> set lbs. \<not> is_marker lbset lb}"

lemma lset_before:
  assumes "lset_ok pg cfgs lbset" "lbset = pre @ lb # post" "x \<in> set lbset" "lb_id x < lb_id lb"
  shows "x \<in> set pre"
proof -
  have "sorted_wrt (<) (map lb_id lbset)" using assms(1) by (simp add: lset_ok_def)
  then show ?thesis using assms(2-4) by (auto simp: sorted_wrt_append)
qed

lemma cat2_set_inv:
  assumes inp: "lset_input pg cfgs entry doms t miss lbsets i m" and new: "i \<notin> fst ` P0"
    and split: "lbsets ! i = pre @ lbs" and cov: "covered pg cfgs (ic_ip st)"
    and inv: "ic_inv t val miss (P0 \<union> keys i (lbsets ! i) pre) obj Map.empty st"
  shows "\<exists>st' val. rfold (cat2_cons pg doms i (lbsets ! i) m) lbs st = Inr st' \<and> same_ic st st' \<and>
    ic_inv t val miss (P0 \<union> keys i (lbsets ! i) (lbsets ! i)) obj Map.empty st'"
  using split cov inv
proof (induction lbs arbitrary: pre st val)
  case Nil
  then show ?case by (auto simp: same_vars_def)
next
  case (Cons lb lbs)
  have ok: "lset_ok pg cfgs (lbsets ! i)" using inp by (simp add: lset_input_def)
  have split: "lbsets ! i = (pre @ [lb]) @ lbs" using Cons.prems(1) by simp
  show ?case
  proof (cases "is_marker (lbsets ! i) lb")
    case True
    then have "keys i (lbsets ! i) (pre @ [lb]) = keys i (lbsets ! i) pre" by (auto simp: keys_def)
    then have "ic_inv t val miss (P0 \<union> keys i (lbsets ! i) (pre @ [lb])) obj Map.empty st" using Cons.prems(3) by simp
    from Cons.IH [OF split Cons.prems(2) this] show ?thesis using True by (simp add: cat2_cons_def)
  next
    case False
    let ?P = "P0 \<union> keys i (lbsets ! i) pre"
    have lb: "lb \<in> set (real (lbsets ! i))" using Cons.prems(1) False by (simp add: real_def)
    have P: "\<forall>x \<in> set (real (lbsets ! i)). lb_id x < lb_id lb \<longrightarrow> (i, lb_id x) \<in> ?P"
      using lset_before [OF ok Cons.prems(1)] by (auto simp: real_def keys_def)
    have "(i, lb_id lb) \<notin> P0" using new by force
    then have nw: "(i, lb_id lb) \<notin> ?P" using lset_ids [OF ok Cons.prems(1)] by (force simp: keys_def)
    obtain st1 val1 where st1: "cat2_cons pg doms i (lbsets ! i) m lb st = Inr st1" "same_ic st st1"
        "ic_inv t val1 miss (insert (i, lb_id lb) ?P) obj Map.empty st1"
      using cat2_cons_inv [OF inp lb Cons.prems(3,2) P nw] by blast
    have "keys i (lbsets ! i) (pre @ [lb]) = insert (i, lb_id lb) (keys i (lbsets ! i) pre)" using False by (auto simp: keys_def)
    then have i1: "ic_inv t val1 miss (P0 \<union> keys i (lbsets ! i) (pre @ [lb])) obj Map.empty st1" using st1(3) by simp
    have "covered pg cfgs (ic_ip st1)" using Cons.prems(2) st1(2) covered_same by blast
    from Cons.IH [OF split this i1] show ?thesis using st1(1) same_vars_trans [OF st1(2)] by fastforce
  qed
qed

definition all_keys :: "cat_lblock list list \<Rightarrow> nat \<Rightarrow> (nat \<times> nat) set" where
  "all_keys lbsets n = (\<Union>i < n. keys i (lbsets ! i) (lbsets ! i))"

lemma cat2_only_inv:
  assumes inp: "\<And>i. i < length lbsets \<Longrightarrow> lset_input pg cfgs entry doms t miss lbsets i (ms ! i)"
    and cov: "covered pg cfgs (ic_ip st)" and inv: "ic_inv t val miss {} obj Map.empty st"
  shows "\<exists>st' val. cat2_only_processWorkSpace pg doms lbsets ms st = Inr st' \<and> same_ic st st' \<and>
    ic_inv t val miss (all_keys lbsets (length lbsets)) obj Map.empty st'"
proof -
  have "\<exists>st' val. rfold (\<lambda>i. rfold (cat2_cons pg doms i (lbsets ! i) (ms ! i)) (lbsets ! i)) [0..<n] st = Inr st' \<and> same_ic st st' \<and>
      ic_inv t val miss (all_keys lbsets n) obj Map.empty st'" if "n \<le> length lbsets" for n
    using that
  proof (induction n)
    case 0
    then show ?case using inv by (auto simp: all_keys_def same_vars_def)
  next
    case (Suc n)
    then obtain st1 val1 where st1:
        "rfold (\<lambda>i. rfold (cat2_cons pg doms i (lbsets ! i) (ms ! i)) (lbsets ! i)) [0..<n] st = Inr st1" "same_ic st st1"
        "ic_inv t val1 miss (all_keys lbsets n) obj Map.empty st1" by auto
    have new: "n \<notin> fst ` all_keys lbsets n" by (auto simp: all_keys_def keys_def)
    have cov1: "covered pg cfgs (ic_ip st1)" using cov st1(2) covered_same by blast
    have "ic_inv t val1 miss (all_keys lbsets n \<union> keys n (lbsets ! n) []) obj Map.empty st1" using st1(3) by (simp add: keys_def)
    from cat2_set_inv [OF inp new _ cov1 this, of "lbsets ! n"] Suc.prems obtain st2 val2 where st2:
        "rfold (cat2_cons pg doms n (lbsets ! n) (ms ! n)) (lbsets ! n) st1 = Inr st2" "same_ic st1 st2"
        "ic_inv t val2 miss (all_keys lbsets n \<union> keys n (lbsets ! n) (lbsets ! n)) obj Map.empty st2" by auto
    have "all_keys lbsets (Suc n) = all_keys lbsets n \<union> keys n (lbsets ! n) (lbsets ! n)"
      by (auto simp: all_keys_def less_Suc_eq)
    then show ?case using st1(1) st2 same_vars_trans [OF st1(2) st2(2)] by (auto simp: rfold_append)
  qed
  from this [of "length lbsets"] show ?thesis by (simp add: cat2_only_processWorkSpace_def)
qed

text \<open>The objective gains the penalty of the misses; the markers have no variable and add a constant only.\<close>

lemma ic_objective:
  assumes inv: "ic_inv t val miss P obj Map.empty st"
  shows "ic_inv t val miss P (obj + k * (if x \<in> P then miss x else 0)) Map.empty (ic_sys (addObjectFunction k (ic_miss st x)) st)"
proof -
  let ?s = "ip_sys (ic_ip st)"
  have b: "built t val obj Map.empty (ic_ip st)" and wf: "sys_wf ?s" using inv by (auto simp: ic_inv_def built_def)
  have var: "ic_miss st x = None \<or> (\<exists>v. ic_miss st x = Some v \<and> v < s_new ?s \<and> val v = miss x \<and> x \<in> P)"
    using inv unfolding ic_inv_def by blast
  have in_P: "x \<in> P \<longleftrightarrow> ic_miss st x \<noteq> None" using inv unfolding ic_inv_def by (metis option.distinct(1))
  have wf': "sys_wf (addObjectFunction k (ic_miss st x) ?s)" by (rule addObjectFunction_wf [OF wf]) (use var in auto)
  have o: "obj_val val (addObjectFunction k (ic_miss st x) ?s) = obj_val val ?s + k * (if x \<in> P then miss x else 0)"
    using var in_P obj_val_addObjectFunction [OF wf] by (auto simp: addObjectFunction_def obj_val_def constr_add_def)
  have "built t val (obj + k * (if x \<in> P then miss x else 0)) Map.empty (on_sys (addObjectFunction k (ic_miss st x)) (ic_ip st))"
    using b wf' o unfolding built_def counts_def
    by (simp add: view_addObjectFunction on_sys_def ofun_cmp) (simp add: addObjectFunction_def)
  moreover have "s_new (ip_sys (on_sys (addObjectFunction k (ic_miss st x)) (ic_ip st))) = s_new ?s"
    by (simp add: on_sys_def addObjectFunction_def)
  ultimately show ?thesis using inv unfolding ic_inv_def by simp
qed

definition set_misses :: "nat \<Rightarrow> cat_lblock list \<Rightarrow> (nat \<times> nat \<Rightarrow> int) \<Rightarrow> int" where
  "set_misses i lbset miss = (\<Sum>lb \<leftarrow> real lbset. miss (i, lb_id lb))"

definition all_misses :: "cat_lblock list list \<Rightarrow> (nat \<times> nat \<Rightarrow> int) \<Rightarrow> int" where
  "all_misses lbsets miss = (\<Sum>i \<leftarrow> [0..<length lbsets]. set_misses i (lbsets ! i) miss)"

lemma objective_lblocks:
  assumes "ic_inv t val miss P obj Map.empty st"
  shows "ic_inv t val miss P (obj + k * (\<Sum>lb \<leftarrow> lbs. if (i, lb_id lb) \<in> P then miss (i, lb_id lb) else 0)) Map.empty
    (fold (add_penalty k i) lbs st)"
  using assms
proof (induction lbs arbitrary: obj st)
  case (Cons lb lbs)
  from Cons.IH [OF ic_objective [OF Cons.prems, of k "(i, lb_id lb)"]] show ?case by (simp add: add_penalty_def algebra_simps)
qed simp

lemma markers_no_key:
  assumes "lset_ok pg cfgs (lbsets ! i)" "i < length lbsets" "lb \<in> set (lbsets ! i)"
  shows "(i, lb_id lb) \<in> all_keys lbsets (length lbsets) \<longleftrightarrow> \<not> is_marker (lbsets ! i) lb"
  using assms(2,3) by (auto simp: all_keys_def keys_def is_marker_def)

lemma sum_real:
  "(\<Sum>lb \<leftarrow> lbs. if \<not> is_marker lbset lb then f lb else 0) = (\<Sum>lb \<leftarrow> filter (\<lambda>lb. \<not> is_marker lbset lb) lbs. f lb :: int)"
  by (induction lbs) auto

lemma cat2_objective_inv:
  assumes inv: "ic_inv t val miss (all_keys lbsets (length lbsets)) obj Map.empty st"
    and ok: "\<And>i. i < length lbsets \<Longrightarrow> lset_ok pg cfgs (lbsets ! i)"
  shows "ic_inv t val miss (all_keys lbsets (length lbsets)) (obj + penalty * all_misses lbsets miss) Map.empty
    (cat2_objective penalty lbsets st)"
proof -
  let ?P = "all_keys lbsets (length lbsets)"
  let ?f = "\<lambda>i. fold (add_penalty penalty i) (lbsets ! i)"
  have "ic_inv t val miss ?P (obj + penalty * (\<Sum>i \<leftarrow> [0..<n]. set_misses i (lbsets ! i) miss)) Map.empty (fold ?f [0..<n] st)"
    if "n \<le> length lbsets" for n
    using that
  proof (induction n)
    case 0
    then show ?case using inv by simp
  next
    case (Suc n)
    then have n: "n < length lbsets" by simp
    have "(\<Sum>lb \<leftarrow> lbsets ! n. if (n, lb_id lb) \<in> ?P then miss (n, lb_id lb) else 0) =
        (\<Sum>lb \<leftarrow> lbsets ! n. if \<not> is_marker (lbsets ! n) lb then miss (n, lb_id lb) else 0)"
      by (rule arg_cong [where f = sum_list], rule map_cong [OF refl]) (simp add: markers_no_key [OF ok [OF n] n])
    then have e: "(\<Sum>lb \<leftarrow> lbsets ! n. if (n, lb_id lb) \<in> ?P then miss (n, lb_id lb) else 0) = set_misses n (lbsets ! n) miss"
      by (simp add: set_misses_def real_def sum_real)
    have IH: "ic_inv t val miss ?P (obj + penalty * (\<Sum>i \<leftarrow> [0..<n]. set_misses i (lbsets ! i) miss)) Map.empty (fold ?f [0..<n] st)"
      using Suc by simp
    have o: "obj + penalty * (\<Sum>i \<leftarrow> [0..<Suc n]. set_misses i (lbsets ! i) miss) =
        obj + penalty * (\<Sum>i \<leftarrow> [0..<n]. set_misses i (lbsets ! i) miss) + penalty * set_misses n (lbsets ! n) miss"
      by (simp add: algebra_simps)
    have f: "fold ?f [0..<Suc n] st = ?f n (fold ?f [0..<n] st)" by simp
    show ?case unfolding o f
      using objective_lblocks [OF IH, where k = penalty and i = n and lbs = "lbsets ! n"] unfolding e .
  qed
  from this [of "length lbsets"] show ?thesis by (simp add: cat2_objective_def all_misses_def)
qed

subsection \<open>The WCET with the instruction cache\<close>

lemma links_ok:
  assumes "\<forall>lbset \<in> set lbsets. lset_ok pg cfgs lbset"
  shows "\<exists>ms. (if link then link_processWorkSpace lbsets else Inr (replicate (length lbsets) (\<lambda>_. None))) = Inr ms \<and>
    (\<forall>i < length lbsets. linked_ok (lbsets ! i) (ms ! i))"
  using link_processWorkSpace_ok [OF assms] by (auto simp: linked_ok_def)

lemma icache_wcet_bounds:
  assumes inp: "wcet_input pg cfgs entry doms" and u: "\<And>x. ff_unrolled ff x = []" and tm: "timed pg cfgs tm"
    and sol: "lp_solver_ok solver" and run: "run pg entry t" and keep: "keeps_bounds pg cfgs ff t" and cost: "costs_within pg cfgs tm cost"
    and ok: "\<forall>lbset \<in> set lbsets. lset_ok pg cfgs lbset" and mw: "misses_within pg t lbsets miss"
  shows "\<exists>w. icache_wcet pg cfgs entry doms ff tm link lbsets penalty solver cancelled = Inr w \<and>
    (w \<noteq> -1 \<longrightarrow> run_time cost t + penalty * all_misses lbsets miss \<le> w)"
proof -
  obtain ip0 ip1 ip2 ip3 val obj where ip: "va_processWorkSpace pg cfgs ipet_new = Inr ip0" "bc_processWorkSpace pg cfgs entry ip0 = Inr ip1"
      "of_processWorkSpace pg cfgs tm ip1 = Inr ip2" "fc_processWorkSpace pg cfgs doms ff ip2 = Inr ip3"
      "covered pg cfgs ip3" "built t val obj Map.empty ip3" "run_time cost t \<le> obj"
    using ipet_system_built [OF inp u tm run keep cost] by blast
  obtain ms where ms: "(if link then link_processWorkSpace lbsets else Inr (replicate (length lbsets) (\<lambda>_. None))) = Inr ms"
      "\<forall>i < length lbsets. linked_ok (lbsets ! i) (ms ! i)" using links_ok [OF ok] by blast
  have li: "lset_input pg cfgs entry doms t miss lbsets i (ms ! i)" if "i < length lbsets" for i
    using inp mw ok ms(2) that by (simp add: lset_input_def)
  let ?st = "\<lparr>ic_miss = (\<lambda>_. None), ic_ip = ip3\<rparr>"
  have "ic_inv t val miss {} obj Map.empty ?st" using ip(6) by (simp add: ic_inv_def)
  then obtain st1 val1 where st1: "cat2_only_processWorkSpace pg doms lbsets ms ?st = Inr st1"
      "ic_inv t val1 miss (all_keys lbsets (length lbsets)) obj Map.empty st1"
    using cat2_only_inv [OF li, of ?st val obj] ip(5) by auto
  let ?st2 = "cat2_objective penalty lbsets st1" and ?w = "\<lambda>st. fst (wcet_processWorkSpace solver cancelled (ic_ip st))"
  have "ic_inv t val1 miss (all_keys lbsets (length lbsets)) (obj + penalty * all_misses lbsets miss) Map.empty ?st2"
    by (rule cat2_objective_inv [OF st1(2), of pg cfgs]) (use ok in simp)
  then have "built t val1 (obj + penalty * all_misses lbsets miss) Map.empty (ic_ip ?st2)" by (simp add: ic_inv_def)
  from wcet_of_built [OF sol this, of cancelled] have "?w ?st2 \<noteq> -1 \<longrightarrow> run_time cost t + penalty * all_misses lbsets miss \<le> ?w ?st2"
    using ip(7) by fastforce
  moreover have "icache_wcet pg cfgs entry doms ff tm link lbsets penalty solver cancelled = Inr (?w ?st2)"
    using ip(1-4) ms(1) st1(1) by (simp add: icache_wcet_def cat2_processWorkSpace_def)
  ultimately show ?thesis by blast
qed

end
