(* ===== verification/Example_Program.thy ===== *)
theory Example_Program
  imports Ipet_Wcet
begin

text \<open>
  The graphs and the program on which the properties are applied: a loop whose body calls a
  leaf function, its dominance information, its system for the computation of the WCET and
  the solution of this system.
\<close>

subsection \<open>Flow graphs of the examples\<close>

text \<open>A graph with one loop: entry, header 1, body 2, exit.\<close>

definition ex_edge :: "nat \<Rightarrow> nat \<Rightarrow> nat \<Rightarrow> edge_kind \<Rightarrow> edge" where
  "ex_edge i a b k = \<lparr>e_id = i, e_src = a, e_tgt = b, e_kind = k\<rparr>"

definition loop_cfg :: cfg where
  "loop_cfg = \<lparr>cfg_bbs = [
     \<lparr>bb_flags = FLAG_Entry, bb_ins = [], bb_outs = [ex_edge 0 0 1 VIRTUAL]\<rparr>,
     \<lparr>bb_flags = 0, bb_ins = [ex_edge 0 0 1 VIRTUAL, ex_edge 2 2 1 TAKEN], bb_outs = [ex_edge 1 1 2 NOT_TAKEN, ex_edge 3 1 3 VIRTUAL]\<rparr>,
     \<lparr>bb_flags = 0, bb_ins = [ex_edge 1 1 2 NOT_TAKEN], bb_outs = [ex_edge 2 2 1 TAKEN, ex_edge 4 2 0 CALL]\<rparr>,
     \<lparr>bb_flags = FLAG_Exit, bb_ins = [ex_edge 3 1 3 VIRTUAL], bb_outs = []\<rparr>]\<rparr>"

lemma loop_cfg_count [simp]: "countBB loop_cfg = 4"
  by (simp add: countBB_def loop_cfg_def)

lemma less_4_cases: "(\<forall>b < (4 :: nat). P b) \<longleftrightarrow> P 0 \<and> P 1 \<and> P 2 \<and> P 3"
  by (auto simp: less_Suc_eq numeral_eq_Suc)

lemma loop_cfg_lists [simp]:
  "outs loop_cfg 0 = [ex_edge 0 0 1 VIRTUAL]"
  "outs loop_cfg 1 = [ex_edge 1 1 2 NOT_TAKEN, ex_edge 3 1 3 VIRTUAL]"
  "outs loop_cfg 2 = [ex_edge 2 2 1 TAKEN, ex_edge 4 2 0 CALL]"
  "outs loop_cfg 3 = []"
  "ins loop_cfg 0 = []"
  "ins loop_cfg 1 = [ex_edge 0 0 1 VIRTUAL, ex_edge 2 2 1 TAKEN]"
  "ins loop_cfg 2 = [ex_edge 1 1 2 NOT_TAKEN]"
  "ins loop_cfg 3 = [ex_edge 3 1 3 VIRTUAL]"
  by (simp_all add: outs_def ins_def loop_cfg_def)

lemma loop_cfg_wf: "wf_cfg loop_cfg"
proof -
  have "wf_edges loop_cfg"
    unfolding wf_edges_def loop_cfg_count less_4_cases by (simp add: ex_edge_def One_nat_def [symmetric] del: One_nat_def)
  moreover have "\<forall>b < 4. (isEntry loop_cfg b \<longleftrightarrow> b = 0) \<and> (isExit loop_cfg b \<longleftrightarrow> b = 4 - 1)"
    unfolding less_4_cases by (simp add: isEntry_def isExit_def loop_cfg_def flag_defs)
  ultimately show ?thesis by (simp add: wf_cfg_def)
qed

lemma loop_cfg_reachable: "b < countBB loop_cfg \<Longrightarrow> reachable loop_cfg b"
proof -
  have "\<forall>b < 4. \<exists>p. is_path (flow_edge Predecessor loop_cfg) 0 p b"
    unfolding less_4_cases
  proof (intro conjI)
    have e: "flow_edge Predecessor loop_cfg 0 1" "flow_edge Predecessor loop_cfg 1 2" "flow_edge Predecessor loop_cfg 1 3"
      by (simp_all add: flow_edge_def not_calls_filter ex_edge_def One_nat_def [symmetric] del: One_nat_def)
    show "\<exists>p. is_path (flow_edge Predecessor loop_cfg) 0 p 0" by (intro exI [of _ "[0]"]) simp
    show "\<exists>p. is_path (flow_edge Predecessor loop_cfg) 0 p 1" using e by (intro exI [of _ "[0, 1]"]) simp
    show "\<exists>p. is_path (flow_edge Predecessor loop_cfg) 0 p 2" using e by (intro exI [of _ "[0, 1, 2]"]) simp
    show "\<exists>p. is_path (flow_edge Predecessor loop_cfg) 0 p 3" using e by (intro exI [of _ "[0, 1, 3]"]) simp
  qed
  then show "b < countBB loop_cfg \<Longrightarrow> reachable loop_cfg b" by (simp add: reachable_def)
qed

subsection \<open>A program with a loop and a call\<close>

text \<open>A program: the loop calls a leaf function from its body, and makes at most two iterations.\<close>

definition leaf_cfg :: cfg where
  "leaf_cfg = \<lparr>cfg_bbs = [
     \<lparr>bb_flags = FLAG_Entry, bb_ins = [], bb_outs = [ex_edge 10 0 1 VIRTUAL]\<rparr>,
     \<lparr>bb_flags = 0, bb_ins = [ex_edge 10 0 1 VIRTUAL], bb_outs = [ex_edge 11 1 2 VIRTUAL]\<rparr>,
     \<lparr>bb_flags = FLAG_Exit, bb_ins = [ex_edge 11 1 2 VIRTUAL], bb_outs = []\<rparr>]\<rparr>"

definition ex_pg :: program where
  "ex_pg = \<lparr>pg_cfgs = [loop_cfg, leaf_cfg], pg_callee = (\<lambda>e. if e_id e = 4 then Some 1 else None)\<rparr>"

definition ex_ff :: flow_facts where
  "ex_ff = \<lparr>ff_max = (\<lambda>x. if x = (0, 1) then 2 else -1), ff_total = (\<lambda>_. -1), ff_min = (\<lambda>_. -1), ff_unrolled = (\<lambda>_. [])\<rparr>"

definition ex_tm :: times where
  "ex_tm = \<lparr>tm_edge = (\<lambda>_. -1), tm_block = (\<lambda>(k, b). if k = 1 then 3 else if b = 1 then 5 else 7)\<rparr>"

definition ex_cost :: "edge \<Rightarrow> int" where
  "ex_cost e = (if e_id e \<in> {0, 2} then 5 else if e_id e = 1 then 7 else if e_id e = 10 then 3 else 0)"

definition ex_run :: "item list" where
  "ex_run = [At 0 0, Through (ex_edge 0 0 1 VIRTUAL), At 0 1, Through (ex_edge 1 1 2 NOT_TAKEN), At 0 2, Enter (ex_edge 4 2 0 CALL),
     At 1 0, Through (ex_edge 10 0 1 VIRTUAL), At 1 1, Through (ex_edge 11 1 2 VIRTUAL), At 1 2,
     Through (ex_edge 2 2 1 TAKEN), At 0 1, Through (ex_edge 3 1 3 VIRTUAL), At 0 3]"

lemma leaf_cfg_lists [simp]:
  "countBB leaf_cfg = 3"
  "outs leaf_cfg 0 = [ex_edge 10 0 1 VIRTUAL]" "outs leaf_cfg 1 = [ex_edge 11 1 2 VIRTUAL]" "outs leaf_cfg 2 = []"
  "ins leaf_cfg 0 = []" "ins leaf_cfg 1 = [ex_edge 10 0 1 VIRTUAL]" "ins leaf_cfg 2 = [ex_edge 11 1 2 VIRTUAL]"
  by (simp_all add: outs_def ins_def countBB_def leaf_cfg_def)

lemma less_3_cases: "(\<forall>b < (3 :: nat). P b) \<longleftrightarrow> P 0 \<and> P 1 \<and> P 2"
  by (auto simp: less_Suc_eq numeral_eq_Suc)

lemma leaf_cfg_wf: "wf_cfg leaf_cfg"
proof -
  have "wf_edges leaf_cfg" unfolding wf_edges_def leaf_cfg_lists less_3_cases by (simp add: ex_edge_def One_nat_def [symmetric] del: One_nat_def)
  moreover have "\<forall>b < 3. (isEntry leaf_cfg b \<longleftrightarrow> b = 0) \<and> (isExit leaf_cfg b \<longleftrightarrow> b = 3 - 1)"
    unfolding less_3_cases by (simp add: isEntry_def isExit_def leaf_cfg_def flag_defs)
  ultimately show ?thesis by (simp add: wf_cfg_def)
qed

lemma leaf_cfg_reachable: "b < countBB leaf_cfg \<Longrightarrow> reachable leaf_cfg b"
proof -
  have e: "flow_edge Predecessor leaf_cfg 0 1" "flow_edge Predecessor leaf_cfg 1 2"
    by (simp_all add: flow_edge_def not_calls_filter ex_edge_def One_nat_def [symmetric] del: One_nat_def)
  have "\<forall>b < 3. \<exists>p. is_path (flow_edge Predecessor leaf_cfg) 0 p b"
    unfolding less_3_cases
  proof (intro conjI)
    show "\<exists>p. is_path (flow_edge Predecessor leaf_cfg) 0 p 0" by (intro exI [of _ "[0]"]) simp
    show "\<exists>p. is_path (flow_edge Predecessor leaf_cfg) 0 p 1" using e by (intro exI [of _ "[0, 1]"]) simp
    show "\<exists>p. is_path (flow_edge Predecessor leaf_cfg) 0 p 2" using e by (intro exI [of _ "[0, 1, 2]"]) simp
  qed
  then show "b < countBB leaf_cfg \<Longrightarrow> reachable leaf_cfg b" by (simp add: reachable_def)
qed

definition loop_doms :: dom_info where
  "loop_doms = \<lparr>di_reverse = [\<lparr>bv_bits = [1], bv_size = 4\<rparr>, \<lparr>bv_bits = [3], bv_size = 4\<rparr>,
     \<lparr>bv_bits = [7], bv_size = 4\<rparr>, \<lparr>bv_bits = [11], bv_size = 4\<rparr>],
     di_header = [False, True, False, False], di_back = [ex_edge 2 2 1 TAKEN]\<rparr>"

definition leaf_doms :: dom_info where
  "leaf_doms = \<lparr>di_reverse = [\<lparr>bv_bits = [1], bv_size = 3\<rparr>, \<lparr>bv_bits = [3], bv_size = 3\<rparr>, \<lparr>bv_bits = [7], bv_size = 3\<rparr>],
     di_header = [False, False, False], di_back = []\<rparr>"

definition ex_doms :: "nat \<Rightarrow> dom_info" where
  "ex_doms k = (if k = 0 then loop_doms else leaf_doms)"

lemma ex_doms_computed:
  "dom_processCFG loop_cfg = Some (Inr loop_doms)" "dom_processCFG leaf_cfg = Some (Inr leaf_doms)"
  by code_simp+

subsection \<open>Its linear system\<close>

definition ex_matrix :: lp_matrix where
  "ex_matrix = \<lparr>lp_cols = 13, lp_types = map (\<lambda>c. (c, INT_TYPE)) (rev [1..<14]), lp_max = True,
    lp_obj = [0, 0, 5, 0, 5, 7, 0, 0, 0, 0, 3, 0, 0, 0],
    lp_rows =
      [([0, 0, - 2, 0, 1, 0, 0, 0, 0, 0, 0, 0, 0, 0], LE, 0),
       ([0, 1, 0, 0, 0, 0, 0, 0, 0, 0, 0, 0, 0, 0], EQ, 1),
       ([0, 0, 0, 0, 0, 0, 0, 0, 0, 0, 0, 0, - 1, 1], EQ, 0),
       ([0, 0, 0, 0, 0, 0, 0, 0, 0, 0, 0, 1, - 1, 0], EQ, 0),
       ([0, 0, 0, 0, 0, 0, 0, 0, 0, 0, - 1, 1, 0, 0], EQ, 0),
       ([0, 0, 0, 0, 0, 0, 0, 0, 1, 0, - 1, 0, 0, 0], EQ, 0),
       ([0, 0, 0, 0, 0, 0, - 1, 0, 0, 1, 0, 0, 0, 0], EQ, 0),
       ([0, 0, 0, 0, 0, 0, 0, - 1, 1, 0, 0, 0, 0, 0], EQ, 0),
       ([0, 0, 0, 0, - 1, 0, 0, 1, 0, 0, 0, 0, 0, 0], EQ, 0),
       ([0, 0, 0, 0, 0, - 1, 0, 1, 0, 0, 0, 0, 0, 0], EQ, 0),
       ([0, 0, 0, 1, 0, - 1, - 1, 0, 0, 0, 0, 0, 0, 0], EQ, 0),
       ([0, 0, - 1, 1, - 1, 0, 0, 0, 0, 0, 0, 0, 0, 0], EQ, 0),
       ([0, 1, - 1, 0, 0, 0, 0, 0, 0, 0, 0, 0, 0, 0], EQ, 0)]\<rparr>"

definition ex_solver :: "lp_matrix \<Rightarrow> lp_result" where
  "ex_solver m = (if m = ex_matrix then OPTIMAL 35 (\<lambda>i. [0, 1, 1, 3, 2, 2, 1, 2, 2, 1, 2, 2, 2, 2] ! i) else FAILED)"

lemma upto_13: "{1..13 :: nat} = set [1..<14]" by auto

lemma row_val_list: "row_val 13 row x = (\<Sum>i \<leftarrow> [1, 2, 3, 4, 5, 6, 7, 8, 9, 10, 11, 12, 13]. row ! i * x i)"
proof -
  have "[1..<14] = [1, 2, 3, 4, 5, 6, 7, 8, 9, 10, 11, 12, 13 :: nat]" by code_simp
  then show ?thesis unfolding row_val_def upto_13 by (subst sum.distinct_set_conv_list) simp_all
qed

lemma ex_solver_ok: "lp_solver_ok ex_solver"
proof -
  let ?x = "\<lambda>i. [0, 1, 1, 3, 2, 2, 1, 2, 2, 1, 2, 2, 2, 2] ! i :: int"
  have "\<forall>i \<in> set [1..<14]. 0 \<le> ?x i" by code_simp
  then have f: "lp_feasible ex_matrix ?x"
    unfolding upto_13 [symmetric] by (simp add: lp_feasible_def ex_matrix_def row_val_list)
  have v: "lp_value ex_matrix ?x = 35" by (simp add: lp_value_def ex_matrix_def row_val_list)
  have "lp_value ex_matrix x \<le> 35" if "lp_feasible ex_matrix x" for x
    using that by (simp add: lp_feasible_def lp_value_def ex_matrix_def row_val_list)
  then show ?thesis using f v by (auto simp: lp_solver_ok_def ex_solver_def ex_matrix_def)
qed

definition ex_va :: "ipet res" where "ex_va = va_processWorkSpace ex_pg [0, 1] ipet_new"
definition ex_bc :: "ipet res" where "ex_bc = rbind ex_va (bc_processWorkSpace ex_pg [0, 1] 0)"
definition ex_of :: "ipet res" where "ex_of = rbind ex_bc (of_processWorkSpace ex_pg [0, 1] ex_tm)"
definition ex_fc :: "ipet res" where "ex_fc = rbind ex_of (fc_processWorkSpace ex_pg [0, 1] ex_doms ex_ff)"
definition ex_lp :: "lp_matrix res" where "ex_lp = (case ex_fc of Inr ip \<Rightarrow> Inr (lp_of (ip_sys ip)) | Inl f \<Rightarrow> Inl f)"
lemma ex_lp_computed: "ex_lp = Inr ex_matrix"
  by code_simp

lemma ex_wcet: "ipet_wcet ex_pg [0, 1] 0 ex_doms ex_ff ex_tm ex_solver False = Inr 35"
proof -
  obtain ip where ip: "ex_fc = Inr ip" "lp_of (ip_sys ip) = ex_matrix"
    using ex_lp_computed by (auto simp: ex_lp_def split: sum.splits)
  have "rbind (rbind r f) g = rbind r (\<lambda>x. rbind (f x) g)" for r :: "ipet res" and f and g :: "ipet \<Rightarrow> int res"
    by (simp add: rbind_def split: sum.split)
  then have "ipet_wcet ex_pg [0, 1] 0 ex_doms ex_ff ex_tm ex_solver False =
      rbind ex_fc (\<lambda>ip. Inr (fst (wcet_processWorkSpace ex_solver False ip)))"
    by (simp add: ipet_wcet_def ex_fc_def ex_of_def ex_bc_def ex_va_def)
  also have "\<dots> = Inr 35" unfolding ip(1) by (simp add: wcet_processWorkSpace_def sys_solve_def ex_solver_def ip(2))
  finally show ?thesis .
qed

subsection \<open>The assumptions hold of it\<close>

lemma ex_cfg_of [simp]: "cfg_of ex_pg 0 = loop_cfg" "cfg_of ex_pg 1 = leaf_cfg" "length (pg_cfgs ex_pg) = 2"
  "pg_callee ex_pg (ex_edge i a b k) = (if i = 4 then Some 1 else None)"
  by (simp_all add: cfg_of_def ex_pg_def ex_edge_def)

lemma ex_edge_kind: "e_kind (ex_edge i a b k) = k" "e_src (ex_edge i a b k) = a" "e_tgt (ex_edge i a b k) = b"
  by (simp_all add: ex_edge_def)

lemma less_2_cases: "(\<forall>b < (2 :: nat). P b) \<longleftrightarrow> P 0 \<and> P 1"
  by (auto simp: less_Suc_eq numeral_eq_Suc)

lemma ex_call_edges [simp]: "call_edges ex_pg 0 = [ex_edge 4 2 0 CALL]" "call_edges ex_pg 1 = []"
  by code_simp+

lemmas ex_Suc [simp] = ex_cfg_of(2) [unfolded One_nat_def] ex_call_edges(2) [unfolded One_nat_def]
  leaf_cfg_lists(3,6) [unfolded One_nat_def] loop_cfg_lists(2,6) [unfolded One_nat_def]

lemma ex_wf_program: "wf_program ex_pg"
proof -
  have "callees_bound ex_pg" unfolding callees_bound_def calls_cfg_def ex_cfg_of less_2_cases by simp
  moreover have "\<forall>k < 2. \<forall>l < 2. \<forall>b < countBB (cfg_of ex_pg k). \<forall>c < countBB (cfg_of ex_pg l).
      \<forall>e \<in> set (outs (cfg_of ex_pg k) b) \<inter> set (outs (cfg_of ex_pg l) c). k = l"
    by code_simp
  moreover have "\<forall>k < 2. let g = cfg_of ex_pg k in wf_cfg g \<and> ins g 0 = [] \<and> (\<forall>e \<in> set (outs g (countBB g - 1)). e_kind e = CALL)"
    unfolding less_2_cases by (simp add: loop_cfg_wf leaf_cfg_wf)
  ultimately show ?thesis by (simp add: wf_program_def)
qed

lemma ex_ipet_input: "ipet_input ex_pg [0, 1] 0"
  using ex_wf_program by (simp add: ipet_input_def)

lemma ex_run_ok: "run ex_pg 0 ex_run"
proof -
  have n: "calling ex_pg k b []" if "\<forall>e \<in> set (outs (cfg_of ex_pg k) b). e_kind e \<noteq> CALL" for k b
    using that by (rule walk_calling.calling_none)
  have leaf: "walk ex_pg 1 0 [At 1 0, Through (ex_edge 10 0 1 VIRTUAL), At 1 1, Through (ex_edge 11 1 2 VIRTUAL), At 1 2]"
  proof -
    have "isExit leaf_cfg 2" using leaf_cfg_wf by (simp add: wf_cfg_def)
    then have w2: "walk ex_pg 1 2 [At 1 2]" using walk_calling.walk_end [of ex_pg 1 2 "[]"] n [of 1 2] by simp
    have w1: "walk ex_pg 1 1 [At 1 1, Through (ex_edge 11 1 2 VIRTUAL), At 1 2]"
      using walk_calling.walk_edge [of "ex_edge 11 1 2 VIRTUAL" ex_pg 1 1 "[]" "[At 1 2]"] n [of 1 1] w2 by (simp add: ex_edge_def)
    show ?thesis
      using walk_calling.walk_edge [of "ex_edge 10 0 1 VIRTUAL" ex_pg 1 0 "[]"] n [of 1 0] w1 by (simp add: ex_edge_def)
  qed
  have "isExit loop_cfg 3" using loop_cfg_wf by (simp add: wf_cfg_def)
  then have w3: "walk ex_pg 0 3 [At 0 3]" using walk_calling.walk_end [of ex_pg 0 3 "[]"] n [of 0 3] by simp
  have w1: "walk ex_pg 0 1 [At 0 1, Through (ex_edge 3 1 3 VIRTUAL), At 0 3]"
    using walk_calling.walk_edge [of "ex_edge 3 1 3 VIRTUAL" ex_pg 0 1 "[]" "[At 0 3]"] n [of 0 1] w3 by (simp add: ex_edge_def)
  have c: "calling ex_pg 0 2 (Enter (ex_edge 4 2 0 CALL) # [At 1 0, Through (ex_edge 10 0 1 VIRTUAL), At 1 1, Through (ex_edge 11 1 2 VIRTUAL), At 1 2])"
    by (rule walk_calling.calling_one [OF _ _ _ leaf]) (simp_all add: ex_edge_kind)
  have w2: "walk ex_pg 0 2 (At 0 2 # (Enter (ex_edge 4 2 0 CALL) # [At 1 0, Through (ex_edge 10 0 1 VIRTUAL), At 1 1,
      Through (ex_edge 11 1 2 VIRTUAL), At 1 2]) @ Through (ex_edge 2 2 1 TAKEN) # [At 0 1, Through (ex_edge 3 1 3 VIRTUAL), At 0 3])"
    by (rule walk_calling.walk_edge [OF _ _ c]) (use w1 in \<open>simp_all add: ex_edge_def\<close>)
  have w1': "walk ex_pg 0 1 (At 0 1 # [] @ Through (ex_edge 1 1 2 NOT_TAKEN) # (At 0 2 # (Enter (ex_edge 4 2 0 CALL) #
      [At 1 0, Through (ex_edge 10 0 1 VIRTUAL), At 1 1, Through (ex_edge 11 1 2 VIRTUAL), At 1 2]) @
      Through (ex_edge 2 2 1 TAKEN) # [At 0 1, Through (ex_edge 3 1 3 VIRTUAL), At 0 3]))"
    by (rule walk_calling.walk_edge) (use w2 n [of 0 1] in \<open>simp_all add: ex_edge_def\<close>)
  have "walk ex_pg 0 0 (At 0 0 # [] @ Through (ex_edge 0 0 1 VIRTUAL) # (At 0 1 # [] @ Through (ex_edge 1 1 2 NOT_TAKEN) #
      (At 0 2 # (Enter (ex_edge 4 2 0 CALL) #
      [At 1 0, Through (ex_edge 10 0 1 VIRTUAL), At 1 1, Through (ex_edge 11 1 2 VIRTUAL), At 1 2]) @
      Through (ex_edge 2 2 1 TAKEN) # [At 0 1, Through (ex_edge 3 1 3 VIRTUAL), At 0 3])))"
    by (rule walk_calling.walk_edge) (use w1' n [of 0 0] in \<open>simp_all add: ex_edge_def\<close>)
  then show ?thesis by (simp add: run_def ex_run_def)
qed

lemma ex_timed: "timed ex_pg [0, 1] ex_tm"
  by code_simp

lemma ex_costs: "costs_within ex_pg [0, 1] ex_tm ex_cost"
  by code_simp

lemma ex_run_time: "run_time ex_cost ex_run = 20"
  by code_simp

lemma ex_loop_edges:
  "1 \<in> dom_set loop_cfg 2" "back_ins ex_pg 0 1 = [ex_edge 2 2 1 TAKEN]" "entry_ins ex_pg 0 1 = [ex_edge 0 0 1 VIRTUAL]"
proof -
  have rd: "dom_table loop_cfg (di_reverse loop_doms)"
    using dom_processCFG_marked [OF loop_cfg_wf loop_cfg_reachable] ex_doms_computed(1) by auto
  have "dominates (di_reverse loop_doms) 1 0 = Inr False" "dominates (di_reverse loop_doms) 1 2 = Inr True" by code_simp+
  then have d: "1 \<notin> dom_set loop_cfg 0" "1 \<in> dom_set loop_cfg 2"
    using dominates_reachable [OF rd, of 1 0] dominates_reachable [OF rd, of 1 2] loop_cfg_reachable [of 1] by auto
  have i: "ins loop_cfg 1 = [ex_edge 0 0 1 VIRTUAL, ex_edge 2 2 1 TAKEN]" by simp
  show "1 \<in> dom_set loop_cfg 2" "back_ins ex_pg 0 1 = [ex_edge 2 2 1 TAKEN]" "entry_ins ex_pg 0 1 = [ex_edge 0 0 1 VIRTUAL]"
    unfolding back_ins_def entry_ins_def ex_cfg_of i using d by (simp_all add: ex_edge_kind)
qed

lemma ex_keeps_bounds: "keeps_bounds ex_pg [0, 1] ex_ff ex_run"
proof -
  have it: "iter_max {ex_edge 2 2 1 TAKEN} {ex_edge 0 0 1 VIRTUAL} 2 0 ex_run" by code_simp
  have "iter_max (set (back_ins ex_pg 0 1)) (set (entry_ins ex_pg 0 1)) (nat (ff_max ex_ff (0, 1))) 0 ex_run"
    unfolding ex_loop_edges using it by (simp add: ex_ff_def)
  moreover have "ff_max ex_ff (k, b) < 0" if "(k, b) \<noteq> (0, 1)" for k b using that by (simp add: ex_ff_def)
  moreover have "ff_min ex_ff x < 0" "ff_total ex_ff x < 0" for x by (simp_all add: ex_ff_def)
  ultimately show ?thesis unfolding keeps_bounds_def Let_def
    by (metis linorder_not_less prod.inject)
qed

end
