(* ===== verification/Loop_Nest.thy ===== *)
theory Loop_Nest
  imports Loop_Info
begin

text \<open>
  The loops of a reducible graph as a forest. \<open>par\<close> is the loop around a block
  (\<^verbatim>\<open>ENCLOSING_LOOP_HEADER\<close>), \<open>ex\<close> the loop that an edge leaves (\<^verbatim>\<open>LOOP_EXIT_EDGE\<close>). An edge
  stands, at the level of its target, for its source or for the loop that it leaves. The
  locale \<open>loop_nest\<close> collects what an iteration over nested loops relies on.
\<close>

subsection \<open>Natural loops are nested\<close>

lemma all_edges_succs:
  assumes "wf_edges g" "e \<in> all_edges g" "e_kind e \<noteq> CALL"
  shows "succs g (e_src e) (e_tgt e)" "e_src e < countBB g" "e_tgt e < countBB g"
    "e \<in> set (outs g (e_src e))" "e \<in> set (ins g (e_tgt e))"
  using all_edges_src [OF assms(1,2)] wf_edges_out [OF assms(1), of "e_src e" e] assms(3)
  by (auto simp: flow_edge_def not_calls_filter)

lemma succs_edge:
  assumes "wf_edges g" "succs g a b" "a < countBB g"
  shows "\<exists>e \<in> all_edges g. e_kind e \<noteq> CALL \<and> e_src e = a \<and> e_tgt e = b"
  using assms wf_edges_out [OF assms(1,3)] by (auto simp: flow_edge_def not_calls_filter all_edges_def)

text \<open>What the engine runs on: the annotations of the two processors on a call-free graph of
  which \<open>rk\<close> numbers the blocks in a topological order of the edges that are not back edges,
  and whose edges leave one loop at most.\<close>

definition nest_graph :: "cfg \<times> dom_info \<times> loop_info \<times> (nat \<Rightarrow> nat) \<Rightarrow> bool" where
  "nest_graph = (\<lambda>(g, di, li, rk). loop_input g di \<and> lib_processCFG g di = Some (Inr li) \<and>
     (\<forall>e \<in> all_edges g. e_kind e \<noteq> CALL \<and> (back_edge g e \<or> rk (e_src e) < rk (e_tgt e)) \<and>
        (\<forall>x y. leaves g x e \<and> leaves g y e \<longrightarrow> x = y)))"

lemma nest_graphD:
  assumes "nest_graph (g, di, li, rk)"
  shows "loop_input g di" "wf_cfg g" "wf_edges g" "lib_processCFG g di = Some (Inr li)" "ins g 0 = []"
    "\<And>e. e \<in> all_edges g \<Longrightarrow> e_kind e \<noteq> CALL"
    "\<And>e. e \<in> all_edges g \<Longrightarrow> \<not> back_edge g e \<Longrightarrow> rk (e_src e) < rk (e_tgt e)"
    "\<And>e x y. e \<in> all_edges g \<Longrightarrow> leaves g x e \<Longrightarrow> leaves g y e \<Longrightarrow> x = y"
  using assms by (auto simp: nest_graph_def loop_input_def wf_cfg_def)

definition live :: "cfg \<Rightarrow> nat set" where
  "live g = {b. b < countBB g \<and> reachable g b}"

lemma live_edge:
  assumes "nest_graph (g, di, li, rk)" "e \<in> all_edges g"
  shows "e_src e \<in> live g" "e_tgt e \<in> live g"
proof -
  note gd = nest_graphD [OF assms(1)]
  note s = all_edges_succs [OF gd(3) assms(2) gd(6) [OF assms(2)]]
  have "outs g (e_src e) \<noteq> []" using s(4) by auto
  then have r: "reachable g (e_src e)" using gd(1) s(2) by (auto simp: loop_input_def)
  then show "e_src e \<in> live g" using s by (simp add: live_def)
  obtain p where "is_path (succs g) 0 p (e_src e)" using r by (auto simp: reachable_def)
  from is_path_snoc [OF this s(1)] show "e_tgt e \<in> live g" using s(3) by (auto simp: live_def reachable_def)
qed

lemma in_body_live:
  assumes "loop_input g di" "in_body g h b" "b < countBB g"
  shows "h \<in> live g" "b \<in> live g" "h \<in> dom_set g b" "loop_header g h"
proof -
  have h: "loop_header g h" "h = b \<or> in_loop g h b" using assms(2) by (auto simp: in_body_def)
  then show "loop_header g h" by simp
  show "h \<in> live g" using header_props [OF assms(1) h(1)] by (simp add: live_def)
  then show "b \<in> live g" "h \<in> dom_set g b"
    using h in_loop_props [OF assms(1) _ assms(3)] assms(3) dom_self by (auto simp: live_def)
qed

text \<open>A loop is entered through its header.\<close>

lemma body_entry:
  assumes "nest_graph (g, di, li, rk)" "e \<in> all_edges g" "in_body g h (e_tgt e)" "h \<noteq> e_tgt e"
  shows "in_body g h (e_src e)"
proof -
  note gd = nest_graphD [OF assms(1)]
  note s = all_edges_succs [OF gd(3) assms(2) gd(6) [OF assms(2)]]
  show ?thesis using assms(3,4) in_loop_step [OF _ s(2) s(1)] by (auto simp: in_body_def)
qed

lemma body_back:
  assumes "nest_graph (g, di, li, rk)" "e \<in> all_edges g"
  shows "in_body g (e_tgt e) (e_src e) \<longleftrightarrow> back_edge g e"
proof
  note gd = nest_graphD [OF assms(1)]
  note s = all_edges_succs [OF gd(3) assms(2) gd(6) [OF assms(2)]]
  show "back_edge g e" if "in_body g (e_tgt e) (e_src e)"
    using in_body_live [OF gd(1) that s(2)] gd(6) [OF assms(2)] by (simp add: back_edge_def)
  show "in_body g (e_tgt e) (e_src e)" if b: "back_edge g e"
  proof -
    have "loop_header g (e_tgt e)" using assms(2) b by (auto simp: loop_header_def)
    moreover have "in_loop g (e_tgt e) (e_src e)" if "e_tgt e \<noteq> e_src e"
      unfolding in_loop_def using b assms(2) that by (intro exI [of _ "[e_src e]"] exI [of _ e]) simp
    ultimately show ?thesis by (auto simp: in_body_def)
  qed
qed

lemma body_antisym:
  assumes "loop_input g di" "in_body g x y" "in_body g y x" "x < countBB g" "y < countBB g"
  shows "x = y"
  using in_body_live [OF assms(1,2,5)] in_body_live [OF assms(1,3,4)] dom_antisym by (auto simp: live_def)

lemma is_path_tl_append:
  assumes "is_path E a p b" "E b c" "is_path E c q d"
  shows "is_path E a (p @ q) d"
proof -
  have "is_path E a ((p @ [c]) @ tl q) d" using is_path_append [OF is_path_snoc [OF assms(1,2)] assms(3)] .
  moreover have "q = c # tl q" using is_path_ends [OF assms(3)] by (cases q) auto
  ultimately show ?thesis by (metis append.assoc append_Cons append_Nil)
qed

lemma body_trans:
  assumes inp: "loop_input g di" and hx: "in_body g h x" and xb: "in_body g x b" and b: "b < countBB g"
  shows "in_body g h b"
proof (cases "x = b \<or> h = x")
  case True
  then show ?thesis using hx xb by auto
next
  case False
  then obtain p e where p: "is_path (succs g) b p (e_src e)" "x \<notin> set p" "e \<in> all_edges g" "back_edge g e" "e_tgt e = x"
    using xb by (auto simp: in_body_def in_loop_def)
  obtain q f where q: "is_path (succs g) x q (e_src f)" "h \<notin> set q" "f \<in> all_edges g" "back_edge g f" "e_tgt f = h"
    using hx False by (auto simp: in_body_def in_loop_def)
  have wf: "wf_edges g" using inp by (simp add: loop_input_def wf_cfg_def)
  have x: "x < countBB g" using in_body_live [OF inp xb b] by (simp add: live_def)
  have "h \<notin> set p"
  proof
    assume "h \<in> set p"
    with is_path_last [OF p(1), of "{h}"] obtain r where "is_path (succs g) h r (e_src e)" "x \<notin> set r"
      using p(2) by auto
    then have "in_loop g x h" using p unfolding in_loop_def by blast
    then have "in_body g x h" using p(3-5) by (auto simp: in_body_def loop_header_def)
    then show False using body_antisym [OF inp hx _ _ x] False in_body_live [OF inp hx x] by (auto simp: live_def)
  qed
  moreover have "succs g (e_src e) x" using all_edges_succs [OF wf p(3)] p(4,5) by (auto simp: back_edge_def)
  ultimately have "is_path (succs g) b (p @ q) (e_src f)" "h \<notin> set (p @ q)"
    using is_path_tl_append [OF p(1) _ q(1)] q(2) by auto
  then have "in_loop g h b" using q unfolding in_loop_def by blast
  then show ?thesis using hx by (simp add: in_body_def)
qed

lemma body_nested:
  assumes inp: "loop_input g di" and bx: "in_body g x b" and y: "in_body g y b" and b: "b < countBB g"
    and dom: "x \<in> dom_set g y"
  shows "in_body g x y"
proof (cases "x = y")
  case True
  then show ?thesis using in_body_live [OF inp y b] by (simp add: in_body_def)
next
  case False
  note yl = in_body_live [OF inp y b] and xl = in_body_live [OF inp bx b]
  have ydom: "y \<notin> dom_set g x" using False dom dom_antisym [of g x y] xl by (auto simp: live_def)
  then have "x \<noteq> b" using yl by auto
  then obtain p e where p: "is_path (succs g) b p (e_src e)" "x \<notin> set p" "e \<in> all_edges g" "back_edge g e" "e_tgt e = x"
    using bx by (auto simp: in_body_def in_loop_def)
  obtain r where r: "is_path (succs g) 0 r x" "y \<notin> set r" using ydom yl by (auto simp: on_all_paths_def live_def)
  obtain p0 where p0: "is_path (succs g) 0 p0 b" using yl by (auto simp: live_def reachable_def)
  then have "{x, y} \<inter> set p0 \<noteq> {}" using yl by (auto simp: on_all_paths_def)
  from is_path_last [OF p0 this] obtain z s where s: "z = x \<or> z = y" "is_path (succs g) z s b" "set (tl s) \<inter> {x, y} = {}"
    by blast
  have "z \<noteq> x"
  proof
    assume "z = x"
    then have "is_path (succs g) 0 (r @ tl s) b" "y \<notin> set (r @ tl s)" using is_path_append [OF r(1)] s r(2) by auto
    then show False using yl by (auto simp: on_all_paths_def)
  qed
  then have "z = y" and "x \<notin> set s" using s is_path_ends [OF s(2)] False by (auto intro: ccontr) (cases s; auto)
  then have "is_path (succs g) y (s @ tl p) (e_src e)" "x \<notin> set (s @ tl p)"
    using is_path_append [OF s(2) p(1)] p(2) list.set_sel(2) [of p x] by (cases "p = []"; auto)+
  then show ?thesis using p xl unfolding in_body_def in_loop_def by blast
qed

lemma innermost_ex:
  assumes "loop_input g di" "b < countBB g" "\<And>h. P h \<Longrightarrow> in_body g h b" "P h"
  shows "\<exists>h. innermost g P h"
proof -
  obtain hdrs where hd: "headers_ok g hdrs" using lip_headers_ok [OF assms(1)] by blast
  let ?S = "{i. i < length hdrs \<and> P (hdrs ! i)}"
  have "h \<in> set hdrs" using hd assms(3) [OF assms(4)] by (simp add: headers_ok_def in_body_def)
  then have "?S \<noteq> {}" using assms(4) by (auto simp: in_set_conv_nth)
  moreover have "(if ?S = {} then None else Some (hdrs ! Min ?S)) = Some h \<longleftrightarrow> innermost g P h" for h
    by (rule Min_innermost [OF assms(1) hd assms(2)]) (use assms(3) in auto)
  moreover have "(if ?S = {} then None else Some (hdrs ! Min ?S)) = Some (hdrs ! Min ?S)" using calculation(1) by simp
  ultimately show ?thesis by blast
qed

text \<open>The edges that are annotated, with a loop that they leave, the only one if there is one only.\<close>

lemma exit_annotated:
  assumes "loop_input g di" "lib_processCFG g di = Some (Inr li)"
  shows "li_exit li e \<noteq> None \<longleftrightarrow> e \<in> all_edges g \<and> e_kind e \<noteq> CALL \<and> (\<exists>h. leaves g h e)"
    and "li_exit li e = Some h \<Longrightarrow> leaves g h e"
proof -
  have ex: "li_exit li e = Some h \<longleftrightarrow> e \<in> all_edges g \<and> e_kind e \<noteq> CALL \<and> innermost g (\<lambda>h. leaves g h e) h" for h
    using lib_processCFG_loops [OF assms(1)] assms(2) by auto
  have "wf_edges g" using assms(1) by (simp add: loop_input_def wf_cfg_def)
  then have "\<exists>h. innermost g (\<lambda>h. leaves g h e) h" if "e \<in> all_edges g" "leaves g h e" for h
    using innermost_ex [where P = "\<lambda>h. leaves g h e" and b = "e_src e", OF assms(1) _ _ that(2)] all_edges_src that(1)
    by (auto simp: leaves_def)
  then show "li_exit li e \<noteq> None \<longleftrightarrow> e \<in> all_edges g \<and> e_kind e \<noteq> CALL \<and> (\<exists>h. leaves g h e)"
    using ex by (auto simp: innermost_def)
  show "li_exit li e = Some h \<Longrightarrow> leaves g h e" using ex by (simp add: innermost_def)
qed

subsection \<open>Bodies around a block\<close>

abbreviation bodies :: "cfg \<Rightarrow> nat \<Rightarrow> nat set" where
  "bodies g b \<equiv> {h. in_body g h b}"

lemma nest_loops:
  assumes "nest_graph (g, di, li, rk)"
  shows "b < countBB g \<Longrightarrow> li_enclosing li ! b = Some h \<longleftrightarrow> innermost g (\<lambda>h. in_loop g h b) h"
    and "li_exit li e = Some h \<longleftrightarrow> e \<in> all_edges g \<and> e_kind e \<noteq> CALL \<and> innermost g (\<lambda>h. leaves g h e) h"
    and "(case li_list li h of None \<Rightarrow> {} | Some l \<Rightarrow> set l) = {e. li_exit li e = Some h}"
  using lib_processCFG_loops [OF nest_graphD(1) [OF assms]] nest_graphD(4) [OF assms] by auto

lemma in_loop_body: "loop_input g di \<Longrightarrow> b < countBB g \<Longrightarrow> in_loop g h b \<longleftrightarrow> h \<in> bodies g b - {b}"
  using in_loop_props by (auto simp: in_body_def)

lemma header_body: "loop_header g h \<longleftrightarrow> h \<in> bodies g h"
  by (auto simp: in_body_def in_loop_def loop_header_def)

lemma par_bodies:
  assumes "nest_graph (g, di, li, rk)" "b < countBB g"
  shows "li_enclosing li ! b = Some h \<longleftrightarrow> loop_header g h \<and> bodies g b - {b} = bodies g h"
proof -
  note gd = nest_graphD [OF assms(1)]
  note il = in_loop_body [OF gd(1) assms(2)]
  show ?thesis unfolding nest_loops(1) [OF assms]
  proof
    assume i: "innermost g (\<lambda>h. in_loop g h b) h"
    then have h: "h \<in> bodies g b" "h \<noteq> b" using il by (auto simp: innermost_def)
    note hl = in_body_live [OF gd(1) _ assms(2)]
    have hb: "in_body g h b" "h < countBB g" using h hl by (auto simp: live_def)
    have "y \<in> bodies g h" if "y \<in> bodies g b - {b}" for y
      using body_nested [OF gd(1) _ hb(1) assms(2), of y] that i il by (auto simp: innermost_def)
    moreover have "y \<in> bodies g b - {b}" if y: "y \<in> bodies g h" for y
      using body_trans [OF gd(1) _ hb(1) assms(2), of y] y body_antisym [OF gd(1) hb(1) _ hb(2) assms(2)] h by auto
    ultimately show "loop_header g h \<and> bodies g b - {b} = bodies g h" using hl hb by blast
  next
    assume h: "loop_header g h \<and> bodies g b - {b} = bodies g h"
    then have hb: "in_body g h b" "h \<noteq> b" using header_body by auto
    have "h < countBB g" using header_props [OF gd(1)] h by blast
    then show "innermost g (\<lambda>h. in_loop g h b) h"
      using il h hb in_body_live [OF gd(1), of _ h] by (auto simp: innermost_def)
  qed
qed

lemma par_none:
  assumes "nest_graph (g, di, li, rk)" "b < countBB g"
  shows "li_enclosing li ! b = None \<longleftrightarrow> bodies g b \<subseteq> {b}"
proof -
  note gd = nest_graphD [OF assms(1)]
  have "(\<exists>h. li_enclosing li ! b = Some h) \<longleftrightarrow> (\<exists>h. in_loop g h b)"
    unfolding nest_loops(1) [OF assms]
    using innermost_ex [OF gd(1) assms(2), of "\<lambda>h. in_loop g h b"] in_loop_props [OF gd(1) _ assms(2)]
    by (auto simp: innermost_def in_body_def)
  then have "li_enclosing li ! b = None \<longleftrightarrow> \<not> (\<exists>h. in_loop g h b)" by (cases "li_enclosing li ! b") auto
  then show ?thesis using in_loop_body [OF gd(1) assms(2)] by blast
qed

lemma exit_bodies:
  assumes "nest_graph (g, di, li, rk)" "e \<in> all_edges g"
  shows "li_exit li e = Some x \<longleftrightarrow> x \<in> bodies g (e_src e) - bodies g (e_tgt e)"
proof -
  note gd = nest_graphD [OF assms(1)]
  have "innermost g (\<lambda>h. leaves g h e) x \<longleftrightarrow> leaves g x e"
  proof
    assume l: "leaves g x e"
    then have "x < countBB g" using header_props [OF gd(1)] by (auto simp: leaves_def in_body_def)
    from dom_self [OF this] show "innermost g (\<lambda>h. leaves g h e) x"
      unfolding innermost_def using l gd(8) [OF assms(2) l] by blast
  qed (simp add: innermost_def)
  then show ?thesis using nest_loops(2) [OF assms(1)] assms(2) gd(6) [OF assms(2)] by (auto simp: leaves_def)
qed

subsection \<open>Edges between levels\<close>

lemma edge_bodies:
  assumes "nest_graph (g, di, li, rk)" "e \<in> all_edges g"
  shows "bodies g (e_tgt e) - {e_tgt e} \<subseteq> bodies g (e_src e)"
    and "e_tgt e \<in> bodies g (e_src e) \<longleftrightarrow> back_edge g e"
    and "li_exit li e = None \<Longrightarrow> bodies g (e_src e) \<subseteq> bodies g (e_tgt e)"
    and "li_exit li e = Some x \<Longrightarrow> x \<in> bodies g (e_src e) \<and> x \<notin> bodies g (e_tgt e) \<and>
      bodies g (e_src e) - {x} \<subseteq> bodies g (e_tgt e)"
proof -
  note ex = exit_bodies [OF assms]
  show "bodies g (e_tgt e) - {e_tgt e} \<subseteq> bodies g (e_src e)" using body_entry [OF assms] by blast
  show "e_tgt e \<in> bodies g (e_src e) \<longleftrightarrow> back_edge g e" using body_back [OF assms] by simp
  show "bodies g (e_src e) \<subseteq> bodies g (e_tgt e)" if "li_exit li e = None" using ex that by fastforce
  show "x \<in> bodies g (e_src e) \<and> x \<notin> bodies g (e_tgt e) \<and> bodies g (e_src e) - {x} \<subseteq> bodies g (e_tgt e)"
    if x: "li_exit li e = Some x"
    using ex x by (metis (no_types, lifting) Diff_iff insertCI option.inject subsetI)
qed

lemma edge_live:
  assumes "nest_graph (g, di, li, rk)" "e \<in> all_edges g"
  shows "e_src e < countBB g" "e_tgt e < countBB g"
  using live_edge [OF assms] by (auto simp: live_def)

lemma option_same: "(\<And>h. a = Some h \<longleftrightarrow> b = Some h) \<Longrightarrow> a = b"
  by (cases a; cases b) auto

lemma plain_forward:
  assumes ng: "nest_graph (g, di, li, rk)" and e: "e \<in> all_edges g" "\<not> back_edge g e" "li_exit li e = None"
  shows "li_enclosing li ! e_tgt e = (if loop_header g (e_src e) then Some (e_src e) else li_enclosing li ! e_src e)"
proof -
  note eb = edge_bodies [OF ng e(1)] and ll = edge_live [OF ng e(1)]
  have eq: "bodies g (e_tgt e) - {e_tgt e} = bodies g (e_src e)" using eb(1,2) eb(3) [OF e(3)] e(2) by blast
  show ?thesis
  proof (cases "loop_header g (e_src e)")
    case True
    then show ?thesis using par_bodies [OF ng ll(2), of "e_src e"] eq by simp
  next
    case False
    then have "bodies g (e_src e) - {e_src e} = bodies g (e_src e)" using header_body by blast
    then have "li_enclosing li ! e_tgt e = li_enclosing li ! e_src e"
      by (intro option_same) (simp only: par_bodies [OF ng ll(2)] par_bodies [OF ng ll(1)] eq)
    then show ?thesis using False by simp
  qed
qed

lemma plain_backward:
  assumes ng: "nest_graph (g, di, li, rk)" and e: "e \<in> all_edges g" "back_edge g e" "li_exit li e = None"
  shows "e_src e = e_tgt e \<or> \<not> loop_header g (e_src e) \<and> li_enclosing li ! e_src e = Some (e_tgt e)"
proof -
  note eb = edge_bodies [OF ng e(1)] and ll = edge_live [OF ng e(1)]
  have b: "e_tgt e \<in> bodies g (e_src e)" using eb(2) e(2) by simp
  then have eq: "bodies g (e_tgt e) = bodies g (e_src e)" using eb(1) eb(3) [OF e(3)] by blast
  show ?thesis
  proof (cases "loop_header g (e_src e)")
    case True
    then have "in_body g (e_src e) (e_tgt e)" using eq header_body by blast
    then show ?thesis using body_antisym [OF nest_graphD(1) [OF ng] _ _ ll] b by blast
  next
    case False
    then have "bodies g (e_src e) - {e_src e} = bodies g (e_src e)" using header_body by blast
    moreover have "loop_header g (e_tgt e)" using b by (simp add: in_body_def)
    ultimately show ?thesis using False eq par_bodies [OF ng ll(1), of "e_tgt e"] by blast
  qed
qed

lemma exit_levels:
  assumes ng: "nest_graph (g, di, li, rk)" and e: "e \<in> all_edges g" and x: "li_exit li e = Some x"
  shows "bodies g x = bodies g (e_src e)"
    and "e_src e = x \<or> \<not> loop_header g (e_src e) \<and> li_enclosing li ! e_src e = Some x"
    and "li_enclosing li ! x = (if back_edge g e then Some (e_tgt e) else li_enclosing li ! e_tgt e)"
proof -
  note gd = nest_graphD [OF ng] and eb = edge_bodies [OF ng e] and ll = edge_live [OF ng e]
  let ?a = "e_src e" and ?b = "e_tgt e"
  have xe: "x \<in> bodies g ?a" "x \<notin> bodies g ?b" "bodies g ?a - {x} \<subseteq> bodies g ?b" using eb(4) [OF x] by auto
  have xl: "x < countBB g" "loop_header g x" using in_body_live [OF gd(1) _ ll(1), of x] xe by (auto simp: live_def)
  have up: "x \<notin> bodies g y" if y: "y \<in> bodies g ?b" for y
    using body_trans [OF gd(1) _ _ ll(2), of x y] y xe by auto
  have "y \<in> bodies g x" if y: "y \<in> bodies g ?a" for y
  proof (cases "y = x")
    case False
    then have "x \<notin> bodies g y" using up y xe by blast
    moreover have "x \<in> dom_set g y \<or> y \<in> dom_set g x"
      using dom_chain [of x g ?a y] in_body_live [OF gd(1) _ ll(1)] xe y by (auto simp: live_def)
    ultimately show ?thesis using body_nested [OF gd(1) _ _ ll(1)] xe y by blast
  qed (use xl header_body in blast)
  moreover have "y \<in> bodies g ?a" if y: "y \<in> bodies g x" for y
    using body_trans [OF gd(1) _ _ ll(1), of y x] y xe by auto
  ultimately show bx: "bodies g x = bodies g ?a" by blast
  show "?a = x \<or> \<not> loop_header g ?a \<and> li_enclosing li ! ?a = Some x"
  proof (cases "loop_header g ?a")
    case True
    then have "in_body g ?a x" using bx header_body by blast
    then show ?thesis using body_antisym [OF gd(1) _ _ ll(1) xl(1)] xe by blast
  next
    case False
    then have "bodies g ?a - {?a} = bodies g ?a" using header_body by blast
    then show ?thesis using False bx xl par_bodies [OF ng ll(1), of x] by blast
  qed
  show "li_enclosing li ! x = (if back_edge g e then Some ?b else li_enclosing li ! ?b)"
  proof (cases "back_edge g e")
    case True
    then have "?b \<in> bodies g ?a" using eb(2) by simp
    then have "bodies g x - {x} = bodies g ?b" "loop_header g ?b" using eb(1) xe bx by (auto simp: in_body_def)
    then show ?thesis using True par_bodies [OF ng xl(1)] by simp
  next
    case False
    then have "bodies g x - {x} = bodies g ?b - {?b}" using eb(1,2) xe bx by blast
    then have "li_enclosing li ! x = li_enclosing li ! ?b"
      by (intro option_same) (simp only: par_bodies [OF ng ll(2)] par_bodies [OF ng xl(1)])
    then show ?thesis using False by simp
  qed
qed

definition edge_rep :: "(edge \<Rightarrow> nat option) \<Rightarrow> edge \<Rightarrow> nat" where
  "edge_rep ex e = (case ex e of None \<Rightarrow> e_src e | Some x \<Rightarrow> x)"

text \<open>Every block but the entry is reached by an edge that is not a back edge, and a dominator
  comes first in a topological order.\<close>

lemma forward_in:
  assumes ng: "nest_graph (g, di, li, rk)" and b: "b \<in> live g" "b \<noteq> 0"
  shows "\<exists>e \<in> all_edges g. e_tgt e = b \<and> \<not> back_edge g e"
proof -
  note gd = nest_graphD [OF ng]
  obtain p0 where "is_path (succs g) 0 p0 b" using b by (auto simp: live_def reachable_def)
  then obtain p where p: "is_path (succs g) 0 p b" and min: "\<And>q. is_path (succs g) 0 q b \<Longrightarrow> length p \<le> length q"
    using ex_has_least_nat [of "\<lambda>p. is_path (succs g) 0 p b" _ length] by metis
  obtain q c where q: "p = q @ [b]" "is_path (succs g) 0 q c" "succs g c b" using is_path_unsnoc [OF p] b(2) by auto
  have n: "0 < countBB g" using gd(2) by (simp add: wf_cfg_def)
  have "c < countBB g" using flow_path_bound [OF q(2) gd(3) n] by simp
  from succs_edge [OF gd(3) q(3) this] obtain e where e: "e \<in> all_edges g" "e_src e = c" "e_tgt e = b" by blast
  have "b \<notin> set q"
  proof
    assume "b \<in> set q"
    with is_path_prefix [OF q(2)] obtain r where "is_path (succs g) 0 r b" "length r \<le> length q" by metis
    then show False using min [of r] q(1) by simp
  qed
  then have "b \<notin> dom_set g c" using q(2) by (auto simp: on_all_paths_def)
  then show ?thesis using e by (auto simp: back_edge_def)
qed

lemma dom_rank:
  assumes ng: "nest_graph (g, di, li, rk)" and "b \<in> live g" "x \<in> dom_set g b"
  shows "x = b \<or> rk x < rk b"
  using assms(2,3)
proof (induction "rk b" arbitrary: b rule: less_induct)
  case less
  note gd = nest_graphD [OF ng]
  show ?case
  proof (cases "x = b")
    case False
    have "b \<noteq> 0"
    proof
      assume "b = 0"
      then have "is_path (succs g) 0 [0] b" by simp
      then have "x \<in> set [0]" using less.prems(2) unfolding on_all_paths_def by blast
      then show False using False \<open>b = 0\<close> by simp
    qed
    with forward_in [OF ng less.prems(1)] obtain e where e: "e \<in> all_edges g" "e_tgt e = b" "\<not> back_edge g e" by blast
    note s = all_edges_succs [OF gd(3) e(1) gd(6) [OF e(1)]]
    have "x \<in> dom_set g (e_src e)"
    proof -
      have "x \<in> set p" if p: "is_path (succs g) 0 p (e_src e)" for p
        using is_path_snoc [OF p s(1)] less.prems(2) False e(2) by (auto simp: on_all_paths_def)
      then show ?thesis using less.prems(2) by (simp add: on_all_paths_def)
    qed
    then show ?thesis using less.hyps [of "e_src e"] gd(7) [OF e(1,3)] live_edge [OF ng e(1)] e(2) by auto
  qed simp
qed

lemma rep_rank:
  assumes "nest_graph (g, di, li, rk)" "e \<in> all_edges g" "\<not> back_edge g e"
  shows "rk (edge_rep (li_exit li) e) < rk (e_tgt e)"
proof (cases "li_exit li e")
  case None
  then show ?thesis using nest_graphD(7) [OF assms] by (simp add: edge_rep_def)
next
  case (Some x)
  have "x \<in> dom_set g (e_src e)"
    using exit_bodies [OF assms(1,2)] Some in_body_live [OF nest_graphD(1) [OF assms(1)] _ edge_live(1) [OF assms(1,2)]] by auto
  then show ?thesis
    using dom_rank [OF assms(1) live_edge(1) [OF assms(1,2)], of x] nest_graphD(7) [OF assms] Some
    by (auto simp: edge_rep_def)
qed

text \<open>Every member of a loop has an edge towards the next members or the header.\<close>

lemma path_leaves:
  assumes "is_path E a p z" "a \<in> S" "t \<notin> S" "E z t"
  shows "\<exists>c d. c \<in> set p \<and> c \<in> S \<and> d \<notin> S \<and> E c d \<and> (d = t \<or> d \<in> set p)"
  using assms
proof (induction arbitrary: t rule: is_path_induct)
  case (step q b c)
  show ?case
  proof (cases "c \<in> S")
    case True
    then show ?thesis using step by auto
  next
    case False
    then show ?thesis using step.IH [of c] step by auto
  qed
qed auto

lemma level_out:
  assumes ng: "nest_graph (g, di, li, rk)" and b: "b \<in> live g" "li_enclosing li ! b = Some h"
  shows "\<exists>e \<in> all_edges g. edge_rep (li_exit li) e = b \<and>
    (if back_edge g e then e_tgt e = h else li_enclosing li ! e_tgt e = Some h)"
proof -
  note gd = nest_graphD [OF ng]
  have bn: "b < countBB g" using b by (simp add: live_def)
  have hb: "h \<in> bodies g b" "h \<noteq> b" and bb: "bodies g b - {b} = bodies g h"
    using par_bodies [OF ng bn] b(2) header_body [of g h] by blast+
  have hn: "h < countBB g" using in_body_live [OF gd(1) _ bn] hb by (auto simp: live_def)
  obtain p f where p: "is_path (succs g) b p (e_src f)" "h \<notin> set p" "f \<in> all_edges g" "back_edge g f" "e_tgt f = h"
    using hb by (auto simp: in_body_def in_loop_def)
  let ?S = "{c. c = b \<or> b \<in> bodies g c}"
  have "h \<notin> ?S" using hb(2) body_antisym [OF gd(1) _ _ hn bn] hb(1) by blast
  moreover have "succs g (e_src f) h" using all_edges_succs [OF gd(3) p(3) gd(6) [OF p(3)]] p(5) by simp
  ultimately obtain c d where cd: "c \<in> set p" "c \<in> ?S" "d \<notin> ?S" "succs g c d" "d = h \<or> d \<in> set p"
    using path_leaves [OF p(1), of ?S h] by auto
  have "c < countBB g" using flow_path_bound [OF p(1) gd(3) bn] cd(1) by auto
  from succs_edge [OF gd(3) cd(4) this] obtain e where e: "e \<in> all_edges g" "e_src e = c" "e_tgt e = d" by blast
  have hd: "h \<in> bodies g d"
  proof (cases "d = h")
    case True
    then show ?thesis using header_body [of g h] hb by (simp add: in_body_def)
  next
    case False
    then have "{d} \<inter> set p \<noteq> {}" using cd(5) by auto
    from is_path_last [OF p(1) this] obtain q where "is_path (succs g) d q (e_src f)" "h \<notin> set q" using p(2) by auto
    then show ?thesis using p(3-5) hb by (auto simp: in_body_def in_loop_def)
  qed
  have "edge_rep (li_exit li) e = b \<and> (if back_edge g e then e_tgt e = h else li_enclosing li ! e_tgt e = Some h)"
  proof (cases "loop_header g b")
    case True
    then have "b \<in> bodies g c" using cd(2) header_body by blast
    then have x: "li_exit li e = Some b" using exit_bodies [OF ng e(1)] e cd(3) by simp
    then show ?thesis using exit_levels(3) [OF ng e(1) x] b(2) e by (auto simp: edge_rep_def split: if_splits)
  next
    case False
    then have c: "c = b" using cd(2) by (auto simp: in_body_def)
    have "li_exit li e = None"
    proof (rule ccontr)
      assume "li_exit li e \<noteq> None"
      then obtain x where x: "li_exit li e = Some x" by blast
      then have "x = h" using exit_levels(2) [OF ng e(1) x] exit_bodies [OF ng e(1)] False c e b(2)
        by (auto simp: in_body_def)
      then show False using exit_bodies [OF ng e(1), of x] x hd e by simp
    qed
    then show ?thesis using plain_forward [OF ng e(1)] plain_backward [OF ng e(1)] False c e b(2) cd(3)
      by (auto simp: edge_rep_def split: if_splits)
  qed
  then show ?thesis using e by blast
qed

end
