(* ===== verification/Hai_Control.thy ===== *)
theory Hai_Control
  imports Loop_Nest
begin

text \<open>
  The order in which the engine visits the blocks, apart from the states it computes. The
  locale \<open>loop_nest\<close> holds the laws of a loop forest; over it stand the invariant of the marks,
  of the active loops and of the finished blocks, its preservation by the four kinds of steps,
  and what it gives when the work list is empty. Reducible graphs are an interpretation.
\<close>

lemma max_rank:
  fixes r :: "'a \<Rightarrow> nat"
  assumes "finite S" "S \<noteq> {}"
  shows "\<exists>x \<in> S. \<forall>y \<in> S. r y \<le> r x"
  using Max_in [of "r ` S"] Max_ge [of "r ` S"] assms by (metis (no_types, lifting) finite_imageI image_iff image_is_empty)

subsection \<open>Loop forests\<close>

locale loop_nest =
  fixes V :: "nat set" and Ed :: "edge set" and hdr :: "nat \<Rightarrow> bool" and par :: "nat \<Rightarrow> nat option"
    and bk :: "edge \<Rightarrow> bool" and ex :: "edge \<Rightarrow> nat option" and rk :: "nat \<Rightarrow> nat"
  assumes fin: "finite V"
    and entry: "0 \<in> V" "par 0 = None" "\<not> hdr 0"
    and no_in: "e \<in> Ed \<Longrightarrow> e_tgt e \<noteq> 0"
    and edge_V: "e \<in> Ed \<Longrightarrow> e_src e \<in> V \<and> e_tgt e \<in> V"
    and par_V: "b \<in> V \<Longrightarrow> par b = Some h \<Longrightarrow> h \<in> V \<and> hdr h \<and> rk h < rk b"
    and fwd_in: "b \<in> V \<Longrightarrow> b \<noteq> 0 \<Longrightarrow> \<exists>e \<in> Ed. e_tgt e = b \<and> \<not> bk e"
    and back_hdr: "e \<in> Ed \<Longrightarrow> bk e \<Longrightarrow> hdr (e_tgt e)"
    and hdr_back: "h \<in> V \<Longrightarrow> hdr h \<Longrightarrow> \<exists>e \<in> Ed. bk e \<and> e_tgt e = h"
    and fwd_rk: "e \<in> Ed \<Longrightarrow> \<not> bk e \<Longrightarrow> rk (edge_rep ex e) < rk (e_tgt e)"
    and plain_fwd: "e \<in> Ed \<Longrightarrow> \<not> bk e \<Longrightarrow> ex e = None \<Longrightarrow>
      par (e_tgt e) = (if hdr (e_src e) then Some (e_src e) else par (e_src e))"
    and plain_back: "e \<in> Ed \<Longrightarrow> bk e \<Longrightarrow> ex e = None \<Longrightarrow>
      e_src e = e_tgt e \<or> \<not> hdr (e_src e) \<and> par (e_src e) = Some (e_tgt e)"
    and exit_src: "e \<in> Ed \<Longrightarrow> ex e = Some x \<Longrightarrow>
      x \<in> V \<and> hdr x \<and> (e_src e = x \<or> \<not> hdr (e_src e) \<and> par (e_src e) = Some x)"
    and exit_tgt: "e \<in> Ed \<Longrightarrow> ex e = Some x \<Longrightarrow> par x = (if bk e then Some (e_tgt e) else par (e_tgt e))"
    and level_out: "b \<in> V \<Longrightarrow> par b = Some h \<Longrightarrow>
      \<exists>e \<in> Ed. edge_rep ex e = b \<and> (if bk e then e_tgt e = h else par (e_tgt e) = Some h)"
begin

abbreviation rep :: "edge \<Rightarrow> nat" where "rep \<equiv> edge_rep ex"

text \<open>The level of a loop: the blocks and inner loops immediately in it.\<close>

definition level :: "nat \<Rightarrow> nat set" where
  "level h = {b \<in> V. par b = Some h}"

text \<open>An edge from the loop itself (from its header into the body, or a self loop).\<close>

definition own :: "edge \<Rightarrow> bool" where
  "own e \<longleftrightarrow> rep e = e_tgt e \<or> par (e_tgt e) = Some (rep e)"

lemma rep_V: "e \<in> Ed \<Longrightarrow> rep e \<in> V"
  using edge_V exit_src by (auto simp: edge_rep_def split: option.split)

lemma par_irrefl: "b \<in> V \<Longrightarrow> par b \<noteq> Some b"
  using par_V by blast

lemma par_asym: "b \<in> V \<Longrightarrow> par b = Some h \<Longrightarrow> par h \<noteq> Some b"
  using par_V by (meson less_asym)

lemma level_edge:
  assumes e: "e \<in> Ed" "\<not> own e"
  shows "par (rep e) = (if bk e then Some (e_tgt e) else par (e_tgt e)) \<and> \<not> (ex e = None \<and> hdr (rep e))"
proof (cases "ex e")
  case None
  then have r: "rep e = e_src e" by (simp add: edge_rep_def)
  show ?thesis
  proof (cases "bk e")
    case True
    then show ?thesis using plain_back [OF e(1) True None] e(2) r by (simp add: own_def)
  next
    case False
    then show ?thesis using plain_fwd [OF e(1) False None] e(2) r by (simp add: own_def split: if_splits)
  qed
next
  case (Some x)
  then show ?thesis using exit_tgt [OF e(1) Some] by (simp add: edge_rep_def)
qed

lemma own_edge:
  assumes "e \<in> Ed" "own e"
  shows "ex e = None \<and> rep e = e_src e \<and> hdr (rep e) \<and> (bk e \<longleftrightarrow> rep e = e_tgt e)"
proof -
  have "ex e = None"
  proof (rule ccontr)
    assume "ex e \<noteq> None"
    then obtain x where x: "ex e = Some x" by blast
    then have r: "rep e = x" by (simp add: edge_rep_def)
    have xV: "x \<in> V" using exit_src [OF assms(1) x] by simp
    have tV: "e_tgt e \<in> V" using edge_V [OF assms(1)] by simp
    have px: "par x = (if bk e then Some (e_tgt e) else par (e_tgt e))" by (rule exit_tgt [OF assms(1) x])
    show False
    proof (cases "bk e")
      case True
      then have "par x = Some (e_tgt e)" using px by simp
      then show False using assms(2) r par_irrefl [OF xV] par_asym [OF xV] by (auto simp: own_def)
    next
      case False
      then have "x \<noteq> e_tgt e" using fwd_rk [OF assms(1)] r by auto
      then show False using assms(2) r px False par_irrefl [OF xV] by (auto simp: own_def)
    qed
  qed
  moreover have "bk e \<longleftrightarrow> rep e = e_tgt e"
  proof -
    have "rep e \<noteq> e_tgt e" if "\<not> bk e" using fwd_rk [OF assms(1) that] by auto
    moreover have "rep e = e_tgt e" if b: "bk e"
    proof (rule ccontr)
      assume n: "rep e \<noteq> e_tgt e"
      then have "par (e_tgt e) = Some (rep e)" using assms(2) by (simp add: own_def)
      moreover have "par (rep e) = Some (e_tgt e)"
        using plain_back [OF assms(1) b \<open>ex e = None\<close>] n \<open>ex e = None\<close> by (simp add: edge_rep_def)
      ultimately show False using par_V rep_V [OF assms(1)] edge_V [OF assms(1)] by (meson less_asym)
    qed
    ultimately show ?thesis by blast
  qed
  moreover have "hdr (rep e)"
    using calculation(2) back_hdr [OF assms(1)] assms edge_V [OF assms(1)] par_V [of "e_tgt e"] by (auto simp: own_def)
  ultimately show ?thesis by (simp add: edge_rep_def)
qed

subsection \<open>Invariant\<close>

text \<open>
  \<open>M\<close> are the marked edges, \<open>fx\<close> the loops whose last visit found a fixpoint, \<open>A\<close> the loops being
  iterated and \<open>D\<close> the blocks that are finished in the current iteration of the loop around them.
  An edge is delivered when its end at the level of the target has produced its value, and used
  when the target has consumed it.
\<close>

definition delivered :: "nat set \<Rightarrow> nat set \<Rightarrow> edge \<Rightarrow> bool" where
  "delivered A D e \<longleftrightarrow> (if own e then rep e \<in> A else rep e \<in> D)"

definition used :: "nat set \<Rightarrow> nat set \<Rightarrow> edge \<Rightarrow> bool" where
  "used A D e \<longleftrightarrow> (if bk e then e_tgt e \<notin> A else e_tgt e \<in> D)"

definition usable :: "edge set \<Rightarrow> (nat \<Rightarrow> bool) \<Rightarrow> edge \<Rightarrow> bool" where
  "usable M fx e \<longleftrightarrow> e \<in> M \<and> (\<forall>x. ex e = Some x \<longrightarrow> fx x)"

definition edone :: "edge set \<Rightarrow> (nat \<Rightarrow> bool) \<Rightarrow> nat set \<Rightarrow> edge \<Rightarrow> bool" where
  "edone M fx A e \<longleftrightarrow> usable M fx e \<or> (bk e \<and> e_tgt e \<notin> A)"

definition tdone :: "edge set \<Rightarrow> (nat \<Rightarrow> bool) \<Rightarrow> nat set \<Rightarrow> nat \<Rightarrow> bool" where
  "tdone M fx A t \<longleftrightarrow> (\<forall>e \<in> Ed. e_tgt e = t \<longrightarrow> edone M fx A e)"

definition ready :: "nat set \<Rightarrow> nat set \<Rightarrow> nat \<Rightarrow> bool" where
  "ready A D b \<longleftrightarrow> b \<in> V \<and> b \<notin> D \<and> (\<forall>e \<in> Ed. e_tgt e = b \<longrightarrow> (bk e \<and> b \<notin> A) \<or> delivered A D e)"

definition around :: "nat set \<Rightarrow> nat \<Rightarrow> bool" where
  "around A b \<longleftrightarrow> (\<forall>h. par b = Some h \<longrightarrow> h \<in> A)"

definition cinv :: "edge set \<Rightarrow> (nat \<Rightarrow> bool) \<Rightarrow> nat set \<Rightarrow> nat set \<Rightarrow> bool" where
  "cinv M fx A D \<longleftrightarrow>
     (A \<subseteq> V \<and> D \<subseteq> V \<and> A \<inter> D = {} \<and> (\<forall>x \<in> A. hdr x \<and> \<not> fx x)) \<and>
     (\<forall>b \<in> V. around A b \<or> b \<in> D) \<and>
     (\<forall>e \<in> Ed. \<not> bk e \<and> around A (e_tgt e) \<and> e_tgt e \<in> A \<union> D \<longrightarrow> delivered A D e) \<and>
     (\<forall>e \<in> Ed. usable M fx e \<longleftrightarrow> delivered A D e \<and> \<not> used A D e) \<and>
     (\<forall>e \<in> Ed. used A D e \<longrightarrow> e \<notin> M) \<and>
     (\<forall>e \<in> Ed. \<forall>x. ex e = Some x \<longrightarrow>
        (x \<notin> A \<union> D \<longrightarrow> e \<notin> M) \<and> (x \<in> A \<and> (e_src e = x \<or> e_src e \<in> D) \<longrightarrow> e \<in> M))"

lemma delivered_own: "delivered A D e \<Longrightarrow> rep e = b \<Longrightarrow> b \<notin> D \<Longrightarrow> own e"
  by (simp add: delivered_def split: if_splits)

lemma cinvD:
  assumes "cinv M fx A D"
  shows "A \<subseteq> V" "D \<subseteq> V" "x \<in> A \<Longrightarrow> x \<notin> D" "x \<in> A \<Longrightarrow> hdr x \<and> \<not> fx x"
    "b \<in> V \<Longrightarrow> b \<notin> D \<Longrightarrow> around A b"
    "e \<in> Ed \<Longrightarrow> \<not> bk e \<Longrightarrow> around A (e_tgt e) \<Longrightarrow> e_tgt e \<in> A \<union> D \<Longrightarrow> delivered A D e"
    "e \<in> Ed \<Longrightarrow> usable M fx e \<longleftrightarrow> delivered A D e \<and> \<not> used A D e"
    "e \<in> Ed \<Longrightarrow> used A D e \<Longrightarrow> e \<notin> M"
    "e \<in> Ed \<Longrightarrow> ex e = Some y \<Longrightarrow> y \<notin> A \<union> D \<Longrightarrow> e \<notin> M"
    "e \<in> Ed \<Longrightarrow> ex e = Some y \<Longrightarrow> y \<in> A \<Longrightarrow> e_src e = y \<or> e_src e \<in> D \<Longrightarrow> e \<in> M"
  using assms unfolding cinv_def by blast+

lemma cinvI:
  assumes "A \<subseteq> V" "D \<subseteq> V" "A \<inter> D = {}" "\<And>x. x \<in> A \<Longrightarrow> hdr x \<and> \<not> fx x"
    "\<And>b. b \<in> V \<Longrightarrow> around A b \<or> b \<in> D"
    "\<And>e. e \<in> Ed \<Longrightarrow> \<not> bk e \<Longrightarrow> around A (e_tgt e) \<Longrightarrow> e_tgt e \<in> A \<union> D \<Longrightarrow> delivered A D e"
    "\<And>e. e \<in> Ed \<Longrightarrow> usable M fx e \<longleftrightarrow> delivered A D e \<and> \<not> used A D e"
    "\<And>e. e \<in> Ed \<Longrightarrow> used A D e \<Longrightarrow> e \<notin> M"
    "\<And>e y. e \<in> Ed \<Longrightarrow> ex e = Some y \<Longrightarrow> y \<notin> A \<union> D \<Longrightarrow> e \<notin> M"
    "\<And>e y. e \<in> Ed \<Longrightarrow> ex e = Some y \<Longrightarrow> y \<in> A \<Longrightarrow> e_src e = y \<or> e_src e \<in> D \<Longrightarrow> e \<in> M"
  shows "cinv M fx A D"
  using assms unfolding cinv_def by blast

lemma readyD:
  assumes "ready A D b"
  shows "b \<in> V" "b \<notin> D" "e \<in> Ed \<Longrightarrow> e_tgt e = b \<Longrightarrow> \<not> (bk e \<and> b \<notin> A) \<Longrightarrow> delivered A D e"
  using assms unfolding ready_def by blast+

lemma tdone_ready:
  assumes c: "cinv M fx A D" and t: "t \<in> V" "t \<noteq> 0"
  shows "tdone M fx A t \<longleftrightarrow> ready A D t"
proof
  assume td: "tdone M fx A t"
  obtain e where "e \<in> Ed" "e_tgt e = t" "\<not> bk e" using fwd_in t by blast
  then have "t \<notin> D" using td cinvD(7) [OF c] by (auto simp: tdone_def edone_def used_def)
  then show "ready A D t" using td t cinvD(7) [OF c] by (auto simp: tdone_def edone_def ready_def)
next
  assume r: "ready A D t"
  have "edone M fx A e" if e: "e \<in> Ed" "e_tgt e = t" for e
    using readyD [OF r] e cinvD(7) [OF c e(1)] by (auto simp: edone_def used_def)
  then show "tdone M fx A t" by (simp add: tdone_def)
qed

lemma rep_unused:
  assumes c: "cinv M fx A D" and e: "e \<in> Ed" "\<not> own e" "rep e \<notin> D"
  shows "\<not> used A D e"
proof -
  have ar: "around A (rep e)" using cinvD(5) [OF c rep_V [OF e(1)] e(3)] .
  show ?thesis
  proof (cases "bk e")
    case True
    then show ?thesis using ar level_edge [OF e(1,2)] by (simp add: around_def used_def)
  next
    case False
    then have "around A (e_tgt e)" using ar level_edge [OF e(1,2)] by (simp add: around_def)
    then have "e_tgt e \<notin> D" using cinvD(6) [OF c e(1) False] e by (auto simp: delivered_def)
    then show ?thesis using False by (simp add: used_def)
  qed
qed

lemma fwd_ends: "e \<in> Ed \<Longrightarrow> \<not> bk e \<Longrightarrow> rep e \<noteq> e_tgt e"
  using fwd_rk by fastforce

lemma level_hdr: "b \<notin> level b"
  using par_irrefl by (auto simp: level_def)

text \<open>The members of a loop are finished when the loop is ready for its next visit.\<close>

lemma level_done:
  assumes c: "cinv M fx A D" and r: "ready A D b"
  shows "level b \<subseteq> D"
proof (cases "b \<in> A")
  case False
  then show ?thesis using cinvD(5) [OF c] by (auto simp: level_def around_def)
next
  case True
  show ?thesis
  proof (rule ccontr)
    assume "\<not> level b \<subseteq> D"
    moreover have "finite (level b - D)" using fin by (simp add: level_def)
    ultimately obtain d where d: "d \<in> level b - D" and mx: "\<And>y. y \<in> level b - D \<Longrightarrow> rk y \<le> rk d"
      using max_rank [of "level b - D" rk] by blast
    then have dV: "d \<in> V" "par d = Some b" "d \<notin> D" by (auto simp: level_def)
    obtain e where e: "e \<in> Ed" "rep e = d" "if bk e then e_tgt e = b else par (e_tgt e) = Some b"
      using level_out [OF dV(1,2)] by blast
    have no: "\<not> own e"
      using e dV par_irrefl [OF dV(1)] level_hdr [of b] par_asym [OF dV(1,2)] fwd_ends [OF e(1)]
      by (auto simp: own_def level_def split: if_splits)
    have "delivered A D e"
    proof (cases "bk e")
      case True
      then show ?thesis using readyD(3) [OF r e(1)] e(3) \<open>b \<in> A\<close> by simp
    next
      case False
      then have t: "e_tgt e \<in> level b" using e edge_V by (auto simp: level_def)
      have "rk d < rk (e_tgt e)" using fwd_rk [OF e(1) False] e(2) by simp
      then have "e_tgt e \<in> D" using mx [of "e_tgt e"] t by auto
      then show ?thesis using cinvD(6) [OF c e(1) False] t \<open>b \<in> A\<close> by (auto simp: level_def around_def)
    qed
    then show False using no e(2) dV(3) by (simp add: delivered_def)
  qed
qed

text \<open>With nothing ready, everything is finished.\<close>

lemma all_done:
  assumes c: "cinv M fx A D" and no: "\<And>b. \<not> ready A D b"
  shows "D = V" "A = {}" "Ed \<inter> M = {}"
proof -
  have lvl: "b \<in> D" if b: "b \<in> V" "b \<notin> A" and par: "around A b" and deep: "\<And>d. d \<in> V \<Longrightarrow> par d = par b \<Longrightarrow> d \<notin> A" for b
    using b par deep
  proof (induction "rk b" arbitrary: b rule: less_induct)
    case less
    show ?case
    proof (rule ccontr)
      assume bD: "b \<notin> D"
      have "delivered A D e" if e: "e \<in> Ed" "e_tgt e = b" "\<not> bk e" for e
      proof (cases "own e")
        case True
        then show ?thesis using fwd_ends [OF e(1,3)] e(2) less.prems(3) by (auto simp: own_def delivered_def around_def)
      next
        case False
        then have p: "par (rep e) = par b" using level_edge [OF e(1) False] e by simp
        moreover have "rk (rep e) < rk b" using fwd_rk [OF e(1,3)] e(2) by simp
        moreover have "around A (rep e)" using p less.prems(3) by (simp add: around_def)
        ultimately have "rep e \<in> D"
          using less.hyps [of "rep e"] rep_V [OF e(1)] less.prems(4) by simp
        then show ?thesis using False by (simp add: delivered_def)
      qed
      then have "ready A D b" using less.prems(1,2) bD by (auto simp: ready_def)
      then show False using no by blast
    qed
  qed
  show A: "A = {}"
  proof (rule ccontr)
    assume "A \<noteq> {}"
    moreover have "finite A" using fin cinvD(1) [OF c] finite_subset by blast
    ultimately obtain x where x: "x \<in> A" and mx: "\<And>y. y \<in> A \<Longrightarrow> rk y \<le> rk x"
      using max_rank [of A rk] by blast
    have lx: "level x \<subseteq> D"
    proof
      fix d assume "d \<in> level x"
      then have d: "d \<in> V" "par d = Some x" by (auto simp: level_def)
      have deep: "y \<notin> A" if "y \<in> V" "par y = par d" for y
        using par_V [of y x] mx [of y] that d by auto
      show "d \<in> D" by (rule lvl) (use d deep x in \<open>auto simp: around_def\<close>)
    qed
    have xV: "x \<in> V" "x \<notin> D" using x cinvD(1,3) [OF c] by auto
    have "delivered A D e" if e: "e \<in> Ed" "e_tgt e = x" for e
    proof (cases "bk e")
      case False
      then show ?thesis using cinvD(6) [OF c e(1) False] cinvD(5) [OF c xV] e x by auto
    next
      case True
      show ?thesis
      proof (cases "own e")
        case o: True
        then show ?thesis using own_edge [OF e(1) o] True e(2) x by (metis delivered_def)
      next
        case o: False
        then have "rep e \<in> level x" using level_edge [OF e(1) o] True e(2) rep_V [OF e(1)] by (simp add: level_def)
        then show ?thesis using lx o by (auto simp: delivered_def)
      qed
    qed
    then have "ready A D x" using xV by (auto simp: ready_def)
    then show False using no by blast
  qed
  have "b \<in> D" if "b \<in> V" for b using lvl [OF that] A cinvD(5) [OF c that] by auto
  then show D: "D = V" using cinvD(2) [OF c] by auto
  have "used A D e" if "e \<in> Ed" for e using that D A edge_V by (auto simp: used_def)
  then show "Ed \<inter> M = {}" using cinvD(8) [OF c] by blast
qed

subsection \<open>Steps\<close>

definition eins :: "nat \<Rightarrow> edge set" where "eins b = {e \<in> Ed. e_tgt e = b}"
definition eouts :: "nat \<Rightarrow> edge set" where "eouts b = {e \<in> Ed. e_src e = b}"
definition ebacks :: "nat \<Rightarrow> edge set" where "ebacks b = {e \<in> Ed. e_tgt e = b \<and> bk e}"

lemma plain_src:
  assumes "e \<in> Ed" "\<not> hdr (e_src e)" "ex e = None"
  shows "rep e = e_src e" "\<not> own e"
  using assms own_edge [OF assms(1)] by (auto simp: edge_rep_def)

lemma exit_plain_src:
  assumes "e \<in> Ed" "\<not> hdr (e_src e)" "ex e = Some x"
  shows "par (e_src e) = Some x" "hdr x" "x \<noteq> e_src e" "rep e = x" "\<not> own e"
  using exit_src [OF assms(1,3)] own_edge [OF assms(1)] assms by (auto simp: edge_rep_def)

lemma header_src:
  assumes "e \<in> Ed" "hdr (e_src e)"
  shows "rep e = e_src e" "ex e = Some x \<Longrightarrow> x = e_src e" "own e \<longleftrightarrow> ex e = None"
proof -
  show x: "x = e_src e" if "ex e = Some x" for x using exit_src [OF assms(1) that] assms(2) by auto
  then show r: "rep e = e_src e" by (cases "ex e") (auto simp: edge_rep_def)
  show "own e \<longleftrightarrow> ex e = None" using level_edge [OF assms(1)] own_edge [OF assms(1)] r assms(2) by (cases "own e") auto
qed

lemma rep_other:
  assumes "e \<in> Ed" "rep e = b" "e_src e \<noteq> b"
  shows "ex e = Some b" "hdr b" "\<not> own e"
proof -
  show x: "ex e = Some b" using assms by (auto simp: edge_rep_def split: option.splits)
  then show "hdr b" using exit_src [OF assms(1)] by blast
  show "\<not> own e" using own_edge [OF assms(1)] x by auto
qed

lemma exit_rep:
  assumes "e \<in> Ed" "ex e = Some x"
  shows "rep e = x" "\<not> own e"
  using own_edge [OF assms(1)] assms(2) by (auto simp: edge_rep_def)

text \<open>A block that is not a header.\<close>

lemma simple_out:
  assumes c: "cinv M fx A D" and b: "b \<in> V" "b \<notin> D" "\<not> hdr b" and e: "e \<in> Ed" "e_src e = b"
  shows "\<not> used A D e" "\<not> delivered A D e" "ex e = Some x \<Longrightarrow> x \<in> A" "\<not> edone M fx A e" "e_tgt e \<noteq> b"
proof -
  have ar: "around A b" using cinvD(5) [OF c b(1,2)] .
  show xA: "x \<in> A" if "ex e = Some x" for x
    using exit_plain_src [OF e(1) _ that] b(3) e(2) ar by (auto simp: around_def)
  have rD: "rep e \<notin> D" and no: "\<not> own e"
    using plain_src [OF e(1)] exit_plain_src [OF e(1)] e(2) b(2,3) xA cinvD(3) [OF c] by (cases "ex e"; auto)+
  show nu: "\<not> used A D e" by (rule rep_unused [OF c e(1) no rD])
  show nd: "\<not> delivered A D e" using rD no by (simp add: delivered_def)
  show "\<not> edone M fx A e" using nu nd cinvD(7) [OF c e(1)] by (auto simp: edone_def used_def)
  show "e_tgt e \<noteq> b"
  proof
    assume t: "e_tgt e = b"
    then have nb: "\<not> bk e" using back_hdr [OF e(1)] b(3) by auto
    then show False
      using fwd_ends [OF e(1) nb] t level_edge [OF e(1) no] plain_src(1) [OF e(1)] exit_plain_src(1,4) [OF e(1)] e(2) b par_irrefl
      by (cases "ex e") (auto, metis rep_V e(1))
  qed
qed

lemma cinv_simple:
  assumes c: "cinv M fx A D" and r: "ready A D b" and h: "\<not> hdr b"
  shows "cinv (M - eins b \<union> eouts b) fx A (insert b D)"
proof -
  note b = readyD(1,2) [OF r]
  note so = simple_out [OF c b h]
  have bA: "b \<notin> A" using cinvD(4) [OF c] h by blast
  have nb: "\<not> bk e" if "e \<in> Ed" "e_tgt e = b" for e using back_hdr that h by blast
  have dl: "delivered A D e" if "e \<in> Ed" "e_tgt e = b" for e using readyD(3) [OF r that] nb [OF that] by simp
  have mono: "delivered A D e \<Longrightarrow> delivered A (insert b D) e" for e by (auto simp: delivered_def)
  have us: "used A (insert b D) e \<longleftrightarrow> used A D e \<or> e_tgt e = b" if "e \<in> Ed" for e
    using nb [OF that] by (auto simp: used_def)
  show ?thesis
  proof (rule cinvI)
    fix e assume e: "e \<in> Ed"
    show "usable (M - eins b \<union> eouts b) fx e \<longleftrightarrow> delivered A (insert b D) e \<and> \<not> used A (insert b D) e"
    proof (cases "e_src e = b")
      case True
      show ?thesis
      proof (cases "ex e")
        case None
        then show ?thesis using plain_src [OF e] so(1,5) [OF e True] us [OF e] True h e
          by (auto simp: usable_def eouts_def delivered_def)
      next
        case (Some x)
        then show ?thesis using exit_plain_src [OF e _ Some] so(3) [OF e True Some] cinvD(3,4) [OF c] True h
          by (auto simp: usable_def delivered_def)
      qed
    next
      case False
      then have "rep e \<noteq> b" using rep_other [OF e _ False] h by blast
      then have "delivered A (insert b D) e \<longleftrightarrow> delivered A D e" by (auto simp: delivered_def)
      then show ?thesis using cinvD(7) [OF c e] us [OF e] False e by (auto simp: usable_def eouts_def eins_def)
    qed
  next
    fix e assume e: "e \<in> Ed" "used A (insert b D) e"
    then show "e \<notin> M - eins b \<union> eouts b" using us cinvD(8) [OF c e(1)] so(1,5) [OF e(1)] by (auto simp: eins_def eouts_def)
  next
    fix e x assume e: "e \<in> Ed" "ex e = Some x"
    show "e \<notin> M - eins b \<union> eouts b" if "x \<notin> A \<union> insert b D"
      using that cinvD(9) [OF c e] so(3) [OF e(1) _ e(2)] by (auto simp: eouts_def)
    show "e \<in> M - eins b \<union> eouts b" if x: "x \<in> A" "e_src e = x \<or> e_src e \<in> insert b D"
    proof (cases "e_src e = b")
      case False
      have "e_tgt e \<noteq> b"
      proof
        assume "e_tgt e = b"
        then have "delivered A D e" using dl e by blast
        then show False using x(1) cinvD(3) [OF c] exit_rep [OF e] by (auto simp: delivered_def)
      qed
      then show ?thesis using cinvD(10) [OF c e x(1)] x(2) False by (auto simp: eins_def)
    qed (use e in \<open>simp add: eouts_def\<close>)
  next
    fix e assume e: "e \<in> Ed" "\<not> bk e" "around A (e_tgt e)" "e_tgt e \<in> A \<union> insert b D"
    then show "delivered A (insert b D) e" using dl [OF e(1)] cinvD(6) [OF c e(1,2,3)] mono by blast
  qed (use cinvD [OF c] b bA in auto)
qed

lemma ready_simple:
  assumes c: "cinv M fx A D" and r: "ready A D b" and h: "\<not> hdr b"
  shows "{t. ready A (insert b D) t} =
    {t. ready A D t} - {b} \<union> {e_tgt e | e. e \<in> eouts b \<and> tdone (M - eins b \<union> eouts b) fx A (e_tgt e)}"
proof -
  note b = readyD(1,2) [OF r] and c' = cinv_simple [OF c r h]
  have td: "tdone (M - eins b \<union> eouts b) fx A (e_tgt e) \<longleftrightarrow> ready A (insert b D) (e_tgt e)" if "e \<in> Ed" for e
    using tdone_ready [OF c'] edge_V [OF that] no_in [OF that] by blast
  have "t \<in> {e_tgt e | e. e \<in> eouts b \<and> tdone (M - eins b \<union> eouts b) fx A (e_tgt e)}"
    if t: "ready A (insert b D) t" "\<not> ready A D t" for t
  proof -
    obtain e where e: "e \<in> Ed" "e_tgt e = t" "\<not> delivered A D e" "delivered A (insert b D) e"
      using t by (auto simp: ready_def)
    then have rb: "rep e = b" by (auto simp: delivered_def split: if_splits)
    have "e_src e = b" using rep_other [OF e(1) rb] h by blast
    then show ?thesis using e td t(1) by (auto simp: eouts_def)
  qed
  moreover have "ready A (insert b D) t" if "ready A D t" "t \<noteq> b" for t
    using that by (auto simp: ready_def delivered_def)
  moreover have "\<not> ready A (insert b D) b" by (simp add: ready_def)
  ultimately show ?thesis using td by (auto simp: eouts_def)
qed

text \<open>An iteration of a loop starts: its members are no longer finished.\<close>

lemma iter_edge:
  assumes c: "cinv M fx A D" and b: "b \<in> V" "b \<notin> D" "level b \<subseteq> D" and e: "e \<in> Ed"
  defines "A' \<equiv> insert b A" and "D' \<equiv> D - level b"
  shows "rep e \<noteq> b \<Longrightarrow> e_tgt e \<noteq> b \<Longrightarrow> e_tgt e \<notin> level b \<Longrightarrow> delivered A' D' e \<longleftrightarrow> delivered A D e"
    and "e_tgt e \<noteq> b \<Longrightarrow> e_tgt e \<notin> level b \<Longrightarrow> used A' D' e \<longleftrightarrow> used A D e"
    and "rep e \<noteq> b \<Longrightarrow> e_tgt e \<in> level b \<Longrightarrow> \<not> (delivered A' D' e \<and> \<not> used A' D' e)"
    and "e_tgt e \<in> level b \<Longrightarrow> used A D e"
    and "rep e \<noteq> b \<Longrightarrow> e_tgt e = b \<Longrightarrow> bk e \<Longrightarrow> \<not> delivered A' D' e"
    and "e_tgt e = b \<Longrightarrow> \<not> bk e \<Longrightarrow> delivered A D e \<Longrightarrow> delivered A' D' e"
proof -
  have lA: "x \<notin> A" if "x \<in> level b" for x using that b(3) cinvD(3) [OF c] by blast
  have lp: "rep e \<in> level b \<longleftrightarrow> (if bk e then e_tgt e = b else e_tgt e \<in> level b)" if "\<not> own e"
    using level_edge [OF e that] rep_V [OF e] edge_V [OF e] by (auto simp: level_def)
  have lb: "b \<notin> level b" by (rule level_hdr)
  show "delivered A' D' e \<longleftrightarrow> delivered A D e" if "rep e \<noteq> b" "e_tgt e \<noteq> b" "e_tgt e \<notin> level b"
    using that lp by (auto simp: delivered_def A'_def D'_def split: if_splits)
  show "used A' D' e \<longleftrightarrow> used A D e" if "e_tgt e \<noteq> b" "e_tgt e \<notin> level b"
    using that by (auto simp: used_def A'_def D'_def)
  show "\<not> (delivered A' D' e \<and> \<not> used A' D' e)" if t: "rep e \<noteq> b" "e_tgt e \<in> level b"
  proof (cases "bk e")
    case True
    then show ?thesis using t lA lb by (auto simp: used_def A'_def)
  next
    case False
    have "\<not> own e"
    proof
      assume o: "own e"
      then have "rep e \<noteq> e_tgt e" using own_edge [OF e] False by blast
      then have "par (e_tgt e) = Some (rep e)" using o by (simp add: own_def)
      then show False using t by (simp add: level_def)
    qed
    then show ?thesis using lp t False by (simp add: delivered_def D'_def)
  qed
  show "used A D e" if "e_tgt e \<in> level b" using that lA b(3) by (auto simp: used_def)
  show "\<not> delivered A' D' e" if t: "rep e \<noteq> b" "e_tgt e = b" "bk e"
  proof -
    have "\<not> own e" using own_edge [OF e] t by auto
    then show ?thesis using lp t by (simp add: delivered_def D'_def)
  qed
  show "delivered A' D' e" if t: "e_tgt e = b" "\<not> bk e" "delivered A D e"
    using t lp lb by (auto simp: delivered_def A'_def D'_def)
qed

lemma header_out:
  assumes c: "cinv M fx A D" and b: "b \<in> V" "b \<notin> D" "hdr b" and e: "e \<in> Ed" "e_src e = b"
  shows "ex e = None \<Longrightarrow> if bk e then e_tgt e = b else e_tgt e \<in> level b"
    and "ex e = Some b \<Longrightarrow> \<not> used A D e"
proof -
  show "if bk e then e_tgt e = b else e_tgt e \<in> level b" if "ex e = None"
  proof -
    have o: "own e" and r: "rep e = b" using header_src [OF e(1)] e(2) b(3) that by auto
    show ?thesis
    proof (cases "bk e")
      case False
      then have "rep e \<noteq> e_tgt e" using own_edge [OF e(1) o] by blast
      then show ?thesis using o r False edge_V [OF e(1)] by (simp add: own_def level_def)
    qed (use own_edge [OF e(1) o] r in simp)
  qed
  show "\<not> used A D e" if "ex e = Some b" using rep_unused [OF c e(1)] exit_rep [OF e(1) that] b(2) by blast
qed

lemma cinv_iter:
  assumes c: "cinv M fx A D" and r: "ready A D b" and h: "hdr b"
  shows "cinv (M - ebacks b \<union> eouts b) (fx(b := False)) (insert b A) (D - level b)"
proof -
  note b = readyD(1,2) [OF r] and ld = level_done [OF c r]
  note it = iter_edge [OF c b ld]
  let ?A = "insert b A" and ?D = "D - level b" and ?M = "M - ebacks b \<union> eouts b" and ?fx = "fx(b := False)"
  have lb: "b \<notin> level b" by (rule level_hdr)
  have lA: "x \<notin> A" if "x \<in> level b" for x using that ld cinvD(3) [OF c] by blast
  have fwd: "delivered A D e" if "e \<in> Ed" "e_tgt e = b" "\<not> bk e" for e using readyD(3) [OF r that(1,2)] that(3) by simp
  show ?thesis
  proof (rule cinvI)
    show "around ?A d \<or> d \<in> ?D" if "d \<in> V" for d
      using cinvD(5) [OF c that] that by (auto simp: around_def level_def)
  next
    fix e assume e: "e \<in> Ed" "\<not> bk e" "around ?A (e_tgt e)" "e_tgt e \<in> ?A \<union> ?D"
    show "delivered ?A ?D e"
    proof (cases "e_tgt e = b")
      case True
      then show ?thesis using it(6) [OF e(1)] fwd e by blast
    next
      case False
      then have nl: "e_tgt e \<notin> level b" using e(4) lA by auto
      then have "around A (e_tgt e)" using e(3) edge_V [OF e(1)] by (auto simp: around_def level_def)
      then have dl: "delivered A D e" using cinvD(6) [OF c e(1,2)] e(4) False by auto
      show ?thesis
      proof (cases "rep e = b")
        case True
        then have "own e" using delivered_own b(2) dl by blast
        then show ?thesis using True by (simp add: delivered_def)
      qed (use it(1) [OF e(1) _ False nl] dl in blast)
    qed
  next
    fix e assume e: "e \<in> Ed"
    show "usable ?M ?fx e \<longleftrightarrow> delivered ?A ?D e \<and> \<not> used ?A ?D e"
    proof (cases "e_src e = b")
      case src: True
      note hs = header_src [OF e, unfolded src, OF h]
      show ?thesis
      proof (cases "ex e")
        case None
        then have "\<not> used ?A ?D e" using header_out(1) [OF c b h e src] by (auto simp: used_def split: if_splits)
        then show ?thesis using None hs e src by (auto simp: usable_def eouts_def delivered_def)
      next
        case (Some x)
        then show ?thesis using hs b(2) by (auto simp: usable_def delivered_def)
      qed
    next
      case src: False
      show ?thesis
      proof (cases "rep e = b")
        case True
        note ro = rep_other [OF e True src]
        then show ?thesis using b(2) True by (auto simp: usable_def delivered_def)
      next
        case rb: False
        consider "e_tgt e = b" "bk e" | "e_tgt e = b" "\<not> bk e" | "e_tgt e \<in> level b" | "e_tgt e \<noteq> b" "e_tgt e \<notin> level b"
          by blast
        then show ?thesis
        proof cases
          case 1
          then show ?thesis using it(5) [OF e rb] e src by (auto simp: usable_def ebacks_def eouts_def)
        next
          case 2
          then have "usable M fx e" "delivered ?A ?D e" using fwd [OF e] cinvD(7) [OF c e] it(6) [OF e] b(2) by (auto simp: used_def)
          moreover have "ex e \<noteq> Some b" using rb by (auto simp: edge_rep_def)
          ultimately show ?thesis using 2 b(2) by (auto simp: usable_def used_def ebacks_def)
        next
          case 3
          then show ?thesis using it(3) [OF e rb] cinvD(8) [OF c e it(4) [OF e]] e src by (auto simp: usable_def eouts_def)
        next
          case 4
          have "ex e \<noteq> Some b" using rb by (auto simp: edge_rep_def)
          then have "usable ?M ?fx e \<longleftrightarrow> usable M fx e" using 4 src by (auto simp: usable_def ebacks_def eouts_def)
          then show ?thesis using it(1) [OF e rb] it(2) [OF e] 4 cinvD(7) [OF c e] by simp
        qed
      qed
    qed
  next
    fix e assume e: "e \<in> Ed" "used ?A ?D e"
    then have u: "used A D e" by (auto simp: used_def split: if_splits)
    have "e_src e \<noteq> b"
    proof
      assume src: "e_src e = b"
      show False
      proof (cases "ex e")
        case None
        then show False using header_out(1) [OF c b h e(1) src] e(2) by (auto simp: used_def split: if_splits)
      next
        case (Some x)
        then show False using header_src(2) [OF e(1)] header_out(2) [OF c b h e(1) src] src h u by auto
      qed
    qed
    then show "e \<notin> ?M" using cinvD(8) [OF c e(1) u] by (simp add: eouts_def)
  next
    fix e x assume e: "e \<in> Ed" "ex e = Some x"
    note px = exit_tgt [OF e]
    show "e \<notin> ?M" if x: "x \<notin> ?A \<union> ?D"
    proof -
      have "e_src e \<noteq> b" using header_src(2) [OF e(1) _ e(2)] h x by auto
      moreover have "e \<notin> M \<or> e \<in> ebacks b"
      proof (cases "x \<in> level b")
        case True
        then show ?thesis
          using px cinvD(8) [OF c e(1) it(4) [OF e(1)]] e(1) edge_V [OF e(1)]
          by (auto simp: level_def ebacks_def split: if_splits)
      next
        case False
        then show ?thesis using cinvD(9) [OF c e] x by auto
      qed
      ultimately show ?thesis by (auto simp: eouts_def)
    qed
    show "e \<in> ?M" if x: "x \<in> ?A" "e_src e = x \<or> e_src e \<in> ?D"
    proof (cases "e_src e = b")
      case False
      have "x \<noteq> b"
      proof
        assume "x = b"
        then have "e_src e \<in> level b" using exit_src [OF e] False edge_V [OF e(1)] by (auto simp: level_def)
        then show False using x(2) False \<open>x = b\<close> by auto
      qed
      then have xA: "x \<in> A" using x(1) by simp
      then have "e \<in> M" using cinvD(10) [OF c e] x(2) by auto
      moreover have "e \<notin> ebacks b"
        using px lA [of x] xA exit_src [OF e] by (auto simp: ebacks_def level_def)
      ultimately show ?thesis by blast
    qed (use e in \<open>simp add: eouts_def\<close>)
  qed (use cinvD [OF c] b h in \<open>auto split: if_splits\<close>)
qed

lemma iter_out:
  assumes c: "cinv M fx A D" and r: "ready A D b" and h: "hdr b" and e: "e \<in> eouts b"
  shows "\<not> edone (M - ebacks b) (fx(b := False)) (insert b A) e"
proof -
  note b = readyD(1,2) [OF r]
  have e': "e \<in> Ed" "e_src e = b" using e by (auto simp: eouts_def)
  show ?thesis
  proof (cases "ex e")
    case None
    show ?thesis
    proof (cases "bk e")
      case True
      then have "e_tgt e = b" using header_out(1) [OF c b h e' None] by simp
      then show ?thesis using True e' by (simp add: edone_def usable_def ebacks_def)
    next
      case False
      then have "e_tgt e \<in> level b" using header_out(1) [OF c b h e' None] by simp
      then have "e \<notin> M" using cinvD(8) [OF c e'(1)] iter_edge(4) [OF c b level_done [OF c r] e'(1)] by blast
      then show ?thesis using False by (simp add: edone_def usable_def)
    qed
  next
    case (Some x)
    then have x: "x = b" using header_src(2) [OF e'(1)] e'(2) h by auto
    then have "\<not> used A D e" using header_out(2) [OF c b h e'] Some by simp
    then show ?thesis using x Some by (auto simp: edone_def usable_def used_def)
  qed
qed

lemma ready_iter:
  assumes c: "cinv M fx A D" and r: "ready A D b" and h: "hdr b"
  shows "{t. ready (insert b A) (D - level b) t} = {t. ready A D t} - {b} \<union>
    {e_tgt e | e. e \<in> eouts b \<and> tdone (M - ebacks b \<union> eouts b) (fx(b := False)) (insert b A) (e_tgt e)}"
proof -
  note b = readyD(1,2) [OF r] and c' = cinv_iter [OF c r h] and ld = level_done [OF c r]
  note it = iter_edge [OF c b ld]
  let ?A = "insert b A" and ?D = "D - level b"
  have td: "tdone (M - ebacks b \<union> eouts b) (fx(b := False)) ?A (e_tgt e) \<longleftrightarrow> ready ?A ?D (e_tgt e)" if "e \<in> Ed" for e
    using tdone_ready [OF c'] edge_V [OF that] no_in [OF that] by blast
  have out: "\<exists>e. e \<in> eouts b \<and> e_tgt e = t" if t: "ready ?A ?D t" "\<not> ready A D t \<or> t = b" for t
  proof -
    have tV: "t \<in> V" using t(1) by (simp add: ready_def)
    have "\<exists>e. e \<in> Ed \<and> e_tgt e = t \<and> rep e = b \<and> own e"
    proof (cases "t = b")
      case True
      obtain e where e: "e \<in> Ed" "bk e" "e_tgt e = b" using hdr_back b(1) h by blast
      then have "delivered ?A ?D e" using readyD(3) [OF t(1) e(1)] True by simp
      then have "rep e = b" using it(5) [OF e(1)] e by blast
      then show ?thesis using e True by (intro exI [of _ e]) (simp add: own_def)
    next
      case tb: False
      show ?thesis
      proof (cases "t \<in> level b")
        case True
        then have "t \<noteq> 0" using entry(2) by (metis (mono_tags, lifting) level_def mem_Collect_eq option.distinct(1))
        then obtain e where e: "e \<in> Ed" "e_tgt e = t" "\<not> bk e" using fwd_in tV by blast
        then have dl: "delivered ?A ?D e" using readyD(3) [OF t(1)] by blast
        moreover have "\<not> used ?A ?D e" using e True by (simp add: used_def)
        ultimately have "rep e = b" using it(3) [OF e(1)] True e(2) by blast
        moreover have "own e" using delivered_own b(2) dl calculation by blast
        ultimately show ?thesis using e by blast
      next
        case False
        then have "t \<notin> D" "\<not> ready A D t" using t tb by (auto simp: ready_def)
        then obtain e where e: "e \<in> Ed" "e_tgt e = t" "\<not> (bk e \<and> t \<notin> A)" "\<not> delivered A D e" using tV by (auto simp: ready_def)
        then have "delivered ?A ?D e" using readyD(3) [OF t(1) e(1,2)] tb by blast
        moreover have "rep e = b" using calculation it(1) [OF e(1)] e tb False by blast
        moreover have "own e" using delivered_own b(2) calculation by blast
        ultimately show ?thesis using e by blast
      qed
    qed
    then show ?thesis using own_edge by (auto simp: eouts_def)
  qed
  have keep: "ready ?A ?D t" if t: "ready A D t" "t \<noteq> b" for t
  proof -
    have tl: "t \<notin> level b" using ld t(1) by (auto simp: ready_def)
    have "(bk e \<and> t \<notin> ?A) \<or> delivered ?A ?D e" if e: "e \<in> Ed" "e_tgt e = t" for e
    proof (cases "bk e \<and> t \<notin> A")
      case False
      then have dl: "delivered A D e" using readyD(3) [OF t(1) e] by simp
      show ?thesis
      proof (cases "rep e = b")
        case True
        then have "own e" using delivered_own b(2) dl by blast
        then show ?thesis using True by (simp add: delivered_def)
      qed (use it(1) [OF e(1)] e t tl dl in blast)
    qed (use t in simp)
    then show ?thesis using t by (auto simp: ready_def)
  qed
  have tr: "(e \<in> eouts b \<and> tdone (M - ebacks b \<union> eouts b) (fx(b := False)) ?A (e_tgt e)) \<longleftrightarrow>
      (e \<in> eouts b \<and> ready ?A ?D (e_tgt e))" for e
    using td [of e] by (auto simp: eouts_def)
  show ?thesis unfolding tr
  proof (intro equalityI subsetI)
    fix t assume "t \<in> {t. ready ?A ?D t}"
    then show "t \<in> {t. ready A D t} - {b} \<union> {e_tgt e | e. e \<in> eouts b \<and> ready ?A ?D (e_tgt e)}"
      using out [of t] by blast
  next
    fix t assume "t \<in> {t. ready A D t} - {b} \<union> {e_tgt e | e. e \<in> eouts b \<and> ready ?A ?D (e_tgt e)}"
    then show "t \<in> {t. ready ?A ?D t}" using keep [of t] by blast
  qed
qed

text \<open>A loop is fixed: its exit edges become usable.\<close>

lemma exit_marked:
  assumes c: "cinv M fx A D" and r: "ready A D b" and bA: "b \<in> A" and e: "e \<in> Ed" "ex e = Some b"
  shows "e \<in> M - eins b"
proof -
  have "e_src e = b \<or> e_src e \<in> D"
    using exit_src [OF e] edge_V [OF e(1)] level_done [OF c r] by (auto simp: level_def)
  then have "e \<in> M" using cinvD(10) [OF c e bA] by blast
  moreover have "e_tgt e \<noteq> b" using exit_rep [OF e] own_def by metis
  ultimately show ?thesis by (simp add: eins_def)
qed

lemma cinv_fixed:
  assumes c: "cinv M fx A D" and r: "ready A D b" and bA: "b \<in> A"
  shows "cinv (M - eins b) (fx(b := True)) (A - {b}) (insert b D)"
proof -
  note b = readyD(1,2) [OF r] and ld = level_done [OF c r]
  have h: "hdr b" using cinvD(4) [OF c bA] by simp
  let ?A = "A - {b}" and ?D = "insert b D" and ?M = "M - eins b" and ?fx = "fx(b := True)"
  have dl: "delivered A D e" if "e \<in> Ed" "e_tgt e = b" for e using readyD(3) [OF r that] bA by blast
  have us: "used ?A ?D e \<longleftrightarrow> used A D e \<or> e_tgt e = b" for e by (auto simp: used_def)
  have same: "delivered ?A ?D e \<longleftrightarrow> delivered A D e" if "rep e \<noteq> b" for e using that by (auto simp: delivered_def)
  show ?thesis
  proof (rule cinvI)
    show "around ?A d \<or> d \<in> ?D" if "d \<in> V" for d
      using cinvD(5) [OF c that] that ld by (auto simp: around_def level_def)
  next
    fix e assume e: "e \<in> Ed" "\<not> bk e" "around ?A (e_tgt e)" "e_tgt e \<in> ?A \<union> ?D"
    have "around A (e_tgt e)" using e(3) by (auto simp: around_def)
    then have d: "delivered A D e" using cinvD(6) [OF c e(1,2)] dl [OF e(1)] e(4) by blast
    show "delivered ?A ?D e"
    proof (cases "own e")
      case True
      then have "par (e_tgt e) = Some (rep e)" using fwd_ends [OF e(1,2)] by (simp add: own_def)
      then show ?thesis using True e(3) by (simp add: delivered_def around_def)
    qed (use d in \<open>simp add: delivered_def\<close>)
  next
    fix e assume e: "e \<in> Ed"
    show "usable ?M ?fx e \<longleftrightarrow> delivered ?A ?D e \<and> \<not> used ?A ?D e"
    proof (cases "e_tgt e = b")
      case True
      then show ?thesis using us e by (simp add: usable_def eins_def)
    next
      case tb: False
      show ?thesis
      proof (cases "rep e = b")
        case rb: True
        show ?thesis
        proof (cases "own e")
          case True
          then have "e_tgt e \<in> level b" using tb rb edge_V [OF e] by (auto simp: own_def level_def)
          moreover have "\<not> bk e" using own_edge [OF e True] rb tb by auto
          ultimately have "used A D e" using ld by (auto simp: used_def)
          then show ?thesis using cinvD(8) [OF c e] us by (simp add: usable_def)
        next
          case False
          then have "ex e \<noteq> None" using level_edge [OF e False] rb h by metis
          then have x: "ex e = Some b" using rb by (auto simp: edge_rep_def)
          have "\<not> used A D e" using rep_unused [OF c e False] rb b(2) by simp
          then show ?thesis using exit_marked [OF c r bA e x] x us tb False rb by (simp add: usable_def delivered_def)
        qed
      next
        case False
        have "ex e \<noteq> Some b" using False by (auto simp: edge_rep_def)
        then have "usable ?M ?fx e \<longleftrightarrow> usable M fx e" using tb by (auto simp: usable_def eins_def)
        then show ?thesis using same [OF False] us tb cinvD(7) [OF c e] by simp
      qed
    qed
  next
    fix e assume e: "e \<in> Ed" "used ?A ?D e"
    then show "e \<notin> ?M" using us cinvD(8) [OF c e(1)] by (auto simp: eins_def)
  next
    fix e x assume e: "e \<in> Ed" "ex e = Some x"
    show "e \<notin> ?M" if "x \<notin> ?A \<union> ?D" using that cinvD(9) [OF c e] by auto
    show "e \<in> ?M" if x: "x \<in> ?A" "e_src e = x \<or> e_src e \<in> ?D"
    proof -
      have "e_src e \<noteq> b" using header_src(2) [OF e(1) _ e(2)] h x(1) by auto
      then have "e \<in> M" using cinvD(10) [OF c e] x by auto
      moreover have "e_tgt e \<noteq> b"
      proof
        assume "e_tgt e = b"
        then have "delivered A D e" using dl e by blast
        then show False using exit_rep [OF e] cinvD(3) [OF c] x(1) by (auto simp: delivered_def)
      qed
      ultimately show ?thesis by (simp add: eins_def)
    qed
  qed (use cinvD [OF c] b in auto)
qed

lemma ready_fixed:
  assumes c: "cinv M fx A D" and r: "ready A D b" and bA: "b \<in> A"
  shows "{t. ready (A - {b}) (insert b D) t} = {t. ready A D t} - {b} \<union>
    {e_tgt e | e. e \<in> Ed \<and> ex e = Some b \<and> tdone (M - eins b) (fx(b := True)) (A - {b}) (e_tgt e)}"
    and "e \<in> Ed \<Longrightarrow> ex e = Some b \<Longrightarrow> \<not> ready A D (e_tgt e)"
proof -
  note b = readyD(1,2) [OF r] and ld = level_done [OF c r] and c' = cinv_fixed [OF c r bA]
  have h: "hdr b" using cinvD(4) [OF c bA] by simp
  let ?A = "A - {b}" and ?D = "insert b D"
  have td: "tdone (M - eins b) (fx(b := True)) ?A (e_tgt e) \<longleftrightarrow> ready ?A ?D (e_tgt e)" if "e \<in> Ed" for e
    using tdone_ready [OF c'] edge_V [OF that] no_in [OF that] by blast
  show nr: "\<not> ready A D (e_tgt e)" if e: "e \<in> Ed" "ex e = Some b" for e
  proof
    assume rt: "ready A D (e_tgt e)"
    have no: "\<not> own e" "rep e \<notin> D" using exit_rep [OF e] b(2) by auto
    then have "\<not> used A D e" using rep_unused [OF c e(1)] by blast
    then have "delivered A D e" using readyD(3) [OF rt e(1)] by (cases "bk e") (auto simp: used_def)
    then show False using no by (simp add: delivered_def)
  qed
  have out: "\<exists>e. e \<in> Ed \<and> ex e = Some b \<and> e_tgt e = t" if t: "ready ?A ?D t" "\<not> ready A D t" for t
  proof -
    obtain e where e: "e \<in> Ed" "e_tgt e = t" "\<not> (bk e \<and> t \<notin> A)" "\<not> delivered A D e" using t by (auto simp: ready_def)
    have "delivered ?A ?D e" using readyD(3) [OF t(1) e(1,2)] e(3) readyD(2) [OF t(1)] by auto
    then have "rep e = b" "\<not> own e" using e(4) by (auto simp: delivered_def split: if_splits)
    then show ?thesis using level_edge [OF e(1)] h e(1,2) by (cases "ex e") (auto simp: edge_rep_def)
  qed
  have keep: "ready ?A ?D t" if t: "ready A D t" "t \<noteq> b" for t
  proof -
    have "(bk e \<and> t \<notin> ?A) \<or> delivered ?A ?D e" if e: "e \<in> Ed" "e_tgt e = t" for e
    proof (cases "bk e \<and> t \<notin> A")
      case False
      then have dl: "delivered A D e" using readyD(3) [OF t(1) e] by simp
      have "rep e \<noteq> b \<or> \<not> own e"
        using t ld e edge_V [OF e(1)] by (auto simp: own_def level_def ready_def)
      then show ?thesis using dl b(2) by (auto simp: delivered_def split: if_splits)
    qed (use t in simp)
    then show ?thesis using t by (auto simp: ready_def)
  qed
  have tr: "(e \<in> Ed \<and> ex e = Some b \<and> tdone (M - eins b) (fx(b := True)) ?A (e_tgt e)) \<longleftrightarrow>
      (e \<in> Ed \<and> ex e = Some b \<and> ready ?A ?D (e_tgt e))" for e
    using td [of e] by blast
  show "{t. ready ?A ?D t} = {t. ready A D t} - {b} \<union>
    {e_tgt e | e. e \<in> Ed \<and> ex e = Some b \<and> tdone (M - eins b) (fx(b := True)) ?A (e_tgt e)}"
    unfolding tr
  proof (intro equalityI subsetI)
    fix t assume t: "t \<in> {t. ready ?A ?D t}"
    then have "t \<noteq> b" using readyD(2) [of ?A ?D b] by auto
    then show "t \<in> {t. ready A D t} - {b} \<union> {e_tgt e | e. e \<in> Ed \<and> ex e = Some b \<and> ready ?A ?D (e_tgt e)}"
      using t out [of t] by blast
  next
    fix t assume "t \<in> {t. ready A D t} - {b} \<union> {e_tgt e | e. e \<in> Ed \<and> ex e = Some b \<and> ready ?A ?D (e_tgt e)}"
    then show "t \<in> {t. ready ?A ?D t}" using keep [of t] by blast
  qed
qed

text \<open>Targets of the new marks are not in the work list yet.\<close>

lemma simple_new:
  assumes c: "cinv M fx A D" and b: "b \<in> V" "b \<notin> D" "\<not> hdr b" and e: "e \<in> eouts b"
  shows "\<not> ready A D (e_tgt e)"
proof
  assume r: "ready A D (e_tgt e)"
  have e': "e \<in> Ed" "e_src e = b" using e by (auto simp: eouts_def)
  note so = simple_out [OF c b e']
  have "delivered A D e" using readyD(3) [OF r e'(1)] so(1) by (cases "bk e") (auto simp: used_def)
  then show False using so(2) by blast
qed

lemma iter_new:
  assumes c: "cinv M fx A D" and r: "ready A D b" and h: "hdr b" and e: "e \<in> eouts b"
    and t: "ready A D (e_tgt e)" "e_tgt e \<noteq> b"
  shows "\<not> tdone M' (fx(b := False)) (insert b A) (e_tgt e)"
proof -
  note b = readyD(1,2) [OF r]
  have e': "e \<in> Ed" "e_src e = b" using e by (auto simp: eouts_def)
  have nl: "e_tgt e \<notin> level b" using level_done [OF c r] readyD(2) [OF t(1)] by blast
  have "ex e \<noteq> None" using header_out(1) [OF c b h e'] nl t(2) by metis
  then have x: "ex e = Some b" using header_src(2) [OF e'(1)] e'(2) h by auto
  have "\<not> edone M' (fx(b := False)) (insert b A) e"
    using header_out(2) [OF c b h e' x] x by (auto simp: edone_def usable_def used_def)
  then show ?thesis using e'(1) by (auto simp: tdone_def)
qed

lemma active_entry:
  assumes c: "cinv M fx A D" and e: "e \<in> Ed" "\<not> bk e" "e_tgt e \<in> A"
  shows "delivered A D e" "\<not> used A D e"
proof -
  have t: "e_tgt e \<in> V" "e_tgt e \<notin> D" using cinvD(1,3) [OF c] e by auto
  then show "delivered A D e" using cinvD(6) [OF c e(1,2)] cinvD(5) [OF c t] e(3) by blast
  show "\<not> used A D e" using t e(2) by (simp add: used_def)
qed

subsection \<open>Members of a loop at any depth\<close>

definition inside :: "nat \<Rightarrow> nat set" where
  "inside b = {c. (c, b) \<in> {(c, h). c \<in> V \<and> par c = Some h}\<^sup>+}"

lemma inside_iff: "c \<in> inside b \<longleftrightarrow> c \<in> V \<and> (\<exists>p. par c = Some p \<and> (p = b \<or> p \<in> inside b))"
proof
  assume "c \<in> inside b"
  then have "(c, b) \<in> {(c, h). c \<in> V \<and> par c = Some h}\<^sup>+" by (simp add: inside_def)
  from tranclD [OF this] obtain p where "c \<in> V" "par c = Some p" "(p, b) \<in> {(c, h). c \<in> V \<and> par c = Some h}\<^sup>*"
    by blast
  then show "c \<in> V \<and> (\<exists>p. par c = Some p \<and> (p = b \<or> p \<in> inside b))" unfolding inside_def by (auto simp: rtrancl_eq_or_trancl)
next
  assume "c \<in> V \<and> (\<exists>p. par c = Some p \<and> (p = b \<or> p \<in> inside b))"
  then show "c \<in> inside b" unfolding inside_def by (auto intro: trancl_into_trancl2)
qed

lemma level_inside: "level b \<subseteq> inside b"
  using inside_iff by (auto simp: level_def)

lemma inside_rank: "b \<in> V \<Longrightarrow> c \<in> inside b \<Longrightarrow> rk b < rk c"
proof (induction "rk c" arbitrary: c rule: less_induct)
  case less
  obtain p where p: "c \<in> V" "par c = Some p" "p = b \<or> p \<in> inside b" using less.prems inside_iff by blast
  then have "rk p < rk c" using par_V by blast
  then show ?case using p less by (metis less_trans)
qed

lemma inside_irrefl: "b \<in> V \<Longrightarrow> b \<notin> inside b"
  using inside_rank by blast

lemma entry_outside: "0 \<notin> inside b"
  using inside_iff [of 0 b] entry(2) by simp

lemma inside_done:
  assumes c: "cinv M fx A D" and l: "level b \<subseteq> D" and "d \<in> inside b"
  shows "d \<in> D"
  using assms(3)
proof (induction "rk d" arbitrary: d rule: less_induct)
  case less
  obtain p where p: "d \<in> V" "par d = Some p" "p = b \<or> p \<in> inside b" using less.prems inside_iff by blast
  show ?case
  proof (cases "p = b")
    case True
    then show ?thesis using l p by (auto simp: level_def)
  next
    case False
    then have "p \<in> D" using p less.hyps [of p] par_V by blast
    then have "\<not> around A d" using p cinvD(3) [OF c] by (auto simp: around_def)
    then show ?thesis using cinvD(5) [OF c p(1)] by blast
  qed
qed

lemma inside_edge:
  assumes e: "e \<in> Ed" "e_tgt e \<in> inside b"
  shows "e_src e \<in> inside b \<or> e_src e = b"
proof -
  obtain p where p: "e_tgt e \<in> V" "par (e_tgt e) = Some p" "p = b \<or> p \<in> inside b" using e inside_iff by blast
  have src: "e_src e \<in> inside b" if "rep e \<in> inside b"
  proof (cases "ex e")
    case (Some x)
    then have "e_src e = x \<or> par (e_src e) = Some x" "rep e = x" using exit_src [OF e(1) Some] by (auto simp: edge_rep_def)
    then show ?thesis using that inside_iff [of "e_src e" b] edge_V [OF e(1)] by metis
  qed (use that in \<open>simp add: edge_rep_def\<close>)
  show ?thesis
  proof (cases "own e")
    case True
    then have "rep e = e_src e" using own_edge [OF e(1)] by blast
    moreover have "rep e = e_tgt e \<or> rep e = p" using True p(2) by (simp add: own_def eq_commute)
    ultimately show ?thesis using p(3) e(2) by metis
  next
    case False
    then have "par (rep e) = Some p \<or> par (rep e) = Some (e_tgt e)" using level_edge [OF e(1) False] p(2) by metis
    then have "rep e \<in> inside b" using inside_iff [of "rep e" b] rep_V [OF e(1)] p(3) e(2) by blast
    then show ?thesis using src by blast
  qed
qed

text \<open>The start.\<close>

lemma cinv_start: "cinv {} (\<lambda>_. False) {} {b \<in> V. par b \<noteq> None}"
proof -
  have "\<not> delivered {} {b \<in> V. par b \<noteq> None} e \<or> used {} {b \<in> V. par b \<noteq> None} e" if e: "e \<in> Ed" for e
    using level_edge [OF e] edge_V [OF e] by (auto simp: delivered_def used_def split: if_splits)
  then show ?thesis unfolding cinv_def by (auto simp: around_def usable_def)
qed

lemma ready_start: "ready {} {b \<in> V. par b \<noteq> None} b \<longleftrightarrow> b = 0"
proof
  assume r: "ready {} {b \<in> V. par b \<noteq> None} b"
  show "b = 0"
  proof (rule ccontr)
    assume "b \<noteq> 0"
    then obtain e where e: "e \<in> Ed" "e_tgt e = b" "\<not> bk e" using fwd_in readyD(1) [OF r] by blast
    then have "delivered {} {b \<in> V. par b \<noteq> None} e" using readyD(3) [OF r] by blast
    then show False using level_edge [OF e(1)] readyD(1,2) [OF r] e by (auto simp: delivered_def split: if_splits)
  qed
next
  assume "b = 0"
  then show "ready {} {b \<in> V. par b \<noteq> None} b" using entry no_in by (fastforce simp: ready_def)
qed

end

subsection \<open>Reducible graphs\<close>

typedef nested = "{x. nest_graph x}"
proof -
  let ?g = "\<lparr>cfg_bbs = [\<lparr>bb_flags = FLAG_Entry, bb_ins = [], bb_outs = []\<rparr>, \<lparr>bb_flags = FLAG_Exit, bb_ins = [], bb_outs = []\<rparr>]\<rparr>"
  have c: "countBB ?g = 2" by (simp add: countBB_def)
  then have "wf_cfg ?g"
    by (auto simp: wf_cfg_def wf_edges_def ins_def outs_def isEntry_def isExit_def flag_defs less_2_cases_iff)
  moreover have "ins ?g 0 = []" "\<forall>b < countBB ?g. outs ?g b = []"
    unfolding c by (auto simp: ins_def outs_def less_2_cases_iff)
  ultimately obtain di where "loop_input ?g di" using dom_gives_loop_input [of ?g] by auto
  moreover obtain li where "lib_processCFG ?g di = Some (Inr li)" using lib_processCFG_loops calculation by blast
  moreover have "all_edges ?g = {}" using \<open>\<forall>b < countBB ?g. outs ?g b = []\<close> by (auto simp: all_edges_def)
  ultimately have "nest_graph (?g, di, li, \<lambda>_. 0)" by (simp add: nest_graph_def)
  then show ?thesis by blast
qed

definition n_cfg :: "nested \<Rightarrow> cfg" where "n_cfg N = fst (Rep_nested N)"
definition n_doms :: "nested \<Rightarrow> dom_info" where "n_doms N = fst (snd (Rep_nested N))"
definition n_loops :: "nested \<Rightarrow> loop_info" where "n_loops N = fst (snd (snd (Rep_nested N)))"
definition n_rank :: "nested \<Rightarrow> nat \<Rightarrow> nat" where "n_rank N = snd (snd (snd (Rep_nested N)))"

lemma nested_graph: "nest_graph (n_cfg N, n_doms N, n_loops N, n_rank N)"
  using Rep_nested [of N] by (simp add: n_cfg_def n_doms_def n_loops_def n_rank_def)

lemma nested_of:
  assumes "nest_graph (g, di, li, rk)"
  shows "\<exists>N. n_cfg N = g \<and> n_doms N = di \<and> n_loops N = li \<and> n_rank N = rk"
  using assms Abs_nested_inverse [of "(g, di, li, rk)"]
  by (intro exI [of _ "Abs_nested (g, di, li, rk)"]) (simp add: n_cfg_def n_doms_def n_loops_def n_rank_def)

interpretation nest: loop_nest "live (n_cfg N)" "all_edges (n_cfg N)" "loop_header (n_cfg N)" "\<lambda>b. li_enclosing (n_loops N) ! b"
  "back_edge (n_cfg N)" "li_exit (n_loops N)" "n_rank N" for N
proof (unfold_locales, goal_cases)
  note ng = nested_graph [of N] and gd = nest_graphD [OF nested_graph [of N]]
  have n0: "0 < countBB (n_cfg N)" using gd(2) by (simp add: wf_cfg_def)
  {
    case 1 show ?case by (simp add: live_def)
  next
    case 2 
    have "is_path (succs (n_cfg N)) 0 [0] 0" by simp
    then show ?case unfolding live_def reachable_def using n0 by blast
  next
    case 3
    have "\<not> in_body (n_cfg N) h 0" for h
    proof
      assume "in_body (n_cfg N) h 0"
      from in_body_live [OF gd(1) this n0] have h: "h \<in> dom_set (n_cfg N) 0" "loop_header (n_cfg N) h" by auto
      have "is_path (succs (n_cfg N)) 0 [0] 0" by simp
      then have "h \<in> set [0]" using h(1) unfolding on_all_paths_def by blast
      then show False using header_props [OF gd(1) h(2)] by simp
    qed
    then show ?case using par_none [OF ng n0] by simp
  next
    case 4 show ?case using header_props [OF gd(1)] by blast
  next
    case (5 e)
    then show ?case using all_edges_succs(5) [OF gd(3) 5 gd(6) [OF 5]] gd(5) by (metis empty_iff empty_set)
  next
    case (6 e) then show ?case using live_edge [OF ng 6] by blast
  next
    case (7 b h)
    then have h: "loop_header (n_cfg N) h" "h \<in> bodies (n_cfg N) b" "h \<noteq> b"
      using par_bodies [OF ng, of b h] header_body [of "n_cfg N" h] by (auto simp: live_def)
    have "h \<in> dom_set (n_cfg N) b" "h \<in> live (n_cfg N)" using in_body_live [OF gd(1), of h b] h 7 by (auto simp: live_def)
    then show ?case using dom_rank [OF ng 7(1)] h by blast
  next
    case (8 b) then show ?case using forward_in [OF ng] by blast
  next
    case (9 e) then show ?case by (auto simp: loop_header_def)
  next
    case (10 h) then show ?case by (auto simp: loop_header_def)
  next
    case (11 e) then show ?case using rep_rank [OF ng] by blast
  next
    case (12 e) then show ?case using plain_forward [OF ng] by blast
  next
    case (13 e) then show ?case using plain_backward [OF ng] by blast
  next
    case (14 e x)
    then show ?case using exit_levels(2) [OF ng 14] exit_bodies [OF ng 14(1)]
        in_body_live [OF gd(1) _ edge_live(1) [OF ng 14(1)], of x] by auto
  next
    case (15 e x) then show ?case using exit_levels(3) [OF ng] by blast
  next
    case (16 b h) then show ?case using level_out [OF ng] by blast
  }
qed

end
