(* ===== verification/Hai_Engine.thy ===== *)
theory Hai_Engine
  imports Loop_Info Ipet_Program
begin

text \<open>
  The abstract interpretation engine \<^verbatim>\<open>HalfAbsInt\<close> (otawa/include/otawa/dfa/hai/HalfAbsInt.h) with
  its three handlers of loops, \<^verbatim>\<open>DefaultFixPoint\<close>, \<^verbatim>\<open>WideningFixPoint\<close> and
  \<^verbatim>\<open>FirstUnrollingFixPoint\<close>, and the listeners that collect the results (DefaultListener.h,
  WideningListener.h, UnrollingListener.h).

  A block is a pair of a CFG and a number. The states of edges and of blocks (\<^verbatim>\<open>STATE\<close>) are two
  maps; the annotations of the dominance and loop processors are arguments. The stack of calls
  keeps the source of an edge with the edge.
\<close>

subsection \<open>Problems, environment, state\<close>

type_synonym block_id = "nat \<times> nat"

record 'd hai_problem =
  hp_bottom :: 'd
  hp_entry :: 'd
  hp_lub :: "'d \<Rightarrow> 'd \<Rightarrow> 'd res"
  hp_equals :: "'d \<Rightarrow> 'd \<Rightarrow> bool res"
  hp_update :: "block_id \<Rightarrow> 'd \<Rightarrow> 'd res"
  hp_updateEdge :: "edge \<Rightarrow> 'd \<Rightarrow> 'd res"
  hp_widening :: "block_id \<Rightarrow> 'd \<Rightarrow> 'd \<Rightarrow> 'd res"
  hp_enterContext :: "block_id \<Rightarrow> hai_context \<Rightarrow> 'd \<Rightarrow> 'd res"
  hp_leaveContext :: "block_id \<Rightarrow> hai_context \<Rightarrow> 'd \<Rightarrow> 'd res"

datatype fp_kind = Default_FP | Widening_FP | First_Unrolling_FP

text \<open>\<^verbatim>\<open>HAI_DONT_ENTER\<close>, \<^verbatim>\<open>HAI_BYPASS_SOURCE\<close> and \<^verbatim>\<open>HAI_BYPASS_TARGET\<close> are set by the clients.\<close>

record hai_env =
  he_pg :: program
  he_doms :: "nat \<Rightarrow> dom_info"
  he_loops :: "nat \<Rightarrow> loop_info"
  he_dont_bb :: "block_id \<Rightarrow> bool"
  he_dont_cfg :: "nat \<Rightarrow> bool"
  he_bypass_source :: "block_id \<Rightarrow> block_id option"
  he_bypass_target :: "block_id \<Rightarrow> bool"
  he_store_out :: bool

record 'd fp_state =
  fs_header :: 'd
  fs_first :: 'd
  fs_iter :: nat

record 'd hai =
  h_edge :: "edge \<Rightarrow> 'd option"
  h_block :: "block_id \<Rightarrow> 'd option"
  h_fp :: "block_id \<Rightarrow> 'd fp_state option"
  h_first :: "block_id \<Rightarrow> bool"
  h_fixed :: "block_id \<Rightarrow> bool"
  h_work :: "block_id list"
  h_calls :: "(block_id \<times> edge) list"
  h_cfgs :: "nat list"
  h_cur :: nat
  h_in :: 'd
  h_out :: 'd
  h_main :: bool
  h_results :: "block_id \<Rightarrow> 'd"
  h_results_out :: "block_id \<Rightarrow> 'd"

definition he_ins :: "hai_env \<Rightarrow> block_id \<Rightarrow> edge list" where
  "he_ins E b = ins (cfg_of (he_pg E) (fst b)) (snd b)"

definition he_outs :: "hai_env \<Rightarrow> block_id \<Rightarrow> edge list" where
  "he_outs E b = outs (cfg_of (he_pg E) (fst b)) (snd b)"

definition he_header :: "hai_env \<Rightarrow> block_id \<Rightarrow> bool" where
  "he_header E b = di_header (he_doms E (fst b)) ! snd b"

definition he_dominates :: "hai_env \<Rightarrow> nat \<Rightarrow> nat \<Rightarrow> nat \<Rightarrow> bool res" where
  "he_dominates E k = dominates (di_reverse (he_doms E k))"

definition he_exit :: "hai_env \<Rightarrow> nat \<Rightarrow> edge \<Rightarrow> nat option" where
  "he_exit E k e = li_exit (he_loops E k) e"

definition he_exit_list :: "hai_env \<Rightarrow> block_id \<Rightarrow> edge list option" where
  "he_exit_list E b = li_list (he_loops E (fst b)) (snd b)"

definition he_skip :: "hai_env \<Rightarrow> block_id \<Rightarrow> edge \<Rightarrow> bool" where
  "he_skip E b e \<longleftrightarrow> he_bypass_target E b \<and> e_kind e = VIRTUAL_RETURN"

subsection \<open>Marks\<close>

definition markState :: "fp_kind \<Rightarrow> 'd hai_problem \<Rightarrow> 'd option \<Rightarrow> 'd \<Rightarrow> 'd res" where
  "markState fk P old s = (case fk of
     Default_FP \<Rightarrow> rbind (hp_lub P (case old of None \<Rightarrow> hp_bottom P | Some d \<Rightarrow> d) s) (\<lambda>d.
       rbind (hp_lub P (hp_bottom P) s) (\<lambda>tmp. rbind (hp_equals P tmp s) (\<lambda>eq. asserting eq (Inr d))))
   | Widening_FP \<Rightarrow> Inr s
   | First_Unrolling_FP \<Rightarrow> hp_lub P (case old of None \<Rightarrow> hp_bottom P | Some d \<Rightarrow> d) s)"

definition markEdge :: "fp_kind \<Rightarrow> 'd hai_problem \<Rightarrow> edge \<Rightarrow> 'd \<Rightarrow> 'd hai \<Rightarrow> 'd hai res" where
  "markEdge fk P e s h = rbind (markState fk P (h_edge h e) s) (\<lambda>d. Inr (h\<lparr>h_edge := (h_edge h)(e \<mapsto> d)\<rparr>))"

definition markBlock :: "fp_kind \<Rightarrow> 'd hai_problem \<Rightarrow> block_id \<Rightarrow> 'd \<Rightarrow> 'd hai \<Rightarrow> 'd hai res" where
  "markBlock fk P b s h = rbind (markState fk P (h_block h b) s) (\<lambda>d. Inr (h\<lparr>h_block := (h_block h)(b \<mapsto> d)\<rparr>))"

definition unmarkEdge :: "edge \<Rightarrow> 'd hai \<Rightarrow> 'd hai" where
  "unmarkEdge e h = h\<lparr>h_edge := (h_edge h)(e := None)\<rparr>"

definition unmarkBlock :: "block_id \<Rightarrow> 'd hai \<Rightarrow> 'd hai" where
  "unmarkBlock b h = h\<lparr>h_block := (h_block h)(b := None)\<rparr>"

definition fp_updateEdge :: "fp_kind \<Rightarrow> 'd hai_problem \<Rightarrow> edge \<Rightarrow> 'd \<Rightarrow> 'd res" where
  "fp_updateEdge fk P e d = (if fk = Widening_FP then hp_updateEdge P e d else Inr d)"

subsection \<open>Fixpoint of a loop\<close>

definition hai_union_edge :: "hai_env \<Rightarrow> 'd hai_problem \<Rightarrow> 'd hai \<Rightarrow> block_id \<Rightarrow> bool \<Rightarrow> edge \<Rightarrow> 'd \<Rightarrow> 'd res" where
  "hai_union_edge E P h b back e r =
     (if e_kind e = CALL then Inr r
      else if \<not> back \<and> he_skip E b e then Inr r
      else rbind (he_dominates E (fst b) (snd b) (e_src e)) (\<lambda>dm.
        if dm = back
        then (case h_edge h e of None \<Rightarrow> Inl AssertFail | Some d \<Rightarrow> hp_lub P r d)
        else Inr r))"

definition backEdgeUnion :: "hai_env \<Rightarrow> 'd hai_problem \<Rightarrow> 'd hai \<Rightarrow> block_id \<Rightarrow> 'd res" where
  "backEdgeUnion E P h b =
     (if h_first h b then Inr (hp_bottom P) else rfold (hai_union_edge E P h b True) (he_ins E b) (hp_bottom P))"

definition entryEdgeUnion :: "hai_env \<Rightarrow> 'd hai_problem \<Rightarrow> 'd hai \<Rightarrow> block_id \<Rightarrow> 'd res" where
  "entryEdgeUnion E P h b =
     rbind (rfold (hai_union_edge E P h b False) (he_ins E b) (hp_bottom P)) (\<lambda>r.
     rbind (if he_bypass_target E b
            then (case h_block h b of None \<Rightarrow> Inl AssertFail | Some d \<Rightarrow> hp_lub P r d)
            else Inr r) (\<lambda>r.
       hp_enterContext P b CTX_LOOP r))"

definition fp_newState :: "'d hai_problem \<Rightarrow> 'd fp_state" where
  "fp_newState P = \<lparr>fs_header = hp_bottom P, fs_first = hp_bottom P, fs_iter = 0\<rparr>"

text \<open>The new state of the loop and whether the fixpoint is reached.\<close>

definition fixPoint_default :: "hai_env \<Rightarrow> 'd hai_problem \<Rightarrow> 'd hai \<Rightarrow> block_id \<Rightarrow> bool \<Rightarrow> 'd fp_state \<Rightarrow> ('d \<times> bool \<times> 'd fp_state) res" where
  "fixPoint_default E P h b firstTime fs =
     rbind (entryEdgeUnion E P h b) (\<lambda>n.
       if firstTime then Inr (n, False, fs\<lparr>fs_header := n\<rparr>)
       else rbind (backEdgeUnion E P h b) (\<lambda>bk. rbind (hp_lub P n bk) (\<lambda>n.
            rbind (hp_equals P n (fs_header fs)) (\<lambda>eq. Inr (n, eq, fs\<lparr>fs_header := n\<rparr>)))))"

definition fixPoint_widening :: "hai_env \<Rightarrow> 'd hai_problem \<Rightarrow> 'd hai \<Rightarrow> block_id \<Rightarrow> bool \<Rightarrow> 'd fp_state \<Rightarrow> ('d \<times> bool \<times> 'd fp_state) res" where
  "fixPoint_widening E P h b firstTime fs =
     (if firstTime then rbind (entryEdgeUnion E P h b) (\<lambda>n. Inr (n, False, fs\<lparr>fs_header := n\<rparr>))
      else rbind (backEdgeUnion E P h b) (\<lambda>bk. rbind (hp_widening P b (fs_header fs) bk) (\<lambda>n.
           rbind (hp_equals P n (fs_header fs)) (\<lambda>eq. Inr (n, eq, fs\<lparr>fs_header := n\<rparr>)))))"

definition fixPoint_unrolling :: "hai_env \<Rightarrow> 'd hai_problem \<Rightarrow> 'd hai \<Rightarrow> block_id \<Rightarrow> 'd fp_state \<Rightarrow> ('d \<times> bool \<times> 'd fp_state) res" where
  "fixPoint_unrolling E P h b fs =
     (if fs_iter fs = 0
      then rbind (entryEdgeUnion E P h b) (\<lambda>n. Inr (n, False, fs\<lparr>fs_header := n, fs_iter := 1\<rparr>))
      else if fs_iter fs = 1
      then rbind (backEdgeUnion E P h b) (\<lambda>n. Inr (n, False, fs\<lparr>fs_header := n, fs_first := n, fs_iter := 2\<rparr>))
      else rbind (backEdgeUnion E P h b) (\<lambda>bk. rbind (hp_lub P bk (fs_first fs)) (\<lambda>n.
           rbind (hp_equals P n (fs_header fs)) (\<lambda>eq. Inr (n, eq, fs\<lparr>fs_header := n, fs_iter := Suc (fs_iter fs)\<rparr>)))))"

definition fixPoint :: "fp_kind \<Rightarrow> hai_env \<Rightarrow> 'd hai_problem \<Rightarrow> 'd hai \<Rightarrow> block_id \<Rightarrow> bool \<Rightarrow> 'd fp_state \<Rightarrow> ('d \<times> bool \<times> 'd fp_state) res" where
  "fixPoint fk E P h b firstTime fs = (case fk of
     Default_FP \<Rightarrow> fixPoint_default E P h b firstTime fs
   | Widening_FP \<Rightarrow> fixPoint_widening E P h b firstTime fs
   | First_Unrolling_FP \<Rightarrow> fixPoint_unrolling E P h b fs)"

subsection \<open>Work list\<close>

text \<open>\<^verbatim>\<open>Vector::push\<close> and \<^verbatim>\<open>pop\<close> work at the end of the vector.\<close>

definition vec_push :: "'a \<Rightarrow> 'a list \<Rightarrow> 'a list" where
  "vec_push x xs = xs @ [x]"

definition hai_push :: "block_id \<Rightarrow> 'd hai \<Rightarrow> 'd hai" where
  "hai_push b h = h\<lparr>h_work := vec_push b (h_work h)\<rparr>"

definition isEdgeDone :: "hai_env \<Rightarrow> 'd hai \<Rightarrow> nat \<Rightarrow> edge \<Rightarrow> bool res" where
  "isEdgeDone E h k e =
     (if h_edge h e \<noteq> None \<and> (case he_exit E k e of None \<Rightarrow> True | Some x \<Rightarrow> h_fixed h (k, x)) then Inr True
      else rbind (he_dominates E k (e_tgt e) (e_src e)) (\<lambda>dm. Inr (dm \<and> h_first h (k, e_tgt e))))"

definition tryAdd_edge :: "hai_env \<Rightarrow> 'd hai \<Rightarrow> block_id \<Rightarrow> edge \<Rightarrow> bool \<Rightarrow> bool res" where
  "tryAdd_edge E h b e add =
     (if e_kind e = CALL \<or> he_skip E b e then Inr add
      else rbind (isEdgeDone E h (fst b) e) (\<lambda>dn. Inr (if \<not> dn then False else add)))"

definition tryAddToWorkList :: "hai_env \<Rightarrow> block_id \<Rightarrow> 'd hai \<Rightarrow> (bool \<times> 'd hai) res" where
  "tryAddToWorkList E b h =
     rbind (rfold (tryAdd_edge E h b) (he_ins E b) True) (\<lambda>add.
       let add = (if he_bypass_target E b \<and> h_block h b = None then False else add)
       in Inr (add, if add then hai_push b h else h))"

definition addSuccessors_edge :: "fp_kind \<Rightarrow> hai_env \<Rightarrow> 'd hai_problem \<Rightarrow> block_id \<Rightarrow> edge \<Rightarrow> 'd hai \<Rightarrow> 'd hai res" where
  "addSuccessors_edge fk E P b e h =
     (if e_kind e = CALL then Inr h
      else if he_bypass_source E b \<noteq> None \<and> e_kind e = VIRTUAL_CALL then Inr h
      else if he_dont_bb E (fst b, e_tgt e) then Inr h
      else rbind (markEdge fk P e (h_out h) h) (\<lambda>h.
           rbind (tryAddToWorkList E (fst b, e_tgt e) h) (\<lambda>(_, h). Inr h)))"

definition addSuccessors :: "fp_kind \<Rightarrow> hai_env \<Rightarrow> 'd hai_problem \<Rightarrow> block_id \<Rightarrow> 'd hai \<Rightarrow> 'd hai res" where
  "addSuccessors fk E P b h =
     rbind (rfold (addSuccessors_edge fk E P b) (he_outs E b) h) (\<lambda>h.
       case he_bypass_source E b of
         None \<Rightarrow> Inr h
       | Some t \<Rightarrow> rbind (markBlock fk P t (h_out h) h) (\<lambda>h. rbind (tryAddToWorkList E t h) (\<lambda>(_, h). Inr h)))"

subsection \<open>Calls\<close>

record call_scan =
  cs_next :: "edge option"
  cs_enter :: bool
  cs_edges :: "edge list"

definition detectCalls_edge :: "hai_env \<Rightarrow> 'd hai \<Rightarrow> edge \<Rightarrow> call_scan \<Rightarrow> call_scan res" where
  "detectCalls_edge E h e cs =
     (if e_kind e = CALL
      then rbind (calledCFG (he_pg E) e) (\<lambda>c. rbind (deref c) (\<lambda>f.
        if he_dont_cfg E f then Inr cs
        else (let cs = cs\<lparr>cs_edges := cs_edges cs @ [e]\<rparr> in
              Inr (if h_edge h e \<noteq> None then cs\<lparr>cs_enter := False\<rparr>
                   else if cs_next cs = None then cs\<lparr>cs_next := Some e\<rparr> else cs))))
      else Inr cs)"

definition detectCalls :: "hai_env \<Rightarrow> 'd hai \<Rightarrow> block_id \<Rightarrow> call_scan res" where
  "detectCalls E h b = rfold (detectCalls_edge E h) (he_outs E b) \<lparr>cs_next = None, cs_enter = True, cs_edges = []\<rparr>"

subsection \<open>Input of a block\<close>

definition return_edge :: "'d hai_problem \<Rightarrow> edge \<Rightarrow> 'd hai \<Rightarrow> 'd hai res" where
  "return_edge P e h = rbind (deref (h_edge h e)) (\<lambda>d. rbind (hp_lub P (h_in h) d) (\<lambda>i.
     Inr (unmarkEdge e (h\<lparr>h_in := i\<rparr>))))"

definition unmark_back :: "hai_env \<Rightarrow> block_id \<Rightarrow> edge \<Rightarrow> 'd hai \<Rightarrow> 'd hai res" where
  "unmark_back E b e h =
     (if e_kind e = CALL then Inr h
      else rbind (he_dominates E (fst b) (snd b) (e_src e)) (\<lambda>dm. Inr (if dm then unmarkEdge e h else h)))"

definition unmark_entry :: "hai_env \<Rightarrow> block_id \<Rightarrow> edge \<Rightarrow> 'd hai \<Rightarrow> 'd hai res" where
  "unmark_entry E b e h =
     (if e_kind e = CALL \<or> he_skip E b e then Inr h
      else rbind (he_dominates E (fst b) (snd b) (e_src e)) (\<lambda>dm. Inr (if \<not> dm then unmarkEdge e h else h)))"

text \<open>The result tells whether the fixpoint of the loop is reached.\<close>

definition input_header :: "fp_kind \<Rightarrow> hai_env \<Rightarrow> 'd hai_problem \<Rightarrow> block_id \<Rightarrow> 'd hai \<Rightarrow> (bool \<times> 'd hai) res" where
  "input_header fk E P b h =
     (let firstTime = h_first h b;
          h = (if firstTime then h\<lparr>h_fp := (h_fp h)(b \<mapsto> fp_newState P)\<rparr> else h)
      in rbind (deref (h_fp h b)) (\<lambda>fs. rbind (fixPoint fk E P h b firstTime fs) (\<lambda>(i, fixed, fs).
           asserting (firstTime \<longrightarrow> \<not> fixed)
             (let h = h\<lparr>h_in := i, h_fp := (h_fp h)(b \<mapsto> fs), h_first := (h_first h)(b := False),
                        h_fixed := (h_fixed h)(b := fixed)\<rparr>
              in rbind (rfold (unmark_back E b) (he_ins E b) h) (\<lambda>h.
                   if fixed
                   then rbind (rfold (unmark_entry E b) (he_ins E b)
                          (h\<lparr>h_fp := (h_fp h)(b := None), h_first := (h_first h)(b := True)\<rparr>)) (\<lambda>h.
                        Inr (True, if he_bypass_target E b then unmarkBlock b h else h))
                   else Inr (False, h))))))"

definition input_edge :: "fp_kind \<Rightarrow> hai_env \<Rightarrow> 'd hai_problem \<Rightarrow> block_id \<Rightarrow> bool \<Rightarrow> edge \<Rightarrow> 'd hai \<Rightarrow> 'd hai res" where
  "input_edge fk E P b again e h = asserting (e_kind e \<noteq> CALL)
     (if he_skip E b e then Inr h
      else (case h_edge h e of
          None \<Rightarrow> Inl AssertFail
        | Some d \<Rightarrow> rbind (fp_updateEdge fk P e d) (\<lambda>d. rbind (hp_lub P (h_in h) d) (\<lambda>i.
            let h = h\<lparr>h_edge := (h_edge h)(e \<mapsto> d), h_in := i\<rparr>
            in Inr (if \<not> again then unmarkEdge e h else h)))))"

definition input_simple :: "fp_kind \<Rightarrow> hai_env \<Rightarrow> 'd hai_problem \<Rightarrow> block_id \<Rightarrow> bool \<Rightarrow> 'd hai \<Rightarrow> 'd hai res" where
  "input_simple fk E P b again h =
     rbind (rfold (input_edge fk E P b again) (he_ins E b) h) (\<lambda>h.
       if he_bypass_target E b
       then (case h_block h b of
           None \<Rightarrow> Inl AssertFail
         | Some d \<Rightarrow> rbind (hp_lub P (h_in h) d) (\<lambda>i. Inr (unmarkBlock b (h\<lparr>h_in := i\<rparr>))))
       else Inr h)"

definition inputProcessing :: "fp_kind \<Rightarrow> hai_env \<Rightarrow> 'd hai_problem \<Rightarrow> 'd \<Rightarrow> block_id \<Rightarrow> call_scan \<Rightarrow> 'd hai \<Rightarrow> (bool \<times> 'd hai) res" where
  "inputProcessing fk E P entdom b cs h =
     (let h = h\<lparr>h_in := hp_bottom P\<rparr> in
      if h_main h then Inr (False, h\<lparr>h_in := entdom, h_main := False\<rparr>)
      else if isEntry (cfg_of (he_pg E) (fst b)) (snd b)
      then rbind (deref (h_block h b)) (\<lambda>d. Inr (False, unmarkBlock b (h\<lparr>h_in := d\<rparr>)))
      else if cs_next cs = None \<and> cs_edges cs \<noteq> []
      then rbind (rfold (return_edge P) (cs_edges cs) h) (\<lambda>h. Inr (False, fold unmarkEdge (he_ins E b) h))
      else if he_header E b then input_header fk E P b h
      else rbind (input_simple fk E P b (cs_next cs \<noteq> None) h) (\<lambda>h. Inr (False, h)))"

subsection \<open>Output of a block\<close>

definition output_exit_edge :: "hai_env \<Rightarrow> 'd hai_problem \<Rightarrow> block_id \<Rightarrow> edge \<Rightarrow> nat list \<times> 'd hai \<Rightarrow> (nat list \<times> 'd hai) res" where
  "output_exit_edge E P b e = (\<lambda>(added, h).
     rbind (if e_tgt e \<in> set added then Inr (added, h)
            else rbind (tryAddToWorkList E (fst b, e_tgt e) h) (\<lambda>(ok, h). Inr (if ok then added @ [e_tgt e] else added, h)))
       (\<lambda>(added, h). rbind (deref (h_edge h e)) (\<lambda>d. rbind (hp_leaveContext P b CTX_LOOP d) (\<lambda>d.
          Inr (added, h\<lparr>h_edge := (h_edge h)(e \<mapsto> d)\<rparr>)))))"

definition output_exits :: "hai_env \<Rightarrow> 'd hai_problem \<Rightarrow> block_id \<Rightarrow> 'd hai \<Rightarrow> 'd hai res" where
  "output_exits E P b h = (case he_exit_list E b of
     None \<Rightarrow> Inr h
   | Some es \<Rightarrow> rbind (rfold (output_exit_edge E P b) es ([], h)) (\<lambda>(_, h). Inr h))"

definition output_return :: "fp_kind \<Rightarrow> hai_env \<Rightarrow> 'd hai_problem \<Rightarrow> block_id \<Rightarrow> 'd hai \<Rightarrow> 'd hai res" where
  "output_return fk E P b h =
     rbind (hp_update P b (h_in h)) (\<lambda>out.
       let (src, edge) = last (h_calls h);
           h = h\<lparr>h_out := out, h_calls := butlast (h_calls h), h_cur := last (h_cfgs h), h_cfgs := butlast (h_cfgs h)\<rparr>
       in rbind (hp_leaveContext P (h_cur h, 0) CTX_FUNC out) (\<lambda>out.
          rbind (markEdge fk P edge out (h\<lparr>h_out := out\<rparr>)) (\<lambda>h. Inr (hai_push src h))))"

definition mark_call :: "fp_kind \<Rightarrow> hai_env \<Rightarrow> 'd hai_problem \<Rightarrow> edge \<Rightarrow> 'd hai \<Rightarrow> 'd hai res" where
  "mark_call fk E P e h = rbind (calledCFG (he_pg E) e) (\<lambda>c. rbind (deref c) (\<lambda>f. markBlock fk P (f, 0) (h_out h) h))"

definition output_call :: "fp_kind \<Rightarrow> hai_env \<Rightarrow> 'd hai_problem \<Rightarrow> block_id \<Rightarrow> call_scan \<Rightarrow> edge \<Rightarrow> 'd hai \<Rightarrow> 'd hai res" where
  "output_call fk E P b cs next h =
     rbind (if cs_enter cs
            then rbind (hp_update P b (h_in h)) (\<lambda>out. rfold (mark_call fk E P) (cs_edges cs) (h\<lparr>h_out := out\<rparr>))
            else Inr h) (\<lambda>h.
     rbind (calledCFG (he_pg E) next) (\<lambda>c. rbind (deref c) (\<lambda>f.
       let h = h\<lparr>h_calls := h_calls h @ [(b, next)], h_cfgs := h_cfgs h @ [h_cur h], h_cur := f\<rparr>;
           h = hai_push (f, 0) h
       in rbind (hp_enterContext P (f, 0) CTX_FUNC (h_out h)) (\<lambda>out. Inr (h\<lparr>h_out := out\<rparr>)))))"

text \<open>\<^verbatim>\<open>blockInterpreted\<close> of the listeners joins the states into their tables.\<close>

definition blockInterpreted :: "hai_env \<Rightarrow> 'd hai_problem \<Rightarrow> block_id \<Rightarrow> 'd hai \<Rightarrow> 'd hai res" where
  "blockInterpreted E P b h =
     (let x = (h_cur h, snd b) in
      rbind (hp_lub P (h_results h x) (h_in h)) (\<lambda>r.
      rbind (if he_store_out E then hp_lub P (h_results_out h x) (h_out h) else Inr (h_results_out h x)) (\<lambda>ro.
        Inr (h\<lparr>h_results := (h_results h)(x := r), h_results_out := (h_results_out h)(x := ro)\<rparr>))))"

definition outputProcessing :: "fp_kind \<Rightarrow> hai_env \<Rightarrow> 'd hai_problem \<Rightarrow> block_id \<Rightarrow> call_scan \<Rightarrow> bool \<Rightarrow> 'd hai \<Rightarrow> 'd hai res" where
  "outputProcessing fk E P b cs fixed h =
     (if he_header E b \<and> fixed then output_exits E P b h
      else if isExit (cfg_of (he_pg E) (fst b)) (snd b) \<and> h_calls h \<noteq> [] then output_return fk E P b h
      else (case cs_next cs of
          Some next \<Rightarrow> output_call fk E P b cs next h
        | None \<Rightarrow>
            if cs_edges cs \<noteq> [] then addSuccessors fk E P b (h\<lparr>h_out := h_in h\<rparr>)
            else rbind (hp_update P b (h_in h)) (\<lambda>out. rbind (blockInterpreted E P b (h\<lparr>h_out := out\<rparr>)) (addSuccessors fk E P b))))"

subsection \<open>Solving\<close>

definition hai_step :: "fp_kind \<Rightarrow> hai_env \<Rightarrow> 'd hai_problem \<Rightarrow> 'd \<Rightarrow> 'd hai \<Rightarrow> 'd hai res" where
  "hai_step fk E P entdom h =
     (let b = last (h_work h); h = h\<lparr>h_work := butlast (h_work h)\<rparr> in
      rbind (detectCalls E h b) (\<lambda>cs. rbind (inputProcessing fk E P entdom b cs h) (\<lambda>(fixed, h).
        outputProcessing fk E P b cs fixed h)))"

partial_function (option) hai_loop :: "fp_kind \<Rightarrow> hai_env \<Rightarrow> 'd hai_problem \<Rightarrow> 'd \<Rightarrow> 'd hai \<Rightarrow> 'd hai res option" where
  "hai_loop fk E P entdom h =
     (if h_work h = [] then Some (Inr h)
      else (case hai_step fk E P entdom h of
          Inl e \<Rightarrow> Some (Inl e)
        | Inr h' \<Rightarrow> hai_loop fk E P entdom h'))"

declare hai_loop.simps [code]

text \<open>Constructors of the engine and of a listener.\<close>

definition hai_new :: "'d hai_problem \<Rightarrow> 'd hai" where
  "hai_new P = \<lparr>h_edge = (\<lambda>_. None), h_block = (\<lambda>_. None), h_fp = (\<lambda>_. None), h_first = (\<lambda>_. True), h_fixed = (\<lambda>_. False),
     h_work = [], h_calls = [], h_cfgs = [], h_cur = 0, h_in = hp_bottom P, h_out = hp_bottom P, h_main = False,
     h_results = (\<lambda>_. hp_bottom P), h_results_out = (\<lambda>_. hp_bottom P)\<rparr>"

definition hai_solve :: "fp_kind \<Rightarrow> hai_env \<Rightarrow> 'd hai_problem \<Rightarrow> nat \<Rightarrow> 'd option \<Rightarrow> nat option \<Rightarrow> 'd hai \<Rightarrow> 'd hai res option" where
  "hai_solve fk E P main entdom start h =
     (let entdom = (case entdom of None \<Rightarrow> hp_entry P | Some d \<Rightarrow> d);
          start = (case start of None \<Rightarrow> 0 | Some b \<Rightarrow> b)
      in hai_loop fk E P entdom (h\<lparr>h_work := [(main, start)], h_calls := [], h_main := True, h_cur := main\<rparr>))"

end
