(* ===== verification/Hai_Marks.thy ===== *)
theory Hai_Marks
  imports Hai_Control Hai_Engine
begin

text \<open>
  What \<^verbatim>\<open>HalfAbsInt\<close> does to marks and work list on one reducible CFG, without calls, bypasses and
  excluded blocks: its tests are those of the locale \<open>loop_nest\<close>, and each successor that becomes
  ready is pushed once.
\<close>

subsection \<open>Environment\<close>

definition hai_on :: "hai_env \<Rightarrow> nat \<Rightarrow> nested \<Rightarrow> bool" where
  "hai_on E k N \<longleftrightarrow> cfg_of (he_pg E) k = n_cfg N \<and> he_doms E k = n_doms N \<and> he_loops E k = n_loops N \<and>
     (\<forall>b. \<not> he_dont_bb E b \<and> he_bypass_source E b = None \<and> \<not> he_bypass_target E b)"

abbreviation n_edges :: "nested \<Rightarrow> edge set" where
  "n_edges N \<equiv> all_edges (n_cfg N)"

lemma env_plain:
  assumes "hai_on E k N"
  shows "\<not> he_dont_bb E b" "he_bypass_source E b = None" "\<not> he_bypass_target E b" "\<not> he_skip E b e"
  using assms unfolding hai_on_def he_skip_def by blast+

lemma env_edge:
  assumes "hai_on E k N" "e \<in> n_edges N"
  shows "e_kind e \<noteq> CALL" "e_src e \<in> live (n_cfg N)" "e_tgt e \<in> live (n_cfg N)"
    "he_dominates E k (e_tgt e) (e_src e) = Inr (back_edge (n_cfg N) e)" "he_exit E k e = li_exit (n_loops N) e"
proof -
  note ng = nested_graph [of N] and gd = nest_graphD [OF nested_graph [of N]]
  show k: "e_kind e \<noteq> CALL" by (rule gd(6) [OF assms(2)])
  show l: "e_src e \<in> live (n_cfg N)" "e_tgt e \<in> live (n_cfg N)" by (rule live_edge [OF ng assms(2)])+
  have rd: "dom_table (n_cfg N) (di_reverse (n_doms N))" using gd(1) by (simp add: loop_input_def)
  show "he_dominates E k (e_tgt e) (e_src e) = Inr (back_edge (n_cfg N) e)"
    using dominates_reachable [OF rd] l assms(1) k by (simp add: he_dominates_def hai_on_def live_def back_edge_def)
  show "he_exit E k e = li_exit (n_loops N) e" using assms(1) by (simp add: he_exit_def hai_on_def)
qed

lemma in_all_edges: "e \<in> set (outs g b) \<Longrightarrow> b < countBB g \<Longrightarrow> e \<in> all_edges g"
  by (auto simp: all_edges_def)

lemma env_lists:
  assumes "hai_on E k N" "b \<in> live (n_cfg N)"
  shows "set (he_ins E (k, b)) = nest.eins N b" "distinct (he_ins E (k, b))"
    "set (he_outs E (k, b)) = nest.eouts N b" "distinct (he_outs E (k, b))"
proof -
  have wf: "wf_edges (n_cfg N)" by (rule nest_graphD(3) [OF nested_graph])
  have b: "b < countBB (n_cfg N)" using assms(2) by (simp add: live_def)
  have eq: "he_ins E (k, b) = ins (n_cfg N) b" "he_outs E (k, b) = outs (n_cfg N) b"
    using assms(1) by (simp_all add: he_ins_def he_outs_def hai_on_def)
  show "distinct (he_ins E (k, b))" "distinct (he_outs E (k, b))" using wf b unfolding eq wf_edges_def by blast+
  have nc: "e_kind e \<noteq> CALL" if "e \<in> n_edges N" for e by (rule nest_graphD(6) [OF nested_graph that])
  show "set (he_ins E (k, b)) = nest.eins N b"
  proof (intro equalityI subsetI)
    fix e assume "e \<in> set (he_ins E (k, b))"
    then have "e_tgt e = b" "e_src e < countBB (n_cfg N)" "e \<in> set (outs (n_cfg N) (e_src e))"
      using wf b unfolding eq wf_edges_def by blast+
    then show "e \<in> nest.eins N b" using in_all_edges by (auto simp: nest.eins_def)
  next
    fix e assume "e \<in> nest.eins N b"
    then have e: "e \<in> n_edges N" "e_tgt e = b" by (auto simp: nest.eins_def)
    then show "e \<in> set (he_ins E (k, b))" using all_edges_succs(5) [OF wf e(1) nc [OF e(1)]] eq by simp
  qed
  show "set (he_outs E (k, b)) = nest.eouts N b"
  proof (intro equalityI subsetI)
    fix e assume "e \<in> set (he_outs E (k, b))"
    then show "e \<in> nest.eouts N b" using wf_edges_out [OF wf b] b in_all_edges unfolding eq by (auto simp: nest.eouts_def)
  next
    fix e assume "e \<in> nest.eouts N b"
    then have e: "e \<in> n_edges N" "e_src e = b" by (auto simp: nest.eouts_def)
    then show "e \<in> set (he_outs E (k, b))" using all_edges_succs(4) [OF wf e(1) nc [OF e(1)]] eq by simp
  qed
qed

lemma env_header:
  assumes "hai_on E k N" "b \<in> live (n_cfg N)"
  shows "he_header E (k, b) \<longleftrightarrow> loop_header (n_cfg N) b"
  using assms nest_graphD(1) [OF nested_graph [of N]] by (simp add: he_header_def hai_on_def live_def loop_input_def)

lemma env_entry:
  assumes "hai_on E k N" "b \<in> live (n_cfg N)"
  shows "isEntry (cfg_of (he_pg E) k) b \<longleftrightarrow> b = 0"
  using assms nest_graphD(2) [OF nested_graph [of N]] by (simp add: hai_on_def live_def wf_cfg_def)

lemma env_exits:
  assumes "hai_on E k N"
  shows "(case he_exit_list E (k, b) of None \<Rightarrow> {} | Some es \<Rightarrow> set es) = {e \<in> n_edges N. li_exit (n_loops N) e = Some b}"
proof -
  note nl = nest_loops [OF nested_graph [of N]]
  have "he_exit_list E (k, b) = li_list (n_loops N) b" using assms by (simp add: he_exit_list_def hai_on_def)
  then show ?thesis using nl(3) [of b] nl(2) by auto
qed

lemma env_calls:
  assumes "hai_on E k N" "b \<in> live (n_cfg N)"
  shows "detectCalls E h (k, b) = Inr \<lparr>cs_next = None, cs_enter = True, cs_edges = []\<rparr>"
proof -
  have "rfold (detectCalls_edge E h) es cs = Inr cs" if "\<And>e. e \<in> set es \<Longrightarrow> e_kind e \<noteq> CALL" for es cs
    using that by (induction es) (simp_all add: detectCalls_edge_def)
  moreover have "e_kind e \<noteq> CALL" if "e \<in> set (he_outs E (k, b))" for e
    using that env_edge(1) [OF assms(1)] env_lists(3) [OF assms] by (auto simp: nest.eouts_def)
  ultimately show ?thesis by (simp add: detectCalls_def)
qed

subsection \<open>Marks and work list\<close>

definition h_marked :: "nested \<Rightarrow> 'd hai \<Rightarrow> edge set" where
  "h_marked N h = {e \<in> n_edges N. h_edge h e \<noteq> None}"

definition h_fix :: "nat \<Rightarrow> 'd hai \<Rightarrow> nat \<Rightarrow> bool" where
  "h_fix k h x = h_fixed h (k, x)"

definition h_active :: "nested \<Rightarrow> nat \<Rightarrow> 'd hai \<Rightarrow> nat set" where
  "h_active N k h = {x \<in> live (n_cfg N). loop_header (n_cfg N) x \<and> \<not> h_first h (k, x)}"

lemma back_target_active:
  assumes "e \<in> n_edges N" "back_edge (n_cfg N) e"
  shows "e_tgt e \<notin> h_active N k h \<longleftrightarrow> h_first h (k, e_tgt e)"
  using nest.back_hdr [OF assms] nest.edge_V [OF assms(1)] by (simp add: h_active_def)

lemma isEdgeDone_eval:
  assumes "hai_on E k N" "e \<in> n_edges N"
  shows "isEdgeDone E h k e = Inr (nest.edone N (h_marked N h) (h_fix k h) (h_active N k h) e)"
proof -
  note ee = env_edge [OF assms]
  have "(case he_exit E k e of None \<Rightarrow> True | Some x \<Rightarrow> h_fixed h (k, x)) \<longleftrightarrow>
      (\<forall>x. li_exit (n_loops N) e = Some x \<longrightarrow> h_fix k h x)"
    by (cases "li_exit (n_loops N) e") (simp_all add: ee(5) h_fix_def)
  then show ?thesis using assms(2) back_target_active [OF assms(2), of k h]
    by (auto simp: isEdgeDone_def ee(4) nest.edone_def nest.usable_def h_marked_def)
qed

lemma tryAdd_eval:
  assumes "hai_on E k N" "t \<in> live (n_cfg N)"
  shows "tryAddToWorkList E (k, t) h =
    (let td = nest.tdone N (h_marked N h) (h_fix k h) (h_active N k h) t in Inr (td, if td then hai_push (k, t) h else h))"
proof -
  let ?ed = "nest.edone N (h_marked N h) (h_fix k h) (h_active N k h)"
  have "rfold (tryAdd_edge E h (k, t)) es a = Inr (a \<and> (\<forall>e \<in> set es. ?ed e))" if "set es \<subseteq> n_edges N" for es a
    using that
  proof (induction es arbitrary: a)
    case (Cons e es)
    then have e: "e \<in> n_edges N" by simp
    show ?case
      using Cons isEdgeDone_eval [OF assms(1) e, of h] env_edge(1) [OF assms(1) e] env_plain(4) [OF assms(1)]
      by (simp add: tryAdd_edge_def)
  qed simp
  moreover have "set (he_ins E (k, t)) \<subseteq> n_edges N" using env_lists(1) [OF assms] by (auto simp: nest.eins_def)
  moreover have "(\<forall>e \<in> set (he_ins E (k, t)). ?ed e) \<longleftrightarrow> nest.tdone N (h_marked N h) (h_fix k h) (h_active N k h) t"
    unfolding env_lists(1) [OF assms] by (auto simp: nest.tdone_def nest.eins_def)
  ultimately show ?thesis by (simp add: tryAddToWorkList_def env_plain(3) [OF assms(1)] Let_def)
qed

lemma edone_mono:
  assumes "nest.edone N M fx A e" "M \<subseteq> M'"
  shows "nest.edone N M' fx A e"
  using assms by (auto simp: nest.edone_def nest.usable_def)

lemma edone_insert: "nest.edone N (insert e M) fx A f \<Longrightarrow> f \<noteq> e \<Longrightarrow> nest.edone N M fx A f"
  by (auto simp: nest.edone_def nest.usable_def)

lemma h_marked_upd: "e \<in> n_edges N \<Longrightarrow> h_marked N (h\<lparr>h_edge := (h_edge h)(e \<mapsto> d)\<rparr>) = insert e (h_marked N h)"
  by (auto simp: h_marked_def)

text \<open>Propagation to the successors: every successor that becomes ready is pushed once.\<close>

lemma addSuccessors_list:
  assumes on: "hai_on E k N" and es: "set es \<subseteq> n_edges N" "distinct es"
    and mk: "\<And>e. e \<in> set es \<Longrightarrow> markState fk P (h_edge h e) (h_out h) = Inr (m e)"
    and nd: "\<And>e. e \<in> set es \<Longrightarrow> \<not> nest.edone N (h_marked N h) (h_fix k h) (h_active N k h) e"
    and W: "h_work h = map (Pair k) W" "distinct W"
    and new: "\<And>e. e \<in> set es \<Longrightarrow> e_tgt e \<in> set W \<Longrightarrow>
      \<not> nest.tdone N (h_marked N h \<union> set es) (h_fix k h) (h_active N k h) (e_tgt e)"
  shows "\<exists>W'. rfold (addSuccessors_edge fk E P (k, b)) es h =
      Inr (h\<lparr>h_edge := (\<lambda>e. if e \<in> set es then Some (m e) else h_edge h e), h_work := map (Pair k) W'\<rparr>) \<and>
    distinct W' \<and> set W' = set W \<union> {e_tgt e | e. e \<in> set es \<and>
      nest.tdone N (h_marked N h \<union> set es) (h_fix k h) (h_active N k h) (e_tgt e)}"
  using es mk nd W new
proof (induction es arbitrary: h W)
  case Nil
  then show ?case by (intro exI [of _ W]) simp
next
  case (Cons e es)
  let ?t = "e_tgt e" and ?fx = "h_fix k h" and ?A = "h_active N k h" and ?M = "h_marked N h"
  have e: "e \<in> n_edges N" using Cons.prems by simp
  let ?h1 = "h\<lparr>h_edge := (h_edge h)(e \<mapsto> m e)\<rparr>"
  have M1: "h_marked N ?h1 = insert e ?M" by (rule h_marked_upd [OF e])
  have same: "h_fix k ?h1 = ?fx" "h_active N k ?h1 = ?A" by (auto simp: h_fix_def h_active_def)
  let ?td = "nest.tdone N (insert e ?M) ?fx ?A ?t"
  let ?h2 = "if ?td then hai_push (k, ?t) ?h1 else ?h1" and ?W2 = "if ?td then W @ [?t] else W"
  have step: "addSuccessors_edge fk E P (k, b) e h = Inr ?h2"
    using Cons.prems(3) [of e] env_edge(1) [OF on e] env_plain [OF on] tryAdd_eval [OF on env_edge(3) [OF on e], of ?h1] M1 same
    by (simp add: addSuccessors_edge_def markEdge_def Let_def)
  have h2: "h_edge ?h2 = (h_edge h)(e \<mapsto> m e)" "h_out ?h2 = h_out h" "h_marked N ?h2 = insert e ?M" "h_fix k ?h2 = ?fx"
    "h_active N k ?h2 = ?A" "h_work ?h2 = map (Pair k) ?W2"
    using M1 same Cons.prems(5) by (auto simp: hai_push_def vec_push_def h_marked_def h_fix_def h_active_def)
  have e_new: "e \<notin> set es" using Cons.prems(2) by simp
  have tW: "?t \<notin> set W" if ?td
  proof
    assume "?t \<in> set W"
    moreover have "nest.tdone N (?M \<union> set (e # es)) ?fx ?A ?t"
      using that edone_mono [of N "insert e ?M" ?fx ?A _ "?M \<union> set (e # es)"] by (auto simp: nest.tdone_def)
    ultimately show False using Cons.prems(7) [of e] by simp
  qed
  have nd2: "\<not> nest.edone N (insert e ?M) ?fx ?A f" if "f \<in> set es" for f
    using Cons.prems(4) [of f] edone_insert [of N e ?M ?fx ?A f] that e_new by auto
  have "\<exists>W'. rfold (addSuccessors_edge fk E P (k, b)) es ?h2 =
      Inr (?h2\<lparr>h_edge := (\<lambda>f. if f \<in> set es then Some (m f) else h_edge ?h2 f), h_work := map (Pair k) W'\<rparr>) \<and>
    distinct W' \<and> set W' = set ?W2 \<union> {e_tgt f | f. f \<in> set es \<and>
      nest.tdone N (h_marked N ?h2 \<union> set es) (h_fix k ?h2) (h_active N k ?h2) (e_tgt f)}"
  proof (rule Cons.IH)
    show "set es \<subseteq> n_edges N" "distinct es" using Cons.prems by auto
    show "markState fk P (h_edge ?h2 f) (h_out ?h2) = Inr (m f)" if "f \<in> set es" for f
      using Cons.prems(3) [of f] that e_new unfolding h2 by auto
    show "\<not> nest.edone N (h_marked N ?h2) (h_fix k ?h2) (h_active N k ?h2) f" if "f \<in> set es" for f
      unfolding h2 by (rule nd2 [OF that])
    show "h_work ?h2 = map (Pair k) ?W2" by (rule h2(6))
    show "distinct ?W2" using Cons.prems(6) tW by simp
    show "\<not> nest.tdone N (h_marked N ?h2 \<union> set es) (h_fix k ?h2) (h_active N k ?h2) (e_tgt f)"
      if f: "f \<in> set es" "e_tgt f \<in> set ?W2" for f
    proof (cases "e_tgt f \<in> set W")
      case True
      then show ?thesis using Cons.prems(7) [of f] f(1) unfolding h2 by simp
    next
      case False
      then have t: ?td "e_tgt f = ?t" using f(2) by (auto split: if_splits)
      have "f \<in> n_edges N" using Cons.prems(1) f(1) by auto
      then have False using t nd2 [OF f(1)] by (auto simp: nest.tdone_def)
      then show ?thesis ..
    qed
  qed
  then obtain W' where W': "rfold (addSuccessors_edge fk E P (k, b)) es ?h2 =
      Inr (?h2\<lparr>h_edge := (\<lambda>f. if f \<in> set es then Some (m f) else h_edge ?h2 f), h_work := map (Pair k) W'\<rparr>)"
    "distinct W'" "set W' = set ?W2 \<union> {e_tgt f | f. f \<in> set es \<and> nest.tdone N (insert e ?M \<union> set es) ?fx ?A (e_tgt f)}"
    unfolding h2 by blast
  have st: "?h2\<lparr>h_edge := (\<lambda>f. if f \<in> set es then Some (m f) else h_edge ?h2 f), h_work := map (Pair k) W'\<rparr> =
      h\<lparr>h_edge := (\<lambda>f. if f \<in> set (e # es) then Some (m f) else h_edge h f), h_work := map (Pair k) W'\<rparr>"
    using e_new by (auto simp: hai_push_def fun_eq_iff)
  have fin: "nest.tdone N (?M \<union> set (e # es)) ?fx ?A ?t \<longleftrightarrow> ?td \<or>
      (\<exists>f \<in> set es. e_tgt f = ?t \<and> nest.tdone N (?M \<union> set (e # es)) ?fx ?A ?t)"
  proof
    assume td: "nest.tdone N (?M \<union> set (e # es)) ?fx ?A ?t"
    show "?td \<or> (\<exists>f \<in> set es. e_tgt f = ?t \<and> nest.tdone N (?M \<union> set (e # es)) ?fx ?A ?t)"
    proof (cases "\<exists>f \<in> set es. e_tgt f = ?t")
      case False
      have "nest.edone N (insert e ?M) ?fx ?A f" if "f \<in> n_edges N" "e_tgt f = ?t" for f
        using td that False by (auto simp: nest.tdone_def nest.edone_def nest.usable_def)
      then show ?thesis by (simp add: nest.tdone_def)
    qed (use td in blast)
  next
    assume "?td \<or> (\<exists>f \<in> set es. e_tgt f = ?t \<and> nest.tdone N (?M \<union> set (e # es)) ?fx ?A ?t)"
    then show "nest.tdone N (?M \<union> set (e # es)) ?fx ?A ?t"
      using edone_mono [of N "insert e ?M" ?fx ?A _ "?M \<union> set (e # es)"] by (auto simp: nest.tdone_def)
  qed
  have un: "insert e ?M \<union> set es = ?M \<union> set (e # es)" by auto
  have "set W' = set W \<union> {e_tgt f | f. f \<in> set (e # es) \<and> nest.tdone N (?M \<union> set (e # es)) ?fx ?A (e_tgt f)}"
    unfolding W'(3) un using fin by (cases ?td; auto; metis)
  then show ?case using step W'(1,2) st by (intro exI [of _ W']) simp
qed

text \<open>Exits of a fixed loop: the exit edges leave the context of the loop and every target that
  becomes ready is pushed once.\<close>

lemma exits_distinct:
  assumes "hai_on E k N" "he_exit_list E (k, b) = Some es"
  shows "distinct es"
proof -
  note gd = nest_graphD [OF nested_graph [of N]]
  let ?g = "n_cfg N" and ?li = "n_loops N"
  have es: "li_list ?li b = Some es" using assms by (simp add: he_exit_list_def hai_on_def)
  obtain li where l: "lib_processCFG ?g (n_doms N) = Some (Inr li)"
      "li_list li = (\<lambda>h. let l = filter (\<lambda>e. li_exit li e = Some h) (edge_list ?g) in if l = [] then None else Some l)"
    using lib_processCFG_result [OF gd(1)] by blast
  have li: "li = ?li" using gd(4) l(1) by simp
  have "li_list ?li b = (let l = filter (\<lambda>e. li_exit ?li e = Some b) (edge_list ?g) in if l = [] then None else Some l)"
    using fun_cong [OF l(2), of b] unfolding li .
  then have "es = filter (\<lambda>e. li_exit ?li e = Some b) (edge_list ?g)" unfolding es Let_def by (metis option.distinct(1) option.inject)
  moreover have "distinct (concat (map (outs ?g) bs))" if "distinct bs" "set bs \<subseteq> {..<countBB ?g}" for bs
    using that
  proof (induction bs)
    case (Cons a bs)
    have out: "distinct (outs ?g x) \<and> (\<forall>e \<in> set (outs ?g x). e_src e = x)" if "x < countBB ?g" for x
      using gd(3) that unfolding wf_edges_def by blast
    have "set (outs ?g a) \<inter> set (outs ?g x) = {}" if "x \<in> set bs" for x
    proof -
      have "x < countBB ?g" "a < countBB ?g" "x \<noteq> a" using that Cons.prems by auto
      then show ?thesis using out [of x] out [of a] by (metis disjoint_iff)
    qed
    then show ?case using Cons out [of a] by auto
  qed simp
  then have "distinct (edge_list ?g)" by (simp add: edge_list_def bb_iter_def lessThan_atLeast0)
  ultimately show ?thesis by simp
qed

lemma output_exits_list:
  assumes on: "hai_on E k N" and es: "set es \<subseteq> n_edges N" "distinct es"
    and mk: "\<And>e. e \<in> set es \<Longrightarrow> \<exists>d. h_edge h e = Some d \<and> hp_leaveContext P (k, b) CTX_LOOP d = Inr (m e)"
    and W: "h_work h = map (Pair k) W" "distinct W"
    and old: "set added \<subseteq> set W"
      "\<And>e. e \<in> set es \<Longrightarrow> e_tgt e \<in> set W \<Longrightarrow> e_tgt e \<notin> set added \<Longrightarrow>
        \<not> nest.tdone N (h_marked N h) (h_fix k h) (h_active N k h) (e_tgt e)"
  shows "\<exists>W' added'. rfold (output_exit_edge E P (k, b)) es (added, h) =
      Inr (added', h\<lparr>h_edge := (\<lambda>e. if e \<in> set es then Some (m e) else h_edge h e), h_work := map (Pair k) W'\<rparr>) \<and>
    distinct W' \<and> set W' = set W \<union> {e_tgt e | e. e \<in> set es \<and> e_tgt e \<notin> set added \<and>
      nest.tdone N (h_marked N h) (h_fix k h) (h_active N k h) (e_tgt e)}"
  using es mk W old
proof (induction es arbitrary: h W added)
  case Nil
  then show ?case by (intro exI [of _ W] exI [of _ added]) simp
next
  case (Cons e es)
  let ?t = "e_tgt e" and ?fx = "h_fix k h" and ?A = "h_active N k h" and ?M = "h_marked N h"
  have e: "e \<in> n_edges N" using Cons.prems by simp
  obtain d where d: "h_edge h e = Some d" "hp_leaveContext P (k, b) CTX_LOOP d = Inr (m e)" using Cons.prems(3) [of e] by auto
  let ?T = "nest.tdone N ?M ?fx ?A"
  let ?new = "?t \<notin> set added \<and> ?T ?t"
  let ?W2 = "if ?new then W @ [?t] else W" and ?ad = "if ?new then added @ [?t] else added"
  let ?h2 = "h\<lparr>h_edge := (h_edge h)(e \<mapsto> m e), h_work := map (Pair k) ?W2\<rparr>"
  have step: "output_exit_edge E P (k, b) e (added, h) = Inr (?ad, ?h2)"
  proof (cases ?new)
    case True
    then show ?thesis
      using d Cons.prems(4) tryAdd_eval [OF on env_edge(3) [OF on e], of h]
      by (simp add: output_exit_edge_def deref_def hai_push_def vec_push_def)
  next
    case False
    have "h\<lparr>h_edge := (h_edge h)(e \<mapsto> m e)\<rparr> = h\<lparr>h_edge := (h_edge h)(e \<mapsto> m e), h_work := map (Pair k) W\<rparr>"
      using Cons.prems(4) by simp
    then show ?thesis
      using False d tryAdd_eval [OF on env_edge(3) [OF on e], of h] by (auto simp: output_exit_edge_def deref_def)
  qed
  have h2: "h_marked N ?h2 = ?M" "h_fix k ?h2 = ?fx" "h_active N k ?h2 = ?A"
    using d(1) by (auto simp: h_marked_def h_fix_def h_active_def)
  have "\<exists>W' added'. rfold (output_exit_edge E P (k, b)) es (?ad, ?h2) =
      Inr (added', ?h2\<lparr>h_edge := (\<lambda>f. if f \<in> set es then Some (m f) else h_edge ?h2 f), h_work := map (Pair k) W'\<rparr>) \<and>
    distinct W' \<and> set W' = set ?W2 \<union> {e_tgt f | f. f \<in> set es \<and> e_tgt f \<notin> set ?ad \<and>
      nest.tdone N (h_marked N ?h2) (h_fix k ?h2) (h_active N k ?h2) (e_tgt f)}"
  proof (rule Cons.IH)
    show "set es \<subseteq> n_edges N" "distinct es" using Cons.prems by auto
    show "\<exists>d. h_edge ?h2 f = Some d \<and> hp_leaveContext P (k, b) CTX_LOOP d = Inr (m f)" if "f \<in> set es" for f
      using Cons.prems(2) Cons.prems(3) [of f] that by auto
    show "h_work ?h2 = map (Pair k) ?W2" by simp
    show "distinct ?W2" using Cons.prems(5) Cons.prems(7) [of e] by auto
    show "set ?ad \<subseteq> set ?W2" using Cons.prems(6) by auto
    show "\<not> nest.tdone N (h_marked N ?h2) (h_fix k ?h2) (h_active N k ?h2) (e_tgt f)"
      if "f \<in> set es" "e_tgt f \<in> set ?W2" "e_tgt f \<notin> set ?ad" for f
      unfolding h2 using Cons.prems(7) [of f] that by (auto split: if_splits)
  qed
  then obtain W' added' where W': "rfold (output_exit_edge E P (k, b)) es (?ad, ?h2) =
      Inr (added', ?h2\<lparr>h_edge := (\<lambda>f. if f \<in> set es then Some (m f) else h_edge ?h2 f), h_work := map (Pair k) W'\<rparr>)"
    "distinct W'" "set W' = set ?W2 \<union> {e_tgt f | f. f \<in> set es \<and> e_tgt f \<notin> set ?ad \<and> ?T (e_tgt f)}"
    unfolding h2 by blast
  have st: "?h2\<lparr>h_edge := (\<lambda>f. if f \<in> set es then Some (m f) else h_edge ?h2 f), h_work := map (Pair k) W'\<rparr> =
      h\<lparr>h_edge := (\<lambda>f. if f \<in> set (e # es) then Some (m f) else h_edge h f), h_work := map (Pair k) W'\<rparr>"
    using Cons.prems(2) by (auto simp: fun_eq_iff)
  have "set W' = set W \<union> {e_tgt f | f. f \<in> set (e # es) \<and> e_tgt f \<notin> set added \<and> ?T (e_tgt f)}"
    unfolding W'(3) by auto
  then show ?case using step W'(1,2) st by (intro exI [of _ W'] exI [of _ added']) simp
qed

end
