(* ===== verification/Hai_Sound.thy ===== *)
theory Hai_Sound
  imports Hai_Marks Abstract_Domain
begin

text \<open>
  Soundness of \<^verbatim>\<open>HalfAbsInt\<close> on one reducible CFG. The locale \<open>hai_domain\<close> extends the contract of
  a domain by what the engine asks of a problem: comparison, contexts of loops, and, for
  \<^verbatim>\<open>WideningFixPoint\<close>, widening and filtering along edges. \<open>hinv\<close> relates the state of the engine to
  the concrete states covered so far.
\<close>

subsection \<open>Main loop\<close>

lemma hai_loop_invariant:
  assumes run: "hai_loop fk E P ent h = Some r" and "I h"
    and step: "\<And>h. I h \<Longrightarrow> h_work h \<noteq> [] \<Longrightarrow> \<exists>h'. hai_step fk E P ent h = Inr h' \<and> I h'"
  shows "\<exists>h'. r = Inr h' \<and> I h' \<and> h_work h' = []"
proof -
  let ?Q = "\<lambda>((((fk', E'), P'), ent'), h) r. fk' = fk \<and> E' = E \<and> P' = P \<and> ent' = ent \<longrightarrow> I h \<longrightarrow>
    (\<exists>h'. r = Inr h' \<and> I h' \<and> h_work h' = [])"
  have "?Q ((((fk, E), P), ent), h) r"
  proof (rule hai_loop.raw_induct [OF _ run, of ?Q])
    fix f fk' E' P' ent' h r
    assume IH: "\<And>E P ent h b y. f E P ent h b = Some y \<Longrightarrow> ?Q ((((E, P), ent), h), b) y"
      and eq: "(if h_work h = [] then Some (Inr h) else case hai_step fk' E' P' ent' h of Inl e \<Rightarrow> Some (Inl e)
        | Inr h' \<Rightarrow> f fk' E' P' ent' h') = Some r"
    show "?Q ((((fk', E'), P'), ent'), h) r"
    proof (clarsimp)
      assume f: "fk' = fk" "E' = E" "P' = P" "ent' = ent" and inv: "I h"
      show "\<exists>h'. r = Inr h' \<and> I h' \<and> h_work h' = []"
      proof (cases "h_work h = []")
        case True
        then show ?thesis using eq inv by auto
      next
        case False
        obtain h1 where h1: "hai_step fk E P ent h = Inr h1" "I h1" using step [OF inv False] by blast
        then have "f fk E P ent h1 = Some r" using eq False f by simp
        from IH [OF this] h1(2) show ?thesis by simp
      qed
    qed
  qed
  then show ?thesis using assms(2) by simp
qed

lemma hai_loop_ends:
  assumes "I x h"
    and step: "\<And>x h. I x h \<Longrightarrow> h_work h \<noteq> [] \<Longrightarrow>
      \<exists>x' h'. hai_step fk E P ent h = Inr h' \<and> I x' h' \<and> (\<mu> x' h' :: nat) < \<mu> x h"
  shows "\<exists>h' x'. hai_loop fk E P ent h = Some (Inr h') \<and> I x' h' \<and> h_work h' = []"
  using assms(1)
proof (induction "\<mu> x h" arbitrary: x h rule: less_induct)
  case less
  show ?case
  proof (cases "h_work h = []")
    case True
    then show ?thesis using less.prems by (subst hai_loop.simps) auto
  next
    case False
    obtain x1 h1 where h1: "hai_step fk E P ent h = Inr h1" "I x1 h1" "\<mu> x1 h1 < \<mu> x h"
      using step [OF less.prems False] by blast
    have "hai_loop fk E P ent h = hai_loop fk E P ent h1" by (subst hai_loop.simps) (simp add: False h1(1))
    then show ?thesis using less.hyps [OF h1(3,2)] by simp
  qed
qed

subsection \<open>Problems\<close>

text \<open>
  \<open>exec\<close> is the effect of a block on a concrete state, \<open>pass\<close> tells whether a state may take an
  edge, \<open>cin\<close> and \<open>cout\<close> are the effects of entering and leaving a loop, for states that record
  the loops they are in.
\<close>

definition edge_leave :: "nested \<Rightarrow> (nat \<Rightarrow> 'c \<Rightarrow> 'c) \<Rightarrow> edge \<Rightarrow> 'c \<Rightarrow> 'c" where
  "edge_leave N cout e q = (case li_exit (n_loops N) e of None \<Rightarrow> q | Some x \<Rightarrow> cout x q)"

definition edge_enter :: "nested \<Rightarrow> (nat \<Rightarrow> 'c \<Rightarrow> 'c) \<Rightarrow> edge \<Rightarrow> 'c \<Rightarrow> 'c" where
  "edge_enter N cin e q = (if loop_header (n_cfg N) (e_tgt e) \<and> \<not> back_edge (n_cfg N) e then cin (e_tgt e) q else q)"

definition fp_state_ok :: "fp_kind \<Rightarrow> ('d \<Rightarrow> bool) \<Rightarrow> 'd fp_state \<Rightarrow> bool" where
  "fp_state_ok fk valid fs \<longleftrightarrow> valid (fs_header fs) \<and> valid (fs_first fs) \<and> (fk = First_Unrolling_FP \<longrightarrow> 0 < fs_iter fs)"

locale hai_domain = abs_domain valid gamma "hp_lub P" "\<lambda>b. hp_update P (k, b)" exec ok
  for P :: "'d hai_problem" and k :: nat and valid :: "'d \<Rightarrow> bool" and gamma :: "'d \<Rightarrow> 'c \<Rightarrow> bool"
    and exec :: "nat \<Rightarrow> 'c \<Rightarrow> 'c" and ok :: "nat \<Rightarrow> bool" +
  fixes fk :: fp_kind and pass :: "edge \<Rightarrow> 'c \<Rightarrow> bool" and cin cout :: "nat \<Rightarrow> 'c \<Rightarrow> 'c"
  assumes bottom_valid: "valid (hp_bottom P)"
    and equals_ok: "valid a \<Longrightarrow> valid b \<Longrightarrow>
      \<exists>r. hp_equals P a b = Inr r \<and> (r \<longrightarrow> (\<forall>q. gamma a q \<longrightarrow> gamma b q))"
    and neutral: "fk = Default_FP \<Longrightarrow> valid a \<Longrightarrow> hp_lub P (hp_bottom P) a = Inr c \<Longrightarrow> hp_equals P c a = Inr True"
    and enter_ok: "valid a \<Longrightarrow> \<exists>c. hp_enterContext P (k, h) CTX_LOOP a = Inr c \<and> valid c \<and>
      (\<forall>q. gamma a q \<longrightarrow> gamma c (cin h q))"
    and leave_ok: "valid a \<Longrightarrow> \<exists>c. hp_leaveContext P (k, h) CTX_LOOP a = Inr c \<and> valid c \<and>
      (\<forall>q. gamma a q \<longrightarrow> gamma c (cout h q))"
    and widening_ok: "fk = Widening_FP \<Longrightarrow> valid a \<Longrightarrow> valid b \<Longrightarrow>
      \<exists>c. hp_widening P (k, h) a b = Inr c \<and> valid c \<and> (\<forall>q. gamma a q \<or> gamma b q \<longrightarrow> gamma c q)"
    and edge_ok: "fk = Widening_FP \<Longrightarrow> valid a \<Longrightarrow>
      \<exists>c. hp_updateEdge P e a = Inr c \<and> valid c \<and> (\<forall>q. gamma a q \<and> pass e q \<longrightarrow> gamma c q)"
begin

lemma fp_updateEdge_ok:
  assumes "valid a"
  shows "\<exists>c. fp_updateEdge fk P e a = Inr c \<and> valid c \<and> (\<forall>q. gamma a q \<and> pass e q \<longrightarrow> gamma c q)"
  using edge_ok [OF _ assms] assms by (auto simp: fp_updateEdge_def)

text \<open>Two handlers join a new mark with the old one, \<^verbatim>\<open>WideningFixPoint\<close> replaces it.\<close>

lemma markState_ok:
  assumes "valid a" and "\<And>d. old = Some d \<Longrightarrow> valid d"
  shows "\<exists>c. markState fk P old a = Inr c \<and> valid c \<and> (\<forall>q. gamma a q \<longrightarrow> gamma c q) \<and>
    (fk \<noteq> Widening_FP \<longrightarrow> (\<forall>d q. old = Some d \<and> gamma d q \<longrightarrow> gamma c q))"
proof -
  let ?o = "case old of None \<Rightarrow> hp_bottom P | Some d \<Rightarrow> d"
  have "valid ?o" using assms(2) bottom_valid by (auto split: option.split)
  from lub_ok [OF this assms(1)] obtain c where
    c: "hp_lub P ?o a = Inr c" "valid c" "\<forall>q. gamma ?o q \<or> gamma a q \<longrightarrow> gamma c q" by blast
  obtain t where t: "hp_lub P (hp_bottom P) a = Inr t" using lub_ok [OF bottom_valid assms(1)] by blast
  show ?thesis
  proof (cases fk)
    case Default_FP
    then show ?thesis using c t neutral [OF _ assms(1) t] by (auto simp: markState_def)
  next
    case First_Unrolling_FP
    then show ?thesis using c by (auto simp: markState_def)
  qed (use assms(1) in \<open>simp add: markState_def\<close>)
qed

lemma lub_okE:
  assumes "valid a" "valid b"
  obtains c where "hp_lub P a b = Inr c" "valid c" "\<And>q. gamma a q \<Longrightarrow> gamma c q" "\<And>q. gamma b q \<Longrightarrow> gamma c q"
  using lub_ok [OF assms] by blast

subsection \<open>Fixpoint handlers\<close>

lemma union_list:
  assumes on: "hai_on E k N" and es: "set es \<subseteq> nest.eins N b"
    and mk: "\<And>e. e \<in> set es \<Longrightarrow> back_edge (n_cfg N) e = dir \<Longrightarrow> \<exists>d. h_edge h e = Some d \<and> valid d"
    and r: "valid r"
  shows "\<exists>c. rfold (hai_union_edge E P h (k, b) dir) es r = Inr c \<and> valid c \<and> (\<forall>q. gamma r q \<longrightarrow> gamma c q) \<and>
    (\<forall>e \<in> set es. back_edge (n_cfg N) e = dir \<longrightarrow> (\<forall>d q. h_edge h e = Some d \<and> gamma d q \<longrightarrow> gamma c q))"
  using es mk r
proof (induction es arbitrary: r)
  case (Cons e es)
  then have e: "e \<in> n_edges N" "e_tgt e = b" by (auto simp: nest.eins_def)
  note ee = env_edge [OF on e(1)]
  show ?case
  proof (cases "back_edge (n_cfg N) e = dir")
    case True
    obtain d where d: "h_edge h e = Some d" "valid d" using Cons.prems(2) [of e] True by auto
    obtain c where c: "hp_lub P r d = Inr c" "valid c" "\<And>q. gamma r q \<Longrightarrow> gamma c q" "\<And>q. gamma d q \<Longrightarrow> gamma c q"
      using lub_okE [OF Cons.prems(3) d(2)] by blast
    have "hai_union_edge E P h (k, b) dir e r = Inr c"
      using True d c(1) ee(1,4) e(2) env_plain(4) [OF on] by (auto simp: hai_union_edge_def)
    moreover obtain c' where "rfold (hai_union_edge E P h (k, b) dir) es c = Inr c'" "valid c'" "\<forall>q. gamma c q \<longrightarrow> gamma c' q"
      "\<forall>e \<in> set es. back_edge (n_cfg N) e = dir \<longrightarrow> (\<forall>d q. h_edge h e = Some d \<and> gamma d q \<longrightarrow> gamma c' q)"
      using Cons.IH [OF _ _ c(2)] Cons.prems(1,2) by auto
    ultimately show ?thesis using c(3,4) d(1) by (intro exI [of _ c']) auto
  next
    case False
    have "hai_union_edge E P h (k, b) dir e r = Inr r"
      using False ee(1,4) e(2) env_plain(4) [OF on] by (auto simp: hai_union_edge_def)
    then show ?thesis using Cons.IH [OF _ _ Cons.prems(3)] Cons.prems(1,2) False by auto
  qed
qed simp

lemma entryEdgeUnion_ok:
  assumes on: "hai_on E k N" and b: "b \<in> live (n_cfg N)"
    and mk: "\<And>e. e \<in> nest.eins N b \<Longrightarrow> \<not> back_edge (n_cfg N) e \<Longrightarrow> \<exists>d. h_edge h e = Some d \<and> valid d"
  shows "\<exists>c. entryEdgeUnion E P h (k, b) = Inr c \<and> valid c \<and> (\<forall>e \<in> nest.eins N b. \<not> back_edge (n_cfg N) e \<longrightarrow>
    (\<forall>d q. h_edge h e = Some d \<and> gamma d q \<longrightarrow> gamma c (cin b q)))"
proof -
  note li = env_lists(1) [OF on b]
  obtain c where c: "rfold (hai_union_edge E P h (k, b) False) (he_ins E (k, b)) (hp_bottom P) = Inr c" "valid c"
    "\<forall>e \<in> nest.eins N b. \<not> back_edge (n_cfg N) e \<longrightarrow> (\<forall>d q. h_edge h e = Some d \<and> gamma d q \<longrightarrow> gamma c q)"
    using union_list [OF on, of "he_ins E (k, b)" b False h "hp_bottom P"] li mk bottom_valid by auto
  obtain c' where "hp_enterContext P (k, b) CTX_LOOP c = Inr c'" "valid c'" "\<forall>q. gamma c q \<longrightarrow> gamma c' (cin b q)"
    using enter_ok [OF c(2)] by blast
  then show ?thesis using c env_plain(3) [OF on] by (intro exI [of _ c']) (auto simp: entryEdgeUnion_def)
qed

lemma backEdgeUnion_ok:
  assumes on: "hai_on E k N" and b: "b \<in> live (n_cfg N)" and nf: "\<not> h_first h (k, b)"
    and mk: "\<And>e. e \<in> nest.eins N b \<Longrightarrow> back_edge (n_cfg N) e \<Longrightarrow> \<exists>d. h_edge h e = Some d \<and> valid d"
  shows "\<exists>c. backEdgeUnion E P h (k, b) = Inr c \<and> valid c \<and> (\<forall>e \<in> nest.eins N b. back_edge (n_cfg N) e \<longrightarrow>
    (\<forall>d q. h_edge h e = Some d \<and> gamma d q \<longrightarrow> gamma c q))"
  using union_list [OF on, of "he_ins E (k, b)" b True h "hp_bottom P"] env_lists(1) [OF on b] mk bottom_valid nf
  by (auto simp: backEdgeUnion_def)

abbreviation fp_ok :: "'d fp_state \<Rightarrow> bool" where
  "fp_ok \<equiv> fp_state_ok fk valid"

lemma fixPoint_start:
  assumes on: "hai_on E k N" and b: "b \<in> live (n_cfg N)"
    and mk: "\<And>e. e \<in> nest.eins N b \<Longrightarrow> \<not> back_edge (n_cfg N) e \<Longrightarrow> \<exists>d. h_edge h e = Some d \<and> valid d"
  shows "\<exists>n fs. fixPoint fk E P h (k, b) True (fp_newState P) = Inr (n, False, fs) \<and> fp_ok fs \<and> fs_header fs = n \<and>
    (\<forall>e \<in> nest.eins N b. \<not> back_edge (n_cfg N) e \<longrightarrow> (\<forall>d q. h_edge h e = Some d \<and> gamma d q \<longrightarrow> gamma n (cin b q)))"
proof -
  obtain c where c: "entryEdgeUnion E P h (k, b) = Inr c" "valid c" "\<forall>e \<in> nest.eins N b. \<not> back_edge (n_cfg N) e \<longrightarrow>
      (\<forall>d q. h_edge h e = Some d \<and> gamma d q \<longrightarrow> gamma c (cin b q))"
    using entryEdgeUnion_ok [OF on b mk] by blast
  show ?thesis
    using c bottom_valid
    by (cases fk) (auto simp: fixPoint_def fixPoint_default_def fixPoint_widening_def fixPoint_unrolling_def fp_newState_def fp_state_ok_def)
qed

lemma fixPoint_again:
  assumes on: "hai_on E k N" and b: "b \<in> live (n_cfg N)" and nf: "\<not> h_first h (k, b)"
    and mk: "\<And>e. e \<in> nest.eins N b \<Longrightarrow> \<exists>d. h_edge h e = Some d \<and> valid d" and fs: "fp_ok fs"
  shows "\<exists>n fixed fs'. fixPoint fk E P h (k, b) False fs = Inr (n, fixed, fs') \<and> fp_ok fs' \<and> fs_header fs' = n \<and>
    (\<forall>e \<in> nest.eins N b. back_edge (n_cfg N) e \<longrightarrow> (\<forall>d q. h_edge h e = Some d \<and> gamma d q \<longrightarrow> gamma n q)) \<and>
    (fixed \<longrightarrow> (\<forall>q. gamma n q \<longrightarrow> gamma (fs_header fs) q)) \<and>
    (fk = Widening_FP \<longrightarrow> (\<forall>q. gamma (fs_header fs) q \<longrightarrow> gamma n q))"
proof -
  let ?Q = "\<lambda>c. \<forall>e \<in> nest.eins N b. back_edge (n_cfg N) e \<longrightarrow> (\<forall>d q. h_edge h e = Some d \<and> gamma d q \<longrightarrow> gamma c q)"
  obtain bs where bs: "backEdgeUnion E P h (k, b) = Inr bs" "valid bs" "?Q bs"
    using backEdgeUnion_ok [OF on b nf] mk by blast
  obtain en where en: "entryEdgeUnion E P h (k, b) = Inr en" "valid en" using entryEdgeUnion_ok [OF on b] mk by blast
  have fv: "valid (fs_header fs)" "valid (fs_first fs)" using fs by (auto simp: fp_state_ok_def)
  show ?thesis
  proof (cases fk)
    case Default_FP
    obtain n where n: "hp_lub P en bs = Inr n" "valid n" "\<And>q. gamma bs q \<Longrightarrow> gamma n q" using lub_okE [OF en(2) bs(2)] by blast
    obtain r where "hp_equals P n (fs_header fs) = Inr r" "r \<longrightarrow> (\<forall>q. gamma n q \<longrightarrow> gamma (fs_header fs) q)"
      using equals_ok [OF n(2) fv(1)] by blast
    then show ?thesis using Default_FP bs en n fv by (auto simp: fixPoint_def fixPoint_default_def fp_state_ok_def)
  next
    case Widening_FP
    obtain n where n: "hp_widening P (k, b) (fs_header fs) bs = Inr n" "valid n"
      "\<forall>q. gamma (fs_header fs) q \<or> gamma bs q \<longrightarrow> gamma n q"
      using widening_ok [OF Widening_FP fv(1) bs(2)] by blast
    obtain r where "hp_equals P n (fs_header fs) = Inr r" "r \<longrightarrow> (\<forall>q. gamma n q \<longrightarrow> gamma (fs_header fs) q)"
      using equals_ok [OF n(2) fv(1)] by blast
    then show ?thesis using Widening_FP bs en n fv by (auto simp: fixPoint_def fixPoint_widening_def fp_state_ok_def)
  next
    case First_Unrolling_FP
    have it: "0 < fs_iter fs" using fs First_Unrolling_FP by (simp add: fp_state_ok_def)
    obtain n where n: "hp_lub P bs (fs_first fs) = Inr n" "valid n" "\<And>q. gamma bs q \<Longrightarrow> gamma n q"
      using lub_okE [OF bs(2) fv(2)] by blast
    obtain r where "hp_equals P n (fs_header fs) = Inr r" "r \<longrightarrow> (\<forall>q. gamma n q \<longrightarrow> gamma (fs_header fs) q)"
      using equals_ok [OF n(2) fv(1)] by blast
    then show ?thesis using First_Unrolling_FP bs n fv it
      by (cases "fs_iter fs = 1") (auto simp: fixPoint_def fixPoint_unrolling_def fp_state_ok_def)
  qed
qed

subsection \<open>Input and output of a block\<close>

lemma input_simple_list:
  assumes on: "hai_on E k N" and es: "set es \<subseteq> n_edges N" "distinct es"
    and mk: "\<And>e. e \<in> set es \<Longrightarrow> \<exists>d. h_edge h e = Some d \<and> valid d" and i: "valid (h_in h)"
  shows "\<exists>i. rfold (input_edge fk E P (k, b) False) es h =
      Inr (h\<lparr>h_edge := (\<lambda>e. if e \<in> set es then None else h_edge h e), h_in := i\<rparr>) \<and> valid i \<and>
    (\<forall>q. gamma (h_in h) q \<longrightarrow> gamma i q) \<and>
    (\<forall>e \<in> set es. \<forall>d q. h_edge h e = Some d \<and> gamma d q \<and> pass e q \<longrightarrow> gamma i q)"
  using es mk i
proof (induction es arbitrary: h)
  case Nil
  then show ?case by (intro exI [of _ "h_in h"]) simp
next
  case (Cons e es)
  have e: "e \<in> n_edges N" "e \<notin> set es" using Cons.prems by auto
  obtain d where d: "h_edge h e = Some d" "valid d" using Cons.prems(3) [of e] by auto
  obtain c where c: "fp_updateEdge fk P e d = Inr c" "valid c" "\<forall>q. gamma d q \<and> pass e q \<longrightarrow> gamma c q"
    using fp_updateEdge_ok [OF d(2)] by blast
  obtain i where i: "hp_lub P (h_in h) c = Inr i" "valid i" "\<And>q. gamma (h_in h) q \<Longrightarrow> gamma i q" "\<And>q. gamma c q \<Longrightarrow> gamma i q"
    using lub_okE [OF Cons.prems(4) c(2)] by blast
  let ?h = "h\<lparr>h_edge := (h_edge h)(e := None), h_in := i\<rparr>"
  have step: "input_edge fk E P (k, b) False e h = Inr ?h"
    using d(1) c(1) i(1) env_edge(1) [OF on e(1)] env_plain(4) [OF on]
    by (simp add: input_edge_def unmarkEdge_def Let_def)
  have "\<exists>j. rfold (input_edge fk E P (k, b) False) es ?h =
      Inr (?h\<lparr>h_edge := (\<lambda>e. if e \<in> set es then None else h_edge ?h e), h_in := j\<rparr>) \<and> valid j \<and>
    (\<forall>q. gamma (h_in ?h) q \<longrightarrow> gamma j q) \<and>
    (\<forall>e \<in> set es. \<forall>d q. h_edge ?h e = Some d \<and> gamma d q \<and> pass e q \<longrightarrow> gamma j q)"
  proof (rule Cons.IH)
    show "\<exists>d. h_edge ?h f = Some d \<and> valid d" if "f \<in> set es" for f
      using Cons.prems(3) [of f] that e(2) by auto
  qed (use Cons.prems i in auto)
  then obtain j where j: "rfold (input_edge fk E P (k, b) False) es ?h =
      Inr (?h\<lparr>h_edge := (\<lambda>e. if e \<in> set es then None else h_edge ?h e), h_in := j\<rparr>)" "valid j"
    "\<forall>q. gamma i q \<longrightarrow> gamma j q" "\<forall>f \<in> set es. \<forall>d q. h_edge ?h f = Some d \<and> gamma d q \<and> pass f q \<longrightarrow> gamma j q"
    by auto
  have st: "?h\<lparr>h_edge := (\<lambda>e. if e \<in> set es then None else h_edge ?h e), h_in := j\<rparr> =
      h\<lparr>h_edge := (\<lambda>f. if f \<in> set (e # es) then None else h_edge h f), h_in := j\<rparr>"
    by (auto simp: fun_eq_iff)
  have "gamma j q" if "f \<in> set (e # es)" "h_edge h f = Some d'" "gamma d' q" "pass f q" for f d' q
  proof (cases "f = e")
    case True
    then show ?thesis using that d(1) c(3) i(4) j(3) by auto
  next
    case False
    then show ?thesis using that j(4) by auto
  qed
  then show ?case using step j(1-3) st i(3) by (intro exI [of _ j]) auto
qed

lemma unmark_back_list:
  assumes "hai_on E k N" "set es \<subseteq> nest.eins N b"
  shows "rfold (unmark_back E (k, b)) es h =
    Inr (h\<lparr>h_edge := (\<lambda>e. if e \<in> set es \<and> back_edge (n_cfg N) e then None else h_edge h e)\<rparr>)"
  using assms(2)
proof (induction es arbitrary: h)
  case (Cons e es)
  then have e: "e \<in> n_edges N" "e_tgt e = b" by (auto simp: nest.eins_def)
  let ?h = "if back_edge (n_cfg N) e then unmarkEdge e h else h"
  have "unmark_back E (k, b) e h = Inr ?h"
    using env_edge(1,4) [OF assms(1) e(1)] e(2) by (auto simp: unmark_back_def)
  moreover have "rfold (unmark_back E (k, b)) es ?h =
      Inr (?h\<lparr>h_edge := (\<lambda>e. if e \<in> set es \<and> back_edge (n_cfg N) e then None else h_edge ?h e)\<rparr>)"
    using Cons by simp
  moreover have "?h\<lparr>h_edge := (\<lambda>f. if f \<in> set es \<and> back_edge (n_cfg N) f then None else h_edge ?h f)\<rparr> =
      h\<lparr>h_edge := (\<lambda>f. if f \<in> set (e # es) \<and> back_edge (n_cfg N) f then None else h_edge h f)\<rparr>"
    by (auto simp: unmarkEdge_def fun_eq_iff)
  ultimately show ?case by simp
qed simp

lemma unmark_entry_list:
  assumes "hai_on E k N" "set es \<subseteq> nest.eins N b"
  shows "rfold (unmark_entry E (k, b)) es h =
    Inr (h\<lparr>h_edge := (\<lambda>e. if e \<in> set es \<and> \<not> back_edge (n_cfg N) e then None else h_edge h e)\<rparr>)"
  using assms(2)
proof (induction es arbitrary: h)
  case (Cons e es)
  then have e: "e \<in> n_edges N" "e_tgt e = b" by (auto simp: nest.eins_def)
  let ?h = "if back_edge (n_cfg N) e then h else unmarkEdge e h"
  have "unmark_entry E (k, b) e h = Inr ?h"
    using env_edge(1,4) [OF assms(1) e(1)] e(2) env_plain(4) [OF assms(1)] by (auto simp: unmark_entry_def)
  moreover have "rfold (unmark_entry E (k, b)) es ?h =
      Inr (?h\<lparr>h_edge := (\<lambda>e. if e \<in> set es \<and> \<not> back_edge (n_cfg N) e then None else h_edge ?h e)\<rparr>)"
    using Cons by simp
  moreover have "?h\<lparr>h_edge := (\<lambda>f. if f \<in> set es \<and> \<not> back_edge (n_cfg N) f then None else h_edge ?h f)\<rparr> =
      h\<lparr>h_edge := (\<lambda>f. if f \<in> set (e # es) \<and> \<not> back_edge (n_cfg N) f then None else h_edge h f)\<rparr>"
    by (auto simp: unmarkEdge_def fun_eq_iff)
  ultimately show ?case by simp
qed simp

text \<open>The standard output: update, tables, successors.\<close>

definition h_frame :: "'d hai \<Rightarrow> 'd hai \<Rightarrow> bool" where
  "h_frame h h' \<longleftrightarrow> h_first h' = h_first h \<and> h_fixed h' = h_fixed h \<and> h_fp h' = h_fp h \<and> h_calls h' = h_calls h \<and>
     h_cur h' = h_cur h \<and> h_main h' = h_main h"

definition h_valid :: "'d hai \<Rightarrow> bool" where
  "h_valid h \<longleftrightarrow> (\<forall>e d. h_edge h e = Some d \<longrightarrow> valid d) \<and> (\<forall>x. valid (h_results h x)) \<and> (\<forall>x. valid (h_results_out h x))"

definition std_out :: "hai_env \<Rightarrow> nested \<Rightarrow> nat \<Rightarrow> 'd hai \<Rightarrow> nat list \<Rightarrow> 'd hai \<Rightarrow> (edge \<Rightarrow> 'd) \<Rightarrow> nat list \<Rightarrow> bool" where
  "std_out E N b h W h' m W' \<longleftrightarrow> outputProcessing fk E P (k, b) \<lparr>cs_next = None, cs_enter = True, cs_edges = []\<rparr> False h = Inr h' \<and>
    h_frame h h' \<and> h_valid h' \<and> h_edge h' = (\<lambda>e. if e \<in> nest.eouts N b then Some (m e) else h_edge h e) \<and>
    (\<forall>e \<in> nest.eouts N b. \<forall>q. gamma (h_in h) q \<longrightarrow> gamma (m e) (exec b q)) \<and>
    (\<forall>e \<in> nest.eouts N b. \<forall>d q. fk \<noteq> Widening_FP \<and> h_edge h e = Some d \<and> gamma d q \<longrightarrow> gamma (m e) q) \<and>
    (\<forall>x q. gamma (h_results h x) q \<longrightarrow> gamma (h_results h' x) q) \<and> (\<forall>q. gamma (h_in h) q \<longrightarrow> gamma (h_results h' (k, b)) q) \<and>
    h_work h' = map (Pair k) W' \<and> distinct W' \<and> set W' = set W \<union> {e_tgt e | e. e \<in> nest.eouts N b \<and>
      nest.tdone N (h_marked N h \<union> nest.eouts N b) (h_fix k h) (h_active N k h) (e_tgt e)}"

lemma std_outD:
  assumes "std_out E N b h W h' m W'"
  shows "outputProcessing fk E P (k, b) \<lparr>cs_next = None, cs_enter = True, cs_edges = []\<rparr> False h = Inr h'"
    "h_frame h h'" "h_valid h'" "h_edge h' = (\<lambda>e. if e \<in> nest.eouts N b then Some (m e) else h_edge h e)"
    "\<And>e q. e \<in> nest.eouts N b \<Longrightarrow> gamma (h_in h) q \<Longrightarrow> gamma (m e) (exec b q)"
    "\<And>e d q. e \<in> nest.eouts N b \<Longrightarrow> fk \<noteq> Widening_FP \<Longrightarrow> h_edge h e = Some d \<Longrightarrow> gamma d q \<Longrightarrow> gamma (m e) q"
    "\<And>x q. gamma (h_results h x) q \<Longrightarrow> gamma (h_results h' x) q" "\<And>q. gamma (h_in h) q \<Longrightarrow> gamma (h_results h' (k, b)) q"
    "h_work h' = map (Pair k) W'" "distinct W'" "set W' = set W \<union> {e_tgt e | e. e \<in> nest.eouts N b \<and>
      nest.tdone N (h_marked N h \<union> nest.eouts N b) (h_fix k h) (h_active N k h) (e_tgt e)}"
  using assms unfolding std_out_def by - (elim conjE; (assumption | blast))+

lemma standard_output:
  assumes on: "hai_on E k N" and b: "b \<in> live (n_cfg N)" "ok b" and i: "valid (h_in h)" and v: "h_valid h"
    and cur: "h_cur h = k" "h_calls h = []" and W: "h_work h = map (Pair k) W" "distinct W"
    and nd: "\<And>e. e \<in> nest.eouts N b \<Longrightarrow> \<not> nest.edone N (h_marked N h) (h_fix k h) (h_active N k h) e"
    and new: "\<And>e. e \<in> nest.eouts N b \<Longrightarrow> e_tgt e \<in> set W \<Longrightarrow>
      \<not> nest.tdone N (h_marked N h \<union> nest.eouts N b) (h_fix k h) (h_active N k h) (e_tgt e)"
  shows "\<exists>h' m W'. std_out E N b h W h' m W'"
proof -
  note lo = env_lists(3,4) [OF on b(1)]
  have vr: "valid (h_results h x)" "valid (h_results_out h x)" for x using v unfolding h_valid_def by blast+
  obtain out where out: "hp_update P (k, b) (h_in h) = Inr out" "valid out" "\<And>q. gamma (h_in h) q \<Longrightarrow> gamma out (exec b q)"
    using update_ok [OF i b(2)] by blast
  obtain r where r: "hp_lub P (h_results h (k, b)) (h_in h) = Inr r" "valid r"
    "\<And>q. gamma (h_results h (k, b)) q \<Longrightarrow> gamma r q" "\<And>q. gamma (h_in h) q \<Longrightarrow> gamma r q"
    using lub_okE [OF vr(1) i] by blast
  obtain ro where ro: "(if he_store_out E then hp_lub P (h_results_out h (k, b)) out else Inr (h_results_out h (k, b))) = Inr ro" "valid ro"
    using lub_ok [OF vr(2) out(2)] vr(2) by (metis (full_types))
  let ?h1 = "h\<lparr>h_out := out, h_results := (h_results h)((k, b) := r), h_results_out := (h_results_out h)((k, b) := ro)\<rparr>"
  have bi: "blockInterpreted E P (k, b) (h\<lparr>h_out := out\<rparr>) = Inr ?h1"
    using cur r(1) ro(1) by (cases "he_store_out E") (auto simp: blockInterpreted_def Let_def)
  have "\<forall>e. \<exists>c. markState fk P (h_edge h e) out = Inr c \<and> valid c \<and> (\<forall>q. gamma out q \<longrightarrow> gamma c q) \<and>
      (fk \<noteq> Widening_FP \<longrightarrow> (\<forall>d q. h_edge h e = Some d \<and> gamma d q \<longrightarrow> gamma c q))"
    using markState_ok [OF out(2)] v unfolding h_valid_def by blast
  then obtain m where m: "\<And>e. markState fk P (h_edge h e) out = Inr (m e)" "\<And>e. valid (m e)"
    "\<And>e q. gamma out q \<Longrightarrow> gamma (m e) q" "\<And>e d q. fk \<noteq> Widening_FP \<Longrightarrow> h_edge h e = Some d \<Longrightarrow> gamma d q \<Longrightarrow> gamma (m e) q"
    by metis
  have h1: "h_marked N ?h1 = h_marked N h" "h_fix k ?h1 = h_fix k h" "h_active N k ?h1 = h_active N k h" "h_edge ?h1 = h_edge h"
    by (auto simp: h_marked_def h_fix_def h_active_def)
  have "\<exists>W'. rfold (addSuccessors_edge fk E P (k, b)) (he_outs E (k, b)) ?h1 =
      Inr (?h1\<lparr>h_edge := (\<lambda>e. if e \<in> set (he_outs E (k, b)) then Some (m e) else h_edge ?h1 e), h_work := map (Pair k) W'\<rparr>) \<and>
    distinct W' \<and> set W' = set W \<union> {e_tgt e | e. e \<in> set (he_outs E (k, b)) \<and>
      nest.tdone N (h_marked N ?h1 \<union> set (he_outs E (k, b))) (h_fix k ?h1) (h_active N k ?h1) (e_tgt e)}"
  proof (rule addSuccessors_list [OF on])
    show "set (he_outs E (k, b)) \<subseteq> n_edges N" "distinct (he_outs E (k, b))" using lo by (auto simp: nest.eouts_def)
    show "\<not> nest.edone N (h_marked N ?h1) (h_fix k ?h1) (h_active N k ?h1) e" if "e \<in> set (he_outs E (k, b))" for e
      unfolding h1 using nd that lo by simp
    show "\<not> nest.tdone N (h_marked N ?h1 \<union> set (he_outs E (k, b))) (h_fix k ?h1) (h_active N k ?h1) (e_tgt e)"
      if "e \<in> set (he_outs E (k, b))" "e_tgt e \<in> set W" for e
      unfolding h1 lo(1) using new that lo by simp
  qed (use m(1) W in simp_all)
  then obtain W' where W': "rfold (addSuccessors_edge fk E P (k, b)) (he_outs E (k, b)) ?h1 =
      Inr (?h1\<lparr>h_edge := (\<lambda>e. if e \<in> nest.eouts N b then Some (m e) else h_edge h e), h_work := map (Pair k) W'\<rparr>)"
    "distinct W'" "set W' = set W \<union> {e_tgt e | e. e \<in> nest.eouts N b \<and>
      nest.tdone N (h_marked N h \<union> nest.eouts N b) (h_fix k h) (h_active N k h) (e_tgt e)}"
    unfolding h1 lo by blast
  let ?h' = "?h1\<lparr>h_edge := (\<lambda>e. if e \<in> nest.eouts N b then Some (m e) else h_edge h e), h_work := map (Pair k) W'\<rparr>"
  have "outputProcessing fk E P (k, b) \<lparr>cs_next = None, cs_enter = True, cs_edges = []\<rparr> False h = Inr ?h'"
    using cur(2) out(1) bi W'(1) env_plain(2) [OF on] by (simp add: outputProcessing_def addSuccessors_def)
  moreover have "h_valid ?h'" using v m(2) r(2) ro(2) by (auto simp: h_valid_def)
  moreover have "h_frame h ?h'" by (simp add: h_frame_def)
  ultimately show ?thesis using W'(2,3) m(3,4) out(3) r(3,4)
    unfolding std_out_def by (intro exI [of _ ?h'] exI [of _ m] exI [of _ W']) auto
qed

subsection \<open>Invariant\<close>

text \<open>A mark on an exit edge leaves the context of its loop when the loop is finished.\<close>

definition left_loop :: "nested \<Rightarrow> nat set \<Rightarrow> edge \<Rightarrow> bool" where
  "left_loop N D e \<longleftrightarrow> (\<forall>x. li_exit (n_loops N) e = Some x \<longrightarrow> x \<in> D)"

abbreviation after :: "nested \<Rightarrow> edge \<Rightarrow> 'c \<Rightarrow> 'c" where
  "after N e q \<equiv> edge_leave N cout e (exec (e_src e) q)"

definition edge_inv :: "nested \<Rightarrow> nat set \<Rightarrow> (nat \<Rightarrow> 'c \<Rightarrow> bool) \<Rightarrow> 'd hai \<Rightarrow> edge \<Rightarrow> bool" where
  "edge_inv N D C h e \<longleftrightarrow> (\<forall>q. C (e_src e) q \<and> pass e (after N e q) \<longrightarrow>
     C (e_tgt e) (edge_enter N cin e (after N e q)) \<or>
     (\<exists>d. h_edge h e = Some d \<and> gamma d (if left_loop N D e then after N e q else exec (e_src e) q)))"

definition loop_inv :: "nested \<Rightarrow> (nat \<Rightarrow> 'c \<Rightarrow> bool) \<Rightarrow> 'd hai \<Rightarrow> nat \<Rightarrow> bool" where
  "loop_inv N C h x \<longleftrightarrow> (\<exists>fs. h_fp h (k, x) = Some fs \<and> fp_ok fs \<and> (\<forall>q. gamma (fs_header fs) q \<longrightarrow> C x q) \<and>
       (fk = Widening_FP \<longrightarrow> (\<forall>q. C x q \<longrightarrow> gamma (fs_header fs) q))) \<and>
     (\<forall>e \<in> nest.eins N x. \<not> back_edge (n_cfg N) e \<longrightarrow> (\<forall>d q. h_edge h e = Some d \<and> gamma d q \<longrightarrow> C x (cin x q)))"

definition hinv :: "nested \<Rightarrow> nat set \<Rightarrow> (nat \<Rightarrow> 'c \<Rightarrow> bool) \<Rightarrow> 'd hai \<Rightarrow> bool" where
  "hinv N D C h \<longleftrightarrow>
     nest.cinv N (h_marked N h) (h_fix k h) (h_active N k h) D \<and>
     (\<exists>W. h_work h = map (Pair k) W \<and> distinct W \<and> set W = {b. nest.ready N (h_active N k h) D b}) \<and>
     h_calls h = [] \<and> h_cur h = k \<and> h_valid h \<and>
     (\<forall>x \<in> h_active N k h. loop_inv N C h x) \<and>
     (\<forall>e \<in> n_edges N. edge_inv N D C h e) \<and>
     (\<forall>b q. C b q \<longrightarrow> gamma (h_results h (k, b)) q) \<and>
     (fk = Widening_FP \<longrightarrow> (\<forall>b \<in> live (n_cfg N). b \<notin> h_active N k h \<union> D \<longrightarrow> (\<forall>q. \<not> C b q)))"

lemma hinvD:
  assumes "hinv N D C h"
  shows "nest.cinv N (h_marked N h) (h_fix k h) (h_active N k h) D" "h_calls h = []" "h_cur h = k" "h_valid h"
    "\<And>x. x \<in> h_active N k h \<Longrightarrow> loop_inv N C h x" "\<And>e. e \<in> n_edges N \<Longrightarrow> edge_inv N D C h e"
    "\<And>b q. C b q \<Longrightarrow> gamma (h_results h (k, b)) q"
    "\<And>b q. fk = Widening_FP \<Longrightarrow> b \<in> live (n_cfg N) \<Longrightarrow> b \<notin> h_active N k h \<Longrightarrow> b \<notin> D \<Longrightarrow> \<not> C b q"
  using assms unfolding hinv_def by blast+

lemma edge_invD:
  assumes "edge_inv N D C h e" "C (e_src e) q" "pass e (after N e q)"
  shows "C (e_tgt e) (edge_enter N cin e (after N e q)) \<or>
     (\<exists>d. h_edge h e = Some d \<and> gamma d (if left_loop N D e then after N e q else exec (e_src e) q))"
  using assms unfolding edge_inv_def by blast

lemma edge_invI:
  assumes "\<And>q. C (e_src e) q \<Longrightarrow> pass e (after N e q) \<Longrightarrow> C (e_tgt e) (edge_enter N cin e (after N e q)) \<or>
     (\<exists>d. h_edge h e = Some d \<and> gamma d (if left_loop N D e then after N e q else exec (e_src e) q))"
  shows "edge_inv N D C h e"
  using assms unfolding edge_inv_def by blast

lemma loop_inv_same:
  assumes "loop_inv N C h x" "h_fp h' (k, x) = h_fp h (k, x)" "C' x = C x"
    and "\<And>e. e \<in> nest.eins N x \<Longrightarrow> \<not> back_edge (n_cfg N) e \<Longrightarrow> h_edge h' e = h_edge h e"
  shows "loop_inv N C' h' x"
  using assms unfolding loop_inv_def by auto

text \<open>A ready block finds a mark, outside of the loops it left, on every edge it reads.\<close>

lemma ready_left:
  assumes c: "nest.cinv N M fx A D" and r: "nest.ready N A D b"
    and e: "e \<in> n_edges N" "e_tgt e = b" "\<not> (back_edge (n_cfg N) e \<and> b \<notin> A)"
  shows "left_loop N D e" "e \<in> M"
proof -
  have d: "nest.delivered N A D e" by (rule nest.readyD(3) [OF r e])
  show "left_loop N D e"
    unfolding left_loop_def
  proof (intro allI impI)
    fix x assume "li_exit (n_loops N) e = Some x"
    then show "x \<in> D" using nest.exit_rep [OF e(1)] d by (simp add: nest.delivered_def)
  qed
  have "\<not> nest.used N A D e" using e nest.readyD(2) [OF r] by (auto simp: nest.used_def)
  then show "e \<in> M" using d nest.cinvD(7) [OF c e(1)] by (auto simp: nest.usable_def)
qed

subsection \<open>Steps keep the invariant\<close>

text \<open>\<open>h1\<close> is the state after the input of the block.\<close>

lemma finish_simple:
  assumes on: "hai_on E k N" and ok: "ok b" and inv: "hinv N D C h" and r: "nest.ready N (h_active N k h) D b"
    and hd: "\<not> loop_header (n_cfg N) b"
    and W: "h_work h = map (Pair k) (W @ [b])" "distinct (W @ [b])" "set (W @ [b]) = {b. nest.ready N (h_active N k h) D b}"
    and h1: "h_edge h1 = (\<lambda>e. if e \<in> nest.eins N b then None else h_edge h e)" "h_first h1 = h_first h" "h_fixed h1 = h_fixed h"
      "h_fp h1 = h_fp h" "h_calls h1 = []" "h_cur h1 = k" "h_work h1 = map (Pair k) W" "h_results h1 = h_results h"
      "h_results_out h1 = h_results_out h"
    and i: "valid (h_in h1)"
      "\<And>e d q. e \<in> nest.eins N b \<Longrightarrow> h_edge h e = Some d \<Longrightarrow> gamma d q \<Longrightarrow> pass e q \<Longrightarrow> gamma (h_in h1) q"
  shows "\<exists>h'. outputProcessing fk E P (k, b) \<lparr>cs_next = None, cs_enter = True, cs_edges = []\<rparr> False h1 = Inr h' \<and>
    h_main h' = h_main h1 \<and> h_first h' = h_first h \<and> h_fp h' = h_fp h \<and> hinv N (insert b D) (C(b := \<lambda>q. C b q \<or> gamma (h_in h1) q)) h'"
proof -
  let ?M = "h_marked N h" and ?fx = "h_fix k h" and ?A = "h_active N k h" and ?D = "insert b D"
  let ?C = "C(b := \<lambda>q. C b q \<or> gamma (h_in h1) q)"
  note c = hinvD(1) [OF inv] and b = nest.readyD(1,2) [OF r]
  note so = nest.simple_out [OF c b hd]
  have bA: "b \<notin> ?A" using hd by (simp add: h_active_def)
  have M1: "h_marked N h1 = ?M - nest.eins N b" "h_fix k h1 = ?fx" "h_active N k h1 = ?A"
    by (auto simp: h_marked_def h_fix_def h_active_def h1)
  have v1: "h_valid h1" using hinvD(4) [OF inv] by (simp add: h_valid_def h1)
  have "\<exists>h' m W'. std_out E N b h1 W h' m W'"
  proof (rule standard_output [OF on b(1) ok i(1) v1])
    show "\<not> nest.edone N (h_marked N h1) (h_fix k h1) (h_active N k h1) e" if e: "e \<in> nest.eouts N b" for e
      using so(4) [of e] edone_mono [of N "?M - nest.eins N b" ?fx ?A e ?M] e unfolding M1 by (auto simp: nest.eouts_def)
    show "\<not> nest.tdone N (h_marked N h1 \<union> nest.eouts N b) (h_fix k h1) (h_active N k h1) (e_tgt e)"
      if e: "e \<in> nest.eouts N b" "e_tgt e \<in> set W" for e
      using nest.simple_new [OF c b hd e(1)] W(3) e(2) by auto
  qed (use h1 W in auto)
  then obtain h' m W' where so': "std_out E N b h1 W h' m W'" by blast
  note out = std_outD(1-4) [OF so'] and m = std_outD(5,6) [OF so'] and res = std_outD(7,8) [OF so']
    and W' = std_outD(9-11) [OF so', unfolded M1]
  have fr: "h_first h' = h_first h" "h_fixed h' = h_fixed h" "h_fp h' = h_fp h" "h_calls h' = []" "h_cur h' = k" "h_main h' = h_main h1"
    using out(2) h1 by (simp_all add: h_frame_def)
  have ctl: "h_marked N h' = ?M - nest.eins N b \<union> nest.eouts N b" "h_fix k h' = ?fx" "h_active N k h' = ?A"
    using M1(1) out(4) by (auto simp: h_marked_def h_fix_def h_active_def fr nest.eouts_def)
  have "set W = {t. nest.ready N ?A D t} - {b}" using W(2,3) by auto
  then have ready: "set W' = {t. nest.ready N ?A ?D t}" unfolding W'(3) nest.ready_simple [OF c r hd] by simp
  have emptyC: "\<not> C b q" if "fk = Widening_FP" for q using hinvD(8) [OF inv that b(1) bA b(2)] .
  have left: "left_loop N ?D e \<longleftrightarrow> left_loop N D e" if e: "e \<in> n_edges N" for e
    using nest.exit_src [OF e] hd by (auto simp: left_loop_def)
  have mono: "C x q \<Longrightarrow> ?C x q" for x q by auto
  have edges: "edge_inv N ?D ?C h' e" if e: "e \<in> n_edges N" for e
  proof (rule edge_invI)
    fix q assume q: "?C (e_src e) q" "pass e (after N e q)"
    let ?goal = "?C (e_tgt e) (edge_enter N cin e (after N e q)) \<or>
      (\<exists>d. h_edge h' e = Some d \<and> gamma d (if left_loop N ?D e then after N e q else exec (e_src e) q))"
    show ?goal
    proof (cases "e_src e = b")
      case src: True
      then have eo: "e \<in> nest.eouts N b" using e by (simp add: nest.eouts_def)
      have he: "h_edge h' e = Some (m e)" "h_edge h1 e = h_edge h e"
        using eo out(4) so(5) [OF e src] by (simp_all add: h1 nest.eins_def)
      have st: "(if left_loop N ?D e then after N e q else exec (e_src e) q) = exec b q"
      proof (cases "li_exit (n_loops N) e")
        case (Some x)
        then have "x \<in> ?A" using so(3) [OF e src] by blast
        then have "\<not> left_loop N D e" using Some nest.cinvD(3) [OF c] by (auto simp: left_loop_def)
        then show ?thesis using left [OF e] src by simp
      qed (simp add: src edge_leave_def)
      show ?thesis
      proof (cases "gamma (h_in h1) q")
        case True
        then show ?thesis using m(1) [OF eo] he st by simp
      next
        case False
        then have Cb: "C b q" and nw: "fk \<noteq> Widening_FP" using q(1) src emptyC by auto
        then consider "C (e_tgt e) (edge_enter N cin e (after N e q))" |
            d where "h_edge h e = Some d" "gamma d (if left_loop N D e then after N e q else exec (e_src e) q)"
          using edge_invD [OF hinvD(6) [OF inv e] _ q(2)] src by blast
        then show ?thesis
        proof cases
          case 1
          then show ?thesis using mono by blast
        next
          case (2 d)
          then have "gamma (m e) (exec b q)" using m(2) [OF eo nw] he(2) st left [OF e] by simp
          then show ?thesis using he st by simp
        qed
      qed
    next
      case src: False
      then have "C (e_src e) q" using q(1) by simp
      then consider "C (e_tgt e) (edge_enter N cin e (after N e q))" |
          d where "h_edge h e = Some d" "gamma d (if left_loop N D e then after N e q else exec (e_src e) q)"
        using edge_invD [OF hinvD(6) [OF inv e] _ q(2)] by blast
      then show ?thesis
      proof cases
        case 1
        then show ?thesis using mono by blast
      next
        case (2 d)
        show ?thesis
        proof (cases "e_tgt e = b")
          case True
          then have nb: "\<not> back_edge (n_cfg N) e" using nest.back_hdr [OF e] hd by blast
          have ei: "e \<in> nest.eins N b" using True e by (simp add: nest.eins_def)
          have "left_loop N D e" using ready_left(1) [OF c r e True] nb by blast
          then have "gamma (h_in h1) (after N e q)" using i(2) [OF ei 2(1) _ q(2)] 2(2) by simp
          then show ?thesis using True hd by (simp add: edge_enter_def)
        next
          case False
          then have "h_edge h' e = Some d" using 2(1) src out(4) by (simp add: h1 nest.eins_def nest.eouts_def)
          then show ?thesis using 2(2) left [OF e] by simp
        qed
      qed
    qed
  qed
  have loops: "loop_inv N ?C h' x" if x: "x \<in> ?A" for x
  proof -
    have xb: "x \<noteq> b" using x bA by blast
    have same: "h_edge h' e = h_edge h e" if e: "e \<in> nest.eins N x" "\<not> back_edge (n_cfg N) e" for e
    proof -
      have ed: "e \<in> n_edges N" "e_tgt e = x" using e(1) by (auto simp: nest.eins_def)
      have "nest.delivered N ?A D e" using nest.active_entry(1) [OF c ed(1) e(2)] x ed(2) by simp
      then have "e_src e \<noteq> b" using so(2) [OF ed(1)] by blast
      then show ?thesis using out(4) xb ed(2) by (simp add: h1 nest.eouts_def nest.eins_def)
    qed
    show ?thesis by (rule loop_inv_same [OF hinvD(5) [OF inv x] _ _ same]) (use xb in \<open>simp_all add: fr\<close>)
  qed
  have "hinv N ?D ?C h'"
    unfolding hinv_def ctl
  proof (intro conjI impI allI ballI)
    show "nest.cinv N (?M - nest.eins N b \<union> nest.eouts N b) ?fx ?A ?D" by (rule nest.cinv_simple [OF c r hd])
    show "\<exists>W. h_work h' = map (Pair k) W \<and> distinct W \<and> set W = {b. nest.ready N ?A ?D b}" using W' ready by blast
    show "gamma (h_results h' (k, x)) q" if "?C x q" for x q
      using that res hinvD(7) [OF inv] by (auto simp: h1 split: if_splits)
    show "\<not> ?C x q" if "fk = Widening_FP" "x \<in> live (n_cfg N)" "x \<notin> ?A \<union> ?D" for x q
      using hinvD(8) [OF inv that(1,2)] that(3) by auto
  qed (use fr out(3) edges loops in auto)
  then show ?thesis using out(1) fr by blast
qed

text \<open>
  An iteration of a loop: \<open>n\<close> is the new state of its header. A handler that replaces the marks
  forgets what the members of the loop covered before.
\<close>

definition covered_iter :: "nested \<Rightarrow> nat \<Rightarrow> 'd \<Rightarrow> (nat \<Rightarrow> 'c \<Rightarrow> bool) \<Rightarrow> nat \<Rightarrow> 'c \<Rightarrow> bool" where
  "covered_iter N b n C x q \<longleftrightarrow>
     (if x = b then C b q \<or> gamma n q else C x q \<and> \<not> (fk = Widening_FP \<and> x \<in> nest.inside N b))"

lemma finish_iter:
  assumes on: "hai_on E k N" and ok: "ok b" and inv: "hinv N D C h" and r: "nest.ready N (h_active N k h) D b"
    and hd: "loop_header (n_cfg N) b"
    and W: "h_work h = map (Pair k) (W @ [b])" "distinct (W @ [b])" "set (W @ [b]) = {b. nest.ready N (h_active N k h) D b}"
    and h1: "h_edge h1 = (\<lambda>e. if e \<in> nest.ebacks N b then None else h_edge h e)" "h_first h1 = (h_first h)((k, b) := False)"
      "h_fixed h1 = (h_fixed h)((k, b) := False)" "h_fp h1 = (h_fp h)((k, b) \<mapsto> fs)" "h_calls h1 = []" "h_cur h1 = k"
      "h_work h1 = map (Pair k) W" "h_results h1 = h_results h" "h_results_out h1 = h_results_out h" "h_in h1 = n"
    and fs: "fp_ok fs" "fs_header fs = n"
    and backs: "\<And>e d q. e \<in> nest.ebacks N b \<Longrightarrow> b \<in> h_active N k h \<Longrightarrow> h_edge h e = Some d \<Longrightarrow> gamma d q \<Longrightarrow> gamma n q"
    and entries: "\<And>e d q. e \<in> nest.eins N b \<Longrightarrow> \<not> back_edge (n_cfg N) e \<Longrightarrow> h_edge h e = Some d \<Longrightarrow> gamma d q \<Longrightarrow>
      C b (cin b q) \<or> gamma n (cin b q)"
    and wide: "\<And>q. fk = Widening_FP \<Longrightarrow> C b q \<Longrightarrow> gamma n q"
  shows "\<exists>h'. outputProcessing fk E P (k, b) \<lparr>cs_next = None, cs_enter = True, cs_edges = []\<rparr> False h1 = Inr h' \<and>
    h_main h' = h_main h1 \<and> h_first h' = h_first h1 \<and> h_fp h' = h_fp h1 \<and> hinv N (D - nest.level N b) (covered_iter N b n C) h'"
proof -
  let ?M = "h_marked N h" and ?fx = "h_fix k h" and ?A = "h_active N k h" and ?D = "D - nest.level N b"
  let ?C = "covered_iter N b n C" and ?A' = "insert b ?A" and ?fx' = "?fx(b := False)"
  note c = hinvD(1) [OF inv] and b = nest.readyD(1,2) [OF r]
  note ld = nest.level_done [OF c r]
  note it = nest.iter_edge [OF c b ld]
  have M1: "h_marked N h1 = ?M - nest.ebacks N b" "h_fix k h1 = ?fx'" "h_active N k h1 = ?A'"
    using b(1) hd by (auto simp: h_marked_def h_fix_def h_active_def h1 fun_eq_iff)
  have v1: "h_valid h1" using hinvD(4) [OF inv] by (simp add: h_valid_def h1)
  have nv: "valid n" using fs by (simp add: fp_state_ok_def)
  have "\<exists>h' m W'. std_out E N b h1 W h' m W'"
  proof (rule standard_output [OF on b(1) ok _ v1])
    show "\<not> nest.edone N (h_marked N h1) (h_fix k h1) (h_active N k h1) e" if e: "e \<in> nest.eouts N b" for e
      unfolding M1 by (rule nest.iter_out [OF c r hd e])
    show "\<not> nest.tdone N (h_marked N h1 \<union> nest.eouts N b) (h_fix k h1) (h_active N k h1) (e_tgt e)"
      if e: "e \<in> nest.eouts N b" "e_tgt e \<in> set W" for e
      unfolding M1 using W e(2) by (intro nest.iter_new [OF c r hd e(1)]) auto
  qed (use h1 W nv in auto)
  then obtain h' m W' where so': "std_out E N b h1 W h' m W'" by blast
  note out = std_outD(1-4) [OF so'] and m = std_outD(5,6) [OF so', unfolded h1(10)] and res = std_outD(7,8) [OF so', unfolded h1(10)]
    and W' = std_outD(9-11) [OF so', unfolded M1]
  have fr: "h_first h' = h_first h1" "h_fixed h' = h_fixed h1" "h_fp h' = h_fp h1" "h_calls h' = []" "h_cur h' = k" "h_main h' = h_main h1"
    using out(2) h1 by (simp_all add: h_frame_def)
  have ctl: "h_marked N h' = ?M - nest.ebacks N b \<union> nest.eouts N b" "h_fix k h' = ?fx'" "h_active N k h' = ?A'"
    using M1 out(4) by (auto simp: h_marked_def h_fix_def h_active_def fun_eq_iff fr nest.eouts_def)
  have "set W = {t. nest.ready N ?A D t} - {b}" using W(2,3) by auto
  then have ready: "set W' = {t. nest.ready N ?A' ?D t}" unfolding W'(3) nest.ready_iter [OF c r hd] by simp
  have ins: "x \<in> D" if "x \<in> nest.inside N b" for x by (rule nest.inside_done [OF c ld that])
  have bi: "b \<notin> nest.inside N b" by (rule nest.inside_irrefl [OF b(1)])
  have emptyC: "\<not> C b q" if "fk = Widening_FP" "b \<notin> ?A" for q using hinvD(8) [OF inv that(1) b(1) that(2) b(2)] .
  have keepC: "?C x q" if "C x q" "\<not> (fk = Widening_FP \<and> x \<in> nest.inside N b)" for x q
    using that by (auto simp: covered_iter_def)
  have edges: "edge_inv N ?D ?C h' e" if e: "e \<in> n_edges N" for e
  proof (rule edge_invI)
    fix q assume q: "?C (e_src e) q" "pass e (after N e q)"
    let ?st = "if left_loop N D e then after N e q else exec (e_src e) q"
    let ?st' = "if left_loop N ?D e then after N e q else exec (e_src e) q"
    have fromb: "gamma n (after N e q)" if eb: "e \<in> nest.ebacks N b" and d: "h_edge h e = Some d" "gamma d ?st" for d
    proof -
      have be: "e_tgt e = b" "back_edge (n_cfg N) e" using eb by (auto simp: nest.ebacks_def)
      have "e \<in> ?M" using d(1) e by (simp add: h_marked_def)
      then have "b \<in> ?A" using nest.cinvD(8) [OF c e] be by (auto simp: nest.used_def)
      moreover have "left_loop N D e" using ready_left(1) [OF c r e be(1)] calculation by blast
      ultimately show ?thesis using backs [OF eb _ d(1)] d(2) by simp
    qed
    have backC: "?C (e_tgt e) (edge_enter N cin e (after N e q))" if "e \<in> nest.ebacks N b" "gamma n (after N e q)"
      using that by (simp add: nest.ebacks_def edge_enter_def covered_iter_def)
    show "?C (e_tgt e) (edge_enter N cin e (after N e q)) \<or> (\<exists>d. h_edge h' e = Some d \<and> gamma d ?st')"
    proof (cases "e_src e = b")
      case src: True
      then have eo: "e \<in> nest.eouts N b" using e by (simp add: nest.eouts_def)
      note hs = nest.header_src [OF e, unfolded src, OF hd]
      have he: "h_edge h' e = Some (m e)" using eo out(4) by simp
      have st: "?st = exec b q" "?st' = exec b q"
        using hs(2) b(2) src by (cases "li_exit (n_loops N) e"; auto simp: left_loop_def edge_leave_def)+
      show ?thesis
      proof (cases "gamma n q")
        case True
        then show ?thesis using m(1) [OF eo] he st by simp
      next
        case False
        then have Cb: "C b q" using q(1) src by (simp add: covered_iter_def)
        then have nw: "fk \<noteq> Widening_FP" using wide False by blast
        from Cb consider "C (e_tgt e) (edge_enter N cin e (after N e q))" | d where "h_edge h e = Some d" "gamma d ?st"
          using edge_invD [OF hinvD(6) [OF inv e] _ q(2)] src by blast
        then show ?thesis
        proof cases
          case 1
          then show ?thesis using keepC nw by blast
        next
          case (2 d)
          show ?thesis
          proof (cases "e \<in> nest.ebacks N b")
            case True
            then show ?thesis using backC fromb [OF True 2] by blast
          next
            case False
            then have "gamma (m e) (exec b q)" using m(2) [OF eo nw] 2 st(1) by (simp add: h1)
            then show ?thesis using he st by simp
          qed
        qed
      qed
    next
      case src: False
      then have Cs: "C (e_src e) q" and nin: "\<not> (fk = Widening_FP \<and> e_src e \<in> nest.inside N b)"
        using q(1) by (simp_all add: covered_iter_def)
      from Cs consider "C (e_tgt e) (edge_enter N cin e (after N e q))" | d where "h_edge h e = Some d" "gamma d ?st"
        using edge_invD [OF hinvD(6) [OF inv e] _ q(2)] by blast
      then show ?thesis
      proof cases
        case 1
        then show ?thesis using keepC nest.inside_edge [OF e] src nin by blast
      next
        case (2 d)
        show ?thesis
        proof (cases "e \<in> nest.ebacks N b")
          case True
          then show ?thesis using backC fromb [OF True 2] by blast
        next
          case False
          then have "h_edge h' e = Some d" using 2(1) src out(4) by (simp add: h1 nest.eouts_def)
          moreover have "left_loop N ?D e \<longleftrightarrow> left_loop N D e"
          proof (cases "\<exists>x. li_exit (n_loops N) e = Some x \<and> x \<in> nest.level N b")
            case True
            then obtain x where x: "li_exit (n_loops N) e = Some x" "x \<in> nest.level N b" by blast
            have "e_tgt e \<in> nest.level N b"
              using nest.exit_tgt [OF e x(1)] x(2) False e nest.edge_V [OF e]
              by (auto simp: nest.level_def nest.ebacks_def split: if_splits)
            then have "e \<notin> ?M" using nest.cinvD(8) [OF c e it(4) [OF e]] by blast
            then show ?thesis using 2(1) e by (simp add: h_marked_def)
          qed (auto simp: left_loop_def)
          ultimately show ?thesis using 2(2) by simp
        qed
      qed
    qed
  qed
  have loops: "loop_inv N ?C h' x" if x: "x \<in> ?A'" for x
  proof (cases "x = b")
    case True
    have "h_edge h' e = h_edge h e" if e: "e \<in> nest.eins N b" "\<not> back_edge (n_cfg N) e" for e
    proof -
      have ed: "e \<in> n_edges N" "e_tgt e = b" using e(1) by (auto simp: nest.eins_def)
      have "e_src e \<noteq> b" using nest.fwd_ends [OF ed(1) e(2)] nest.header_src(1) [OF ed(1)] ed(2) hd by auto
      then show ?thesis using out(4) e(2) by (simp add: h1 nest.eouts_def nest.ebacks_def)
    qed
    moreover have Cb: "?C b q \<longleftrightarrow> C b q \<or> gamma n q" for q by (simp add: covered_iter_def)
    ultimately have "\<forall>e \<in> nest.eins N b. \<not> back_edge (n_cfg N) e \<longrightarrow>
        (\<forall>d q. h_edge h' e = Some d \<and> gamma d q \<longrightarrow> ?C b (cin b q))"
      using entries by simp
    moreover have "h_fp h' (k, b) = Some fs" by (simp add: fr h1)
    ultimately show ?thesis using fs wide Cb unfolding True loop_inv_def by blast
  next
    case False
    then have xA: "x \<in> ?A" using x by simp
    have "x \<notin> nest.inside N b" using ins nest.cinvD(3) [OF c xA] by blast
    then have Cx: "?C x = C x" using False by (auto simp: covered_iter_def)
    have same: "h_edge h' e = h_edge h e" if e: "e \<in> nest.eins N x" "\<not> back_edge (n_cfg N) e" for e
    proof -
      have ed: "e \<in> n_edges N" "e_tgt e = x" using e(1) by (auto simp: nest.eins_def)
      have dl: "nest.delivered N ?A D e" using nest.active_entry(1) [OF c ed(1) e(2)] xA ed(2) by simp
      have "e_src e \<noteq> b"
      proof
        assume src: "e_src e = b"
        have "li_exit (n_loops N) e \<noteq> None"
          using nest.header_out(1) [OF c b hd ed(1) src] e(2) ld nest.cinvD(3) [OF c xA] ed(2) by (auto split: if_splits)
        then have "li_exit (n_loops N) e = Some b" using nest.header_src(2) [OF ed(1)] src hd by auto
        then show False using dl nest.exit_rep [OF ed(1)] b(2) by (simp add: nest.delivered_def)
      qed
      then show ?thesis using out(4) e(2) by (simp add: h1 nest.eouts_def nest.ebacks_def)
    qed
    show ?thesis by (rule loop_inv_same [where C' = ?C, OF hinvD(5) [OF inv xA] _ Cx same]) (use False in \<open>simp_all add: fr h1\<close>)
  qed
  have "hinv N ?D ?C h'"
    unfolding hinv_def ctl
  proof (intro conjI impI allI ballI)
    show "nest.cinv N (?M - nest.ebacks N b \<union> nest.eouts N b) ?fx' ?A' ?D" by (rule nest.cinv_iter [OF c r hd])
    show "\<exists>W. h_work h' = map (Pair k) W \<and> distinct W \<and> set W = {b. nest.ready N ?A' ?D b}" using W' ready by blast
    show "gamma (h_results h' (k, x)) q" if "?C x q" for x q
      using that res hinvD(7) [OF inv] by (auto simp: h1 covered_iter_def split: if_splits)
    show "\<not> ?C x q" if x: "fk = Widening_FP" "x \<in> live (n_cfg N)" "x \<notin> ?A' \<union> ?D" for x q
    proof
      assume "?C x q"
      then have "C x q" "x \<notin> nest.inside N b" unfolding covered_iter_def using x(1,3) by (auto split: if_splits)
      then have "x \<notin> ?A" "x \<notin> D" using x(3) nest.level_inside [of N b] by auto
      then show False using hinvD(8) [OF inv x(1,2)] \<open>C x q\<close> by blast
    qed
  qed (use fr out(3) edges loops in auto)
  then show ?thesis using out(1) fr by blast
qed

text \<open>The fixpoint of a loop: nothing new is covered, the exits are activated.\<close>

lemma finish_fixed:
  assumes on: "hai_on E k N" and inv: "hinv N D C h" and r: "nest.ready N (h_active N k h) D b"
    and bA: "b \<in> h_active N k h"
    and W: "h_work h = map (Pair k) (W @ [b])" "distinct (W @ [b])" "set (W @ [b]) = {b. nest.ready N (h_active N k h) D b}"
    and h1: "h_edge h1 = (\<lambda>e. if e \<in> nest.eins N b then None else h_edge h e)" "h_first h1 = (h_first h)((k, b) := True)"
      "h_fixed h1 = (h_fixed h)((k, b) := True)" "h_fp h1 = (h_fp h)((k, b) := None)" "h_calls h1 = []" "h_cur h1 = k"
      "h_work h1 = map (Pair k) W" "h_results h1 = h_results h" "h_results_out h1 = h_results_out h"
    and backs: "\<And>e d q. e \<in> nest.ebacks N b \<Longrightarrow> h_edge h e = Some d \<Longrightarrow> gamma d q \<Longrightarrow> C b q"
  shows "\<exists>h'. outputProcessing fk E P (k, b) \<lparr>cs_next = None, cs_enter = True, cs_edges = []\<rparr> True h1 = Inr h' \<and>
    h_main h' = h_main h1 \<and> h_first h' = h_first h1 \<and> h_fp h' = h_fp h1 \<and> hinv N (insert b D) C h'"
proof -
  let ?M = "h_marked N h" and ?fx = "h_fix k h" and ?A = "h_active N k h" and ?D = "insert b D"
  let ?A' = "?A - {b}" and ?fx' = "?fx(b := True)" and ?X = "{e \<in> n_edges N. li_exit (n_loops N) e = Some b}"
  note c = hinvD(1) [OF inv] and b = nest.readyD(1,2) [OF r]
  have hd: "loop_header (n_cfg N) b" using bA by (simp add: h_active_def)
  have M1: "h_marked N h1 = ?M - nest.eins N b" "h_fix k h1 = ?fx'" "h_active N k h1 = ?A'"
    using b(1) hd by (auto simp: h_marked_def h_fix_def h_active_def h1 fun_eq_iff)
  have v1: "h_valid h1" using hinvD(4) [OF inv] by (simp add: h_valid_def h1)
  have exm: "e \<in> ?M - nest.eins N b" if "e \<in> ?X" for e using nest.exit_marked [OF c r bA] that by blast
  have "\<exists>l. \<forall>e \<in> ?X. \<exists>d. h_edge h1 e = Some d \<and> hp_leaveContext P (k, b) CTX_LOOP d = Inr (l e) \<and> valid (l e) \<and>
      (\<forall>q. gamma d q \<longrightarrow> gamma (l e) (cout b q))"
  proof (intro bchoice ballI)
    fix e assume "e \<in> ?X"
    then obtain d where d: "h_edge h1 e = Some d" using exm M1(1) by (fastforce simp: h_marked_def)
    then have "valid d" using v1 by (simp add: h_valid_def)
    from leave_ok [OF this] d show "\<exists>y d. h_edge h1 e = Some d \<and> hp_leaveContext P (k, b) CTX_LOOP d = Inr y \<and> valid y \<and>
      (\<forall>q. gamma d q \<longrightarrow> gamma y (cout b q))" by blast
  qed
  then obtain l where l: "\<And>e. e \<in> ?X \<Longrightarrow> \<exists>d. h_edge h1 e = Some d \<and> hp_leaveContext P (k, b) CTX_LOOP d = Inr (l e) \<and> valid (l e) \<and>
      (\<forall>q. gamma d q \<longrightarrow> gamma (l e) (cout b q))" by blast
  have "\<exists>W'. output_exits E P (k, b) h1 = Inr (h1\<lparr>h_edge := (\<lambda>e. if e \<in> ?X then Some (l e) else h_edge h1 e), h_work := map (Pair k) W'\<rparr>) \<and>
    distinct W' \<and> set W' = set W \<union> {e_tgt e | e. e \<in> ?X \<and> nest.tdone N (?M - nest.eins N b) ?fx' ?A' (e_tgt e)}"
  proof (cases "he_exit_list E (k, b)")
    case None
    then have X0: "?X = {}" using env_exits [OF on, of b] by simp
    have "h1\<lparr>h_edge := (\<lambda>e. h_edge h1 e), h_work := map (Pair k) W\<rparr> = h1" using h1(7) by simp
    then show ?thesis unfolding X0 using None W(2) by (intro exI [of _ W]) (simp add: output_exits_def)
  next
    case (Some es)
    then have es: "set es = ?X" "distinct es" using env_exits [OF on, of b] exits_distinct [OF on Some] by auto
    have "\<exists>W' added'. rfold (output_exit_edge E P (k, b)) es ([], h1) =
        Inr (added', h1\<lparr>h_edge := (\<lambda>e. if e \<in> set es then Some (l e) else h_edge h1 e), h_work := map (Pair k) W'\<rparr>) \<and>
      distinct W' \<and> set W' = set W \<union> {e_tgt e | e. e \<in> set es \<and> e_tgt e \<notin> set [] \<and>
        nest.tdone N (h_marked N h1) (h_fix k h1) (h_active N k h1) (e_tgt e)}"
    proof (rule output_exits_list [OF on])
      show "set es \<subseteq> n_edges N" "distinct es" using es by auto
      show "\<exists>d. h_edge h1 e = Some d \<and> hp_leaveContext P (k, b) CTX_LOOP d = Inr (l e)" if "e \<in> set es" for e
        using l that es(1) by blast
      show "\<not> nest.tdone N (h_marked N h1) (h_fix k h1) (h_active N k h1) (e_tgt e)"
        if e: "e \<in> set es" "e_tgt e \<in> set W" "e_tgt e \<notin> set []" for e
      proof -
        have "nest.ready N ?A D (e_tgt e)" using W(3) e(2) by auto
        then show ?thesis using nest.ready_fixed(2) [OF c r bA] e(1) es(1) by blast
      qed
    qed (use h1(7) W(2) in auto)
    then show ?thesis using Some es(1) unfolding M1 by (auto simp: output_exits_def)
  qed
  then obtain W' where W': "output_exits E P (k, b) h1 =
      Inr (h1\<lparr>h_edge := (\<lambda>e. if e \<in> ?X then Some (l e) else h_edge h1 e), h_work := map (Pair k) W'\<rparr>)" "distinct W'"
    "set W' = set W \<union> {e_tgt e | e. e \<in> ?X \<and> nest.tdone N (?M - nest.eins N b) ?fx' ?A' (e_tgt e)}" by blast
  let ?h' = "h1\<lparr>h_edge := (\<lambda>e. if e \<in> ?X then Some (l e) else h_edge h1 e), h_work := map (Pair k) W'\<rparr>"
  have out: "outputProcessing fk E P (k, b) \<lparr>cs_next = None, cs_enter = True, cs_edges = []\<rparr> True h1 = Inr ?h'"
    using W'(1) env_header [OF on b(1)] hd by (simp add: outputProcessing_def)
  have ctl: "h_marked N ?h' = ?M - nest.eins N b" "h_fix k ?h' = ?fx'" "h_active N k ?h' = ?A'"
  proof -
    show "h_marked N ?h' = ?M - nest.eins N b" using exm M1(1) by (auto simp: h_marked_def)
    have "h_fix k ?h' = h_fix k h1" "h_active N k ?h' = h_active N k h1" by (simp_all add: h_fix_def h_active_def fun_eq_iff)
    then show "h_fix k ?h' = ?fx'" "h_active N k ?h' = ?A'" using M1(2,3) by simp_all
  qed
  have "set W = {t. nest.ready N ?A D t} - {b}" using W(2,3) by auto
  then have ready: "set W' = {t. nest.ready N ?A' ?D t}" unfolding W'(3) nest.ready_fixed(1) [OF c r bA] by auto
  have edges: "edge_inv N ?D C ?h' e" if e: "e \<in> n_edges N" for e
  proof (rule edge_invI)
    fix q assume q: "C (e_src e) q" "pass e (after N e q)"
    consider "C (e_tgt e) (edge_enter N cin e (after N e q))" |
        d where "h_edge h e = Some d" "gamma d (if left_loop N D e then after N e q else exec (e_src e) q)"
      using edge_invD [OF hinvD(6) [OF inv e] q] by blast
    then show "C (e_tgt e) (edge_enter N cin e (after N e q)) \<or>
      (\<exists>d. h_edge ?h' e = Some d \<and> gamma d (if left_loop N ?D e then after N e q else exec (e_src e) q))"
    proof cases
      case (2 d)
      show ?thesis
      proof (cases "e \<in> ?X")
        case True
        then have x: "li_exit (n_loops N) e = Some b" by simp
        have "e \<notin> nest.eins N b" using exm [OF True] by blast
        then have "h_edge h1 e = Some d" using 2(1) by (simp add: h1)
        then have "gamma d q' \<Longrightarrow> gamma (l e) (cout b q')" for q' using l [OF True] by auto
        moreover have "left_loop N ?D e" "\<not> left_loop N D e" using x b(2) by (auto simp: left_loop_def)
        ultimately show ?thesis using 2(2) True x by (simp add: edge_leave_def)
      next
        case False
        then have same: "left_loop N ?D e \<longleftrightarrow> left_loop N D e" using e by (auto simp: left_loop_def)
        show ?thesis
        proof (cases "e_tgt e = b")
          case t: True
          then have ei: "e \<in> nest.eins N b" using e by (simp add: nest.eins_def)
          have g: "gamma d (after N e q)" using 2(2) ready_left(1) [OF c r e t] bA by simp
          show ?thesis
          proof (cases "back_edge (n_cfg N) e")
            case True
            then have "C b (after N e q)" using backs [OF _ 2(1) g] e t by (simp add: nest.ebacks_def)
            then show ?thesis using True t by (simp add: edge_enter_def)
          next
            case nb: False
            have "C b (cin b (after N e q))"
              using hinvD(5) [OF inv bA] ei nb 2(1) g unfolding loop_inv_def by blast
            then show ?thesis using nb t hd by (simp add: edge_enter_def)
          qed
        next
          case t: False
          then have "h_edge ?h' e = Some d" using 2(1) False by (auto simp: h1 nest.eins_def)
          then show ?thesis using 2(2) same by simp
        qed
      qed
    qed blast
  qed
  have loops: "loop_inv N C ?h' x" if x: "x \<in> ?A'" for x
  proof -
    have xA: "x \<in> ?A" "x \<noteq> b" using x by auto
    have same: "h_edge ?h' e = h_edge h e" if e: "e \<in> nest.eins N x" "\<not> back_edge (n_cfg N) e" for e
    proof -
      have ed: "e \<in> n_edges N" "e_tgt e = x" using e(1) by (auto simp: nest.eins_def)
      have dl: "nest.delivered N ?A D e" using nest.active_entry(1) [OF c ed(1) e(2)] xA ed(2) by simp
      have "e \<notin> ?X" using dl nest.exit_rep [OF ed(1)] b(2) by (auto simp: nest.delivered_def)
      then show ?thesis using xA(2) ed(2) by (auto simp: h1 nest.eins_def)
    qed
    show ?thesis by (rule loop_inv_same [where C' = C, OF hinvD(5) [OF inv xA(1)] _ refl same]) (use xA in \<open>simp_all add: h1\<close>)
  qed
  have "hinv N ?D C ?h'"
    unfolding hinv_def ctl
  proof (intro conjI impI allI ballI)
    show "nest.cinv N (?M - nest.eins N b) ?fx' ?A' ?D" by (rule nest.cinv_fixed [OF c r bA])
    show "\<exists>W. h_work ?h' = map (Pair k) W \<and> distinct W \<and> set W = {b. nest.ready N ?A' ?D b}" using W'(2) ready by auto
    show "gamma (h_results ?h' (k, x)) q" if "C x q" for x q using that hinvD(7) [OF inv] by (simp add: h1)
    show "\<not> C x q" if "fk = Widening_FP" "x \<in> live (n_cfg N)" "x \<notin> ?A' \<union> ?D" for x q
      using hinvD(8) [OF inv that(1,2)] that(3) by auto
    show "h_valid ?h'" using v1 l by (auto simp: h_valid_def)
  qed (use h1 edges loops in auto)
  then show ?thesis using out by (intro exI [of _ ?h']) simp
qed

text \<open>One turn of the main loop.\<close>

definition progress :: "hai_env \<Rightarrow> nested \<Rightarrow> nat set \<Rightarrow> 'd hai \<Rightarrow> nat set \<Rightarrow> 'd hai \<Rightarrow> nat \<Rightarrow> bool" where
  "progress E N D h D' h' b \<longleftrightarrow>
     (\<not> loop_header (n_cfg N) b \<and> D' = insert b D \<and> h_first h' = h_first h \<and> h_fp h' = h_fp h) \<or>
     (loop_header (n_cfg N) b \<and> D' = D - nest.level N b \<and> h_first h' = (h_first h)((k, b) := False) \<and>
       (\<exists>fs. h_fp h' = (h_fp h)((k, b) \<mapsto> fs) \<and> fp_ok fs \<and> (b \<in> h_active N k h \<longrightarrow>
         (\<exists>fs0 h0 n. h_fp h (k, b) = Some fs0 \<and> fp_ok fs0 \<and> h_valid h0 \<and>
            fixPoint fk E P h0 (k, b) False fs0 = Inr (n, False, fs))))) \<or>
     (b \<in> h_active N k h \<and> D' = insert b D \<and> h_first h' = (h_first h)((k, b) := True) \<and>
       h_fp h' = (h_fp h)((k, b) := None))"

lemma hinv_work:
  assumes "hinv N D C h" "h_work h \<noteq> []"
  obtains W b where "h_work h = map (Pair k) (W @ [b])" "distinct (W @ [b])"
    "set (W @ [b]) = {b. nest.ready N (h_active N k h) D b}" "nest.ready N (h_active N k h) D b"
    "last (h_work h) = (k, b)" "butlast (h_work h) = map (Pair k) W"
proof -
  obtain V where V: "h_work h = map (Pair k) V" "distinct V" "set V = {b. nest.ready N (h_active N k h) D b}"
    using assms(1) unfolding hinv_def by blast
  then obtain W b where Wb: "V = W @ [b]" using assms(2) by (cases V rule: rev_cases) auto
  then have "nest.ready N (h_active N k h) D b" using V(3) by auto
  then show ?thesis using that [of W b] V Wb by simp
qed

lemma step_main:
  assumes on: "hai_on E k N" and ok: "ok 0" and ent: "valid ent" and inv: "hinv N D C h" and m: "h_main h" and w: "h_work h = [(k, 0)]"
  shows "\<exists>h' D' C'. hai_step fk E P ent h = Inr h' \<and> hinv N D' C' h' \<and> \<not> h_main h' \<and> (\<forall>q. gamma ent q \<longrightarrow> C' 0 q) \<and>
    progress E N D h D' h' 0"
proof -
  obtain W b where W: "h_work h = map (Pair k) (W @ [b])" "distinct (W @ [b])"
      "set (W @ [b]) = {b. nest.ready N (h_active N k h) D b}" and r: "nest.ready N (h_active N k h) D b"
    by (rule hinv_work [OF inv]) (use w in auto)
  then have b0: "b = 0" "W = []" using w by (auto simp: Cons_eq_append_conv)
  note bl = nest.readyD(1) [OF r] and hd = nest.entry(3) [of N]
  have e0: "nest.eins N 0 = {}" using nest.no_in by (auto simp: nest.eins_def)
  let ?h1 = "h\<lparr>h_work := [], h_in := ent, h_main := False\<rparr>"
  have "\<exists>h'. outputProcessing fk E P (k, 0) \<lparr>cs_next = None, cs_enter = True, cs_edges = []\<rparr> False ?h1 = Inr h' \<and>
    h_main h' = h_main ?h1 \<and> h_first h' = h_first h \<and> h_fp h' = h_fp h \<and>
    hinv N (insert 0 D) (C(0 := \<lambda>q. C 0 q \<or> gamma (h_in ?h1) q)) h'"
  proof (rule finish_simple [OF on ok inv])
    show "nest.ready N (h_active N k h) D 0" using r b0 by simp
    show "set ([] @ [0]) = {b. nest.ready N (h_active N k h) D b}" using W(3) b0 by simp
  qed (use w hd e0 ent hinvD(2,3) [OF inv] in auto)
  then obtain h' where h': "outputProcessing fk E P (k, 0) \<lparr>cs_next = None, cs_enter = True, cs_edges = []\<rparr> False ?h1 = Inr h'"
    "\<not> h_main h'" "h_first h' = h_first h" "h_fp h' = h_fp h" "hinv N (insert 0 D) (C(0 := \<lambda>q. C 0 q \<or> gamma ent q)) h'" by auto
  have "hai_step fk E P ent h = Inr h'"
    using w m h'(1) by (simp add: hai_step_def inputProcessing_def Let_def env_calls [OF on bl, unfolded b0])
  moreover have "progress E N D h (insert 0 D) h' 0" using h'(3,4) hd by (simp add: progress_def)
  ultimately show ?thesis using h'(2,5) by (intro exI [of _ h'] exI [of _ "insert 0 D"] exI) auto
qed

lemma step_simple:
  assumes on: "hai_on E k N" and ok: "ok b" and inv: "hinv N D C h" and m: "\<not> h_main h" and hd: "\<not> loop_header (n_cfg N) b"
    and b0: "b \<noteq> 0"
    and W: "h_work h = map (Pair k) (W @ [b])" "distinct (W @ [b])" "set (W @ [b]) = {b. nest.ready N (h_active N k h) D b}"
  shows "\<exists>h' D' C'. hai_step fk E P ent h = Inr h' \<and> hinv N D' C' h' \<and> \<not> h_main h' \<and> (\<forall>x q. x = 0 \<and> C x q \<longrightarrow> C' x q) \<and>
    progress E N D h D' h' b"
proof -
  have r: "nest.ready N (h_active N k h) D b" using W(3) by auto
  note c = hinvD(1) [OF inv] and bl = nest.readyD(1) [OF r] and lo = env_lists(1,2) [OF on nest.readyD(1) [OF r]]
  have mk: "\<exists>d. h_edge h e = Some d \<and> valid d" if e: "e \<in> nest.eins N b" for e
  proof -
    have "\<not> back_edge (n_cfg N) e" using nest.back_hdr [of e N] e hd by (auto simp: nest.eins_def)
    then have "e \<in> h_marked N h" using ready_left(2) [OF c r] e by (simp add: nest.eins_def)
    then show ?thesis using hinvD(4) [OF inv] by (auto simp: h_marked_def h_valid_def)
  qed
  let ?h0 = "h\<lparr>h_work := map (Pair k) W, h_in := hp_bottom P\<rparr>"
  have he0: "h_edge ?h0 = h_edge h" by simp
  have "\<exists>i. rfold (input_edge fk E P (k, b) False) (he_ins E (k, b)) ?h0 =
      Inr (?h0\<lparr>h_edge := (\<lambda>e. if e \<in> set (he_ins E (k, b)) then None else h_edge ?h0 e), h_in := i\<rparr>) \<and> valid i \<and>
    (\<forall>q. gamma (h_in ?h0) q \<longrightarrow> gamma i q) \<and>
    (\<forall>e \<in> set (he_ins E (k, b)). \<forall>d q. h_edge ?h0 e = Some d \<and> gamma d q \<and> pass e q \<longrightarrow> gamma i q)"
    by (rule input_simple_list [OF on]) (use lo mk bottom_valid in \<open>auto simp: nest.eins_def\<close>)
  then obtain i where i: "rfold (input_edge fk E P (k, b) False) (he_ins E (k, b)) ?h0 =
      Inr (?h0\<lparr>h_edge := (\<lambda>e. if e \<in> nest.eins N b then None else h_edge h e), h_in := i\<rparr>)" "valid i"
    "\<And>e d q. e \<in> nest.eins N b \<Longrightarrow> h_edge h e = Some d \<Longrightarrow> gamma d q \<Longrightarrow> pass e q \<Longrightarrow> gamma i q"
    unfolding lo(1) he0 by blast
  let ?h1 = "?h0\<lparr>h_edge := (\<lambda>e. if e \<in> nest.eins N b then None else h_edge h e), h_in := i\<rparr>"
  have "\<exists>h'. outputProcessing fk E P (k, b) \<lparr>cs_next = None, cs_enter = True, cs_edges = []\<rparr> False ?h1 = Inr h' \<and>
    h_main h' = h_main ?h1 \<and> h_first h' = h_first h \<and> h_fp h' = h_fp h \<and>
    hinv N (insert b D) (C(b := \<lambda>q. C b q \<or> gamma (h_in ?h1) q)) h'"
    by (rule finish_simple [OF on ok inv r hd W]) (use i hinvD(2,3) [OF inv] in auto)
  then obtain h' where h': "outputProcessing fk E P (k, b) \<lparr>cs_next = None, cs_enter = True, cs_edges = []\<rparr> False ?h1 = Inr h'"
    "\<not> h_main h'" "h_first h' = h_first h" "h_fp h' = h_fp h" "hinv N (insert b D) (C(b := \<lambda>q. C b q \<or> gamma i q)) h'" using m by auto
  have "inputProcessing fk E P ent (k, b) \<lparr>cs_next = None, cs_enter = True, cs_edges = []\<rparr> (h\<lparr>h_work := map (Pair k) W\<rparr>) = Inr (False, ?h1)"
    using m env_entry [OF on bl] b0 env_header [OF on bl] hd i(1) env_plain(3) [OF on]
    by (simp add: inputProcessing_def input_simple_def Let_def)
  then have "hai_step fk E P ent h = Inr h'" using W(1) h'(1) by (simp add: hai_step_def Let_def env_calls [OF on bl])
  moreover have "progress E N D h (insert b D) h' b" using h'(3,4) hd by (simp add: progress_def)
  ultimately show ?thesis using h'(2,5) b0 by (intro exI [of _ h'] exI [of _ "insert b D"] exI) auto
qed

lemma step_header:
  assumes on: "hai_on E k N" and ok: "ok b" and inv: "hinv N D C h" and m: "\<not> h_main h" and hd: "loop_header (n_cfg N) b"
    and W: "h_work h = map (Pair k) (W @ [b])" "distinct (W @ [b])" "set (W @ [b]) = {b. nest.ready N (h_active N k h) D b}"
  shows "\<exists>h' D' C'. hai_step fk E P ent h = Inr h' \<and> hinv N D' C' h' \<and> \<not> h_main h' \<and> (\<forall>x q. x = 0 \<and> C x q \<longrightarrow> C' x q) \<and>
    progress E N D h D' h' b"
proof -
  let ?A = "h_active N k h" and ?cs = "\<lparr>cs_next = None, cs_enter = True, cs_edges = []\<rparr>"
  have r: "nest.ready N ?A D b" using W(3) by auto
  note c = hinvD(1) [OF inv] and bl = nest.readyD(1,2) [OF r]
  note lo = env_lists(1,2) [OF on bl(1)]
  have b0: "b \<noteq> 0" using hd nest.entry(3) [of N] by metis
  have act: "h_first h (k, b) \<longleftrightarrow> b \<notin> ?A" using bl(1) hd by (simp add: h_active_def)
  have mk: "\<exists>d. h_edge h e = Some d \<and> valid d" if e: "e \<in> nest.eins N b" "\<not> (back_edge (n_cfg N) e \<and> b \<notin> ?A)" for e
  proof -
    have "e \<in> h_marked N h" using ready_left(2) [OF c r] e by (simp add: nest.eins_def)
    then show ?thesis using hinvD(4) [OF inv] by (auto simp: h_marked_def h_valid_def)
  qed
  have backs_set: "e \<in> nest.ebacks N b \<longleftrightarrow> e \<in> nest.eins N b \<and> back_edge (n_cfg N) e" for e
    by (auto simp: nest.ebacks_def nest.eins_def)
  let ?h0 = "h\<lparr>h_work := map (Pair k) W, h_in := hp_bottom P\<rparr>"
  have unb: "rfold (unmark_back E (k, b)) (he_ins E (k, b)) g =
      Inr (g\<lparr>h_edge := (\<lambda>e. if e \<in> nest.ebacks N b then None else h_edge h e)\<rparr>)" if "h_edge g = h_edge h" for g
    using unmark_back_list [OF on, of "he_ins E (k, b)" b g] lo(1) backs_set that by (simp cong: if_cong)
  have une: "rfold (unmark_entry E (k, b)) (he_ins E (k, b)) g =
      Inr (g\<lparr>h_edge := (\<lambda>e. if e \<in> nest.eins N b then None else h_edge h e)\<rparr>)"
    if g: "h_edge g = (\<lambda>e. if e \<in> nest.ebacks N b then None else h_edge h e)" for g
  proof -
    have "(\<lambda>e. if e \<in> nest.eins N b \<and> \<not> back_edge (n_cfg N) e then None else h_edge g e) =
        (\<lambda>e. if e \<in> nest.eins N b then None else h_edge h e)"
      unfolding g by (auto simp: backs_set)
    then show ?thesis using unmark_entry_list [OF on, of "he_ins E (k, b)" b g] lo(1) by simp
  qed
  have inp: "inputProcessing fk E P ent (k, b) ?cs (h\<lparr>h_work := map (Pair k) W\<rparr>) = input_header fk E P (k, b) ?h0"
    using m env_entry [OF on bl(1)] b0 env_header [OF on bl(1)] hd by (simp add: inputProcessing_def Let_def)
  have step: "hai_step fk E P ent h = Inr h'"
    if "input_header fk E P (k, b) ?h0 = Inr (fixed, h1)" "outputProcessing fk E P (k, b) ?cs fixed h1 = Inr h'" for fixed h1 h'
    using W(1) that inp by (simp add: hai_step_def Let_def env_calls [OF on bl(1)])
  show ?thesis
  proof (cases "b \<in> ?A")
    case False
    let ?hf = "?h0\<lparr>h_fp := (h_fp h)((k, b) \<mapsto> fp_newState P)\<rparr>"
    have hf: "h_edge ?hf = h_edge h" by simp
    obtain n fs where fp: "fixPoint fk E P ?hf (k, b) True (fp_newState P) = Inr (n, False, fs)" "fp_ok fs" "fs_header fs = n"
      "\<forall>e \<in> nest.eins N b. \<not> back_edge (n_cfg N) e \<longrightarrow> (\<forall>d q. h_edge h e = Some d \<and> gamma d q \<longrightarrow> gamma n (cin b q))"
      using fixPoint_start [OF on bl(1), of ?hf] mk unfolding hf by blast
    let ?h1 = "?h0\<lparr>h_in := n, h_fp := (h_fp h)((k, b) \<mapsto> fs), h_first := (h_first h)((k, b) := False),
      h_fixed := (h_fixed h)((k, b) := False), h_edge := (\<lambda>e. if e \<in> nest.ebacks N b then None else h_edge h e)\<rparr>"
    have inh: "input_header fk E P (k, b) ?h0 = Inr (False, ?h1)"
      using False act fp(1) by (simp add: input_header_def Let_def deref_def unb)
    have "\<exists>h'. outputProcessing fk E P (k, b) ?cs False ?h1 = Inr h' \<and>
      h_main h' = h_main ?h1 \<and> h_first h' = h_first ?h1 \<and> h_fp h' = h_fp ?h1 \<and> hinv N (D - nest.level N b) (covered_iter N b n C) h'"
      by (rule finish_iter [OF on ok inv r hd W])
        (use fp hinvD(2,3) [OF inv] False hinvD(8) [OF inv _ bl(1) False bl(2)] in auto)
    then obtain h' where h': "outputProcessing fk E P (k, b) ?cs False ?h1 = Inr h'" "\<not> h_main h'" "h_first h' = h_first ?h1"
      "h_fp h' = h_fp ?h1" "hinv N (D - nest.level N b) (covered_iter N b n C) h'" using m by auto
    have "progress E N D h (D - nest.level N b) h' b" using h'(3,4) hd False fp(2) by (auto simp: progress_def)
    moreover have "covered_iter N b n C 0 q" if "C 0 q" for q using that b0 nest.entry_outside by (simp add: covered_iter_def)
    ultimately show ?thesis using step [OF inh h'(1)] h'(2,5) by blast
  next
    case bA: True
    obtain fs0 where fs0: "h_fp h (k, b) = Some fs0" "fp_ok fs0" "\<And>q. gamma (fs_header fs0) q \<Longrightarrow> C b q"
        "\<And>q. fk = Widening_FP \<Longrightarrow> C b q \<Longrightarrow> gamma (fs_header fs0) q"
      and ent0: "\<And>e d q. e \<in> nest.eins N b \<Longrightarrow> \<not> back_edge (n_cfg N) e \<Longrightarrow> h_edge h e = Some d \<Longrightarrow> gamma d q \<Longrightarrow> C b (cin b q)"
      using hinvD(5) [OF inv bA] unfolding loop_inv_def by blast
    obtain n fixed fs where fp: "fixPoint fk E P ?h0 (k, b) False fs0 = Inr (n, fixed, fs)" "fp_ok fs" "fs_header fs = n"
      "\<forall>e \<in> nest.eins N b. back_edge (n_cfg N) e \<longrightarrow> (\<forall>d q. h_edge ?h0 e = Some d \<and> gamma d q \<longrightarrow> gamma n q)"
      "fixed \<longrightarrow> (\<forall>q. gamma n q \<longrightarrow> gamma (fs_header fs0) q)" "fk = Widening_FP \<longrightarrow> (\<forall>q. gamma (fs_header fs0) q \<longrightarrow> gamma n q)"
      using fixPoint_again [OF on bl(1) _ _ fs0(2), of ?h0] bA act mk by auto
    have fpb: "gamma n q" if "e \<in> nest.ebacks N b" "h_edge h e = Some d" "gamma d q" for e d q
      using fp(4) that by (auto simp: backs_set)
    have hv0: "h_valid ?h0" using hinvD(4) [OF inv] by (simp add: h_valid_def)
    let ?hb = "?h0\<lparr>h_in := n, h_fp := (h_fp h)((k, b) \<mapsto> fs), h_first := (h_first h)((k, b) := False),
      h_fixed := (h_fixed h)((k, b) := fixed), h_edge := (\<lambda>e. if e \<in> nest.ebacks N b then None else h_edge h e)\<rparr>"
    show ?thesis
    proof (cases fixed)
      case False
      have inh: "input_header fk E P (k, b) ?h0 = Inr (False, ?hb)"
        using bA act fp(1) fs0(1) False by (simp add: input_header_def Let_def deref_def unb)
      have "\<exists>h'. outputProcessing fk E P (k, b) ?cs False ?hb = Inr h' \<and>
        h_main h' = h_main ?hb \<and> h_first h' = h_first ?hb \<and> h_fp h' = h_fp ?hb \<and> hinv N (D - nest.level N b) (covered_iter N b n C) h'"
        by (rule finish_iter [OF on ok inv r hd W])
          (use fp(2,3,6) fpb hinvD(2,3) [OF inv] False ent0 fs0(4) in auto)
      then obtain h' where h': "outputProcessing fk E P (k, b) ?cs False ?hb = Inr h'" "\<not> h_main h'" "h_first h' = h_first ?hb"
        "h_fp h' = h_fp ?hb" "hinv N (D - nest.level N b) (covered_iter N b n C) h'" using m by auto
      have "progress E N D h (D - nest.level N b) h' b"
        unfolding progress_def using h'(3,4) hd fp(1,2) fs0(1,2) hv0 False by auto
      moreover have "covered_iter N b n C 0 q" if "C 0 q" for q using that b0 nest.entry_outside by (simp add: covered_iter_def)
      ultimately show ?thesis using step [OF inh h'(1)] h'(2,5) by blast
    next
      case True
      let ?h1 = "?h0\<lparr>h_in := n, h_fp := (h_fp h)((k, b) := None), h_first := (h_first h)((k, b) := True),
        h_fixed := (h_fixed h)((k, b) := True), h_edge := (\<lambda>e. if e \<in> nest.eins N b then None else h_edge h e)\<rparr>"
      have inh: "input_header fk E P (k, b) ?h0 = Inr (True, ?h1)"
        using bA act fp(1) fs0(1) True env_plain(3) [OF on] by (simp add: input_header_def Let_def deref_def unb une)
      have "\<exists>h'. outputProcessing fk E P (k, b) ?cs True ?h1 = Inr h' \<and>
        h_main h' = h_main ?h1 \<and> h_first h' = h_first ?h1 \<and> h_fp h' = h_fp ?h1 \<and> hinv N (insert b D) C h'"
        by (rule finish_fixed [OF on inv r bA W])
          (use fpb fp(5) fs0(3) hinvD(2,3) [OF inv] True in auto)
      then obtain h' where h': "outputProcessing fk E P (k, b) ?cs True ?h1 = Inr h'" "\<not> h_main h'" "h_first h' = h_first ?h1"
        "h_fp h' = h_fp ?h1" "hinv N (insert b D) C h'" using m by auto
      have "progress E N D h (insert b D) h' b" using h'(3,4) bA by (auto simp: progress_def)
      then show ?thesis using step [OF inh h'(1)] h'(2,5) by blast
    qed
  qed
qed

definition run_inv :: "nested \<Rightarrow> 'd \<Rightarrow> nat set \<Rightarrow> (nat \<Rightarrow> 'c \<Rightarrow> bool) \<Rightarrow> 'd hai \<Rightarrow> bool" where
  "run_inv N ent D C h \<longleftrightarrow> hinv N D C h \<and> \<not> h_main h \<and> 0 \<in> D \<and> (\<forall>q. gamma ent q \<longrightarrow> C 0 q)"

lemma progress_entry: "progress E N D h D' h' b \<Longrightarrow> 0 \<in> D \<Longrightarrow> 0 \<in> D'"
  using nest.entry(2) [of N] by (auto simp: progress_def nest.level_def)

lemma run_step:
  assumes on: "hai_on E k N" and ok: "\<And>b. b \<in> live (n_cfg N) \<Longrightarrow> ok b" and inv: "run_inv N ent D C h" and w: "h_work h \<noteq> []"
  shows "\<exists>h' D' C' b. hai_step fk E P ent' h = Inr h' \<and> run_inv N ent D' C' h' \<and> nest.ready N (h_active N k h) D b \<and>
    progress E N D h D' h' b"
proof -
  have hi: "hinv N D C h" and m: "\<not> h_main h" and D0: "0 \<in> D" and C0: "\<And>q. gamma ent q \<Longrightarrow> C 0 q"
    using inv by (auto simp: run_inv_def)
  obtain W b where W: "h_work h = map (Pair k) (W @ [b])" "distinct (W @ [b])"
      "set (W @ [b]) = {b. nest.ready N (h_active N k h) D b}" and r: "nest.ready N (h_active N k h) D b"
    by (rule hinv_work [OF hi w])
  have okb: "ok b" by (rule ok [OF nest.readyD(1) [OF r]])
  have b0: "b \<noteq> 0" using nest.readyD(2) [OF r] D0 by metis
  have "\<exists>h' D' C'. hai_step fk E P ent' h = Inr h' \<and> hinv N D' C' h' \<and> \<not> h_main h' \<and> (\<forall>x q. x = 0 \<and> C x q \<longrightarrow> C' x q) \<and>
    progress E N D h D' h' b"
  proof (cases "loop_header (n_cfg N) b")
    case True
    show ?thesis by (rule step_header [OF on okb hi m True W])
  next
    case False
    show ?thesis by (rule step_simple [OF on okb hi m False b0 W])
  qed
  then show ?thesis using progress_entry [of E N D h _ _ b] D0 C0 r unfolding run_inv_def by metis
qed

end

end
