(* ===== verification/Hai_Run.thy ===== *)
theory Hai_Run
  imports Hai_Sound
begin

text \<open>
  Runs of \<^verbatim>\<open>HalfAbsInt::solve\<close> on one reducible CFG: what the table of results covers when the
  work list is empty, and the end of the loop for \<^verbatim>\<open>WideningFixPoint\<close> over domains of finite height.
\<close>

subsection \<open>Effort left\<close>

text \<open>
  A block weighs more than all the visits of the loop it heads: a loop is visited at most once
  for each step its header state can take, and once to find the fixpoint.
\<close>

context loop_nest
begin

definition weight :: "nat \<Rightarrow> nat \<Rightarrow> nat" where
  "weight B b = B ^ (Suc (Max (rk ` V)) - rk b)"

definition inner :: "nat \<Rightarrow> nat \<Rightarrow> nat" where
  "inner B x = (\<Sum>c \<in> level x. weight B c)"

definition effort :: "nat \<Rightarrow> (nat \<Rightarrow> nat) \<Rightarrow> nat set \<Rightarrow> nat set \<Rightarrow> nat" where
  "effort B t A D = (\<Sum>b \<in> V - A - D. weight B b) + (\<Sum>x \<in> A. t x * Suc (inner B x) + 1)"

lemma weight_pos: "0 < B \<Longrightarrow> 0 < weight B b"
  by (simp add: weight_def)

lemma finite_level: "finite (level b)"
  using fin by (simp add: level_def)

lemma weight_level:
  assumes B: "Suc H * Suc (card V) < B" and b: "b \<in> V"
  shows "Suc H * Suc (inner B b) < weight B b"
proof -
  let ?R = "Max (rk ` V)"
  have R: "rk b \<le> ?R" using b fin by simp
  have wl: "weight B c \<le> B ^ (?R - rk b)" if "c \<in> level b" for c
  proof -
    have "rk b < rk c" using that par_V by (auto simp: level_def)
    then show ?thesis unfolding weight_def by (intro power_increasing) (use B in auto)
  qed
  then have "inner B b \<le> card (level b) * B ^ (?R - rk b)"
    using sum_bounded_above [of "level b" "weight B", OF wl] by (simp add: inner_def)
  also have "card (level b) \<le> card V" using fin by (intro card_mono) (auto simp: level_def)
  finally have "inner B b \<le> card V * B ^ (?R - rk b)" by simp
  moreover have "Suc 0 \<le> B ^ (?R - rk b)" using B by (simp add: Suc_le_eq)
  ultimately have "Suc (inner B b) \<le> Suc (card V) * B ^ (?R - rk b)" by simp
  then have "Suc H * Suc (inner B b) \<le> Suc H * Suc (card V) * B ^ (?R - rk b)"
    using mult_le_mono [of "Suc H" "Suc H"] by (metis mult.assoc order_refl)
  also have "\<dots> < B * B ^ (?R - rk b)" by (rule mult_strict_right_mono [OF B]) (use B in simp)
  also have "\<dots> = weight B b" using R by (simp add: weight_def Suc_diff_le)
  finally show ?thesis .
qed

lemma effort_simple:
  assumes "0 < B" "b \<in> V" "b \<notin> A" "b \<notin> D"
  shows "effort B t A (insert b D) < effort B t A D"
proof -
  have eq: "V - A - D = insert b (V - A - insert b D)" using assms by blast
  have "sum (weight B) (V - A - D) = weight B b + sum (weight B) (V - A - insert b D)"
    unfolding eq by (rule sum.insert) (use fin in auto)
  then show ?thesis using weight_pos [OF assms(1), of b] by (simp add: effort_def)
qed

lemma active_split:
  assumes "A \<subseteq> V" "b \<in> A"
  shows "(\<Sum>x \<in> A. t x * Suc (inner B x) + 1) = t b * Suc (inner B b) + 1 + (\<Sum>x \<in> A - {b}. t x * Suc (inner B x) + 1)"
  by (rule sum.remove [OF finite_subset [OF assms(1) fin] assms(2)])

lemma effort_fixed:
  assumes "A \<subseteq> V" "b \<in> A" and t: "\<And>x. x \<noteq> b \<Longrightarrow> t' x = t x"
  shows "effort B t' (A - {b}) (insert b D) < effort B t A D"
proof -
  have "(\<Sum>b \<in> V - (A - {b}) - insert b D. weight B b) \<le> (\<Sum>b \<in> V - A - D. weight B b)"
    by (rule sum_mono2) (use fin in auto)
  moreover have "(\<Sum>x \<in> A - {b}. t' x * Suc (inner B x) + 1) = (\<Sum>x \<in> A - {b}. t x * Suc (inner B x) + 1)"
    by (rule sum.cong) (auto simp: t)
  ultimately show ?thesis using active_split [OF assms(1,2), of t B] by (simp add: effort_def)
qed

lemma reopen_level:
  assumes "level b \<subseteq> D" "A \<inter> D = {}" "b \<notin> D"
  shows "(\<Sum>b \<in> V - insert b A - (D - level b). weight B b) = inner B b + (\<Sum>b \<in> V - insert b A - D. weight B b)"
proof -
  have "b \<notin> level b" by (rule level_hdr)
  then have eq: "V - insert b A - (D - level b) = level b \<union> (V - insert b A - D)" using assms by (auto simp: level_def)
  moreover have "level b \<inter> (V - insert b A - D) = {}" using assms by blast
  ultimately show ?thesis using fin finite_level unfolding eq by (subst sum.union_disjoint) (auto simp: inner_def)
qed

lemma effort_first:
  assumes B: "Suc H * Suc (card V) < B" and A: "A \<subseteq> V" "b \<in> V" "b \<notin> A" "b \<notin> D" "level b \<subseteq> D" "A \<inter> D = {}"
    and t: "\<And>x. x \<noteq> b \<Longrightarrow> t' x = t x" "t' b \<le> H"
  shows "effort B t' (insert b A) (D - level b) < effort B t A D"
proof -
  have eq: "V - A - D = insert b (V - insert b A - D)" using A by blast
  have 1: "sum (weight B) (V - A - D) = weight B b + sum (weight B) (V - insert b A - D)"
    unfolding eq by (rule sum.insert) (use fin in auto)
  have "(\<Sum>x \<in> A. t' x * Suc (inner B x) + 1) = (\<Sum>x \<in> A. t x * Suc (inner B x) + 1)"
    by (rule sum.cong [OF refl]) (use A(3) t(1) in metis)
  moreover have "finite A" using A(1) fin finite_subset by blast
  ultimately have 2: "(\<Sum>x \<in> insert b A. t' x * Suc (inner B x) + 1) =
      t' b * Suc (inner B b) + 1 + (\<Sum>x \<in> A. t x * Suc (inner B x) + 1)"
    using A(3) by simp
  have "t' b * Suc (inner B b) \<le> H * Suc (inner B b)" using t(2) by (rule mult_le_mono1)
  then show ?thesis
    using 1 2 reopen_level [OF A(5,6,4), of B] weight_level [OF B A(2)] by (simp add: effort_def)
qed

lemma effort_again:
  assumes A: "A \<subseteq> V" "b \<in> A" "level b \<subseteq> D" "A \<inter> D = {}" and t: "\<And>x. x \<noteq> b \<Longrightarrow> t' x = t x" "t' b < t b"
  shows "effort B t' A (D - level b) < effort B t A D"
proof -
  have "(\<Sum>x \<in> A - {b}. t' x * Suc (inner B x) + 1) = (\<Sum>x \<in> A - {b}. t x * Suc (inner B x) + 1)"
    by (rule sum.cong) (auto simp: t)
  moreover have "Suc (t' b) * Suc (inner B b) \<le> t b * Suc (inner B b)" using t(2) by (intro mult_le_mono1) simp
  moreover have "insert b A = A" "b \<notin> D" using A by auto
  ultimately show ?thesis
    using reopen_level [OF A(3,4), of B] active_split [OF A(1,2), of t' B] active_split [OF A(1,2), of t B]
    by (simp add: effort_def)
qed

end

subsection \<open>Concrete states\<close>

text \<open>
  The states with which the executions of a CFG enter its blocks: \<open>exec\<close> is the effect of a block,
  \<open>pass\<close> the states that may take an edge, \<open>cin\<close> and \<open>cout\<close> the effects of entering and of leaving
  the loop of a header, \<open>S\<close> the states at the entry.
\<close>

inductive entering :: "cfg \<Rightarrow> loop_info \<Rightarrow> (nat \<Rightarrow> 'c \<Rightarrow> 'c) \<Rightarrow> (edge \<Rightarrow> 'c \<Rightarrow> bool) \<Rightarrow> (nat \<Rightarrow> 'c \<Rightarrow> 'c) \<Rightarrow>
    (nat \<Rightarrow> 'c \<Rightarrow> 'c) \<Rightarrow> ('c \<Rightarrow> bool) \<Rightarrow> nat \<Rightarrow> 'c \<Rightarrow> bool"
  for g :: cfg and li :: loop_info and exec :: "nat \<Rightarrow> 'c \<Rightarrow> 'c" and pass :: "edge \<Rightarrow> 'c \<Rightarrow> bool"
    and cin cout :: "nat \<Rightarrow> 'c \<Rightarrow> 'c" and S :: "'c \<Rightarrow> bool" where
  entering_start: "S q \<Longrightarrow> entering g li exec pass cin cout S 0 q"
| entering_edge: "entering g li exec pass cin cout S (e_src e) q \<Longrightarrow> e \<in> all_edges g \<Longrightarrow>
    q' = (case li_exit li e of None \<Rightarrow> exec (e_src e) q | Some x \<Rightarrow> cout x (exec (e_src e) q)) \<Longrightarrow> pass e q' \<Longrightarrow>
    entering g li exec pass cin cout S (e_tgt e)
      (if loop_header g (e_tgt e) \<and> \<not> back_edge g e then cin (e_tgt e) q' else q')"

definition hai_input :: "hai_env \<Rightarrow> nat \<Rightarrow> bool" where
  "hai_input E k \<longleftrightarrow> (\<exists>rk. nest_graph (cfg_of (he_pg E) k, he_doms E k, he_loops E k, rk)) \<and>
     (\<forall>b. \<not> he_dont_bb E b \<and> he_bypass_source E b = None \<and> \<not> he_bypass_target E b)"

lemma hai_input_nested:
  assumes "hai_input E k"
  obtains N where "hai_on E k N" "n_cfg N = cfg_of (he_pg E) k" "n_loops N = he_loops E k"
  using assms nested_of unfolding hai_input_def hai_on_def by metis

context hai_domain
begin

lemma run_covers:
  assumes inv: "run_inv N ent D C h" and w: "h_work h = []"
    and q: "entering (n_cfg N) (n_loops N) exec pass cin cout (gamma ent) b q"
  shows "gamma (h_results h (k, b)) q"
proof -
  have hi: "hinv N D C h" and C0: "\<And>q. gamma ent q \<Longrightarrow> C 0 q" using inv by (auto simp: run_inv_def)
  have no: "\<not> nest.ready N (h_active N k h) D b" for b using hi w by (auto simp: hinv_def)
  have un: "h_edge h e = None" if "e \<in> n_edges N" for e
    using nest.all_done(3) [OF hinvD(1) [OF hi] no] that by (auto simp: h_marked_def)
  from q have "C b q"
  proof induction
    case (entering_edge e q q')
    have q': "q' = after N e q" using entering_edge(3) by (auto simp: edge_leave_def split: option.split)
    have "C (e_tgt e) (edge_enter N cin e (after N e q))"
      using edge_invD [OF hinvD(6) [OF hi entering_edge(2)] entering_edge(5)] entering_edge(4) un [OF entering_edge(2)] q' by auto
    then show ?case unfolding q' edge_enter_def .
  qed (rule C0)
  then show ?thesis by (rule hinvD(7) [OF hi])
qed

text \<open>The first turn of the loop visits the entry with the given state.\<close>

abbreviation start_state :: "'d hai" where
  "start_state \<equiv> (hai_new P)\<lparr>h_work := [(k, 0)], h_calls := [], h_main := True, h_cur := k\<rparr>"

lemma hinv_new: "hinv N {b \<in> live (n_cfg N). li_enclosing (n_loops N) ! b \<noteq> None} (\<lambda>_ _. False) start_state"
proof -
  have m: "h_marked N start_state = {}" "h_active N k start_state = {}" "h_fix k start_state = (\<lambda>_. False)"
    by (auto simp: h_marked_def h_active_def h_fix_def hai_new_def)
  have "\<exists>W. h_work start_state = map (Pair k) W \<and> distinct W \<and>
      set W = {b. nest.ready N {} {b \<in> live (n_cfg N). li_enclosing (n_loops N) ! b \<noteq> None} b}"
    by (intro exI [of _ "[0]"]) (simp add: nest.ready_start del: not_None_eq)
  then show ?thesis
    unfolding hinv_def m using nest.cinv_start [of N] bottom_valid
    by (simp add: hai_new_def h_valid_def edge_inv_def)
qed

lemma run_start:
  assumes on: "hai_on E k N" and ok: "\<And>b. b \<in> live (n_cfg N) \<Longrightarrow> ok b" and ent: "valid ent"
  shows "\<exists>h' D C. hai_step fk E P ent start_state = Inr h' \<and> run_inv N ent D C h'"
proof -
  obtain h' D' C' where h': "hai_step fk E P ent start_state = Inr h'" "hinv N D' C' h'" "\<not> h_main h'"
    "\<forall>q. gamma ent q \<longrightarrow> C' 0 q"
    "progress E N {b \<in> live (n_cfg N). li_enclosing (n_loops N) ! b \<noteq> None} start_state D' h' 0"
    using step_main [OF on ok [OF nest.entry(1)] ent hinv_new] by auto
  have "D' = insert 0 {b \<in> live (n_cfg N). li_enclosing (n_loops N) ! b \<noteq> None}"
    using h'(5) nest.entry(3) [of N] by (auto simp: progress_def h_active_def)
  then show ?thesis using h' unfolding run_inv_def by blast
qed

text \<open>The engine never fails, and when it returns, its table covers the executions.\<close>

lemma solve_loop: "hai_solve fk E P k (Some ent) None (hai_new P) = hai_loop fk E P ent start_state"
  by (simp add: hai_solve_def Let_def)

lemma solve_first: "hai_step fk E P ent start_state = Inr h \<Longrightarrow> hai_loop fk E P ent start_state = hai_loop fk E P ent h"
  by (subst hai_loop.simps) simp

lemma solve_covers:
  assumes inp: "hai_input E k" and ok: "\<And>b. b \<in> live (cfg_of (he_pg E) k) \<Longrightarrow> ok b" and ent: "valid ent"
    and run: "hai_solve fk E P k (Some ent) None (hai_new P) = Some r"
  shows "\<exists>h. r = Inr h \<and> (\<forall>b q. entering (cfg_of (he_pg E) k) (he_loops E k) exec pass cin cout (gamma ent) b q \<longrightarrow>
    gamma (h_results h (k, b)) q)"
proof -
  obtain N where N: "hai_on E k N" "n_cfg N = cfg_of (he_pg E) k" "n_loops N = he_loops E k" by (rule hai_input_nested [OF inp])
  have okN: "ok b" if "b \<in> live (n_cfg N)" for b using ok that N(2) by simp
  obtain h0 D0 C0 where h0: "hai_step fk E P ent start_state = Inr h0" "run_inv N ent D0 C0 h0"
    using run_start [OF N(1) okN ent] by blast
  have "hai_loop fk E P ent h0 = Some r" using run solve_loop solve_first [OF h0(1)] by simp
  then have "\<exists>h. r = Inr h \<and> (\<exists>D C. run_inv N ent D C h) \<and> h_work h = []"
  proof (rule hai_loop_invariant)
    show "\<exists>D C. run_inv N ent D C h0" using h0(2) by blast
    show "\<exists>h'. hai_step fk E P ent h = Inr h' \<and> (\<exists>D C. run_inv N ent D C h')"
      if "\<exists>D C. run_inv N ent D C h" "h_work h \<noteq> []" for h
      using that run_step [OF N(1) okN] by blast
  qed
  then show ?thesis using run_covers N(2,3) by metis
qed

subsection \<open>Termination\<close>

text \<open>For a handler whose header states descend in a height, as the ones of \<^verbatim>\<open>WideningFixPoint\<close> do.\<close>

lemma union_valid:
  assumes "h_valid h" "valid r" "rfold (hai_union_edge E P h b dir) es r = Inr c"
  shows "valid c"
  using assms(2,3)
proof (induction es arbitrary: r)
  case (Cons e es)
  then obtain r' where r': "hai_union_edge E P h b dir e r = Inr r'" "rfold (hai_union_edge E P h b dir) es r' = Inr c"
    by (auto simp: rbind_eq_Inr)
  have "valid r'"
  proof (cases "r' = r")
    case False
    then obtain d where "h_edge h e = Some d" "hp_lub P r d = Inr r'"
      using r'(1) by (auto simp: hai_union_edge_def rbind_eq_Inr split: if_splits option.splits)
    moreover have "valid d" using assms(1) calculation(1) by (simp add: h_valid_def)
    ultimately show ?thesis using lub_ok [OF Cons.prems(1)] by fastforce
  qed (use Cons.prems in simp)
  from Cons.IH [OF this r'(2)] show ?case .
qed simp

definition height_ok :: "('d \<Rightarrow> nat) \<Rightarrow> nat \<Rightarrow> bool" where
  "height_ok ht H \<longleftrightarrow> (\<forall>a. valid a \<longrightarrow> ht a \<le> H) \<and> (\<forall>a b c x. valid a \<and> valid b \<and>
     hp_widening P (k, x) a b = Inr c \<and> hp_equals P c a = Inr False \<longrightarrow> ht c < ht a)"

lemma again_descends:
  assumes "fk = Widening_FP" "height_ok ht H" "h_valid h" "fp_ok fs" "fixPoint fk E P h (k, b) False fs = Inr (n, False, fs')"
  shows "ht (fs_header fs') < ht (fs_header fs)"
proof -
  obtain bs c where "backEdgeUnion E P h (k, b) = Inr bs" "hp_widening P (k, b) (fs_header fs) bs = Inr c"
      "hp_equals P c (fs_header fs) = Inr False" "fs_header fs' = c"
    using assms(1,5) by (auto simp: fixPoint_def fixPoint_widening_def rbind_eq_Inr)
  moreover have "valid bs"
    using calculation(1) union_valid [OF assms(3) bottom_valid] bottom_valid by (auto simp: backEdgeUnion_def split: if_splits)
  ultimately show ?thesis using assms(2,4) unfolding height_ok_def fp_state_ok_def by blast
qed

abbreviation header_height :: "('d \<Rightarrow> nat) \<Rightarrow> 'd hai \<Rightarrow> nat \<Rightarrow> nat" where
  "header_height ht h x \<equiv> ht (fs_header (the (h_fp h (k, x))))"

lemma progress_effort:
  assumes wd: "fk = Widening_FP" and H: "height_ok ht H" and inv: "run_inv N ent D C h"
    and r: "nest.ready N (h_active N k h) D b" and pr: "progress E N D h D' h' b"
    and B: "Suc H * Suc (card (live (n_cfg N))) < B"
  shows "nest.effort N B (header_height ht h') (h_active N k h') D' < nest.effort N B (header_height ht h) (h_active N k h) D"
proof -
  let ?A = "h_active N k h"
  have c: "nest.cinv N (h_marked N h) (h_fix k h) ?A D" using inv hinvD(1) by (auto simp: run_inv_def)
  have A: "?A \<subseteq> live (n_cfg N)" "?A \<inter> D = {}" using nest.cinvD(1,3) [OF c] by blast+
  have b: "b \<in> live (n_cfg N)" "b \<notin> D" using nest.readyD(1,2) [OF r] by blast+
  have lv: "nest.level N b \<subseteq> D" by (rule nest.level_done [OF c r])
  have B0: "0 < B" using B by simp
  have bound: "ht (fs_header fs) \<le> H" if "fp_ok fs" for fs using that H by (simp add: height_ok_def fp_state_ok_def)
  consider (simple) "\<not> loop_header (n_cfg N) b" "D' = insert b D" "h_first h' = h_first h" "h_fp h' = h_fp h"
    | (iter) fs where "loop_header (n_cfg N) b" "D' = D - nest.level N b" "h_first h' = (h_first h)((k, b) := False)"
        "h_fp h' = (h_fp h)((k, b) \<mapsto> fs)" "fp_ok fs" "b \<in> ?A \<longrightarrow> (\<exists>fs0 h0 n. h_fp h (k, b) = Some fs0 \<and> fp_ok fs0 \<and> h_valid h0 \<and>
            fixPoint fk E P h0 (k, b) False fs0 = Inr (n, False, fs))"
    | (fixed) "b \<in> ?A" "D' = insert b D" "h_first h' = (h_first h)((k, b) := True)" "h_fp h' = (h_fp h)((k, b) := None)"
    using pr unfolding progress_def by blast
  then show ?thesis
  proof cases
    case simple
    have "h_active N k h' = ?A" using simple(3) by (simp add: h_active_def)
    moreover have "b \<notin> ?A" using simple(1) by (simp add: h_active_def)
    ultimately show ?thesis using nest.effort_simple [OF B0 b(1) _ b(2)] simple(2,4) by simp
  next
    case iter
    have A': "h_active N k h' = insert b ?A" using iter(1,3) b(1) by (auto simp: h_active_def)
    show ?thesis
    proof (cases "b \<in> ?A")
      case True
      then have "ht (fs_header fs) < header_height ht h b" using iter(6) again_descends [OF wd H] by fastforce
      then have "nest.effort N B (header_height ht h') ?A (D - nest.level N b) < nest.effort N B (header_height ht h) ?A D"
        by (intro nest.effort_again [OF A(1) True lv A(2)]) (simp_all add: iter(4))
      then show ?thesis using A' iter(2) True by (simp add: insert_absorb)
    next
      case False
      show ?thesis unfolding A' iter(2)
        by (rule nest.effort_first [OF B A(1) b(1) False b(2) lv A(2)]) (simp_all add: iter(4) bound [OF iter(5)])
    qed
  next
    case fixed
    have A': "h_active N k h' = ?A - {b}" using fixed(3) by (auto simp: h_active_def)
    show ?thesis unfolding A' fixed(2) by (rule nest.effort_fixed [OF A(1) fixed(1)]) (simp add: fixed(4))
  qed
qed

lemma solve_ends:
  assumes wd: "fk = Widening_FP" and H: "height_ok ht H" and inp: "hai_input E k"
    and ok: "\<And>b. b \<in> live (cfg_of (he_pg E) k) \<Longrightarrow> ok b" and ent: "valid ent"
  shows "\<exists>h. hai_solve fk E P k (Some ent) None (hai_new P) = Some (Inr h)"
proof -
  obtain N where N: "hai_on E k N" "n_cfg N = cfg_of (he_pg E) k" "n_loops N = he_loops E k" by (rule hai_input_nested [OF inp])
  have okN: "ok b" if "b \<in> live (n_cfg N)" for b using ok that N(2) by simp
  obtain h0 D0 C0 where h0: "hai_step fk E P ent start_state = Inr h0" "run_inv N ent D0 C0 h0"
    using run_start [OF N(1) okN ent] by blast
  let ?B = "Suc (Suc H * Suc (card (live (n_cfg N))))"
  let ?m = "\<lambda>(D, C) h. nest.effort N ?B (header_height ht h) (h_active N k h) D"
  have "\<exists>h' x'. hai_loop fk E P ent h0 = Some (Inr h') \<and> (case x' of (D, C) \<Rightarrow> run_inv N ent D C h') \<and> h_work h' = []"
  proof (rule hai_loop_ends [where I = "\<lambda>x h. case x of (D, C) \<Rightarrow> run_inv N ent D C h" and x = "(D0, C0)" and \<mu> = ?m])
    show "case (D0, C0) of (D, C) \<Rightarrow> run_inv N ent D C h0" using h0(2) by simp
    fix x h assume x: "case x of (D, C) \<Rightarrow> run_inv N ent D C h" and w: "h_work h \<noteq> []"
    obtain D C where DC: "x = (D, C)" by fastforce
    then have inv: "run_inv N ent D C h" using x by simp
    obtain h' D' C' b where "hai_step fk E P ent h = Inr h'" "run_inv N ent D' C' h'" "nest.ready N (h_active N k h) D b"
        "progress E N D h D' h' b"
      using run_step [OF N(1) okN inv w] by blast
    moreover have "?m (D', C') h' < ?m (D, C) h" using progress_effort [OF wd H inv calculation(3,4)] by simp
    ultimately show "\<exists>x' h'. hai_step fk E P ent h = Inr h' \<and> (case x' of (D, C) \<Rightarrow> run_inv N ent D C h') \<and> ?m x' h' < ?m x h"
      unfolding DC by (intro exI [of _ "(D', C')"] exI [of _ h']) simp
  qed
  then show ?thesis using solve_loop solve_first [OF h0(1)] by auto
qed

end

subsection \<open>From the graph\<close>

text \<open>
  The graphs in reach: no calls, reducible (the other edges go up in some ranking), each edge
  leaving one loop at most. The annotations are those of the dominance and loop processors.
\<close>

definition nested_cfg :: "cfg \<Rightarrow> bool" where
  "nested_cfg g \<longleftrightarrow> wf_cfg g \<and> ins g 0 = [] \<and> (\<forall>b < countBB g. outs g b \<noteq> [] \<longrightarrow> reachable g b) \<and>
     (\<exists>rk :: nat \<Rightarrow> nat. \<forall>e \<in> all_edges g. e_kind e \<noteq> CALL \<and> (back_edge g e \<or> rk (e_src e) < rk (e_tgt e)) \<and>
        (\<forall>x y. leaves g x e \<and> leaves g y e \<longrightarrow> x = y))"

definition whole_env :: "program \<Rightarrow> dom_info \<Rightarrow> loop_info \<Rightarrow> bool \<Rightarrow> hai_env" where
  "whole_env pg di li so = \<lparr>he_pg = pg, he_doms = (\<lambda>_. di), he_loops = (\<lambda>_. li), he_dont_bb = (\<lambda>_. False),
     he_dont_cfg = (\<lambda>_. False), he_bypass_source = (\<lambda>_. None), he_bypass_target = (\<lambda>_. False), he_store_out = so\<rparr>"

lemma whole_env_simps [simp]: "he_pg (whole_env pg di li so) = pg" "he_loops (whole_env pg di li so) k = li"
  by (simp_all add: whole_env_def)

lemma nested_cfg_processors:
  assumes "nested_cfg g"
  shows "\<exists>di li. dom_processCFG g = Some (Inr di) \<and> lib_processCFG g di = Some (Inr li)"
proof -
  obtain di where "dom_processCFG g = Some (Inr di)" "loop_input g di"
    using dom_gives_loop_input assms unfolding nested_cfg_def by blast
  then show ?thesis using lib_processCFG_loops by blast
qed

lemma nested_cfg_input:
  assumes g: "nested_cfg (cfg_of pg k)" and "dom_processCFG (cfg_of pg k) = Some (Inr di)" "lib_processCFG (cfg_of pg k) di = Some (Inr li)"
  shows "hai_input (whole_env pg di li so) k"
proof -
  have "loop_input (cfg_of pg k) di"
    using dom_gives_loop_input [of "cfg_of pg k"] assms(1,2) unfolding nested_cfg_def by auto
  then show ?thesis using assms(1,3) unfolding hai_input_def nest_graph_def nested_cfg_def whole_env_def by auto
qed

end
