(* ===== verification/Hai_Must.thy ===== *)
theory Hai_Must
  imports Hai_Run Cache_Must_May
begin

text \<open>
  The MUST analysis of a cache set on the engine, as \<^verbatim>\<open>ACSBuilder::processLBlockSet\<close> sets it up
  (otawa/src/prog/cache_ACSBuilder.cpp): \<^verbatim>\<open>MUSTProblem\<close> as a problem of \<^verbatim>\<open>HalfAbsInt\<close>, and its
  contract with the engine.
\<close>

text \<open>
  \<open>acc\<close> gives the last block that a basic block accesses in the set. \<^verbatim>\<open>MUSTProblem\<close> has no
  \<^verbatim>\<open>widening\<close> and no \<^verbatim>\<open>updateEdge\<close>, which only \<^verbatim>\<open>WideningFixPoint\<close> calls: the join, which bounds
  the chains of ages, and the identity stand for them.
\<close>

definition must_hai_problem :: "nat \<Rightarrow> nat \<Rightarrow> (block_id \<Rightarrow> nat option) \<Rightarrow> acs hai_problem" where
  "must_hai_problem n A acc = \<lparr>hp_bottom = must_bottom n (int A), hp_entry = must_entry n (int A), hp_lub = must_lub,
     hp_equals = must_equals, hp_update = (\<lambda>b a. must_update a a (acc b)), hp_updateEdge = (\<lambda>_ a. Inr a),
     hp_widening = (\<lambda>_. must_lub), hp_enterContext = (\<lambda>_ _ a. Inr a), hp_leaveContext = (\<lambda>_ _ a. Inr a)\<rparr>"

lemma must_hai_problem_simps [simp]:
  "hp_bottom (must_hai_problem n A acc) = must_bottom n (int A)" "hp_entry (must_hai_problem n A acc) = must_entry n (int A)"
  "hp_lub (must_hai_problem n A acc) = must_lub" "hp_equals (must_hai_problem n A acc) = must_equals"
  "hp_update (must_hai_problem n A acc) b a = must_update a a (acc b)" "hp_updateEdge (must_hai_problem n A acc) e a = Inr a"
  "hp_widening (must_hai_problem n A acc) x = must_lub"
  "hp_enterContext (must_hai_problem n A acc) x t a = Inr a" "hp_leaveContext (must_hai_problem n A acc) x t a = Inr a"
  by (simp_all add: must_hai_problem_def)

lemma must_bottom_valid: "0 < A \<Longrightarrow> must_valid n A (must_bottom n (int A))"
  by (simp add: must_valid_def must_bottom_def must_new_def)

lemma must_entry_valid: "0 < A \<Longrightarrow> must_valid n A (must_entry n (int A))"
  using fill_loop_eq [of "-1" "replicate n (0 :: int)"]
  by (simp add: must_valid_def must_entry_def must_empty_def must_new_def)

lemma must_equals_eval:
  assumes "must_valid n A a" "must_valid n A b"
  shows "must_equals a b = Inr (\<forall>i < n. acs_age a ! i = acs_age b ! i)"
  using assms by (auto simp: must_equals_def must_valid_def acs_same_def)

interpretation must_hai: hai_domain "must_hai_problem n (Suc A) acc" k "must_valid n (Suc A)" "must_gamma (Suc A)"
  "\<lambda>b. lru_step (Suc A) (acc (k, b))" "\<lambda>b. block_ok n (acc (k, b))" fk "\<lambda>_ _. True" "\<lambda>_ q. q" "\<lambda>_ q. q"
  for n A acc k fk
proof unfold_locales
  fix a b :: acs assume v: "must_valid n (Suc A) a" "must_valid n (Suc A) b"
  then show "\<exists>c. hp_lub (must_hai_problem n (Suc A) acc) a b = Inr c \<and> must_valid n (Suc A) c \<and>
      (\<forall>q. must_gamma (Suc A) a q \<or> must_gamma (Suc A) b q \<longrightarrow> must_gamma (Suc A) c q)"
    "\<exists>c. hp_widening (must_hai_problem n (Suc A) acc) (k, h) a b = Inr c \<and> must_valid n (Suc A) c \<and>
      (\<forall>q. must_gamma (Suc A) a q \<or> must_gamma (Suc A) b q \<longrightarrow> must_gamma (Suc A) c q)" for h
    using must_dom.lub_ok by simp_all
  show "\<exists>r. hp_equals (must_hai_problem n (Suc A) acc) a b = Inr r \<and>
      (r \<longrightarrow> (\<forall>q. must_gamma (Suc A) a q \<longrightarrow> must_gamma (Suc A) b q))"
    using v must_equals_eval [OF v] by (auto simp: must_valid_def must_gamma_def)
next
  fix a c assume v: "must_valid n (Suc A) a" and "hp_lub (must_hai_problem n (Suc A) acc) (hp_bottom (must_hai_problem n (Suc A) acc)) a = Inr c"
  then have "c = a" using must_bottom_lub [OF v] by simp
  then show "hp_equals (must_hai_problem n (Suc A) acc) c a = Inr True" using must_equals_eval [OF v v] by simp
qed (auto simp: must_bottom_valid must_update_ok simp del: of_nat_Suc)

text \<open>The height of a MUST state: what its ages can still lose.\<close>

definition must_height :: "nat \<Rightarrow> nat \<Rightarrow> acs \<Rightarrow> nat" where
  "must_height n A a = (\<Sum>i < n. if acs_age a ! i = -1 then 0 else A - nat (acs_age a ! i))"

lemma must_height_bound: "must_height n A a \<le> n * A"
  using sum_bounded_above [of "{..<n}" "\<lambda>i. if acs_age a ! i = -1 then 0 else A - nat (acs_age a ! i)" A]
  by (simp add: must_height_def)

lemma must_lub_descends:
  assumes v: "must_valid n A a" "must_valid n A b" and c: "must_lub a b = Inr c" "must_equals c a = Inr False"
  shows "must_height n A c < must_height n A a"
proof -
  have vc: "must_valid n A c" by (rule must_lub_valid [OF v c(1)])
  let ?h = "\<lambda>d i. if acs_age d ! i = -1 then 0 else A - nat (acs_age d ! i)"
  have age: "acs_age c ! i = older_of (acs_age a ! i) (acs_age b ! i)" if "i < n" for i
    using must_lub_nth(4) [OF c(1)] that v(1) by (simp add: must_valid_def)
  have rng: "-1 \<le> acs_age d ! i \<and> acs_age d ! i < int A" if "i < n" "d = a \<or> d = b" for i d
    using v that by (auto simp: must_valid_def)
  obtain j where j: "j < n" "acs_age c ! j \<noteq> acs_age a ! j"
    using c(2) must_equals_eval [OF vc v(1)] by auto
  have le: "?h c i \<le> ?h a i" if "i < n" for i
    using age [OF that] rng [OF that, of a] rng [OF that, of b] by (auto simp: older_of_def)
  have "?h c j < ?h a j"
    using age [OF j(1)] rng [OF j(1), of a] rng [OF j(1), of b] j(2) by (auto simp: older_of_def split: if_splits)
  then have "\<exists>i \<in> {..<n}. ?h c i < ?h a i" using j(1) by blast
  then show ?thesis unfolding must_height_def by (intro sum_strict_mono_ex1) (use le in blast)+
qed

lemma must_height_ok: "must_hai.height_ok n A acc k (must_height n (Suc A)) (n * Suc A)"
  using must_height_bound [of n "Suc A"] must_lub_descends by (auto simp: must_hai.height_ok_def simp del: mult_Suc_right)

end
