(* ===== verification/Example_Hai.thy ===== *)
theory Example_Hai
  imports Hai_Must Example_Program
begin

text \<open>
  A graph on which the engine is applied: a loop whose header and body access two blocks of a cache
  set of two ways, with the annotations of its dominance and of its loops.
\<close>

definition plain_cfg :: cfg where
  "plain_cfg = \<lparr>cfg_bbs = [
     \<lparr>bb_flags = FLAG_Entry, bb_ins = [], bb_outs = [ex_edge 0 0 1 VIRTUAL]\<rparr>,
     \<lparr>bb_flags = 0, bb_ins = [ex_edge 0 0 1 VIRTUAL, ex_edge 2 2 1 TAKEN], bb_outs = [ex_edge 1 1 2 NOT_TAKEN, ex_edge 3 1 3 VIRTUAL]\<rparr>,
     \<lparr>bb_flags = 0, bb_ins = [ex_edge 1 1 2 NOT_TAKEN], bb_outs = [ex_edge 2 2 1 TAKEN]\<rparr>,
     \<lparr>bb_flags = FLAG_Exit, bb_ins = [ex_edge 3 1 3 VIRTUAL], bb_outs = []\<rparr>]\<rparr>"

definition plain_pg :: program where
  "plain_pg = \<lparr>pg_cfgs = [plain_cfg], pg_callee = (\<lambda>_. None)\<rparr>"

lemma plain_cfg_of [simp]: "cfg_of plain_pg 0 = plain_cfg"
  by (simp add: plain_pg_def cfg_of_def)

lemma plain_cfg_lists [simp]:
  "countBB plain_cfg = 4"
  "outs plain_cfg 0 = [ex_edge 0 0 1 VIRTUAL]"
  "outs plain_cfg 1 = [ex_edge 1 1 2 NOT_TAKEN, ex_edge 3 1 3 VIRTUAL]"
  "outs plain_cfg 2 = [ex_edge 2 2 1 TAKEN]"
  "outs plain_cfg 3 = []"
  "ins plain_cfg 0 = []"
  "ins plain_cfg 1 = [ex_edge 0 0 1 VIRTUAL, ex_edge 2 2 1 TAKEN]"
  "ins plain_cfg 2 = [ex_edge 1 1 2 NOT_TAKEN]"
  "ins plain_cfg 3 = [ex_edge 3 1 3 VIRTUAL]"
  by (simp_all add: outs_def ins_def countBB_def plain_cfg_def)

lemma plain_cfg_wf: "wf_cfg plain_cfg"
proof -
  have "wf_edges plain_cfg"
    unfolding wf_edges_def plain_cfg_lists(1) less_4_cases
    by (simp add: ex_edge_def One_nat_def [symmetric] del: One_nat_def)
  moreover have "\<forall>b < 4. (isEntry plain_cfg b \<longleftrightarrow> b = 0) \<and> (isExit plain_cfg b \<longleftrightarrow> b = 4 - 1)"
    unfolding less_4_cases by (simp add: isEntry_def isExit_def plain_cfg_def flag_defs)
  ultimately show ?thesis by (simp add: wf_cfg_def)
qed

lemma plain_flow:
  "flow_edge Predecessor plain_cfg 0 1" "flow_edge Predecessor plain_cfg 1 2" "flow_edge Predecessor plain_cfg 1 3"
  by (simp_all add: flow_edge_def not_calls_filter ex_edge_def One_nat_def [symmetric] del: One_nat_def)

lemma plain_paths:
  "is_path (flow_edge Predecessor plain_cfg) 0 [0] 0" "is_path (flow_edge Predecessor plain_cfg) 0 [0, 1] 1"
  "is_path (flow_edge Predecessor plain_cfg) 0 [0, 1, 2] 2" "is_path (flow_edge Predecessor plain_cfg) 0 [0, 1, 3] 3"
  using plain_flow by simp_all

lemma plain_reachable: "b < countBB plain_cfg \<Longrightarrow> reachable plain_cfg b"
proof -
  have "\<forall>b < 4. \<exists>p. is_path (flow_edge Predecessor plain_cfg) 0 p b"
    unfolding less_4_cases using plain_paths by blast
  then show "b < countBB plain_cfg \<Longrightarrow> reachable plain_cfg b" by (simp add: reachable_def)
qed

lemma plain_all_edges: "all_edges plain_cfg =
    {ex_edge 0 0 1 VIRTUAL, ex_edge 1 1 2 NOT_TAKEN, ex_edge 3 1 3 VIRTUAL, ex_edge 2 2 1 TAKEN}"
proof -
  have "{..<4 :: nat} = {0, 1, 2, 3}" by auto
  then show ?thesis unfolding all_edges_def by (simp add: One_nat_def [symmetric] insert_commute del: One_nat_def)
qed

definition plain_acc :: "block_id \<Rightarrow> nat option" where
  "plain_acc b = (if snd b = 1 then Some 0 else if snd b = 2 then Some 1 else None)"

lemma plain_doms: "dom_processCFG plain_cfg = Some (Inr loop_doms)"
  by code_simp
lemma plain_header: "loop_header plain_cfg x \<Longrightarrow> x = 1"
proof -
  assume "loop_header plain_cfg x"
  then obtain e where e: "e \<in> all_edges plain_cfg" "e_tgt e = x" "x \<in> dom_set plain_cfg (e_src e)"
    by (auto simp: loop_header_def back_edge_def)
  have "y \<in> set p" if "y \<in> dom_set plain_cfg b" "is_path (flow_edge Predecessor plain_cfg) 0 p b" for y b p
    using that by (auto simp: on_all_paths_def)
  then have "2 \<notin> dom_set plain_cfg 1" "3 \<notin> dom_set plain_cfg 1" using plain_paths(2) by fastforce+
  then show "x = 1" using e unfolding plain_all_edges by (auto simp: ex_edge_def)
qed

lemma plain_back: "back_edge plain_cfg (ex_edge 2 2 1 TAKEN)"
proof -
  have rd: "dom_table plain_cfg (di_reverse loop_doms)"
    using dom_processCFG_marked [OF plain_cfg_wf plain_reachable] plain_doms by auto
  have "dominates (di_reverse loop_doms) 1 2 = Inr True" by code_simp
  then show ?thesis
    using dominates_reachable [OF rd, of 1 2] plain_reachable [of 1] by (simp add: back_edge_def ex_edge_def)
qed

lemma plain_nested: "nested_cfg plain_cfg"
proof -
  have "\<forall>e \<in> all_edges plain_cfg. e_kind e \<noteq> CALL \<and> (back_edge plain_cfg e \<or> e_src e < e_tgt e) \<and>
      (\<forall>x y. leaves plain_cfg x e \<and> leaves plain_cfg y e \<longrightarrow> x = y)"
  proof (intro ballI conjI allI impI)
    fix e assume e: "e \<in> all_edges plain_cfg"
    show "e_kind e \<noteq> CALL" using e unfolding plain_all_edges by (auto simp: ex_edge_def)
    show "back_edge plain_cfg e \<or> e_src e < e_tgt e" using e plain_back unfolding plain_all_edges by (auto simp: ex_edge_def)
    show "x = y" if "leaves plain_cfg x e \<and> leaves plain_cfg y e" for x y
      using that plain_header [of x] plain_header [of y] by (simp add: leaves_def in_body_def)
  qed
  then show ?thesis using plain_cfg_wf plain_reachable unfolding nested_cfg_def by (intro conjI exI [of _ "\<lambda>b. b"]) auto
qed

text \<open>The engine of \<^verbatim>\<open>ACSBuilder\<close> without unrolling, evaluated: block 0 is in the set when block 2 is entered.\<close>

lemma plain_solved: "case lib_processCFG plain_cfg loop_doms of Some (Inr li) \<Rightarrow>
    map_option (map_sum id (\<lambda>h. map (\<lambda>b. h_results h (0, b)) [0..<4])) (hai_solve Default_FP (whole_env plain_pg loop_doms li False)
      (must_hai_problem 2 2 plain_acc) 0 (Some (must_entry 2 2)) None (hai_new (must_hai_problem 2 2 plain_acc))) =
    Some (Inr (map (\<lambda>a. \<lparr>acs_A = 2, acs_age = a\<rparr>) [[-1, -1], [-1, -1], [0, -1], [0, -1]])) | _ \<Rightarrow> False"
  by code_simp

subsection \<open>An edge that leaves two loops\<close>

text \<open>
  A loop of one block inside another, left together by one edge to the exit. The edge is annotated with
  the inner loop: when that loop is at its fixpoint, the exit is put on the work list while the outer
  loop still iterates, and its next visit does not find the marks of its input edges.
\<close>

definition exit_cfg :: cfg where
  "exit_cfg = \<lparr>cfg_bbs = [
     \<lparr>bb_flags = FLAG_Entry, bb_ins = [], bb_outs = [ex_edge 0 0 1 VIRTUAL]\<rparr>,
     \<lparr>bb_flags = 0, bb_ins = [ex_edge 0 0 1 VIRTUAL, ex_edge 4 2 1 TAKEN], bb_outs = [ex_edge 1 1 2 NOT_TAKEN]\<rparr>,
     \<lparr>bb_flags = 0, bb_ins = [ex_edge 1 1 2 NOT_TAKEN, ex_edge 2 2 2 TAKEN],
      bb_outs = [ex_edge 2 2 2 TAKEN, ex_edge 3 2 3 TAKEN, ex_edge 4 2 1 TAKEN]\<rparr>,
     \<lparr>bb_flags = FLAG_Exit, bb_ins = [ex_edge 3 2 3 TAKEN], bb_outs = []\<rparr>]\<rparr>"

lemma two_loops_left_fails:
  "case dom_processCFG exit_cfg of Some (Inr di) \<Rightarrow> (case lib_processCFG exit_cfg di of Some (Inr li) \<Rightarrow>
     map_option (map_sum id (\<lambda>_. ())) (hai_solve First_Unrolling_FP (whole_env \<lparr>pg_cfgs = [exit_cfg], pg_callee = (\<lambda>_. None)\<rparr> di li False)
       (must_hai_problem 2 2 plain_acc) 0 None None (hai_new (must_hai_problem 2 2 plain_acc))) = Some (Inl AssertFail)
   | _ \<Rightarrow> False) | _ \<Rightarrow> False"
  by code_simp

end
