(* ===== verification/Example_Icache.thy ===== *)
theory Example_Icache
  imports Icache_Ipet Example_Hai
begin

text \<open>
  A loop with an instruction cache of one set: two linked first misses of the loop, an always miss,
  and a miss penalty of 10.
\<close>

definition ex_lblocks :: "cat_lblock list" where
  "ex_lblocks = (let l = \<lparr>lb_id = 0, lb_cacheblock = 0, lb_addr = 0, lb_bb = 0, lc_cfg = 0, lc_cat = INVALID_CATEGORY, lc_header = None\<rparr> in
     [l, l\<lparr>lb_id := 1, lb_cacheblock := 1, lb_addr := 64, lb_bb := 1, lc_cat := FIRST_MISS, lc_header := Some (0, 1)\<rparr>,
      l\<lparr>lb_id := 2, lb_cacheblock := 1, lb_addr := 72, lb_bb := 2, lc_cat := FIRST_MISS, lc_header := Some (0, 1)\<rparr>,
      l\<lparr>lb_id := 3, lb_cacheblock := 3, lb_addr := 128, lb_bb := 2, lc_cat := ALWAYS_MISS\<rparr>,
      l\<lparr>lb_id := 4\<rparr>])"

definition ex_misses :: "nat \<times> nat \<Rightarrow> int" where
  "ex_misses x = (if x \<in> {(0, 1), (0, 3)} then 1 else 0)"

definition plain_run :: "item list" where
  "plain_run = [At 0 0, Through (ex_edge 0 0 1 VIRTUAL), At 0 1, Through (ex_edge 1 1 2 NOT_TAKEN), At 0 2,
     Through (ex_edge 2 2 1 TAKEN), At 0 1, Through (ex_edge 3 1 3 VIRTUAL), At 0 3]"

text \<open>The stages of the computation, one after the other.\<close>

definition plain_va :: "ipet res" where "plain_va = va_processWorkSpace plain_pg [0] ipet_new"
definition plain_bc :: "ipet res" where "plain_bc = rbind plain_va (bc_processWorkSpace plain_pg [0] 0)"
definition plain_of :: "ipet res" where "plain_of = rbind plain_bc (of_processWorkSpace plain_pg [0] ex_tm)"
definition plain_fc :: "ipet res" where "plain_fc = rbind plain_of (fc_processWorkSpace plain_pg [0] (\<lambda>_. loop_doms) ex_ff)"

definition plain_cat :: "icache res" where
  "plain_cat = (case plain_fc of Inl f \<Rightarrow> Inl f | Inr ip \<Rightarrow> (case link_processWorkSpace [ex_lblocks] of Inl f \<Rightarrow> Inl f
     | Inr ms \<Rightarrow> cat2_processWorkSpace plain_pg (\<lambda>_. loop_doms) [ex_lblocks] ms 10 \<lparr>ic_miss = (\<lambda>_. None), ic_ip = ip\<rparr>))"

definition plain_lp :: "lp_matrix res" where
  "plain_lp = (case plain_cat of Inr st \<Rightarrow> Inr (lp_of (ip_sys (ic_ip st))) | Inl f \<Rightarrow> Inl f)"

definition plain_matrix :: lp_matrix where
  "plain_matrix = \<lparr>lp_cols = 11, lp_types = map (\<lambda>c. (c, INT_TYPE)) (rev [1..<12]), lp_max = True,
    lp_obj = [0, 0, 5, 0, 5, 7, 0, 0, 0, 10, 10, 10],
    lp_rows =
      [([0, 0, 0, 0, 0, 0, 0, - 1, 0, 0, 0, 1], EQ, 0),
       ([0, 0, 0, 0, 0, 0, 0, - 1, 0, 0, 1, 0], LE, 0),
       ([0, 0, - 1, 0, 0, 0, 0, 0, 0, 1, 1, 0], LE, 0),
       ([0, 0, 0, - 1, 0, 0, 0, 0, 0, 1, 0, 0], LE, 0),
       ([0, 0, - 2, 0, 1, 0, 0, 0, 0, 0, 0, 0], LE, 0),
       ([0, 1, 0, 0, 0, 0, 0, 0, 0, 0, 0, 0], EQ, 1),
       ([0, 0, 0, 0, 0, 0, - 1, 0, 1, 0, 0, 0], EQ, 0),
       ([0, 0, 0, 0, - 1, 0, 0, 1, 0, 0, 0, 0], EQ, 0),
       ([0, 0, 0, 0, 0, - 1, 0, 1, 0, 0, 0, 0], EQ, 0),
       ([0, 0, 0, 1, 0, - 1, - 1, 0, 0, 0, 0, 0], EQ, 0),
       ([0, 0, - 1, 1, - 1, 0, 0, 0, 0, 0, 0, 0], EQ, 0),
       ([0, 1, - 1, 0, 0, 0, 0, 0, 0, 0, 0, 0], EQ, 0)]\<rparr>"

lemma plain_lp_computed: "plain_lp = Inr plain_matrix"
  by code_simp

text \<open>Two iterations of the loop take 29, with one miss of the linked l-blocks and two of the other.\<close>

definition plain_solver :: "lp_matrix \<Rightarrow> lp_result" where
  "plain_solver m = (if m = plain_matrix then OPTIMAL 59 (\<lambda>i. [0, 1, 1, 3, 2, 2, 1, 2, 1, 1, 0, 2] ! i) else FAILED)"

lemma upto_11: "{1..11 :: nat} = set [1..<12]" by auto

lemma row_val_list_11: "row_val 11 row x = (\<Sum>i \<leftarrow> [1, 2, 3, 4, 5, 6, 7, 8, 9, 10, 11]. row ! i * x i)"
proof -
  have "[1..<12] = [1, 2, 3, 4, 5, 6, 7, 8, 9, 10, 11 :: nat]" by code_simp
  then show ?thesis unfolding row_val_def upto_11 by (subst sum.distinct_set_conv_list) simp_all
qed

lemma plain_solver_ok: "lp_solver_ok plain_solver"
proof -
  let ?x = "\<lambda>i. [0, 1, 1, 3, 2, 2, 1, 2, 1, 1, 0, 2] ! i :: int"
  have "\<forall>i \<in> set [1..<12]. 0 \<le> ?x i" by code_simp
  then have f: "lp_feasible plain_matrix ?x"
    unfolding upto_11 [symmetric] by (simp add: lp_feasible_def plain_matrix_def row_val_list_11)
  have v: "lp_value plain_matrix ?x = 59" by (simp add: lp_value_def plain_matrix_def row_val_list_11)
  have "lp_value plain_matrix x \<le> 59" if "lp_feasible plain_matrix x" for x
    using that by (simp add: lp_feasible_def lp_value_def plain_matrix_def row_val_list_11)
  then show ?thesis using f v by (auto simp: lp_solver_ok_def plain_solver_def plain_matrix_def)
qed

lemma plain_wcet: "icache_wcet plain_pg [0] 0 (\<lambda>_. loop_doms) ex_ff ex_tm True [ex_lblocks] 10 plain_solver False = Inr 59"
proof -
  obtain ip where ip: "plain_fc = Inr ip" using plain_lp_computed by (auto simp: plain_lp_def plain_cat_def split: sum.splits)
  obtain ms where ms: "link_processWorkSpace [ex_lblocks] = Inr ms"
    using plain_lp_computed ip by (auto simp: plain_lp_def plain_cat_def split: sum.splits)
  obtain st where st: "cat2_processWorkSpace plain_pg (\<lambda>_. loop_doms) [ex_lblocks] ms 10 \<lparr>ic_miss = (\<lambda>_. None), ic_ip = ip\<rparr> = Inr st"
      "lp_of (ip_sys (ic_ip st)) = plain_matrix"
    using plain_lp_computed by (cases "cat2_processWorkSpace plain_pg (\<lambda>_. loop_doms) [ex_lblocks] ms 10 \<lparr>ic_miss = (\<lambda>_. None), ic_ip = ip\<rparr>")
      (simp_all add: plain_lp_def plain_cat_def ip ms)
  have a: "rbind (rbind r f) g = rbind r (\<lambda>x. rbind (f x) g)" for r :: "'a res" and f :: "'a \<Rightarrow> 'b res" and g :: "'b \<Rightarrow> 'c res"
    by (simp add: rbind_def split: sum.split)
  have "icache_wcet plain_pg [0] 0 (\<lambda>_. loop_doms) ex_ff ex_tm True [ex_lblocks] 10 plain_solver False =
      rbind plain_fc (\<lambda>ip. rbind (link_processWorkSpace [ex_lblocks]) (\<lambda>ms.
        rbind (cat2_processWorkSpace plain_pg (\<lambda>_. loop_doms) [ex_lblocks] ms 10 \<lparr>ic_miss = (\<lambda>_. None), ic_ip = ip\<rparr>)
          (\<lambda>st. Inr (fst (wcet_processWorkSpace plain_solver False (ic_ip st))))))"
    by (simp add: icache_wcet_def plain_fc_def plain_of_def plain_bc_def plain_va_def a)
  also have "\<dots> = Inr (fst (wcet_processWorkSpace plain_solver False (ic_ip st)))" by (simp add: ip ms st(1))
  also have "\<dots> = Inr 59" by (simp add: wcet_processWorkSpace_def sys_solve_def plain_solver_def st(2))
  finally show ?thesis .
qed

subsection \<open>The assumptions hold of it\<close>

lemma plain_wf_program: "wf_program plain_pg"
proof -
  have "callees_bound plain_pg" by (simp add: callees_bound_def calls_cfg_def plain_pg_def)
  then show ?thesis by (simp add: wf_program_def plain_cfg_wf plain_pg_def [THEN arg_cong [where f = pg_cfgs]])
qed

lemma plain_ipet_input: "ipet_input plain_pg [0] 0"
proof -
  have "call_edges plain_pg 0 = []" by code_simp
  then show ?thesis using plain_wf_program by (simp add: ipet_input_def plain_pg_def)
qed

lemmas plain_Suc [simp] = plain_cfg_lists(3,7) [unfolded One_nat_def]

lemma plain_run_ok: "run plain_pg 0 plain_run"
proof -
  have n: "calling plain_pg 0 b []" if "\<forall>e \<in> set (outs plain_cfg b). e_kind e \<noteq> CALL" for b
    by (rule walk_calling.calling_none) (use that in simp)
  have step: "walk plain_pg 0 b (At 0 b # Through e # its)"
    if "e \<in> set (outs plain_cfg b)" "\<forall>e \<in> set (outs plain_cfg b). e_kind e \<noteq> CALL" "walk plain_pg 0 (e_tgt e) its" for e b its
    using walk_calling.walk_edge [of e plain_pg 0 b "[]" its] n [of b] that by auto
  have "isExit plain_cfg 3" using plain_cfg_wf by (simp add: wf_cfg_def)
  then have w3: "walk plain_pg 0 3 [At 0 3]" using walk_calling.walk_end [of plain_pg 0 3 "[]"] n [of 3] by simp
  have w1: "walk plain_pg 0 1 [At 0 1, Through (ex_edge 3 1 3 VIRTUAL), At 0 3]"
    by (rule step) (use w3 in \<open>simp_all add: ex_edge_def\<close>)
  have w2: "walk plain_pg 0 2 (At 0 2 # Through (ex_edge 2 2 1 TAKEN) # [At 0 1, Through (ex_edge 3 1 3 VIRTUAL), At 0 3])"
    by (rule step) (use w1 in \<open>simp_all add: ex_edge_def\<close>)
  have w1': "walk plain_pg 0 1 (At 0 1 # Through (ex_edge 1 1 2 NOT_TAKEN) # (At 0 2 # Through (ex_edge 2 2 1 TAKEN) #
      [At 0 1, Through (ex_edge 3 1 3 VIRTUAL), At 0 3]))"
    by (rule step) (use w2 in \<open>simp_all add: ex_edge_def\<close>)
  have "walk plain_pg 0 0 (At 0 0 # Through (ex_edge 0 0 1 VIRTUAL) # (At 0 1 # Through (ex_edge 1 1 2 NOT_TAKEN) #
      (At 0 2 # Through (ex_edge 2 2 1 TAKEN) # [At 0 1, Through (ex_edge 3 1 3 VIRTUAL), At 0 3])))"
    by (rule step) (use w1' in \<open>simp_all add: ex_edge_def\<close>)
  then show ?thesis by (simp add: run_def plain_run_def)
qed

lemma plain_costs: "timed plain_pg [0] ex_tm" "costs_within plain_pg [0] ex_tm ex_cost" "run_time ex_cost plain_run = 17"
  by code_simp+

lemma plain_loop_edges:
  "back_ins plain_pg 0 1 = [ex_edge 2 2 1 TAKEN]" "entry_ins plain_pg 0 1 = [ex_edge 0 0 1 VIRTUAL]"
proof -
  have "x \<in> set p" if "x \<in> dom_set plain_cfg b" "is_path (flow_edge Predecessor plain_cfg) 0 p b" for x b p
    using that by (auto simp: on_all_paths_def)
  then have "1 \<notin> dom_set plain_cfg 0" using plain_paths(1) by fastforce
  moreover have "1 \<in> dom_set plain_cfg 2" using plain_back by (simp add: back_edge_def ex_edge_def)
  moreover have "ins plain_cfg 1 = [ex_edge 0 0 1 VIRTUAL, ex_edge 2 2 1 TAKEN]" by (rule plain_cfg_lists(7))
  ultimately show "back_ins plain_pg 0 1 = [ex_edge 2 2 1 TAKEN]" "entry_ins plain_pg 0 1 = [ex_edge 0 0 1 VIRTUAL]"
    unfolding back_ins_def entry_ins_def plain_cfg_of by (simp_all add: ex_edge_kind del: plain_cfg_lists)
qed

lemma plain_keeps_bounds: "keeps_bounds plain_pg [0] ex_ff plain_run"
proof -
  have it: "iter_max {ex_edge 2 2 1 TAKEN} {ex_edge 0 0 1 VIRTUAL} 2 0 plain_run" by code_simp
  have "iter_max (set (back_ins plain_pg 0 1)) (set (entry_ins plain_pg 0 1)) (nat (ff_max ex_ff (0, 1))) 0 plain_run"
    unfolding plain_loop_edges using it by (simp add: ex_ff_def)
  moreover have "ff_max ex_ff (k, b) < 0" if "(k, b) \<noteq> (0, 1)" for k b using that by (simp add: ex_ff_def)
  moreover have "ff_min ex_ff x < 0" "ff_total ex_ff x < 0" for x by (simp_all add: ex_ff_def)
  ultimately show ?thesis unfolding keeps_bounds_def Let_def
    by (metis linorder_not_less prod.inject)
qed

lemma ex_real: "real ex_lblocks = [ex_lblocks ! 1, ex_lblocks ! 2, ex_lblocks ! 3]"
  by code_simp

lemma ex_lset_ok: "lset_ok plain_pg [0] ex_lblocks"
proof -
  have "loop_header plain_cfg 1" unfolding loop_header_def plain_all_edges
    by (rule bexI [of _ "ex_edge 2 2 1 TAKEN"]) (use plain_back in \<open>simp_all add: ex_edge_def\<close>)
  then show ?thesis unfolding lset_ok_def ex_real by (simp add: ex_lblocks_def Let_def upt_rec)
qed

lemma ex_misses_within: "misses_within plain_pg plain_run [ex_lblocks] ex_misses"
proof -
  have "through plain_run (entry_ins plain_pg 0 1) = 1" unfolding plain_loop_edges by code_simp
  moreover have "at plain_run 0 1 = 2" "at plain_run 0 2 = 1" by code_simp+
  ultimately show ?thesis
    by (simp add: misses_within_def ex_real, simp add: ex_lblocks_def ex_misses_def, fastforce)
qed

lemma ex_all_misses: "all_misses [ex_lblocks] ex_misses = 2"
  by code_simp

end
