(* ===== verification/Spec2Isabelle.thy ===== *)
theory Spec2Isabelle
  imports Elm_Int Elm_Bit_Vector Elm_Vector_Queue Dfa_Bit_Set Otawa_Cfg Iterative_Dfa Dominance
    Cache_Lru Abstract_Domain Cache_Must_May Cache_Pers Cache_Cat2 Clp_Value Clp_State Sem_Inst Clp_Problem Clp_Symbolic Clp_Filter
    Loop_Info Ilp_System Ipet_Program Ipet_Control Ipet_Wcet Icache_Ipet Example_Program Example_Hai Example_Icache
begin

text \<open>
  OTAWA computes worst-case execution times of machine programs by a chain of static analyses
  over control flow graphs. This development models the analyses that carry the correctness of
  the result, with the containers of the ELM library that they rest on, and proves what they
  promise. Paths are those of the repository.

  \<^bold>\<open>ELM\<close> (elm/). \<open>Elm_Int\<close>: bit counts, left-most bit, rounding, powers of two and multiplication
  with overflow (int.h, int.cpp). \<open>Elm_Bit_Vector\<close>: the byte array of \<^verbatim>\<open>BitVector\<close> with its
  padding bits, every operation and the iterator on set bits. \<open>Elm_Vector_Queue\<close>: the growing
  ring buffer, an interpretation of the locale \<open>queue\<close>.

  \<^bold>\<open>Graphs\<close> (otawa/src/prog, otawa/include/otawa). \<open>Otawa_Cfg\<close>: basic blocks, edges and their
  iterators, paths. \<open>Dfa_Bit_Set\<close>: \<^verbatim>\<open>dfa::BitSet\<close>, an interpretation of the locale \<open>small_set\<close>.
  \<open>Iterative_Dfa\<close>: the work-list engine \<^verbatim>\<open>IterativeDFA\<close>, with the locale of a problem on a finite
  lattice and the proof that the engine ends on its extreme solution. \<open>Dominance\<close>: the dominance
  and post-dominance problems as interpretations of that locale, \<^verbatim>\<open>dominates\<close> and
  \<^verbatim>\<open>markLoopHeaders\<close>.

  \<open>Loop_Info\<close>: \<^verbatim>\<open>LoopInfoBuilder\<close>, whose problem runs on the same engine: enclosing headers, exit
  edges and exit lists against the natural loops.

  \<^bold>\<open>Instruction cache\<close>. \<open>Cache_Lru\<close> is the reference: one set of an LRU cache as the list of its
  blocks. \<open>Abstract_Domain\<close>: the locale that a sound domain fulfils, with soundness along paths.
  \<open>Cache_Must_May\<close>: \<^verbatim>\<open>MUSTProblem\<close> and \<^verbatim>\<open>MAYProblem\<close>. \<open>Cache_Pers\<close>: \<^verbatim>\<open>PERSProblem\<close>, its stack of
  items and \<^verbatim>\<open>MUSTPERS\<close>. \<open>Cache_Cat2\<close>: first and last l-blocks and the categories of
  \<^verbatim>\<open>CAT2Builder\<close>.

  \<^bold>\<open>Data values\<close> (clp_analysis.cpp, clp_symbolic_expr.cpp, data/clp/). \<open>Clp_Value\<close>: circular linear
  progressions over 32-bit words; \<open>clp_gamma\<close> is the set of words a value stands for. \<open>Clp_State\<close>:
  registers, temporaries and the sorted list of memory cells; both kinds of cells are
  interpretations of the locale \<open>cells\<close>, and \<open>st_rep\<close> relates a state to the machine states it
  describes. \<open>Sem_Inst\<close>: semantic instructions, conditions and the path iterator (sem/inst.h,
  sem.cpp, sem/PathIter.h). \<open>Clp_Problem\<close>: the interpretation of a semantic instruction, of the
  paths of a machine instruction and of a block, against the machine semantics \<open>m_exec\<close> and
  \<open>m_path\<close>. \<open>Clp_Symbolic\<close>: symbolic comparisons, their canonical form, their negation and the
  filtering of a value. \<open>Clp_Filter\<close>: packs of states, the filter builder, the filters of an edge,
  the initial state, \<^verbatim>\<open>Manager\<close> and dead edges.

  \<^bold>\<open>Abstract interpretation\<close> (dfa/hai/). \<open>Hai_Engine\<close>: \<^verbatim>\<open>HalfAbsInt\<close> with its three handlers of
  loops and the tables of the listeners. \<open>Loop_Nest\<close>: reducible graphs as forests of loops, from the annotations of
  \<open>Loop_Info\<close>. \<open>Hai_Control\<close>: the order of the visits, apart from the states, as a locale over such a
  forest; its invariant says which edges carry a value, which loops iterate and which blocks are finished.
  \<open>Hai_Marks\<close>: the code on marks and work list follows that order. \<open>Hai_Sound\<close>: the locale \<open>hai_domain\<close> of what
  a problem must promise, and the invariant that relates the marks and tables to the concrete states
  covered so far, through each turn of the main loop. \<open>Hai_Run\<close>: at the end the table covers the
  concrete states of \<open>entering\<close>; with a widening of bounded height the loop ends, since a block weighs
  more than all the visits of the loop it heads. \<open>Hai_Must\<close>: \<^verbatim>\<open>MUSTProblem\<close> is such a problem.
  \<open>Example_Hai\<close>: a run of the engine, evaluated, and a graph on which it fails.

  \<^bold>\<open>Execution times\<close> (implicit path enumeration). \<open>Ilp_System\<close>: variables, constraints and objective of
  lp_solve5.cpp and the matrix given to the solver. \<open>Ipet_Program\<close>: programs as lists of graphs with
  calls, \<^verbatim>\<open>CFGCollector\<close>, and the executions of a program as traces with the flow laws their counts
  obey. \<open>Ipet_Control\<close>: \<^verbatim>\<open>VarAssignment\<close> and \<^verbatim>\<open>BasicConstraintsBuilder\<close>; every run satisfies the
  constraints. \<open>Ipet_Wcet\<close>: \<^verbatim>\<open>FlowFactConstraintBuilder\<close>, \<^verbatim>\<open>BasicObjectFunctionBuilder\<close> and
  \<^verbatim>\<open>WCETComputation\<close>; the WCET bounds the time of every run that respects the loop bounds.
  \<open>Icache_Ipet\<close>: \<^verbatim>\<open>LinkedBlocksDetector\<close> and \<^verbatim>\<open>CAT2ConstraintBuilder\<close>, which add the misses of the instruction
  cache to the system; the l-blocks with their categories are inputs, \<open>misses_within\<close> says what the categories promise.
  \<open>Example_Program\<close> and \<open>Example_Icache\<close>: the graphs and the programs used to apply the properties.

  \<^bold>\<open>Conventions\<close> (\<open>Otawa_Base\<close>). A failed \<^verbatim>\<open>ASSERT\<close>, an access outside of an array and an undefined
  operation are the values \<open>Inl AssertFail\<close>, \<open>Inl OutOfBounds\<close> and \<open>Inl Undefined\<close> of a result, an
  exception thrown by a processor is \<open>Inl Raised\<close>.
  Loops of the code that may not end are \<open>partial_function (option)\<close>: \<open>None\<close> is a run without end,
  and the theorems state that it returns; only \<open>must_engine_hits\<close> covers two handlers of loops, which have no
  widening, for the runs that return. No fuel is used. Machine
  integers of the analyses are \<open>32 word\<close>; array indices are \<open>nat\<close>.

  \<^bold>\<open>Assumptions\<close>. Graphs are well formed (\<open>wf_cfg\<close>): edges are listed at both ends, the entry is the
  first block and the exit the last. The loader (symbols, memory image) is the record \<open>clp_env\<close>,
  the two floating-point expressions of \<^verbatim>\<open>Value::inter\<close> are the record \<open>fpu\<close>; no theorem relies on
  their values except that a memory image holds the constant data it is read for (\<open>image_ok\<close>).
  The integer solver is a function from matrices to results; \<open>lp_solver_ok\<close> states that what it
  reports as optimal is feasible and optimal. Loop bounds are those of the annotations, without
  unrolled loops in the theorems; \<open>zero_row_view\<close> shows what unrolling does to a minimum.
  The theorems about \<^verbatim>\<open>HalfAbsInt\<close> are about one graph without calls and bypasses, reducible, whose
  edges leave one loop at most (\<open>nested_cfg\<close>); \<open>two_loops_left_fails\<close> shows that the engine needs the last.
  Where the code is sound only within bounds, the bound is a hypothesis with a name
  (\<open>steps_fit\<close>, \<open>clp_flat\<close>, \<open>inst_safe\<close>, \<open>st_close\<close>, \<open>filter_fits\<close>), and a lemma next to it shows what happens
  beyond.

  \<^bold>\<open>Properties\<close>. Each theorem of this theory after a text that starts with a claim number is a
  property; the theorem after it applies it to a concrete input. They are stated over the models
  of the code and rest on the lemmas of the component theories, which hold the invariants,
  refinements and soundness proofs of each operation.

  \<^bold>\<open>Not modelled\<close>. Printing, logging and statistics output; the framework of processors, features and
  properties (annotations are arguments and fields of the models); loaders, instruction decoders
  and simulators; execution graphs, branch prediction, the data cache, the loading of flow facts and the
  solvers. The engines are modelled with their calls, but the soundness proof does not follow
  calls: the context of a called function is entered on the wrong state, as the findings say.
  The CLP analysis is proved step by step and not over the engine, whose contract its comparison and
  its join of states do not keep (\<open>st_equals_blind\<close>, \<open>st_join_unbalanced\<close>).
\<close>

section \<open>Dominance\<close>

text \<open>C2: on a well-formed graph whose blocks with output edges are reachable,
  the dominance processor ends without a failed assertion, and \<^verbatim>\<open>dominates(a, b)\<close>
  then answers whether every path from the entry to \<open>b\<close> goes through \<open>a\<close>.\<close>

theorem dominance_correct:
  assumes "wf_cfg g" and "\<And>b. b < countBB g \<Longrightarrow> outs g b \<noteq> [] \<Longrightarrow> reachable g b"
  shows "\<exists>di. dom_processCFG g = Some (Inr di) \<and>
    (\<forall>a < countBB g. \<forall>b < countBB g. reachable g a \<or> reachable g b \<longrightarrow>
       dominates (di_reverse di) a b = Inr (\<forall>p. is_path (flow_edge Predecessor g) 0 p b \<longrightarrow> a \<in> set p))"
proof -
  obtain di where di: "dom_processCFG g = Some (Inr di)" "dom_table g (di_reverse di)"
    using dom_processCFG_marked [OF assms] by blast
  then show ?thesis using dominates_reachable [OF di(2)] by (auto simp: on_all_paths_def)
qed

theorem dominance_correct_witness:
  "\<exists>di. dom_processCFG loop_cfg = Some (Inr di) \<and>
    (\<forall>a < 4. \<forall>b < 4. reachable loop_cfg a \<or> reachable loop_cfg b \<longrightarrow>
       dominates (di_reverse di) a b = Inr (\<forall>p. is_path (flow_edge Predecessor loop_cfg) 0 p b \<longrightarrow> a \<in> set p))"
  using dominance_correct [OF loop_cfg_wf loop_cfg_reachable] by simp

text \<open>C7: \<^verbatim>\<open>markLoopHeaders\<close> marks as back edges exactly the edges, calls excepted, whose
  target dominates their source, and as loop headers exactly the targets of these edges.\<close>

theorem loop_headers_correct:
  assumes "wf_cfg g" and "\<And>b. b < countBB g \<Longrightarrow> outs g b \<noteq> [] \<Longrightarrow> reachable g b"
  shows "\<exists>di. dom_processCFG g = Some (Inr di) \<and>
    set (di_back di) = {e. \<exists>b < countBB g. e \<in> set (outs g b) \<and> e_kind e \<noteq> CALL \<and> e_tgt e \<in> dom_set g b} \<and>
    (\<forall>h < countBB g. di_header di ! h \<longleftrightarrow>
       (\<exists>b < countBB g. \<exists>e \<in> set (outs g b). e_kind e \<noteq> CALL \<and> e_tgt e = h \<and> h \<in> dom_set g b))"
proof -
  obtain di where di: "dom_processCFG g = Some (Inr di)"
      "marked g (di_reverse di) {e \<in> all_edges g. back_edge g e} di"
    using dom_processCFG_marked [OF assms] by blast
  have "{e \<in> all_edges g. back_edge g e} =
      {e. \<exists>b < countBB g. e \<in> set (outs g b) \<and> e_kind e \<noteq> CALL \<and> e_tgt e \<in> dom_set g b}"
    using assms(1) by (force simp: all_edges_def back_edge_def wf_cfg_def wf_edges_def)
  then show ?thesis using di by (auto simp: marked_def)
qed

theorem loop_headers_correct_witness:
  "\<exists>di. dom_processCFG loop_cfg = Some (Inr di) \<and>
    set (di_back di) = {e. \<exists>b < 4. e \<in> set (outs loop_cfg b) \<and> e_kind e \<noteq> CALL \<and> e_tgt e \<in> dom_set loop_cfg b} \<and>
    (\<forall>h < 4. di_header di ! h \<longleftrightarrow>
       (\<exists>b < 4. \<exists>e \<in> set (outs loop_cfg b). e_kind e \<noteq> CALL \<and> e_tgt e = h \<and> h \<in> dom_set loop_cfg b))"
  using loop_headers_correct [OF loop_cfg_wf loop_cfg_reachable] by simp

text \<open>C13: the post-dominance processor ends without a failed assertion and the set of a block
  holds exactly the blocks on every path from it to the exit.\<close>

theorem postdominance_correct:
  assumes "wf_cfg g"
  shows "\<exists>rd. pdom_processCFG g = Some (Inr rd) \<and>
    (\<forall>a < countBB g. \<forall>b < countBB g. bs_contains (rd ! b) a =
       Inr (\<forall>p. is_path (flow_edge Predecessor g) b p (countBB g - 1) \<longrightarrow> a \<in> set p))"
proof -
  obtain rd where rd: "pdom_processCFG g = Some (Inr rd)"
      "\<forall>b < countBB g. bv_rep (countBB g) (pdom_set g b) (rd ! b)"
    using pdom_processCFG_table [OF assms] by blast
  have "bs_contains (rd ! b) a = Inr (a \<in> pdom_set g b)" if "a < countBB g" "b < countBB g" for a b
    using rd(2) that by (intro bs.contains_rep) auto
  then show ?thesis
    using rd(1) assms pdom_set_paths [of g] by (intro exI [of _ rd]) (auto simp: wf_cfg_def)
qed

theorem postdominance_correct_witness:
  "\<exists>rd. pdom_processCFG loop_cfg = Some (Inr rd) \<and>
    (\<forall>a < 4. \<forall>b < 4. bs_contains (rd ! b) a =
       Inr (\<forall>p. is_path (flow_edge Predecessor loop_cfg) b p 3 \<longrightarrow> a \<in> set p))"
  using postdominance_correct [OF loop_cfg_wf] by simp

section \<open>Instruction cache analysis\<close>

text \<open>C3: a stable MUST annotation of a graph predicts hits. When the state of every node
  absorbs the update of each of its predecessors, the block that a node's MUST state
  contains is in the LRU set reached by any execution along a path from a node whose
  state holds at the start.\<close>

theorem must_analysis_hits:
  assumes "\<And>v. must_valid n A (X v)" "\<And>v. block_ok n (act v)"
    and "\<And>v w c q. E v w \<Longrightarrow> must_update (X v) (X v) (act v) = Inr c \<Longrightarrow> must_gamma A c q \<Longrightarrow> must_gamma A (X w) q"
    and "\<And>i. Suc i < length p \<Longrightarrow> E (p ! i) (p ! Suc i)"
    and "p \<noteq> []" "must_gamma A (X (hd p)) q" "must_contains (X (last p)) b = Inr True"
  shows "b \<in> set (fold (\<lambda>v. lru_step A (act v)) (butlast p) q)"
  using must_contains_hit [OF must_dom.stable_sound [where E = E and X = X and act = act and p = p, OF assms(1-6)] assms(7)] .

theorem must_analysis_hits_witness: "1 \<in> set (fold (\<lambda>v. lru_step 2 (Some v)) (butlast [1, 0]) [])"
proof -
  let ?X = "\<lambda>v :: nat. if v = 0 then \<lparr>acs_A = 2, acs_age = [-1, 0]\<rparr> else \<lparr>acs_A = 2, acs_age = [-1, -1]\<rparr>"
  let ?act = "\<lambda>v. if v = 0 \<or> v = 1 then Some v else None"
  have "1 \<in> set (fold (\<lambda>v. lru_step 2 (?act v)) (butlast [1, 0]) [])"
  proof (rule must_analysis_hits [where n = 2 and X = ?X and E = "\<lambda>v w. v = 1 \<and> w = 0"])
    show "must_valid 2 2 (?X v)" for v by (auto simp: must_valid_def less_2_cases_iff)
    show "must_gamma 2 (?X w) q" if "v = 1 \<and> w = 0" "must_update (?X v) (?X v) (?act v) = Inr c" "must_gamma 2 c q" for v w c q
      using that by (auto simp: must_update_def must_assign_eq acs_same_def must_inject_def must_contains_def Let_def
          age_all_def upd_loop_def numeral_2_eq_2)
  qed (auto simp: block_ok_def must_gamma_def lru_wf_def must_contains_def less_Suc_eq numeral_2_eq_2)
  then show ?thesis by simp
qed

text \<open>C23: the join of two MUST states is their least upper bound: it is above both and below
  every state above both.\<close>

theorem must_lub_is_least:
  assumes "must_valid n A a" "must_valid n A b"
  shows "\<exists>c. must_lub a b = Inr c \<and> must_valid n A c \<and> must_le a c \<and> must_le b c \<and>
    (\<forall>d. must_le a d \<longrightarrow> must_le b d \<longrightarrow> must_le c d)"
proof -
  obtain c where "must_lub a b = Inr c" using must_lub_total [OF assms] by blast
  then show ?thesis using must_lub_least must_lub_valid [OF assms] by blast
qed

theorem must_lub_is_least_witness:
  "\<exists>c. must_lub \<lparr>acs_A = 2, acs_age = [0, 1]\<rparr> \<lparr>acs_A = 2, acs_age = [-1, 0]\<rparr> = Inr c \<and> must_valid 2 2 c \<and>
     must_le \<lparr>acs_A = 2, acs_age = [0, 1]\<rparr> c \<and> must_le \<lparr>acs_A = 2, acs_age = [-1, 0]\<rparr> c \<and>
     (\<forall>d. must_le \<lparr>acs_A = 2, acs_age = [0, 1]\<rparr> d \<longrightarrow> must_le \<lparr>acs_A = 2, acs_age = [-1, 0]\<rparr> d \<longrightarrow> must_le c d)"
  by (rule must_lub_is_least) (auto simp: must_valid_def less_2_cases_iff)

text \<open>C24: the access of a block keeps a MUST state well formed and is monotone: a less precise
  state before gives a less precise state after.\<close>

theorem must_inject_monotone:
  assumes "must_valid n A a" "must_valid n A b" "must_le a b" "must_inject a x = Inr c" "must_inject b x = Inr d"
  shows "must_valid n A c \<and> must_valid n A d \<and> must_le c d"
  using assms must_inject_mono must_inject_valid by blast

theorem must_inject_monotone_witness:
  "must_valid 2 2 \<lparr>acs_A = 2, acs_age = [1, 0]\<rparr> \<and> must_valid 2 2 \<lparr>acs_A = 2, acs_age = [-1, 0]\<rparr> \<and>
   must_le \<lparr>acs_A = 2, acs_age = [1, 0]\<rparr> \<lparr>acs_A = 2, acs_age = [-1, 0]\<rparr>"
proof (rule must_inject_monotone [where x = 1])
  let ?a = "\<lparr>acs_A = 2, acs_age = [0, 1]\<rparr>" and ?b = "\<lparr>acs_A = 2, acs_age = [-1, 1]\<rparr>"
  show "must_valid 2 2 ?a" "must_valid 2 2 ?b" by (auto simp: must_valid_def less_2_cases_iff)
  show "must_le ?a ?b" by (auto simp: must_le_def acs_same_def less_Suc_eq)
  show "must_inject ?a 1 = Inr \<lparr>acs_A = 2, acs_age = [1, 0]\<rparr>" "must_inject ?b 1 = Inr \<lparr>acs_A = 2, acs_age = [-1, 0]\<rparr>"
    by code_simp+
qed

text \<open>C25: the access of a block \<open>b\<close> in a MAY state is sound when no block numbered after \<open>b\<close> is exactly one
  step older than \<open>b\<close>: then a block that the new state excludes is in no LRU set that the accessed sets describe.
  Without the condition the loop of \<^verbatim>\<open>inject\<close> ages such a block twice (\<open>may_ages_twice\<close>).\<close>

theorem may_excludes:
  assumes "may_valid n A a" "may_inject a b = Inr c" "may_gamma A a q"
    and "\<And>k. b < k \<Longrightarrow> k < n \<Longrightarrow> acs_age a ! b \<noteq> -1 \<Longrightarrow> acs_age a ! k \<noteq> acs_age a ! b + 1"
    and "may_contains c x = Inr False"
  shows "x \<notin> set (lru_access A b q)"
  using may_inject_sound [OF assms(1-4)] assms(5) by (auto simp: may_gamma_def may_contains_def res_simps)

theorem may_excludes_witness: "3 \<notin> set (lru_access 3 1 [1, 0, 2]) \<and> 0 \<notin> set (lru_access 1 1 [0])"
proof
  show "3 \<notin> set (lru_access 3 1 [1, 0, 2])"
  proof (rule may_excludes [where n = 4])
    let ?a = "\<lparr>acs_A = 3, acs_age = [1, 0, 2, -1]\<rparr>" and ?c = "\<lparr>acs_A = 3, acs_age = [1, 0, 2, -1]\<rparr>"
    show "may_valid 4 3 ?a" "may_gamma 3 ?a [1, 0, 2]" "may_inject ?a 1 = Inr ?c" "may_contains ?c 3 = Inr False" by code_simp+
    show "acs_age ?a ! k \<noteq> acs_age ?a ! 1 + 1" if "1 < k" "k < 4" for k
      using that less_4_cases [of "\<lambda>k. 1 < k \<longrightarrow> acs_age ?a ! k \<noteq> acs_age ?a ! 1 + 1"] by simp
  qed
  show "0 \<notin> set (lru_access 1 1 [0])"
  proof (rule may_excludes [where n = 2])
    let ?a = "\<lparr>acs_A = 1, acs_age = [0, -1]\<rparr>"
    show "may_valid 2 1 ?a" "may_gamma 1 ?a [0]" by (auto simp: may_valid_def may_gamma_def lru_wf_def less_2_cases_iff)
    show "may_inject ?a 1 = Inr \<lparr>acs_A = 1, acs_age = [-1, 0]\<rparr>" "may_contains \<lparr>acs_A = 1, acs_age = [-1, 0]\<rparr> 0 = Inr False"
      by code_simp+
  qed auto
qed

text \<open>C11: MUST and persistence states advance together with the LRU set, for an access that in each open
  loop either is not the first of its block or accesses a block that the MUST state does not hold. The access succeeds and
  keeps both states well formed; the new MUST state describes the accessed set, the new persistence state the traces
  extended by the access, and a block that an open loop reports persistent and has accessed is in the set. The code
  gives wrong verdicts when the condition on the access fails (\<open>persistence_too_optimistic\<close>).\<close>

theorem persistence_sound:
  assumes "pers_valid n A (mp_pers m)" "must_valid n A (mp_must m)" "b < n"
    and "must_gamma A (mp_must m) q" "pers_gamma A (mp_pers m) trs w q"
    and "\<And>tr. tr \<in> insert w (set trs) \<Longrightarrow> b \<in> set tr \<or> must_contains (mp_must m) b = Inr False"
  shows "\<exists>m'. mp_inject m b = Inr m' \<and> pers_valid n A (mp_pers m') \<and> must_valid n A (mp_must m') \<and>
    must_gamma A (mp_must m') (lru_access A b q) \<and> pers_gamma A (mp_pers m') (map ((#) b) trs) (b # w) (lru_access A b q) \<and>
    (\<forall>k < length trs. \<forall>x. pers_isPersistent (mp_pers m') x k = Inr True \<longrightarrow> x = b \<or> x \<in> set (trs ! k) \<longrightarrow>
      x \<in> set (lru_access A b q))"
proof -
  obtain m' where m': "mp_inject m b = Inr m'" "pers_valid n A (mp_pers m')" "must_valid n A (mp_must m')"
      "must_gamma A (mp_must m') (lru_access A b q)"
      "pers_gamma A (mp_pers m') (map ((#) b) trs) (b # w) (lru_access A b q)"
    using mp_inject_sound [OF assms] by blast
  have "x \<in> set (lru_access A b q)"
    if "k < length trs" "pers_isPersistent (mp_pers m') x k = Inr True" "x = b \<or> x \<in> set (trs ! k)" for k x
    using persistent_level_hit [OF m'(2,5) that(2)] that by auto
  then show ?thesis using m' by blast
qed

definition ex_loop_state :: mustpers where
  "ex_loop_state = \<lparr>mp_pers = \<lparr>pd_A = 2, pd_size = 3, pd_bottom = False, pd_whole = \<lparr>acs_A = 2, acs_age = [0, -1, -1]\<rparr>,
      pd_data = [\<lparr>acs_A = 2, acs_age = [0, -1, -1]\<rparr>]\<rparr>, mp_must = \<lparr>acs_A = 2, acs_age = [0, -1, -1]\<rparr>\<rparr>"

theorem persistence_sound_witness:
  "\<exists>m'. mp_inject ex_loop_state 1 = Inr m' \<and> must_gamma 2 (mp_must m') (lru_access 2 1 [0]) \<and>
     pers_isPersistent (mp_pers m') 0 0 = Inr True \<and> 0 \<in> set (lru_access 2 1 [0])"
proof -
  let ?m = ex_loop_state
  have "pers_valid 3 2 (mp_pers ?m)" "must_valid 3 2 (mp_must ?m)" "must_gamma 2 (mp_must ?m) [0]"
    "pers_gamma 2 (mp_pers ?m) [[0]] [0] [0]" "must_contains (mp_must ?m) 1 = Inr False" by code_simp+
  then obtain m' where m': "mp_inject ?m 1 = Inr m'" "must_gamma 2 (mp_must m') (lru_access 2 1 [0])"
      "\<forall>k < length [[0 :: nat]]. \<forall>x. pers_isPersistent (mp_pers m') x k = Inr True \<longrightarrow> x = 1 \<or> x \<in> set ([[0]] ! k) \<longrightarrow>
        x \<in> set (lru_access 2 1 [0])"
    using persistence_sound [of 3 2 ?m 1 "[0]" "[[0]]" "[0]"] by auto
  have "rbind (mp_inject ?m 1) (\<lambda>m'. pers_isPersistent (mp_pers m') 0 0) = Inr True" by code_simp
  then have "pers_isPersistent (mp_pers m') 0 0 = Inr True" using m'(1) by simp
  then show ?thesis using m' by force
qed

text \<open>C26: the join of persistence states of the same depth always succeeds, is well formed and holds
  for every execution that one of the joined states describes.\<close>

theorem persistence_join_sound:
  assumes "pers_valid n A p" "pers_valid n A d" "length (pd_data p) = length (pd_data d)"
  shows "\<exists>c. pers_lub p d = Inr c \<and> pers_valid n A c \<and>
    (\<forall>trs w q. pers_gamma A p trs w q \<or> pers_gamma A d trs w q \<longrightarrow> pers_gamma A c trs w q)"
  by (rule pers_lub_sound [OF assms])

theorem persistence_join_sound_witness:
  "\<exists>c. pers_lub (pers_entry 3 2) (pers_entry 3 2) = Inr c \<and> pers_valid 3 2 c \<and>
    (\<forall>trs w q. pers_gamma 2 (pers_entry 3 2) trs w q \<or> pers_gamma 2 (pers_entry 3 2) trs w q \<longrightarrow> pers_gamma 2 c trs w q)"
  by (rule persistence_join_sound) code_simp+

text \<open>C27: entering a loop and leaving it restores the persistence state.\<close>

theorem context_roundtrip:
  assumes "\<not> pd_bottom p"
  shows "\<exists>p'. pers_enterContext p = Inr p' \<and> length (pd_data p') = Suc (length (pd_data p)) \<and> pers_leaveContext p' = Inr p"
proof -
  obtain p' where p': "pers_enterContext p = Inr p'" "length (pd_data p') = Suc (length (pd_data p))"
    using assms by (auto simp: pers_enterContext_def)
  then show ?thesis using enter_leave [OF p'(1)] by blast
qed

theorem context_roundtrip_witness:
  "\<exists>p'. pers_enterContext (pers_entry 3 2) = Inr p' \<and> length (pd_data p') = Suc (length (pd_data (pers_entry 3 2))) \<and>
     pers_leaveContext p' = Inr (pers_entry 3 2)"
  by (rule context_roundtrip) code_simp

text \<open>C10: the categories of the first access to a block, on a set that the MUST, MAY and persistence
  states describe. \<^verbatim>\<open>ALWAYS_HIT\<close> is a block of the set; \<^verbatim>\<open>ALWAYS_MISS\<close> is a block outside of it when there is a
  MAY state and the option is not \<^verbatim>\<open>FML_OUTER\<close>, with which the code gives this category to blocks that may be present
  (\<open>outer_level_misses_present\<close>); \<^verbatim>\<open>FIRST_MISS\<close> is a block that some open loop, once it has accessed it, keeps in the set.\<close>

theorem categories_sound:
  assumes "cat2_lblock level lh enc must may pers True lb = Inr (c, h)"
    and "must_gamma A must q" "\<And>m. may = Some m \<Longrightarrow> may_gamma A m q" "pers_valid n A pers" "pers_gamma A pers trs w q"
  shows "(c = ALWAYS_HIT \<longrightarrow> lb_cacheblock lb \<in> set q) \<and>
    (c = ALWAYS_MISS \<and> may \<noteq> None \<and> level \<noteq> FML_OUTER \<longrightarrow> lb_cacheblock lb \<notin> set q) \<and>
    (c = FIRST_MISS \<longrightarrow> (\<exists>k < length trs. pers_isPersistent pers (lb_cacheblock lb) k = Inr True \<and>
       (lb_cacheblock lb \<in> set (trs ! k) \<longrightarrow> lb_cacheblock lb \<in> set q)))"
proof (intro conjI impI)
  note cases = cat2_cases [OF assms(1)]
  show "lb_cacheblock lb \<in> set q" if "c = ALWAYS_HIT"
    using cases that must_contains_hit [OF assms(2)] by (auto split: if_splits)
  show "lb_cacheblock lb \<notin> set q" if "c = ALWAYS_MISS \<and> may \<noteq> None \<and> level \<noteq> FML_OUTER"
    using cases that assms(3) by (auto simp: may_gamma_def may_contains_def res_simps split: if_splits)
  assume "c = FIRST_MISS"
  then obtain k where k: "pers_isPersistent pers (lb_cacheblock lb) k = Inr True" using cases by (auto split: if_splits)
  then show "\<exists>k < length trs. pers_isPersistent pers (lb_cacheblock lb) k = Inr True \<and>
      (lb_cacheblock lb \<in> set (trs ! k) \<longrightarrow> lb_cacheblock lb \<in> set q)"
    using persistent_level_hit [OF assms(4,5) k] by blast
qed

definition ex_lb :: lblock where
  "ex_lb = \<lparr>lb_id = 1, lb_cacheblock = 0, lb_addr = 0, lb_bb = 1\<rparr>"

definition ex_in_loop :: pers where
  "ex_in_loop = \<lparr>pd_A = 2, pd_size = 2, pd_bottom = False, pd_whole = \<lparr>acs_A = 2, acs_age = [1, 0]\<rparr>,
     pd_data = [\<lparr>acs_A = 2, acs_age = [1, 0]\<rparr>]\<rparr>"

theorem categories_sound_witness:
  "lb_cacheblock ex_lb \<in> set [0] \<and> lb_cacheblock ex_lb \<notin> set [1] \<and>
   (\<exists>k < length [[0 :: nat, 1]]. pers_isPersistent ex_in_loop (lb_cacheblock ex_lb) k = Inr True \<and>
      (lb_cacheblock ex_lb \<in> set ([[0, 1]] ! k) \<longrightarrow> lb_cacheblock ex_lb \<in> set [1, 0]))"
proof (intro conjI)
  let ?none = "\<lparr>acs_A = 2, acs_age = [-1, -1]\<rparr>" and ?m = "\<lparr>acs_A = 2, acs_age = [0, -1]\<rparr>" and ?may = "\<lparr>acs_A = 2, acs_age = [-1, 0]\<rparr>"
  have hit: "cat2_lblock FML_INNER (\<lambda>_. False) (\<lambda>_. None) ?m None (pers_entry 2 2) True ex_lb = Inr (ALWAYS_HIT, None)"
    "must_gamma 2 ?m [0]" "pers_valid 2 2 (pers_entry 2 2)" "pers_gamma 2 (pers_entry 2 2) [] [] [0]" by code_simp+
  have miss: "cat2_lblock FML_INNER (\<lambda>_. False) (\<lambda>_. None) ?none (Some ?may) (pers_entry 2 2) True ex_lb = Inr (ALWAYS_MISS, None)"
    "must_gamma 2 ?none [1]" "may_gamma 2 ?may [1]" "pers_gamma 2 (pers_entry 2 2) [] [] [1]" by code_simp+
  have first: "cat2_lblock FML_INNER (\<lambda>_. True) (\<lambda>_. None) ?none None ex_in_loop True ex_lb = Inr (FIRST_MISS, Some 1)"
    "must_gamma 2 ?none [1, 0]" "pers_valid 2 2 ex_in_loop" "pers_gamma 2 ex_in_loop [[0, 1]] [0, 1] [1, 0]" by code_simp+
  show "lb_cacheblock ex_lb \<in> set [0]" using categories_sound [OF hit(1,2) _ hit(3,4)] by blast
  show "lb_cacheblock ex_lb \<notin> set [1]" using categories_sound [OF miss(1,2) _ hit(3) miss(4)] miss(3) by auto
  show "\<exists>k < length [[0 :: nat, 1]]. pers_isPersistent ex_in_loop (lb_cacheblock ex_lb) k = Inr True \<and>
      (lb_cacheblock ex_lb \<in> set ([[0, 1]] ! k) \<longrightarrow> lb_cacheblock ex_lb \<in> set [1, 0])"
    using categories_sound [OF first(1,2) _ first(3,4)] by blast
qed

text \<open>C28: the counters of the categories of a set of l-blocks keep adding up to the total, which
  grows by one for each categorised l-block.\<close>

theorem category_counts:
  assumes "cat2_set level lh enc acss isfirst lbset (cats, s) = Inr (cats', s')" "counts_ok s"
  shows "counts_ok s' \<and> total_cnt s' - total_cnt s = length cats' - length cats"
  by (rule cat2_set_counts [OF assms])

theorem category_counts_witness:
  "let st = projr (cat2_set FML_INNER (\<lambda>_. False) (\<lambda>_. None) (\<lambda>_. (must_entry 2 2, None, pers_entry 2 2)) (\<lambda>_. True)
     (map (\<lambda>i. \<lparr>lb_id = i, lb_cacheblock = 0, lb_addr = 0, lb_bb = 1\<rparr>) [0, 1, 2]) ([], \<lparr>total_cnt = 0, ah_cnt = 0, am_cnt = 0, pers_cnt = 0, nc_cnt = 0\<rparr>))
   in counts_ok (snd st) \<and> total_cnt (snd st) - 0 = length (fst st) - 0"
proof -
  let ?st = "cat2_set FML_INNER (\<lambda>_. False) (\<lambda>_. None) (\<lambda>_. (must_entry 2 2, None, pers_entry 2 2)) (\<lambda>_. True)
     (map (\<lambda>i. \<lparr>lb_id = i, lb_cacheblock = 0, lb_addr = 0, lb_bb = 1\<rparr>) [0, 1, 2]) ([], \<lparr>total_cnt = 0, ah_cnt = 0, am_cnt = 0, pers_cnt = 0, nc_cnt = 0\<rparr>)"
  have "?st = Inr (fst (projr ?st), snd (projr ?st))" by code_simp
  from category_counts [OF this] show ?thesis by (simp add: counts_ok_def Let_def)
qed

section \<open>Abstract interpretation engine\<close>

text \<open>C5: \<^verbatim>\<open>HalfAbsInt\<close> with \<^verbatim>\<open>WideningFixPoint\<close> on a call-free reducible graph each of whose
  edges leaves one loop at most (an edge that leaves two makes the engine fail, \<open>two_loops_left_fails\<close>). For any problem that keeps the contract of a domain, with a widening that descends in a
  bounded height when it changes a state, the processors of dominance and of loops succeed, the engine ends without a
  failed assertion, and its table holds, at every block, all the states with which executions enter the block.\<close>

theorem widening_engine_total:
  assumes "nested_cfg (cfg_of pg k)"
    and "hai_domain P k valid gamma exec ok Widening_FP pass cin cout"
    and "valid ent" "\<And>b. b < countBB (cfg_of pg k) \<Longrightarrow> reachable (cfg_of pg k) b \<Longrightarrow> ok b"
    and "\<And>a. valid a \<Longrightarrow> (ht a :: nat) \<le> H"
    and "\<And>a b c x. valid a \<Longrightarrow> valid b \<Longrightarrow> hp_widening P (k, x) a b = Inr c \<Longrightarrow> hp_equals P c a = Inr False \<Longrightarrow> ht c < ht a"
  shows "\<exists>di li h. dom_processCFG (cfg_of pg k) = Some (Inr di) \<and> lib_processCFG (cfg_of pg k) di = Some (Inr li) \<and>
    hai_solve Widening_FP (whole_env pg di li so) P k (Some ent) None (hai_new P) = Some (Inr h) \<and>
    (\<forall>b q. entering (cfg_of pg k) li exec pass cin cout (gamma ent) b q \<longrightarrow> gamma (h_results h (k, b)) q)"
proof -
  obtain di li where l: "dom_processCFG (cfg_of pg k) = Some (Inr di)" "lib_processCFG (cfg_of pg k) di = Some (Inr li)"
    using nested_cfg_processors [OF assms(1)] by blast
  note inp = nested_cfg_input [OF assms(1) l, of so]
  have okl: "ok b" if "b \<in> live (cfg_of (he_pg (whole_env pg di li so)) k)" for b using that assms(4) by (simp add: live_def)
  have "hai_domain.height_ok P k valid ht H"
    using assms(5,6) unfolding hai_domain.height_ok_def [OF assms(2)] by blast
  then obtain h where h: "hai_solve Widening_FP (whole_env pg di li so) P k (Some ent) None (hai_new P) = Some (Inr h)"
    using hai_domain.solve_ends [OF assms(2) refl _ inp okl assms(3)] by blast
  then show ?thesis using hai_domain.solve_covers [OF assms(2) inp okl assms(3) h] l by auto
qed

theorem widening_engine_total_witness:
  "\<exists>di li h. dom_processCFG plain_cfg = Some (Inr di) \<and> lib_processCFG plain_cfg di = Some (Inr li) \<and>
    hai_solve Widening_FP (whole_env plain_pg di li True) (must_hai_problem 2 2 plain_acc) 0 (Some (must_entry 2 2)) None
      (hai_new (must_hai_problem 2 2 plain_acc)) = Some (Inr h) \<and>
    (\<forall>b q. entering plain_cfg li (\<lambda>b. lru_step 2 (plain_acc (0, b))) (\<lambda>_ _. True) (\<lambda>_ q. q) (\<lambda>_ q. q)
      (must_gamma 2 (must_entry 2 2)) b q \<longrightarrow> must_gamma 2 (h_results h (0, b)) q)"
proof -
  note d = must_hai.hai_domain_axioms [of 2 1 plain_acc 0 Widening_FP, simplified, folded numeral_2_eq_2]
  have "must_valid 2 2 (must_entry 2 2)" using must_entry_valid [of 2 2] by simp
  then show ?thesis
    using widening_engine_total [where pg = plain_pg and k = 0 and P = "must_hai_problem 2 2 plain_acc" and ent = "must_entry 2 2"
      and ht = "must_height 2 2" and H = 4 and so = True, OF _ d] plain_nested must_height_bound [of 2 2] must_lub_descends [of 2 2]
    by (simp add: plain_acc_def block_ok_def)
qed

text \<open>C6: the MUST analysis of \<^verbatim>\<open>ACSBuilder\<close> with any of the handlers of loops, on graphs that are call-free,
  reducible and whose edges leave one loop at most, for one set of the cache of which every basic block accesses one
  block at most (the update of a basic block follows its last access only, \<open>last_block_only_unsound\<close>). When the engine
  ends, it has failed no assertion, and the blocks in the MUST state stored for a basic block are in the set of the LRU
  cache whenever an execution enters the basic block.\<close>

theorem must_engine_hits:
  assumes "nested_cfg (cfg_of pg k)" "0 < A" "must_valid n A ent" "\<And>b. block_ok n (acc (k, b))"
    and "dom_processCFG (cfg_of pg k) = Some (Inr di)" "lib_processCFG (cfg_of pg k) di = Some (Inr li)"
    and "hai_solve fk (whole_env pg di li so) (must_hai_problem n A acc) k (Some ent) None (hai_new (must_hai_problem n A acc)) = Some r"
  shows "\<exists>h. r = Inr h \<and> (\<forall>b q x.
    entering (cfg_of pg k) li (\<lambda>b. lru_step A (acc (k, b))) (\<lambda>_ _. True) (\<lambda>_ q. q) (\<lambda>_ q. q) (must_gamma A ent) b q \<and>
    must_contains (h_results h (k, b)) x = Inr True \<longrightarrow> x \<in> set q)"
proof -
  obtain A' where A: "A = Suc A'" using assms(2) by (cases A) auto
  have "\<exists>h. r = Inr h \<and> (\<forall>b q. entering (cfg_of pg k) li (\<lambda>b. lru_step A (acc (k, b))) (\<lambda>_ _. True) (\<lambda>_ q. q) (\<lambda>_ q. q)
      (must_gamma A ent) b q \<longrightarrow> must_gamma A (h_results h (k, b)) q)"
    using must_hai.solve_covers [OF nested_cfg_input [OF assms(1,5,6)] _ _ assms(7) [unfolded A]] assms(3,4) by (auto simp: A)
  then show ?thesis using must_contains_hit by blast
qed

theorem must_engine_hits_witness:
  "\<exists>li h. lib_processCFG plain_cfg loop_doms = Some (Inr li) \<and>
    hai_solve Default_FP (whole_env plain_pg loop_doms li False) (must_hai_problem 2 2 plain_acc) 0 (Some (must_entry 2 2)) None
      (hai_new (must_hai_problem 2 2 plain_acc)) = Some (Inr h) \<and> must_contains (h_results h (0, 2)) 0 = Inr True \<and>
    (\<forall>q. entering plain_cfg li (\<lambda>b. lru_step 2 (plain_acc (0, b))) (\<lambda>_ _. True) (\<lambda>_ q. q) (\<lambda>_ q. q)
      (must_gamma 2 (must_entry 2 2)) 2 q \<longrightarrow> 0 \<in> set q)"
proof -
  let ?P = "must_hai_problem 2 2 plain_acc"
  obtain li where li: "lib_processCFG plain_cfg loop_doms = Some (Inr li)"
    using plain_solved by (auto split: option.splits sum.splits)
  let ?s = "hai_solve Default_FP (whole_env plain_pg loop_doms li False) ?P 0 (Some (must_entry 2 2)) None (hai_new ?P)"
    and ?t = "map (\<lambda>a. \<lparr>acs_A = 2, acs_age = a\<rparr>) [[-1, -1], [-1, -1], [0, -1], [0, -1]]"
  have e: "map_option (map_sum id (\<lambda>h. map (\<lambda>b. h_results h (0, b)) [0..<4])) ?s = Some (Inr ?t)" using plain_solved li by simp
  then obtain z where z: "?s = Some z" by auto
  with e obtain h where h: "?s = Some (Inr h)" "map (\<lambda>b. h_results h (0, b)) [0..<4] = ?t" by (cases z) auto
  have "h_results h (0, 2) = \<lparr>acs_A = 2, acs_age = [0, -1]\<rparr>"
    using arg_cong [OF h(2), of "\<lambda>xs. xs ! 2"] by (simp add: numeral_2_eq_2)
  then have c: "must_contains (h_results h (0, 2)) 0 = Inr True" by (simp add: must_contains_def)
  have v: "must_valid 2 2 (must_entry 2 2)" using must_entry_valid [of 2 2] by simp
  have ok: "block_ok 2 (plain_acc (0, b))" for b by (simp add: plain_acc_def block_ok_def)
  have "\<forall>b q x. entering plain_cfg li (\<lambda>b. lru_step 2 (plain_acc (0, b))) (\<lambda>_ _. True) (\<lambda>_ q. q) (\<lambda>_ q. q)
      (must_gamma 2 (must_entry 2 2)) b q \<and> must_contains (h_results h (0, b)) x = Inr True \<longrightarrow> x \<in> set q"
    using must_engine_hits [where pg = plain_pg and k = 0, OF _ _ v ok _ _ h(1)] li plain_nested plain_doms by simp
  then show ?thesis using li h(1) c by blast
qed

section \<open>Data-value analysis with circular linear progressions\<close>

text \<open>C4: the interpretation of a machine instruction ends with an abstract state that describes the
  machine state at the end of every path of its semantic block, when two conditions hold along the interpretation.
  Every instruction met is in the range where its transfer function is sound (\<open>inst_safe\<close>: no sum whose step count
  leaves 32 bits, no shift beyond the width, no right shift of a progression, no access at one of a few addresses, no
  store at all addresses of a progression). Every two states joined are close (\<open>st_close\<close>: as many registers, values of
  the signed range that start less than \<open>2 ^ 31\<close> apart). Outside of them the code is not sound
  (\<open>store_strong_update\<close>, \<open>store_unbounded_ignored\<close>, \<open>st_join_unbalanced\<close>, \<open>clp_join_misses\<close>).\<close>

theorem clp_inst_covers:
  assumes "path_safe env b s (prepare (count_inst p))" "st_good s" "st_rep s M" "m_path b C 0 M M'"
    and "\<And>i M. i \<in> set b \<Longrightarrow> i_op i = S_LOAD \<Longrightarrow> C M \<Longrightarrow> image_ok env (i_b i) M"
    and "\<And>s' p'. clp_path env b s (prepare (count_inst p)) = Inr (s', p') \<Longrightarrow> paths_safe env b s' p'"
  shows "\<exists>s' p'. clp_inst env b s p = Some (Inr (s', p')) \<and> st_rep s' M'"
  by (rule clp_inst_sound [OF assms])

definition ex_env :: clp_env where
  "ex_env = \<lparr>env_data_min = 0, env_data_max = 0, env_get8 = (\<lambda>_. 0), env_get16 = (\<lambda>_. 0), env_get32 = (\<lambda>_. 0),
     env_findSymbolAt = (\<lambda>_. None)\<rparr>"

definition ex_prob :: clp_prob where
  "ex_prob = \<lparr>pr_pc = 0, pr_todo = [], pr_has_if = False, pr_stats = \<lparr>nb_inst = 0, nb_sem_inst = 0, nb_set = 0, nb_top_set = 0,
     nb_store = 0, nb_top_store = 0, nb_top_store_addr = 0, nb_load = 0, nb_load_top_addr = 0, nb_top_load = 0,
     nb_filters = 0, nb_top_filters = 0\<rparr>\<rparr>"

definition ex_branch :: "sem_inst list" where
  "ex_branch = [inst3 S_IF 1 1 1, sem_seti 1 18, inst3 S_OR 2 1 1]"

theorem clp_inst_covers_witness:
  "\<exists>s' p'. clp_inst ex_env ex_branch two_cells ex_prob = Some (Inr (s', p')) \<and> st_rep s' (m_set two_cells_machine 2 9) \<and>
     st_rep s' (m_set (m_set two_cells_machine 1 18) 2 18)"
proof -
  let ?p = "prepare (count_inst ex_prob)"
  let ?r = "projr (clp_path ex_env ex_branch two_cells ?p)"
  let ?q = "(snd ?r)\<lparr>pr_pc := 2, pr_todo := []\<rparr>"
  let ?r2 = "projr (clp_path ex_env ex_branch two_cells ?q)"
  let ?j = "projr (st_join (fst ?r) (fst ?r2))"
  have ops: "i_op i \<noteq> S_LOAD" if "i \<in> set ex_branch" for i
    using that by (auto simp: ex_branch_def sem_seti_def inst1_def inst3_def inst0_def)
  have safe: "path_safe ex_env ex_branch two_cells ?p" "st_good two_cells" by code_simp+
  have ps: "paths_safe ex_env ex_branch s' p'" if r: "clp_path ex_env ex_branch two_cells ?p = Inr (s', p')" for s' p'
  proof -
    have "paths_safe ex_env ex_branch (fst ?r) (snd ?r)"
    proof (rule paths_next)
      show "pr_todo (snd ?r) = (2, two_cells) # []" "path_safe ex_env ex_branch two_cells ?q" "st_good two_cells"
        "clp_path ex_env ex_branch two_cells ?q = Inr (fst ?r2, snd ?r2)" "st_join (fst ?r) (fst ?r2) = Inr ?j"
        "st_close (fst ?r) (fst ?r2)" by code_simp+
      have "pr_todo (snd ?r2) = []" by code_simp
      then show "paths_safe ex_env ex_branch ?j (snd ?r2)" by (rule paths_done)
    qed
    then show ?thesis using r by simp
  qed
  have bb: "bb_at ex_branch 0 = Inr (inst3 S_IF 1 1 1)" "bb_at ex_branch 1 = Inr (sem_seti 1 18)"
    "bb_at ex_branch 2 = Inr (inst3 S_OR 2 1 1)" by code_simp+
  have fields: "i_op (inst3 c d a b) = c" "i_b (inst3 c d a 1) = 1" "i_op (sem_seti d k) = S_SETI" for c d a b k
    by (simp_all add: inst3_def sem_seti_def inst1_def inst0_def s16_def)
  have n: "length ex_branch = 3" by (simp add: ex_branch_def)
  have ors: "m_set M 2 (m_get M 1) \<in> m_exec (inst3 S_OR 2 1 1) M" for M by (simp add: m_exec_def inst3_def inst0_def)
  have seti: "m_set two_cells_machine 1 18 \<in> m_exec (sem_seti 1 18) two_cells_machine"
    by (simp add: m_exec_def sem_seti_def inst1_def inst0_def)
  have cond: "two_cells_machine \<in> m_exec (inst3 S_IF 1 1 1) two_cells_machine" by (simp add: m_exec_def inst3_def inst0_def)
  have last: "m_path ex_branch (\<lambda>_. True) 2 M (m_set M 2 (m_get M 1))" for M
    by (rule path_step [OF bb(3) _ _ ors path_end]) (simp_all add: fields n)
  have "m_get two_cells_machine 1 = 9" "m_get (m_set two_cells_machine 1 18) 1 = 18"
    by (simp_all add: m_get_def m_set_def two_cells_machine_def)
  then have ends: "m_path ex_branch (\<lambda>_. True) 2 two_cells_machine (m_set two_cells_machine 2 9)"
    "m_path ex_branch (\<lambda>_. True) 2 (m_set two_cells_machine 1 18) (m_set (m_set two_cells_machine 1 18) 2 18)"
    using last [of two_cells_machine] last [of "m_set two_cells_machine 1 18"] by simp_all
  have skip: "m_path ex_branch (\<lambda>_. True) 0 two_cells_machine (m_set two_cells_machine 2 9)"
    by (rule path_skip [OF bb(1)]) (simp_all add: fields ends(1))
  have "m_path ex_branch (\<lambda>_. True) 1 two_cells_machine (m_set (m_set two_cells_machine 1 18) 2 18)"
    by (rule path_step [OF bb(2) _ _ seti]) (simp_all add: fields ends(2))
  then have through: "m_path ex_branch (\<lambda>_. True) 0 two_cells_machine (m_set (m_set two_cells_machine 1 18) 2 18)"
    by (intro path_step [OF bb(1) _ _ cond]) (simp_all add: fields)
  show ?thesis
    using clp_inst_covers [OF safe two_cells_rep skip _ ps] clp_inst_covers [OF safe two_cells_rep through _ ps] ops by auto
qed

text \<open>C12: the interpretation of a basic block ends when the conditional instructions of its semantic
  blocks only skip forward; each may double the work left in its block, never more.\<close>

theorem clp_update_ends:
  assumes "\<And>b. b \<in> set bb \<Longrightarrow> forward_block b"
  shows "\<exists>r. clp_update env bb s p = Some r"
  unfolding clp_update_def by (rule clp_insts_ends [OF assms])

theorem clp_update_ends_witness:
  "\<exists>r. clp_update ex_env [[inst3 S_IF 1 0 1, inst3 S_ADD 1 1 1, inst0 S_CONT]] two_cells ex_prob = Some r"
  by (rule clp_update_ends) (auto simp: forward_block_def inst3_def inst0_def)

text \<open>C15: sums and differences of values cover the wrapped sums and differences of their members,
  unless the number of steps of the result leaves 32 bits.\<close>

theorem clp_arith_sound:
  assumes "is_value a" "is_value b" "steps_fit a b" "x \<in> clp_gamma a" "y \<in> clp_gamma b"
  shows "x + y \<in> clp_gamma (clp_add a b) \<and> x - y \<in> clp_gamma (clp_sub a b)"
  using clp_add_sound [OF assms] clp_sub_sound [OF assms] by blast

theorem clp_arith_sound_witness:
  "0x7FFFFFFF + 8 \<in> clp_gamma (clp_add (clp_set K_VAL 0x7FFFFFFF (-3) 2) (clp_set K_VAL 8 4 9)) \<and>
   0x7FFFFFFF - 8 \<in> clp_gamma (clp_sub (clp_set K_VAL 0x7FFFFFFF (-3) 2) (clp_set K_VAL 8 4 9))"
  by (rule clp_arith_sound) (simp_all add: is_value_def clp_bound_member steps_fit_def gcd_non_0_int)

text \<open>C16: the join of two values covers both, for progressions that stay in the signed range and
  start less than \<open>2 ^ 31\<close> apart (constants farther apart are missed, \<open>clp_join_misses\<close>).\<close>

theorem clp_join_covers:
  assumes "clp_ok a" "clp_ok b"
    and "c_kind a = K_VAL \<Longrightarrow> c_kind b = K_VAL \<Longrightarrow>
      clp_flat a \<and> clp_flat b \<and> \<bar>sint (clp_start a) - sint (clp_start b)\<bar> < 2 ^ 31"
  shows "\<exists>v. clp_join a b = Inr v \<and> clp_gamma a \<union> clp_gamma b \<subseteq> clp_gamma v"
  by (rule clp_join_sound [OF assms])

theorem clp_join_covers_witness:
  "\<exists>v. clp_join (clp_set K_VAL 4 8 2) (clp_const 10) = Inr v \<and>
     clp_gamma (clp_set K_VAL 4 8 2) \<union> clp_gamma (clp_const 10) \<subseteq> clp_gamma v"
  by (rule clp_join_covers) code_simp+

text \<open>C17: the widening of two progressions of the signed range always succeeds and covers both.\<close>

theorem clp_widening_covers:
  assumes "c_kind a = K_VAL" "c_kind b = K_VAL" "clp_flat a" "clp_flat b"
  shows "\<exists>v. clp_widening a b = Inr v \<and> clp_gamma a \<union> clp_gamma b \<subseteq> clp_gamma v"
  by (rule clp_widening_sound [OF assms])

theorem clp_widening_covers_witness:
  "\<exists>v. clp_widening (clp_const 4) (clp_set K_VAL 4 8 1) = Inr v \<and>
     clp_gamma (clp_const 4) \<union> clp_gamma (clp_set K_VAL 4 8 1) \<subseteq> clp_gamma v"
  by (rule clp_widening_covers) code_simp+

text \<open>C18: filtering a value by a signed comparison with a constant keeps every member that satisfies it:
  always for \<^verbatim>\<open>le\<close> on progressions of the signed range, for \<^verbatim>\<open>ge\<close> on increasing ones whose step is a power of
  two or that start below the constant.\<close>

theorem clp_filters_sound:
  assumes "c_kind a = K_VAL" "clp_flat a" "x \<in> clp_gamma a" "\<bar>sint t - sint (c_lower a)\<bar> + \<bar>sint (c_delta a)\<bar> < 2 ^ 31"
  shows "(sint x \<le> sint t \<longrightarrow> (\<exists>v. clp_le a t = Inr v \<and> x \<in> clp_gamma v)) \<and>
    (sint t \<le> sint x \<and> 0 < sint (c_delta a) \<and> (sint (c_lower a) < sint t \<or> pow2_step (c_delta a)) \<longrightarrow>
       (\<exists>v. clp_ge a t = Inr v \<and> x \<in> clp_gamma v))"
  using clp_le_sound [OF assms(1-3) _ assms(4)] clp_ge_up_sound [OF assms(1,2) _ assms(3)] assms(4) by auto

theorem clp_filters_sound_witness:
  "(\<exists>v. clp_le (clp_set K_VAL 3 5 6) 20 = Inr v \<and> 3 \<in> clp_gamma v) \<and>
   (\<exists>v. clp_ge (clp_set K_VAL 3 5 6) 8 = Inr v \<and> 13 \<in> clp_gamma v) \<and> (\<exists>v. clp_ge (clp_set K_VAL 3 4 6) 3 = Inr v \<and> 3 \<in> clp_gamma v)"
proof (intro conjI)
  have m: "(13 :: 32 word) \<in> clp_gamma (clp_set K_VAL 3 5 6)" unfolding clp_gamma_val by (rule image_eqI [of _ _ 2]) auto
  have p: "pow2_step 4" unfolding pow2_step_def by (rule exI [of _ 2]) simp
  show "\<exists>v. clp_le (clp_set K_VAL 3 5 6) 20 = Inr v \<and> 3 \<in> clp_gamma v"
    using clp_filters_sound [of "clp_set K_VAL 3 5 6" 3 20] clp_bound_member [of 3 5 6] by (simp add: clp_flat_def clp_start_def)
  show "\<exists>v. clp_ge (clp_set K_VAL 3 5 6) 8 = Inr v \<and> 13 \<in> clp_gamma v"
    using clp_filters_sound [of "clp_set K_VAL 3 5 6" 13 8] m by (simp add: clp_flat_def clp_start_def)
  show "\<exists>v. clp_ge (clp_set K_VAL 3 4 6) 3 = Inr v \<and> 3 \<in> clp_gamma v"
    using clp_filters_sound [of "clp_set K_VAL 3 4 6" 3 3] clp_bound_member [of 3 4 6] p by (simp add: clp_flat_def clp_start_def)
qed

text \<open>C19: the bitwise and of two values covers the ands of their members, and their bitwise or the ors.\<close>

theorem clp_bitwise_sound:
  assumes "is_value a" "is_value b" "x \<in> clp_gamma a" "y \<in> clp_gamma b"
  shows "x OR y \<in> clp_gamma (clp_or a b) \<and> (\<exists>v. clp_and a b = Inr v \<and> x AND y \<in> clp_gamma v)"
  using clp_or_sound [OF assms] clp_and_sound [OF assms] by blast

theorem clp_bitwise_sound_witness:
  "(8 :: 32 word) OR 4 \<in> clp_gamma (clp_or (clp_set K_VAL 8 4 9) (clp_const 4)) \<and>
   (\<exists>v. clp_and (clp_set K_VAL 8 4 9) (clp_const 4) = Inr v \<and> 8 AND 4 \<in> clp_gamma v)"
proof (rule clp_bitwise_sound)
  show "8 \<in> clp_gamma (clp_set K_VAL 8 4 9)" "4 \<in> clp_gamma (clp_const 4)" by (simp_all add: clp_const_def clp_bound_member)
qed (simp_all add: is_value_def)

text \<open>C20: the recursive \<^verbatim>\<open>gcd\<close> of the analysis, which takes absolute values on the way down, ends and is the
  greatest common divisor.\<close>

theorem clp_gcd_correct: "clp_gcd a b = gcd a b"
  by (rule clp_gcd_gcd)

text \<open>C21: the sorted list of memory cells is a finite map: writing keeps it sorted and without
  unknown cells, changes the one cell, and reading finds what the map holds.\<close>

theorem clp_memory_map:
  assumes "mem_ok m"
  shows "mem_ok (mem_put a v m) \<and>
    map_of (mem_put a v m) = (if c_kind v = K_ALL then (map_of m)(a := None) else (map_of m)(a \<mapsto> v)) \<and>
    mem_get d k m = (case map_of m k of Some w \<Rightarrow> w | None \<Rightarrow> d)"
  using mem_ok_put map_of_mem_put mem_get_map_of assms by auto

theorem clp_memory_map_witness:
  "let m = [(4, clp_const 1), (8, clp_const 2)] in mem_ok (mem_put 6 (clp_const 3) m) \<and>
     map_of (mem_put 6 (clp_const 3) m) = (map_of m)(6 \<mapsto> clp_const 3) \<and> mem_get clp_all 8 m = clp_const 2"
  using clp_memory_map [of "[(4, clp_const 1), (8, clp_const 2)]" 6 "clp_const 3" clp_all 8]
  by (simp add: mem_ok_def)

text \<open>C22: a value written to a register, a temporary or a memory cell of a reachable state is what is
  read there afterwards.\<close>

theorem clp_state_roundtrip:
  assumes "st_def s = clp_all" "mem_ok (st_mem s)" "v \<noteq> clp_none" "c_kind v \<noteq> K_ALL" "var_ok i"
  shows "(\<exists>s'. st_set (clp_reg i) v s = Inr s' \<and> st_get (clp_reg i) s' = Inr v) \<and>
    (\<exists>s'. st_set (clp_const a) v s = Inr s' \<and> st_get (clp_const a) s' = Inr v)"
proof
  show "\<exists>s'. st_set (clp_reg i) v s = Inr s' \<and> st_get (clp_reg i) s' = Inr v"
    using var_set_eq [OF assms(1,3,5)] assms(5) by (auto simp: var_set_def st_get_def sint_var vals_get_put)
  show "\<exists>s'. st_set (clp_const a) v s = Inr s' \<and> st_get (clp_const a) s' = Inr v"
    using mem_set_eq [OF assms(1,3)] assms(2,4)
    by (simp add: st_get_def mem_get_map_of [OF mem_ok_put] map_of_mem_put)
qed

theorem clp_state_roundtrip_witness:
  "(\<exists>s'. st_set (clp_reg (-2)) (clp_const 5) two_cells = Inr s' \<and> st_get (clp_reg (-2)) s' = Inr (clp_const 5)) \<and>
   (\<exists>s'. st_set (clp_const 4) (clp_const 5) two_cells = Inr s' \<and> st_get (clp_const 4) s' = Inr (clp_const 5))"
  by (rule clp_state_roundtrip) (auto simp: two_cells_def mem_ok_def var_ok_def clp_const_def clp_none_def clp_set_def)

text \<open>C14: the join of two close states succeeds and describes every machine state that one of them
  describes. Close states have as many registers and temporaries, and where both know a value, the two values are equal
  or progressions of the signed range that start less than \<open>2 ^ 31\<close> apart.\<close>

theorem clp_state_join_sound:
  assumes "st_close s t"
  shows "\<exists>u. st_join s t = Inr u \<and> (\<forall>M. st_rep s M \<or> st_rep t M \<longrightarrow> st_rep u M)"
  by (rule st_join_sound [OF assms])

definition more_cells :: clp_state where
  "more_cells = \<lparr>st_def = clp_all, st_mem = [(4, clp_const 3), (12, clp_const 1)],
     st_regs = [clp_const (-4), clp_set K_VAL 20 (-3) 2], st_tmps = []\<rparr>"

theorem clp_state_join_sound_witness:
  "\<exists>u. st_join two_cells more_cells = Inr u \<and> (\<forall>M. st_rep two_cells M \<or> st_rep more_cells M \<longrightarrow> st_rep u M)"
  by (rule clp_state_join_sound) code_simp

text \<open>Inverting a condition twice gives it back, and the inverse of a comparison holds of two
  words exactly when the comparison does not.\<close>

theorem condition_inversion:
  assumes "c \<noteq> C_MAX_COND"
  shows "\<exists>c'. invert c = Inr c' \<and> invert c' = Inr c \<and>
    (c \<notin> {C_NO_COND, C_ANY_COND} \<longrightarrow> (\<forall>x y. cond_holds c' x y \<longleftrightarrow> \<not> cond_holds c x y))"
proof -
  obtain c' where c': "invert c = Inr c'" using invert_total [OF assms] by blast
  then have "invert c' = Inr c" "c \<notin> {C_NO_COND, C_ANY_COND} \<Longrightarrow> cond_holds c' x y \<longleftrightarrow> \<not> cond_holds c x y" for x y
    by (auto intro: invert_involution dest: invert_negates)
  then show ?thesis using c' by blast
qed

theorem condition_inversion_witness:
  "\<exists>c'. invert C_ULT = Inr c' \<and> invert c' = Inr C_ULT \<and>
     (C_ULT \<notin> {C_NO_COND, C_ANY_COND} \<longrightarrow> (\<forall>x y. cond_holds c' x y \<longleftrightarrow> \<not> cond_holds C_ULT x y))"
  by (rule condition_inversion) simp

section \<open>ELM containers and integers\<close>

text \<open>C29: the ring buffer implements a FIFO queue. Any sequence of insertions, growing the buffer when
  it is full, appends to the list it stands for; as many removals give the elements back in that order
  and leave it empty; one more fails the assertion.\<close>

theorem queue_refines_list:
  assumes "vq_inv q"
  shows "vq_list (foldl vq_put q xs) = vq_list q @ xs \<and>
    (\<exists>q'. rfold (\<lambda>_ (ys, q). rbind (vq_get q) (\<lambda>(y, q'). Inr (ys @ [y], q'))) (vq_list q @ xs) ([], foldl vq_put q xs) =
       Inr (vq_list q @ xs, q') \<and> vq_inv q' \<and> vq_list q' = [] \<and> vq_get q' = Inl AssertFail)"
proof -
  have p: "vq_inv (foldl vq_put q xs)" "vq_list (foldl vq_put q xs) = vq_list q @ xs" using vq.put_all [OF assms] by auto
  show ?thesis using vq.fifo_order [OF p(1), of "[]"] p vq_get_fault by fastforce
qed

theorem queue_refines_list_witness: "vq_list (foldl vq_put (vq_new 4) [1 .. 9 :: int]) = [1 .. 9]"
  using queue_refines_list [OF vq_new_inv [of 4], of "[1 .. 9]"] vq_new_list [of 4] by simp

text \<open>C30: bit sets over \<open>n\<close> elements implement the subsets of \<open>{..<n}\<close>: insertion, removal, union,
  intersection, difference, tests and iteration are those of sets, and an index outside fails the assertion.\<close>

theorem bitset_refines_set:
  assumes "bv_rep n S s" "bv_rep n T t" "i < n" "n \<le> j"
  shows "(\<exists>u. bs_add s i = Inr u \<and> bv_rep n (insert i S) u) \<and> (\<exists>u. bs_remove s i = Inr u \<and> bv_rep n (S - {i}) u) \<and>
    (\<exists>u. bs_add_set s t = Inr u \<and> bv_rep n (S \<union> T) u) \<and> (\<exists>u. bs_mask s t = Inr u \<and> bv_rep n (S \<inter> T) u) \<and>
    (\<exists>u. bs_remove_set s t = Inr u \<and> bv_rep n (S - T) u) \<and>
    bs_contains s i = Inr (i \<in> S) \<and> bs_equals s t = Inr (S = T, s) \<and> bs_includes s t = Inr (T \<subseteq> S, s) \<and>
    bs_items s = sorted_list_of_set S \<and> bs_count s = card S \<and> bs_contains s j = Inl AssertFail"
  using assms by (intro conjI bs.add_rep bs.remove_rep bs.union_rep bs.inter_rep bs.diff_rep bs.contains_rep bs.equals_rep
    bs.incl_rep bs.items_rep bs.count_rep bs.contains_fault)

theorem bitset_refines_set_witness:
  "\<exists>s. bs_new 12 = Inr s \<and> (\<exists>u. bs_add s 10 = Inr u \<and> bv_rep 12 {10} u)"
proof -
  obtain s where s: "bs_new 12 = Inr s" "bv_rep 12 {} s" using bs.new_rep [of 12] by auto
  show ?thesis using bitset_refines_set [OF s(2) s(2), of 10 12] s(1) by auto
qed

text \<open>C31: the table lookups that count the bits of 64-bit words agree with the number of their set bits,
  and the left-most bit of a non-zero 32-bit word is its binary logarithm.\<close>

theorem popcount_tables:
  "ones64 i = card {k. bit i k} \<and> (j \<noteq> 0 \<longrightarrow> 2 ^ nat (msb32 j) \<le> unat j \<and> unat j < 2 ^ Suc (nat (msb32 j)))"
  using is_msb_msb32 [of j] by (auto simp: ones64_popcount popcount_def is_msb_def)

theorem popcount_tables_witness:
  "ones64 0 = card {k. bit (0 :: 64 word) k} \<and> 2 ^ nat (msb32 5) \<le> unat (5 :: 32 word) \<and> unat (5 :: 32 word) < 2 ^ Suc (nat (msb32 5))"
  using popcount_tables [of 0 5] by simp

text \<open>C32: up to \<^verbatim>\<open>2^31\<close>, \<^verbatim>\<open>leastUpperPowerOf2\<close> is the least power of two that is not less; above, the shift is
  undefined.\<close>

theorem power2_bounds:
  "(v \<noteq> 0 \<and> unat v \<le> 2 ^ 31 \<longrightarrow> (\<exists>r k. leastUpperPowerOf2_32 v = Inr r \<and> unat r = 2 ^ k \<and> unat v \<le> 2 ^ k \<and>
     (\<forall>l. unat v \<le> 2 ^ l \<longrightarrow> k \<le> l))) \<and>
   (2 ^ 31 < unat v \<longrightarrow> leastUpperPowerOf2_32 v = Inl Undefined)"
proof (intro conjI impI)
  assume "v \<noteq> 0 \<and> unat v \<le> 2 ^ 31"
  then obtain r where r: "leastUpperPowerOf2_32 v = Inr r" "is_lub_pow2 (unat v) (unat r)"
    using leastUpperPowerOf2_32_spec [of v] by blast
  then obtain k where "unat r = 2 ^ k" by (auto simp: is_lub_pow2_def)
  then show "\<exists>r k. leastUpperPowerOf2_32 v = Inr r \<and> unat r = 2 ^ k \<and> unat v \<le> 2 ^ k \<and> (\<forall>l. unat v \<le> 2 ^ l \<longrightarrow> k \<le> l)"
    using r by (intro exI [of _ r] exI [of _ k]) (auto simp: is_lub_pow2_def)
qed (rule leastUpperPowerOf2_32_undefined)

theorem power2_bounds_witness:
  "(\<exists>r k. leastUpperPowerOf2_32 5 = Inr r \<and> unat r = 2 ^ k \<and> unat (5 :: 32 word) \<le> 2 ^ k \<and>
     (\<forall>l. unat (5 :: 32 word) \<le> 2 ^ l \<longrightarrow> k \<le> l)) \<and> leastUpperPowerOf2_32 0xFFFFFFFF = Inl Undefined"
  using power2_bounds [of 5] power2_bounds [of "0xFFFFFFFF"] by simp

text \<open>C33: asking whether one of two distinct blocks, neither of which the entry reaches, dominates
  the other fails the assertion of \<^verbatim>\<open>dominates\<close>: each is in the other's set.\<close>

theorem dominates_fails_apart:
  assumes "wf_cfg g" "\<And>b. b < countBB g \<Longrightarrow> outs g b \<noteq> [] \<Longrightarrow> reachable g b"
    and "a < countBB g" "b < countBB g" "a \<noteq> b" "\<not> reachable g a" "\<not> reachable g b"
  shows "\<exists>di. dom_processCFG g = Some (Inr di) \<and> dominates (di_reverse di) a b = Inl AssertFail"
proof -
  obtain di where "dom_processCFG g = Some (Inr di)" "dom_table g (di_reverse di)"
    using dom_processCFG_marked [OF assms(1,2)] by blast
  then show ?thesis using dominates_disconnected assms(3-7) by blast
qed

definition apart_cfg :: cfg where
  "apart_cfg = \<lparr>cfg_bbs = [
     \<lparr>bb_flags = FLAG_Entry, bb_ins = [], bb_outs = []\<rparr>,
     \<lparr>bb_flags = 0, bb_ins = [], bb_outs = []\<rparr>,
     \<lparr>bb_flags = 0, bb_ins = [], bb_outs = []\<rparr>,
     \<lparr>bb_flags = FLAG_Exit, bb_ins = [], bb_outs = []\<rparr>]\<rparr>"

theorem dominates_fails_apart_witness:
  "\<exists>di. dom_processCFG apart_cfg = Some (Inr di) \<and> dominates (di_reverse di) 1 2 = Inl AssertFail"
proof (rule dominates_fails_apart)
  have c: "countBB apart_cfg = 4" by (simp add: countBB_def apart_cfg_def)
  have o: "\<forall>b < 4. outs apart_cfg b = [] \<and> ins apart_cfg b = []"
    unfolding less_4_cases by (simp add: outs_def ins_def apart_cfg_def)
  have "wf_edges apart_cfg" using o by (simp add: wf_edges_def c)
  moreover have "\<forall>b < 4. (isEntry apart_cfg b \<longleftrightarrow> b = 0) \<and> (isExit apart_cfg b \<longleftrightarrow> b = 4 - 1)"
    unfolding less_4_cases by (simp add: isEntry_def isExit_def apart_cfg_def flag_defs)
  ultimately show "wf_cfg apart_cfg" by (simp add: wf_cfg_def c)
  show "reachable apart_cfg b" if "b < countBB apart_cfg" "outs apart_cfg b \<noteq> []" for b using o that c by simp
  have "\<not> is_path (flow_edge Predecessor apart_cfg) 0 p b" if "b \<noteq> 0" "b < 4" for p b
  proof
    assume "is_path (flow_edge Predecessor apart_cfg) 0 p b"
    then show False
    proof (cases p)
      case Nil
      then show ?thesis using \<open>is_path (flow_edge Predecessor apart_cfg) 0 p b\<close> by simp
    next
      case (Cons x ys)
      then show ?thesis using \<open>is_path (flow_edge Predecessor apart_cfg) 0 p b\<close> that o
        by (cases ys) (auto simp: flow_edge_def not_calls_filter)
    qed
  qed
  then show "\<not> reachable apart_cfg 1" "\<not> reachable apart_cfg 2" by (auto simp: reachable_def)
qed (simp_all add: countBB_def apart_cfg_def)

text \<open>C34: bringing an equality or inequality with two operands to its canonical form always ends, for
  operands built by copies as the code builds them and whose constants have one value. The result has the operator of
  the comparison, a variable or an undetermined comparison on the left unless both sides are constant, and the truth
  of the comparison in every register and memory state, modulo \<^verbatim>\<open>2^32\<close>. (For an order comparison the truth may change,
  \<open>canonize_order_wraps\<close>.)\<close>

theorem filter_canonical:
  assumes "secmp_att c" "sc_op c \<in> {SE_EQ, SE_NE}" "sc_a c = Some a" "sc_b c = Some b" "symb_plain a" "symb_plain b"
  shows "\<exists>a' b'. secmp_canonize c = Some (SECmp (sc_op c) (Some a') (Some b')) \<and>
    (is_var a' \<or> symb_op a' \<in> {SE_CMP, SE_CMPU} \<or> is_seconst a' \<and> is_seconst b') \<and>
    (symb_word R M a' = symb_word R M b' \<longleftrightarrow> symb_word R M a = symb_word R M b)"
proof -
  have c: "c = SECmp (sc_op c) (Some a) (Some b)" using assms(3,4) by (cases c) auto
  have "cmp_plain c" using assms by (auto simp: cmp_plain_def)
  then obtain c' where c': "secmp_canonize c = Some c'" "cmp_round c' = (c', False)" "same_equal R M c c'" "sc_a c' \<noteq> None" "sc_b c' \<noteq> None"
    using secmp_canonize_both [OF assms(1), of R M] assms(3,4) by blast
  obtain a' b' where ab: "c' = SECmp (sc_op c') (Some a') (Some b')" using c'(4,5) by (cases c') auto
  have "cmp_equal R M c' = cmp_equal R M c" "sc_op c' = sc_op c" using c'(3) by (auto simp: same_equal_def)
  then show ?thesis
    using c'(1) ab c cmp_round_fixed [OF c'(2), of a' b'] by (metis cmp_equal.simps(1) secmp.sel)
qed

definition ex_cmp :: secmp where
  "ex_cmp = SECmp SE_EQ (Some (SEAdd True (SEReg (clp_const 0)) (SEConst (clp_const 1)))) (Some (SENeg (SEReg (clp_const 3))))"

theorem filter_canonical_witness:
  "\<exists>a' b'. secmp_canonize ex_cmp = Some (SECmp SE_EQ (Some a') (Some b')) \<and>
    (is_var a' \<or> symb_op a' \<in> {SE_CMP, SE_CMPU} \<or> is_seconst a' \<and> is_seconst b') \<and>
    (symb_word id id a' = symb_word id id b' \<longleftrightarrow> (0 :: 32 word) + 1 = - 3)"
  using filter_canonical [of ex_cmp "SEAdd True (SEReg (clp_const 0)) (SEConst (clp_const 1))" "SENeg (SEReg (clp_const 3))" id id]
  by (simp add: ex_cmp_def secmp_att_def)

text \<open>C35: the taken edge keeps every machine state that satisfies the condition of the branch. The filters on
  registers, and those on addresses, are alternatives of comparisons separated by \<^verbatim>\<open>OR\<close>; a state satisfies them when in
  some alternative each comparison holds of the word at its register or address and some member of its right side. The
  condition \<open>edge_fits\<close> follows the filters: each compares values for which the filter is sound (\<open>filter_fits\<close>: unknown or
  constant values, or progressions of the signed range, increasing for a lower bound), and the alternatives joined are close.\<close>

theorem filters_sound:
  assumes "st_rep d M" "edge_fits fp rf af d st" "filters_true reg_of M rf" "filters_true (\<lambda>a. a) M af"
  shows "\<exists>d' st'. updateEdge fp TAKEN (Some (rf, af)) d st = Inr (d', st') \<and> st_rep d' M"
  by (rule updateEdge_sound [OF assms])

definition ex_fpu :: fpu where
  "ex_fpu = \<lparr>fp_ceil = (\<lambda>_ _ _. 0), fp_floor = (\<lambda>_ _. 0)\<rparr>"

definition ex_reg_filters :: "secmp list" where
  "ex_reg_filters = [SECmp SE_EQ (Some (SEReg (clp_const 1))) (Some (SEConst (clp_const 5))), SECmp SE_OR None None,
     SECmp SE_LE (Some (SEReg (clp_const 0))) (Some (SEConst (clp_set K_VAL 0 1 2))),
     SECmp SE_GE (Some (SEReg (clp_const 1))) (Some (SEConst (clp_const 8)))]"

definition ex_addr_filters :: "secmp list" where
  "ex_addr_filters = [SECmp SE_UGT (Some (SEAddr (clp_const 4))) (Some (SEConst (clp_const 6)))]"

theorem filters_sound_witness:
  "\<exists>d' st'. updateEdge ex_fpu TAKEN (Some (ex_reg_filters, ex_addr_filters)) two_cells (pr_stats ex_prob) = Inr (d', st') \<and>
     st_rep d' two_cells_machine"
proof (rule filters_sound)
  show "st_rep two_cells two_cells_machine" by (rule two_cells_rep)
  show "edge_fits ex_fpu ex_reg_filters ex_addr_filters two_cells (pr_stats ex_prob)" by code_simp
  have "reg_of (clp_const i) = clp_reg (sint i)" for i by (simp add: reg_of_def clp_reg_def clp_const_def)
  moreover have "0 \<in> clp_gamma (clp_set K_VAL 0 1 2)" by (rule clp_bound_member)
  ultimately show "filters_true reg_of two_cells_machine ex_reg_filters"
    by (auto simp: filters_true_def ex_reg_filters_def filter_true_def loc_word_def sint_var var_ok_def m_get_def
        two_cells_machine_def se_truth_def)
  show "filters_true (\<lambda>a. a) two_cells_machine ex_addr_filters"
    by (simp add: filters_true_def ex_addr_filters_def filter_true_def loc_word_def two_cells_machine_def se_truth_def)
qed

text \<open>C36: on an edge that is not taken, the filters of a branch with several paths to its target cannot be
  negated: the separator of alternatives has no operands, and the copy of its operands goes through a null pointer.\<close>

theorem filter_alternatives_fail:
  assumes "kind \<noteq> TAKEN" "\<And>f. f \<in> set xs \<Longrightarrow> sc_a f \<noteq> None \<and> sc_b f \<noteq> None"
  shows "updateEdge fp kind (Some (xs @ SECmp SE_OR None None # ys, af)) d st = Inl Undefined"
  by (rule updateEdge_or_fault [OF assms])

theorem filter_alternatives_fail_witness:
  "updateEdge ex_fpu NOT_TAKEN (Some ([ex_cmp] @ SECmp SE_OR None None # [], [])) two_cells (pr_stats ex_prob) = Inl Undefined"
  by (rule filter_alternatives_fail) (auto simp: ex_cmp_def)

text \<open>C38: the dead code analysis decides every edge that some block of the graph lists, and it is marked never
  taken exactly when one of these blocks has the empty state.\<close>

theorem dead_edges:
  "dead_code g so e = (if \<exists>b < countBB g. e \<in> set (ins g b) \<union> set (outs g b)
     then Some (\<exists>b < countBB g. e \<in> set (ins g b) \<union> set (outs g b) \<and> st_equals (so b) st_EMPTY) else None)"
  by (rule dead_code_at [unfolded touches_def])

section \<open>Loops and execution times\<close>

text \<open>C8: the processor of loop information ends without a failure on the dominance information of the
  graph. The enclosing header of a block is the innermost loop around it. An edge is annotated exactly when it is not
  a call and leaves a loop, with a loop that it leaves, hence with the only one if it leaves one; the exit list of a
  header holds the edges annotated with it. (Which of several loops left is chosen is where the code and its
  documentation differ, \<open>exit_never_outer\<close>.)\<close>

theorem loops_found:
  assumes "wf_cfg g" "ins g 0 = []" and "\<forall>b < countBB g. outs g b \<noteq> [] \<longrightarrow> reachable g b"
  shows "\<exists>di li. dom_processCFG g = Some (Inr di) \<and> lib_processCFG g di = Some (Inr li) \<and>
    (\<forall>b < countBB g. \<forall>h. li_enclosing li ! b = Some h \<longleftrightarrow> innermost g (\<lambda>h. in_loop g h b) h) \<and>
    (\<forall>e. li_exit li e \<noteq> None \<longleftrightarrow> e \<in> all_edges g \<and> e_kind e \<noteq> CALL \<and> (\<exists>h. leaves g h e)) \<and>
    (\<forall>e h. li_exit li e = Some h \<longrightarrow> leaves g h e) \<and>
    (\<forall>h. (case li_list li h of None \<Rightarrow> {} | Some l \<Rightarrow> set l) = {e. li_exit li e = Some h})"
proof -
  obtain di where di: "dom_processCFG g = Some (Inr di)" "loop_input g di"
    using dom_gives_loop_input [OF assms] by blast
  obtain li where li: "lib_processCFG g di = Some (Inr li)"
      "\<forall>b < countBB g. \<forall>h. li_enclosing li ! b = Some h \<longleftrightarrow> innermost g (\<lambda>h. in_loop g h b) h"
      "\<forall>h. (case li_list li h of None \<Rightarrow> {} | Some l \<Rightarrow> set l) = {e. li_exit li e = Some h}"
    using lib_processCFG_loops [OF di(2)] by blast
  then show ?thesis using di(1) exit_annotated [OF di(2) li(1)] by (intro exI [of _ di] exI [of _ li] conjI) blast+
qed

theorem loops_found_witness:
  "\<exists>di li. dom_processCFG loop_cfg = Some (Inr di) \<and> lib_processCFG loop_cfg di = Some (Inr li) \<and>
    (\<forall>b < 4. \<forall>h. li_enclosing li ! b = Some h \<longleftrightarrow> innermost loop_cfg (\<lambda>h. in_loop loop_cfg h b) h) \<and>
    (\<forall>e. li_exit li e \<noteq> None \<longleftrightarrow> e \<in> all_edges loop_cfg \<and> e_kind e \<noteq> CALL \<and> (\<exists>h. leaves loop_cfg h e)) \<and>
    (\<forall>e h. li_exit li e = Some h \<longrightarrow> leaves loop_cfg h e) \<and>
    (\<forall>h. (case li_list li h of None \<Rightarrow> {} | Some l \<Rightarrow> set l) = {e. li_exit li e = Some h})"
  using loops_found [OF loop_cfg_wf] loop_cfg_reachable by simp

lemma wcet_input_of:
  assumes "ipet_input pg cfgs entry"
    and "\<forall>k \<in> set cfgs. dom_processCFG (cfg_of pg k) = Some (Inr (doms k)) \<and>
      (\<forall>b < countBB (cfg_of pg k). outs (cfg_of pg k) b \<noteq> [] \<longrightarrow> reachable (cfg_of pg k) b)"
  shows "wcet_input pg cfgs entry doms"
proof -
  have "loop_input (cfg_of pg k) (doms k)" if k: "k \<in> set cfgs" for k
  proof -
    have "wf_program pg" "k < length (pg_cfgs pg)" using assms(1) k by (auto simp: ipet_input_def)
    then have "\<exists>di. dom_processCFG (cfg_of pg k) = Some (Inr di) \<and> loop_input (cfg_of pg k) di"
      using dom_gives_loop_input wf_program_cfg(1,3) assms(2) k by blast
    then show ?thesis using assms(2) k by auto
  qed
  then show ?thesis using assms(1) by (simp add: wcet_input_def)
qed

text \<open>C1: the WCET computed from the constraints bounds the time of every complete run of the program
  that respects the loop bounds and whose edges cost no more than the times given to the objective, if the solver keeps
  its promise. The chain of processors does not fail; a result of -1 says that the solver found no optimum.\<close>

theorem ipet_sound:
  assumes "ipet_input pg cfgs entry" "timed pg cfgs tm" "lp_solver_ok solver"
    and "\<forall>k \<in> set cfgs. dom_processCFG (cfg_of pg k) = Some (Inr (doms k)) \<and>
      (\<forall>b < countBB (cfg_of pg k). outs (cfg_of pg k) b \<noteq> [] \<longrightarrow> reachable (cfg_of pg k) b)"
    and "\<forall>x. ff_unrolled ff x = []"
    and "run pg entry t" "keeps_bounds pg cfgs ff t" "costs_within pg cfgs tm cost"
  shows "\<exists>w. ipet_wcet pg cfgs entry doms ff tm solver cancelled = Inr w \<and> (w \<noteq> -1 \<longrightarrow> run_time cost t \<le> w)"
proof -
  have "wcet_input pg cfgs entry doms" using assms(1,4) by (rule wcet_input_of)
  from ipet_wcet_bounds [OF this _ assms(2,3,6,7,8)] assms(5) show ?thesis by blast
qed

theorem ipet_sound_witness:
  "ipet_wcet ex_pg [0, 1] 0 ex_doms ex_ff ex_tm ex_solver False = Inr 35 \<and> run_time ex_cost ex_run = 20 \<and>
   run_time ex_cost ex_run \<le> 35"
proof -
  have "\<forall>x. ff_unrolled ex_ff x = []" by (simp add: ex_ff_def)
  moreover have "\<forall>k \<in> set [0, 1]. dom_processCFG (cfg_of ex_pg k) = Some (Inr (ex_doms k)) \<and>
      (\<forall>b < countBB (cfg_of ex_pg k). outs (cfg_of ex_pg k) b \<noteq> [] \<longrightarrow> reachable (cfg_of ex_pg k) b)"
    using ex_doms_computed loop_cfg_reachable leaf_cfg_reachable by (simp add: ex_doms_def)
  ultimately show ?thesis
    using ipet_sound [OF ex_ipet_input ex_timed ex_solver_ok _ _ ex_run_ok ex_keeps_bounds ex_costs, of ex_doms False]
      ex_wcet ex_run_time by auto
qed

text \<open>C37: with the instruction cache, the WCET computed bounds the time of every complete run plus
  the penalty of its misses, with or without the detection of linked l-blocks, when the misses of the run are within what
  the categories promise (\<open>misses_within\<close>: none for an always hit, all for an always miss, and for the first misses
  of one cache block and one loop together one per entry into the loop).\<close>

theorem icache_wcet_sound:
  assumes "ipet_input pg cfgs entry" "timed pg cfgs tm" "lp_solver_ok solver"
    and "\<forall>k \<in> set cfgs. dom_processCFG (cfg_of pg k) = Some (Inr (doms k)) \<and>
      (\<forall>b < countBB (cfg_of pg k). outs (cfg_of pg k) b \<noteq> [] \<longrightarrow> reachable (cfg_of pg k) b)"
    and "\<forall>x. ff_unrolled ff x = []"
    and "run pg entry t" "keeps_bounds pg cfgs ff t" "costs_within pg cfgs tm cost"
    and "\<forall>lbset \<in> set lbsets. lset_ok pg cfgs lbset" "misses_within pg t lbsets miss"
  shows "\<exists>w. icache_wcet pg cfgs entry doms ff tm link lbsets penalty solver cancelled = Inr w \<and>
    (w \<noteq> -1 \<longrightarrow> run_time cost t + penalty * all_misses lbsets miss \<le> w)"
proof -
  have "wcet_input pg cfgs entry doms" using assms(1,4) by (rule wcet_input_of)
  from icache_wcet_bounds [OF this _ assms(2,3,6-10)] assms(5) show ?thesis by blast
qed

theorem icache_wcet_sound_witness:
  "icache_wcet plain_pg [0] 0 (\<lambda>_. loop_doms) ex_ff ex_tm True [ex_lblocks] 10 plain_solver False = Inr 59 \<and>
   run_time ex_cost plain_run = 17 \<and> all_misses [ex_lblocks] ex_misses = 2 \<and>
   run_time ex_cost plain_run + 10 * all_misses [ex_lblocks] ex_misses \<le> 59"
proof -
  have "\<forall>x. ff_unrolled ex_ff x = []" by (simp add: ex_ff_def)
  moreover have "\<forall>k \<in> set [0]. dom_processCFG (cfg_of plain_pg k) = Some (Inr loop_doms) \<and>
      (\<forall>b < countBB (cfg_of plain_pg k). outs (cfg_of plain_pg k) b \<noteq> [] \<longrightarrow> reachable (cfg_of plain_pg k) b)"
    using plain_doms plain_reachable by simp
  moreover have "\<forall>lbset \<in> set [ex_lblocks]. lset_ok plain_pg [0] lbset" using ex_lset_ok by simp
  ultimately show ?thesis
    using icache_wcet_sound [OF plain_ipet_input plain_costs(1) plain_solver_ok _ _ plain_run_ok plain_keeps_bounds plain_costs(2) _
        ex_misses_within, of "\<lambda>_. loop_doms" True 10 False]
      plain_wcet plain_costs(3) ex_all_misses by auto
qed

text \<open>C9: the variables assigned to blocks and edges and the structural, call and entry
  constraints are built without a failure, and the counts of every complete run, extended to the variables of multiple
  calls, satisfy all the constraints.\<close>

theorem control_constraints:
  assumes "ipet_input pg cfgs entry" "run pg entry t"
  shows "\<exists>ip0 ip val. va_processWorkSpace pg cfgs ipet_new = Inr ip0 \<and> bc_processWorkSpace pg cfgs entry ip0 = Inr ip \<and>
    (\<forall>k b v. ip_varb ip (k, b) = Some v \<longrightarrow> val v = int (count_list t (At k b))) \<and>
    (\<forall>e v. ip_vare ip e = Some v \<longrightarrow> val v = int (count_list t (Through e))) \<and>
    (\<forall>k \<in> set cfgs. \<forall>b < countBB (cfg_of pg k). ip_varb ip (k, b) \<noteq> None) \<and> sys_sat val (ip_sys ip)"
proof -
  obtain ip0 ip val where "va_processWorkSpace pg cfgs ipet_new = Inr ip0" "bc_processWorkSpace pg cfgs entry ip0 = Inr ip"
      "covered pg cfgs ip" "counts t val ip" "sys_sat val (ip_sys ip)"
    using control_constraints_hold [OF assms] by blast
  then show ?thesis by (intro exI [of _ ip0] exI [of _ ip] exI [of _ val]) (simp add: covered_def counts_def at_def)
qed

theorem control_constraints_witness:
  "\<exists>ip0 ip val. va_processWorkSpace ex_pg [0, 1] ipet_new = Inr ip0 \<and> bc_processWorkSpace ex_pg [0, 1] 0 ip0 = Inr ip \<and>
    (\<forall>k b v. ip_varb ip (k, b) = Some v \<longrightarrow> val v = int (count_list ex_run (At k b))) \<and> sys_sat val (ip_sys ip)"
  using control_constraints [OF ex_ipet_input ex_run_ok] by blast

text \<open>C39: the matrix given to the solver has the solutions of the system: a valuation that satisfies
  the constraints is a feasible point with the same objective, and a feasible point is such a valuation.\<close>

theorem lp_matrix_refines:
  assumes "sys_wf s"
  shows "(sys_sat val s \<and> (\<forall>v \<in> fst ` set (s_vars s). 0 \<le> val v) \<longrightarrow>
      lp_feasible (lp_of s) (columns_of s val) \<and> lp_value (lp_of s) (columns_of s val) = obj_val val s) \<and>
    (lp_feasible (lp_of s) x \<longrightarrow>
      sys_sat (\<lambda>v. x (the (findVar s v))) s \<and> lp_value (lp_of s) x = obj_val (\<lambda>v. x (the (findVar s v))) s)"
  using lp_of_complete [OF assms] lp_of_sound [OF assms] by blast

definition ex_sys :: ilp_sys where
  "ex_sys = (let (v, s) = newVar (sys_new True); (w, s) = newVar s; (c, s) = newConstraint [] LT 5 s
     in addObjectFunction 3 (Some w) (addLeft c 2 (Some v) (addRight c (-1) (Some w) s)))"

theorem lp_matrix_refines_witness:
  "lp_rows (lp_of ex_sys) = [([0, 1, 2], LE, 4)] \<and> lp_obj (lp_of ex_sys) = [0, 3, 0] \<and>
   lp_feasible (lp_of ex_sys) (\<lambda>j. if j = 1 then 2 else 1) \<and> sys_sat (\<lambda>v. if the (findVar ex_sys v) = 1 then 2 else 1) ex_sys"
proof -
  have wf: "sys_wf ex_sys" by code_simp
  have r: "lp_rows (lp_of ex_sys) = [([0, 1, 2], LE, 4)]" "lp_obj (lp_of ex_sys) = [0, 3, 0]" "lp_cols (lp_of ex_sys) = 2" by code_simp+
  have "{1..2 :: nat} = {1, 2}" by auto
  then have x: "lp_feasible (lp_of ex_sys) (\<lambda>j. if j = 1 then 2 else 1)" unfolding lp_feasible_def r row_val_def by simp
  then show ?thesis using lp_matrix_refines [OF wf, of "\<lambda>_. 0" "\<lambda>j. if j = 1 then 2 else 1"] r by blast
qed

text \<open>C40: the recursive collection of CFGs ends, whatever the call graph, and every CFG that a chain of
  calls reaches from the entry or an added CFG is eventually collected.\<close>

theorem calls_collected:
  assumes "callees_bound pg" "set (entry # added) \<subseteq> {..<length (pg_cfgs pg)}"
    and "k \<in> set (entry # added)" "(calls_cfg pg)\<^sup>*\<^sup>* k f"
  shows "\<exists>co. collector_processWorkSpace pg entry added True = Some co \<and> f \<in> set (co_cfgs co)"
  using collector_reaches [OF assms] .

theorem calls_collected_witness:
  "\<exists>co. collector_processWorkSpace ex_pg 0 [] True = Some co \<and> 1 \<in> set (co_cfgs co)"
proof -
  have "calls_cfg ex_pg 0 1" by (simp add: calls_cfg_def)
  then show ?thesis using calls_collected [of ex_pg 0 "[]" 0 1, OF _ _ _ r_into_rtranclp] ex_wf_program by (simp add: wf_program_def)
qed

end
